(* ===== verification/Prelude.thy ===== *)
theory Prelude
  imports Main "HOL-Library.Word" "HOL-Library.Multiset"
begin

text \<open>
  What the components share: the names of the machine types of the 68K targets
  (\<open>char\<close> 8 bits, \<open>short\<close> 16, \<open>int\<close>, \<open>long\<close> and pointers 32, big-endian), the collections of
  rewrite rules the component proofs use, and generic lemmas on words, lists and
  multisets.
\<close>

unbundle bit_operations_syntax

type_synonym u8 = "8 word"
type_synonym u16 = "16 word"
type_synonym u32 = "32 word"
type_synonym memory = "u32 \<Rightarrow> u8"

named_theorems word_view \<open>reading word operations through unat\<close>

section \<open>Words read as natural numbers\<close>

lemma u32_less [simp]: "unat (x :: u32) < 4294967296"
  using unsigned_less [of x, where 'a = nat] by simp

lemma u32_uint_less [simp]: "uint (x :: u32) < 4294967296"
  using unsigned_less [of x, where 'a = int] by simp

lemma u16_less [simp]: "unat (x :: u16) < 65536"
  using unsigned_less [of x, where 'a = nat] by simp

lemma u8_less [simp]: "unat (x :: u8) < 256"
  using unsigned_less [of x, where 'a = nat] by simp

lemma u32_unat_add [word_view]:
  "unat (a :: u32) + unat b < 4294967296 \<Longrightarrow> unat (a + b) = unat a + unat b"
  by (simp add: unat_word_ariths)

lemma u32_unat_sub [word_view]:
  "unat (b :: u32) \<le> unat a \<Longrightarrow> unat (a - b) = unat a - unat b"
  by (simp add: unat_sub_if_size)

lemma u32_unat_mult [word_view]:
  "unat (a :: u32) * unat b < 4294967296 \<Longrightarrow> unat (a * b) = unat a * unat b"
  by (simp add: unat_word_ariths)

lemma u32_unat_of_nat [word_view]:
  "n < 4294967296 \<Longrightarrow> unat (of_nat n :: u32) = n"
  by (simp add: unat_of_nat)

lemma u16_unat_of_nat [word_view]:
  "n < 65536 \<Longrightarrow> unat (of_nat n :: u16) = n"
  by (simp add: unat_of_nat)

lemma u8_unat_of_nat [word_view]:
  "n < 256 \<Longrightarrow> unat (of_nat n :: u8) = n"
  by (simp add: unat_of_nat)

lemma unat_ucast_u8_u32 [simp]: "unat (ucast (x :: u8) :: u32) = unat x"
  by (subst unsigned_ucast_eq, rule take_bit_nat_eq_self, rule order.strict_trans [OF u8_less]) simp

lemma unat_ucast_u16_u32 [simp]: "unat (ucast (x :: u16) :: u32) = unat x"
  by (subst unsigned_ucast_eq, rule take_bit_nat_eq_self, rule order.strict_trans [OF u16_less]) simp

lemma unat_ucast_u8_u16 [simp]: "unat (ucast (x :: u8) :: u16) = unat x"
  by (subst unsigned_ucast_eq, rule take_bit_nat_eq_self, rule order.strict_trans [OF u8_less]) simp

lemma u32_eqI: "unat (a :: u32) = unat b \<Longrightarrow> a = b"
  by (simp add: word_unat_eq_iff)

lemma sint_eq_iff [simp]: "sint (a :: 'a::len word) = sint b \<longleftrightarrow> a = b"
  by (auto dest: signed_word_eqI)

lemma uint_eq_iff: "uint (a :: 'a::len word) = uint b \<longleftrightarrow> a = b"
  by (simp add: word_uint_eq_iff)

lemma sint_zero_iff [simp]: "sint (a :: 'a::len word) = 0 \<longleftrightarrow> a = 0"
  using sint_eq_iff [of a 0] by simp

lemma zero_sint_iff [simp]: "0 = sint (a :: 'a::len word) \<longleftrightarrow> a = 0"
  using sint_zero_iff [of a] by (simp only: eq_commute)

lemma sint_u32: "sint (i :: u32) = (if uint i < 2147483648 then uint i else uint i - 4294967296)"
proof -
  have u: "0 \<le> uint i" "uint i < 4294967296" by simp_all
  have s: "sint i = (uint i + 2147483648) mod 4294967296 - 2147483648"
    by (simp add: sint_uint signed_take_bit_eq_take_bit_shift take_bit_eq_mod)
  show ?thesis
  proof (cases "uint i < 2147483648")
    case True
    with s u show ?thesis by (simp add: mod_pos_pos_trivial)
  next
    case False
    then have "(uint i - 2147483648) mod 4294967296 = uint i - 2147483648"
      by (intro mod_pos_pos_trivial) (use u in linarith)+
    moreover have "(uint i + 2147483648) mod 4294967296 = (uint i + 2147483648 - 4294967296) mod 4294967296"
      by (rule mod_pos_geq) (use False in linarith)+
    ultimately show ?thesis using False s by simp
  qed
qed

lemma sint_nonneg: "0 \<le> sint (i :: u32) \<Longrightarrow> unat i = nat (sint i)"
proof -
  assume n: "0 \<le> sint i"
  have "sint i = uint i"
  proof (rule ccontr)
    assume "sint i \<noteq> uint i"
    then have "sint i = uint i - 4294967296" by (simp add: sint_u32 split: if_splits)
    with n u32_uint_less [of i] show False by linarith
  qed
  then show ?thesis by simp
qed

lemma unat_sub_wrap: "unat (x - y :: u32) =
    (if unat y \<le> unat x then unat x - unat y else 4294967296 + unat x - unat y)"
  by (simp add: unat_sub_if_size word_size) arith

lemma unat_neg_u32: "unat (- y :: u32) = (if unat y = 0 then 0 else 4294967296 - unat y)"
  using unat_sub_wrap [of 0 y] by simp

lemma sint_neg: "sint (i :: u32) < 0 \<Longrightarrow> unat (- i) = nat (- sint i)"
proof -
  assume n: "sint i < 0"
  define k where "k = unat i"
  have u: "uint i = int k" "unat i = k" by (simp_all add: k_def)
  from n have "sint i = int k - 4294967296" "0 < k"
    by (simp_all add: sint_u32 u split: if_splits)
  with u show ?thesis by (simp add: unat_neg_u32)
qed

lemma and_minus_exp: "x AND - (2 ^ k) = push_bit k (drop_bit k (x :: 'a::len word))"
  by (rule bit_word_eqI) (auto simp: minus_exp_eq_not_mask bit_simps)

lemma unat_and_minus_exp: "unat (x AND - (2 ^ k) :: u32) = unat x div 2 ^ k * 2 ^ k"
proof -
  have "unat x div 2 ^ k * 2 ^ k \<le> unat x" by simp
  then have b: "unat x div 2 ^ k * 2 ^ k < 4294967296" using u32_less [of x] by (rule le_less_trans)
  have "unat (x AND - (2 ^ k)) = take_bit 32 (push_bit k (drop_bit k (unat x)))"
    by (simp add: and_minus_exp unsigned_push_bit_eq unat_drop_bit_eq)
  also have "\<dots> = take_bit 32 (unat x div 2 ^ k * 2 ^ k)"
    by (simp add: push_bit_eq_mult drop_bit_eq_div)
  finally show ?thesis using b by (simp add: take_bit_nat_eq_self)
qed

text \<open>Rounding up to a power of two, \<open>(x + a - 1) & -a\<close>: the least multiple not below.\<close>

lemma round_up_exp:
  assumes "unat x + 2 ^ k \<le> 4294967296"
  shows "unat ((x + 2 ^ k - 1) AND - (2 ^ k) :: u32) = (unat x + (2 ^ k - 1)) div 2 ^ k * 2 ^ k"
proof -
  have k: "(2 :: nat) ^ k - 1 < 4294967296" using assms by simp
  have "(2 ^ k - 1 :: u32) = of_nat (2 ^ k - 1)" by (simp add: of_nat_diff)
  then have u: "unat (2 ^ k - 1 :: u32) = 2 ^ k - 1"
    by (simp only: u32_unat_of_nat [OF k])
  have "unat (x + (2 ^ k - 1)) = unat x + (2 ^ k - 1)"
    using assms by (subst u32_unat_add) (simp_all add: u)
  then have "unat (x + 2 ^ k - 1) = unat x + (2 ^ k - 1)"
    by (simp add: add_diff_eq)
  then show ?thesis by (simp add: unat_and_minus_exp)
qed

section \<open>Big-endian bytes\<close>

text \<open>
  The targets are big-endian, so \<open>ntohs\<close>, \<open>htons\<close>, \<open>ntohl\<close> and \<open>htonl\<close> of
  \<^verbatim>\<open>include/types.h\<close> are the identity and a 16- or 32-bit field of a packed
  structure is its bytes, most significant first.
\<close>

definition be16 :: "u8 \<Rightarrow> u8 \<Rightarrow> u16" where
  "be16 h l = push_bit 8 (ucast h) OR ucast l"

definition be32 :: "u8 \<Rightarrow> u8 \<Rightarrow> u8 \<Rightarrow> u8 \<Rightarrow> u32" where
  "be32 a b c d = push_bit 24 (ucast a) OR push_bit 16 (ucast b) OR push_bit 8 (ucast c) OR ucast d"

definition bytes16 :: "u16 \<Rightarrow> u8 list" where
  "bytes16 w = [ucast (drop_bit 8 w), ucast w]"

definition bytes32 :: "u32 \<Rightarrow> u8 list" where
  "bytes32 w = [ucast (drop_bit 24 w), ucast (drop_bit 16 w), ucast (drop_bit 8 w), ucast w]"

definition bswap16 :: "u16 \<Rightarrow> u16" where
  "bswap16 w = be16 (ucast w) (ucast (drop_bit 8 w))"

lemma length_bytes16 [simp]: "length (bytes16 w) = 2"
  by (simp add: bytes16_def)

lemma length_bytes32 [simp]: "length (bytes32 w) = 4"
  by (simp add: bytes32_def)

lemma be16_bytes16 [simp]: "be16 (bytes16 w ! 0) (bytes16 w ! 1) = w"
  by (rule bit_word_eqI) (auto simp: be16_def bytes16_def bit_simps)

lemma bswap_be16: "ucast (bswap16 (be16 a b)) = a" "ucast (drop_bit 8 (bswap16 (be16 a b))) = b"
  by (rule bit_eqI; auto simp: bswap16_def be16_def bit_simps dest: bit_imp_le_length)+

lemma be32_bytes32 [simp]:
  "be32 (bytes32 w ! 0) (bytes32 w ! 1) (bytes32 w ! 2) (bytes32 w ! 3) = w"
proof (rule bit_word_eqI)
  fix n assume "n < LENGTH(32)"
  then consider "n < 8" | "8 \<le> n" "n < 16" | "16 \<le> n" "n < 24" | "24 \<le> n" "n < 32"
    by fastforce
  then show "bit (be32 (bytes32 w ! 0) (bytes32 w ! 1) (bytes32 w ! 2) (bytes32 w ! 3)) n = bit w n"
    by cases (auto simp: be32_def bytes32_def bit_simps)
qed

section \<open>Lists related pairwise by a symmetric relation\<close>

lemma sorted_wrt_sym_mset:
  assumes "symp R" and "mset xs = mset ys" and "sorted_wrt R xs"
  shows "sorted_wrt R ys"
  using assms(2,3)
proof (induction xs arbitrary: ys)
  case Nil
  then show ?case by simp
next
  case (Cons x xs)
  from Cons.prems(1) have "x \<in> set ys"
    by (metis list.set_intros(1) set_mset_mset)
  then obtain as bs where ys: "ys = as @ x # bs"
    by (auto simp: in_set_conv_decomp)
  with Cons.prems(1) have m: "mset xs = mset (as @ bs)" by simp
  from Cons.IH [OF m] Cons.prems(2) have s: "sorted_wrt R (as @ bs)" by simp
  from m have "set xs = set as \<union> set bs"
    by (metis set_append set_mset_mset)
  with Cons.prems(2) have "\<forall>y \<in> set as \<union> set bs. R x y" by simp
  with s ys assms(1) show ?case
    by (auto simp: sorted_wrt_append dest: sympD)
qed

section \<open>The interface of a lookup table\<close>

text \<open>What a client relies on when it stores under a key and looks the key up again.\<close>

locale table =
  fixes lookup :: "'c \<Rightarrow> 'k \<Rightarrow> 'v option"
    and store :: "'c \<Rightarrow> 'k \<Rightarrow> 'v \<Rightarrow> 'c"
  assumes lookup_same: "lookup (store c k v) k = Some v"
    and lookup_other: "k \<noteq> j \<Longrightarrow> lookup (store c k v) j = lookup c j"
begin

lemma lookup_store: "lookup (store c k v) j = (if j = k then Some v else lookup c j)"
  by (simp add: lookup_same lookup_other)

lemma lookup_stores:
  "lookup (foldl (\<lambda>c (k, v). store c k v) c kvs) j =
     (case map_of (rev kvs) j of Some v \<Rightarrow> Some v | None \<Rightarrow> lookup c j)"
proof (induction kvs arbitrary: c)
  case (Cons kv kvs)
  obtain k v where "kv = (k, v)" by fastforce
  with Cons.IH [of "store c k v"] show ?case
    by (auto simp: map_add_def lookup_store split: option.splits)
qed simp

end

end
