(* ===== verification/Tinyalloc.thy ===== *)
theory Tinyalloc
  imports Prelude
begin

text \<open>
  The heap allocator of \<^verbatim>\<open>lib/tinyalloc.c\<close> and the \<open>malloc\<close> family of
  \<^verbatim>\<open>lib/stdlib.c\<close> on top of it. A \<open>Block\<close> node is its number in the array that
  follows the heap header (its own address) with its two data fields; the three linked lists
  of the header are HOL lists of nodes, so that relinking a node is moving it between lists.
  Addresses and sizes are 32-bit words and wrap exactly as \<open>size_t\<close> does.
\<close>

section \<open>State\<close>

datatype block = Block (bid: nat) (baddr: u32) (bsize: u32)

record heap =
  hfree :: "block list"
  hused :: "block list"
  hfresh :: "block list"
  htop :: u32
  heap_limit :: u32
  heap_split_thresh :: u32
  heap_alignment :: u32
  heap_max_blocks :: u32

section \<open>Operations\<close>

fun insert_block :: "block \<Rightarrow> block list \<Rightarrow> block list" where
  "insert_block b [] = [b]"
| "insert_block b (p # ps) =
     (if baddr b \<le> baddr p then b # p # ps else p # insert_block b ps)"

text \<open>\<open>release_blocks\<close> pushes each node of the run on the fresh list, cleared.\<close>

fun release_blocks :: "block list \<Rightarrow> block list \<Rightarrow> block list" where
  "release_blocks [] fresh = fresh"
| "release_blocks (s # run) fresh = release_blocks run (Block (bid s) 0 0 # fresh)"

text \<open>The inner loop of \<open>compact\<close>: the nodes after \<open>prev\<close> that continue it without
  a gap, and the rest of the list.\<close>

fun scan_run :: "block \<Rightarrow> block list \<Rightarrow> block list \<times> block list" where
  "scan_run prev [] = ([], [])"
| "scan_run prev (s # ss) =
     (if baddr prev + bsize prev = baddr s
      then (let (run, rest) = scan_run s ss in (s # run, rest))
      else ([], s # ss))"

lemma scan_run_append: "scan_run p ss = (run, rest) \<Longrightarrow> run @ rest = ss"
  by (induction p ss arbitrary: run rest rule: scan_run.induct)
    (auto split: if_splits prod.splits)

lemma scan_run_length: "scan_run p ss = (run, rest) \<Longrightarrow> length ss = length run + length rest"
  by (drule scan_run_append) auto

function compact :: "block list \<Rightarrow> block list \<Rightarrow> block list \<times> block list" where
  "compact [] fresh = ([], fresh)"
| "compact (p # ps) fresh =
     (let (run, rest) = scan_run p ps in
      if run = [] then (let (fs, fr) = compact ps fresh in (p # fs, fr))
      else let prev = last run;
               new_size = baddr prev - baddr p + bsize prev;
               (fs, fr) = compact rest (release_blocks run fresh)
           in (Block (bid p) (baddr p) new_size # fs, fr))"
  by pat_completeness auto
termination
  by (relation "measure (length \<circ> fst)")
    (auto simp: less_Suc_eq_le dest: scan_run_length [OF sym])

definition ta_init :: "u32 \<Rightarrow> u32 \<Rightarrow> u32 \<Rightarrow> u32 \<Rightarrow> u32 \<Rightarrow> heap" where
  "ta_init base limit heap_blocks split_thresh alignment =
     \<lparr>hfree = [], hused = [],
      hfresh = map (\<lambda>i. Block i 0 0) [0..<Suc (unat (heap_blocks - 1))],
      htop = base + 16 + heap_blocks * 12,
      heap_limit = limit, heap_split_thresh = split_thresh,
      heap_alignment = alignment, heap_max_blocks = heap_blocks\<rparr>"

fun unlink_used :: "u32 \<Rightarrow> block list \<Rightarrow> (block \<times> block list) option" where
  "unlink_used a [] = None"
| "unlink_used a (b # bs) =
     (if a = baddr b then Some (b, bs)
      else map_option (\<lambda>(x, r). (x, b # r)) (unlink_used a bs))"

definition ta_free :: "u32 \<Rightarrow> heap \<Rightarrow> bool \<times> heap" where
  "ta_free a h =
     (case unlink_used a (hused h) of
        None \<Rightarrow> (False, h)
      | Some (b, rest) \<Rightarrow>
          (let (fs, fr) = compact (insert_block b (hfree h)) (hfresh h)
           in (True, h\<lparr>hused := rest, hfree := fs, hfresh := fr\<rparr>)))"

definition round_num :: "u32 \<Rightarrow> u32 \<Rightarrow> u32" where
  "round_num alignment num = (num + alignment - 1) AND (- alignment)"

definition is_top :: "heap \<Rightarrow> u32 \<Rightarrow> block \<Rightarrow> bool" where
  "is_top h num p \<longleftrightarrow>
     htop h \<le> baddr p + bsize p \<and> baddr p + num \<le> heap_limit h"

fun find_fit :: "heap \<Rightarrow> u32 \<Rightarrow> block list \<Rightarrow> (block \<times> block list) option" where
  "find_fit h num [] = None"
| "find_fit h num (p # ps) =
     (if is_top h num p \<or> num \<le> bsize p then Some (p, ps)
      else map_option (\<lambda>(x, r). (x, p # r)) (find_fit h num ps))"

definition alloc_block :: "u32 \<Rightarrow> heap \<Rightarrow> block option \<times> heap" where
  "alloc_block num0 h =
     (let num = round_num (heap_alignment h) num0; top = htop h in
      case find_fit h num (hfree h) of
        Some (p, fs) \<Rightarrow>
          (if is_top h num p then
             (let p' = Block (bid p) (baddr p) num
              in (Some p', h\<lparr>hfree := fs, hused := p' # hused h, htop := baddr p + num\<rparr>))
           else (case hfresh h of
               [] \<Rightarrow> (Some p, h\<lparr>hfree := fs, hused := p # hused h\<rparr>)
             | s # fresh \<Rightarrow>
                 (let excess = bsize p - num in
                  if heap_split_thresh h \<le> excess then
                    (let p' = Block (bid p) (baddr p) num;
                         split = Block (bid s) (baddr p + num) excess;
                         (fs', fr') = compact (insert_block split fs) fresh
                     in (Some p', h\<lparr>hfree := fs', hused := p' # hused h, hfresh := fr'\<rparr>))
                  else (Some p, h\<lparr>hfree := fs, hused := p # hused h\<rparr>))))
      | None \<Rightarrow>
          (case hfresh h of
             [] \<Rightarrow> (None, h)
           | s # fresh \<Rightarrow>
               (let new_top = top + num in
                if new_top \<le> heap_limit h then
                  (let p = Block (bid s) top num
                   in (Some p, h\<lparr>hfresh := fresh, hused := p # hused h, htop := new_top\<rparr>))
                else (None, h))))"

text \<open>A null pointer is address 0.\<close>

definition ta_alloc :: "u32 \<Rightarrow> heap \<Rightarrow> u32 \<times> heap" where
  "ta_alloc num h =
     (case alloc_block num h of (Some b, h') \<Rightarrow> (baddr b, h') | (None, h') \<Rightarrow> (0, h'))"

definition count_blocks :: "block list \<Rightarrow> u32" where
  "count_blocks bs = foldl (\<lambda>n _. n + 1) 0 bs"

definition count_blocks_size :: "block list \<Rightarrow> u32" where
  "count_blocks_size bs = foldl (\<lambda>n b. n + bsize b) 0 bs"

definition ta_num_free :: "heap \<Rightarrow> u32" where "ta_num_free h = count_blocks (hfree h)"
definition ta_num_used :: "heap \<Rightarrow> u32" where "ta_num_used h = count_blocks (hused h)"
definition ta_num_fresh :: "heap \<Rightarrow> u32" where "ta_num_fresh h = count_blocks (hfresh h)"
definition ta_bytes_used :: "heap \<Rightarrow> u32" where "ta_bytes_used h = count_blocks_size (hused h)"

definition ta_check :: "heap \<Rightarrow> bool" where
  "ta_check h \<longleftrightarrow> heap_max_blocks h = ta_num_free h + ta_num_used h + ta_num_fresh h"

fun used_size :: "u32 \<Rightarrow> block list \<Rightarrow> u32" where
  "used_size a [] = 0"
| "used_size a (b # bs) = (if a = baddr b then bsize b else used_size a bs)"

definition ta_getsize :: "u32 \<Rightarrow> heap \<Rightarrow> u32" where
  "ta_getsize a h = used_size a (hused h)"

section \<open>Memory: calloc, realloc and the C library's wrappers\<close>

text \<open>\<open>memclear\<close> stores whole \<open>size_t\<close> words and then the odd bytes.\<close>

fun clear_words :: "nat \<Rightarrow> u32 \<Rightarrow> memory \<Rightarrow> memory" where
  "clear_words 0 p m = m"
| "clear_words (Suc n) p m =
     clear_words n (p + 4) (m(p := 0, p + 1 := 0, p + 2 := 0, p + 3 := 0))"

fun clear_bytes :: "nat \<Rightarrow> u32 \<Rightarrow> memory \<Rightarrow> memory" where
  "clear_bytes 0 p m = m"
| "clear_bytes (Suc n) p m = clear_bytes n (p + 1) (m(p := 0))"

definition memclear :: "u32 \<Rightarrow> u32 \<Rightarrow> memory \<Rightarrow> memory" where
  "memclear ptr num m =
     (let numw = (num AND - 4) div 4
      in clear_bytes (unat (num AND 3)) (ptr + 4 * numw) (clear_words (unat numw) ptr m))"

definition ta_calloc :: "u32 \<Rightarrow> u32 \<Rightarrow> heap \<times> memory \<Rightarrow> u32 \<times> heap \<times> memory" where
  "ta_calloc num sz s =
     (let num = num * sz in
      case alloc_block num (fst s) of
        (Some b, h) \<Rightarrow> (baddr b, h, memclear (baddr b) num (snd s))
      | (None, h) \<Rightarrow> (0, h, snd s))"

fun copy_loop :: "nat \<Rightarrow> u32 \<Rightarrow> u32 \<Rightarrow> u32 \<Rightarrow> memory \<Rightarrow> memory" where
  "copy_loop 0 c ptrn ptro m = m"
| "copy_loop (Suc n) c ptrn ptro m = copy_loop n (c + 1) ptrn ptro (m(ptrn + c := m (ptro + c)))"

definition ta_realloc :: "u32 \<Rightarrow> u32 \<Rightarrow> heap \<times> memory \<Rightarrow> u32 \<times> heap \<times> memory" where
  "ta_realloc ptr num s =
     (let ptrsize = ta_getsize ptr (fst s) in
      if ptrsize > 0 then
        (case alloc_block num (fst s) of
           (Some b, h) \<Rightarrow>
             (let ptrsize = (if ptrsize > num then num else ptrsize);
                  m = copy_loop (unat ptrsize) 0 (baddr b) ptr (snd s);
                  (_, h') = ta_free ptr h
              in (baddr b, h', m))
         | (None, h) \<Rightarrow> (0, h, snd s))
      else (0, fst s, snd s))"

text \<open>The C library's entry points; \<open>None\<close> is \<open>halt()\<close> after the out-of-memory message.\<close>

definition realloc :: "u32 \<Rightarrow> u32 \<Rightarrow> heap \<times> memory \<Rightarrow> (u32 \<times> heap \<times> memory) option" where
  "realloc ptr sz s =
     (let (r, s') = (if ptr = 0 then (let (r, h) = ta_alloc sz (fst s) in (r, h, snd s))
                     else ta_realloc ptr sz s)
      in if r = 0 then None else Some (r, s'))"

definition malloc_unchecked :: "u32 \<Rightarrow> heap \<Rightarrow> u32 \<times> heap" where
  "malloc_unchecked sz h = ta_alloc sz h"

definition malloc :: "u32 \<Rightarrow> heap \<Rightarrow> (u32 \<times> heap) option" where
  "malloc sz h = (let (r, h') = ta_alloc sz h in if r = 0 then None else Some (r, h'))"

definition free :: "u32 \<Rightarrow> heap \<Rightarrow> heap" where
  "free ptr h = (if ptr \<noteq> 0 then snd (ta_free ptr h) else h)"

end
