(* ===== verification/Heap_Invariant.thy ===== *)
theory Heap_Invariant
  imports Tinyalloc
begin

text \<open>
  The invariant of the allocator: blocks as address intervals that tile the managed area, the
  merge loop over the sorted free list, and the four ways an allocation succeeds, each shown to
  keep \<open>heap_wf\<close>; then what the byte loops of \<open>calloc\<close> and \<open>realloc\<close> write.
\<close>

section \<open>Blocks as address intervals\<close>

definition bstart :: "block \<Rightarrow> nat" where "bstart b = unat (baddr b)"
definition bend :: "block \<Rightarrow> nat" where "bend b = unat (baddr b) + unat (bsize b)"
definition blk_set :: "block \<Rightarrow> nat set" where "blk_set b = {bstart b..<bend b}"

text \<open>\<open>tiling S bs\<close>: the blocks are non-empty, pairwise disjoint and cover exactly \<open>S\<close>.\<close>

fun tiling :: "nat set \<Rightarrow> block list \<Rightarrow> bool" where
  "tiling S [] \<longleftrightarrow> S = {}"
| "tiling S (b # bs) \<longleftrightarrow> 0 < bsize b \<and> blk_set b \<subseteq> S \<and> tiling (S - blk_set b) bs"

definition apart :: "block \<Rightarrow> block \<Rightarrow> bool" where
  "apart p q \<longleftrightarrow> bend p \<le> bstart q \<or> bend q \<le> bstart p"

lemma bend_bstart: "0 < bsize b \<Longrightarrow> bstart b < bend b"
  by (simp add: bend_def bstart_def word_less_nat_alt)

lemma tiling_swap: "tiling S (a # b # bs) \<longleftrightarrow> tiling S (b # a # bs)"
  by (auto simp: Diff_subset_conv Diff_insert_absorb set_diff_eq Int_commute conj_ac)

lemma tiling_remove1: "x \<in> set xs \<Longrightarrow> tiling S xs = tiling S (x # remove1 x xs)"
proof (induction xs arbitrary: S)
  case (Cons y ys)
  show ?case
  proof (cases "x = y")
    case False
    with Cons show ?thesis using tiling_swap [of S x y "remove1 x ys"] by simp
  qed simp
qed simp

lemma tiling_mset: "mset xs = mset ys \<Longrightarrow> tiling S xs = tiling S ys"
proof (induction xs arbitrary: S ys)
  case (Cons x xs)
  then have x: "x \<in> set ys" by (metis list.set_intros(1) set_mset_mset)
  from Cons.prems have "mset xs = mset (remove1 x ys)"
    by (metis add_mset_remove_trivial mset.simps(2) mset_remove1)
  then have "tiling (S - blk_set x) xs = tiling (S - blk_set x) (remove1 x ys)"
    by (rule Cons.IH)
  then show ?case using tiling_remove1 [OF x, of S] by simp
qed simp

lemma tiling_subset: "tiling S bs \<Longrightarrow> b \<in> set bs \<Longrightarrow> 0 < bsize b \<and> blk_set b \<subseteq> S"
  by (induction S bs rule: tiling.induct) auto

lemma tiling_union: "tiling S bs \<Longrightarrow> \<Union> (blk_set ` set bs) = S"
  by (induction S bs rule: tiling.induct) auto

lemma disjoint_apart:
  "0 < bsize p \<Longrightarrow> 0 < bsize q \<Longrightarrow> blk_set p \<inter> blk_set q = {} \<Longrightarrow> apart p q"
proof (rule ccontr)
  assume "0 < bsize p" "0 < bsize q" and e: "blk_set p \<inter> blk_set q = {}" and "\<not> apart p q"
  then have "max (bstart p) (bstart q) \<in> blk_set p \<inter> blk_set q"
    using bend_bstart [of p] bend_bstart [of q] by (auto simp: apart_def blk_set_def)
  with e show False by simp
qed

lemma tiling_apart: "tiling S bs \<Longrightarrow> sorted_wrt apart bs"
proof (induction S bs rule: tiling.induct)
  case (2 S b bs)
  have "apart b q" if "q \<in> set bs" for q
  proof (rule disjoint_apart)
    from 2 that show "0 < bsize q" by (auto dest: tiling_subset)
    from 2 that have "blk_set q \<subseteq> S - blk_set b" by (auto dest: tiling_subset)
    then show "blk_set b \<inter> blk_set q = {}" by auto
  qed (use 2 in simp)
  with 2 show ?case by simp
qed simp

lemma tiling_ivl_end: "tiling {lo..<hi} bs \<Longrightarrow> b \<in> set bs \<Longrightarrow> lo \<le> bstart b \<and> bend b \<le> hi"
  using tiling_subset [of "{lo..<hi}" bs b] bend_bstart [of b]
  by (auto simp: blk_set_def)

section \<open>The free list: sorted by address, coalesced\<close>

definition upto :: "block \<Rightarrow> block \<Rightarrow> bool" where "upto p q \<longleftrightarrow> bend p \<le> bstart q"
definition gap :: "block \<Rightarrow> block \<Rightarrow> bool" where "gap p q \<longleftrightarrow> bend p < bstart q"

lemma baddr_le: "baddr p \<le> baddr q \<longleftrightarrow> bstart p \<le> bstart q"
  by (simp add: bstart_def word_le_nat_alt)

lemma apart_order:
  "apart p q \<Longrightarrow> 0 < bsize q \<Longrightarrow> bstart p \<le> bstart q \<Longrightarrow> 0 < bsize p \<Longrightarrow> upto p q"
  using bend_bstart [of q] by (auto simp: apart_def upto_def)

lemma gap_upto: "sorted_wrt gap fs \<Longrightarrow> sorted_wrt upto fs"
  by (erule sorted_wrt_mono_rel [rotated]) (simp add: gap_def upto_def)

lemma mset_insert_block [simp]: "mset (insert_block b ps) = add_mset b (mset ps)"
  by (induction b ps rule: insert_block.induct) auto

lemma set_insert_block [simp]: "set (insert_block b ps) = insert b (set ps)"
  by (metis mset_insert_block set_mset_add_mset_insert set_mset_mset)

lemma insert_block_sorted:
  "sorted_wrt upto ps \<Longrightarrow> 0 < bsize b \<Longrightarrow> \<forall>q \<in> set ps. apart b q \<and> 0 < bsize q \<Longrightarrow>
   sorted_wrt upto (insert_block b ps)"
proof (induction b ps rule: insert_block.induct)
  case (2 b p ps)
  show ?case
  proof (cases "baddr b \<le> baddr p")
    case True
    then have b: "upto b p" using 2 by (auto simp: baddr_le intro: apart_order)
    have "upto b q" if "q \<in> set ps" for q
    proof -
      from that 2(2) have "bend p \<le> bstart q" by (simp add: upto_def)
      with b show ?thesis using bend_bstart [of p] 2(4) by (auto simp: upto_def)
    qed
    with True b 2(2) show ?thesis by simp
  next
    case False
    then have "upto p b" using 2 by (auto simp: baddr_le apart_def upto_def dest: bend_bstart)
    with False 2 show ?thesis by auto
  qed
qed simp

lemma adjacent:
  "bend p < 4294967296 \<Longrightarrow> baddr p + bsize p = baddr s \<longleftrightarrow> bend p = bstart s"
  by (auto simp: bend_def bstart_def word_unat_eq_iff u32_unat_add)

text \<open>A run found by \<open>scan_run\<close> continues its first block without a gap, and stops at a gap.\<close>

fun chain :: "block \<Rightarrow> block list \<Rightarrow> bool" where
  "chain p [] \<longleftrightarrow> True"
| "chain p (s # run) \<longleftrightarrow> bend p = bstart s \<and> chain s run"

lemma scan_run_chain:
  "scan_run p ss = (run, rest) \<Longrightarrow> \<forall>b \<in> set (p # ss). bend b < 4294967296 \<Longrightarrow> chain p run"
  by (induction p ss arbitrary: run rest rule: scan_run.induct)
    (auto split: if_splits prod.splits simp: adjacent)

lemma scan_run_stop:
  "scan_run p ss = (run, rest) \<Longrightarrow> \<forall>b \<in> set (p # ss). bend b < 4294967296 \<Longrightarrow>
   sorted_wrt upto (p # ss) \<Longrightarrow> \<forall>b \<in> set ss. 0 < bsize b \<Longrightarrow> \<forall>q \<in> set rest. gap (last (p # run)) q"
proof (induction p ss arbitrary: run rest rule: scan_run.induct)
  case (2 prev s ss)
  show ?case
  proof (cases "baddr prev + bsize prev = baddr s")
    case True
    with "2.prems"(1) obtain r where r: "scan_run s ss = (r, rest)" "run = s # r"
      by (auto split: prod.splits)
    from "2.IH" [OF True r(1)] "2.prems" have "\<forall>q \<in> set rest. gap (last (s # r)) q" by simp
    with r(2) show ?thesis by simp
  next
    case False
    with "2.prems" have e: "run = []" "rest = s # ss" by auto
    from False "2.prems" have s: "gap prev s" by (auto simp: adjacent gap_def upto_def)
    have "gap prev q" if "q \<in> set ss" for q
    proof -
      from "2.prems" that have "bend s \<le> bstart q" by (simp add: upto_def)
      with s show ?thesis using bend_bstart [of s] "2.prems"(4) by (auto simp: gap_def)
    qed
    with s e show ?thesis by simp
  qed
qed simp

lemma chain_end: "chain p run \<Longrightarrow> \<forall>b \<in> set (p # run). 0 < bsize b \<Longrightarrow> bstart p < bend (last (p # run))"
proof (induction p run rule: chain.induct)
  case (2 p s run)
  then have "bstart s < bend (last (s # run))" by simp
  with 2 bend_bstart [of p] show ?case by auto
qed (simp add: bend_bstart)

lemma tiling_chain:
  "chain p run \<Longrightarrow> tiling S (p # run @ us) \<Longrightarrow>
   {bstart p..<bend (last (p # run))} \<subseteq> S \<and> tiling (S - {bstart p..<bend (last (p # run))}) us"
proof (induction p run arbitrary: S rule: chain.induct)
  case (1 p)
  then show ?case by (simp add: blk_set_def)
next
  case (2 p s run)
  let ?e = "bend (last (s # run))"
  from 2(2) have "chain s run" by simp
  moreover from 2(3) have "tiling (S - blk_set p) (s # run @ us)" by (simp only: tiling.simps append_Cons)
  ultimately have *: "{bstart s..<?e} \<subseteq> S - blk_set p \<and> tiling (S - blk_set p - {bstart s..<?e}) us"
    by (rule 2(1))
  have pos: "\<forall>b \<in> set (p # s # run). 0 < bsize b"
  proof
    fix b assume "b \<in> set (p # s # run)"
    then have "b \<in> set (p # (s # run) @ us)" by auto
    with tiling_subset [OF 2(3)] show "0 < bsize b" by blast
  qed
  then have "bstart s < ?e" using chain_end [of s run] 2(2) by simp
  with 2(2) pos bend_bstart [of p] have u: "{bstart p..<?e} = blk_set p \<union> {bstart s..<?e}"
    by (auto simp: blk_set_def)
  have "{bstart p..<?e} \<subseteq> S" unfolding u using * 2(3) by auto
  moreover have "S - {bstart p..<?e} = S - blk_set p - {bstart s..<?e}" unfolding u by auto
  ultimately show ?case using * by simp
qed

text \<open>The merged block \<open>compact\<close> writes: from the first address to the end of the run.\<close>

definition merged :: "block \<Rightarrow> block list \<Rightarrow> block" where
  "merged p run = Block (bid p) (baddr p) (baddr (last run) - baddr p + bsize (last run))"

lemma merged_bounds:
  assumes "chain p run" "run \<noteq> []" "\<forall>b \<in> set (p # run). 0 < bsize b \<and> bend b < 4294967296"
  shows "bstart (merged p run) = bstart p" "bend (merged p run) = bend (last run)"
    "0 < bsize (merged p run)"
proof -
  let ?l = "last run"
  have l: "?l \<in> set (p # run)" using assms(2) by simp
  have le: "bstart p \<le> bstart ?l" using assms
  proof (induction p run rule: chain.induct)
    case (2 p s run)
    then show ?case using bend_bstart [of p] by (cases "run = []") auto
  qed simp
  have lt: "bstart p < bend ?l" using chain_end [OF assms(1)] assms by simp
  have "unat (baddr ?l - baddr p) = bstart ?l - bstart p"
    using le by (simp add: bstart_def u32_unat_sub)
  then have "unat (baddr ?l - baddr p + bsize ?l) = bend ?l - bstart p"
    using le l assms(3) by (subst u32_unat_add) (auto simp: bend_def bstart_def)
  then have sz: "unat (bsize (merged p run)) = bend ?l - bstart p" by (simp add: merged_def)
  show 1: "bstart (merged p run) = bstart p" by (simp add: merged_def bstart_def)
  have "bend (merged p run) = bstart (merged p run) + unat (bsize (merged p run))"
    by (simp add: bend_def bstart_def)
  then show "bend (merged p run) = bend ?l" using 1 sz lt by simp
  show "0 < bsize (merged p run)" using sz lt by (simp add: word_less_nat_alt)
qed

lemma mset_release_blocks:
  "image_mset bid (mset (release_blocks run fresh)) = image_mset bid (mset run) + image_mset bid (mset fresh)"
  by (induction run fresh rule: release_blocks.induct) auto

lemma compact_merge:
  "scan_run p ps = (run, rest) \<Longrightarrow> run \<noteq> [] \<Longrightarrow> compact rest (release_blocks run fresh) = (fs, fr) \<Longrightarrow>
   compact (p # ps) fresh = (merged p run # fs, fr)"
  by (simp add: merged_def Let_def)

lemma compact_keep:
  "scan_run p ps = ([], rest) \<Longrightarrow> compact ps fresh = (fs, fr) \<Longrightarrow> compact (p # ps) fresh = (p # fs, fr)"
  by simp

text \<open>One induction over the merge loop for all it guarantees of a list in address order.\<close>

definition aligned :: "nat \<Rightarrow> block \<Rightarrow> bool" where
  "aligned a b \<longleftrightarrow> a dvd bstart b \<and> a dvd bend b"

definition good :: "nat \<Rightarrow> block \<Rightarrow> bool" where
  "good a b \<longleftrightarrow> 0 < bsize b \<and> bend b < 4294967296 \<and> aligned a b"

lemma merged_good:
  assumes "chain p run" "run \<noteq> []" "\<forall>b \<in> set (p # run). good a b"
  shows "good a (merged p run)"
proof -
  have "last run \<in> set run" using assms(2) by simp
  with assms(3) have "good a p" "good a (last run)" by auto
  moreover have "\<forall>b \<in> set (p # run). 0 < bsize b \<and> bend b < 4294967296"
    using assms(3) by (auto simp: good_def)
  ultimately show ?thesis
    using merged_bounds [OF assms(1,2)] by (auto simp: good_def aligned_def)
qed

lemma compact_props:
  "compact fs0 fresh = (fs, fr) \<Longrightarrow> sorted_wrt upto fs0 \<Longrightarrow> \<forall>b \<in> set fs0. good a b \<Longrightarrow>
   sorted_wrt gap fs \<and> (\<forall>b \<in> set fs. good a b) \<and> bstart ` set fs \<subseteq> bstart ` set fs0 \<and>
   (\<forall>S us. tiling S (fs0 @ us) \<longrightarrow> tiling S (fs @ us)) \<and>
   image_mset bid (mset fs) + image_mset bid (mset fr) =
     image_mset bid (mset fs0) + image_mset bid (mset fresh)"
proof (induction fs0 fresh arbitrary: fs fr rule: compact.induct)
  case (1 fresh)
  then show ?case by simp
next
  case (2 p ps fresh)
  obtain run rest where sr: "scan_run p ps = (run, rest)" by fastforce
  then have ps: "ps = run @ rest" by (rule scan_run_append [symmetric])
  have lim: "\<forall>b \<in> set (p # ps). bend b < 4294967296" and pos: "\<forall>b \<in> set (p # ps). 0 < bsize b"
    using "2.prems"(3) by (auto simp: good_def)
  have stop: "\<forall>q \<in> set rest. gap (last (p # run)) q"
    using scan_run_stop [OF sr lim "2.prems"(2)] pos by simp
  have ch: "chain p run" using scan_run_chain [OF sr lim] .
  show ?case
  proof (cases "run = []")
    case True
    obtain fs' fr' where c: "compact ps fresh = (fs', fr')" by fastforce
    have res: "fs = p # fs'" "fr = fr'"
      using "2.prems"(1) compact_keep [OF sr [unfolded True] c] by auto
    have IH: "sorted_wrt gap fs'" "\<forall>b \<in> set fs'. good a b" "bstart ` set fs' \<subseteq> bstart ` set ps"
      "\<And>S us. tiling S (ps @ us) \<Longrightarrow> tiling S (fs' @ us)"
      "image_mset bid (mset fs') + image_mset bid (mset fr') =
        image_mset bid (mset ps) + image_mset bid (mset fresh)"
      using "2.IH"(1) [OF sr [symmetric] refl True c] "2.prems" by auto
    have "\<forall>q \<in> set ps. gap p q" using stop ps True by simp
    then have "\<forall>q \<in> set fs'. gap p q" using IH(3) by (fastforce simp: gap_def)
    then show ?thesis using res IH "2.prems"(3) by auto
  next
    case False
    obtain fs' fr' where c: "compact rest (release_blocks run fresh) = (fs', fr')" by fastforce
    have res: "fs = merged p run # fs'" "fr = fr'"
      using "2.prems"(1) compact_merge [OF sr False c] by auto
    have IH: "sorted_wrt gap fs'" "\<forall>b \<in> set fs'. good a b" "bstart ` set fs' \<subseteq> bstart ` set rest"
      "\<And>S us. tiling S (rest @ us) \<Longrightarrow> tiling S (fs' @ us)"
      "image_mset bid (mset fs') + image_mset bid (mset fr') =
        image_mset bid (mset rest) + image_mset bid (mset (release_blocks run fresh))"
      using "2.IH"(2) [OF sr [symmetric] refl False refl refl, of fs' fr'] c "2.prems" ps
      by (auto simp: sorted_wrt_append)
    have mb: "bstart (merged p run) = bstart p" "bend (merged p run) = bend (last run)"
      "0 < bsize (merged p run)"
      using merged_bounds [OF ch False] lim pos ps by auto
    have "\<forall>q \<in> set fs'. gap (merged p run) q"
      using IH(3) stop False mb(2) by (fastforce simp: gap_def)
    moreover have "good a (merged p run)"
      using merged_good [OF ch False] "2.prems"(3) ps by auto
    moreover have "tiling S (fs @ us)" if "tiling S ((p # ps) @ us)" for S us
    proof -
      from that ps have "tiling S (p # run @ (rest @ us))" by simp
      from tiling_chain [OF ch this] IH(4) show ?thesis
        using False mb res by (simp add: blk_set_def)
    qed
    ultimately show ?thesis
      using res IH mb ps by (auto simp: mset_release_blocks merged_def)
  qed
qed

lemma compact_insert:
  assumes t: "tiling S (b # fs @ us)" and g: "sorted_wrt gap fs"
    and good: "\<forall>x \<in> set (b # fs). good a x"
    and c: "compact (insert_block b fs) fresh = (fs', fr')"
  shows "sorted_wrt gap fs'" "\<forall>x \<in> set fs'. good a x" "tiling S (us @ fs')"
    "image_mset bid (mset fs') + image_mset bid (mset fr') =
      add_mset (bid b) (image_mset bid (mset fs) + image_mset bid (mset fresh))"
proof -
  have "sorted_wrt apart (b # fs @ us)" using t by (rule tiling_apart)
  then have "sorted_wrt upto (insert_block b fs)"
    using good by (intro insert_block_sorted gap_upto [OF g]) (auto simp: good_def)
  from compact_props [OF c this, of a] good have *:
    "sorted_wrt gap fs'" "\<forall>x \<in> set fs'. good a x"
    "tiling S (insert_block b fs @ us) \<longrightarrow> tiling S (fs' @ us)"
    "image_mset bid (mset fs') + image_mset bid (mset fr') =
      image_mset bid (mset (insert_block b fs)) + image_mset bid (mset fresh)"
    by auto
  show "sorted_wrt gap fs'" "\<forall>x \<in> set fs'. good a x" by fact+
  have "tiling S (insert_block b fs @ us)"
    using t by (subst tiling_mset [where ys = "b # fs @ us"]) simp_all
  with *(3) show "tiling S (us @ fs')"
    by (subst tiling_mset [where ys = "fs' @ us"]) simp_all
  show "image_mset bid (mset fs') + image_mset bid (mset fr') =
      add_mset (bid b) (image_mset bid (mset fs) + image_mset bid (mset fresh))"
    using *(4) by simp
qed

section \<open>The heap invariant\<close>

text \<open>
  The blocks in use and the free blocks tile the managed area \<open>[lo, top)\<close> exactly, the free
  list is in address order with a gap between neighbours (fully coalesced), addresses are
  aligned, and every node of the array is on exactly one of the three lists.
\<close>

definition is_pow2 :: "u32 \<Rightarrow> bool" where
  "is_pow2 a \<longleftrightarrow> (\<exists>k < 32. a = 2 ^ k)"

definition heap_wf :: "nat \<Rightarrow> heap \<Rightarrow> bool" where
  "heap_wf lo h \<longleftrightarrow>
     is_pow2 (heap_alignment h) \<and> 0 < heap_split_thresh h \<and>
     lo \<le> unat (htop h) \<and> htop h \<le> heap_limit h \<and>
     unat (heap_alignment h) dvd unat (htop h) \<and>
     (\<forall>b \<in> set (hused h @ hfree h). good (unat (heap_alignment h)) b) \<and>
     sorted_wrt gap (hfree h) \<and>
     tiling {lo..<unat (htop h)} (hused h @ hfree h) \<and>
     image_mset bid (mset (hused h) + mset (hfree h) + mset (hfresh h)) =
       mset [0..<unat (heap_max_blocks h)]"

definition same_config :: "heap \<Rightarrow> heap \<Rightarrow> bool" where
  "same_config h h' \<longleftrightarrow> heap_limit h' = heap_limit h \<and> heap_alignment h' = heap_alignment h \<and>
     heap_split_thresh h' = heap_split_thresh h \<and> heap_max_blocks h' = heap_max_blocks h"

lemma unat_exp32: "k < 32 \<Longrightarrow> unat (2 ^ k :: u32) = 2 ^ k"
proof -
  assume "k < 32"
  then have "(2 :: nat) ^ k < 2 ^ 32" by (intro power_strict_increasing) simp_all
  then show ?thesis using u32_unat_of_nat [of "2 ^ k"] by simp
qed

lemma round_num_props:
  assumes "is_pow2 a" and "unat num + unat a \<le> 4294967296"
  shows "unat num \<le> unat (round_num a num)" "unat a dvd unat (round_num a num)"
    "unat (round_num a num) < unat num + unat a"
proof -
  obtain k where k: "k < 32" "a = 2 ^ k" using assms(1) by (auto simp: is_pow2_def)
  let ?m = "(2 :: nat) ^ k"
  have e: "unat (round_num a num) = (unat num + (?m - 1)) div ?m * ?m"
    using assms(2) k by (simp add: round_num_def round_up_exp unat_exp32)
  have a: "unat a = ?m" using k by (simp add: unat_exp32)
  show "unat a dvd unat (round_num a num)" by (simp add: e a)
  have m: "0 < ?m" by simp
  have d: "(unat num + (?m - 1)) div ?m * ?m + (unat num + (?m - 1)) mod ?m = unat num + (?m - 1)"
    by (rule div_mult_mod_eq)
  have "(unat num + (?m - 1)) mod ?m \<le> ?m - 1"
    using mod_less_divisor [OF m, of "unat num + (?m - 1)"] by linarith
  with d e show "unat num \<le> unat (round_num a num)" by linarith
  from d e a m show "unat (round_num a num) < unat num + unat a" by linarith
qed

lemma find_fit_Some:
  "find_fit h num fs = Some (p, fs') \<Longrightarrow>
   (is_top h num p \<or> num \<le> bsize p) \<and> (\<exists>xs ys. fs = xs @ p # ys \<and> fs' = xs @ ys)"
proof (induction h num fs arbitrary: fs' rule: find_fit.induct)
  case (2 h num q ps)
  show ?case
  proof (cases "is_top h num q \<or> num \<le> bsize q")
    case True
    with 2(2) show ?thesis by (auto intro: exI [of _ "[]"])
  next
    case False
    with 2(2) obtain r where r: "find_fit h num ps = Some (p, r)" "fs' = q # r" by auto
    from 2(1) [OF False r(1)] obtain xs ys where "ps = xs @ p # ys" "r = xs @ ys"
      "is_top h num p \<or> num \<le> bsize p" by auto
    then have "q # ps = (q # xs) @ p # ys" "fs' = (q # xs) @ ys" "is_top h num p \<or> num \<le> bsize p"
      using r(2) by simp_all
    then show ?thesis by blast
  qed
qed simp

lemma find_fit_None:
  "find_fit h num fs = None \<longleftrightarrow> (\<forall>p \<in> set fs. \<not> is_top h num p \<and> bsize p < num)"
  by (induction h num fs rule: find_fit.induct) (auto simp: not_le)

lemma tiling_replace_top:
  assumes "tiling {lo..<hi} (p # bs)" "bend p = hi" "bstart p' = bstart p" "0 < bsize p'"
  shows "tiling {lo..<bend p'} (p' # bs)"
proof -
  from assms bend_bstart [of p] have lo: "lo \<le> bstart p" by (auto simp: blk_set_def)
  have "{lo..<hi} - blk_set p = {lo..<bstart p}" using assms(2) bend_bstart [of p] assms(1)
    by (auto simp: blk_set_def)
  moreover have "{lo..<bend p'} - blk_set p' = {lo..<bstart p}"
    using assms(3) bend_bstart [OF assms(4)] by (auto simp: blk_set_def)
  ultimately show ?thesis using assms lo by (auto simp: blk_set_def)
qed

lemma tiling_push_top:
  assumes "tiling {lo..<bstart p} bs" "lo \<le> bstart p" "0 < bsize p"
  shows "tiling {lo..<bend p} (p # bs)"
proof -
  have "{lo..<bend p} - blk_set p = {lo..<bstart p}"
    using assms(3) bend_bstart [of p] by (auto simp: blk_set_def)
  with assms show ?thesis by (auto simp: blk_set_def)
qed

lemma tiling_split:
  assumes "tiling S (p # bs)" "bstart p' = bstart p" "bend p' = bstart q" "bend q = bend p"
    "0 < bsize p'" "0 < bsize q"
  shows "tiling S (p' # q # bs)"
proof -
  have "blk_set p = blk_set p' \<union> blk_set q" "blk_set p' \<inter> blk_set q = {}"
    using assms(2-4) bend_bstart [OF assms(5)] bend_bstart [OF assms(6)] by (auto simp: blk_set_def)
  moreover from this have "S - blk_set p = S - blk_set p' - blk_set q" by auto
  ultimately show ?thesis using assms by auto
qed

lemma heap_wfD:
  assumes "heap_wf lo h"
  shows "is_pow2 (heap_alignment h)" "0 < heap_split_thresh h" "lo \<le> unat (htop h)"
    "htop h \<le> heap_limit h" "unat (heap_alignment h) dvd unat (htop h)"
    "\<And>b. b \<in> set (hused h) \<union> set (hfree h) \<Longrightarrow> good (unat (heap_alignment h)) b"
    "sorted_wrt gap (hfree h)" "tiling {lo..<unat (htop h)} (hused h @ hfree h)"
    "image_mset bid (mset (hused h)) + image_mset bid (mset (hfree h)) + image_mset bid (mset (hfresh h)) =
       mset [0..<unat (heap_max_blocks h)]"
  using assms unfolding heap_wf_def by (simp_all add: Un_commute)

lemma unlink_used_Some:
  "unlink_used a bs = Some (b, rest) \<Longrightarrow> baddr b = a \<and> mset bs = add_mset b (mset rest) \<and>
     (\<exists>xs ys. bs = xs @ b # ys \<and> rest = xs @ ys \<and> a \<notin> baddr ` set xs)"
proof (induction a bs arbitrary: rest rule: unlink_used.induct)
  case (2 a c bs)
  show ?case
  proof (cases "a = baddr c")
    case True
    with 2(2) show ?thesis by (auto intro: exI [of _ "[]"])
  next
    case False
    with 2(2) obtain r where r: "unlink_used a bs = Some (b, r)" "rest = c # r" by auto
    from 2(1) [OF False r(1)] obtain xs ys where "bs = xs @ b # ys" "r = xs @ ys" "a \<notin> baddr ` set xs"
      "baddr b = a" "mset bs = add_mset b (mset r)" by auto
    then have "c # bs = (c # xs) @ b # ys" "rest = (c # xs) @ ys" "a \<notin> baddr ` set (c # xs)"
      "baddr b = a" "mset (c # bs) = add_mset b (mset rest)"
      using r(2) False by auto
    then show ?thesis by blast
  qed
qed simp

lemma unlink_used_None: "unlink_used a bs = None \<longleftrightarrow> a \<notin> baddr ` set bs"
  by (induction a bs rule: unlink_used.induct) auto

lemma ta_free_Some:
  assumes wf: "heap_wf lo h" and u: "unlink_used a (hused h) = Some (b, rest)"
    and c: "compact (insert_block b (hfree h)) (hfresh h) = (fs, fr)"
  shows "heap_wf lo (h\<lparr>hused := rest, hfree := fs, hfresh := fr\<rparr>)"
proof -
  note w = heap_wfD [OF wf]
  from unlink_used_Some [OF u] have m: "mset (hused h) = add_mset b (mset rest)" by blast
  then have s: "set (hused h) = insert b (set rest)"
    by (metis set_mset_add_mset_insert set_mset_mset)
  have t: "tiling {lo..<unat (htop h)} (b # hfree h @ rest)"
    using w(8) m by (subst tiling_mset [where ys = "hused h @ hfree h"]) simp_all
  have g: "\<forall>x \<in> set (b # hfree h). good (unat (heap_alignment h)) x"
    using w(6) s by simp
  have g': "\<forall>x \<in> set rest. good (unat (heap_alignment h)) x"
    using w(6) s by simp
  note ci = compact_insert [OF t w(7) g c]
  have n: "image_mset bid (mset rest) + image_mset bid (mset fs) + image_mset bid (mset fr) =
      mset [0..<unat (heap_max_blocks h)]"
    unfolding add.assoc ci(4) using w(9) m by (simp add: ac_simps)
  show ?thesis
    unfolding heap_wf_def
    by (intro conjI) (use w(1-5) ci(1-3) g' n in \<open>simp_all add: ball_Un\<close>)
qed

text \<open>The four ways \<open>alloc_block\<close> succeeds, each keeping the invariant.\<close>

lemma alloc_whole:
  assumes wf: "heap_wf lo h" and f: "hfree h = xs @ p # ys"
  shows "heap_wf lo (h\<lparr>hfree := xs @ ys, hused := p # hused h\<rparr>)"
proof -
  note w = heap_wfD [OF wf]
  have t: "tiling {lo..<unat (htop h)} (p # hused h @ xs @ ys)"
    using w(8) f by (subst tiling_mset [where ys = "hused h @ hfree h"]) simp_all
  have g: "sorted_wrt gap (xs @ ys)" using w(7) f by (simp add: sorted_wrt_append)
  have n: "image_mset bid (mset (p # hused h)) + image_mset bid (mset (xs @ ys)) +
      image_mset bid (mset (hfresh h)) = mset [0..<unat (heap_max_blocks h)]"
    using w(9) f by (simp add: ac_simps)
  have gd: "\<forall>b \<in> set ((p # hused h) @ xs @ ys). good (unat (heap_alignment h)) b"
    using w(6) f by simp
  show ?thesis
    unfolding heap_wf_def
    by (intro conjI) (use w(1-5) g n gd t in simp_all)
qed

lemma alloc_push:
  assumes wf: "heap_wf lo h" and f: "hfresh h = s # fresh"
    and lim: "unat (htop h) + unat num < 4294967296" "htop h + num \<le> heap_limit h"
    and pos: "0 < num" and al: "unat (heap_alignment h) dvd unat num"
  shows "heap_wf lo (h\<lparr>hfresh := fresh, hused := Block (bid s) (htop h) num # hused h,
    htop := htop h + num\<rparr>)"
proof -
  note w = heap_wfD [OF wf]
  let ?p = "Block (bid s) (htop h) num"
  have u: "unat (htop h + num) = unat (htop h) + unat num" using lim(1) by (simp add: u32_unat_add)
  have b: "bstart ?p = unat (htop h)" "bend ?p = unat (htop h) + unat num"
    by (simp_all add: bstart_def bend_def)
  have t: "tiling {lo..<unat (htop h + num)} (?p # hused h @ hfree h)"
    using tiling_push_top [of lo ?p "hused h @ hfree h"] w(3,8) b pos u by simp
  have "good (unat (heap_alignment h)) ?p"
    using b lim(1) pos al w(5) by (simp add: good_def aligned_def)
  then have gd: "\<forall>b \<in> set ((?p # hused h) @ hfree h). good (unat (heap_alignment h)) b"
    using w(6) by simp
  have n: "image_mset bid (mset (?p # hused h)) + image_mset bid (mset (hfree h)) +
      image_mset bid (mset fresh) = mset [0..<unat (heap_max_blocks h)]"
    using w(9) f by (simp add: ac_simps)
  show ?thesis
    unfolding heap_wf_def
    by (intro conjI) (use w(1-5,7) n gd t lim(2) al u in \<open>simp_all add: dvd_add\<close>)
qed

lemma alloc_top:
  assumes wf: "heap_wf lo h" and f: "hfree h = xs @ p # ys" and top: "is_top h num p"
    and nw: "bstart p + unat num < 4294967296"
    and pos: "0 < num" and al: "unat (heap_alignment h) dvd unat num"
  shows "heap_wf lo (h\<lparr>hfree := xs @ ys, hused := Block (bid p) (baddr p) num # hused h,
    htop := baddr p + num\<rparr>)"
proof -
  note w = heap_wfD [OF wf]
  let ?p = "Block (bid p) (baddr p) num"
  have gp: "good (unat (heap_alignment h)) p" using w(6) f by simp
  have u: "unat (baddr p + num) = bstart p + unat num"
    using nw by (simp add: u32_unat_add bstart_def)
  have b: "bstart ?p = bstart p" "bend ?p = bstart p + unat num"
    by (simp_all add: bstart_def bend_def)
  have t0: "tiling {lo..<unat (htop h)} (p # hused h @ xs @ ys)"
    using w(8) f by (subst tiling_mset [where ys = "hused h @ hfree h"]) simp_all
  have iv: "lo \<le> bstart p" "bend p \<le> unat (htop h)" using tiling_ivl_end [OF t0, of p] by simp_all
  have "unat (baddr p + bsize p) = bend p"
    using gp by (simp add: good_def bend_def u32_unat_add)
  then have "unat (htop h) \<le> bend p" using top by (simp add: is_top_def word_le_nat_alt)
  with iv have e: "bend p = unat (htop h)" by simp
  have t: "tiling {lo..<unat (baddr p + num)} (?p # hused h @ xs @ ys)"
    using tiling_replace_top [OF t0 e b(1)] pos b u by simp
  have "good (unat (heap_alignment h)) ?p"
    using b nw pos al gp by (simp add: good_def aligned_def)
  then have gd: "\<forall>b \<in> set ((?p # hused h) @ xs @ ys). good (unat (heap_alignment h)) b"
    using w(6) f by simp
  have g: "sorted_wrt gap (xs @ ys)" using w(7) f by (simp add: sorted_wrt_append)
  have n: "image_mset bid (mset (?p # hused h)) + image_mset bid (mset (xs @ ys)) +
      image_mset bid (mset (hfresh h)) = mset [0..<unat (heap_max_blocks h)]"
    using w(9) f by (simp add: ac_simps)
  have "lo \<le> unat (baddr p + num)" "unat (heap_alignment h) dvd unat (baddr p + num)"
    using u iv gp al by (simp_all add: good_def aligned_def)
  moreover have "baddr p + num \<le> heap_limit h" using top by (simp add: is_top_def)
  ultimately show ?thesis
    unfolding heap_wf_def
    by (intro conjI) (use w(1,2) n g gd t in simp_all)
qed

lemma alloc_split:
  assumes wf: "heap_wf lo h" and f: "hfree h = xs @ p # ys" "hfresh h = s # fresh"
    and sz: "num \<le> bsize p" "heap_split_thresh h \<le> bsize p - num"
    and pos: "0 < num" and al: "unat (heap_alignment h) dvd unat num"
    and c: "compact (insert_block (Block (bid s) (baddr p + num) (bsize p - num)) (xs @ ys)) fresh = (fs, fr)"
  shows "heap_wf lo (h\<lparr>hfree := fs, hused := Block (bid p) (baddr p) num # hused h, hfresh := fr\<rparr>)"
proof -
  note w = heap_wfD [OF wf]
  let ?p = "Block (bid p) (baddr p) num" and ?q = "Block (bid s) (baddr p + num) (bsize p - num)"
  have gp: "good (unat (heap_alignment h)) p" using w(6) f by simp
  have le: "unat num \<le> unat (bsize p)" using sz(1) by (simp add: word_le_nat_alt)
  then have u: "unat (baddr p + num) = bstart p + unat num" "unat (bsize p - num) = unat (bsize p) - unat num"
    using gp by (simp_all add: good_def bend_def bstart_def u32_unat_add u32_unat_sub)
  have b: "bstart ?p = bstart p" "bend ?p = bstart ?q" "bend ?q = bend p" "bstart ?q = bstart p + unat num"
    using u le by (simp_all add: bend_def bstart_def)
  have q0: "0 < bsize ?q" using sz(2) w(2) by (auto intro: less_le_trans)
  have t0: "tiling {lo..<unat (htop h)} (p # hused h @ xs @ ys)"
    using w(8) f by (subst tiling_mset [where ys = "hused h @ hfree h"]) simp_all
  have t1: "tiling {lo..<unat (htop h)} (?p # ?q # hused h @ xs @ ys)"
    using tiling_split [OF t0 b(1-3)] pos q0 by simp
  have t: "tiling {lo..<unat (htop h)} (?q # (xs @ ys) @ (?p # hused h))"
    using t1 by (subst tiling_mset [where ys = "?p # ?q # hused h @ xs @ ys"]) simp_all
  have g: "sorted_wrt gap (xs @ ys)" using w(7) f by (simp add: sorted_wrt_append)
  have gpq: "good (unat (heap_alignment h)) ?p" "good (unat (heap_alignment h)) ?q"
    using gp b pos q0 al bend_bstart [of ?q] by (auto simp: good_def aligned_def)
  then have gd: "\<forall>x \<in> set (?q # xs @ ys). good (unat (heap_alignment h)) x"
    using w(6) f by simp
  note ci = compact_insert [OF t g gd c]
  have n: "image_mset bid (mset (?p # hused h)) + image_mset bid (mset fs) + image_mset bid (mset fr) =
      mset [0..<unat (heap_max_blocks h)]"
    unfolding add.assoc ci(4) using w(9) f by (simp add: ac_simps add_mset_commute)
  have gd': "\<forall>b \<in> set (?p # hused h). good (unat (heap_alignment h)) b"
    using gpq(1) w(6) by simp
  show ?thesis
    unfolding heap_wf_def
    by (intro conjI) (use w(1-5) ci(1-3) n gd' in \<open>simp_all add: ball_Un\<close>)
qed

lemma heap_wf_block_end:
  assumes "heap_wf lo h" "b \<in> set (hused h) \<union> set (hfree h)"
  shows "lo \<le> bstart b" "bend b \<le> unat (htop h)" "unat (baddr b + bsize b) = bend b"
proof -
  note w = heap_wfD [OF assms(1)]
  show "lo \<le> bstart b" "bend b \<le> unat (htop h)"
    using tiling_ivl_end [OF w(8), of b] assms(2) by simp_all
  show "unat (baddr b + bsize b) = bend b"
    using w(6) [OF assms(2)] by (simp add: good_def bend_def u32_unat_add)
qed

text \<open>The request neither overflows when rounded nor when added to the top of the heap.\<close>

definition request_ok :: "u32 \<Rightarrow> heap \<Rightarrow> bool" where
  "request_ok num h \<longleftrightarrow>
     0 < num \<and> unat (htop h) + unat num + unat (heap_alignment h) \<le> 4294967296"

lemma request_rounded:
  assumes "heap_wf lo h" "request_ok num h"
  shows "unat num \<le> unat (round_num (heap_alignment h) num)"
    "unat (heap_alignment h) dvd unat (round_num (heap_alignment h) num)"
    "0 < round_num (heap_alignment h) num"
    "unat (htop h) + unat (round_num (heap_alignment h) num) < 4294967296"
proof -
  have r: "unat num + unat (heap_alignment h) \<le> 4294967296" "0 < num"
    using assms(2) by (simp_all add: request_ok_def)
  note p = round_num_props [OF heap_wfD(1) [OF assms(1)] r(1)]
  show "unat num \<le> unat (round_num (heap_alignment h) num)"
    "unat (heap_alignment h) dvd unat (round_num (heap_alignment h) num)" by (fact p)+
  show "0 < round_num (heap_alignment h) num"
    using p(1) r(2) by (simp add: word_less_nat_alt)
  show "unat (htop h) + unat (round_num (heap_alignment h) num) < 4294967296"
    using p(3) assms(2) by (simp add: request_ok_def)
qed

lemma alloc_block_sound:
  assumes wf: "heap_wf lo h" and ok: "request_ok num h"
    and a: "alloc_block num h = (Some b, h')"
  shows "heap_wf lo h' \<and> same_config h h' \<and> hused h' = b # hused h \<and>
    unat num \<le> unat (bsize b) \<and> htop h' \<le> heap_limit h"
proof -
  let ?n = "round_num (heap_alignment h) num"
  note r = request_rounded [OF wf ok]
  have "heap_wf lo h' \<and> same_config h h' \<and> hused h' = b # hused h \<and> ?n \<le> bsize b"
  proof (cases "find_fit h ?n (hfree h)")
    case None
    with a obtain s fresh where s: "hfresh h = s # fresh" "htop h + ?n \<le> heap_limit h"
      and e: "b = Block (bid s) (htop h) ?n"
      "h' = h\<lparr>hfresh := fresh, hused := b # hused h, htop := htop h + ?n\<rparr>"
      by (auto simp: alloc_block_def Let_def split: list.splits if_splits)
    from alloc_push [OF wf s(1) r(4) s(2) r(3) r(2)] e show ?thesis
      by (simp add: same_config_def)
  next
    case (Some q)
    obtain p fs where q: "q = (p, fs)" by fastforce
    from find_fit_Some [OF Some [unfolded q]] obtain xs ys where
      f: "hfree h = xs @ p # ys" and fs: "fs = xs @ ys" and fit: "is_top h ?n p \<or> ?n \<le> bsize p"
      by blast
    have "p \<in> set (hused h) \<union> set (hfree h)" using f by simp
    from heap_wf_block_end [OF wf this] have pe: "bend p \<le> unat (htop h)" by blast
    then have nw: "bstart p + unat ?n < 4294967296"
      using r(4) by (simp add: bend_def bstart_def)
    show ?thesis
    proof (cases "is_top h ?n p")
      case True
      with a Some q fs have e: "b = Block (bid p) (baddr p) ?n"
        "h' = h\<lparr>hfree := xs @ ys, hused := Block (bid p) (baddr p) ?n # hused h, htop := baddr p + ?n\<rparr>"
        by (auto simp: alloc_block_def Let_def)
      from alloc_top [OF wf f True nw r(3) r(2)] e show ?thesis
        by (simp add: same_config_def)
    next
      case False
      with fit have le: "?n \<le> bsize p" by simp
      show ?thesis
      proof (cases "\<exists>s fresh. hfresh h = s # fresh \<and> heap_split_thresh h \<le> bsize p - ?n")
        case True
        then obtain s fresh where s: "hfresh h = s # fresh" "heap_split_thresh h \<le> bsize p - ?n"
          by blast
        obtain fs' fr' where c: "compact (insert_block (Block (bid s) (baddr p + ?n) (bsize p - ?n)) (xs @ ys)) fresh = (fs', fr')"
          by fastforce
        from a False Some q fs s c have e: "b = Block (bid p) (baddr p) ?n"
          "h' = h\<lparr>hfree := fs', hused := Block (bid p) (baddr p) ?n # hused h, hfresh := fr'\<rparr>"
          by (auto simp: alloc_block_def Let_def)
        from alloc_split [OF wf f s(1) le s(2) r(3) r(2) c] e show ?thesis
          by (simp add: same_config_def)
      next
        case no: False
        with a False Some q fs have e: "b = p" "h' = h\<lparr>hfree := xs @ ys, hused := p # hused h\<rparr>"
          by (auto simp: alloc_block_def Let_def split: list.splits if_splits)
        from alloc_whole [OF wf f] e le show ?thesis
          by (simp add: same_config_def)
      qed
    qed
  qed
  moreover from this have "htop h' \<le> heap_limit h" using heap_wfD(4) [of lo h'] by (simp add: same_config_def)
  ultimately show ?thesis using r(1) by (auto simp: word_le_nat_alt)
qed

lemma alloc_block_None:
  "alloc_block num h = (None, h') \<longleftrightarrow>
     h' = h \<and> find_fit h (round_num (heap_alignment h) num) (hfree h) = None \<and>
     (hfresh h = [] \<or> \<not> htop h + round_num (heap_alignment h) num \<le> heap_limit h)"
  by (auto simp: alloc_block_def Let_def split: option.splits list.splits prod.splits if_splits)

lemma ta_free_wf:
  assumes wf: "heap_wf lo h" and f: "ta_free a h = (True, h')"
  shows "heap_wf lo h' \<and> same_config h h' \<and> htop h' = htop h \<and>
    (\<exists>b xs ys. baddr b = a \<and> a \<notin> baddr ` set xs \<and> hused h = xs @ b # ys \<and> hused h' = xs @ ys)"
proof -
  obtain b rest where u: "unlink_used a (hused h) = Some (b, rest)"
    using f by (auto simp: ta_free_def split: option.splits prod.splits)
  obtain fs fr where c: "compact (insert_block b (hfree h)) (hfresh h) = (fs, fr)" by fastforce
  have e: "h' = h\<lparr>hused := rest, hfree := fs, hfresh := fr\<rparr>"
    using f u c by (simp add: ta_free_def)
  from unlink_used_Some [OF u] obtain xs ys where
    "hused h = xs @ b # ys" "rest = xs @ ys" "a \<notin> baddr ` set xs" "baddr b = a" by blast
  with ta_free_Some [OF wf u c] e show ?thesis
    by (auto simp: same_config_def)
qed

lemma ta_free_False: "ta_free a h = (False, h') \<longleftrightarrow> a \<notin> baddr ` set (hused h) \<and> h' = h"
  by (auto simp: ta_free_def unlink_used_None [symmetric] split: option.splits prod.splits)

section \<open>The memory loops\<close>

lemma clear_bytes_eq:
  "n \<le> 4294967296 \<Longrightarrow> clear_bytes n p m = (\<lambda>a. if unat (a - p) < n then 0 else m a)"
proof (induction n arbitrary: p m)
  case (Suc n)
  have "unat (a - (p + 1)) < n \<or> a = p \<longleftrightarrow> unat (a - p) < Suc n" for a
  proof (cases "a = p")
    case False
    then have "0 < unat (a - p)" by (simp add: unat_gt_0)
    then have "unat (a - p - 1) = unat (a - p) - 1" by (subst u32_unat_sub) simp_all
    then have "unat (a - (p + 1)) = unat (a - p) - 1" by (simp add: diff_diff_eq)
    with False \<open>0 < unat (a - p)\<close> show ?thesis by auto
  qed simp
  with Suc show ?case by (auto simp: fun_eq_iff)
qed simp

lemma clear_words_eq:
  "4 * n \<le> 4294967296 \<Longrightarrow> clear_words n p m = (\<lambda>a. if unat (a - p) < 4 * n then 0 else m a)"
proof (induction n arbitrary: p m)
  case (Suc n)
  have near: "a = p \<or> a = p + 1 \<or> a = p + 2 \<or> a = p + 3 \<longleftrightarrow> unat (a - p) < 4" for a
  proof -
    have "unat (a - p) < 4 \<longleftrightarrow> unat (a - p) \<in> {0, 1, 2, 3}" by auto
    also have "\<dots> \<longleftrightarrow> a - p \<in> {0, 1, 2, 3}"
      by (simp add: word_unat_eq_iff)
    finally show ?thesis by (auto simp: algebra_simps)
  qed
  have far: "unat (a - (p + 4)) < 4 * n \<or> unat (a - p) < 4 \<longleftrightarrow> unat (a - p) < 4 * Suc n" for a
  proof -
    have "unat (a - p - 4) = (if 4 \<le> unat (a - p) then unat (a - p) - 4 else 4294967292 + unat (a - p))"
      by (simp add: unat_sub_wrap)
    then have "unat (a - (p + 4)) = (if 4 \<le> unat (a - p) then unat (a - p) - 4 else 4294967292 + unat (a - p))"
      by (simp add: diff_diff_eq)
    with Suc.prems show ?thesis by (auto split: if_splits)
  qed
  have "clear_words (Suc n) p m a = (if unat (a - p) < 4 * Suc n then 0 else m a)" for a
  proof -
    have "clear_words (Suc n) p m a =
      (if unat (a - (p + 4)) < 4 * n \<or> (a = p \<or> a = p + 1 \<or> a = p + 2 \<or> a = p + 3) then 0 else m a)"
      using Suc by auto
    then show ?thesis unfolding near far .
  qed
  then show ?case by blast
qed simp

lemma head_tail_split:
  "w * 4 + z = n \<Longrightarrow> n < (N :: nat) \<Longrightarrow> x < N \<Longrightarrow>
   r = (if w * 4 \<le> x then x - w * 4 else N + x - w * 4) \<Longrightarrow> (r < z \<or> x < 4 * w) = (x < n)"
  by auto

lemma memclear_eq: "memclear ptr num m = (\<lambda>a. if unat (a - ptr) < unat num then 0 else m a)"
proof -
  let ?w = "(num AND - 4) div 4"
  have w: "unat ?w = unat num div 4"
    using unat_and_minus_exp [of num 2] by (simp add: unat_div)
  have "num AND 3 = take_bit 2 num" by (simp add: take_bit_eq_mask mask_eq_exp_minus_1)
  then have b: "unat (num AND 3) = unat num mod 4"
    by (simp add: unsigned_take_bit_eq take_bit_eq_mod unat_mod)
  have q: "unat num div 4 * 4 + unat num mod 4 = unat num" by (rule div_mult_mod_eq)
  have "unat num div 4 * 4 < 4294967296" using q u32_less [of num] by linarith
  then have p: "unat (4 * ?w) = unat num div 4 * 4"
    using u32_unat_mult [of 4 ?w] by (simp add: w)
  have iff: "unat (a - (ptr + 4 * ?w)) < unat num mod 4 \<or> unat (a - ptr) < 4 * (unat num div 4) \<longleftrightarrow>
      unat (a - ptr) < unat num" for a
  proof -
    have "a - (ptr + 4 * ?w) = (a - ptr) - 4 * ?w" by (simp add: diff_diff_eq)
    then have "unat (a - (ptr + 4 * ?w)) =
       (if unat num div 4 * 4 \<le> unat (a - ptr) then unat (a - ptr) - unat num div 4 * 4
        else 4294967296 + unat (a - ptr) - unat num div 4 * 4)"
      by (simp only: unat_sub_wrap p)
    then show ?thesis by (rule head_tail_split [OF q u32_less u32_less])
  qed
  have "unat num mod 4 \<le> 4294967296" "4 * (unat num div 4) \<le> 4294967296"
    using q u32_less [of num] mod_less_eq_dividend [of "unat num" 4] by linarith+
  note c = clear_bytes_eq [OF this(1)] clear_words_eq [OF this(2)]
  show ?thesis
  proof
    fix a
    show "memclear ptr num m a = (if unat (a - ptr) < unat num then 0 else m a)"
      unfolding memclear_def Let_def w b c iff [of a, symmetric] by simp
  qed
qed

lemma copy_loop_eq:
  "(\<And>i j. i < n \<Longrightarrow> j < n \<Longrightarrow> d + (c + of_nat i) \<noteq> s + (c + of_nat j)) \<Longrightarrow>
   copy_loop n c d s m = (\<lambda>a. if \<exists>i < n. a = d + (c + of_nat i) then m (s + (a - d)) else m a)"
proof (induction n arbitrary: c m)
  case (Suc n)
  let ?m = "m(d + c := m (s + c))"
  have "d + (c + 1 + of_nat i) \<noteq> s + (c + 1 + of_nat j)" if "i < n" "j < n" for i j
    using Suc.prems [of "Suc i" "Suc j"] that by (simp add: ac_simps)
  from Suc.IH [OF this, where m = ?m] have e:
    "copy_loop (Suc n) c d s m =
      (\<lambda>a. if \<exists>i < n. a = d + (c + 1 + of_nat i) then ?m (s + (a - d)) else ?m a)"
    by (simp only: copy_loop.simps)
  have "copy_loop (Suc n) c d s m a =
    (if \<exists>i < Suc n. a = d + (c + of_nat i) then m (s + (a - d)) else m a)" for a
  proof (cases "\<exists>i < n. a = d + (c + 1 + of_nat i)")
    case True
    then obtain i where i: "i < n" "a = d + (c + 1 + of_nat i)" by blast
    then have "a = d + (c + of_nat (Suc i))" by (simp add: ac_simps)
    then have 1: "\<exists>i < Suc n. a = d + (c + of_nat i)" using i(1) by blast
    have "s + (a - d) = s + (c + of_nat (Suc i))" using i(2) by (simp add: algebra_simps)
    moreover have "d + (c + of_nat 0) \<noteq> s + (c + of_nat (Suc i))"
      by (rule Suc.prems) (use i in simp_all)
    ultimately have ne: "s + (a - d) \<noteq> d + c" by simp
    have "copy_loop (Suc n) c d s m a = ?m (s + (a - d))" by (simp only: e True if_True)
    also have "\<dots> = m (s + (a - d))" using ne by (rule fun_upd_other)
    finally show ?thesis using 1 by (simp only: if_True)
  next
    case False
    have "(\<exists>i < Suc n. a = d + (c + of_nat i)) \<longleftrightarrow> a = d + c"
    proof
      assume "\<exists>i < Suc n. a = d + (c + of_nat i)"
      then obtain i where "i < Suc n" "a = d + (c + of_nat i)" by blast
      with False show "a = d + c" by (cases i) (auto simp: ac_simps)
    qed (auto intro: exI [of _ 0])
    with False show ?thesis by (simp only: e) simp
  qed
  then show ?case by blast
qed simp

end
