(* ===== verification/Heap_Safety.thy ===== *)
theory Heap_Safety
  imports Heap_Invariant
begin

text \<open>
  The allocator as its clients see it: the locale \<open>allocator\<close> with the laws they rely on, its
  interpretation on the model of \<^verbatim>\<open>lib/tinyalloc.c\<close>, and the properties of \<open>malloc\<close>,
  \<open>free\<close> and \<open>realloc\<close> on that interface.
\<close>

section \<open>The interface its clients rely on\<close>

type_synonym region = "nat \<times> nat"

definition region_apart :: "region \<Rightarrow> region \<Rightarrow> bool" where
  "region_apart r s \<longleftrightarrow> snd r \<le> fst s \<or> snd s \<le> fst r"

datatype request = Alloc u32 | Release u32

fun client_run ::
  "(u32 \<Rightarrow> 's \<Rightarrow> u32 \<times> 's) \<Rightarrow> (u32 \<Rightarrow> 's \<Rightarrow> bool \<times> 's) \<Rightarrow> request list \<Rightarrow> 's \<Rightarrow> 's" where
  "client_run alloc release [] s = s"
| "client_run alloc release (Alloc n # rs) s = client_run alloc release rs (snd (alloc n s))"
| "client_run alloc release (Release a # rs) s = client_run alloc release rs (snd (release a s))"

fun client_ok ::
  "(u32 \<Rightarrow> 's \<Rightarrow> bool) \<Rightarrow> (u32 \<Rightarrow> 's \<Rightarrow> u32 \<times> 's) \<Rightarrow> (u32 \<Rightarrow> 's \<Rightarrow> bool \<times> 's) \<Rightarrow>
   request list \<Rightarrow> 's \<Rightarrow> bool" where
  "client_ok ok alloc release [] s \<longleftrightarrow> True"
| "client_ok ok alloc release (Alloc n # rs) s \<longleftrightarrow>
     ok n s \<and> client_ok ok alloc release rs (snd (alloc n s))"
| "client_ok ok alloc release (Release a # rs) s \<longleftrightarrow>
     client_ok ok alloc release rs (snd (release a s))"

locale allocator =
  fixes inv :: "'s \<Rightarrow> bool"
    and live :: "'s \<Rightarrow> region list"
    and ok :: "u32 \<Rightarrow> 's \<Rightarrow> bool"
    and alloc :: "u32 \<Rightarrow> 's \<Rightarrow> u32 \<times> 's"
    and release :: "u32 \<Rightarrow> 's \<Rightarrow> bool \<times> 's"
  assumes live_apart: "inv s \<Longrightarrow> sorted_wrt region_apart (live s)"
    and live_nonempty: "inv s \<Longrightarrow> r \<in> set (live s) \<Longrightarrow> fst r < snd r"
    and alloc_inv: "inv s \<Longrightarrow> ok n s \<Longrightarrow> inv (snd (alloc n s))"
    and alloc_null: "alloc n s = (0, s') \<Longrightarrow> inv s \<Longrightarrow> ok n s \<Longrightarrow> s' = s"
    and alloc_live: "alloc n s = (a, s') \<Longrightarrow> a \<noteq> 0 \<Longrightarrow> inv s \<Longrightarrow> ok n s \<Longrightarrow>
      \<exists>e. unat a + unat n \<le> e \<and> live s' = (unat a, e) # live s"
    and release_inv: "inv s \<Longrightarrow> inv (snd (release a s))"
    and release_live: "release a s = (True, s') \<Longrightarrow> inv s \<Longrightarrow>
      \<exists>xs e ys. live s = xs @ (unat a, e) # ys \<and> live s' = xs @ ys"
    and release_unknown: "release a s = (False, s') \<Longrightarrow> inv s \<Longrightarrow>
      unat a \<notin> fst ` set (live s) \<and> s' = s"
begin

lemma run_inv: "inv s \<Longrightarrow> client_ok ok alloc release rs s \<Longrightarrow> inv (client_run alloc release rs s)"
proof (induction rs arbitrary: s)
  case (Cons r rs)
  then show ?case by (cases r) (auto intro: alloc_inv release_inv)
qed simp

lemma run_apart:
  "inv s \<Longrightarrow> client_ok ok alloc release rs s \<Longrightarrow>
   sorted_wrt region_apart (live (client_run alloc release rs s))"
  by (intro live_apart run_inv)

lemma alloc_apart:
  assumes "inv s" "ok n s" "alloc n s = (a, s')" "a \<noteq> 0" "r \<in> set (live s)"
  shows "region_apart (unat a, unat a + unat n) r"
proof -
  obtain e where e: "unat a + unat n \<le> e" "live s' = (unat a, e) # live s"
    using alloc_live assms by blast
  have "inv s'" using alloc_inv [OF assms(1,2)] assms(3) by simp
  from live_apart [OF this] e assms(5) have "region_apart (unat a, e) r" by simp
  with e(1) show ?thesis by (auto simp: region_apart_def)
qed

lemma release_alloc:
  assumes "inv s" "ok n s" "alloc n s = (a, s')" "a \<noteq> 0" "release a s' = (done, s'')"
  shows "done \<and> live s'' = live s"
proof -
  obtain e where e: "unat a + unat n \<le> e" "live s' = (unat a, e) # live s"
    using alloc_live assms by blast
  have i: "inv s'" using alloc_inv [OF assms(1,2)] assms(3) by simp
  have "done" using release_unknown [of a s' s''] assms(5) i e(2) by (cases "done") auto
  then obtain xs e' ys where s: "live s' = xs @ (unat a, e') # ys" "live s'' = xs @ ys"
    using release_live [of a s' s''] assms(5) i by auto
  have "xs = []"
  proof (cases xs)
    case (Cons x zs)
    then have "(unat a, e') \<in> set (live s)" "(unat a, e) \<in> set (live s')" using s(1) e(2) by auto
    then have "region_apart (unat a, e) (unat a, e')" "unat a < e" "unat a < e'"
      using live_apart [OF i] live_nonempty [OF i] e(2) by fastforce+
    then show ?thesis by (simp add: region_apart_def)
  qed
  with s e(2) \<open>done\<close> show ?thesis by simp
qed

end

definition regions :: "heap \<Rightarrow> region list" where
  "regions h = map (\<lambda>b. (bstart b, bend b)) (hused h)"

lemma apart_region: "apart = (\<lambda>p q. region_apart (bstart p, bend p) (bstart q, bend q))"
  by (simp add: fun_eq_iff apart_def region_apart_def)

lemma alloc_block_nonnull:
  assumes "heap_wf lo h" "request_ok n h" "0 < lo" "alloc_block n h = (Some b, h')"
  shows "baddr b \<noteq> 0"
proof -
  have "heap_wf lo h'" "hused h' = b # hused h" using alloc_block_sound [OF assms(1,2,4)] by auto
  then have "lo \<le> bstart b" using heap_wf_block_end(1) [of lo h' b] by simp
  with assms(3) show ?thesis by (auto simp: bstart_def)
qed

lemma ta_alloc_cases:
  assumes "ta_alloc n h = (a, h')" "heap_wf lo h" "request_ok n h" "0 < lo"
  shows "(a = 0 \<and> h' = h) \<or>
    (a \<noteq> 0 \<and> (\<exists>b. alloc_block n h = (Some b, h') \<and> baddr b = a \<and> heap_wf lo h' \<and> same_config h h' \<and>
       hused h' = b # hused h \<and> unat n \<le> unat (bsize b)))"
proof (cases "alloc_block n h")
  case (Pair r h1)
  show ?thesis
  proof (cases r)
    case None
    with Pair assms(1) have "a = 0" "h' = h1" by (simp_all add: ta_alloc_def)
    moreover have "h1 = h" using alloc_block_None [of n h h1] Pair None by simp
    ultimately show ?thesis by simp
  next
    case (Some b)
    with Pair assms(1) have e: "a = baddr b" "h' = h1" by (simp_all add: ta_alloc_def)
    from alloc_block_sound [OF assms(2,3)] Pair Some e(2) have s:
      "heap_wf lo h'" "same_config h h'" "hused h' = b # hused h" "unat n \<le> unat (bsize b)"
      by auto
    have "a \<noteq> 0" using alloc_block_nonnull [OF assms(2-4)] Pair Some e(1) by simp
    with s e Pair Some show ?thesis by auto
  qed
qed

interpretation ta: allocator "\<lambda>h. 0 < lo \<and> heap_wf lo h" regions request_ok ta_alloc ta_free
proof (unfold_locales, goal_cases)
  case (1 h)
  then have "sorted_wrt apart (hused h @ hfree h)" using heap_wfD(8) tiling_apart by blast
  then have "sorted_wrt apart (hused h)" by (simp add: sorted_wrt_append)
  then show ?case by (simp add: regions_def sorted_wrt_map apart_region)
next
  case (2 h r)
  then obtain b where "b \<in> set (hused h)" "r = (bstart b, bend b)" by (auto simp: regions_def)
  with 2 heap_wfD(6) [of lo h b] show ?case by (simp add: good_def bend_bstart)
next
  case (3 h n)
  then show ?case using ta_alloc_cases [of n h "fst (ta_alloc n h)" "snd (ta_alloc n h)" lo] by auto
next
  case (4 n h h')
  then show ?case using ta_alloc_cases [of n h 0 h' lo] by auto
next
  case (5 n h a h')
  then obtain b where "baddr b = a" "hused h' = b # hused h" "unat n \<le> unat (bsize b)"
    using ta_alloc_cases [of n h a h' lo] by auto
  then show ?case by (auto simp: regions_def bstart_def bend_def)
next
  case (6 h a)
  then show ?case using ta_free_wf [of lo h a "snd (ta_free a h)"] ta_free_False [of a h "snd (ta_free a h)"]
    by (cases "fst (ta_free a h)") (auto simp: prod_eq_iff)
next
  case (7 a h h')
  then obtain b xs ys where "baddr b = a" "hused h = xs @ b # ys" "hused h' = xs @ ys"
    using ta_free_wf [of lo h a h'] by blast
  then have "regions h = map (\<lambda>b. (bstart b, bend b)) xs @ (unat a, bend b) # map (\<lambda>b. (bstart b, bend b)) ys"
    "regions h' = map (\<lambda>b. (bstart b, bend b)) xs @ map (\<lambda>b. (bstart b, bend b)) ys"
    by (simp_all add: regions_def bstart_def)
  then show ?case by blast
next
  case (8 a h h')
  have "fst ` set (regions h) = unat ` baddr ` set (hused h)"
    by (simp add: regions_def bstart_def image_image)
  with 8 show ?case using ta_free_False [of a h h'] by (auto simp: word_unat_eq_iff [symmetric])
qed


section \<open>Initialisation, calloc, realloc\<close>

lemma ta_init_wf:
  assumes n: "0 < n" and fits: "unat base + 16 + 12 * unat n \<le> unat limit"
    and al: "is_pow2 al" "unat al dvd unat base + 16 + 12 * unat n" and sp: "0 < thresh"
  shows "heap_wf (unat base + 16 + 12 * unat n) (ta_init base limit n thresh al)"
proof -
  have "unat n * 12 < 4294967296" using fits u32_less [of limit] by linarith
  then have "unat (n * 12) = 12 * unat n"
    using u32_unat_mult [of n 12] by simp
  moreover have b: "unat (base + 16) = unat base + 16"
  proof -
    have "unat base + 16 < 4294967296" using fits u32_less [of limit] by linarith
    then show ?thesis using u32_unat_add [of base 16] by simp
  qed
  ultimately have top: "unat (base + 16 + n * 12) = unat base + 16 + 12 * unat n"
    using order.strict_trans1 [OF fits u32_less] u32_unat_add [of "base + 16" "n * 12"] by simp
  have k: "Suc (unat (n - 1)) = unat n"
    using n by (simp add: u32_unat_sub word_less_nat_alt)
  have "map bid (map (\<lambda>i. Block i 0 0) [0..<unat n]) = [0..<unat n]"
    by (simp add: o_def)
  then have m: "image_mset bid (mset (map (\<lambda>i. Block i 0 0) [0..<unat n])) = mset [0..<unat n]"
    by (metis mset_map)
  show ?thesis
    unfolding heap_wf_def ta_init_def k
    by (intro conjI) (use top al sp fits m in \<open>simp_all add: word_le_nat_alt del: mset_map\<close>)
qed

lemma used_size_eq:
  "used_size a bs = (case unlink_used a bs of None \<Rightarrow> 0 | Some (b, _) \<Rightarrow> bsize b)"
  by (induction a bs rule: used_size.induct) (auto split: option.splits)

lemma ta_realloc_None:
  assumes "heap_wf lo h" "request_ok num h" "0 < lo" "ta_realloc ptr num (h, m) = (0, h', m')"
  shows "h' = h \<and> m' = m \<and>
    (ptr \<notin> baddr ` set (hused h) \<or> alloc_block num h = (None, h))"
proof (cases "ta_getsize ptr h > 0")
  case True
  obtain r h1 where a: "alloc_block num h = (r, h1)" by fastforce
  show ?thesis
  proof (cases r)
    case None
    then have "h1 = h" using alloc_block_None a by auto
    with None a True assms(4) show ?thesis by (simp add: ta_realloc_def)
  next
    case (Some b)
    with a True assms(4) have "baddr b = 0" by (auto simp: ta_realloc_def Let_def split: prod.splits)
    moreover have "baddr b \<noteq> 0"
      using alloc_block_nonnull [OF assms(1-3)] a Some by simp
    ultimately show ?thesis by simp
  qed
next
  case False
  then have z: "ta_getsize ptr h = 0" by (simp add: word_less_nat_alt word_unat_eq_iff)
  have "ptr \<notin> baddr ` set (hused h)"
  proof
    assume "ptr \<in> baddr ` set (hused h)"
    then obtain b r where u: "unlink_used ptr (hused h) = Some (b, r)"
      using unlink_used_None [of ptr "hused h"] by fastforce
    then have "b \<in> set (hused h)" using unlink_used_Some by fastforce
    then have "0 < bsize b" using heap_wfD(6) [OF assms(1)] by (simp add: good_def)
    with z u show False by (simp add: ta_getsize_def used_size_eq)
  qed
  with z assms(4) show ?thesis by (simp add: ta_realloc_def)
qed


lemma region_bytes_apart:
  fixes d s :: u32
  assumes "region_apart (unat d, e) (unat s, f)" "unat d + n \<le> e" "unat s + n \<le> f"
    "e \<le> 4294967296" "f \<le> 4294967296" "i < n" "j < n"
  shows "d + of_nat i \<noteq> s + of_nat j"
proof
  assume eq: "d + of_nat i = s + of_nat j"
  have ij: "i < 4294967296" "j < 4294967296" "unat d + i < 4294967296" "unat s + j < 4294967296"
    using assms(2-7) by linarith+
  have "unat (d + of_nat i) = unat d + i" "unat (s + of_nat j) = unat s + j"
    using u32_unat_add [of d "of_nat i"] u32_unat_add [of s "of_nat j"] ij
    by (simp_all add: u32_unat_of_nat)
  with eq have "unat d + i = unat s + j" by simp
  with assms show False by (auto simp: region_apart_def)
qed

lemma ta_realloc_Some:
  assumes wf: "heap_wf lo h" and ok: "request_ok num h" and lo: "0 < lo"
    and r: "ta_realloc ptr num (h, m) = (a, h', m')" and a: "a \<noteq> 0"
  shows "heap_wf lo h' \<and> same_config h h' \<and>
    (\<exists>n b xs p ys. hused h' = b # xs @ ys \<and> hused h = xs @ p # ys \<and> baddr b = a \<and> baddr p = ptr \<and>
       unat num \<le> unat (bsize b) \<and> n = min (unat num) (unat (bsize p)) \<and>
       (\<forall>i < n. m' (a + of_nat i) = m (ptr + of_nat i)) \<and>
       (\<forall>x. (\<forall>i < n. x \<noteq> a + of_nat i) \<longrightarrow> m' x = m x))"
proof -
  from r a have pos: "ta_getsize ptr h > 0" by (auto simp: ta_realloc_def Let_def split: if_splits)
  obtain b h1 where al: "alloc_block num h = (Some b, h1)" and ba: "baddr b = a"
    using r a pos by (auto simp: ta_realloc_def Let_def split: prod.splits option.splits)
  from alloc_block_sound [OF wf ok al] have s: "heap_wf lo h1" "same_config h h1"
    "hused h1 = b # hused h" "unat num \<le> unat (bsize b)" by auto
  have "unlink_used ptr (hused h) \<noteq> None"
  proof
    assume "unlink_used ptr (hused h) = None"
    then have "ta_getsize ptr h = 0" by (simp add: ta_getsize_def used_size_eq)
    with pos show False by simp
  qed
  then obtain p rest where u: "unlink_used ptr (hused h) = Some (p, rest)" by auto
  from unlink_used_Some [OF u] obtain xs ys where
    d: "hused h = xs @ p # ys" "rest = xs @ ys" "ptr \<notin> baddr ` set xs" "baddr p = ptr"
    by (elim conjE exE)
  have sz: "ta_getsize ptr h = bsize p" using u by (simp add: ta_getsize_def used_size_eq)
  let ?n = "if bsize p > num then num else bsize p"
  have un: "unat ?n = min (unat num) (unat (bsize p))" by (auto simp: word_less_nat_alt)
  have pu: "p \<in> set (hused h1)" "b \<in> set (hused h1)" using s(3) d(1) by auto
  have apart: "region_apart (unat a, bend b) (unat ptr, bend p)"
    using ta.live_apart [of lo h1] lo s(1,3) d ba by (auto simp: regions_def bstart_def)
  have ends: "bend b \<le> 4294967296" "bend p \<le> 4294967296"
    using heap_wf_block_end(2) [OF s(1)] pu u32_less [of "htop h1"] by (meson UnI1 le_trans less_imp_le)+
  have dj: "a + (0 + of_nat i) \<noteq> ptr + (0 + of_nat j)" if "i < unat ?n" "j < unat ?n" for i j
    using region_bytes_apart [OF apart _ _ ends that] un s(4) ba d(4)
    by (simp add: bend_def)
  have ne: "a \<noteq> ptr" using dj [of 0 0] un pos sz ok
    by (auto simp: request_ok_def word_less_nat_alt)
  then have u1: "unlink_used ptr (hused h1) = Some (p, b # rest)" using s(3) ba u by simp
  then have "fst (ta_free ptr h1)" by (simp add: ta_free_def split: prod.splits)
  then obtain h2 where f: "ta_free ptr h1 = (True, h2)" by (cases "ta_free ptr h1") simp
  from ta_free_wf [OF s(1) f] have w2: "heap_wf lo h2" "same_config h1 h2" by auto
  have h2u: "hused h2 = b # xs @ ys" using f u1 d(2) by (auto simp: ta_free_def split: prod.splits)
  have e: "h' = h2" "m' = copy_loop (unat ?n) 0 a ptr m"
    using r pos al ba f sz by (auto simp: ta_realloc_def Let_def)
  have m': "m' = (\<lambda>x. if \<exists>i < unat ?n. x = a + (0 + of_nat i) then m (ptr + (x - a)) else m x)"
    unfolding e(2) by (rule copy_loop_eq [OF dj])
  have "\<forall>i < unat ?n. m' (a + of_nat i) = m (ptr + of_nat i)"
    "\<forall>x. (\<forall>i < unat ?n. x \<noteq> a + of_nat i) \<longrightarrow> m' x = m x"
    unfolding m' by auto
  with e w2 s h2u d ba un show ?thesis
    unfolding same_config_def
    by (intro conjI exI [of _ "unat ?n"] exI [of _ b] exI [of _ xs] exI [of _ p] exI [of _ ys]) simp_all
qed

lemma gap_none_single:
  assumes "tiling {lo..<hi} fs" "sorted_wrt gap fs"
  shows "(fs = [] \<and> hi \<le> lo) \<or> (\<exists>b. fs = [b] \<and> bstart b = lo \<and> bend b = hi)"
proof (cases fs)
  case Nil
  with assms show ?thesis by simp
next
  case (Cons b bs)
  have p: "bstart b < bend b" using assms(1) Cons by (simp add: bend_bstart)
  show ?thesis
  proof (cases bs)
    case Nil
    with assms(1) Cons have "{lo..<hi} = {bstart b..<bend b}" by (auto simp: blk_set_def)
    moreover have "lo < hi" "bstart b = lo \<or> lo < bstart b"
      using p tiling_ivl_end [OF assms(1), of b] Cons by auto
    ultimately have "bstart b = lo \<and> bend b = hi"
      using p by (simp add: atLeastLessThan_eq_iff)
    with Cons Nil show ?thesis by blast
  next
    case bs: (Cons c cs)
    have ends: "lo \<le> bstart x \<and> bend x \<le> hi" if "x \<in> set fs" for x
      using tiling_ivl_end [OF assms(1) that] .
    have g: "bend b < bstart x" if "x \<in> set bs" for x
      using assms(2) Cons that by (simp add: gap_def)
    have "bstart c < bend c" using assms(1) Cons bs by (simp add: bend_bstart)
    then have "bend b \<in> {lo..<hi}" using p g [of c] ends [of b] ends [of c] bs Cons by simp
    then obtain x where x: "x \<in> set fs" "bend b \<in> blk_set x"
      using tiling_union [OF assms(1)] by blast
    then have "x \<noteq> b" by (auto simp: blk_set_def)
    with x(1) Cons have "bend b < bstart x" using g by simp
    with x(2) show ?thesis by (simp add: blk_set_def)
  qed
qed

lemma count_blocks_length: "count_blocks bs = of_nat (length bs)"
proof -
  have "foldl (\<lambda>n _. n + 1) k bs = k + of_nat (length bs)" for k :: u32
    by (induction bs arbitrary: k) simp_all
  then show ?thesis by (simp add: count_blocks_def)
qed

section \<open>What the allocator promises\<close>

text \<open>A small heap the examples use: four nodes at 0x100000, managed area from 0x100040.\<close>

definition heap0 :: heap where
  "heap0 = ta_init 0x100000 0x101000 4 16 4"

lemma heap0_wf: "heap_wf 1048640 heap0"
proof -
  have "is_pow2 4" unfolding is_pow2_def by (rule exI [of _ 2]) simp
  then show ?thesis
    using ta_init_wf [of 4 "0x100000" "0x101000" 4 16] by (simp add: heap0_def)
qed

lemma heap0_eq: "heap0 = \<lparr>hfree = [], hused = [], hfresh = [Block 0 0 0, Block 1 0 0, Block 2 0 0, Block 3 0 0],
    htop = 0x100040, heap_limit = 0x101000, heap_split_thresh = 16, heap_alignment = 4, heap_max_blocks = 4\<rparr>"
  by (simp add: heap0_def ta_init_def upt_rec)

lemma heap0_alloc: "ta_alloc 10 heap0 = (0x100040, snd (ta_alloc 10 heap0))"
  by (simp add: heap0_eq ta_alloc_def alloc_block_def round_num_def is_top_def Let_def)

lemmas heap_eval = heap0_eq ta_alloc_def alloc_block_def round_num_def is_top_def Let_def
  request_ok_def ta_free_def regions_def bstart_def bend_def





text \<open>Releasing the block just allocated succeeds and restores the list of blocks in use, with
  the heap well-formed again.\<close>

theorem ta_free_undoes_alloc:
  assumes "0 < lo" and "heap_wf lo h" and "request_ok n h"
    and "ta_alloc n h = (a, h')" and "a \<noteq> 0" and "ta_free a h' = (ok, h'')"
  shows "ok \<and> regions h'' = regions h \<and> heap_wf lo h''"
proof -
  have "heap_wf lo h'" using ta.alloc_inv [of lo h n] assms by simp
  then have "heap_wf lo h''" using ta.release_inv [of lo h' a] assms by simp
  with ta.release_alloc [of lo h n a h' ok h''] assms show ?thesis by blast
qed

theorem ta_free_undoes_alloc_witness:
  "fst (ta_free 0x100040 (snd (ta_alloc 10 heap0))) \<and>
   regions (snd (ta_free 0x100040 (snd (ta_alloc 10 heap0)))) = []"
proof -
  have "request_ok 10 heap0" by (simp add: heap_eval)
  moreover have "regions heap0 = []" by (simp add: heap_eval)
  ultimately show ?thesis
    using ta_free_undoes_alloc [OF _ heap0_wf _ heap0_alloc, of "fst (ta_free 0x100040 (snd (ta_alloc 10 heap0)))"
      "snd (ta_free 0x100040 (snd (ta_alloc 10 heap0)))"] by simp
qed

text \<open>\<open>ta_init\<close> lays out a well-formed heap: no block in use, every node fresh, and the managed
  area starting right after the header and the array of nodes.\<close>

theorem ta_init_correct:
  assumes "0 < n" and "unat base + 16 + 12 * unat n \<le> unat limit" and "0 < thresh"
    and "is_pow2 al" and "unat al dvd unat base + 16 + 12 * unat n"
  shows "heap_wf (unat base + 16 + 12 * unat n) (ta_init base limit n thresh al) \<and>
    regions (ta_init base limit n thresh al) = [] \<and> ta_check (ta_init base limit n thresh al)"
proof -
  have "Suc (unat (n - 1)) = unat n"
    using assms(1) by (simp add: u32_unat_sub word_less_nat_alt)
  then have "ta_check (ta_init base limit n thresh al)"
    by (simp add: ta_check_def ta_num_free_def ta_num_used_def ta_num_fresh_def ta_init_def
        count_blocks_length)
  moreover have "regions (ta_init base limit n thresh al) = []" by (simp add: regions_def ta_init_def)
  ultimately show ?thesis using ta_init_wf [OF assms(1,2,4,5,3)] by blast
qed

theorem ta_init_correct_witness: "heap_wf 0x100040 (ta_init 0x100000 0x101000 4 16 4)"
proof -
  have "is_pow2 4" unfolding is_pow2_def by (rule exI [of _ 2]) simp
  then show ?thesis using ta_init_correct [of 4 "0x100000" "0x101000" 16 4] by simp
qed

text \<open>No memory leaks into the cracks: when every block has been released, the merge pass has
  joined the whole managed area into one free block (or nothing was ever carved from it), and the
  self-check accepts every well-formed heap.\<close>

theorem heap_no_leak:
  assumes "heap_wf lo h"
  shows "ta_check h \<and> (hused h = [] \<longrightarrow>
    (hfree h = [] \<and> unat (htop h) = lo) \<or>
    (\<exists>b. hfree h = [b] \<and> bstart b = lo \<and> bend b = unat (htop h)))"
proof -
  note w = heap_wfD [OF assms]
  have "size (image_mset bid (mset (hused h)) + image_mset bid (mset (hfree h)) + image_mset bid (mset (hfresh h))) =
      size (mset [0..<unat (heap_max_blocks h)])"
    unfolding w(9) ..
  then have "length (hused h) + length (hfree h) + length (hfresh h) = unat (heap_max_blocks h)"
    by simp
  then have "(of_nat (length (hused h) + length (hfree h) + length (hfresh h)) :: u32) = heap_max_blocks h"
    by simp
  then have "ta_check h"
    by (simp add: ta_check_def ta_num_free_def ta_num_used_def ta_num_fresh_def count_blocks_length ac_simps)
  moreover have "(hfree h = [] \<and> unat (htop h) = lo) \<or>
    (\<exists>b. hfree h = [b] \<and> bstart b = lo \<and> bend b = unat (htop h))" if "hused h = []"
    using gap_none_single [of lo "unat (htop h)" "hfree h"] w(3,7,8) that by auto
  ultimately show ?thesis by blast
qed

theorem heap_no_leak_witness: "ta_check heap0 \<and> hused heap0 = []"
  using heap_no_leak [OF heap0_wf] by (simp add: heap0_eq)

text \<open>\<open>ta_realloc\<close> of a block in use to a request that fits: the new block starts with the old
  contents up to the shorter of the two lengths, no byte outside that prefix of the new block
  changes, the old block is released and every other block in use is kept.\<close>

theorem realloc_moves:
  assumes "heap_wf lo h" and "request_ok num h" and "0 < lo"
    and "realloc ptr num (h, m) = Some (a, h', m')" and "ptr \<noteq> 0"
  shows "heap_wf lo h' \<and>
    (\<exists>n b xs p ys. hused h' = b # xs @ ys \<and> hused h = xs @ p # ys \<and> baddr b = a \<and> baddr p = ptr \<and>
       unat num \<le> unat (bsize b) \<and> n = min (unat num) (unat (bsize p)) \<and>
       (\<forall>i < n. m' (a + of_nat i) = m (ptr + of_nat i)) \<and>
       (\<forall>x. (\<forall>i < n. x \<noteq> a + of_nat i) \<longrightarrow> m' x = m x))"
proof -
  from assms(4,5) have "ta_realloc ptr num (h, m) = (a, h', m')" "a \<noteq> 0"
    by (auto simp: realloc_def split: if_splits prod.splits)
  from ta_realloc_Some [OF assms(1-3) this] show ?thesis by blast
qed

definition heap1 :: heap where
  "heap1 = snd (ta_alloc 10 heap0)"

theorem realloc_moves_witness:
  "\<exists>h' m'. realloc 0x100040 2 (heap1, \<lambda>a. ucast a) = Some (0x10004C, h', m') \<and>
     m' 0x10004C = 0x40 \<and> m' 0x10004D = 0x41"
proof -
  have ok: "request_ok 10 heap0" by (simp add: heap_eval)
  have w: "heap_wf 1048640 heap1"
    using ta.alloc_inv [of 1048640 heap0 10] heap0_wf ok by (simp add: heap1_def)
  have ok1: "request_ok 2 heap1" by (simp add: heap1_def heap_eval)
  obtain r where r: "realloc 0x100040 2 (heap1, \<lambda>a. ucast a) = Some (0x10004C, r)"
    by (simp add: heap1_def heap_eval realloc_def ta_realloc_def ta_getsize_def)
  obtain h' m' where hm: "r = (h', m')" by fastforce
  have nz: "(0 :: nat) < 1048640" "(0x100040 :: u32) \<noteq> 0" by simp_all
  obtain n xs p ys where p: "hused heap1 = xs @ p # ys"
    and n: "n = min (unat (2 :: u32)) (unat (bsize p))"
    and c: "\<forall>i < n. m' (0x10004C + of_nat i) = ucast ((0x100040 :: u32) + of_nat i)"
    using realloc_moves [OF w ok1 nz(1) r [unfolded hm] nz(2)] by blast
  have "hused heap1 = [Block 0 0x100040 12]" by (simp add: heap1_def heap_eval)
  then have "p = Block 0 0x100040 12" using p by (cases xs) auto
  then have "m' (0x10004C + of_nat 0) = ucast ((0x100040 :: u32) + of_nat 0)"
     "m' (0x10004C + of_nat 1) = ucast ((0x100040 :: u32) + of_nat 1)"
    using c [rule_format, of 0] c [rule_format, of 1] n by simp_all
  with r hm show ?thesis by simp
qed

text \<open>A request near 2^32 wraps when it is rounded up: a zero-length block is returned.\<close>

lemma ta_alloc_rounding_wraps:
  "fst (ta_alloc 0xFFFFFFFF heap0) = 0x100040 \<and>
   regions (snd (ta_alloc 0xFFFFFFFF heap0)) = [(0x100040, 0x100040)]"
  by (simp add: heap_eval)

end
