(* ===== verification/CString.thy ===== *)
theory CString
  imports Prelude
begin

text \<open>
  The string and character functions of \<^verbatim>\<open>lib/stdlib.c\<close>. A \<open>char *\<close> is the list of the bytes
  from the address it points to up to the end of the object it points into; reading past that
  end is \<open>None\<close>, so a result \<open>Some r\<close> says that the code stayed inside its objects. Plain
  \<open>char\<close> is signed on the target: a comparison or subtraction of two characters promotes them with
  \<open>sint\<close>. A destination buffer is the list of its bytes, returned updated.
\<close>

type_synonym cbytes = "u8 list"

section \<open>Character classes\<close>

text \<open>Each function converts its \<open>int\<close> argument to \<open>uint8_t\<close> first: the parameter is that byte.\<close>

definition isdigit :: "u8 \<Rightarrow> bool" where "isdigit c \<longleftrightarrow> c \<ge> 0x30 \<and> c \<le> 0x39"
definition isupper :: "u8 \<Rightarrow> bool" where "isupper c \<longleftrightarrow> c \<ge> 0x41 \<and> c \<le> 0x5A"
definition islower :: "u8 \<Rightarrow> bool" where "islower c \<longleftrightarrow> c \<ge> 0x61 \<and> c \<le> 0x7A"
definition isalpha :: "u8 \<Rightarrow> bool" where "isalpha c \<longleftrightarrow> isupper c \<or> islower c"
definition isalnum :: "u8 \<Rightarrow> bool" where "isalnum c \<longleftrightarrow> isdigit c \<or> isalpha c"
definition isascii :: "u8 \<Rightarrow> bool" where "isascii c \<longleftrightarrow> c AND 0x80 = 0"
definition isblank :: "u8 \<Rightarrow> bool" where "isblank c \<longleftrightarrow> c = 0x20 \<or> c = 0x09"
definition iscntrl :: "u8 \<Rightarrow> bool" where "iscntrl c \<longleftrightarrow> (c \<ge> 0 \<and> c \<le> 31) \<or> c = 127"
definition isgraph :: "u8 \<Rightarrow> bool" where "isgraph c \<longleftrightarrow> c \<ge> 33 \<and> c \<le> 126"
definition isprint :: "u8 \<Rightarrow> bool" where "isprint c \<longleftrightarrow> c \<ge> 32 \<and> c \<le> 126"
definition isspace :: "u8 \<Rightarrow> bool" where
  "isspace c \<longleftrightarrow> c = 0x20 \<or> c = 0x09 \<or> c = 0x0A \<or> c = 0x0D \<or> c = 0x0C \<or> c = 0x0B"
definition ispunct :: "u8 \<Rightarrow> bool" where
  "ispunct c \<longleftrightarrow> isascii c \<and> \<not> iscntrl c \<and> \<not> isalnum c \<and> \<not> isspace c"
definition isxdigit :: "u8 \<Rightarrow> bool" where
  "isxdigit c \<longleftrightarrow> isdigit c \<or> (let bc = c OR 0x20 in bc \<ge> 0x61 \<and> bc \<le> 0x66)"
definition tolower :: "u8 \<Rightarrow> u8" where
  "tolower c = (if c \<ge> 0x41 \<and> c \<le> 0x5A then c XOR 0x20 else c)"
definition toupper :: "u8 \<Rightarrow> u8" where
  "toupper c = (if c \<ge> 0x61 \<and> c \<le> 0x7A then c XOR 0x20 else c)"

section \<open>Lengths and comparisons\<close>

fun strlen_from :: "cbytes \<Rightarrow> u32 \<Rightarrow> u32 option" where
  "strlen_from [] ct = None"
| "strlen_from (c # t) ct = (if c \<noteq> 0 then strlen_from t (ct + 1) else Some ct)"

definition strlen :: "cbytes \<Rightarrow> u32 option" where
  "strlen t = strlen_from t 0"

fun strcmp :: "cbytes \<Rightarrow> cbytes \<Rightarrow> int option" where
  "strcmp (c1 # d) (c2 # s) =
     (if c1 = c2 \<and> c1 \<noteq> 0 then strcmp d s else Some (sint c1 - sint c2))"
| "strcmp _ _ = None"

text \<open>\<open>--limit\<close> of a zero limit wraps to the largest \<open>size_t\<close>.\<close>

fun strncmp :: "cbytes \<Rightarrow> cbytes \<Rightarrow> u32 \<Rightarrow> int option" where
  "strncmp (a # as) (b # bs) limit =
     (let limit = limit - 1 in
      if limit \<noteq> 0 \<and> a = b then (if a = 0 then Some 0 else strncmp as bs limit)
      else Some (sint a - sint b))"
| "strncmp _ _ _ = None"

text \<open>The loop of \<open>memcmp\<close> for a length that is not zero; the length counts down to one.\<close>

fun memcmp_loop :: "nat \<Rightarrow> cbytes \<Rightarrow> cbytes \<Rightarrow> int option" where
  "memcmp_loop len (a # as) (b # bs) =
     (let len = len - 1 in
      if len \<noteq> 0 \<and> a = b then memcmp_loop len as bs else Some (sint a - sint b))"
| "memcmp_loop _ _ _ = None"

definition memcmp :: "cbytes \<Rightarrow> cbytes \<Rightarrow> u32 \<Rightarrow> int option" where
  "memcmp mem1 mem2 len = (if len = 0 then Some 0 else memcmp_loop (unat len) mem1 mem2)"

fun strcasecmp :: "cbytes \<Rightarrow> cbytes \<Rightarrow> int option" where
  "strcasecmp (s # ss) (d # ds) =
     (if s \<noteq> d then
        (let a = uint (tolower s); b = uint (tolower d) in
         if a \<noteq> b then Some (a - b) else strcasecmp ss ds)
      else if s = 0 then Some 0 else strcasecmp ss ds)"
| "strcasecmp _ _ = None"

fun strncasecmp :: "nat \<Rightarrow> cbytes \<Rightarrow> cbytes \<Rightarrow> int option" where
  "strncasecmp 0 _ _ = Some 0"
| "strncasecmp (Suc l) (s # ss) (d # ds) =
     (if s \<noteq> d then
        (let a = uint (tolower s); b = uint (tolower d) in
         if a \<noteq> b then Some (a - b) else strncasecmp l ss ds)
      else if s = 0 then Some 0 else strncasecmp l ss ds)"
| "strncasecmp (Suc l) _ _ = None"

section \<open>Searching\<close>

text \<open>\<open>Some None\<close> is the null pointer, \<open>Some (Some p)\<close> the pointer to the suffix \<open>p\<close>. The byte
  read is compared as a signed \<open>char\<close> with the \<open>int\<close> argument.\<close>

fun strchr :: "cbytes \<Rightarrow> int \<Rightarrow> cbytes option option" where
  "strchr [] c = None"
| "strchr (ch # s) c =
     (if sint ch = c then Some (Some (ch # s)) else if ch = 0 then Some None else strchr s c)"

fun memchr :: "nat \<Rightarrow> cbytes \<Rightarrow> int \<Rightarrow> cbytes option option" where
  "memchr 0 p c = Some None"
| "memchr (Suc l) [] c = None"
| "memchr (Suc l) (b # p) c = (if sint b = c then Some (Some (b # p)) else memchr l p c)"

section \<open>Copying\<close>

text \<open>What \<open>memcpy\<close> of \<open>n\<close> bytes to the start of a buffer leaves in it, for objects that do not
  overlap; \<open>None\<close> when either object is too short.\<close>

definition copy_prefix :: "cbytes \<Rightarrow> cbytes \<Rightarrow> nat \<Rightarrow> cbytes option" where
  "copy_prefix d s n = (if n \<le> length d \<and> n \<le> length s then Some (take n s @ drop n d) else None)"

definition strcpy :: "cbytes \<Rightarrow> cbytes \<Rightarrow> cbytes option" where
  "strcpy d s = Option.bind (strlen s) (\<lambda>n. copy_prefix d s (unat (n + 1)))"

definition strcat :: "cbytes \<Rightarrow> cbytes \<Rightarrow> cbytes option" where
  "strcat d s = Option.bind (strlen d) (\<lambda>k.
     map_option (\<lambda>t. take (unat k) d @ t) (strcpy (drop (unat k) d) s))"

definition strncat :: "cbytes \<Rightarrow> cbytes \<Rightarrow> u32 \<Rightarrow> cbytes option" where
  "strncat d s l = Option.bind (strlen d) (\<lambda>k.
     let s1 = drop (unat k) d in
     Option.bind (memchr (unat l) s 0) (\<lambda>s2.
       map_option (\<lambda>t. take (unat k) d @ t)
         (case s2 of
            Some p \<Rightarrow> copy_prefix s1 s (length s - length p + 1)
          | None \<Rightarrow> Option.bind (copy_prefix s1 s (unat l)) (\<lambda>t.
              if unat l < length t then Some (t[unat l := 0]) else None))))"

fun strncpy_zap :: "nat \<Rightarrow> cbytes \<Rightarrow> cbytes option" where
  "strncpy_zap 0 s1 = Some s1"
| "strncpy_zap (Suc l) [] = None"
| "strncpy_zap (Suc l) (b # s1) = map_option ((#) 0) (strncpy_zap l s1)"

fun strncpy :: "nat \<Rightarrow> cbytes \<Rightarrow> cbytes \<Rightarrow> cbytes option" where
  "strncpy 0 s1 s2 = Some s1"
| "strncpy (Suc l) (b # s1) (c # s2) =
     (if c = 0 then map_option ((#) c) (strncpy_zap l s1)
      else map_option ((#) c) (strncpy l s1 s2))"
| "strncpy (Suc l) _ _ = None"

section \<open>C strings\<close>

definition cstr :: "cbytes \<Rightarrow> u8 list" where "cstr t = takeWhile (\<lambda>c. c \<noteq> 0) t"
definition terminated :: "cbytes \<Rightarrow> bool" where "terminated t \<longleftrightarrow> 0 \<in> set t"

lemma terminated_simps [simp]:
  "\<not> terminated []" "terminated (c # t) \<longleftrightarrow> c = 0 \<or> terminated t"
  by (auto simp: terminated_def)

lemma cstr_simps [simp]: "cstr [] = []" "cstr (c # t) = (if c = 0 then [] else c # cstr t)"
  by (simp_all add: cstr_def)

lemma terminated_split: "terminated t \<Longrightarrow> t = cstr t @ 0 # drop (Suc (length (cstr t))) t"
  by (induction t) auto

lemma cstr_nonzero [simp]: "0 \<notin> set (cstr t)"
  by (induction t) auto

lemma cstr_append [simp]: "0 \<notin> set xs \<Longrightarrow> cstr (xs @ 0 # ys) = xs"
  by (induction xs) auto

lemma terminated_append [simp]: "terminated (xs @ ys) \<longleftrightarrow> terminated xs \<or> terminated ys"
  by (auto simp: terminated_def)

lemma strlen_from_eq:
  "strlen_from t ct = (if terminated t then Some (ct + of_nat (length (cstr t))) else None)"
  by (induction t ct rule: strlen_from.induct) (auto simp: ac_simps)

lemma strlen_eq: "strlen t = (if terminated t then Some (of_nat (length (cstr t))) else None)"
  by (simp add: strlen_def strlen_from_eq)

lemma length_cstr: "terminated t \<Longrightarrow> length (cstr t) < length t"
  by (subst (2) terminated_split) simp_all

section \<open>Comparisons as orders\<close>

text \<open>Both string comparisons are the lexicographic comparison of keys: the characters up to and
  including the terminator, as signed \<open>char\<close> values or folded to lower case.\<close>

fun lex_cmp :: "int list \<Rightarrow> int list \<Rightarrow> int" where
  "lex_cmp (a # as) (b # bs) = (if a = b then lex_cmp as bs else a - b)"
| "lex_cmp [] [] = 0"
| "lex_cmp [] (b # bs) = -1"
| "lex_cmp (a # as) [] = 1"

lemma lex_cmp_zero: "lex_cmp as bs = 0 \<longleftrightarrow> as = bs"
  by (induction as bs rule: lex_cmp.induct) auto

lemma lex_cmp_antisym: "lex_cmp as bs < 0 \<longleftrightarrow> lex_cmp bs as > 0"
  by (induction as bs rule: lex_cmp.induct) auto

lemma lex_cmp_total: "lex_cmp as bs \<le> 0 \<or> lex_cmp bs as \<le> 0"
  using lex_cmp_antisym [of as bs] by linarith

lemma lex_cmp_trans: "lex_cmp as bs \<le> 0 \<Longrightarrow> lex_cmp bs cs \<le> 0 \<Longrightarrow> lex_cmp as cs \<le> 0"
proof (induction as bs arbitrary: cs rule: lex_cmp.induct)
  case (1 a as b bs)
  then show ?case by (cases cs) (auto split: if_splits)
next
  case 2
  then show ?case by simp
next
  case (3 b bs)
  then show ?case by (cases cs) auto
next
  case (4 a as)
  then show ?case by simp
qed

definition char_key :: "cbytes \<Rightarrow> int list" where "char_key s = map sint (cstr s) @ [0]"
definition case_key :: "cbytes \<Rightarrow> int list" where
  "case_key s = map (\<lambda>c. uint (tolower c)) (cstr s) @ [0]"

lemma tolower_zero: "tolower c = 0 \<longleftrightarrow> c = 0"
proof
  assume "tolower c = 0"
  show "c = 0"
  proof (cases "c \<ge> 0x41 \<and> c \<le> 0x5A")
    case True
    with \<open>tolower c = 0\<close> have "c XOR 0x20 = 0" by (simp add: tolower_def)
    have "c = (c XOR 0x20) XOR 0x20" by (simp only: xor.assoc xor_self_eq xor.right_neutral)
    also have "\<dots> = 0x20" by (simp only: \<open>c XOR 0x20 = 0\<close> xor.left_neutral)
    finally have "c = 0x20" .
    with True show ?thesis by simp
  qed (use \<open>tolower c = 0\<close> in \<open>simp add: tolower_def split: if_splits\<close>)
qed (simp add: tolower_def)

lemma strcmp_key:
  "terminated d \<Longrightarrow> terminated s \<Longrightarrow> strcmp d s = Some (lex_cmp (char_key d) (char_key s))"
  by (induction d s rule: strcmp.induct) (auto simp: char_key_def)

lemma strcasecmp_key:
  "terminated d \<Longrightarrow> terminated s \<Longrightarrow> strcasecmp d s = Some (lex_cmp (case_key d) (case_key s))"
proof (induction d s rule: strcasecmp.induct)
  case (1 s ss d ds)
  show ?case
  proof (cases "s = d")
    case True
    with 1 show ?thesis by (auto simp: case_key_def)
  next
    case ne: False
    show ?thesis
    proof (cases "tolower s = tolower d")
      case True
      then have "s \<noteq> 0" "d \<noteq> 0" using ne tolower_zero [of s] tolower_zero [of d]
        by (auto simp: tolower_def)
      with 1 ne True show ?thesis by (simp add: case_key_def)
    next
      case False
      have z: "uint (tolower c) = 0 \<longleftrightarrow> c = 0" for c
        using tolower_zero [of c] by (simp add: uint_0_iff)
      have "uint (tolower s) \<noteq> uint (tolower d)" using False by (simp only: uint_eq_iff simp_thms)
      with ne show ?thesis using z [of s] z [of d] by (auto simp: case_key_def Let_def tolower_def)
    qed
  qed
qed auto

text \<open>On NUL-terminated strings \<open>strcmp\<close> never reads past a terminator, is zero exactly for equal
  strings, changes sign when its arguments are exchanged, and is transitive: a total order (by
  signed character values).\<close>

theorem strcmp_total_order:
  assumes "terminated a" and "terminated b" and "terminated c"
  shows "\<exists>ab ba bc ac. strcmp a b = Some ab \<and> strcmp b a = Some ba \<and> strcmp b c = Some bc \<and>
    strcmp a c = Some ac \<and> (ab = 0 \<longleftrightarrow> cstr a = cstr b) \<and> (ab < 0 \<longleftrightarrow> ba > 0) \<and>
    (ab \<le> 0 \<and> bc \<le> 0 \<longrightarrow> ac \<le> 0)"
proof -
  have "lex_cmp (char_key a) (char_key b) = 0 \<longleftrightarrow> cstr a = cstr b"
    by (auto simp: lex_cmp_zero char_key_def inj_map_eq_map [OF injI])
  then show ?thesis
    using assms lex_cmp_antisym [of "char_key a" "char_key b"]
      lex_cmp_trans [of "char_key a" "char_key b" "char_key c"]
    by (simp add: strcmp_key)
qed

theorem strcmp_total_order_witness:
  "strcmp [0x61, 0] [0x62, 0] = Some (-1) \<and> strcmp [0x62, 0] [0x61, 0] \<noteq> None"
  using strcmp_total_order [of "[0x61, 0]" "[0x62, 0]" "[0x63, 0]"] by simp

section \<open>Concatenation\<close>

lemma unat_Suc_small: "n < 4294967295 \<Longrightarrow> unat (of_nat n + 1 :: u32) = Suc n"
  using u32_unat_of_nat [of "Suc n"] by (simp add: add.commute)

lemma strcpy_eq:
  assumes "terminated s" and "length s < 4294967296"
  shows "strcpy d s = (if length (cstr s) < length d
    then Some (cstr s @ 0 # drop (Suc (length (cstr s))) d) else None)"
proof -
  have n: "length (cstr s) < length s" using length_cstr [OF assms(1)] .
  have u: "unat (of_nat (length (cstr s)) + 1 :: u32) = Suc (length (cstr s))"
    using n assms(2) by (intro unat_Suc_small) simp
  have "take (Suc (length (cstr s))) s = cstr s @ [0]"
    by (subst terminated_split [OF assms(1)]) simp
  then show ?thesis using assms n u by (simp add: strcpy_def strlen_eq copy_prefix_def Suc_le_eq)
qed

text \<open>\<open>strcat\<close> of two NUL-terminated strings succeeds exactly when the concatenation and its
  terminator fit the destination; the destination then holds the concatenation and its remaining
  bytes are untouched.\<close>

theorem strcat_appends:
  assumes "terminated d" and "terminated s" and "length d < 4294967296" and "length s < 4294967296"
  shows "if length (cstr d) + length (cstr s) < length d
    then \<exists>t. strcat d s = Some t \<and> cstr t = cstr d @ cstr s \<and> length t = length d \<and>
      drop (length (cstr d) + length (cstr s) + 1) t = drop (length (cstr d) + length (cstr s) + 1) d
    else strcat d s = None"
proof -
  have l: "unat (of_nat (length (cstr d)) :: u32) = length (cstr d)"
    using length_cstr [OF assms(1)] assms(3) by (intro u32_unat_of_nat) simp
  have tk: "take (length (cstr d)) d = cstr d"
    by (subst (2) terminated_split [OF assms(1)]) simp
  have fit: "length (cstr s) < length d - length (cstr d) \<longleftrightarrow> length (cstr d) + length (cstr s) < length d"
    by arith
  have e: "strcat d s = (if length (cstr d) + length (cstr s) < length d
      then Some (cstr d @ cstr s @ 0 # drop (Suc (length (cstr s))) (drop (length (cstr d)) d)) else None)"
    using assms l tk fit by (simp add: strcat_def strlen_eq strcpy_eq)
  have "cstr (cstr d @ cstr s @ 0 # r) = cstr d @ cstr s" for r
    using cstr_append [of "cstr d @ cstr s" r] by simp
  then show ?thesis using e by (auto simp: add.commute)
qed

theorem strcat_appends_witness:
  "strcat [0x61, 0, 7, 7] [0x62, 0] = Some [0x61, 0x62, 0, 7]"
  using strcat_appends [of "[0x61, 0, 7, 7]" "[0x62, 0]"]
  by (simp add: strcat_def strlen_eq strcpy_eq)

text \<open>The comparison of bytes from 0x80 on is by signed value, and a zero limit of \<open>strncmp\<close> means
  the largest one.\<close>

lemma strcmp_signed: "strcmp [0x80, 0] [0x7F, 0] = Some (-255)"
  by simp

lemma strncmp_zero_limit: "strncmp [0x61, 0] [0x62, 0] 0 = Some (-1)"
  by simp

end
