(* ===== verification/Qsort.thy ===== *)
theory Qsort
  imports CString
begin

text \<open>
  The quicksort of \<^verbatim>\<open>lib/qsort.c\<close>. The array is a list, indices are \<open>int\<close> as in the code, and an
  access outside the array is \<open>None\<close>. The comparison function is a parameter, returning the C
  \<open>int\<close>. The routines for 2- and 4-byte items differ in what the comparison sees of the pivot
  copy \<open>k\<close>, so the shared loops take that view \<open>pv\<close> beside the pivot \<open>p\<close> itself.
\<close>

definition in_array :: "'a list \<Rightarrow> int \<Rightarrow> bool" where
  "in_array base j \<longleftrightarrow> 0 \<le> j \<and> j < int (length base)"

text \<open>\<open>while (cmp(base + j, p) > 0) --j;\<close>\<close>

function scan_down :: "('a \<Rightarrow> 'p \<Rightarrow> int) \<Rightarrow> 'p \<Rightarrow> 'a list \<Rightarrow> int \<Rightarrow> int option" where
  "scan_down cmp pv base j =
     (if in_array base j then
        (if cmp (base ! nat j) pv > 0 then scan_down cmp pv base (j - 1) else Some j)
      else None)"
  by pat_completeness auto
termination
  by (relation "measure (\<lambda>(cmp, pv, base, j). nat (j + 1))") (auto simp: in_array_def)

text \<open>\<open>while (i < j && cmp(base + i, p) <= 0) ++i;\<close>\<close>

function scan_up :: "('a \<Rightarrow> 'p \<Rightarrow> int) \<Rightarrow> 'p \<Rightarrow> 'a list \<Rightarrow> int \<Rightarrow> int \<Rightarrow> int option" where
  "scan_up cmp pv base i j =
     (if i < j then
        (if in_array base i then
           (if cmp (base ! nat i) pv \<le> 0 then scan_up cmp pv base (i + 1) j else Some i)
         else None)
      else Some i)"
  by pat_completeness auto
termination
  by (relation "measure (\<lambda>(cmp, pv, base, i, j). nat (j - i))") auto

declare scan_down.simps [simp del] scan_up.simps [simp del]

lemma scan_down_Some:
  "scan_down cmp pv base j = Some j' \<Longrightarrow>
   j' \<le> j \<and> in_array base j' \<and> cmp (base ! nat j') pv \<le> 0 \<and>
   (\<forall>k. j' < k \<and> k \<le> j \<longrightarrow> cmp (base ! nat k) pv > 0)"
proof (induction cmp pv base j rule: scan_down.induct)
  case (1 cmp pv base j)
  show ?case
  proof (cases "in_array base j \<and> cmp (base ! nat j) pv > 0")
    case True
    with "1.prems" have "scan_down cmp pv base (j - 1) = Some j'" by (simp add: scan_down.simps)
    with 1 True have "j' \<le> j - 1" "in_array base j'" "cmp (base ! nat j') pv \<le> 0"
      "\<forall>k. j' < k \<and> k \<le> j - 1 \<longrightarrow> cmp (base ! nat k) pv > 0" by auto
    moreover have "\<forall>k. j' < k \<and> k \<le> j \<longrightarrow> cmp (base ! nat k) pv > 0"
    proof (intro allI impI)
      fix k assume "j' < k \<and> k \<le> j"
      then show "cmp (base ! nat k) pv > 0"
        using calculation(4) True by (cases "k = j") auto
    qed
    ultimately show ?thesis by simp
  next
    case False
    with "1.prems" have "j' = j" "in_array base j" "cmp (base ! nat j) pv \<le> 0"
      by (auto simp: scan_down.simps split: if_splits)
    then show ?thesis by auto
  qed
qed

lemma scan_up_Some:
  "scan_up cmp pv base i j = Some i' \<Longrightarrow>
   i \<le> i' \<and> (i' = i \<or> i' \<le> j) \<and> (i' < j \<longrightarrow> cmp (base ! nat i') pv > 0) \<and>
   (\<forall>k. i \<le> k \<and> k < i' \<longrightarrow> cmp (base ! nat k) pv \<le> 0) \<and>
   (i < j \<longrightarrow> cmp (base ! nat i) pv \<le> 0 \<longrightarrow> i < i')"
proof (induction cmp pv base i j rule: scan_up.induct)
  case (1 cmp pv base i j)
  show ?case
  proof (cases "i < j \<and> in_array base i \<and> cmp (base ! nat i) pv \<le> 0")
    case True
    with "1.prems" have "scan_up cmp pv base (i + 1) j = Some i'" by (simp add: scan_up.simps)
    with 1 True have ih: "i + 1 \<le> i'" "i' = i + 1 \<or> i' \<le> j" "i' < j \<longrightarrow> cmp (base ! nat i') pv > 0"
      "\<forall>k. i + 1 \<le> k \<and> k < i' \<longrightarrow> cmp (base ! nat k) pv \<le> 0" by auto
    have "\<forall>k. i \<le> k \<and> k < i' \<longrightarrow> cmp (base ! nat k) pv \<le> 0"
    proof (intro allI impI)
      fix k assume "i \<le> k \<and> k < i'"
      then show "cmp (base ! nat k) pv \<le> 0"
        using ih(4) True by (cases "k = i") auto
    qed
    with ih True show ?thesis by auto
  next
    case False
    with "1.prems" have "i' = i" "i < j \<longrightarrow> cmp (base ! nat i) pv > 0"
      by (auto simp: scan_up.simps split: if_splits)
    then show ?thesis by auto
  qed
qed

text \<open>One pass of the partition loop body: the new \<open>i\<close>, \<open>j\<close> and array.\<close>

definition part_step ::
  "('a \<Rightarrow> 'p \<Rightarrow> int) \<Rightarrow> 'p \<Rightarrow> int \<Rightarrow> int \<Rightarrow> 'a list \<Rightarrow> (int \<times> int \<times> 'a list) option" where
  "part_step cmp pv i j base =
     Option.bind (scan_down cmp pv base j) (\<lambda>j.
       if \<not> in_array base i then None else
       let base = base[nat i := base ! nat j] in
       Option.bind (scan_up cmp pv base i j) (\<lambda>i.
         if \<not> in_array base i then None else
         Some (i, j, base[nat j := base ! nat i])))"

lemma part_step_Some:
  assumes "part_step cmp pv i j base = Some (i', j', base')"
  shows "scan_down cmp pv base j = Some j'" "in_array base i" "in_array base j'"
    "scan_up cmp pv (base[nat i := base ! nat j']) i j' = Some i'" "in_array base i'"
    "base' = base[nat i := base ! nat j', nat j' := base[nat i := base ! nat j'] ! nat i']"
  using assms scan_down_Some [of cmp pv base j j']
  by (auto simp: part_step_def bind_eq_Some_conv Let_def in_array_def split: if_splits)

lemma part_step_progress:
  assumes "part_step cmp pv i j base = Some (i', j', base')" "i < j"
  shows "nat (j' - i') < nat (j - i) \<and> i \<le> i' \<and> i' \<le> j \<and> j' \<le> j \<and> length base' = length base"
proof -
  note s = part_step_Some [OF assms(1)]
  note d = scan_down_Some [OF s(1)] and u = scan_up_Some [OF s(4)]
  have "cmp (base[nat i := base ! nat j'] ! nat i) pv \<le> 0"
    using d s(2) by (simp add: in_array_def nat_less_iff)
  with d u assms(2) s(6) show ?thesis by auto
qed

function part_loop ::
  "('a \<Rightarrow> 'p \<Rightarrow> int) \<Rightarrow> 'p \<Rightarrow> int \<Rightarrow> int \<Rightarrow> 'a list \<Rightarrow> (int \<times> int \<times> 'a list) option" where
  "part_loop cmp pv i j base =
     (if i < j then
        (case part_step cmp pv i j base of None \<Rightarrow> None
         | Some (i', j', base') \<Rightarrow> part_loop cmp pv i' j' base')
      else Some (i, j, base))"
  by pat_completeness auto
termination
  by (relation "measure (\<lambda>(cmp, pv, i, j, base). nat (j - i))") (auto dest: part_step_progress)

declare part_loop.simps [simp del]

lemma part_loop_bounds:
  "part_loop cmp pv i j base = Some (i', j', base') \<Longrightarrow>
   i \<le> i' \<and> (i' = i \<or> i' \<le> j) \<and> length base' = length base"
proof (induction cmp pv i j base rule: part_loop.induct)
  case (1 cmp pv i j base)
  show ?case
  proof (cases "i < j")
    case True
    with 1(2) obtain i1 j1 b1 where s: "part_step cmp pv i j base = Some (i1, j1, b1)"
      "part_loop cmp pv i1 j1 b1 = Some (i', j', base')"
      by (subst (asm) part_loop.simps) (auto split: option.splits)
    with 1(1) [OF True s(1) refl refl] part_step_progress [OF s(1) True] show ?thesis by auto
  next
    case False
    with 1(2) show ?thesis by (subst (asm) part_loop.simps) simp
  qed
qed

text \<open>One pass of the outer loop: swap the middle item to the front as the pivot, partition, and
  store the pivot in the hole.\<close>

definition partition_range ::
  "('a \<Rightarrow> 'p) \<Rightarrow> ('a \<Rightarrow> 'p \<Rightarrow> int) \<Rightarrow> int \<Rightarrow> int \<Rightarrow> 'a list \<Rightarrow> (int \<times> 'a list) option" where
  "partition_range view cmp lo hi base =
     (let t = (lo + hi) div 2 in
      if \<not> in_array base t \<or> \<not> in_array base lo then None else
      let p = base ! nat t;
          base = base[nat t := base ! nat lo];
          base = base[nat lo := p]
      in Option.bind (part_loop cmp (view p) lo hi base) (\<lambda>(i, j, base).
           if in_array base i then Some (i, base[nat i := p]) else None))"

lemma partition_range_bounds:
  assumes "partition_range view cmp lo hi base = Some (i, base')" "lo < hi"
  shows "lo \<le> i \<and> i \<le> hi \<and> length base' = length base"
  using assms part_loop_bounds [of cmp _ lo hi]
  by (fastforce simp: partition_range_def Let_def bind_eq_Some_conv split: if_splits)

text \<open>The recursion on the smaller part comes first, the outer loop continues with the other.\<close>

function sort_range ::
  "('a \<Rightarrow> 'p) \<Rightarrow> ('a \<Rightarrow> 'p \<Rightarrow> int) \<Rightarrow> int \<Rightarrow> int \<Rightarrow> 'a list \<Rightarrow> 'a list option" where
  "sort_range view cmp lo hi base =
     (if hi > lo then
        (case partition_range view cmp lo hi base of None \<Rightarrow> None
         | Some (i, base) \<Rightarrow>
             if i - lo < hi - i
             then (case sort_range view cmp lo (i - 1) base of None \<Rightarrow> None
                   | Some base \<Rightarrow> sort_range view cmp (i + 1) hi base)
             else (case sort_range view cmp (i + 1) hi base of None \<Rightarrow> None
                   | Some base \<Rightarrow> sort_range view cmp lo (i - 1) base))
      else Some base)"
  by pat_completeness auto
termination
  by (relation "measure (\<lambda>(view, cmp, lo, hi, base). nat (hi - lo))")
    (auto dest: partition_range_bounds)

declare sort_range.simps [simp del]

definition lqsort :: "('a \<Rightarrow> 'a \<Rightarrow> int) \<Rightarrow> int \<Rightarrow> int \<Rightarrow> 'a list \<Rightarrow> 'a list option" where
  "lqsort cmp lo hi base = sort_range id cmp lo hi base"

text \<open>The 2-byte routine keeps the pivot in an \<open>int\<close> and hands its address to the comparison, which
  reads a \<open>short\<close> there: the high half of the sign-extended value on this big-endian machine.\<close>

definition high_half :: "u16 \<Rightarrow> u16" where
  "high_half k = ucast (drop_bit 16 (scast k :: u32))"

definition wqsort :: "(u16 \<Rightarrow> u16 \<Rightarrow> int) \<Rightarrow> int \<Rightarrow> int \<Rightarrow> u16 list \<Rightarrow> u16 list option" where
  "wqsort cmp lo hi base = sort_range high_half cmp lo hi base"

text \<open>The routine for items of any other size works on the items as byte lists, with a copy of the pivot.\<close>

definition nqsort :: "(u8 list \<Rightarrow> u8 list \<Rightarrow> int) \<Rightarrow> int \<Rightarrow> int \<Rightarrow> u8 list list \<Rightarrow> u8 list list option" where
  "nqsort cmp lo hi base = sort_range id cmp lo hi base"

text \<open>\<open>qsort\<close> on an array of 4-byte items.\<close>

definition qsort_long :: "('a \<Rightarrow> 'a \<Rightarrow> int) \<Rightarrow> 'a list \<Rightarrow> 'a list option" where
  "qsort_long cmp base = lqsort cmp 0 (int (length base) - 1) base"

lemma scan_down_stops:
  "in_array base j \<Longrightarrow> lo \<le> j \<Longrightarrow> 0 \<le> lo \<Longrightarrow> cmp (base ! nat lo) p \<le> 0 \<Longrightarrow>
   \<exists>j'. scan_down cmp p base j = Some j' \<and> lo \<le> j'"
proof (induction cmp p base j rule: scan_down.induct)
  case (1 cmp p base j)
  show ?case
  proof (cases "cmp (base ! nat j) p > 0")
    case True
    with 1(5) have "j \<noteq> lo" by auto
    with 1 True show ?thesis by (subst scan_down.simps) (auto simp: in_array_def)
  next
    case False
    with 1 show ?thesis by (subst scan_down.simps) auto
  qed
qed

lemma scan_up_stops:
  "0 \<le> i \<Longrightarrow> j \<le> int (length base) \<Longrightarrow> \<exists>i'. scan_up cmp p base i j = Some i'"
proof (induction cmp p base i j rule: scan_up.induct)
  case (1 cmp p base i j)
  then show ?case by (subst scan_up.simps) (auto simp: in_array_def)
qed

section \<open>The contract of a comparison function\<close>

locale comparator =
  fixes ok :: "'a \<Rightarrow> bool" and cmp :: "'a \<Rightarrow> 'a \<Rightarrow> int"
  assumes cmp_total: "ok x \<Longrightarrow> ok y \<Longrightarrow> cmp x y \<le> 0 \<or> cmp y x \<le> 0"
    and cmp_trans: "ok x \<Longrightarrow> ok y \<Longrightarrow> ok z \<Longrightarrow> cmp x y \<le> 0 \<Longrightarrow> cmp y z \<le> 0 \<Longrightarrow> cmp x z \<le> 0"
begin

lemma cmp_refl: "ok x \<Longrightarrow> cmp x x \<le> 0"
  using cmp_total by blast

lemma cmp_gt: "ok x \<Longrightarrow> ok y \<Longrightarrow> cmp x y > 0 \<Longrightarrow> cmp y x \<le> 0"
  using cmp_total [of x y] by simp

end

section \<open>Correctness of the partition\<close>

lemma hole_moves:
  assumes "a < length xs" "b < length xs"
  shows "mset (xs[a := xs ! b, b := p]) = mset (xs[a := p])"
proof (cases "a = b")
  case False
  let ?y = "xs[a := p]"
  have "?y[a := ?y ! b, b := ?y ! a] = xs[a := xs ! b, b := p]"
    using False assms by simp
  moreover have "mset (?y[a := ?y ! b, b := ?y ! a]) = mset ?y"
    using assms by (intro mset_swap) simp_all
  ultimately show ?thesis by simp
qed simp

definition part_inv ::
  "('a \<Rightarrow> 'a \<Rightarrow> int) \<Rightarrow> 'a \<Rightarrow> int \<Rightarrow> int \<Rightarrow> 'a list \<Rightarrow> int \<Rightarrow> int \<Rightarrow> 'a list \<Rightarrow> bool" where
  "part_inv cmp p lo hi orig i j base \<longleftrightarrow>
     0 \<le> lo \<and> hi < int (length orig) \<and> length base = length orig \<and>
     lo \<le> i \<and> i \<le> hi \<and> j \<le> hi \<and>
     (i < j \<longrightarrow> cmp (base ! nat lo) p \<le> 0) \<and>
     (\<forall>k. lo \<le> k \<and> k < i \<longrightarrow> cmp (base ! nat k) p \<le> 0) \<and>
     (\<forall>k. i < k \<and> j < k \<and> k \<le> hi \<longrightarrow> cmp (base ! nat k) p > 0) \<and>
     (\<forall>k. 0 \<le> k \<and> (k < lo \<or> hi < k) \<longrightarrow> base ! nat k = orig ! nat k) \<and>
     mset (base[nat i := p]) = mset orig"

lemma nth_upd: "in_array xs a \<Longrightarrow> 0 \<le> k \<Longrightarrow> xs[nat a := v] ! nat k = (if k = a then v else xs ! nat k)"
  by (auto simp: in_array_def nth_list_update nat_eq_iff)

lemma part_inv_in_array: "part_inv cmp p lo hi orig i j base \<Longrightarrow> lo \<le> k \<Longrightarrow> k \<le> hi \<Longrightarrow> in_array base k"
  by (auto simp: part_inv_def in_array_def)

lemma part_inv_step:
  assumes inv: "part_inv cmp p lo hi orig i j base" and ij: "i < j"
  shows "\<exists>i' j' base'. part_step cmp p i j base = Some (i', j', base') \<and>
    part_inv cmp p lo hi orig i' j' base'"
proof -
  note I = inv [unfolded part_inv_def]
  have pre0: "cmp (base ! nat k) p \<le> 0" if "lo \<le> k" "k < i" for k using I that by blast
  have post0: "cmp (base ! nat k) p > 0" if "i < k" "j < k" "k \<le> hi" for k using I that by blast
  have j: "in_array base j" "lo \<le> j" using I ij by (auto simp: in_array_def)
  obtain j' where sd: "scan_down cmp p base j = Some j'" and lj: "lo \<le> j'"
    using scan_down_stops [OF j, of cmp p] I ij by auto
  note d = scan_down_Some [OF sd]
  have ia: "in_array base i" using part_inv_in_array [OF inv] I by auto
  let ?b1 = "base[nat i := base ! nat j']"
  obtain i' where su: "scan_up cmp p ?b1 i j' = Some i'"
    using scan_up_stops [of i j' ?b1 cmp p] d I by (auto simp: in_array_def)
  note u = scan_up_Some [OF su]
  have i': "i \<le> i'" "i' \<le> hi" using u d I ij by auto
  then have ia': "in_array base i'" using part_inv_in_array [OF inv] I by auto
  let ?b2 = "?b1[nat j' := ?b1 ! nat i']"
  have st: "part_step cmp p i j base = Some (i', j', ?b2)"
    using sd su ia ia' by (simp add: part_step_def Let_def in_array_def)
  have b1: "?b1 ! nat k = (if k = i then base ! nat j' else base ! nat k)" if "0 \<le> k" for k
    using nth_upd [OF ia that] by simp
  have ia1: "in_array ?b1 j'" using d by (simp add: in_array_def)
  have b2: "?b2 ! nat k = (if k = j' then ?b1 ! nat i' else ?b1 ! nat k)" if "0 \<le> k" for k
    using nth_upd [OF ia1 that] by simp
  have pos: "0 \<le> lo" "0 \<le> i" "0 \<le> j'" "0 \<le> i'" using I d i' by (auto simp: in_array_def)
  have "part_inv cmp p lo hi orig i' j' ?b2"
  proof (cases "i \<le> j'")
    case True
    have le: "i' \<le> j'" using u True by auto
    have pre: "cmp (?b2 ! nat k) p \<le> 0" if "lo \<le> k" "k < i'" for k
    proof -
      have "cmp (?b1 ! nat k) p \<le> 0"
      proof (cases "k < i")
        case True
        with pre0 [of k] that b1 [of k] pos show ?thesis by simp
      next
        case False
        with u that show ?thesis by simp
      qed
      then show ?thesis using that le pos b2 [of k] by simp
    qed
    have post: "cmp (?b2 ! nat k) p > 0" if "j' < k" "k \<le> hi" for k
    proof (cases "k \<le> j")
      case True
      with that d b2 [of k] b1 [of k] pos \<open>i \<le> j'\<close> show ?thesis by simp
    next
      case False
      with that post0 [of k] b2 [of k] b1 [of k] pos \<open>i \<le> j'\<close> ij show ?thesis by simp
    qed
    have m: "mset (?b2[nat i' := p]) = mset (base[nat i := p])"
    proof -
      have "mset (?b2[nat i' := p]) = mset (?b1[nat j' := p])"
        using hole_moves [of "nat j'" ?b1 "nat i'" p] d ia' pos
        by (simp add: in_array_def nat_less_iff)
      also have "\<dots> = mset (base[nat i := p])"
        using hole_moves [of "nat i" base "nat j'" p] d ia pos
        by (simp add: in_array_def nat_less_iff)
      finally show ?thesis .
    qed
    have lo': "i' < j' \<longrightarrow> cmp (?b2 ! nat lo) p \<le> 0"
    proof
      assume "i' < j'"
      moreover have "cmp (?b1 ! nat i) p \<le> 0" using b1 [of i] d pos by simp
      ultimately have "i < i'" using u le i' by auto
      then show "cmp (?b2 ! nat lo) p \<le> 0" using pre [of lo] I by simp
    qed
    have out: "?b2 ! nat k = orig ! nat k" if "0 \<le> k" "k < lo \<or> hi < k" for k
      using that I b2 [of k] b1 [of k] d ij True le by auto
    show ?thesis
      unfolding part_inv_def using I i' pre post m lo' out d ij by auto
  next
    case False
    then have e: "j' = i - 1" "i' = i"
    proof -
      have "\<not> j' < i - 1"
      proof
        assume "j' < i - 1"
        then have "cmp (base ! nat (i - 1)) p > 0" using d ij by auto
        moreover have "cmp (base ! nat (i - 1)) p \<le> 0" using I lj \<open>j' < i - 1\<close> by auto
        ultimately show False by simp
      qed
      with False show "j' = i - 1" by simp
      with su show "i' = i" by (subst (asm) scan_up.simps) simp
    qed
    have "?b1 ! nat i' = ?b1 ! nat j'" using b1 [of i] b1 [of j'] e pos by simp
    then have eq: "?b2 = ?b1" by (simp only: list_update_id)
    have lo_i: "lo < i" using lj e by simp
    have 1: "cmp (?b1 ! nat k) p \<le> 0" if "lo \<le> k" "k < i" for k
      using pre0 [of k] that b1 [of k] pos by simp
    have 2: "cmp (?b1 ! nat k) p > 0" if "i < k" "k \<le> hi" for k
    proof (cases "k \<le> j")
      case True
      with that d b1 [of k] pos e show ?thesis by simp
    next
      case False
      with that post0 [of k] b1 [of k] pos show ?thesis by simp
    qed
    have 3: "?b1 ! nat k = orig ! nat k" if "0 \<le> k" "k < lo \<or> hi < k" for k
      using that I b1 [of k] by auto
    have j_hi: "j' \<le> hi" using d I by linarith
    have "part_inv cmp p lo hi orig i j' ?b1"
      unfolding part_inv_def
      by (intro conjI) (use I ij 1 2 3 lo_i e(1) j_hi in \<open>simp_all\<close>)
    then show ?thesis unfolding eq unfolding e(2) .
  qed
  with st show ?thesis by blast
qed

lemma part_loop_inv:
  "part_inv cmp p lo hi orig i j base \<Longrightarrow>
   \<exists>i' j' base'. part_loop cmp p i j base = Some (i', j', base') \<and>
     part_inv cmp p lo hi orig i' j' base' \<and> \<not> i' < j'"
proof (induction cmp p i j base rule: part_loop.induct)
  case (1 cmp p i j base)
  show ?case
  proof (cases "i < j")
    case True
    from part_inv_step [OF 1(2) True] obtain i1 j1 b1 where s:
      "part_step cmp p i j base = Some (i1, j1, b1)" "part_inv cmp p lo hi orig i1 j1 b1" by blast
    from 1(1) [OF True s(1) refl refl s(2)] s(1) True show ?thesis
      by (subst part_loop.simps) simp
  next
    case False
    with 1(2) show ?thesis by (subst part_loop.simps) simp
  qed
qed


text \<open>The array between two calls differs only inside the range, by a permutation.\<close>

definition same_outside :: "int \<Rightarrow> int \<Rightarrow> 'a list \<Rightarrow> 'a list \<Rightarrow> bool" where
  "same_outside lo hi xs ys \<longleftrightarrow> mset ys = mset xs \<and> length ys = length xs \<and>
     (\<forall>k. int k < lo \<or> hi < int k \<longrightarrow> ys ! k = xs ! k)"

lemma same_outside_refl [simp]: "same_outside lo hi xs xs"
  by (simp add: same_outside_def)

lemma same_outside_trans:
  "same_outside lo hi xs ys \<Longrightarrow> same_outside lo hi ys zs \<Longrightarrow> same_outside lo hi xs zs"
  by (simp add: same_outside_def)

lemma same_outside_mono:
  "same_outside lo' hi' xs ys \<Longrightarrow> lo \<le> lo' \<Longrightarrow> hi' \<le> hi \<Longrightarrow> same_outside lo hi xs ys"
  by (auto simp: same_outside_def)

text \<open>Every item of a range is still in that range, somewhere.\<close>

lemma same_outside_range:
  assumes s: "same_outside lo hi xs ys" and lo: "0 \<le> lo" and hi: "hi < int (length xs)"
    and k: "lo \<le> k" "k \<le> hi"
  shows "\<exists>l. lo \<le> l \<and> l \<le> hi \<and> ys ! nat k = xs ! nat l"
proof -
  let ?n = "nat lo" and ?m = "nat (hi + 1)"
  have len: "length ys = length xs" using s by (simp add: same_outside_def)
  have pre: "take ?n ys = take ?n xs"
  proof (rule nth_equalityI)
    fix i assume "i < length (take ?n ys)"
    then show "take ?n ys ! i = take ?n xs ! i"
      using s lo by (auto simp: same_outside_def)
  qed (simp add: len)
  have post: "drop ?m ys = drop ?m xs"
  proof (rule nth_equalityI)
    fix i assume "i < length (drop ?m ys)"
    then show "drop ?m ys ! i = drop ?m xs ! i"
      using s lo k by (simp add: same_outside_def)
  qed (simp add: len)
  have split: "zs = take ?n zs @ drop ?n (take ?m zs) @ drop ?m zs" for zs :: "'a list"
  proof -
    have "take ?n (take ?m zs) = take ?n zs" using lo k by (simp add: min_def)
    then show ?thesis by (metis append_assoc append_take_drop_id)
  qed
  have "mset (take ?n ys @ drop ?n (take ?m ys) @ drop ?m ys) =
      mset (take ?n xs @ drop ?n (take ?m xs) @ drop ?m xs)"
    using s split [of xs] split [of ys] by (simp add: same_outside_def)
  then have "mset (drop ?n (take ?m ys)) = mset (drop ?n (take ?m xs))"
    by (simp add: pre post)
  then have "set (drop ?n (take ?m ys)) = set (drop ?n (take ?m xs))"
    by (rule mset_eq_setD)
  moreover have "ys ! nat k \<in> set (drop ?n (take ?m ys))"
  proof -
    have "drop ?n (take ?m ys) ! (nat k - ?n) = ys ! nat k"
      "nat k - ?n < length (drop ?n (take ?m ys))"
      using lo hi k len by auto
    then show ?thesis by (metis nth_mem)
  qed
  ultimately obtain i where i: "i < length (drop ?n (take ?m xs))" "ys ! nat k = drop ?n (take ?m xs) ! i"
    by (auto simp: in_set_conv_nth)
  then have "ys ! nat k = xs ! nat (lo + int i)" "lo + int i \<le> hi"
    using lo hi by (auto simp: nat_add_distrib)
  then show ?thesis using lo by (intro exI [of _ "lo + int i"]) simp
qed


lemma same_outside_nth:
  "same_outside lo hi xs ys \<Longrightarrow> 0 \<le> k \<Longrightarrow> k < lo \<or> hi < k \<Longrightarrow> ys ! nat k = xs ! nat k"
  by (auto simp: same_outside_def)

definition sorted_range :: "('a \<Rightarrow> 'a \<Rightarrow> int) \<Rightarrow> int \<Rightarrow> int \<Rightarrow> 'a list \<Rightarrow> bool" where
  "sorted_range cmp lo hi xs \<longleftrightarrow>
     (\<forall>k l. lo \<le> k \<and> k \<le> l \<and> l \<le> hi \<longrightarrow> cmp (xs ! nat k) (xs ! nat l) \<le> 0)"

definition split_at :: "('a \<Rightarrow> 'a \<Rightarrow> int) \<Rightarrow> int \<Rightarrow> int \<Rightarrow> int \<Rightarrow> 'a list \<Rightarrow> bool" where
  "split_at cmp lo i hi xs \<longleftrightarrow> lo \<le> i \<and> i \<le> hi \<and>
     (\<forall>k. lo \<le> k \<and> k < i \<longrightarrow> cmp (xs ! nat k) (xs ! nat i) \<le> 0) \<and>
     (\<forall>k. i < k \<and> k \<le> hi \<longrightarrow> cmp (xs ! nat i) (xs ! nat k) \<le> 0)"

lemma split_at_left:
  assumes "split_at cmp lo i hi xs" "same_outside lo (i - 1) xs ys" "0 \<le> lo" "hi < int (length xs)"
  shows "split_at cmp lo i hi ys"
proof -
  have i: "ys ! nat i = xs ! nat i" "lo \<le> i" "i \<le> hi"
    using assms same_outside_nth [OF assms(2), of i] by (auto simp: split_at_def)
  have "cmp (ys ! nat k) (ys ! nat i) \<le> 0" if k: "lo \<le> k" "k < i" for k
  proof -
    obtain l where "lo \<le> l" "l \<le> i - 1" "ys ! nat k = xs ! nat l"
      using same_outside_range [OF assms(2,3), of k] k assms(4) i by auto
    with assms(1) i show ?thesis by (auto simp: split_at_def)
  qed
  moreover have "cmp (ys ! nat i) (ys ! nat k) \<le> 0" if "i < k" "k \<le> hi" for k
    using same_outside_nth [OF assms(2), of k] that assms(1,3) i by (auto simp: split_at_def)
  ultimately show ?thesis using i by (simp add: split_at_def)
qed

lemma split_at_right:
  assumes "split_at cmp lo i hi xs" "same_outside (i + 1) hi xs ys" "0 \<le> lo" "hi < int (length xs)"
  shows "split_at cmp lo i hi ys"
proof -
  have i: "ys ! nat i = xs ! nat i" "lo \<le> i" "i \<le> hi"
    using assms same_outside_nth [OF assms(2), of i] by (auto simp: split_at_def)
  have "cmp (ys ! nat i) (ys ! nat k) \<le> 0" if k: "i < k" "k \<le> hi" for k
  proof -
    obtain l where "i + 1 \<le> l" "l \<le> hi" "ys ! nat k = xs ! nat l"
      using same_outside_range [OF assms(2) _ assms(4), of k] k assms(3) i by auto
    with assms(1) i show ?thesis by (auto simp: split_at_def)
  qed
  moreover have "cmp (ys ! nat k) (ys ! nat i) \<le> 0" if "lo \<le> k" "k < i" for k
    using same_outside_nth [OF assms(2), of k] that assms(1,3) i by (auto simp: split_at_def)
  ultimately show ?thesis using i by (simp add: split_at_def)
qed

lemma sorted_range_outside:
  "sorted_range cmp lo hi xs \<Longrightarrow> same_outside lo' hi' xs ys \<Longrightarrow> 0 \<le> lo \<Longrightarrow> hi < lo' \<or> hi' < lo \<Longrightarrow>
   sorted_range cmp lo hi ys"
  by (auto simp: sorted_range_def same_outside_nth)

context comparator
begin

lemma sorted_range_join:
  assumes s: "split_at cmp lo i hi xs" and l: "sorted_range cmp lo (i - 1) xs"
    and r: "sorted_range cmp (i + 1) hi xs" and ok: "\<forall>x \<in> set xs. ok x"
    and b: "0 \<le> lo" "hi < int (length xs)"
  shows "sorted_range cmp lo hi xs"
  unfolding sorted_range_def
proof (intro allI impI)
  fix k m assume km: "lo \<le> k \<and> k \<le> m \<and> m \<le> hi"
  have o: "ok (xs ! nat n)" if "lo \<le> n" "n \<le> hi" for n using ok b that by auto
  have i: "lo \<le> i" "i \<le> hi" using s by (auto simp: split_at_def)
  consider "m < i" | "i < k" | "k = i" "m = i" | "k = i" "i < m" | "k < i" "m = i" | "k < i" "i < m"
    using km by linarith
  then show "cmp (xs ! nat k) (xs ! nat m) \<le> 0"
  proof cases
    case 1 then show ?thesis using l km by (auto simp: sorted_range_def)
  next
    case 2 then show ?thesis using r km by (auto simp: sorted_range_def)
  next
    case 3 then show ?thesis using o [OF i] by (simp add: cmp_refl)
  next
    case 4 then show ?thesis using s km by (auto simp: split_at_def)
  next
    case 5 then show ?thesis using s km by (auto simp: split_at_def)
  next
    case 6
    then have "cmp (xs ! nat k) (xs ! nat i) \<le> 0" "cmp (xs ! nat i) (xs ! nat m) \<le> 0"
      using s km by (auto simp: split_at_def)
    then show ?thesis using cmp_trans o km i by (meson order_trans)
  qed
qed

lemma partition_correct:
  assumes lh: "0 \<le> lo" "lo < hi" "hi < int (length base)" and ok: "\<forall>x \<in> set base. ok x"
  shows "\<exists>i b. partition_range id cmp lo hi base = Some (i, b) \<and> split_at cmp lo i hi b \<and>
    same_outside lo hi base b"
proof -
  let ?t = "(lo + hi) div 2"
  have t: "lo \<le> ?t" "?t \<le> hi" using lh by auto
  have ia: "in_array base lo" "in_array base ?t" using lh t by (auto simp: in_array_def)
  let ?p = "base ! nat ?t"
  let ?b0 = "base[nat ?t := base ! nat lo, nat lo := ?p]"
  have p: "ok ?p" using ok ia by (auto simp: in_array_def)
  have sw: "mset ?b0 = mset base"
    using ia by (intro mset_swap) (auto simp: in_array_def)
  have b0lo: "?b0 ! nat lo = ?p" using lh by simp
  have out0: "\<forall>k. 0 \<le> k \<and> (k < lo \<or> hi < k) \<longrightarrow> ?b0 ! nat k = base ! nat k"
    using t lh by (auto simp: nth_list_update nat_eq_iff)
  have inv: "part_inv cmp ?p lo hi base lo hi ?b0"
    unfolding part_inv_def
    by (intro conjI) (use lh sw b0lo out0 cmp_refl [OF p] in simp_all)
  from part_loop_inv [OF inv] obtain i j b where
    pl: "part_loop cmp ?p lo hi ?b0 = Some (i, j, b)" and
    I: "part_inv cmp ?p lo hi base i j b" and ij: "j \<le> i" by auto
  note J = I [unfolded part_inv_def]
  have ib: "in_array b i" using part_inv_in_array [OF I] J by auto
  let ?r = "b[nat i := ?p]"
  have res: "partition_range id cmp lo hi base = Some (i, ?r)"
    using pl ia ib by (simp add: partition_range_def Let_def)
  have nth: "?r ! nat k = (if k = i then ?p else b ! nat k)" if "0 \<le> k" for k
    using nth_upd [OF ib that] by simp
  have ms: "mset ?r = mset base" using J by blast
  have sp: "split_at cmp lo i hi ?r"
    unfolding split_at_def
  proof (intro conjI allI impI)
    show "lo \<le> i" "i \<le> hi" using J by blast+
    fix k
    show "cmp (?r ! nat k) (?r ! nat i) \<le> 0" if "lo \<le> k \<and> k < i"
      using that J nth [of k] nth [of i] lh by simp
    show "cmp (?r ! nat i) (?r ! nat k) \<le> 0" if k: "i < k \<and> k \<le> hi"
    proof -
      have "cmp (b ! nat k) ?p > 0" using k J ij by simp
      moreover have "?r ! nat k = b ! nat k" "?r ! nat i = ?p" using k nth [of k] nth [of i] J lh by auto
      moreover have "b ! nat k \<in> set ?r"
      proof -
        have "nat k < length ?r" using k J lh by auto
        with \<open>?r ! nat k = b ! nat k\<close> show ?thesis by (metis nth_mem)
      qed
      moreover have "set ?r = set base" using ms by (rule mset_eq_setD)
      ultimately show ?thesis using cmp_gt p ok by auto
    qed
  qed
  have "same_outside lo hi base ?r"
    unfolding same_outside_def
  proof (intro conjI allI impI)
    show "mset ?r = mset base" by (rule ms)
    show "length ?r = length base" using J by simp
    fix k :: nat assume k: "int k < lo \<or> hi < int k"
    have "lo \<le> i" "i \<le> hi" and o: "0 \<le> int k \<and> (int k < lo \<or> hi < int k) \<longrightarrow> b ! nat (int k) = base ! nat (int k)"
      using J by blast+
    then have "int k \<noteq> i" using k by auto
    then show "?r ! k = base ! k" using k o nth [of "int k"] by simp
  qed
  with res sp show ?thesis by blast
qed

lemma sort_range_correct:
  "0 \<le> lo \<Longrightarrow> hi < int (length base) \<Longrightarrow> \<forall>x \<in> set base. ok x \<Longrightarrow>
   \<exists>ys. sort_range id cmp lo hi base = Some ys \<and> same_outside lo hi base ys \<and> sorted_range cmp lo hi ys"
proof (induction "nat (hi - lo)" arbitrary: lo hi base rule: less_induct)
  case less
  show ?case
  proof (cases "lo < hi")
    case False
    have "cmp (base ! nat k) (base ! nat l) \<le> 0" if "lo \<le> k \<and> k \<le> l \<and> l \<le> hi" for k l
    proof -
      have "k = l" "in_array base k" using that False less.prems by (auto simp: in_array_def)
      then show ?thesis using less.prems by (auto simp: in_array_def intro: cmp_refl)
    qed
    then have "sorted_range cmp lo hi base" by (simp add: sorted_range_def)
    with False show ?thesis by (subst sort_range.simps) auto
  next
    case True
    from partition_correct [OF less.prems(1) True less.prems(2,3)] obtain i b where
      p: "partition_range id cmp lo hi base = Some (i, b)" and sp: "split_at cmp lo i hi b"
      and so: "same_outside lo hi base b" by blast
    have i: "lo \<le> i" "i \<le> hi" using sp by (auto simp: split_at_def)
    have B: "hi < int (length b)" "\<forall>x \<in> set b. ok x"
      using so less.prems mset_eq_setD [of b base] by (auto simp: same_outside_def)
    have L: "\<exists>c. sort_range id cmp lo (i - 1) x = Some c \<and> same_outside lo (i - 1) x c \<and>
        sorted_range cmp lo (i - 1) c" if "length x = length b" "\<forall>y \<in> set x. ok y" for x
      by (rule less.hyps) (use that i B less.prems True in simp_all)
    have R: "\<exists>c. sort_range id cmp (i + 1) hi x = Some c \<and> same_outside (i + 1) hi x c \<and>
        sorted_range cmp (i + 1) hi c" if "length x = length b" "\<forall>y \<in> set x. ok y" for x
      by (rule less.hyps) (use that i B less.prems True in simp_all)
    have keep: "length c = length x \<and> (\<forall>y \<in> set c. ok y)"
      if "same_outside l h x c" "\<forall>y \<in> set x. ok y" for l h and x c :: "'a list"
      using that mset_eq_setD [of c x] by (auto simp: same_outside_def)
    show ?thesis
    proof (cases "i - lo < hi - i")
      case left: True
      obtain c where c: "sort_range id cmp lo (i - 1) b = Some c" "same_outside lo (i - 1) b c"
        "sorted_range cmp lo (i - 1) c" using L [of b] B by auto
      have C: "length c = length b" "\<forall>y \<in> set c. ok y" using keep [OF c(2)] B by auto
      obtain d where d: "sort_range id cmp (i + 1) hi c = Some d" "same_outside (i + 1) hi c d"
        "sorted_range cmp (i + 1) hi d" using R [OF C] by auto
      have D: "length d = length c" "\<forall>y \<in> set d. ok y" using keep [OF d(2)] C by auto
      have "split_at cmp lo i hi d"
        using split_at_right [OF split_at_left [OF sp c(2)] d(2)] less.prems B C by simp
      moreover have "sorted_range cmp lo (i - 1) d"
        using sorted_range_outside [OF c(3) d(2)] less.prems by simp
      ultimately have "sorted_range cmp lo hi d"
        using sorted_range_join d(3) D less.prems B C by simp
      moreover have "same_outside lo hi base d"
        using so same_outside_mono [OF c(2)] same_outside_mono [OF d(2)] i
        by (meson same_outside_trans order_refl le_add_same_cancel1 add_increasing2 diff_le_eq zero_le_one order_trans)
      moreover have "sort_range id cmp lo hi base = Some d"
        using True p left c(1) d(1) by (subst sort_range.simps) simp
      ultimately show ?thesis by blast
    next
      case right: False
      obtain c where c: "sort_range id cmp (i + 1) hi b = Some c" "same_outside (i + 1) hi b c"
        "sorted_range cmp (i + 1) hi c" using R [of b] B by auto
      have C: "length c = length b" "\<forall>y \<in> set c. ok y" using keep [OF c(2)] B by auto
      obtain d where d: "sort_range id cmp lo (i - 1) c = Some d" "same_outside lo (i - 1) c d"
        "sorted_range cmp lo (i - 1) d" using L [OF C] by auto
      have D: "length d = length c" "\<forall>y \<in> set d. ok y" using keep [OF d(2)] C by auto
      have "split_at cmp lo i hi d"
        using split_at_left [OF split_at_right [OF sp c(2)] d(2)] less.prems B C by simp
      moreover have "sorted_range cmp (i + 1) hi d"
        using sorted_range_outside [OF c(3) d(2)] less.prems i by simp
      ultimately have "sorted_range cmp lo hi d"
        using sorted_range_join d(3) D less.prems B C by simp
      moreover have "same_outside lo hi base d"
        using so same_outside_mono [OF c(2)] same_outside_mono [OF d(2)] i
        by (meson same_outside_trans order_refl le_add_same_cancel1 add_increasing2 diff_le_eq zero_le_one order_trans)
      moreover have "sort_range id cmp lo hi base = Some d"
        using True p right c(1) d(1) by (subst sort_range.simps) simp
      ultimately show ?thesis by blast
    qed
  qed
qed

text \<open>So \<open>qsort\<close> sorts the whole array.\<close>

lemma qsort_correct:
  assumes "\<forall>x \<in> set base. ok x"
  shows "\<exists>ys. qsort_long cmp base = Some ys \<and> mset ys = mset base \<and> sorted_wrt (\<lambda>x y. cmp x y \<le> 0) ys"
proof -
  from sort_range_correct [of 0 "int (length base) - 1" base] assms obtain ys where
    y: "sort_range id cmp 0 (int (length base) - 1) base = Some ys"
    "same_outside 0 (int (length base) - 1) base ys" "sorted_range cmp 0 (int (length base) - 1) ys"
    by auto
  have "mset ys = mset base" "length ys = length base" using y(2) by (auto simp: same_outside_def)
  moreover have "sorted_wrt (\<lambda>x y. cmp x y \<le> 0) ys"
    unfolding sorted_wrt_iff_nth_less
  proof (intro allI impI)
    fix i j assume "i < j" "j < length ys"
    then show "cmp (ys ! i) (ys ! j) \<le> 0"
      using y(3) calculation(2) unfolding sorted_range_def
      by (elim allE [of _ "int i"] allE [of _ "int j"]) simp
  qed
  ultimately show ?thesis using y(1) by (auto simp: qsort_long_def lqsort_def)
qed

end

section \<open>What qsort promises\<close>



text \<open>The 2-byte routine compares with the high half of the pivot: sorting two positive numbers
  walks down past the start of the array.\<close>

lemma wqsort_leaves_array:
  "wqsort (\<lambda>x y. sint x - sint y) 0 1 [1, 2] = None"
  by (simp add: wqsort_def sort_range.simps partition_range_def part_loop.simps part_step_def
      scan_down.simps scan_up.simps in_array_def high_half_def Let_def)

end
