(* ===== verification/Divmod.thy ===== *)
theory Divmod
  imports Prelude "HOL-Library.Signed_Division"
begin

text \<open>
  The software division of \<^verbatim>\<open>libgcc/udivmodsi4.c\<close>, \<^verbatim>\<open>udivmod.c\<close> and \<^verbatim>\<open>divmod.c\<close>, which the
  68000 builds use for every 32-bit division: shift the divisor up, then subtract and shift down.
\<close>

lemma push_bit_dies: "\<exists>n. push_bit n (w :: u32) = 0"
  by (rule exI [of _ 32]) (rule bit_word_eqI, simp add: bit_simps)

function align_divisor :: "u32 \<Rightarrow> u32 \<Rightarrow> u32 \<Rightarrow> u32 \<times> u32" where
  "align_divisor num den b =
     (if den < num \<and> b \<noteq> 0 \<and> \<not> (den AND push_bit 31 1 \<noteq> 0)
      then align_divisor num (push_bit 1 den) (push_bit 1 b) else (den, b))"
  by pat_completeness auto
termination
proof (relation "measure (\<lambda>(num, den, b). LEAST n. push_bit n b = 0)", goal_cases)
  case (2 num den b)
  let ?P = "\<lambda>b n. push_bit n (b :: u32) = 0"
  have l: "?P b (LEAST n. ?P b n)" using push_bit_dies by (rule LeastI_ex)
  have "(LEAST n. ?P b n) \<noteq> 0"
  proof
    assume "(LEAST n. ?P b n) = 0"
    with l have "push_bit 0 b = 0" by simp
    with 2 show False by simp
  qed
  then obtain m where m: "(LEAST n. ?P b n) = Suc m" using not0_implies_Suc by blast
  with l have "?P (push_bit 1 b) m" by (simp add: push_bit_push_bit)
  then have "(LEAST n. ?P (push_bit 1 b) n) \<le> m" by (rule Least_le)
  with m show ?case by simp
qed simp

function subtract_loop :: "u32 \<Rightarrow> u32 \<Rightarrow> u32 \<Rightarrow> u32 \<Rightarrow> u32 \<times> u32" where
  "subtract_loop num den b res =
     (if b \<noteq> 0
      then (if num \<ge> den then subtract_loop (num - den) (drop_bit 1 den) (drop_bit 1 b) (res OR b)
            else subtract_loop num (drop_bit 1 den) (drop_bit 1 b) res)
      else (num, res))"
  by pat_completeness auto
termination
  by (relation "measure (\<lambda>(num, den, b, res). unat b)")
    (auto simp: drop_bit_eq_div unat_div word_neq_0_conv word_less_nat_alt)

declare align_divisor.simps [simp del] subtract_loop.simps [simp del]

definition udivmodsi4 :: "u32 \<Rightarrow> u32 \<Rightarrow> bool \<Rightarrow> u32" where
  "udivmodsi4 num den modwanted =
     (let (den, b) = align_divisor num den 1; (num, res) = subtract_loop num den b 0
      in if modwanted then num else res)"

definition udivsi3 :: "u32 \<Rightarrow> u32 \<Rightarrow> u32" where "udivsi3 a b = udivmodsi4 a b False"
definition umodsi3 :: "u32 \<Rightarrow> u32 \<Rightarrow> u32" where "umodsi3 a b = udivmodsi4 a b True"

definition divsi3 :: "u32 \<Rightarrow> u32 \<Rightarrow> u32" where
  "divsi3 a b =
     (let neg = False;
          (a, neg) = (if sint a < 0 then (- a, \<not> neg) else (a, neg));
          (b, neg) = (if sint b < 0 then (- b, \<not> neg) else (b, neg));
          res = udivmodsi4 a b False
      in if neg then - res else res)"

definition modsi3 :: "u32 \<Rightarrow> u32 \<Rightarrow> u32" where
  "modsi3 a b =
     (let (a, neg) = (if sint a < 0 then (- a, True) else (a, False));
          b = (if sint b < 0 then - b else b);
          res = udivmodsi4 a b True
      in if neg then - res else res)"

section \<open>Correctness\<close>

lemma unat_push_1: "unat x < 2147483648 \<Longrightarrow> unat (push_bit 1 (x :: u32)) = 2 * unat x"
  using u32_unat_mult [of x 2] by (simp add: push_bit_eq_mult mult.commute)

lemma unat_drop_1: "unat (drop_bit 1 (x :: u32)) = unat x div 2"
  by (simp add: drop_bit_eq_div unat_div)

lemma top_bit_clear: "den AND push_bit 31 1 = 0 \<longleftrightarrow> unat (den :: u32) < 2147483648"
proof -
  have "den AND push_bit 31 1 = 0 \<longleftrightarrow> \<not> bit den 31"
    unfolding push_bit_of_1 by (rule and_exp_eq_0_iff_not_bit)
  also have "bit den 31 \<longleftrightarrow> bit (unat den) 31" by (simp add: bit_unsigned_iff)
  also have "\<dots> \<longleftrightarrow> odd (unat den div 2147483648)" by (simp add: bit_iff_odd)
  also have "\<dots> \<longleftrightarrow> 2147483648 \<le> unat den"
  proof -
    have "unat den div 2147483648 < 2" using u32_less [of den] by (simp add: div_less_iff_less_mult)
    then consider "unat den div 2147483648 = 0" | "unat den div 2147483648 = 1" by linarith
    then show ?thesis by cases (auto simp: div_eq_0_iff not_le [symmetric])
  qed
  finally show ?thesis by (simp add: not_le)
qed

text \<open>The first loop keeps the divisor a shifted copy of the original one, without losing a bit.\<close>

lemma align_divisor_scaled:
  "unat den = d * 2 ^ k \<Longrightarrow> b = 2 ^ k \<Longrightarrow> k < 32 \<Longrightarrow> 0 < d \<Longrightarrow> align_divisor num den b = (den', b') \<Longrightarrow>
   \<exists>m < 32. unat den' = d * 2 ^ m \<and> b' = 2 ^ m \<and> unat num < d * 2 ^ Suc m"
proof (induction num den b arbitrary: k rule: align_divisor.induct)
  case (1 num den b)
  show ?case
  proof (cases "den < num \<and> unat den < 2147483648")
    case True
    have bn: "b \<noteq> 0" using "1.prems" by simp
    have cond: "den < num \<and> b \<noteq> 0 \<and> \<not> (den AND push_bit 31 1 \<noteq> 0)"
      using True bn by (simp only: top_bit_clear simp_thms)
    have k: "Suc k < 32"
    proof (rule ccontr)
      assume "\<not> Suc k < 32"
      then have "k = 31" using "1.prems" by simp
      with "1.prems" True show False by simp
    qed
    have "unat (push_bit 1 den) = 2 * unat den" using True by (intro unat_push_1) simp
    then have "unat (push_bit 1 den) = d * 2 ^ Suc k" using "1.prems" by simp
    moreover have "push_bit 1 b = 2 ^ Suc k" using "1.prems" by (simp add: push_bit_eq_mult)
    moreover have "align_divisor num (push_bit 1 den) (push_bit 1 b) = (den', b')"
      using "1.prems"(5) cond by (subst (asm) align_divisor.simps) (simp only: if_True simp_thms)
    ultimately show ?thesis using "1.IH" [OF cond _ _ k "1.prems"(4)] by blast
  next
    case False
    then have "\<not> (den < num \<and> b \<noteq> 0 \<and> \<not> (den AND push_bit 31 1 \<noteq> 0))"
      by (auto simp only: top_bit_clear)
    then have e: "den' = den" "b' = b"
      using "1.prems"(5) by (subst (asm) align_divisor.simps, simp only: if_False prod.inject)+
    have "unat num < 2 * unat den"
    proof (cases "den < num")
      case True
      with False u32_less [of num] show ?thesis by linarith
    next
      case False
      then have "unat num \<le> unat den" by (simp add: word_less_nat_alt)
      moreover have "0 < unat den" using "1.prems" by simp
      ultimately show ?thesis by linarith
    qed
    with e "1.prems" show ?thesis by auto
  qed
qed

lemma or_pow2_add:
  assumes "\<forall>n \<le> k. \<not> bit (res :: u32) n"
  shows "res OR 2 ^ k = res + 2 ^ k"
  by (rule disjunctive_add [symmetric]) (use assms in \<open>auto simp: bit_simps\<close>)

lemma subtract_loop_divides:
  "unat den = d * 2 ^ k \<Longrightarrow> k < 32 \<Longrightarrow> 0 < d \<Longrightarrow> unat num < d * 2 ^ Suc k \<Longrightarrow>
   \<forall>n \<le> k. \<not> bit res n \<Longrightarrow>
   subtract_loop num den (2 ^ k) res = (of_nat (unat num mod d), res + of_nat (unat num div d))"
proof (induction k arbitrary: num den res)
  case 0
  have z: "drop_bit 1 (1 :: u32) = 0" by simp
  have "subtract_loop num den 1 res =
    (if num \<ge> den then (num - den, res OR 1) else (num, res))"
    by (subst subtract_loop.simps, subst (1 2) subtract_loop.simps) (simp add: z)
  moreover have "res OR 1 = res + 1" using or_pow2_add [of 0 res] 0 by simp
  moreover have "num \<ge> den \<longleftrightarrow> d \<le> unat num" using 0 by (simp add: word_le_nat_alt)
  moreover have "unat num div d = (if d \<le> unat num then 1 else 0)"
    "unat num mod d = (if d \<le> unat num then unat num - d else unat num)"
    using 0 by (auto simp: div_if mod_if)
  moreover have "num - den = of_nat (unat num - d)" if "d \<le> unat num"
  proof (rule u32_eqI)
    have "unat (num - den) = unat num - unat den" using that 0 by (intro u32_unat_sub) simp
    moreover have "unat (of_nat (unat num - d) :: u32) = unat num - d"
      by (rule u32_unat_of_nat) (rule le_less_trans [OF diff_le_self u32_less])
    ultimately show "unat (num - den) = unat (of_nat (unat num - d) :: u32)" using 0 by simp
  qed
  ultimately show ?case by simp
next
  case (Suc k)
  have ud: "unat (drop_bit 1 den) = d * 2 ^ k" using Suc.prems unat_drop_1 [of den] by simp
  have bk: "drop_bit 1 (2 ^ Suc k :: u32) = 2 ^ k"
    using Suc.prems by (intro bit_word_eqI) (auto simp: bit_simps)
  have bn: "(2 :: u32) ^ Suc k \<noteq> 0" using Suc.prems by (simp del: power_Suc)
  show ?case
  proof (cases "den \<le> num")
    case True
    then have le: "d * 2 ^ Suc k \<le> unat num" using Suc.prems by (simp add: word_le_nat_alt)
    have un: "unat (num - den) = unat num - d * 2 ^ Suc k"
      using True Suc.prems by (simp add: u32_unat_sub word_le_nat_alt)
    have lt: "unat (num - den) < d * 2 ^ Suc k" using un Suc.prems by simp
    have o: "res OR 2 ^ Suc k = res + 2 ^ Suc k" using Suc.prems by (intro or_pow2_add) simp
    have nb: "\<forall>n \<le> k. \<not> bit (res OR 2 ^ Suc k) n" using Suc.prems by (auto simp: bit_simps)
    have "unat num = (unat num - d * 2 ^ Suc k) + 2 ^ Suc k * d" using le by simp
    then have dm: "unat num div d = 2 ^ Suc k + (unat num - d * 2 ^ Suc k) div d"
      "unat num mod d = (unat num - d * 2 ^ Suc k) mod d"
      using Suc.prems(3) by (metis add.commute div_mult_self1 less_not_refl2, metis mod_mult_self1)
    have "subtract_loop num den (2 ^ Suc k) res =
        subtract_loop (num - den) (drop_bit 1 den) (2 ^ k) (res OR 2 ^ Suc k)"
      using True bn bk by (subst subtract_loop.simps) simp
    also have "\<dots> = (of_nat (unat (num - den) mod d), (res OR 2 ^ Suc k) + of_nat (unat (num - den) div d))"
      by (rule Suc.IH [OF ud _ Suc.prems(3) lt nb]) (use Suc.prems in simp)
    finally show ?thesis unfolding un o dm by simp
  next
    case False
    then have lt: "unat num < d * 2 ^ Suc k" using Suc.prems by (simp add: word_le_nat_alt)
    have "subtract_loop num den (2 ^ Suc k) res = subtract_loop num (drop_bit 1 den) (2 ^ k) res"
      using False bn bk by (subst subtract_loop.simps) simp
    also have "\<dots> = (of_nat (unat num mod d), res + of_nat (unat num div d))"
      by (rule Suc.IH [OF ud _ Suc.prems(3) lt]) (use Suc.prems in simp_all)
    finally show ?thesis .
  qed
qed

lemma udivmodsi4_nat:
  assumes "den \<noteq> 0"
  shows "udivmodsi4 num den False = of_nat (unat num div unat den)"
    "udivmodsi4 num den True = of_nat (unat num mod unat den)"
proof -
  obtain den' b' where a: "align_divisor num den 1 = (den', b')" by fastforce
  have d: "0 < unat den" using assms by (simp add: unat_gt_0)
  from align_divisor_scaled [OF _ _ _ d a, of 0] obtain m where m: "m < 32"
    "unat den' = unat den * 2 ^ m" "b' = 2 ^ m" "unat num < unat den * 2 ^ Suc m" by auto
  from subtract_loop_divides [OF m(2,1) d m(4), of 0] a m(3) show
    "udivmodsi4 num den False = of_nat (unat num div unat den)"
    "udivmodsi4 num den True = of_nat (unat num mod unat den)"
    by (simp_all add: udivmodsi4_def)
qed

lemma unat_abs: "unat (if sint a < 0 then - a else a :: u32) = nat \<bar>sint a\<bar>"
  using sint_neg [of a] sint_nonneg [of a] by simp

text \<open>For a divisor other than zero the shift-and-subtract division returns the unsigned quotient
  and remainder, and the signed entry points return the quotient truncated towards zero and the
  remainder with the sign of the dividend (the only quotient that does not fit, -2^31 by -1, wraps).\<close>

theorem division_correct:
  assumes "b \<noteq> 0"
  shows "udivsi3 a b = a div b \<and> umodsi3 a b = a mod b \<and>
    divsi3 a b = of_int (sint a sdiv sint b) \<and> modsi3 a b = of_int (sint a smod sint b)"
proof -
  have u: "udivmodsi4 x y False = of_nat (unat x div unat y)"
    "udivmodsi4 x y True = of_nat (unat x mod unat y)" if "y \<noteq> 0" for x y
    using udivmodsi4_nat [OF that] by auto
  let ?a = "if sint a < 0 then - a else a" and ?b = "if sint b < 0 then - b else b"
  have nz: "?b \<noteq> 0" using assms by simp
  have sb: "0 < \<bar>sint b\<bar>" using assms by (metis signed_0 zero_less_abs_iff signed_word_eqI)
  have q: "udivmodsi4 ?a ?b False = of_int (\<bar>sint a\<bar> div \<bar>sint b\<bar>)"
    unfolding u(1) [OF nz] unat_abs
    by (simp add: nat_div_distrib [symmetric] of_nat_nat pos_imp_zdiv_nonneg_iff [OF sb])
  have r: "udivmodsi4 ?a ?b True = of_int (\<bar>sint a\<bar> mod \<bar>sint b\<bar>)"
    unfolding u(2) [OF nz] unat_abs
    using pos_mod_sign [OF sb] by (simp add: nat_mod_distrib [symmetric] of_nat_nat)
  have "divsi3 a b = (if (sint a < 0) \<noteq> (sint b < 0) then - udivmodsi4 ?a ?b False else udivmodsi4 ?a ?b False)"
    by (simp add: divsi3_def)
  then have d: "divsi3 a b = of_int (sint a sdiv sint b)"
    unfolding q by (auto simp: signed_divide_int_def sgn_if)
  have "modsi3 a b = (if sint a < 0 then - udivmodsi4 ?a ?b True else udivmodsi4 ?a ?b True)"
    by (simp add: modsi3_def)
  then have m: "modsi3 a b = of_int (sint a smod sint b)"
    unfolding r by (auto simp: signed_modulo_int_def signed_divide_int_def sgn_if minus_div_mult_eq_mod [symmetric] abs_if)
  have "udivsi3 a b = a div b \<and> umodsi3 a b = a mod b"
    using u [OF assms] by (simp add: udivsi3_def umodsi3_def word_arith_nat_div word_arith_nat_mod)
  with d m show ?thesis by blast
qed

theorem division_correct_witness: "divsi3 (- 7) 2 = - 3 \<and> modsi3 (- 7) 2 = - 1"
  using division_correct [of 2 "- 7"] by (simp add: signed_divide_int_def signed_modulo_int_def sgn_if)

end
