(* ===== verification/MemOps.thy ===== *)
theory MemOps
  imports Prelude
begin

text \<open>
  The block operations of \<^verbatim>\<open>lib/memcpy.c\<close>, \<^verbatim>\<open>lib/memmove.c\<close> and \<^verbatim>\<open>lib/memset.c\<close> on a byte memory.
  A 1-, 2- or 4-byte access loads all of its bytes and then stores them. The long loop is written
  in C for the 68000 and 68010 and as unrolled assembly that moves the same longs for the others;
  the parameter \<open>early\<close> says which processor the code is compiled for.
\<close>

definition copy_unit :: "nat \<Rightarrow> u32 \<Rightarrow> u32 \<Rightarrow> memory \<Rightarrow> memory" where
  "copy_unit k to from m = (\<lambda>a. if unat (a - to) < k then m (from + (a - to)) else m a)"

fun copy_bytes :: "nat \<Rightarrow> u32 \<Rightarrow> u32 \<Rightarrow> memory \<Rightarrow> memory" where
  "copy_bytes 0 cto cfrom m = m"
| "copy_bytes (Suc n) cto cfrom m = copy_bytes n (cto + 1) (cfrom + 1) (copy_unit 1 cto cfrom m)"

fun copy_longs :: "nat \<Rightarrow> u32 \<Rightarrow> u32 \<Rightarrow> memory \<Rightarrow> u32 \<times> u32 \<times> memory" where
  "copy_longs 0 lto lfrom m = (lto, lfrom, m)"
| "copy_longs (Suc temp) lto lfrom m = copy_longs temp (lto + 4) (lfrom + 4) (copy_unit 4 lto lfrom m)"

text \<open>From the 2-byte alignment step on, \<open>memcpy\<close> and the ascending half of \<open>memmove\<close> agree.\<close>

definition copy_up :: "u32 \<Rightarrow> u32 \<Rightarrow> u32 \<Rightarrow> memory \<Rightarrow> memory" where
  "copy_up to from n m =
     (let (to, from, n, m) = (if n > 2 \<and> to AND 2 \<noteq> 0
            then (to + 2, from + 2, n - 2, copy_unit 2 to from m) else (to, from, n, m));
          (to, from, m) = copy_longs (unat (drop_bit 2 n)) to from m;
          (to, from, m) = (if n AND 2 \<noteq> 0 then (to + 2, from + 2, copy_unit 2 to from m) else (to, from, m))
      in if n AND 1 \<noteq> 0 then copy_unit 1 to from m else m)"

definition memcpy :: "bool \<Rightarrow> u32 \<Rightarrow> u32 \<Rightarrow> u32 \<Rightarrow> memory \<Rightarrow> memory" where
  "memcpy early to from n m =
     (if n = 0 then m else
      let (to, from, n, m) = (if to AND 1 \<noteq> 0
            then (to + 1, from + 1, n - 1, copy_unit 1 to from m) else (to, from, n, m))
      in if early \<and> from AND 1 \<noteq> 0 then copy_bytes (unat n) to from m else copy_up to from n m)"

fun copy_longs_down :: "nat \<Rightarrow> u32 \<Rightarrow> u32 \<Rightarrow> memory \<Rightarrow> u32 \<times> u32 \<times> memory" where
  "copy_longs_down 0 ldest lsrc m = (ldest, lsrc, m)"
| "copy_longs_down (Suc temp) ldest lsrc m =
     copy_longs_down temp (ldest - 4) (lsrc - 4) (copy_unit 4 (ldest - 4) (lsrc - 4) m)"

definition copy_down :: "u32 \<Rightarrow> u32 \<Rightarrow> u32 \<Rightarrow> memory \<Rightarrow> memory" where
  "copy_down dest src n m =
     (let dest = dest + n; src = src + n;
          (dest, src, n, m) = (if dest AND 1 \<noteq> 0
            then (dest - 1, src - 1, n - 1, copy_unit 1 (dest - 1) (src - 1) m) else (dest, src, n, m));
          (dest, src, n, m) = (if n > 2 \<and> dest AND 2 \<noteq> 0
            then (dest - 2, src - 2, n - 2, copy_unit 2 (dest - 2) (src - 2) m) else (dest, src, n, m));
          (dest, src, m) = copy_longs_down (unat (drop_bit 2 n)) dest src m;
          (dest, src, m) = (if n AND 2 \<noteq> 0
            then (dest - 2, src - 2, copy_unit 2 (dest - 2) (src - 2) m) else (dest, src, m))
      in if n AND 1 \<noteq> 0 then copy_unit 1 (dest - 1) (src - 1) m else m)"

definition memmove :: "u32 \<Rightarrow> u32 \<Rightarrow> u32 \<Rightarrow> memory \<Rightarrow> memory" where
  "memmove dest src n m =
     (if n = 0 then m
      else if dest < src then
        (let (dest, src, n, m) = (if dest AND 1 \<noteq> 0
               then (dest + 1, src + 1, n - 1, copy_unit 1 dest src m) else (dest, src, n, m))
         in copy_up dest src n m)
      else copy_down dest src n m)"

text \<open>Storing the low \<open>k\<close> bytes of \<open>c\<close>, most significant first.\<close>

definition set_unit :: "nat \<Rightarrow> u32 \<Rightarrow> u32 \<Rightarrow> memory \<Rightarrow> memory" where
  "set_unit k s c m = (\<lambda>a. if unat (a - s) < k then ucast (drop_bit (8 * (k - 1 - unat (a - s))) c) else m a)"

fun set_longs :: "nat \<Rightarrow> u32 \<Rightarrow> u32 \<Rightarrow> memory \<Rightarrow> u32 \<times> memory" where
  "set_longs 0 ls c m = (ls, m)"
| "set_longs (Suc temp) ls c m = set_longs temp (ls + 4) c (set_unit 4 ls c m)"

text \<open>The fill byte copied to all four bytes of a long.\<close>

definition spread :: "u32 \<Rightarrow> u32" where
  "spread c = (let c = c AND 0xFF; c = c OR push_bit 8 c in c OR push_bit 16 c)"

definition memset :: "u32 \<Rightarrow> u32 \<Rightarrow> u32 \<Rightarrow> memory \<Rightarrow> memory" where
  "memset s c n m =
     (if n = 0 then m else
      let c = spread c;
          (s, n, m) = (if s AND 1 \<noteq> 0 then (s + 1, n - 1, set_unit 1 s c m) else (s, n, m));
          (s, n, m) = (if n > 2 \<and> s AND 2 \<noteq> 0 then (s + 2, n - 2, set_unit 2 s c m) else (s, n, m));
          (s, m) = set_longs (unat (drop_bit 2 n)) s c m;
          (s, m) = (if n AND 2 \<noteq> 0 then (s + 2, set_unit 2 s c m) else (s, m))
      in if n AND 1 \<noteq> 0 then set_unit 1 s c m else m)"

section \<open>Composing accesses\<close>

lemma copy_unit_0 [simp]: "copy_unit 0 to from m = m"
  by (simp add: copy_unit_def)

text \<open>No earlier store of an ascending copy reaches a byte still to be loaded.\<close>

definition up_safe :: "u32 \<Rightarrow> u32 \<Rightarrow> nat \<Rightarrow> bool" where
  "up_safe to from n \<longleftrightarrow> n \<le> 4294967296 \<and>
     (\<forall>i j. i < j \<and> j < n \<longrightarrow> to + of_nat i \<noteq> from + of_nat j)"

definition down_safe :: "u32 \<Rightarrow> u32 \<Rightarrow> nat \<Rightarrow> bool" where
  "down_safe to from n \<longleftrightarrow> n \<le> 4294967296 \<and>
     (\<forall>i j. i < j \<and> j < n \<longrightarrow> to + of_nat j \<noteq> from + of_nat i)"

lemma unat_shift:
  assumes "p \<le> 4294967295"
  shows "unat (a - (to + of_nat p) :: u32) =
    (if p \<le> unat (a - to) then unat (a - to) - p else 4294967296 + unat (a - to) - p)"
proof -
  have "a - (to + of_nat p) = (a - to) - of_nat p" by (simp add: diff_diff_eq)
  moreover have "unat (of_nat p :: u32) = p" using assms by (intro u32_unat_of_nat) simp
  ultimately show ?thesis by (simp only: unat_sub_wrap)
qed

lemma offset_nat: "(a :: u32) = to + of_nat (unat (a - to))"
  by simp

lemma copy_unit_up:
  assumes s: "up_safe to from n" and pk: "p + k \<le> n" and p: "p \<le> 4294967295"
  shows "copy_unit k (to + of_nat p) (from + of_nat p) (copy_unit p to from m) = copy_unit (p + k) to from m"
proof
  fix a
  let ?d = "unat (a - to)"
  have n: "n \<le> 4294967296" using s by (simp add: up_safe_def)
  have sh: "unat (a - (to + of_nat p)) = (if p \<le> ?d then ?d - p else 4294967296 + ?d - p)"
    using p by (rule unat_shift)
  have d: "?d < 4294967296" by simp
  have src: "from + of_nat p + (a - (to + of_nat p)) = from + (a - to)" by simp
  show "copy_unit k (to + of_nat p) (from + of_nat p) (copy_unit p to from m) a = copy_unit (p + k) to from m a"
  proof (cases "unat (a - (to + of_nat p)) < k")
    case True
    then have dp: "p \<le> ?d" "?d < p + k" using sh n pk by (auto split: if_splits)
    have "\<not> unat (from + (a - to) - to) < p"
    proof
      assume l: "unat (from + (a - to) - to) < p"
      let ?i = "unat (from + (a - to) - to)"
      have "to + of_nat ?i = from + of_nat ?d" by simp
      moreover have "?i < ?d" "?d < n" using l dp pk by auto
      ultimately show False using s unfolding up_safe_def by blast
    qed
    then show ?thesis using True dp by (simp add: copy_unit_def src)
  next
    case False
    then have "?d < p \<or> p + k \<le> ?d" using sh by (auto split: if_splits)
    with False show ?thesis by (auto simp: copy_unit_def)
  qed
qed

lemma copy_bytes_up:
  "up_safe to from n \<Longrightarrow> p + k \<le> n \<Longrightarrow> p \<le> 4294967295 \<Longrightarrow> n \<le> 4294967295 \<Longrightarrow>
   copy_bytes k (to + of_nat p) (from + of_nat p) (copy_unit p to from m) = copy_unit (p + k) to from m"
proof (induction k arbitrary: p)
  case (Suc k)
  have "copy_unit 1 (to + of_nat p) (from + of_nat p) (copy_unit p to from m) = copy_unit (p + 1) to from m"
    by (rule copy_unit_up [OF Suc.prems(1)]) (use Suc.prems in simp_all)
  with Suc.IH [of "Suc p"] Suc.prems show ?case by (simp add: ac_simps)
qed simp

lemma copy_longs_up:
  "up_safe to from n \<Longrightarrow> p + 4 * k \<le> n \<Longrightarrow> p \<le> 4294967295 \<Longrightarrow> n \<le> 4294967295 \<Longrightarrow>
   copy_longs k (to + of_nat p) (from + of_nat p) (copy_unit p to from m) =
     (to + of_nat (p + 4 * k), from + of_nat (p + 4 * k), copy_unit (p + 4 * k) to from m)"
proof (induction k arbitrary: p)
  case (Suc k)
  have "copy_unit 4 (to + of_nat p) (from + of_nat p) (copy_unit p to from m) = copy_unit (p + 4) to from m"
    by (rule copy_unit_up [OF Suc.prems(1)]) (use Suc.prems in simp_all)
  with Suc.IH [of "p + 4"] Suc.prems show ?case by (simp add: ac_simps)
qed simp

text \<open>The tail bits of a length and its number of longs add up.\<close>

lemma length_parts:
  "unat n = 4 * unat (drop_bit 2 n :: u32) + (if n AND 2 \<noteq> 0 then 2 else 0) + (if n AND 1 \<noteq> 0 then 1 else 0)"
proof -
  have b1: "n AND 2 \<noteq> 0 \<longleftrightarrow> odd (unat n div 2)"
  proof -
    have "n AND 2 ^ 1 = 0 \<longleftrightarrow> \<not> bit n 1" by (rule and_exp_eq_0_iff_not_bit)
    moreover have "bit n 1 \<longleftrightarrow> bit (unat n) 1" by (simp add: bit_unsigned_iff)
    ultimately show ?thesis by (simp add: bit_iff_odd)
  qed
  have b0: "n AND 1 \<noteq> 0 \<longleftrightarrow> odd (unat n)"
  proof -
    have "n AND 2 ^ 0 = 0 \<longleftrightarrow> \<not> bit n 0" by (rule and_exp_eq_0_iff_not_bit)
    moreover have "bit n 0 \<longleftrightarrow> bit (unat n) 0" by (simp add: bit_unsigned_iff)
    ultimately show ?thesis by (simp add: bit_iff_odd)
  qed
  have q: "unat (drop_bit 2 n) = unat n div 4" by (simp add: drop_bit_eq_div unat_div)
  show ?thesis unfolding b1 b0 q by presburger
qed


text \<open>An ascending copy that has reached offset \<open>p\<close> and has \<open>n\<close> bytes left.\<close>

definition up_state :: "u32 \<Rightarrow> u32 \<Rightarrow> memory \<Rightarrow> nat \<Rightarrow> nat \<Rightarrow> u32 \<times> u32 \<times> u32 \<times> memory \<Rightarrow> bool" where
  "up_state to from m N p s \<longleftrightarrow>
     p + unat (fst (snd (snd s))) = N \<and>
     s = (to + of_nat p, from + of_nat p, fst (snd (snd s)), copy_unit p to from m)"

lemma up_stateI: "p + unat n = N \<Longrightarrow> t = to + of_nat p \<Longrightarrow> f = from + of_nat p \<Longrightarrow> m' = copy_unit p to from m \<Longrightarrow>
   up_state to from m N p (t, f, n, m')"
  by (simp add: up_state_def)

lemma up_state_step:
  assumes s: "up_safe to from N" "N \<le> 4294967295" and st: "up_state to from m N p (t, f, n, m')"
    and k: "k \<le> unat n" and kw: "unat kw = k" "of_nat k = kw"
  shows "up_state to from m N (p + k) (t + kw, f + kw, n - kw, copy_unit k t f m')"
proof (rule up_stateI)
  have e: "p + unat n = N" "t = to + of_nat p" "f = from + of_nat p" "m' = copy_unit p to from m"
    using st by (simp_all add: up_state_def)
  show "p + k + unat (n - kw) = N" using e(1) k kw by (simp add: u32_unat_sub)
  show "t + kw = to + of_nat (p + k)" "f + kw = from + of_nat (p + k)" using e(2,3) kw by simp_all
  show "copy_unit k t f m' = copy_unit (p + k) to from m"
    unfolding e(2-4) by (rule copy_unit_up [OF s(1)]) (use e(1) k s(2) in simp_all)
qed

lemma copy_up_finishes:
  assumes s: "up_safe to from N" "N \<le> 4294967295" and st: "up_state to from m N p (t, f, n, m')"
  shows "copy_up t f n m' = copy_unit N to from m"
proof -
  obtain p1 t1 f1 n1 m1 where 1: "(if n > 2 \<and> t AND 2 \<noteq> 0
      then (t + 2, f + 2, n - 2, copy_unit 2 t f m') else (t, f, n, m')) = (t1, f1, n1, m1)"
    "up_state to from m N p1 (t1, f1, n1, m1)"
  proof (cases "n > 2 \<and> t AND 2 \<noteq> 0")
    case True
    then have "2 \<le> unat n" by (simp add: word_less_nat_alt)
    from up_state_step [OF s st this, of 2] True that show ?thesis by simp
  next
    case False
    with st that show ?thesis by auto
  qed
  then have e: "p1 + unat n1 = N" "t1 = to + of_nat p1" "f1 = from + of_nat p1" "m1 = copy_unit p1 to from m"
    by (simp_all add: up_state_def)
  let ?k = "unat (drop_bit 2 n1)" and ?p2 = "p1 + 4 * unat (drop_bit 2 n1)"
  note len = length_parts [of n1]
  have 2: "copy_longs ?k t1 f1 m1 = (to + of_nat ?p2, from + of_nat ?p2, copy_unit ?p2 to from m)"
    unfolding e(2-4) by (rule copy_longs_up [OF s(1)]) (use e(1) len s(2) in auto)
  have two: "copy_unit 2 (to + of_nat ?p2) (from + of_nat ?p2) (copy_unit ?p2 to from m) =
      copy_unit (?p2 + 2) to from m" if "n1 AND 2 \<noteq> 0"
    by (rule copy_unit_up [OF s(1)]) (use that e(1) len s(2) in auto)
  have one: "copy_unit 1 (to + of_nat q) (from + of_nat q) (copy_unit q to from m) =
      copy_unit (q + 1) to from m" if "q + 1 = N" for q
    by (rule copy_unit_up [OF s(1)]) (use that s(2) in auto)
  show ?thesis
    unfolding copy_up_def Let_def 1(1) using 2 two one [of ?p2] one [of "?p2 + 2"] e(1) len
    by (cases "n1 AND 2 = 0"; cases "n1 AND 1 = 0") (simp_all add: ac_simps)
qed

lemma memcpy_up_safe:
  assumes s: "up_safe to from (unat n)"
  shows "memcpy early to from n m = copy_unit (unat n) to from m"
proof (cases "n = 0")
  case True
  then show ?thesis by (simp add: memcpy_def)
next
  case False
  have N: "unat n \<le> 4294967295" using u32_less [of n] by linarith
  have st0: "up_state to from m (unat n) 0 (to, from, n, m)" by (simp add: up_state_def)
  have n1: "1 \<le> unat n" using False by (simp add: Suc_le_eq unat_gt_0)
  obtain p t f k m' where 1: "(if to AND 1 \<noteq> 0
      then (to + 1, from + 1, n - 1, copy_unit 1 to from m) else (to, from, n, m)) = (t, f, k, m')"
    "up_state to from m (unat n) p (t, f, k, m')"
    using up_state_step [OF s N st0 n1, of 1] st0 by (cases "to AND 1 = 0") auto
  have e: "p + unat k = unat n" "t = to + of_nat p" "f = from + of_nat p" "m' = copy_unit p to from m"
    using 1(2) by (simp_all add: up_state_def)
  have "copy_bytes (unat k) t f m' = copy_unit (unat n) to from m"
    unfolding e(2-4) e(1) [symmetric] by (rule copy_bytes_up [OF s]) (use e(1) N in auto)
  moreover have "copy_up t f k m' = copy_unit (unat n) to from m"
    by (rule copy_up_finishes [OF s N 1(2)])
  ultimately show ?thesis
    using False unfolding memcpy_def Let_def 1(1) by simp
qed


section \<open>Descending copies\<close>

lemma copy_unit_down:
  assumes s: "down_safe to from (k + j)" and k: "k \<le> 4294967295"
  shows "copy_unit k to from (copy_unit j (to + of_nat k) (from + of_nat k) m) = copy_unit (k + j) to from m"
proof
  fix a
  let ?d = "unat (a - to)"
  have n: "k + j \<le> 4294967296" using s by (simp add: down_safe_def)
  have sh: "unat (b - (to + of_nat k)) =
      (if k \<le> unat (b - to) then unat (b - to) - k else 4294967296 + unat (b - to) - k)" for b
    using k by (rule unat_shift)
  have src: "from + of_nat k + (a - (to + of_nat k)) = from + (a - to)" by simp
  show "copy_unit k to from (copy_unit j (to + of_nat k) (from + of_nat k) m) a = copy_unit (k + j) to from m a"
  proof (cases "?d < k")
    case True
    let ?b = "from + (a - to)"
    have "\<not> unat (?b - (to + of_nat k)) < j"
    proof
      assume l: "unat (?b - (to + of_nat k)) < j"
      let ?e = "unat (?b - to)"
      have "k \<le> ?e" "?e < k + j" using l sh [of ?b] n by (auto split: if_splits)
      moreover have "to + of_nat ?e = from + of_nat ?d" by simp
      ultimately show False using s True unfolding down_safe_def by (meson order_less_le_trans)
    qed
    with True show ?thesis by (simp add: copy_unit_def)
  next
    case False
    then have "unat (a - (to + of_nat k)) < j \<longleftrightarrow> ?d < k + j" using sh [of a] by auto
    with False show ?thesis by (simp add: copy_unit_def src)
  qed
qed

lemma down_safe_shift: "down_safe to from N \<Longrightarrow> p \<le> N \<Longrightarrow> down_safe (to + of_nat p) (from + of_nat p) (N - p)"
  unfolding down_safe_def
proof (intro conjI allI impI)
  fix i j
  assume s: "N \<le> 4294967296 \<and> (\<forall>i j. i < j \<and> j < N \<longrightarrow> to + of_nat j \<noteq> from + of_nat i)"
    and p: "p \<le> N" and ij: "i < j \<and> j < N - p"
  then have "to + of_nat (p + j) \<noteq> from + of_nat (p + i)" by auto
  then show "to + of_nat p + of_nat j \<noteq> from + of_nat p + of_nat i" by (simp add: ac_simps)
qed auto

definition down_state :: "u32 \<Rightarrow> u32 \<Rightarrow> memory \<Rightarrow> nat \<Rightarrow> nat \<Rightarrow> u32 \<Rightarrow> u32 \<Rightarrow> memory \<Rightarrow> bool" where
  "down_state to from m N q t f m' \<longleftrightarrow> q \<le> N \<and> t = to + of_nat q \<and> f = from + of_nat q \<and>
     m' = copy_unit (N - q) (to + of_nat q) (from + of_nat q) m"

lemma down_state_step:
  assumes s: "down_safe to from N" "N \<le> 4294967295" and st: "down_state to from m N q t f m'"
    and k: "k \<le> q" and kw: "of_nat k = kw"
  shows "down_state to from m N (q - k) (t - kw) (f - kw) (copy_unit k (t - kw) (f - kw) m')"
proof -
  have e: "q \<le> N" "t = to + of_nat q" "f = from + of_nat q"
    "m' = copy_unit (N - q) (to + of_nat q) (from + of_nat q) m"
    using st by (simp_all add: down_state_def)
  have p: "t - kw = to + of_nat (q - k)" "f - kw = from + of_nat (q - k)"
    using e(2,3) k kw by (simp_all add: of_nat_diff)
  have b: "to + of_nat q = to + of_nat (q - k) + of_nat k" "from + of_nat q = from + of_nat (q - k) + of_nat k"
    using k by (simp_all add: of_nat_diff)
  have "down_safe (to + of_nat (q - k)) (from + of_nat (q - k)) (k + (N - q))"
    using down_safe_shift [OF s(1), of "q - k"] k e(1) by (simp add: add.commute)
  from copy_unit_down [OF this, of m] have
    "copy_unit k (t - kw) (f - kw) m' = copy_unit (N - (q - k)) (to + of_nat (q - k)) (from + of_nat (q - k)) m"
    unfolding p e(4) b using k e(1) s(2) by (simp add: add.commute)
  with p e(1) show ?thesis by (simp add: down_state_def)
qed

lemma copy_longs_down_state:
  "down_safe to from N \<Longrightarrow> N \<le> 4294967295 \<Longrightarrow> down_state to from m N q t f m' \<Longrightarrow> 4 * k \<le> q \<Longrightarrow>
   \<exists>t' f' m''. copy_longs_down k t f m' = (t', f', m'') \<and> down_state to from m N (q - 4 * k) t' f' m''"
proof (induction k arbitrary: q t f m')
  case (Suc k)
  have "down_state to from m N (q - 4) (t - 4) (f - 4) (copy_unit 4 (t - 4) (f - 4) m')"
    by (rule down_state_step [OF Suc.prems(1-3)]) (use Suc.prems in simp_all)
  from Suc.IH [OF Suc.prems(1,2) this] Suc.prems(4) show ?case by simp
qed simp

lemma copy_down_safe:
  assumes s: "down_safe to from (unat n)" and nz: "n \<noteq> 0"
  shows "copy_down to from n m = copy_unit (unat n) to from m"
proof -
  let ?N = "unat n"
  have N: "?N \<le> 4294967295" using u32_less [of n] by linarith
  have st: "down_state to from m ?N ?N (to + n) (from + n) m" by (simp add: down_state_def)
  show ?thesis
  proof -
    have n1: "1 \<le> ?N" using nz by (simp add: Suc_le_eq unat_gt_0)
    obtain t f k m1 where 1: "(if (to + n) AND 1 \<noteq> 0
        then (to + n - 1, from + n - 1, n - 1, copy_unit 1 (to + n - 1) (from + n - 1) m)
        else (to + n, from + n, n, m)) = (t, f, k, m1)"
      "down_state to from m ?N (unat k) t f m1"
    proof (cases "(to + n) AND 1 \<noteq> 0")
      case True
      have "unat (n - 1) = ?N - 1" using n1 by (simp add: u32_unat_sub)
      with down_state_step [OF s N st n1, of 1] True that show ?thesis by simp
    next
      case False
      with st that show ?thesis by simp
    qed
    obtain t2 f2 k2 m2 where 2: "(if k > 2 \<and> t AND 2 \<noteq> 0
        then (t - 2, f - 2, k - 2, copy_unit 2 (t - 2) (f - 2) m1) else (t, f, k, m1)) = (t2, f2, k2, m2)"
      "down_state to from m ?N (unat k2) t2 f2 m2"
    proof (cases "k > 2 \<and> t AND 2 \<noteq> 0")
      case True
      then have "2 \<le> unat k" by (simp add: word_less_nat_alt)
      moreover from this have "unat (k - 2) = unat k - 2" by (simp add: u32_unat_sub)
      ultimately show ?thesis using down_state_step [OF s N 1(2), of 2 2] True that by simp
    next
      case False
      with 1(2) that show ?thesis by auto
    qed
    note len = length_parts [of k2]
    obtain t3 f3 m3 where 3: "copy_longs_down (unat (drop_bit 2 k2)) t2 f2 m2 = (t3, f3, m3)"
      "down_state to from m ?N (unat k2 - 4 * unat (drop_bit 2 k2)) t3 f3 m3"
      using copy_longs_down_state [OF s N 2(2), of "unat (drop_bit 2 k2)"] len by auto
    obtain t4 f4 m4 where 4: "(if k2 AND 2 \<noteq> 0 then (t3 - 2, f3 - 2, copy_unit 2 (t3 - 2) (f3 - 2) m3)
        else (t3, f3, m3)) = (t4, f4, m4)"
      "down_state to from m ?N (if k2 AND 1 \<noteq> 0 then 1 else 0) t4 f4 m4"
    proof (cases "k2 AND 2 \<noteq> 0")
      case True
      then show ?thesis
        using down_state_step [OF s N 3(2), of 2 2] that len by (cases "k2 AND 1 = 0") simp_all
    next
      case False
      with 3(2) that len show ?thesis by simp
    qed
    have fin: "(if k2 AND 1 \<noteq> 0 then copy_unit 1 (t4 - 1) (f4 - 1) m4 else m4) = copy_unit ?N to from m"
    proof (cases "k2 AND 1 \<noteq> 0")
      case True
      have "down_state to from m ?N 0 (t4 - 1) (f4 - 1) (copy_unit 1 (t4 - 1) (f4 - 1) m4)"
        using down_state_step [OF s N 4(2), of 1 1] True by simp
      then have "copy_unit 1 (t4 - 1) (f4 - 1) m4 = copy_unit (?N - 0) (to + of_nat 0) (from + of_nat 0) m"
        unfolding down_state_def by blast
      then have "copy_unit 1 (t4 - 1) (f4 - 1) m4 = copy_unit ?N to from m" by simp
      with True show ?thesis by (simp only: if_True simp_thms)
    next
      case False
      with 4(2) show ?thesis by (simp add: down_state_def)
    qed
    show ?thesis
      unfolding copy_down_def Let_def 1(1) by (simp only: prod.case 2(1) 3(1) 4(1) fin)
  qed
qed

text \<open>Which regions are safe: disjoint ones, and in \<open>memmove\<close> any two that do not wrap.\<close>

lemma up_safe_below:
  assumes "unat to \<le> unat from" "unat from + n \<le> 4294967296"
  shows "up_safe to from n"
  unfolding up_safe_def
proof (intro conjI allI impI)
  fix i j assume ij: "i < j \<and> j < n"
  have "unat (to + of_nat i) = unat to + i" "unat (from + of_nat j) = unat from + j"
    using assms ij u32_unat_add [of to "of_nat i"] u32_unat_add [of "from" "of_nat j"]
    by (simp_all add: u32_unat_of_nat)
  with assms ij show "to + of_nat i \<noteq> from + of_nat j" by auto
qed (use assms in auto)

lemma down_safe_above:
  assumes "unat from \<le> unat to" "unat to + n \<le> 4294967296"
  shows "down_safe to from n"
  unfolding down_safe_def
proof (intro conjI allI impI)
  fix i j assume ij: "i < j \<and> j < n"
  have "unat (to + of_nat j) = unat to + j" "unat (from + of_nat i) = unat from + i"
    using assms ij u32_unat_add [of to "of_nat j"] u32_unat_add [of "from" "of_nat i"]
    by (simp_all add: u32_unat_of_nat)
  with assms ij show "to + of_nat j \<noteq> from + of_nat i" by auto
qed (use assms in auto)

lemma memmove_up_step:
  assumes "up_safe to from (unat n)" "to < from" "n \<noteq> 0"
  shows "memmove to from n m = copy_unit (unat n) to from m"
  using assms memcpy_up_safe [OF assms(1), of False m] by (simp add: memmove_def memcpy_def Let_def)



text \<open>\<open>memcpy\<close> between regions that do not overlap, for either processor family, any alignment
  and any length, copies exactly the source bytes and touches nothing else.\<close>

theorem memcpy_copies:
  assumes "unat to + unat n \<le> unat from \<or> unat from + unat n \<le> unat to"
    and "unat to + unat n \<le> 4294967296" and "unat from + unat n \<le> 4294967296"
  shows "memcpy early to from n m =
    (\<lambda>a. if unat (a - to) < unat n then m (from + (a - to)) else m a)"
proof -
  have "up_safe to from (unat n)"
    unfolding up_safe_def
  proof (intro conjI allI impI)
    fix i j assume ij: "i < j \<and> j < unat n"
    have "unat (to + of_nat i) = unat to + i" "unat (from + of_nat j) = unat from + j"
      using assms ij u32_unat_add [of to "of_nat i"] u32_unat_add [of "from" "of_nat j"]
      by (simp_all add: u32_unat_of_nat)
    with assms ij show "to + of_nat i \<noteq> from + of_nat j" by auto
  qed (use assms in auto)
  from memcpy_up_safe [OF this, of early m] show ?thesis by (simp add: copy_unit_def)
qed

theorem memcpy_copies_witness: "memcpy True 0x2001 0x1000 7 (\<lambda>a. ucast a) 0x2007 = 0x06"
  using memcpy_copies [of "0x2001" 7 "0x1000" True "\<lambda>a. ucast a"] by simp


section \<open>Filling\<close>

definition filled :: "nat \<Rightarrow> u32 \<Rightarrow> u8 \<Rightarrow> memory \<Rightarrow> memory" where
  "filled k s b m = (\<lambda>a. if unat (a - s) < k then b else m a)"

lemma filled_0 [simp]: "filled 0 s b m = m"
  by (simp add: filled_def)

lemma filled_up:
  assumes "p + k \<le> 4294967296" "p \<le> 4294967295"
  shows "filled k (s + of_nat p) b (filled p s b m) = filled (p + k) s b m"
proof
  fix a
  have "unat (a - (s + of_nat p)) = (if p \<le> unat (a - s) then unat (a - s) - p else 4294967296 + unat (a - s) - p)"
    using assms(2) by (rule unat_shift)
  with assms(1) show "filled k (s + of_nat p) b (filled p s b m) a = filled (p + k) s b m a"
    by (auto simp: filled_def split: if_splits)
qed

lemma spread_byte:
  assumes "i < 4"
  shows "ucast (drop_bit (8 * i) (spread c)) = (ucast c :: u8)"
proof (rule bit_word_eqI)
  fix n assume "n < LENGTH(8)"
  then have n: "n < 8" by simp
  have s: "spread c = (let c = take_bit 8 c; c = c OR push_bit 8 c in c OR push_bit 16 c)"
    by (simp add: spread_def take_bit_eq_mask mask_eq_exp_minus_1)
  from assms consider "i = 0" | "i = 1" | "i = 2" | "i = 3" by linarith
  then show "bit (ucast (drop_bit (8 * i) (spread c)) :: u8) n = bit (ucast c :: u8) n"
    using n by cases (auto simp: s Let_def bit_simps)
qed

lemma set_unit_filled:
  "k \<in> {1, 2, 4} \<Longrightarrow> set_unit k s (spread c) m = filled k s (ucast c) m"
  using spread_byte spread_byte [of 0] by (auto simp: set_unit_def filled_def fun_eq_iff)

lemma set_longs_filled:
  "p + 4 * k \<le> 4294967295 \<Longrightarrow>
   set_longs k (s + of_nat p) (spread c) (filled p s (ucast c) m) =
     (s + of_nat (p + 4 * k), filled (p + 4 * k) s (ucast c) m)"
proof (induction k arbitrary: p)
  case (Suc k)
  have "set_unit 4 (s + of_nat p) (spread c) (filled p s (ucast c) m) = filled (p + 4) s (ucast c) m"
    using Suc.prems filled_up [of p 4] by (simp add: set_unit_filled)
  with Suc.IH [of "p + 4"] Suc.prems show ?case by (simp add: ac_simps)
qed simp

lemma memset_eq:
  "memset s c n m = (\<lambda>a. if unat (a - s) < unat n then ucast c else m a)"
proof -
  let ?f = "\<lambda>p. filled p s (ucast c) m" and ?N = "unat n"
  have N: "?N \<le> 4294967295" using u32_less [of n] by linarith
  have step: "set_unit k (s + of_nat p) (spread c) (?f p) = ?f (p + k)" if "k \<in> {1, 2, 4}" "p + k \<le> ?N" for p k
    using that N filled_up [of p k] by (simp add: set_unit_filled)
  have "memset s c n m = ?f ?N"
  proof (cases "n = 0")
    case False
    then have n1: "1 \<le> ?N" by (simp add: Suc_le_eq unat_gt_0)
    obtain p k where 1: "(if s AND 1 \<noteq> 0 then (s + 1, n - 1, set_unit 1 s (spread c) m) else (s, n, m)) =
        (s + of_nat p, k, ?f p)" "p + unat k = ?N"
    proof (cases "s AND 1 \<noteq> 0")
      case True
      with that [of 1 "n - 1"] step [of 1 0] n1 show ?thesis by (simp add: u32_unat_sub)
    next
      case False
      with that [of 0 n] show ?thesis by simp
    qed
    obtain p2 k2 where 2: "(if k > 2 \<and> (s + of_nat p) AND 2 \<noteq> 0
        then (s + of_nat p + 2, k - 2, set_unit 2 (s + of_nat p) (spread c) (?f p))
        else (s + of_nat p, k, ?f p)) = (s + of_nat p2, k2, ?f p2)" "p2 + unat k2 = ?N"
    proof (cases "k > 2 \<and> (s + of_nat p) AND 2 \<noteq> 0")
      case True
      then have "2 \<le> unat k" by (simp add: word_less_nat_alt)
      with that [of "p + 2" "k - 2"] step [of 2 p] 1(2) True show ?thesis
        by (simp add: u32_unat_sub ac_simps)
    next
      case False
      with that [of p k] 1(2) show ?thesis by auto
    qed
    note len = length_parts [of k2]
    let ?q = "p2 + 4 * unat (drop_bit 2 k2)"
    have 3: "set_longs (unat (drop_bit 2 k2)) (s + of_nat p2) (spread c) (?f p2) = (s + of_nat ?q, ?f ?q)"
      using set_longs_filled [of p2 "unat (drop_bit 2 k2)"] 2(2) len N by simp
    have 4: "set_unit 2 (s + of_nat ?q) (spread c) (?f ?q) = ?f (?q + 2)" if "k2 AND 2 \<noteq> 0"
      using step [of 2 ?q] 2(2) len that by simp
    have 5: "set_unit 1 (s + of_nat q) (spread c) (?f q) = ?f (q + 1)" if "q + 1 \<le> ?N" for q
      using step [of 1 q] that by simp
    have "(let (s, m) = (if k2 AND 2 \<noteq> 0 then (s + of_nat ?q + 2, set_unit 2 (s + of_nat ?q) (spread c) (?f ?q))
            else (s + of_nat ?q, ?f ?q))
        in if k2 AND 1 \<noteq> 0 then set_unit 1 s (spread c) m else m) = ?f ?N"
      using 4 5 [of ?q] 5 [of "?q + 2"] 2(2) len
      by (cases "k2 AND 2 = 0"; cases "k2 AND 1 = 0") (simp_all add: ac_simps)
    with False show ?thesis
      unfolding memset_def Let_def 1(1) by (simp only: prod.case 2(1) 3 if_False)
  qed (simp add: memset_def)
  then show ?thesis by (simp add: filled_def)
qed

text \<open>\<open>memset\<close> stores the low byte of its argument in exactly the bytes of the region, for any
  alignment and any length.\<close>

theorem memset_fills:
  "memset s c n m = (\<lambda>a. if unat (a - s) < unat n then ucast c else m a)"
  by (rule memset_eq)

end
