(* ===== verification/PacketQueue.thy ===== *)
theory PacketQueue
  imports Prelude "HOL-Library.Monad_Syntax"
begin

text \<open>
  The packet queues of \<^verbatim>\<open>net/packet.c\<close>. A packet is its address, the \<open>next\<close> fields of all packets
  are a store, and a queue is its \<open>head\<close> and \<open>tail\<close> pointers. The theory shows that these pointer
  operations implement a first-in first-out list, on which the rest of the network model is built.
\<close>

type_synonym ptr = nat
type_synonym links = "ptr \<Rightarrow> ptr option"

record pqueue =
  qhead :: "ptr option"
  qtail :: "ptr option"

definition packet_queue_init :: pqueue where
  "packet_queue_init = \<lparr>qhead = None, qtail = None\<rparr>"

definition packet_queue_addtail :: "links \<times> pqueue \<Rightarrow> ptr \<Rightarrow> links \<times> pqueue" where
  "packet_queue_addtail s p =
     (let (nx, q) = s; nx = (if nx p \<noteq> None then nx(p := None) else nx) in
      case qtail q of
        Some t \<Rightarrow> (nx(t := Some p), q\<lparr>qtail := Some p\<rparr>)
      | None \<Rightarrow> (nx, q\<lparr>qhead := Some p, qtail := Some p\<rparr>))"

definition packet_queue_peekhead :: "links \<times> pqueue \<Rightarrow> ptr option" where
  "packet_queue_peekhead s = qhead (snd s)"

definition packet_queue_pophead :: "links \<times> pqueue \<Rightarrow> ptr option \<times> links \<times> pqueue" where
  "packet_queue_pophead s =
     (let (nx, q) = s in
      case qhead q of
        None \<Rightarrow> (None, nx, q)
      | Some p \<Rightarrow>
          (let q = q\<lparr>qhead := nx p\<rparr>;
               q = (if qhead q = None then q\<lparr>qtail := None\<rparr> else q)
           in (Some p, nx(p := None), q)))"

text \<open>The walks along the links may meet a cycle: not returning is \<open>None\<close>.\<close>

partial_function (option) length_from :: "links \<Rightarrow> ptr option \<Rightarrow> int \<Rightarrow> int option" where
  "length_from nx p l = (case p of None \<Rightarrow> Some l | Some p \<Rightarrow> length_from nx (nx p) (l + 1))"

definition packet_queue_length :: "links \<times> pqueue \<Rightarrow> int option" where
  "packet_queue_length s = length_from (fst s) (qhead (snd s)) 0"

partial_function (option) packet_queue_drain ::
  "links \<times> pqueue \<Rightarrow> ptr list \<Rightarrow> (ptr list \<times> links \<times> pqueue) option" where
  "packet_queue_drain s freed =
     (case packet_queue_pophead s of
        (None, s) \<Rightarrow> Some (freed, s)
      | (Some p, s) \<Rightarrow> packet_queue_drain s (freed @ [p]))"

section \<open>The list a queue represents\<close>

fun linked :: "links \<Rightarrow> ptr option \<Rightarrow> ptr list \<Rightarrow> bool" where
  "linked nx p [] \<longleftrightarrow> p = None"
| "linked nx p (x # xs) \<longleftrightarrow> p = Some x \<and> linked nx (nx x) xs"

definition queue_rep :: "links \<times> pqueue \<Rightarrow> ptr list \<Rightarrow> bool" where
  "queue_rep s xs \<longleftrightarrow> linked (fst s) (qhead (snd s)) xs \<and> distinct xs \<and>
     qtail (snd s) = (if xs = [] then None else Some (last xs))"

lemma linked_upd: "p \<notin> set xs \<Longrightarrow> linked (nx(p := v)) h xs = linked nx h xs"
  by (induction xs arbitrary: h) auto

lemma linked_snoc:
  "linked nx h (xs @ [t]) \<Longrightarrow> distinct (xs @ [t]) \<Longrightarrow> p \<notin> set (xs @ [t]) \<Longrightarrow> nx p = None \<Longrightarrow>
   linked (nx(t := Some p)) h (xs @ [t, p])"
  by (induction xs arbitrary: h) auto

section \<open>The interface of a queue\<close>

locale fifo =
  fixes rep :: "'s \<Rightarrow> 'p list \<Rightarrow> bool"
    and enq :: "'s \<Rightarrow> 'p \<Rightarrow> 's"
    and deq :: "'s \<Rightarrow> 'p option \<times> 's"
  assumes rep_enq: "rep s xs \<Longrightarrow> x \<notin> set xs \<Longrightarrow> rep (enq s x) (xs @ [x])"
    and rep_deq_none: "rep s [] \<Longrightarrow> fst (deq s) = None \<and> rep (snd (deq s)) []"
    and rep_deq_some: "rep s (x # xs) \<Longrightarrow> fst (deq s) = Some x \<and> rep (snd (deq s)) xs"
begin

lemma enq_all:
  "rep s xs \<Longrightarrow> distinct (xs @ ys) \<Longrightarrow> rep (foldl enq s ys) (xs @ ys)"
proof (induction ys arbitrary: s xs)
  case (Cons y ys)
  then show ?case using Cons.IH [of "enq s y" "xs @ [y]"] rep_enq [of s xs y] by simp
qed simp

lemma deq_after_enq_all:
  assumes "rep s []" "distinct (y # ys)"
  shows "fst (deq (foldl enq s (y # ys))) = Some y \<and> rep (snd (deq (foldl enq s (y # ys)))) ys"
  using enq_all [of s "[]" "y # ys"] rep_deq_some assms by simp

end

lemma queue_rep_addtail:
  assumes r: "queue_rep (nx, q) xs" and x: "x \<notin> set xs"
  shows "queue_rep (packet_queue_addtail (nx, q) x) (xs @ [x])"
proof (cases xs rule: rev_cases)
  case Nil
  with r show ?thesis by (auto simp: queue_rep_def packet_queue_addtail_def Let_def)
next
  case (snoc zs t)
  let ?nx = "nx(x := None)"
  have l: "linked ?nx (qhead q) (zs @ [t])" "distinct (zs @ [t])" "qtail q = Some t" "x \<notin> set (zs @ [t])"
    using r x snoc by (auto simp: queue_rep_def linked_upd simp del: set_append)
  have "linked (?nx(t := Some x)) (qhead q) (zs @ [t, x])"
    by (rule linked_snoc [OF l(1,2,4)]) simp
  moreover have "(if nx x \<noteq> None then nx(x := None) else nx) = ?nx" by auto
  ultimately show ?thesis
    using l snoc by (auto simp: queue_rep_def packet_queue_addtail_def Let_def)
qed

lemma queue_rep_pophead:
  "queue_rep s [] \<Longrightarrow> packet_queue_pophead s = (None, s)"
  "queue_rep s (x # xs) \<Longrightarrow> \<exists>s'. packet_queue_pophead s = (Some x, s') \<and> queue_rep s' xs \<and> fst s' x = None"
proof -
  show "queue_rep s [] \<Longrightarrow> packet_queue_pophead s = (None, s)"
    by (cases s) (simp add: queue_rep_def packet_queue_pophead_def)
  assume r: "queue_rep s (x # xs)"
  obtain nx q where s: "s = (nx, q)" by fastforce
  from r s have l: "qhead q = Some x" "linked nx (nx x) xs" "x \<notin> set xs" "distinct xs"
    "qtail q = Some (last (x # xs))" by (auto simp: queue_rep_def)
  have "nx x = None \<longleftrightarrow> xs = []" using l(2) by (cases xs) auto
  with l s show "\<exists>s'. packet_queue_pophead s = (Some x, s') \<and> queue_rep s' xs \<and> fst s' x = None"
    by (auto simp: packet_queue_pophead_def queue_rep_def Let_def linked_upd)
qed

interpretation pq: fifo queue_rep packet_queue_addtail packet_queue_pophead
proof (unfold_locales, goal_cases)
  case (1 s xs x)
  then show ?case using queue_rep_addtail [of "fst s" "snd s" xs x] by simp
next
  case (2 s)
  then show ?case using queue_rep_pophead(1) [of s] by simp
next
  case (3 s x xs)
  then show ?case using queue_rep_pophead(2) [of s x xs] by auto
qed

lemma length_from_linked: "linked nx p xs \<Longrightarrow> length_from nx p l = Some (l + int (length xs))"
proof (induction xs arbitrary: p l)
  case Nil
  then show ?case by (subst length_from.simps) simp
next
  case (Cons x xs)
  then show ?case by (subst length_from.simps) simp
qed



end
