(* ===== verification/Mem.thy ===== *)
theory Mem
  imports Prelude
begin

text \<open>
  The memory layout: \<^verbatim>\<open>core/mem.c\<close> and the \<open>target_mem_init\<close> of the three targets
  (\<^verbatim>\<open>q40/hw.c\<close>, \<^verbatim>\<open>mini/hw.c\<close>, \<^verbatim>\<open>kiss/hw.c\<close>). Sizing the RAM is modelled on a bus: \<open>decode\<close> gives the
  word of RAM an address selects (\<open>None\<close> where nothing answers, several addresses for one word where
  the RAM is mirrored) and \<open>floating\<close> what a read of nothing returns. The end of the program's own data,
  which the linker sets, is a parameter.
\<close>

record layout =
  ram_size :: u32
  stack_base :: u32
  stack_size :: u32
  stack_top :: u32
  heap_base :: u32
  heap_size :: u32
  bounce_below_addr :: u32
  rom_below_addr :: u32

section \<open>Sizing the RAM\<close>

definition bus_write :: "(u32 \<Rightarrow> 'w option) \<Rightarrow> u32 \<Rightarrow> u32 \<Rightarrow> ('w \<Rightarrow> u32) \<Rightarrow> ('w \<Rightarrow> u32)" where
  "bus_write decode a v c = (case decode a of Some w \<Rightarrow> c(w := v) | None \<Rightarrow> c)"

definition bus_read :: "(u32 \<Rightarrow> 'w option) \<Rightarrow> (u32 \<Rightarrow> u32) \<Rightarrow> u32 \<Rightarrow> ('w \<Rightarrow> u32) \<Rightarrow> u32" where
  "bus_read decode floating a c = (case decode a of Some w \<Rightarrow> c w | None \<Rightarrow> floating a)"

definition UNIT_ADDRESS :: "u32 \<Rightarrow> nat \<Rightarrow> u32" where
  "UNIT_ADDRESS unit_size unit = of_nat unit * unit_size - 4"

definition UNIT_TEST_VALUE :: "nat \<Rightarrow> u32" where
  "UNIT_TEST_VALUE unit = of_nat unit OR push_bit 16 (NOT (of_nat unit))"

fun write_units :: "(u32 \<Rightarrow> 'w option) \<Rightarrow> u32 \<Rightarrow> nat \<Rightarrow> ('w \<Rightarrow> u32) \<Rightarrow> ('w \<Rightarrow> u32)" where
  "write_units decode us 0 c = c"
| "write_units decode us (Suc unit) c =
     write_units decode us unit (bus_write decode (UNIT_ADDRESS us (Suc unit)) (UNIT_TEST_VALUE (Suc unit)) c)"

text \<open>The second loop has \<open>left\<close> units to go and is at unit \<open>unit\<close>.\<close>

fun count_units ::
  "(u32 \<Rightarrow> 'w option) \<Rightarrow> (u32 \<Rightarrow> u32) \<Rightarrow> u32 \<Rightarrow> nat \<Rightarrow> nat \<Rightarrow> u32 \<Rightarrow> ('w \<Rightarrow> u32) \<Rightarrow> u32" where
  "count_units decode floating us 0 unit ram c = ram"
| "count_units decode floating us (Suc left) unit ram c =
     (if bus_read decode floating (UNIT_ADDRESS us unit) c = UNIT_TEST_VALUE unit
      then count_units decode floating us left (Suc unit) (of_nat unit * us) c else ram)"

definition measure_ram_size ::
  "(u32 \<Rightarrow> 'w option) \<Rightarrow> (u32 \<Rightarrow> u32) \<Rightarrow> u32 \<Rightarrow> u32 \<Rightarrow> ('w \<Rightarrow> u32) \<Rightarrow> u32" where
  "measure_ram_size decode floating max_ram unit_size c =
     (let max_units = unat (max_ram div unit_size);
          c = write_units decode unit_size max_units c
      in count_units decode floating unit_size max_units 1 0 c)"

text \<open>What the targets can have: 32 MB on the Q40, 2 MB on the Mini, and on the KISS 256 or 64 MB by a
  jumper.\<close>

definition q40_max_possible :: u32 where "q40_max_possible = push_bit 20 32"
definition mini_max_possible :: u32 where "mini_max_possible = 2 * 1024 * 1024"
definition kiss_max_possible :: "bool \<Rightarrow> u32" where
  "kiss_max_possible double_jumper = push_bit 20 (if double_jumper then 256 else 64)"

definition q40_granularity :: u32 where "q40_granularity = 1024 * 1024"
definition mini_granularity :: u32 where "mini_granularity = 512 * 1024"
definition kiss_granularity :: u32 where "kiss_granularity = 1024 * 1024"

section \<open>The layout\<close>

definition DEFAULT_STACK_SIZE :: u32 where "DEFAULT_STACK_SIZE = 8192"
definition MAXHEAP :: u32 where "MAXHEAP = 0x200000"
definition KISS68030_SRAM_BASE :: u32 where "KISS68030_SRAM_BASE = 0xFFFE0000"

definition dram_layout :: "u32 \<Rightarrow> u32 \<Rightarrow> u32 \<Rightarrow> layout" where
  "dram_layout rom_below bss_end ram =
     (let heap = (if ram div 4 > MAXHEAP then MAXHEAP else ram div 4) in
      \<lparr>ram_size = ram, stack_base = ram - DEFAULT_STACK_SIZE, stack_size = DEFAULT_STACK_SIZE,
       stack_top = ram - DEFAULT_STACK_SIZE + DEFAULT_STACK_SIZE, heap_base = ram - heap,
       heap_size = heap - DEFAULT_STACK_SIZE, bounce_below_addr = (bss_end + 3) AND NOT 3,
       rom_below_addr = rom_below\<rparr>)"

definition q40_mem_init :: "u32 \<Rightarrow> u32 \<Rightarrow> layout" where "q40_mem_init = dram_layout 0x28000"
definition mini_mem_init :: "u32 \<Rightarrow> u32 \<Rightarrow> layout" where "mini_mem_init = dram_layout 0"

definition kiss_mem_init :: "u32 \<Rightarrow> u32 \<Rightarrow> u32 \<Rightarrow> layout" where
  "kiss_mem_init data_start bss_end ram =
     (if data_start \<ge> KISS68030_SRAM_BASE then
        (let top = KISS68030_SRAM_BASE + 0x8000 in
         \<lparr>ram_size = ram, stack_base = top - DEFAULT_STACK_SIZE, stack_size = DEFAULT_STACK_SIZE,
          stack_top = top, heap_base = bss_end, heap_size = top - DEFAULT_STACK_SIZE - bss_end,
          bounce_below_addr = 0, rom_below_addr = 0\<rparr>)
      else (dram_layout 0 bss_end ram)\<lparr>stack_top := ram\<rparr>)"

datatype range_error = Past_end_of_RAM | Overlaps_heap | Overlaps_ROM | Overlaps_gogoboot

definition check_writable_range :: "layout \<Rightarrow> u32 \<Rightarrow> u32 \<Rightarrow> bool \<Rightarrow> range_error option" where
  "check_writable_range l start len can_bounce =
     (if start + len > ram_size l then Some Past_end_of_RAM
      else if start + len > heap_base l then Some Overlaps_heap
      else if start < rom_below_addr l then Some Overlaps_ROM
      else if \<not> can_bounce \<and> start < bounce_below_addr l then Some Overlaps_gogoboot
      else None)"

section \<open>The size found is the size fitted\<close>

lemma unit_value_inj:
  assumes "UNIT_TEST_VALUE i = UNIT_TEST_VALUE j" "i < 65536" "j < 65536"
  shows "i = j"
proof -
  have v: "take_bit 16 (UNIT_TEST_VALUE k) = of_nat k" if "k < 65536" for k
  proof -
    have "take_bit 16 (of_nat k :: u32) = of_nat k" using that by (simp add: take_bit_of_nat take_bit_nat_eq_self)
    then show ?thesis by (simp add: UNIT_TEST_VALUE_def take_bit_or take_bit_push_bit)
  qed
  have "(of_nat i :: u32) = of_nat j" using v [OF assms(2)] v [OF assms(3)] assms(1) by simp
  moreover have "unat (of_nat k :: u32) = k" if "k < 65536" for k using that by (simp add: u32_unat_of_nat)
  ultimately show ?thesis using assms(2,3) by metis
qed

lemma write_units_cell:
  assumes "\<And>i j w. i \<in> {1..n} \<Longrightarrow> j \<in> {1..n} \<Longrightarrow> decode (UNIT_ADDRESS us i) = Some w \<Longrightarrow>
      decode (UNIT_ADDRESS us j) = Some w \<Longrightarrow> i = j"
    and "j \<in> {1..n}" "decode (UNIT_ADDRESS us j) = Some w"
  shows "write_units decode us n c w = UNIT_TEST_VALUE j"
  using assms
proof (induction n arbitrary: c)
  case (Suc n)
  show ?case
  proof (cases "j = Suc n")
    case False
    then show ?thesis using Suc by (auto intro!: Suc.IH)
  next
    case True
    have other: "write_units decode us m c w = c w"
      if "\<And>i. i \<in> {1..m} \<Longrightarrow> decode (UNIT_ADDRESS us i) \<noteq> Some w" for m c
      using that
    proof (induction m arbitrary: c)
      case (Suc m)
      then show ?case by (auto simp: bus_write_def split: option.split)
    qed simp
    have "decode (UNIT_ADDRESS us i) \<noteq> Some w" if "i \<in> {1..n}" for i
      using Suc.prems(1) [of i j w] Suc.prems(2,3) that True by auto
    from other [OF this] Suc.prems(3) True show ?thesis by (simp add: bus_write_def)
  qed
qed simp

lemma write_units_high:
  assumes "\<And>i. i \<in> {n <..units} \<Longrightarrow> P i" "n \<le> units"
  shows "\<exists>c'. write_units decode us units c = write_units decode us n c'"
  using assms(2)
proof (induction units arbitrary: c)
  case (Suc units)
  then show ?case by (cases "n = Suc units") auto
qed auto

lemma count_units_stop:
  assumes "\<And>i. u \<le> i \<Longrightarrow> i \<le> n \<Longrightarrow> bus_read d f (UNIT_ADDRESS us i) c = UNIT_TEST_VALUE i"
    and "u + k = Suc units" "u \<le> Suc n" "n \<le> units" "n < units \<Longrightarrow> bus_read d f (UNIT_ADDRESS us (Suc n)) c \<noteq> UNIT_TEST_VALUE (Suc n)"
    and "ram = of_nat (u - 1) * us" "1 \<le> u"
  shows "count_units d f us k u ram c = of_nat n * us"
  using assms
proof (induction k arbitrary: u ram)
  case 0
  then have "u - 1 = n" by simp
  with 0 show ?case by simp
next
  case (Suc k)
  show ?case
  proof (cases "u = Suc n")
    case True
    with Suc.prems show ?thesis by (auto simp: not_less_eq_eq)
  next
    case False
    with Suc.prems have "bus_read d f (UNIT_ADDRESS us u) c = UNIT_TEST_VALUE u" by simp
    with Suc False show ?thesis by (auto intro!: Suc.IH)
  qed
qed

text \<open>The RAM is measured right, mirrored or not. If \<open>n\<close> units of RAM are fitted (the words probed in
  them are distinct), and every unit above is either a mirror of one below or answers with something
  else than the test pattern, the size found is \<open>n\<close> units, whatever the RAM held.\<close>

theorem ram_measured:
  assumes "unat (max_ram div unit_size) = units" "units < 65536" "n \<le> units"
    and fitted: "\<And>i. i \<in> {1..n} \<Longrightarrow> decode (UNIT_ADDRESS unit_size i) \<noteq> None"
      "\<And>i j. i \<in> {1..n} \<Longrightarrow> j \<in> {1..n} \<Longrightarrow> decode (UNIT_ADDRESS unit_size i) = decode (UNIT_ADDRESS unit_size j) \<Longrightarrow> i = j"
    and above: "\<And>i. i \<in> {n<..units} \<Longrightarrow>
      (\<exists>j \<in> {1..n}. decode (UNIT_ADDRESS unit_size i) = decode (UNIT_ADDRESS unit_size j)) \<or>
      decode (UNIT_ADDRESS unit_size i) = None \<and> floating (UNIT_ADDRESS unit_size i) \<noteq> UNIT_TEST_VALUE i"
  shows "measure_ram_size decode floating max_ram unit_size c = of_nat n * unit_size"
proof -
  let ?c = "write_units decode unit_size units c"
  obtain c' where c': "?c = write_units decode unit_size n c'"
    using write_units_high [of n units "\<lambda>_. True" decode unit_size c] assms(3) by blast
  have cell: "?c w = UNIT_TEST_VALUE j" if "j \<in> {1..n}" "decode (UNIT_ADDRESS unit_size j) = Some w" for j w
    unfolding c' using fitted(2) that by (intro write_units_cell) auto
  have low: "bus_read decode floating (UNIT_ADDRESS unit_size i) ?c = UNIT_TEST_VALUE i" if "1 \<le> i" "i \<le> n" for i
    using fitted(1) [of i] cell [of i] that by (auto simp: bus_read_def)
  have high: "bus_read decode floating (UNIT_ADDRESS unit_size (Suc n)) ?c \<noteq> UNIT_TEST_VALUE (Suc n)" if "n < units"
  proof -
    from above [of "Suc n"] that consider j where "j \<in> {1..n}"
        "decode (UNIT_ADDRESS unit_size (Suc n)) = decode (UNIT_ADDRESS unit_size j)"
      | "decode (UNIT_ADDRESS unit_size (Suc n)) = None" "floating (UNIT_ADDRESS unit_size (Suc n)) \<noteq> UNIT_TEST_VALUE (Suc n)"
      by auto
    then show ?thesis
    proof cases
      case 1
      then have "bus_read decode floating (UNIT_ADDRESS unit_size (Suc n)) ?c = UNIT_TEST_VALUE j"
        using fitted(1) [of j] cell [of j] by (auto simp: bus_read_def)
      moreover have "UNIT_TEST_VALUE j \<noteq> UNIT_TEST_VALUE (Suc n)"
        using unit_value_inj [of j "Suc n"] 1(1) assms(2) that by auto
      ultimately show ?thesis by simp
    qed (simp add: bus_read_def)
  qed
  show ?thesis
    unfolding measure_ram_size_def Let_def assms(1)
    by (rule count_units_stop [where units = units]) (use low high assms(3) in auto)
qed

text \<open>One megabyte mirrored through four.\<close>

theorem ram_measured_witness:
  "measure_ram_size (\<lambda>a. Some (a AND 0xFFFFF)) (\<lambda>_. 0) 0x400000 0x100000 (\<lambda>_. 7) = 0x100000"
proof -
  have "measure_ram_size (\<lambda>a. Some (a AND 0xFFFFF)) (\<lambda>_. 0) 0x400000 0x100000 (\<lambda>_. 7) = of_nat 1 * (0x100000 :: u32)"
  proof (rule ram_measured [where units = 4])
    fix i :: nat assume "i \<in> {1<..4}"
    then have "i = 2 \<or> i = 3 \<or> i = 4" by auto
    then have "Some (UNIT_ADDRESS 0x100000 i AND 0xFFFFF) = Some (UNIT_ADDRESS 0x100000 1 AND 0xFFFFF)"
      by (auto simp: UNIT_ADDRESS_def)
    then show "(\<exists>j \<in> {1..1}. Some (UNIT_ADDRESS 0x100000 i AND 0xFFFFF) = Some (UNIT_ADDRESS 0x100000 j AND 0xFFFFF)) \<or>
        Some (UNIT_ADDRESS 0x100000 i AND 0xFFFFF) = None \<and> 0 \<noteq> UNIT_TEST_VALUE i" by simp
  qed simp_all
  then show ?thesis by simp
qed

section \<open>Heap, stack and loadable memory\<close>

text \<open>C33. The memory map and its guard. On the targets whose program runs in main memory, with at least
  64 KiB fitted, the heap and the stack lie at the end of the RAM, one after the other and both non-empty;
  and the guard of every load and every memory command accepts exactly the ranges, of those that do not
  run past the address space, that start above the ROM (and, unless the range may bounce, above
  gogoboot itself) and end before the heap, so before the stack and the end of the RAM.\<close>

theorem layout_guarded:
  assumes "l = q40_mem_init bss_end ram \<or> l = mini_mem_init bss_end ram \<or>
      l = kiss_mem_init data_start bss_end ram \<and> data_start < KISS68030_SRAM_BASE"
    and "0x10000 \<le> unat ram" and "unat start + unat len < 2 ^ 32"
  shows "unat (heap_base l) + unat (heap_size l) = unat (stack_base l) \<and> 0 < heap_size l \<and>
    unat (stack_base l) + unat (stack_size l) = unat (stack_top l) \<and> stack_top l = ram \<and> 0 < stack_size l \<and>
    (check_writable_range l start len can_bounce = None \<longleftrightarrow>
      rom_below_addr l \<le> start \<and> (can_bounce \<or> bounce_below_addr l \<le> start) \<and>
      unat start + unat len \<le> unat (heap_base l))"
proof -
  define h where "h = (if ram div 4 > MAXHEAP then MAXHEAP else ram div 4)"
  have l: "ram_size l = ram" "heap_base l = ram - h" "heap_size l = h - 8192" "stack_base l = ram - 8192"
    "stack_size l = 8192" "stack_top l = ram"
    using assms(1) by (auto simp: q40_mem_init_def mini_mem_init_def kiss_mem_init_def dram_layout_def Let_def h_def
        DEFAULT_STACK_SIZE_def)
  have q: "unat (ram div 4) = unat ram div 4" by (simp add: unat_div)
  have h: "unat h = min (unat ram div 4) 0x200000"
    using q by (auto simp: h_def MAXHEAP_def word_less_nat_alt min_def)
  have hb: "0x4000 \<le> unat h" "unat h \<le> unat ram" using h assms(2) by auto
  have s: "unat (ram - h) = unat ram - unat h" "unat (h - 8192) = unat h - 8192" "unat (ram - 8192) = unat ram - 8192"
    using hb assms(2) by (simp_all add: u32_unat_sub word_le_nat_alt)
  have w: "unat (start + len) = unat start + unat len" using assms(3) by (simp add: u32_unat_add)
  have "check_writable_range l start len can_bounce = None \<longleftrightarrow>
      rom_below_addr l \<le> start \<and> (can_bounce \<or> bounce_below_addr l \<le> start) \<and> unat start + unat len \<le> unat (heap_base l)"
    unfolding check_writable_range_def l(1,2) using w s(1) hb
    by (auto simp: word_less_nat_alt word_le_nat_alt)
  then show ?thesis using l s hb assms(2) by (auto simp: word_less_nat_alt)
qed

theorem layout_guarded_witness:
  "unat (heap_base (q40_mem_init 0x30001 0x2000000)) = 0x1E00000 \<and>
   check_writable_range (q40_mem_init 0x30001 0x2000000) 0x200000 0x1000 False = None \<and>
   check_writable_range (q40_mem_init 0x30001 0x2000000) 0x30000 0x1000 False \<noteq> None"
proof -
  have b: "heap_base (q40_mem_init 0x30001 0x2000000) = 0x1E00000"
    "bounce_below_addr (q40_mem_init 0x30001 0x2000000) = 0x30004" "rom_below_addr (q40_mem_init 0x30001 0x2000000) = 0x28000"
    by (simp_all add: q40_mem_init_def dram_layout_def MAXHEAP_def)
  from layout_guarded [of "q40_mem_init 0x30001 0x2000000" "0x30001" "0x2000000" 0 "0x200000" "0x1000" False]
    layout_guarded [of "q40_mem_init 0x30001 0x2000000" "0x30001" "0x2000000" 0 "0x30000" "0x1000" False]
  show ?thesis by (simp add: b)
qed

text \<open>A range that runs past the end of the address space passes the guard.\<close>

lemma guard_wraps: "check_writable_range (q40_mem_init 0x30001 0x2000000) 0xFFFFF000 0x2000 False = None"
  by (simp add: check_writable_range_def q40_mem_init_def dram_layout_def MAXHEAP_def)

end
