(* ===== verification/Loader.thy ===== *)
theory Loader
  imports Mem MemOps Heap_Safety CString "HOL-Library.Monad_Syntax"
begin

text \<open>
  The program loader, \<^verbatim>\<open>core/loader.c\<close>, on the flat memory and the heap of theories \<open>MemOps\<close> and
  \<open>Tinyalloc\<close>. The file system is the vendored FatFs: \<open>f_lseek\<close>, \<open>f_read\<close>, \<open>f_open\<close> and
  \<open>f_size\<close> are parameters, on an opaque type of open files; a read returns its result code and the bytes
  it stored. The target selects constants at compile time (record \<open>target\<close>). \<open>None\<close> is a halt on
  exhausted memory or a loop that never ends. Leaving for the loaded program is the outcome
  \<open>Entered\<close>; the assembly behind it, which copies the bounce buffer over its target range and jumps, is
  described by \<open>image\<close>. Messages are left out.
\<close>

type_synonym fresult = nat
definition FR_OK :: fresult where "FR_OK = 0"
definition FR_DISK_ERR :: fresult where "FR_DISK_ERR = 1"

record 'f fatfs =
  f_lseek :: "'f \<Rightarrow> u32 \<Rightarrow> fresult \<times> 'f"
  f_read :: "'f \<Rightarrow> u32 \<Rightarrow> fresult \<times> u8 list \<times> 'f"
  f_size :: "'f \<Rightarrow> u32"
  f_open :: "cbytes \<Rightarrow> fresult \<times> 'f"

record loader =
  lheap :: heap
  lmem :: memory
  lay :: layout
  loader_scratch_space :: u32
  loader_bounce_buffer_data :: u32
  loader_bounce_buffer_size :: u32
  loader_bounce_buffer_target :: u32

definition store :: "u32 \<Rightarrow> u8 list \<Rightarrow> memory \<Rightarrow> memory" where
  "store a bs m = (\<lambda>x. if unat (x - a) < length bs then bs ! unat (x - a) else m x)"

definition mem16 :: "memory \<Rightarrow> u32 \<Rightarrow> u16" where "mem16 m a = be16 (m a) (m (a + 1))"
definition mem32 :: "memory \<Rightarrow> u32 \<Rightarrow> u32" where
  "mem32 m a = be32 (m a) (m (a + 1)) (m (a + 2)) (m (a + 3))"

section \<open>The bounce buffer\<close>

text \<open>An \<open>int\<close> made from the difference of two addresses, cut off at zero and rounded up to whole words.\<close>

definition whole_words :: "u32 \<Rightarrow> u32" where
  "whole_words d = ((if sint d < 0 then 0 else d) + 3) AND NOT 3"

definition bounce_expand :: "u32 \<Rightarrow> u32 \<Rightarrow> loader \<Rightarrow> loader option" where
  "bounce_expand paddr bounce_size s =
     (if loader_bounce_buffer_data s \<noteq> 0 then
        (let below = whole_words (loader_bounce_buffer_target s - paddr);
             above = whole_words ((paddr + bounce_size) -
               (loader_bounce_buffer_target s + loader_bounce_buffer_size s)) in
         if below \<noteq> 0 \<or> above \<noteq> 0 then do {
           let newsize = loader_bounce_buffer_size s + below + above;
           (data, h, m) \<leftarrow> realloc (loader_bounce_buffer_data s) newsize (lheap s, lmem s);
           let s = s\<lparr>lheap := h, lmem := m, loader_bounce_buffer_data := data\<rparr>;
           let s = (if below \<noteq> 0 then
               s\<lparr>lmem := memmove data (data + below) (loader_bounce_buffer_size s) (lmem s),
                 loader_bounce_buffer_target := loader_bounce_buffer_target s - below\<rparr> else s);
           Some (s\<lparr>loader_bounce_buffer_size := newsize\<rparr>) }
         else Some s)
      else do {
        (scratch, h) \<leftarrow> malloc 128 (lheap s);
        let size = (bounce_size + (paddr AND 3) + 3) AND NOT 3;
        (data, h) \<leftarrow> malloc size h;
        Some (s\<lparr>lheap := h, loader_scratch_space := scratch,
          loader_bounce_buffer_target := paddr AND NOT 3, loader_bounce_buffer_size := size,
          loader_bounce_buffer_data := data\<rparr>) })"

section \<open>Loading data\<close>

text \<open>The same steps load the bouncing and the direct part: the bytes the file still has, then zeroes up
  to the end of the part. The result carries the bytes of the file not yet used.\<close>

definition load_part ::
  "'f fatfs \<Rightarrow> 'f \<Rightarrow> u32 \<Rightarrow> u32 \<Rightarrow> u32 \<Rightarrow> u32 \<Rightarrow> loader \<Rightarrow> fresult \<times> 'f \<times> loader \<times> u32" where
  "load_part fs fd to offset part file_size s =
     (let (pad_size, load_size) = (if part > file_size then (part - file_size, file_size) else (0, part));
          pad = (\<lambda>s. if pad_size \<noteq> 0 then s\<lparr>lmem := memset (to + load_size) 0 pad_size (lmem s)\<rparr> else s) in
      if load_size \<noteq> 0 then
        (case f_lseek fs fd offset of (fr, fd) \<Rightarrow>
           if fr \<noteq> FR_OK then (fr, fd, s, file_size)
           else (case f_read fs fd load_size of (fr, bs, fd) \<Rightarrow>
             let s = s\<lparr>lmem := store to bs (lmem s)\<rparr> in
             if fr \<noteq> FR_OK then (fr, fd, s, file_size)
             else if of_nat (length bs) \<noteq> load_size then (FR_DISK_ERR, fd, s, file_size)
             else (FR_OK, fd, pad s, file_size - load_size)))
      else (FR_OK, fd, pad s, file_size))"

definition load_data ::
  "'f fatfs \<Rightarrow> 'f \<Rightarrow> u32 \<Rightarrow> u32 \<Rightarrow> u32 \<Rightarrow> u32 \<Rightarrow> loader \<Rightarrow> (fresult \<times> 'f \<times> loader) option" where
  "load_data fs fd paddr offset file_size memsz s =
     (if check_writable_range (lay s) paddr memsz True \<noteq> None then Some (FR_DISK_ERR, fd, s)
      else
        let below = bounce_below_addr (lay s);
            (bounce_size, direct_size) =
              (if paddr < below then
                 (if below - paddr \<ge> memsz then (memsz, 0) else (below - paddr, memsz - (below - paddr)))
               else (0, memsz)) in do {
        (fr, fd, s, file_size) \<leftarrow>
          (if bounce_size \<noteq> 0 then do {
             s \<leftarrow> bounce_expand paddr bounce_size s;
             let bounce_addr = paddr - loader_bounce_buffer_target s;
             Some (load_part fs fd (loader_bounce_buffer_data s + bounce_addr) offset bounce_size file_size s) }
           else Some (FR_OK, fd, s, file_size));
        if fr \<noteq> FR_OK then Some (fr, fd, s)
        else if direct_size \<noteq> 0 then
          (case load_part fs fd (paddr + bounce_size) (offset + bounce_size) direct_size file_size s of
             (fr, fd, s, file_size) \<Rightarrow> Some (fr, fd, s))
        else Some (FR_OK, fd, s) })"

section \<open>Leaving for the program\<close>

datatype outcome = Returned bool | Entered u32 u32 u32

text \<open>The arguments, joined by blanks, are copied to the heap.\<close>

fun join_args :: "cbytes list \<Rightarrow> u32 \<Rightarrow> bool \<Rightarrow> memory \<Rightarrow> (u32 \<times> memory) option" where
  "join_args [] to first m = Some (to, m)"
| "join_args (a # as) to first m =
     (let (to, m) = (if first then (to, m) else (to + 1, m(to := 0x20))) in do {
        len \<leftarrow> strlen a;
        join_args as (to + len) False (store to (take (unat len) a) m) })"

fun args_length :: "cbytes list \<Rightarrow> u32 \<Rightarrow> u32 option" where
  "args_length [] n = Some n"
| "args_length (a # as) n = do { len \<leftarrow> strlen a; args_length as (n + (len + 1)) }"

definition execute :: "u32 \<Rightarrow> cbytes list \<Rightarrow> loader \<Rightarrow> (outcome \<times> loader) option" where
  "execute entry_vector argv s = do {
     (cmdbuf, s) \<leftarrow>
       (if argv \<noteq> [] then do {
          cmdlen \<leftarrow> args_length argv 1;
          (buf, h) \<leftarrow> malloc cmdlen (lheap s);
          (end, m) \<leftarrow> join_args argv buf True (lmem s);
          Some (buf, s\<lparr>lheap := h, lmem := m(end := 0)\<rparr>) }
        else Some (0, s));
     Some (Entered entry_vector (ram_size (lay s)) cmdbuf, s) }"

definition load_m68k_executable ::
  "'f fatfs \<Rightarrow> cbytes list \<Rightarrow> 'f \<Rightarrow> loader \<Rightarrow> (outcome \<times> loader) option" where
  "load_m68k_executable fs argv fd s = do {
     (fr, fd', s) \<leftarrow> load_data fs fd 0x200000 0 (f_size fs fd) (f_size fs fd) s;
     if fr \<noteq> FR_OK then Some (Returned False, s)
     else execute 0x200000 (tl argv) s }"

section \<open>ELF files\<close>

record target =
  exec_load_address :: u32
  is_mach :: bool
  mach_this :: u32
  booti_version_this :: u32
  cpu_this :: u32
  mmu_this :: u32
  fpu_this :: u32
  limits_chunk :: bool

text \<open>The three targets: the Mini has no Linux support; the Q40 keeps Linux above its load address.\<close>

definition mini_target :: target where
  "mini_target = \<lparr>exec_load_address = 0, is_mach = False, mach_this = 0, booti_version_this = 0,
     cpu_this = 0, mmu_this = 0, fpu_this = 0, limits_chunk = False\<rparr>"

definition kiss_target :: target where
  "kiss_target = \<lparr>exec_load_address = 0, is_mach = True, mach_this = 1653, booti_version_this = 0x20000,
     cpu_this = 2, mmu_this = 2, fpu_this = 0, limits_chunk = False\<rparr>"

definition q40_target :: target where
  "q40_target = \<lparr>exec_load_address = 256 * 1024, is_mach = True, mach_this = 10, booti_version_this = 0x20000,
     cpu_this = 4, mmu_this = 4, fpu_this = 4, limits_chunk = True\<rparr>"

text \<open>The header is 52 bytes; its fields by their offsets.\<close>

definition field16 :: "u8 list \<Rightarrow> nat \<Rightarrow> u16" where "field16 h i = be16 (h ! i) (h ! (i + 1))"
definition field32 :: "u8 list \<Rightarrow> nat \<Rightarrow> u32" where
  "field32 h i = be32 (h ! i) (h ! (i + 1)) (h ! (i + 2)) (h ! (i + 3))"

definition good_header :: "u8 list \<Rightarrow> bool" where
  "good_header h \<longleftrightarrow> take 4 h = [0x7F, 0x45, 0x4C, 0x46] \<and> h ! 6 = 1 \<and>
     h ! 4 = 1 \<and> h ! 5 = 2 \<and> h ! 7 = 0 \<and> h ! 8 = 0 \<and>
     field16 h 16 = 2 \<and> field16 h 18 = 4"

record segment =
  p_type :: u32
  p_offset :: u32
  p_paddr :: u32
  p_filesz :: u32
  p_memsz :: u32

definition segment_at :: "memory \<Rightarrow> u32 \<Rightarrow> segment" where
  "segment_at m a = \<lparr>p_type = mem32 m a, p_offset = mem32 m (a + 4), p_paddr = mem32 m (a + 12),
     p_filesz = mem32 m (a + 16), p_memsz = mem32 m (a + 20)\<rparr>"

definition PT_LOAD :: u32 where "PT_LOAD = 1"
definition PT_DYNAMIC :: u32 where "PT_DYNAMIC = 2"
definition PT_INTERP :: u32 where "PT_INTERP = 3"
definition PT_SHLIB :: u32 where "PT_SHLIB = 5"

text \<open>The first pass: \<open>None\<close> is an executable that cannot be loaded, else the lowest and the highest
  address, over the headers \<open>a\<close>, \<open>a + entsize\<close> and so on.\<close>

fun scan_segments :: "memory \<Rightarrow> u32 \<Rightarrow> u32 \<Rightarrow> nat \<Rightarrow> u32 \<times> u32 \<Rightarrow> (u32 \<times> u32) option" where
  "scan_segments m a entsize 0 lohi = Some lohi"
| "scan_segments m a entsize (Suc n) lohi =
     (let p = segment_at m a in
      if p_type p = PT_SHLIB \<or> p_type p = PT_DYNAMIC \<or> p_type p = PT_INTERP then None
      else scan_segments m (a + entsize) entsize n
        (if p_type p = PT_LOAD then
           (if p_paddr p < fst lohi then p_paddr p else fst lohi,
            if p_paddr p + p_memsz p > snd lohi then p_paddr p + p_memsz p else snd lohi)
         else lohi))"

text \<open>The second pass.\<close>

fun load_segments ::
  "'f fatfs \<Rightarrow> u32 \<Rightarrow> u32 \<Rightarrow> u32 \<Rightarrow> nat \<Rightarrow> 'f \<Rightarrow> loader \<Rightarrow> (bool \<times> 'f \<times> loader) option" where
  "load_segments fs load_offset a entsize 0 fd s = Some (True, fd, s)"
| "load_segments fs load_offset a entsize (Suc n) fd s =
     (let p = segment_at (lmem s) a in
      if p_type p = PT_LOAD then do {
        (fr, fd, s) \<leftarrow> load_data fs fd (load_offset + p_paddr p) (p_offset p) (p_filesz p) (p_memsz p) s;
        if fr \<noteq> FR_OK then Some (False, fd, s) else load_segments fs load_offset (a + entsize) entsize n fd s }
      else load_segments fs load_offset (a + entsize) entsize n fd s)"

section \<open>Linux kernels\<close>

definition BOOTINFOV_MAGIC :: u32 where "BOOTINFOV_MAGIC = 0x4249561A"

definition find_bootver :: "memory \<Rightarrow> u32 \<Rightarrow> u32 option" where
  "find_bootver m a =
     (if mem32 m (a + 2) = BOOTINFOV_MAGIC then Some a
      else if mem32 m (a + 0x1000 + 2) = BOOTINFOV_MAGIC then Some (a + 0x1000) else None)"

text \<open>The list of supported machines ends with a zero; without one within \<open>2^29\<close> entries the search has
  been all around the memory.\<close>

function machine_supported :: "target \<Rightarrow> memory \<Rightarrow> u32 \<Rightarrow> nat \<Rightarrow> bool option" where
  "machine_supported t m bootver i =
     (if i < 2 ^ 29 then
        (let a = bootver + 6 + of_nat (8 * i) in
         if mem32 m a = 0 then Some False
         else if mem32 m a = mach_this t then Some (mem32 m (a + 4) = booti_version_this t)
         else machine_supported t m bootver (i + 1))
      else None)"
  by pat_completeness auto
termination by (relation "measure (\<lambda>(t, m, b, i). 2 ^ 29 - i)") auto

declare machine_supported.simps [simp del]

text \<open>A record of the boot information and the address behind it.\<close>

definition put_record :: "u16 \<Rightarrow> u8 list \<Rightarrow> u32 \<times> memory \<Rightarrow> u32 \<times> memory" where
  "put_record tag data am =
     (fst am + of_nat (4 + length data), store (fst am) (bytes16 tag @ bytes16 (of_nat (4 + length data)) @ data) (snd am))"

definition mem_chunk :: "target \<Rightarrow> u32 \<Rightarrow> u8 list" where
  "mem_chunk t ram =
     (if limits_chunk t then
        bytes32 (exec_load_address t) @
        bytes32 (if ram > 32 * 1024 * 1024 then 32 * 1024 * 1024 - exec_load_address t else ram - exec_load_address t)
      else bytes32 0 @ bytes32 ram)"

definition MAXCMDLEN :: u32 where "MAXCMDLEN = 200"

definition initrd_arg :: cbytes where "initrd_arg = [0x69, 0x6E, 0x69, 0x74, 0x72, 0x64, 0x3D, 0]"

text \<open>The loop over the arguments: the name given as \<open>initrd=\<close>, the others collected in the buffer.\<close>

fun kernel_args :: "cbytes list \<Rightarrow> cbytes option \<Rightarrow> cbytes \<Rightarrow> (cbytes option \<times> cbytes) option" where
  "kernel_args [] initrd buf = Some (initrd, buf)"
| "kernel_args (a # as) initrd buf = do {
     c \<leftarrow> strncasecmp 7 a initrd_arg;
     if c = 0 then kernel_args as (Some (drop 7 a)) buf
     else do {
       buf \<leftarrow> (if hd buf \<noteq> 0 then strncat buf [0x20, 0] MAXCMDLEN else Some buf);
       buf \<leftarrow> strncat buf a MAXCMDLEN;
       kernel_args as initrd buf } }"

text \<open>What follows the five fixed records. \<open>stack\<close> is the uninitialised rest of the 201-byte buffer, and
  \<open>behind\<close> the bytes after it, which the rounded-up copy can reach. The flag is false when the initial RAM
  disk cannot be loaded.\<close>

definition command_line_record :: "cbytes \<Rightarrow> u8 list \<Rightarrow> u32 \<times> memory \<Rightarrow> (u32 \<times> memory) option" where
  "command_line_record buf behind am = do {
     len \<leftarrow> strlen buf;
     let i = (len + 1 + 3) AND NOT 3;
     Some (put_record 7 (take (unat i) (buf @ behind)) am) }"

definition initrd_record ::
  "'f fatfs \<Rightarrow> cbytes option \<Rightarrow> u32 \<times> memory \<Rightarrow> bool \<times> u32 \<times> memory" where
  "initrd_record fs initrd_name am =
     (case initrd_name of
        None \<Rightarrow> (True, am)
      | Some name \<Rightarrow>
          (case f_open fs name of (fr, initrd) \<Rightarrow>
             if fr \<noteq> FR_OK then (False, am)
             else
               let addr = ((fst am + 0xFFF) AND NOT 0xFFF) + 0x100000;
                   len = f_size fs initrd;
                   (end, m) = put_record 6 (bytes32 addr @ bytes32 len) am
               in (case f_read fs initrd len of (fr, bs, _) \<Rightarrow>
                     let m = store addr bs m in
                     if fr \<noteq> FR_OK \<or> of_nat (length bs) \<noteq> len then (False, fst am, m) else (True, end, m))))"

definition put_bootinfo ::
  "target \<Rightarrow> 'f fatfs \<Rightarrow> u32 \<Rightarrow> cbytes list \<Rightarrow> u8 list \<Rightarrow> u8 list \<Rightarrow> u32 \<Rightarrow> memory \<Rightarrow> (bool \<times> memory) option" where
  "put_bootinfo t fs ram argv stack behind a m = do {
     let am = put_record 1 (bytes32 (mach_this t)) (a, m);
     let am = put_record 2 (bytes32 (cpu_this t)) am;
     let am = put_record 4 (bytes32 (mmu_this t)) am;
     let am = put_record 3 (bytes32 (fpu_this t)) am;
     let am = put_record 5 (mem_chunk t ram) am;
     (initrd, buf) \<leftarrow> kernel_args (tl argv) None (0 # take 200 stack);
     am \<leftarrow> command_line_record buf behind am;
     (case initrd_record fs initrd am of (ok, am) \<Rightarrow>
        if \<not> ok then Some (False, snd am) else Some (True, snd (put_record 0 [] am))) }"

text \<open>The kernel's version record is looked for where the lowest segment is now.\<close>

definition prepare_linux ::
  "target \<Rightarrow> 'f fatfs \<Rightarrow> u32 \<Rightarrow> u32 \<Rightarrow> cbytes list \<Rightarrow> u8 list \<Rightarrow> u8 list \<Rightarrow> loader \<Rightarrow>
   (bool \<times> bool \<times> loader) option" where
  "prepare_linux t fs min_load_addr max_load_addr argv stack behind s =
     (case find_bootver (lmem s)
        (if min_load_addr < bounce_below_addr (lay s) then loader_bounce_buffer_data s else min_load_addr) of
        None \<Rightarrow> Some (True, False, s)
      | Some bootver \<Rightarrow> do {
          ok \<leftarrow> machine_supported t (lmem s) bootver 0;
          if \<not> ok then Some (False, True, s)
          else
            let bootinfo = (max_load_addr + 0xFFF) AND NOT 0xFFF in
            if bootinfo < bounce_below_addr (lay s) then Some (False, True, s)
            else do {
              (ok, m) \<leftarrow> put_bootinfo t fs (ram_size (lay s)) argv stack behind bootinfo (lmem s);
              Some (ok, True, s\<lparr>lmem := m\<rparr>) } })"

section \<open>Loading an ELF file\<close>

text \<open>The program headers are read with a null pointer for the count of bytes read, through which the
  file system stores that count at address 0.\<close>

definition read_headers ::
  "'f fatfs \<Rightarrow> 'f \<Rightarrow> u32 \<Rightarrow> u32 \<Rightarrow> u32 \<Rightarrow> loader \<Rightarrow> fresult \<times> 'f \<times> loader" where
  "read_headers fs fd phoff data len s =
     (case f_lseek fs fd phoff of (fr, fd) \<Rightarrow>
        if fr \<noteq> FR_OK then (fr, fd, s)
        else (case f_read fs fd len of (fr, bs, fd) \<Rightarrow>
          (fr, fd, s\<lparr>lmem := store 0 (bytes32 (of_nat (length bs))) (store data bs (lmem s))\<rparr>)))"

definition load_image ::
  "target \<Rightarrow> 'f fatfs \<Rightarrow> u32 \<Rightarrow> u32 \<Rightarrow> nat \<Rightarrow> 'f \<Rightarrow> loader \<Rightarrow> ((u32 \<times> u32 \<times> u32) option \<times> loader) option" where
  "load_image t fs data entsize phnum fd s =
     (case scan_segments (lmem s) data entsize phnum (0xFFFFFFFF, 0) of
        None \<Rightarrow> Some (None, s\<lparr>lheap := free data (lheap s)\<rparr>)
      | Some (lo, hi) \<Rightarrow>
          let load_offset = (if lo < rom_below_addr (lay s) then exec_load_address t else 0);
              lo = lo + load_offset; hi = hi + load_offset in
          if check_writable_range (lay s) lo (hi - lo) True \<noteq> None
          then Some (None, s\<lparr>lheap := free data (lheap s)\<rparr>)
          else do {
            (ok, fd, s) \<leftarrow> load_segments fs load_offset data entsize phnum fd s;
            let s = s\<lparr>lheap := free data (lheap s)\<rparr>;
            Some (if ok then Some (load_offset, lo, hi) else None, s) })"

definition load_elf_executable ::
  "target \<Rightarrow> 'f fatfs \<Rightarrow> cbytes list \<Rightarrow> u8 list \<Rightarrow> u8 list \<Rightarrow> 'f \<Rightarrow> loader \<Rightarrow> (outcome \<times> loader) option" where
  "load_elf_executable t fs argv stack behind fd s =
     (case f_read fs (snd (f_lseek fs fd 0)) 52 of (fr, header, fd) \<Rightarrow>
        if fr \<noteq> FR_OK \<or> length header \<noteq> 52 \<or> \<not> good_header header then Some (Returned False, s)
        else
          let entsize = ucast (field16 header 42); phnum = unat (field16 header 44);
              len = entsize * of_nat phnum in do {
          (data, h) \<leftarrow> malloc len (lheap s);
          case read_headers fs fd (field32 header 28) data len (s\<lparr>lheap := h\<rparr>) of (fr, fd, s) \<Rightarrow>
            if fr \<noteq> FR_OK then Some (Returned False, s\<lparr>lheap := free data (lheap s)\<rparr>)
            else do {
              (loaded, s) \<leftarrow> load_image t fs data entsize phnum fd s;
              case loaded of
                None \<Rightarrow> Some (Returned False, s)
              | Some (load_offset, lo, hi) \<Rightarrow> do {
                  (ok, linux, s) \<leftarrow> (if is_mach t then prepare_linux t fs lo hi argv stack behind s
                                  else Some (True, False, s));
                  if \<not> ok then Some (Returned False, s)
                  else execute (field32 header 24 + load_offset) (if linux then [] else tl argv) s } } })"

section \<open>What the jump finds\<close>

text \<open>The memory the loaded program starts in: \<open>machine_execute\<close> copies the bounce buffer over its target.\<close>

definition image :: "loader \<Rightarrow> memory" where
  "image s = (\<lambda>a.
     if loader_bounce_buffer_data s \<noteq> 0 \<and> unat (a - loader_bounce_buffer_target s) < unat (loader_bounce_buffer_size s)
     then lmem s (loader_bounce_buffer_data s + (a - loader_bounce_buffer_target s)) else lmem s a)"

end
