(* ===== verification/Boot.thy ===== *)
theory Boot
  imports Loader
begin

text \<open>
  The start of the firmware, \<^verbatim>\<open>core/boot.c\<close>: the heap it sets up in the memory layout of theory
  \<open>Mem\<close>, the sizes it reports, and the state the loader starts in. The other initialisations belong to
  the drivers; the messages are reduced to the numbers they show.
\<close>

section \<open>The heap\<close>

definition heap_blocks :: "layout \<Rightarrow> u32" where
  "heap_blocks l = (if heap_size l > 200 * 1024 then 2048 else 256)"

definition heap_init :: "layout \<Rightarrow> heap" where
  "heap_init l = ta_init (heap_base l) (heap_base l + heap_size l - 1) (heap_blocks l) 16 4"

section \<open>Sizes\<close>

datatype size_unit = KB | MB

text \<open>Tenths of the unit, to the nearest.\<close>

definition report_segment :: "int \<Rightarrow> int \<times> size_unit" where
  "report_segment sz =
     (let (dec, u) = (if sz \<ge> 1024 * 1024 then (drop_bit 10 sz, MB) else (sz, KB)) in
      (drop_bit 10 (dec * 10 + 512), u))"

definition free_ram_top :: "layout \<Rightarrow> u32" where
  "free_ram_top l = (if heap_base l > ram_size l then ram_size l else heap_base l)"

definition report_ram_installed :: "u32 \<Rightarrow> u32 \<times> size_unit" where
  "report_ram_installed ram =
     (let (shift, u) = (if ram \<ge> 8 * 1024 * 1024 then (20, MB) else (10, KB)) in
      (drop_bit shift (ram + push_bit shift 1 - 1), u))"

lemma report_segment_rounds:
  assumes "0 \<le> sz" "sz < 1024 * 1024"
  shows "\<bar>1024 * fst (report_segment sz) - 10 * sz\<bar> \<le> 512"
proof -
  have "fst (report_segment sz) = (sz * 10 + 512) div 1024"
    using assms by (simp add: report_segment_def drop_bit_eq_div)
  moreover note div_mult_mod_eq [of "sz * 10 + 512" 1024]
  moreover have "0 \<le> (sz * 10 + 512) mod 1024" "(sz * 10 + 512) mod 1024 < 1024" by simp_all
  ultimately show ?thesis by linarith
qed

lemma report_segment_MB:
  assumes "1024 * 1024 \<le> sz"
  shows "1048576 * fst (report_segment sz) - 10 * sz \<le> 524288 \<and> 10 * sz - 1048576 * fst (report_segment sz) < 534528"
proof -
  have "fst (report_segment sz) = (sz div 1024 * 10 + 512) div 1024"
    using assms by (simp add: report_segment_def drop_bit_eq_div)
  moreover note div_mult_mod_eq [of "sz div 1024 * 10 + 512" 1024] div_mult_mod_eq [of sz 1024]
  moreover have "0 \<le> (sz div 1024 * 10 + 512) mod 1024" "(sz div 1024 * 10 + 512) mod 1024 < 1024"
    "0 \<le> sz mod 1024" "sz mod 1024 < 1024" by simp_all
  ultimately show ?thesis by linarith
qed

section \<open>The first state of the loader\<close>

definition boot_loader :: "layout \<Rightarrow> memory \<Rightarrow> loader" where
  "boot_loader l m = \<lparr>lheap = heap_init l, lmem = m, lay = l, loader_scratch_space = 0,
     loader_bounce_buffer_data = 0, loader_bounce_buffer_size = 0, loader_bounce_buffer_target = 0\<rparr>"

text \<open>The layouts of the targets whose program runs in main memory.\<close>

definition dram_target :: "u32 \<Rightarrow> u32 \<Rightarrow> layout \<Rightarrow> bool" where
  "dram_target bss_end ram l \<longleftrightarrow> l = q40_mem_init bss_end ram \<or> l = mini_mem_init bss_end ram \<or>
     (\<exists>data_start < KISS68030_SRAM_BASE. l = kiss_mem_init data_start bss_end ram)"

lemma dram_target_layout:
  assumes "dram_target bss_end ram l" "0x10000 \<le> unat ram"
  shows "unat (heap_base l) = unat ram - min (unat ram div 4) 0x200000"
    "unat (heap_size l) = min (unat ram div 4) 0x200000 - 8192"
    "bounce_below_addr l = (bss_end + 3) AND NOT 3"
proof -
  define h where "h = (if ram div 4 > MAXHEAP then MAXHEAP else ram div 4)"
  have l: "heap_base l = ram - h" "heap_size l = h - 8192" "bounce_below_addr l = (bss_end + 3) AND NOT 3"
    using assms(1) by (auto simp: dram_target_def q40_mem_init_def mini_mem_init_def kiss_mem_init_def dram_layout_def
        Let_def h_def DEFAULT_STACK_SIZE_def)
  have "unat (ram div 4) = unat ram div 4" by (simp add: unat_div)
  then have h: "unat h = min (unat ram div 4) 0x200000"
    by (auto simp: h_def MAXHEAP_def word_less_nat_alt min_def)
  then have "0x2000 \<le> unat h" "unat h \<le> unat ram" using assms(2) by auto
  with h l show "unat (heap_base l) = unat ram - min (unat ram div 4) 0x200000"
    "unat (heap_size l) = min (unat ram div 4) 0x200000 - 8192" "bounce_below_addr l = (bss_end + 3) AND NOT 3"
    by (simp_all add: u32_unat_sub word_le_nat_alt)
qed

text \<open>Where the managed area of the heap starts.\<close>

definition heap_first :: "layout \<Rightarrow> nat" where
  "heap_first l = unat (heap_base l) + 16 + 12 * unat (heap_blocks l)"

lemma heap_init_ready:
  assumes "dram_target bss_end ram l" "0x10000 \<le> unat ram" "16 dvd unat ram" "unat ram \<le> 2 ^ 30"
  shows "heap_wf (heap_first l) (heap_init l)" "unat (heap_limit (heap_init l)) \<le> unat ram"
    "heap_alignment (heap_init l) = 4" "heap_first l \<le> unat ram"
proof -
  note lay = dram_target_layout [OF assms(1,2)]
  have bs: "unat (heap_base l) + unat (heap_size l) \<le> unat ram" "0x2000 \<le> unat (heap_size l)"
    using lay(1,2) assms(2) by auto
  have blocks: "unat (heap_blocks l) = (if unat (heap_size l) > 204800 then 2048 else 256)"
    by (simp add: heap_blocks_def word_less_nat_alt)
  have e: "unat (heap_base l + heap_size l) = unat (heap_base l) + unat (heap_size l)"
    using bs(1) assms(4) by (intro u32_unat_add) simp
  have lim: "unat (heap_base l + heap_size l - 1) = unat (heap_base l) + unat (heap_size l) - 1"
    using e bs(2) by (simp add: u32_unat_sub word_le_nat_alt)
  have fit: "unat (heap_base l) + 16 + 12 * unat (heap_blocks l) \<le> unat (heap_base l + heap_size l - 1)"
    unfolding lim blocks using bs(2) by auto
  have "4 dvd unat (heap_base l)"
  proof -
    obtain k where k: "unat ram = 16 * k" using assms(3) by auto
    then have "unat (heap_base l) = 4 * (4 * k - min k 0x80000)" unfolding lay(1) by (simp add: min_def diff_mult_distrib2)
    then show ?thesis by simp
  qed
  then have al: "unat (4 :: u32) dvd unat (heap_base l) + 16 + 12 * unat (heap_blocks l)" by (simp add: blocks)
  have "is_pow2 4" unfolding is_pow2_def by (rule exI [of _ 2]) simp
  moreover have "0 < heap_blocks l" by (simp add: heap_blocks_def)
  ultimately show "heap_wf (heap_first l) (heap_init l)"
    using ta_init_wf [OF _ fit _ al, of 16] by (simp add: heap_init_def heap_first_def)
  show "unat (heap_limit (heap_init l)) \<le> unat ram" using lim bs by (simp add: heap_init_def ta_init_def)
  show "heap_alignment (heap_init l) = 4" by (simp add: heap_init_def ta_init_def)
  show "heap_first l \<le> unat ram" using fit lim bs by (simp add: heap_first_def)
qed

end
