(* ===== verification/Loader_Safety.thy ===== *)
theory Loader_Safety
  imports Boot
begin

text \<open>
  What the loader guarantees: after the copy of the bounce buffer a loaded segment is where it belongs,
  gogoboot's own memory and the other heap blocks are untouched until then. The allocator enters
  through the lemmas of theory \<open>Heap_Safety\<close>.
\<close>

section \<open>Words rounded to multiples of four\<close>

lemma not3: "NOT 3 = - (2 ^ 2 :: u32)" by simp

lemma round_down: "unat (x AND NOT 3 :: u32) = unat x div 4 * 4"
  using unat_and_minus_exp [of x 2] by (simp only: not3) simp

lemma round_up: "unat x + 4 \<le> 4294967296 \<Longrightarrow> unat ((x + 3) AND NOT 3 :: u32) = (unat x + 3) div 4 * 4"
  using round_up_exp [of x 2] by (simp only: not3) (simp add: algebra_simps)

lemma low_bits: "unat (x AND 3 :: u32) = unat x mod 4"
proof -
  have x: "x AND 3 = take_bit 2 x" by (simp add: take_bit_eq_mask mask_eq_exp_minus_1)
  show ?thesis by (simp only: x unsigned_take_bit_eq take_bit_eq_mod) (simp add: unat_mod)
qed

lemma round_sum: "p div 4 * 4 + (b + p mod 4 + 3) div 4 * 4 = (p + b + 3) div 4 * (4 :: nat)"
proof -
  have "p + b + 3 = (b + p mod 4 + 3) + p div 4 * 4" using div_mult_mod_eq [of p 4] by linarith
  then show ?thesis by (simp only: div_mult_self1 div_mult_self2 add_mult_distrib)
qed

lemma round_fit: "n \<le> m \<Longrightarrow> 4 dvd m \<Longrightarrow> (n + 3) div 4 * 4 \<le> (m :: nat)"
  by (elim dvdE) auto

lemma sint_neg_iff: "sint (d :: u32) < 0 \<longleftrightarrow> 2 ^ 31 \<le> unat d"
proof -
  define k where "k = unat d"
  have "uint d = int k" "k < 4294967296" by (simp_all add: k_def)
  with sint_u32 [of d] show ?thesis by (simp flip: k_def)
qed

lemma whole_words_up:
  assumes "unat d < 2 ^ 31 - 4"
  shows "unat (whole_words d) = (unat d + 3) div 4 * 4"
proof -
  have "\<not> sint d < 0" using assms by (simp add: sint_neg_iff)
  then have "whole_words d = (d + 3) AND NOT 3" by (simp add: whole_words_def)
  then show ?thesis using round_up [of d] assms by simp
qed

lemma whole_words_down:
  assumes "unat y \<le> unat x" "unat x < 2 ^ 31"
  shows "whole_words (y - x) = 0"
proof (cases "y = x")
  case True
  then show ?thesis by (simp add: whole_words_def)
next
  case False
  then have "unat y < unat x" using assms(1) by (simp add: word_unat_eq_iff)
  then have "unat (y - x) \<ge> 2 ^ 31" using assms(2) unat_sub_wrap [of y x] by simp
  then have "sint (y - x) < 0" by (simp only: sint_neg_iff)
  then show ?thesis by (simp add: whole_words_def)
qed

section \<open>The state between loads\<close>

text \<open>The heap is well formed and above the memory programs are loaded to; the bounce buffer is a live
  block of the heap, its target whole words below \<open>bounce_below_addr\<close>.\<close>

definition bounce_block :: "loader \<Rightarrow> bool" where
  "bounce_block s \<longleftrightarrow> (\<exists>b \<in> set (hused (lheap s)). baddr b = loader_bounce_buffer_data s \<and>
     unat (loader_bounce_buffer_size s) \<le> unat (bsize b))"

definition loader_ok :: "nat \<Rightarrow> loader \<Rightarrow> bool" where
  "loader_ok lo s \<longleftrightarrow> 0 < lo \<and> heap_wf lo (lheap s) \<and> unat (heap_base (lay s)) \<le> lo \<and> lo \<le> 2 ^ 30 \<and>
     unat (heap_limit (lheap s)) \<le> 2 ^ 31 \<and> unat (heap_alignment (lheap s)) \<le> 2 ^ 16 \<and>
     4 dvd unat (bounce_below_addr (lay s)) \<and> unat (bounce_below_addr (lay s)) \<le> 2 ^ 30 \<and>
     (loader_bounce_buffer_data s \<noteq> 0 \<longrightarrow> bounce_block s \<and>
        4 dvd unat (loader_bounce_buffer_target s) \<and> 4 dvd unat (loader_bounce_buffer_size s) \<and>
        unat (loader_bounce_buffer_target s) + unat (loader_bounce_buffer_size s) \<le> unat (bounce_below_addr (lay s)))"

definition byte_set :: "block \<Rightarrow> u32 set" where
  "byte_set b = {a. unat (a - baddr b) < unat (bsize b)}"

text \<open>The other blocks of the heap survive with their contents, and so does everything below the heap.\<close>

definition keeps_blocks :: "loader \<Rightarrow> loader \<Rightarrow> bool" where
  "keeps_blocks s s' \<longleftrightarrow> lay s' = lay s \<and>
     (\<forall>c \<in> set (hused (lheap s)). baddr c \<noteq> loader_bounce_buffer_data s \<longrightarrow>
        c \<in> set (hused (lheap s')) \<and> baddr c \<noteq> loader_bounce_buffer_data s' \<and>
        (\<forall>a \<in> byte_set c. lmem s' a = lmem s a))"

definition keeps :: "nat \<Rightarrow> loader \<Rightarrow> loader \<Rightarrow> bool" where
  "keeps lo s s' \<longleftrightarrow> keeps_blocks s s' \<and> (\<forall>a. unat a < lo \<longrightarrow> lmem s' a = lmem s a)"

lemma keeps_blocks_refl [simp]: "keeps_blocks s s" by (simp add: keeps_blocks_def)

lemma keeps_blocks_trans: "keeps_blocks s t \<Longrightarrow> keeps_blocks t u \<Longrightarrow> keeps_blocks s u"
  by (auto simp: keeps_blocks_def)

lemma request_okI:
  assumes "loader_ok lo s" "0 < n" "unat n \<le> 2 ^ 30 + 2 ^ 16"
  shows "request_ok n (lheap s)"
proof -
  have "unat (htop (lheap s)) \<le> unat (heap_limit (lheap s))"
    using assms(1) heap_wfD(4) [of lo "lheap s"] by (simp add: loader_ok_def word_le_nat_alt)
  then show ?thesis using assms by (simp add: request_ok_def loader_ok_def)
qed

lemma used_block_bounds:
  assumes "heap_wf lo h" "b \<in> set (hused h)"
  shows "lo \<le> unat (baddr b)" "unat (baddr b) + unat (bsize b) < 4294967296" "0 < unat (bsize b)"
  using heap_wf_block_end(1) [OF assms(1), of b] heap_wfD(6) [OF assms(1), of b] assms(2)
  by (auto simp: bstart_def good_def bend_def word_less_nat_alt)

lemma byte_setD:
  assumes "heap_wf lo h" "b \<in> set (hused h)" "a \<in> byte_set b"
  shows "unat (baddr b) \<le> unat a" "unat a < unat (baddr b) + unat (bsize b)"
proof -
  note u = used_block_bounds [OF assms(1,2)]
  have "unat a = unat (a - baddr b) + unat (baddr b)"
    using u32_unat_add [of "a - baddr b" "baddr b"] assms(3) u(2) by (simp add: byte_set_def)
  then show "unat (baddr b) \<le> unat a" "unat a < unat (baddr b) + unat (bsize b)"
    using assms(3) by (simp_all add: byte_set_def)
qed

lemma blocks_apart:
  assumes "heap_wf lo h" "hused h = xs @ b # ys @ c # zs \<or> hused h = xs @ c # ys @ b # zs"
  shows "byte_set b \<inter> byte_set c = {}" "baddr b \<noteq> baddr c"
proof -
  have bc: "b \<in> set (hused h)" "c \<in> set (hused h)" using assms(2) by auto
  have "sorted_wrt apart (hused h @ hfree h)" using heap_wfD(8) [OF assms(1)] tiling_apart by blast
  then have "apart b c \<or> apart c b" using assms(2) by (auto simp: sorted_wrt_append)
  then have a: "bend b \<le> bstart c \<or> bend c \<le> bstart b" by (auto simp: apart_def)
  then show "byte_set b \<inter> byte_set c = {}"
    using byte_setD [OF assms(1) bc(1)] byte_setD [OF assms(1) bc(2)]
    by (fastforce simp: bend_def bstart_def)
  show "baddr b \<noteq> baddr c"
    using a used_block_bounds(3) [OF assms(1) bc(1)] used_block_bounds(3) [OF assms(1) bc(2)]
    by (auto simp: bend_def bstart_def)
qed

section \<open>Growing the bounce buffer\<close>

lemma malloc_effect:
  assumes "malloc n h = Some (a, h')" "heap_wf lo h" "request_ok n h" "0 < lo"
  obtains b where "a \<noteq> 0" "heap_wf lo h'" "same_config h h'" "hused h' = b # hused h" "baddr b = a"
    "unat n \<le> unat (bsize b)"
proof -
  from assms(1) have "ta_alloc n h = (a, h')" "a \<noteq> 0" by (auto simp: malloc_def split: prod.splits if_splits)
  with ta_alloc_cases [OF this(1) assms(2-4)] that show ?thesis by blast
qed

lemma realloc_effect:
  assumes "realloc ptr n (h, m) = Some (a, h', m')" "ptr \<noteq> 0" "heap_wf lo h" "request_ok n h" "0 < lo"
  obtains k b xs p ys where "a \<noteq> 0" "heap_wf lo h'" "same_config h h'" "hused h' = b # xs @ ys" "hused h = xs @ p # ys"
    "baddr b = a" "baddr p = ptr" "unat n \<le> unat (bsize b)" "k = min (unat n) (unat (bsize p))"
    "\<forall>i < k. m' (a + of_nat i) = m (ptr + of_nat i)" "\<forall>x. (\<forall>i < k. x \<noteq> a + of_nat i) \<longrightarrow> m' x = m x"
proof -
  from assms(1,2) have r: "ta_realloc ptr n (h, m) = (a, h', m')" "a \<noteq> 0"
    by (auto simp: realloc_def split: prod.splits if_splits)
  from ta_realloc_Some [OF assms(3,4,5) r] that r(2) show ?thesis by blast
qed

lemma block_unique:
  assumes "heap_wf lo h" "b \<in> set (hused h)" "c \<in> set (hused h)" "baddr b = baddr c"
  shows "b = c"
proof (rule ccontr)
  assume ne: "b \<noteq> c"
  obtain xs ys where s: "hused h = xs @ b # ys" using split_list [OF assms(2)] by blast
  with assms(3) ne consider "c \<in> set xs" | "c \<in> set ys" by auto
  then have "\<exists>xs ys zs. hused h = xs @ b # ys @ c # zs \<or> hused h = xs @ c # ys @ b # zs"
  proof cases
    case 1
    then obtain us vs where "xs = us @ c # vs" using split_list by metis
    with s have "hused h = us @ c # vs @ b # ys" by simp
    then show ?thesis by blast
  next
    case 2
    then obtain us vs where "ys = us @ c # vs" using split_list by metis
    with s have "hused h = xs @ b # us @ c # vs" by simp
    then show ?thesis by blast
  qed
  with blocks_apart(2) [OF assms(1)] assms(4) show False by blast
qed

lemma expand_fresh:
  assumes e: "bounce_expand P B s = Some s'" and ok: "loader_ok lo s" and d: "loader_bounce_buffer_data s = 0"
    and B: "0 < B" "unat P + unat B \<le> unat (bounce_below_addr (lay s))"
  shows "loader_ok lo s' \<and> keeps lo s s' \<and> loader_bounce_buffer_data s' \<noteq> 0 \<and>
    unat (loader_bounce_buffer_target s') \<le> unat P \<and>
    unat P + unat B \<le> unat (loader_bounce_buffer_target s') + unat (loader_bounce_buffer_size s')"
proof -
  let ?S = "(B + (P AND 3) + 3) AND NOT 3"
  have wf: "heap_wf lo (lheap s)" "0 < lo" "unat (bounce_below_addr (lay s)) \<le> 2 ^ 30" "4 dvd unat (bounce_below_addr (lay s))"
    using ok by (simp_all add: loader_ok_def)
  have b3: "unat (B + (P AND 3)) = unat B + unat P mod 4"
    using B(2) wf(3) low_bits [of P] by (subst u32_unat_add) simp_all
  have S: "unat ?S = (unat B + unat P mod 4 + 3) div 4 * 4"
    using round_up [of "B + (P AND 3)"] b3 B(2) wf(3) by simp
  have T: "unat (P AND NOT 3) = unat P div 4 * 4" by (rule round_down)
  have ts: "unat (P AND NOT 3) + unat ?S = (unat P + unat B + 3) div 4 * 4"
    unfolding S T by (rule round_sum)
  have fit: "(unat P + unat B + 3) div 4 * 4 \<le> unat (bounce_below_addr (lay s))"
    by (rule round_fit [OF B(2) wf(4)])
  from e d obtain scratch h1 data h2 where m1: "malloc 128 (lheap s) = Some (scratch, h1)"
    and m2: "malloc ?S h1 = Some (data, h2)"
    and s': "s' = s\<lparr>lheap := h2, loader_scratch_space := scratch, loader_bounce_buffer_target := P AND NOT 3,
       loader_bounce_buffer_size := ?S, loader_bounce_buffer_data := data\<rparr>"
    by (auto simp: bounce_expand_def bind_eq_Some_conv Let_def)
  have r1: "request_ok 128 (lheap s)" by (rule request_okI [OF ok]) simp_all
  obtain b1 where b1: "heap_wf lo h1" "same_config (lheap s) h1" "hused h1 = b1 # hused (lheap s)"
    by (rule malloc_effect [OF m1 wf(1) r1 wf(2)])
  have ok1: "loader_ok lo (s\<lparr>lheap := h1\<rparr>)"
    using ok b1(1,2) d by (simp add: loader_ok_def same_config_def)
  have "0 < unat ?S" using S B(1) by (simp add: word_less_nat_alt div_greater_zero_iff)
  moreover have "unat ?S \<le> 2 ^ 30" using ts fit wf(3) by linarith
  ultimately have r2: "request_ok ?S h1" using request_okI [OF ok1, of ?S] by (simp add: word_less_nat_alt)
  obtain b2 where b2: "data \<noteq> 0" "heap_wf lo h2" "same_config h1 h2" "hused h2 = b2 # hused h1" "baddr b2 = data"
    "unat ?S \<le> unat (bsize b2)"
    by (rule malloc_effect [OF m2 b1(1) r2 wf(2)])
  have "baddr c \<noteq> data" if c: "c \<in> set (hused (lheap s))" for c
  proof -
    obtain xs ys where "hused (lheap s) = xs @ c # ys" using split_list [OF c] by blast
    then have "hused h2 = [] @ b2 # (b1 # xs) @ c # ys" using b1(3) b2(4) by simp
    from blocks_apart(2) [OF b2(2) disjI1 [OF this]] b2(5) show ?thesis by simp
  qed
  then have "keeps lo s s'" using b1(3) b2(4) by (auto simp: keeps_def keeps_blocks_def s')
  moreover have "bounce_block s'" using b2 by (auto simp: bounce_block_def s')
  then have "loader_ok lo s'"
    using ok b1(2) b2(2,3) ts fit S T by (simp add: loader_ok_def same_config_def s')
  ultimately show ?thesis using b2(1) ts T by (auto simp: s')
qed

lemma expand_up:
  assumes e: "bounce_expand P B s = Some s'" and ok: "loader_ok lo s" and d: "loader_bounce_buffer_data s \<noteq> 0"
    and B: "0 < B" "unat P + unat B \<le> unat (bounce_below_addr (lay s))"
    and up: "unat (loader_bounce_buffer_target s) \<le> unat P"
  shows "loader_ok lo s' \<and> keeps lo s s' \<and> loader_bounce_buffer_data s' \<noteq> 0 \<and>
    loader_bounce_buffer_target s' = loader_bounce_buffer_target s \<and>
    unat P + unat B \<le> unat (loader_bounce_buffer_target s') + unat (loader_bounce_buffer_size s') \<and>
    loader_bounce_buffer_size s \<le> loader_bounce_buffer_size s' \<and>
    (\<forall>i < unat (loader_bounce_buffer_size s).
       lmem s' (loader_bounce_buffer_data s' + of_nat i) = lmem s (loader_bounce_buffer_data s + of_nat i))"
proof -
  let ?T = "loader_bounce_buffer_target s" and ?S = "loader_bounce_buffer_size s" and ?D = "loader_bounce_buffer_data s"
  have wf: "heap_wf lo (lheap s)" "0 < lo" "unat (bounce_below_addr (lay s)) \<le> 2 ^ 30" "4 dvd unat (bounce_below_addr (lay s))"
    "4 dvd unat ?T" "4 dvd unat ?S" "unat ?T + unat ?S \<le> unat (bounce_below_addr (lay s))"
    using ok d by (simp_all add: loader_ok_def)
  obtain p where p: "p \<in> set (hused (lheap s))" "baddr p = ?D" "unat ?S \<le> unat (bsize p)"
    using ok d by (auto simp: loader_ok_def bounce_block_def)
  have sums: "unat (P + B) = unat P + unat B" "unat (?T + ?S) = unat ?T + unat ?S"
    using B(2) wf(3,7) by (simp_all add: u32_unat_add)
  have below: "whole_words (?T - P) = 0" using whole_words_down [OF up] B(2) wf(3) by simp
  let ?A = "whole_words ((P + B) - (?T + ?S))"
  show ?thesis
  proof (cases "?A = 0")
    case True
    have "unat P + unat B \<le> unat ?T + unat ?S"
    proof (rule ccontr)
      assume "\<not> ?thesis"
      then have u: "unat ((P + B) - (?T + ?S)) = unat P + unat B - (unat ?T + unat ?S)" "0 < unat P + unat B - (unat ?T + unat ?S)"
        using unat_sub_wrap [of "P + B" "?T + ?S"] sums by simp_all
      then have "unat ?A = (unat P + unat B - (unat ?T + unat ?S) + 3) div 4 * 4"
        using whole_words_up [of "(P + B) - (?T + ?S)"] B(2) wf(3) by simp
      then have "0 < unat ?A" using u(2) by (simp add: div_greater_zero_iff)
      with True show False by simp
    qed
    moreover have "s' = s" using e d below True by (simp add: bounce_expand_def)
    ultimately show ?thesis using ok d by (simp add: keeps_def)
  next
    case False
    have gt: "unat ?T + unat ?S < unat P + unat B"
    proof (rule ccontr)
      assume "\<not> ?thesis"
      then have "?A = 0" using whole_words_down [of "P + B" "?T + ?S"] sums wf(3,7) by simp
      with False show False by simp
    qed
    then have u: "unat ((P + B) - (?T + ?S)) = unat P + unat B - (unat ?T + unat ?S)"
      using unat_sub_wrap [of "P + B" "?T + ?S"] sums by simp
    have A: "unat ?A = (unat P + unat B - (unat ?T + unat ?S) + 3) div 4 * 4"
      using whole_words_up [of "(P + B) - (?T + ?S)"] u B(2) wf(3) by simp
    let ?N = "?S + ?A"
    have ge: "unat P + unat B \<le> unat ?T + unat ?S + unat ?A" unfolding A using gt by presburger
    have fit: "unat ?T + unat ?S + unat ?A \<le> unat (bounce_below_addr (lay s))"
    proof -
      have "4 dvd unat (bounce_below_addr (lay s)) - (unat ?T + unat ?S)" using wf(4-7) by (simp add: dvd_diff_nat)
      from round_fit [OF _ this, of "unat P + unat B - (unat ?T + unat ?S)"] B(2) gt show ?thesis unfolding A by linarith
    qed
    have N: "unat ?N = unat ?S + unat ?A" using fit wf(3) by (subst u32_unat_add) simp_all
    from e d below False obtain D h m where r: "realloc ?D ?N (lheap s, lmem s) = Some (D, h, m)"
      and s': "s' = s\<lparr>lheap := h, lmem := m, loader_bounce_buffer_data := D, loader_bounce_buffer_size := ?N\<rparr>"
      by (auto simp: bounce_expand_def bind_eq_Some_conv Let_def)
    have "0 < unat ?N" using N ge gt by linarith
    then have "0 < ?N" by (simp add: word_less_nat_alt)
    moreover have "unat ?N \<le> 2 ^ 30 + 2 ^ 16" using N fit wf(3) by simp
    ultimately have rq: "request_ok ?N (lheap s)" by (rule request_okI [OF ok])
    obtain k b xs q ys where b: "D \<noteq> 0" "heap_wf lo h" "same_config (lheap s) h" "hused h = b # xs @ ys"
      "hused (lheap s) = xs @ q # ys" "baddr b = D" "baddr q = ?D" "unat ?N \<le> unat (bsize b)"
      "k = min (unat ?N) (unat (bsize q))" "\<forall>i < k. m (D + of_nat i) = lmem s (?D + of_nat i)"
      "\<forall>x. (\<forall>i < k. x \<noteq> D + of_nat i) \<longrightarrow> m x = lmem s x"
      by (rule realloc_effect [OF r d wf(1) rq wf(2)])
    have "q = p" using block_unique [OF wf(1) _ p(1)] b(5,7) p(2) by simp
    then have k: "unat ?S \<le> k" using b(9) N p(3) by simp
    have bs: "b \<in> set (hused h)" using b(4) by simp
    note bb = used_block_bounds [OF b(2) bs]
    have inb: "D + of_nat i \<in> byte_set b" if "i < k" for i
    proof -
      have i: "i < unat (bsize b)" using that b(8,9) by simp
      then have "i < 4294967296" using bb(2) by linarith
      then show ?thesis using i b(6) by (simp add: byte_set_def u32_unat_of_nat)
    qed
    have out: "m x = lmem s x" if "x \<notin> byte_set b" for x using b(11) inb that by metis
    have low: "m x = lmem s x" if "unat x < lo" for x
      using out byte_setD [OF b(2) bs, of x] bb(1) that by (meson le_trans not_le)
    have blocks: "c \<in> set (hused h) \<and> baddr c \<noteq> D \<and> (\<forall>x \<in> byte_set c. m x = lmem s x)"
      if c: "c \<in> set (hused (lheap s))" "baddr c \<noteq> ?D" for c
    proof -
      have "c \<in> set xs \<union> set ys" using c b(5,7) by auto
      then obtain us vs where "xs @ ys = us @ c # vs" using split_list [of c "xs @ ys"] by auto
      then have "hused h = [] @ b # us @ c # vs" using b(4) by simp
      from blocks_apart [OF b(2) disjI1 [OF this]] b(6) have "byte_set b \<inter> byte_set c = {}" "D \<noteq> baddr c" by simp_all
      then show ?thesis using out \<open>c \<in> set xs \<union> set ys\<close> b(4) by auto
    qed
    have "keeps lo s s'" using low blocks by (simp add: keeps_def keeps_blocks_def s')
    moreover have "4 dvd unat ?N" using N A wf(6) by simp
    then have "loader_ok lo s'"
      using ok b(1-4,6,8) N fit wf(5) d by (auto simp: loader_ok_def same_config_def bounce_block_def s')
    moreover have "?S \<le> ?N" using N by (simp add: word_le_nat_alt)
    ultimately show ?thesis using b(1,10) k ge N by (auto simp: s')
  qed
qed

section \<open>One part of a segment\<close>

text \<open>The file system reads the file: after a seek within the file, a read returns its bytes.\<close>

definition reads :: "'f fatfs \<Rightarrow> u8 list \<Rightarrow> bool" where
  "reads fs content \<longleftrightarrow> (\<forall>fd off n. unat off \<le> length content \<longrightarrow>
     (\<exists>fd1 fd2. f_lseek fs fd off = (FR_OK, fd1) \<and>
       f_read fs fd1 n = (FR_OK, take (unat n) (drop (unat off) content), fd2)))"

text \<open>Byte \<open>k\<close> of a segment: from the file, or zero behind the part the file has.\<close>

definition segment_byte :: "u8 list \<Rightarrow> nat \<Rightarrow> nat \<Rightarrow> nat \<Rightarrow> u8" where
  "segment_byte content off filesz k = (if k < filesz then content ! (off + k) else 0)"

lemma behind_load:
  "l \<le> p \<Longrightarrow> x = (if l \<le> d then d - l else 4294967296 + d - l) \<Longrightarrow> p < 4294967296 \<Longrightarrow>
   x < p - l \<longleftrightarrow> l \<le> d \<and> d < (p :: nat)"
  by (cases "l \<le> d") auto

lemma load_part_effect:
  assumes r: "reads fs content"
    and av: "fsz \<noteq> 0 \<Longrightarrow> unat off + min (unat fsz) (unat part) \<le> length content"
  shows "\<exists>fd'. load_part fs fd to off part fsz s =
    (FR_OK, fd', s\<lparr>lmem := (\<lambda>a. if unat (a - to) < unat part
        then segment_byte content (unat off) (unat fsz) (unat (a - to)) else lmem s a)\<rparr>,
     fsz - (if part > fsz then fsz else part))"
proof -
  let ?l = "if part > fsz then fsz else part"
  have l: "unat ?l = min (unat fsz) (unat part)" by (auto simp: word_less_nat_alt)
  define pad where "pad = (if part > fsz then part - fsz else 0)"
  have upad: "unat pad = unat part - unat ?l"
    by (auto simp: pad_def word_less_nat_alt u32_unat_sub)
  have padded: "(if pad \<noteq> 0 then t\<lparr>lmem := memset (to + ?l) 0 pad (lmem t)\<rparr> else t) =
      t\<lparr>lmem := (\<lambda>a. if unat ?l \<le> unat (a - to) \<and> unat (a - to) < unat part then 0 else lmem t a)\<rparr>" for t
  proof -
    have "unat (a - (to + ?l)) < unat pad \<longleftrightarrow> unat ?l \<le> unat (a - to) \<and> unat (a - to) < unat part" for a
    proof -
      have "a - (to + ?l) = (a - to) - ?l" by simp
      then have "unat (a - (to + ?l)) = (if unat ?l \<le> unat (a - to) then unat (a - to) - unat ?l
          else 4294967296 + unat (a - to) - unat ?l)" by (simp only: unat_sub_wrap)
      moreover have "unat part < 4294967296" by (rule u32_less)
      moreover have "unat ?l \<le> unat part" using l by simp
      ultimately show ?thesis unfolding upad by (rule behind_load [rotated])
    qed
    then have "memset (to + ?l) 0 pad m = (\<lambda>a. if unat ?l \<le> unat (a - to) \<and> unat (a - to) < unat part then 0 else m a)" for m
      by (simp add: memset_eq cong: if_cong)
    moreover have "(\<lambda>a. if unat ?l \<le> unat (a - to) \<and> unat (a - to) < unat part then 0 else m a) = m" if "pad = 0" for m :: memory
    proof -
      have "unat part \<le> unat ?l" using upad that by simp
      then show ?thesis by (intro ext) auto
    qed
    ultimately show ?thesis by (cases "pad = 0") simp_all
  qed
  have split: "(if part > fsz then (part - fsz, fsz) else (0, part)) = (pad, ?l)" by (simp add: pad_def)
  show ?thesis
  proof (cases "?l = 0")
    case True
    then have z: "unat ?l = 0" by simp
    have "segment_byte content (unat off) (unat fsz) k = 0" if "k < unat part" for k
    proof -
      have "unat fsz = 0" using that l z by (simp add: min_def split: if_splits)
      then show ?thesis by (simp add: segment_byte_def)
    qed
    then show ?thesis
      using True padded [of s] z by (intro exI [of _ fd]) (simp add: load_part_def split Let_def cong: if_cong)
  next
    case False
    have f0: "fsz \<noteq> 0"
    proof
      assume "fsz = 0"
      then have "unat ?l = 0" using l by simp
      with False show False by (simp only: unat_eq_zero)
    qed
    have lc: "unat off + unat ?l \<le> length content" using av [OF f0] l by simp
    then obtain fd1 fd2 where io: "f_lseek fs fd off = (FR_OK, fd1)"
      "f_read fs fd1 ?l = (FR_OK, take (unat ?l) (drop (unat off) content), fd2)"
      using r unfolding reads_def by (meson le_add1 le_trans)
    let ?bs = "take (unat ?l) (drop (unat off) content)"
    have len: "length ?bs = unat ?l" using lc by simp
    have "load_part fs fd to off part fsz s = (FR_OK, fd2,
        s\<lparr>lmem := (\<lambda>a. if unat ?l \<le> unat (a - to) \<and> unat (a - to) < unat part then 0 else store to ?bs (lmem s) a)\<rparr>, fsz - ?l)"
      using False io len padded [of "s\<lparr>lmem := store to ?bs (lmem s)\<rparr>"] len
      by (simp add: load_part_def split Let_def del: length_take length_drop cong: if_cong)
    moreover have "(\<lambda>a. if unat ?l \<le> unat (a - to) \<and> unat (a - to) < unat part then 0 else store to ?bs (lmem s) a) =
        (\<lambda>a. if unat (a - to) < unat part then segment_byte content (unat off) (unat fsz) (unat (a - to)) else lmem s a)"
      using l lc by (auto simp: fun_eq_iff store_def segment_byte_def min_def)
    ultimately show ?thesis by simp
  qed
qed

section \<open>The two parts\<close>

definition written :: "u32 \<Rightarrow> nat \<Rightarrow> (nat \<Rightarrow> u8) \<Rightarrow> memory \<Rightarrow> memory" where
  "written to n f m = (\<lambda>a. if unat (a - to) < n then f (unat (a - to)) else m a)"

lemma shifted_offset:
  fixes t p x :: u32
  assumes "unat t \<le> unat p" "unat (x - p) < n" "unat p - unat t + n \<le> 4294967296"
  shows "unat (x - t) = unat (x - p) + (unat p - unat t)"
proof -
  have "x - t = (x - p) + (p - t)" by simp
  moreover have "unat (p - t) = unat p - unat t" using assms(1) unat_sub_wrap [of p t] by simp
  ultimately show ?thesis using u32_unat_add [of "x - p" "p - t"] assms(2,3) by simp
qed

lemma address_offset:
  fixes t a :: u32
  assumes "unat t \<le> unat a" shows "unat (a - t) = unat a - unat t"
  using assms unat_sub_wrap [of a t] by simp

lemma bounce_part:
  assumes ok: "loader_ok lo t" and d: "loader_bounce_buffer_data t \<noteq> 0"
    and P: "unat (loader_bounce_buffer_target t) \<le> unat P"
      "unat P + n \<le> unat (loader_bounce_buffer_target t) + unat (loader_bounce_buffer_size t)"
    and u: "u = t\<lparr>lmem := written (loader_bounce_buffer_data t + (P - loader_bounce_buffer_target t)) n f (lmem t)\<rparr>"
  shows "loader_ok lo u \<and> keeps lo t u \<and>
    (\<forall>a. unat a < lo \<longrightarrow> image u a = (if unat (a - P) < n then f (unat (a - P)) else image t a))"
proof -
  let ?T = "loader_bounce_buffer_target t" and ?S = "loader_bounce_buffer_size t" and ?D = "loader_bounce_buffer_data t"
  have wf: "heap_wf lo (lheap t)" using ok by (simp add: loader_ok_def)
  obtain b where b: "b \<in> set (hused (lheap t))" "baddr b = ?D" "unat ?S \<le> unat (bsize b)"
    using ok d by (auto simp: loader_ok_def bounce_block_def)
  note bb = used_block_bounds [OF wf b(1)]
  have pt: "unat (P - ?T) = unat P - unat ?T" by (rule address_offset [OF P(1)])
  have S32: "unat ?S < 4294967296" by simp
  have inside: "unat (a - ?D) = unat (a - (?D + (P - ?T))) + (unat P - unat ?T)"
    if "unat (a - (?D + (P - ?T))) < n" for a
  proof -
    have e: "a - ?D = (a - (?D + (P - ?T))) + (P - ?T)" by simp
    have "unat (a - (?D + (P - ?T))) + unat (P - ?T) < 4294967296"
      using that pt P u32_less [of ?S] by linarith
    from u32_unat_add [OF this] show ?thesis by (simp only: flip: e) (simp only: pt)
  qed
  have in_b: "a \<in> byte_set b" if "unat (a - (?D + (P - ?T))) < n" for a
    using inside [OF that] that P b(2,3) by (simp add: byte_set_def)
  have same: "lmem u a = lmem t a" if "a \<notin> byte_set b" for a using in_b [of a] that by (auto simp: u written_def)
  have "keeps lo t u"
  proof -
    have "lmem u a = lmem t a" if "unat a < lo" for a
      using same byte_setD(1) [OF wf b(1), of a] bb(1) that by (meson le_trans not_le)
    moreover have "lmem u a = lmem t a" if c: "c \<in> set (hused (lheap t))" "baddr c \<noteq> ?D" "a \<in> byte_set c" for c a
    proof -
      obtain xs ys where s: "hused (lheap t) = xs @ b # ys" using split_list [OF b(1)] by blast
      have "b \<noteq> c" using b(2) c(2) by auto
      then have "c \<in> set xs \<or> c \<in> set ys" using s c(1) by auto
      then have "\<exists>xs ys zs. hused (lheap t) = xs @ b # ys @ c # zs \<or> hused (lheap t) = xs @ c # ys @ b # zs"
      proof
        assume "c \<in> set xs"
        then obtain us vs where "xs = us @ c # vs" using split_list by metis
        with s have "hused (lheap t) = us @ c # vs @ b # ys" by simp
        then show ?thesis by blast
      next
        assume "c \<in> set ys"
        then obtain us vs where "ys = us @ c # vs" using split_list by metis
        with s have "hused (lheap t) = xs @ b # us @ c # vs" by simp
        then show ?thesis by blast
      qed
      then have "byte_set b \<inter> byte_set c = {}" using blocks_apart(1) [OF wf] by blast
      with c(3) same show ?thesis by blast
    qed
    ultimately show ?thesis by (auto simp: keeps_def keeps_blocks_def u)
  qed
  moreover have "loader_ok lo u" using ok by (simp add: loader_ok_def bounce_block_def u)
  moreover have "image u a = (if unat (a - P) < n then f (unat (a - P)) else image t a)" if a: "unat a < lo" for a
  proof (cases "unat (a - ?T) < unat ?S")
    case True
    have e: "(?D + (a - ?T)) - (?D + (P - ?T)) = a - P" by simp
    have "image u a = lmem u (?D + (a - ?T))" "image t a = lmem t (?D + (a - ?T))"
      using True d by (simp_all add: image_def u)
    then show ?thesis unfolding u by (simp add: written_def e)
  next
    case False
    have "\<not> unat (a - P) < n"
    proof
      assume l: "unat (a - P) < n"
      have "unat P - unat ?T + n \<le> 4294967296" using P u32_less [of ?S] by linarith
      from shifted_offset [OF P(1) l this] have "unat (a - ?T) = unat (a - P) + (unat P - unat ?T)" .
      with False l P show False by simp
    qed
    moreover have "a \<notin> byte_set b" using byte_setD(1) [OF wf b(1), of a] bb(1) a by (meson le_trans not_le)
    moreover have "image u a = lmem u a" "image t a = lmem t a" using False by (simp_all add: image_def u)
    ultimately show ?thesis using same by simp
  qed
  ultimately show ?thesis by blast
qed

lemma direct_part:
  assumes ok: "loader_ok lo t" and to: "unat (bounce_below_addr (lay t)) \<le> unat to" "unat to + n \<le> lo"
    and u: "u = t\<lparr>lmem := written to n f (lmem t)\<rparr>"
  shows "loader_ok lo u \<and> keeps_blocks t u \<and> (\<forall>a. unat a < unat to \<longrightarrow> lmem u a = lmem t a) \<and>
    (\<forall>a. unat a < lo \<longrightarrow> image u a = (if unat (a - to) < n then f (unat (a - to)) else image t a))"
proof -
  let ?T = "loader_bounce_buffer_target t" and ?S = "loader_bounce_buffer_size t" and ?D = "loader_bounce_buffer_data t"
  have wf: "heap_wf lo (lheap t)" "lo \<le> 2 ^ 30" using ok by (simp_all add: loader_ok_def)
  have range: "unat to \<le> unat a \<and> unat a < unat to + n" if "unat (a - to) < n" for a
  proof -
    have "unat a = unat (a - to) + unat to" using u32_unat_add [of "a - to" to] that to(2) wf(2) by simp
    with that show ?thesis by simp
  qed
  have same: "lmem u a = lmem t a" if "unat a < unat to \<or> lo \<le> unat a" for a
    using range [of a] that to(2) by (auto simp: u written_def)
  have blocks: "lo \<le> unat a" if "c \<in> set (hused (lheap t))" "a \<in> byte_set c" for c a
    using byte_setD(1) [OF wf(1) that] used_block_bounds(1) [OF wf(1) that(1)] by linarith
  have "keeps_blocks t u" using same blocks by (auto simp: keeps_blocks_def u)
  moreover have "loader_ok lo u" using ok by (simp add: loader_ok_def bounce_block_def u)
  moreover have "image u a = (if unat (a - to) < n then f (unat (a - to)) else image t a)" if a: "unat a < lo" for a
  proof (cases "?D \<noteq> 0 \<and> unat (a - ?T) < unat ?S")
    case True
    then obtain b where b: "b \<in> set (hused (lheap t))" "baddr b = ?D" "unat ?S \<le> unat (bsize b)"
      and ts: "unat ?T + unat ?S \<le> unat (bounce_below_addr (lay t))" using ok by (auto simp: loader_ok_def bounce_block_def)
    have "unat a = unat (a - ?T) + unat ?T"
      using u32_unat_add [of "a - ?T" ?T] True ts u32_less [of "bounce_below_addr (lay t)"] by simp
    then have "unat a < unat to" using True ts to(1) by linarith
    then have "\<not> unat (a - to) < n" using range [of a] by auto
    moreover have "?D + (a - ?T) \<in> byte_set b" using True b(2,3) by (simp add: byte_set_def)
    then have "lmem u (?D + (a - ?T)) = lmem t (?D + (a - ?T))" using same blocks [OF b(1)] by blast
    ultimately show ?thesis using True by (simp add: image_def u)
  next
    case False
    then show ?thesis by (auto simp: image_def u written_def)
  qed
  ultimately show ?thesis using same by blast
qed

section \<open>A segment\<close>

definition in_bounce :: "loader \<Rightarrow> u32 \<Rightarrow> bool" where
  "in_bounce s a \<longleftrightarrow> loader_bounce_buffer_data s \<noteq> 0 \<and>
     unat (a - loader_bounce_buffer_target s) < unat (loader_bounce_buffer_size s)"

text \<open>The addresses whose content after the jump is decided: those in the bounce buffer, and those above
  the memory that bounces.\<close>

definition settled :: "loader \<Rightarrow> u32 \<Rightarrow> bool" where
  "settled s a \<longleftrightarrow> in_bounce s a \<or> bounce_below_addr (lay s) \<le> a"

lemma bounce_range:
  assumes "loader_ok lo s" "in_bounce s a"
  shows "unat (loader_bounce_buffer_target s) \<le> unat a"
    "unat a < unat (loader_bounce_buffer_target s) + unat (loader_bounce_buffer_size s)"
    "unat a < unat (bounce_below_addr (lay s))"
proof -
  have ts: "unat (loader_bounce_buffer_target s) + unat (loader_bounce_buffer_size s) \<le> unat (bounce_below_addr (lay s))"
    using assms by (auto simp: loader_ok_def in_bounce_def)
  have "unat a = unat (a - loader_bounce_buffer_target s) + unat (loader_bounce_buffer_target s)"
  proof -
    have "unat (a - loader_bounce_buffer_target s) + unat (loader_bounce_buffer_target s) < 4294967296"
      using assms(2) ts u32_less [of "bounce_below_addr (lay s)"] unfolding in_bounce_def by linarith
    from u32_unat_add [OF this] show ?thesis by simp
  qed
  with assms(2) ts show "unat (loader_bounce_buffer_target s) \<le> unat a"
    "unat a < unat (loader_bounce_buffer_target s) + unat (loader_bounce_buffer_size s)"
    "unat a < unat (bounce_below_addr (lay s))" by (simp_all add: in_bounce_def)
qed

lemma image_split: "image s a = (if in_bounce s a
    then lmem s (loader_bounce_buffer_data s + (a - loader_bounce_buffer_target s)) else lmem s a)"
  by (simp add: image_def in_bounce_def)

lemma expand_effect:
  assumes e: "bounce_expand P B s = Some s'" and ok: "loader_ok lo s"
    and B: "0 < B" "unat P + unat B \<le> unat (bounce_below_addr (lay s))"
    and up: "loader_bounce_buffer_data s \<noteq> 0 \<Longrightarrow> unat (loader_bounce_buffer_target s) \<le> unat P"
  shows "loader_ok lo s' \<and> keeps lo s s' \<and> loader_bounce_buffer_data s' \<noteq> 0 \<and>
    unat (loader_bounce_buffer_target s') \<le> unat P \<and>
    unat P + unat B \<le> unat (loader_bounce_buffer_target s') + unat (loader_bounce_buffer_size s') \<and>
    (\<forall>a. unat a < lo \<and> settled s a \<longrightarrow> settled s' a \<and> image s' a = image s a)"
proof -
  have main: "loader_ok lo s' \<and> keeps lo s s' \<and> loader_bounce_buffer_data s' \<noteq> 0 \<and>
    unat (loader_bounce_buffer_target s') \<le> unat P \<and>
    unat P + unat B \<le> unat (loader_bounce_buffer_target s') + unat (loader_bounce_buffer_size s')"
    using expand_fresh [OF e ok _ B] expand_up [OF e ok _ B] up
    by (cases "loader_bounce_buffer_data s = 0") auto
  then have ok': "loader_ok lo s'" and lay': "lay s' = lay s"
    and low: "unat a < lo \<Longrightarrow> lmem s' a = lmem s a" for a by (auto simp: keeps_def keeps_blocks_def)
  have "settled s' a \<and> image s' a = image s a" if a: "unat a < lo" "settled s a" for a
  proof (cases "in_bounce s a")
    case True
    then have d: "loader_bounce_buffer_data s \<noteq> 0" by (simp add: in_bounce_def)
    note g = expand_up [OF e ok d B up [OF d]]
    let ?i = "unat (a - loader_bounce_buffer_target s)"
    have i: "?i < unat (loader_bounce_buffer_size s)" "of_nat ?i = a - loader_bounce_buffer_target s"
      using True by (simp_all add: in_bounce_def)
    have "in_bounce s' a" using g i(1) by (auto simp: in_bounce_def word_le_nat_alt)
    moreover from g i(1) have "lmem s' (loader_bounce_buffer_data s' + of_nat ?i) = lmem s (loader_bounce_buffer_data s + of_nat ?i)"
      by blast
    ultimately show ?thesis using True g i(2) by (simp add: image_split settled_def)
  next
    case False
    with a(2) have b: "bounce_below_addr (lay s) \<le> a" by (simp add: settled_def)
    then have "\<not> in_bounce s' a" using bounce_range(3) [OF ok', of a] lay' by (auto simp: word_le_nat_alt)
    with False b show ?thesis using low [OF a(1)] by (simp add: image_split settled_def lay')
  qed
  with main show ?thesis by blast
qed

text \<open>The part of a segment that bounces.\<close>

lemma bounce_step:
  assumes e: "bounce_expand P B s = Some t" and ok: "loader_ok lo s" and r: "reads fs content"
    and B: "0 < B" "unat P + unat B \<le> unat (bounce_below_addr (lay s))"
    and av: "fsz \<noteq> 0 \<Longrightarrow> unat off + min (unat fsz) (unat B) \<le> length content"
    and up: "loader_bounce_buffer_data s \<noteq> 0 \<Longrightarrow> unat (loader_bounce_buffer_target s) \<le> unat P"
  shows "\<exists>fd' u. load_part fs fd (loader_bounce_buffer_data t + (P - loader_bounce_buffer_target t)) off B fsz t =
      (FR_OK, fd', u, fsz - (if B > fsz then fsz else B)) \<and>
    loader_ok lo u \<and> keeps lo s u \<and> loader_bounce_buffer_data u \<noteq> 0 \<and>
    unat (loader_bounce_buffer_target u) \<le> unat P \<and>
    (\<forall>a. unat a < lo \<longrightarrow> unat (a - P) < unat B \<longrightarrow>
       settled u a \<and> image u a = segment_byte content (unat off) (unat fsz) (unat (a - P))) \<and>
    (\<forall>a. unat a < lo \<longrightarrow> \<not> unat (a - P) < unat B \<longrightarrow> settled s a \<longrightarrow> settled u a \<and> image u a = image s a)"
proof -
  note x = expand_effect [OF e ok B up]
  let ?to = "loader_bounce_buffer_data t + (P - loader_bounce_buffer_target t)"
  let ?f = "segment_byte content (unat off) (unat fsz)"
  obtain fd' where part: "load_part fs fd ?to off B fsz t =
      (FR_OK, fd', t\<lparr>lmem := written ?to (unat B) ?f (lmem t)\<rparr>, fsz - (if B > fsz then fsz else B))"
    using load_part_effect [OF r av, of fd ?to t] by (auto simp: written_def)
  let ?u = "t\<lparr>lmem := written ?to (unat B) ?f (lmem t)\<rparr>"
  have p: "loader_ok lo ?u \<and> keeps lo t ?u \<and>
      (\<forall>a. unat a < lo \<longrightarrow> image ?u a = (if unat (a - P) < unat B then ?f (unat (a - P)) else image t a))"
    using x by (intro bounce_part) auto
  have k: "keeps lo s ?u" using x p keeps_blocks_trans by (fastforce simp: keeps_def)
  have inb: "settled ?u a" if "unat (a - P) < unat B" for a
  proof -
    have "unat P - unat (loader_bounce_buffer_target t) + unat B \<le> 4294967296"
      using x u32_less [of "loader_bounce_buffer_size t"] by linarith
    then have "unat (a - loader_bounce_buffer_target t) = unat (a - P) + (unat P - unat (loader_bounce_buffer_target t))"
      using x that by (intro shifted_offset) auto
    then show ?thesis using x that by (auto simp: settled_def in_bounce_def)
  qed
  have out: "settled ?u a" if "settled t a" for a using that by (simp add: settled_def in_bounce_def)
  show ?thesis
    using part p k inb out x by (intro exI [of _ fd'] exI [of _ ?u]) auto
qed

lemma direct_step:
  assumes ok: "loader_ok lo s" and r: "reads fs content"
    and to: "unat (bounce_below_addr (lay s)) \<le> unat to" "unat to + unat n \<le> lo"
    and av: "fsz \<noteq> 0 \<Longrightarrow> unat off + min (unat fsz) (unat n) \<le> length content"
  shows "\<exists>fd' u. load_part fs fd to off n fsz s = (FR_OK, fd', u, fsz - (if n > fsz then fsz else n)) \<and>
    loader_ok lo u \<and> keeps_blocks s u \<and> (\<forall>a. unat a < unat to \<longrightarrow> lmem u a = lmem s a) \<and>
    loader_bounce_buffer_data u = loader_bounce_buffer_data s \<and>
    loader_bounce_buffer_target u = loader_bounce_buffer_target s \<and>
    (\<forall>a. unat a < lo \<longrightarrow> unat (a - to) < unat n \<longrightarrow>
       settled u a \<and> image u a = segment_byte content (unat off) (unat fsz) (unat (a - to))) \<and>
    (\<forall>a. unat a < lo \<longrightarrow> \<not> unat (a - to) < unat n \<longrightarrow> settled u a = settled s a \<and> image u a = image s a)"
proof -
  let ?f = "segment_byte content (unat off) (unat fsz)" and ?b = "bounce_below_addr (lay s)"
  obtain fd' where part: "load_part fs fd to off n fsz s =
      (FR_OK, fd', s\<lparr>lmem := written to (unat n) ?f (lmem s)\<rparr>, fsz - (if n > fsz then fsz else n))"
    using load_part_effect [OF r av, of fd to s] by (auto simp: written_def)
  let ?u = "s\<lparr>lmem := written to (unat n) ?f (lmem s)\<rparr>"
  have d: "loader_ok lo ?u \<and> keeps_blocks s ?u \<and> (\<forall>a. unat a < unat to \<longrightarrow> lmem ?u a = lmem s a) \<and>
    (\<forall>a. unat a < lo \<longrightarrow> image ?u a = (if unat (a - to) < unat n then ?f (unat (a - to)) else image s a))"
    by (rule direct_part [OF ok to]) simp
  have st: "settled ?u a = settled s a" for a by (simp add: settled_def in_bounce_def)
  have "settled s a" if "unat (a - to) < unat n" for a
  proof -
    have "unat (a - to) + unat to < 4294967296"
      using that to(2) ok by (simp add: loader_ok_def)
    from u32_unat_add [OF this] have "unat to \<le> unat a" by simp
    with to(1) show ?thesis by (simp add: settled_def word_le_nat_alt)
  qed
  with part d st show ?thesis by (intro exI [of _ fd'] exI [of _ ?u]) auto
qed

lemma rest_byte:
  assumes "unat r = unat fsz - min (unat fsz) (unat b)"
    and "r \<noteq> 0 \<Longrightarrow> unat (off + b) = unat off + unat b"
  shows "segment_byte content (unat (off + b)) (unat r) k = segment_byte content (unat off) (unat fsz) (unat b + k)"
proof (cases "r = 0")
  case True
  then have "unat r = 0" by simp
  then have "unat fsz \<le> unat b" using assms(1) by linarith
  then show ?thesis using True by (simp add: segment_byte_def)
next
  case False
  then have "unat r \<noteq> 0" by (simp only: unat_eq_zero) simp
  then have "unat b < unat fsz" "unat r = unat fsz - unat b" using assms(1) by auto
  then show ?thesis using assms(2) [OF False] by (auto simp: segment_byte_def add.assoc)
qed

lemma guard_None:
  assumes "check_writable_range l P n True = None" "unat P + unat n < 2 ^ 32"
  shows "rom_below_addr l \<le> P" "unat P + unat n \<le> unat (heap_base l)"
  using assms u32_unat_add [of P n] by (auto simp: check_writable_range_def word_less_nat_alt word_le_nat_alt split: if_splits)

definition loaded :: "nat \<Rightarrow> loader \<Rightarrow> u32 \<Rightarrow> nat \<Rightarrow> (nat \<Rightarrow> u8) \<Rightarrow> loader \<Rightarrow> bool" where
  "loaded lo s P n f s' \<longleftrightarrow> loader_ok lo s' \<and> keeps_blocks s s' \<and>
    (\<forall>a. unat a < lo \<longrightarrow> a < bounce_below_addr (lay s) \<longrightarrow> lmem s' a = lmem s a) \<and>
    (loader_bounce_buffer_data s' \<noteq> 0 \<longrightarrow> loader_bounce_buffer_target s' \<le> P) \<and>
    (\<forall>a. unat a < lo \<longrightarrow> unat (a - P) < n \<longrightarrow> settled s' a \<and> image s' a = f (unat (a - P))) \<and>
    (\<forall>a. unat a < lo \<longrightarrow> \<not> unat (a - P) < n \<longrightarrow> settled s a \<longrightarrow> settled s' a \<and> image s' a = image s a)"

lemma load_data_effect:
  assumes ld: "load_data fs fd P off fsz sz s = Some (fr, fd', s')" and ok: "loader_ok lo s"
    and r: "reads fs content" and chk: "check_writable_range (lay s) P sz True = None"
    and nw: "unat P + unat sz < 2 ^ 32"
    and av: "unat off + min (unat fsz) (unat sz) \<le> length content" "length content < 2 ^ 32"
    and up: "loader_bounce_buffer_data s \<noteq> 0 \<Longrightarrow> loader_bounce_buffer_target s \<le> P"
  shows "fr = FR_OK \<and> loaded lo s P (unat sz) (segment_byte content (unat off) (unat fsz)) s'"
proof -
  let ?bb = "bounce_below_addr (lay s)"
  let ?f = "segment_byte content (unat off) (unat fsz)"
  define bd where "bd = (if P < ?bb then if ?bb - P \<ge> sz then (sz, 0) else (?bb - P, sz - (?bb - P)) else (0, sz))"
  obtain B D where BD: "bd = (B, D)" by (cases bd)
  have B: "unat B = (if unat P < unat ?bb then min (unat sz) (unat ?bb - unat P) else 0)"
    and D: "unat D = unat sz - unat B"
    using BD by (auto simp: bd_def u32_unat_sub word_less_nat_alt word_le_nat_alt split: if_splits)
  have top: "unat P + unat sz \<le> lo" using guard_None(2) [OF chk nw] ok by (simp add: loader_ok_def)
  have up': "loader_bounce_buffer_data s \<noteq> 0 \<Longrightarrow> unat (loader_bounce_buffer_target s) \<le> unat P"
    using up by (simp add: word_le_nat_alt)
  define one where "one = (if B \<noteq> 0 then do {
             t \<leftarrow> bounce_expand P B s;
             Some (load_part fs fd (loader_bounce_buffer_data t + (P - loader_bounce_buffer_target t)) off B fsz t) }
           else Some (FR_OK, fd, s, fsz))"
  have ld': "one \<bind> (\<lambda>(fr, fd, s, fsz). if fr \<noteq> FR_OK then Some (fr, fd, s)
      else if D \<noteq> 0 then (case load_part fs fd (P + B) (off + B) D fsz s of (fr, fd, s, fsz) \<Rightarrow> Some (fr, fd, s))
      else Some (FR_OK, fd, s)) = Some (fr, fd', s')"
    using ld chk BD unfolding load_data_def one_def bd_def by (simp add: Let_def cong: if_cong)
  have "\<exists>fd1 u R. one = Some (FR_OK, fd1, u, R) \<and> unat R = unat fsz - min (unat fsz) (unat B) \<and>
      loader_ok lo u \<and> keeps lo s u \<and> (loader_bounce_buffer_data u \<noteq> 0 \<longrightarrow> unat (loader_bounce_buffer_target u) \<le> unat P) \<and>
      (\<forall>a. unat a < lo \<longrightarrow> unat (a - P) < unat B \<longrightarrow> settled u a \<and> image u a = ?f (unat (a - P))) \<and>
      (\<forall>a. unat a < lo \<longrightarrow> \<not> unat (a - P) < unat B \<longrightarrow> settled s a \<longrightarrow> settled u a \<and> image u a = image s a)"
  proof (cases "B = 0")
    case True
    then show ?thesis using ok up' by (auto simp: one_def keeps_def)
  next
    case False
    from ld' False obtain t where e: "bounce_expand P B s = Some t" by (auto simp: one_def bind_eq_Some_conv)
    have "0 < unat B" using False by (simp add: word_neq_0_conv word_less_nat_alt)
    then have Bs: "0 < B" "unat P + unat B \<le> unat ?bb" "unat off + min (unat fsz) (unat B) \<le> length content"
      using B av(1) by (auto simp: word_less_nat_alt split: if_splits)
    from bounce_step [OF e ok r Bs(1,2) _ up', of fsz off fd] Bs(3) obtain fd1 u where
      l: "load_part fs fd (loader_bounce_buffer_data t + (P - loader_bounce_buffer_target t)) off B fsz t =
        (FR_OK, fd1, u, fsz - (if B > fsz then fsz else B))"
      and u: "loader_ok lo u \<and> keeps lo s u \<and> loader_bounce_buffer_data u \<noteq> 0 \<and>
        unat (loader_bounce_buffer_target u) \<le> unat P \<and>
        (\<forall>a. unat a < lo \<longrightarrow> unat (a - P) < unat B \<longrightarrow> settled u a \<and> image u a = ?f (unat (a - P))) \<and>
        (\<forall>a. unat a < lo \<longrightarrow> \<not> unat (a - P) < unat B \<longrightarrow> settled s a \<longrightarrow> settled u a \<and> image u a = image s a)"
      by auto
    have "unat (fsz - (if B > fsz then fsz else B)) = unat fsz - min (unat fsz) (unat B)"
      by (auto simp: u32_unat_sub word_less_nat_alt)
    with l u e False show ?thesis by (auto simp: one_def)
  qed
  then obtain fd1 u R where one: "one = Some (FR_OK, fd1, u, R)" and R: "unat R = unat fsz - min (unat fsz) (unat B)"
    and u: "loader_ok lo u" "keeps lo s u"
      "loader_bounce_buffer_data u \<noteq> 0 \<Longrightarrow> unat (loader_bounce_buffer_target u) \<le> unat P"
      "\<And>a. unat a < lo \<Longrightarrow> unat (a - P) < unat B \<Longrightarrow> settled u a \<and> image u a = ?f (unat (a - P))"
      "\<And>a. unat a < lo \<Longrightarrow> \<not> unat (a - P) < unat B \<Longrightarrow> settled s a \<Longrightarrow> settled u a \<and> image u a = image s a"
    by blast
  have lu: "lay u = lay s" "keeps_blocks s u" "\<And>a. unat a < lo \<Longrightarrow> lmem u a = lmem s a"
    using u(2) by (simp_all add: keeps_def keeps_blocks_def)
  show ?thesis
  proof (cases "D = 0")
    case True
    then have "unat D = 0" by simp
    then have BP: "unat B = unat sz" using D B by (auto split: if_splits)
    from ld' one True have s': "fr = FR_OK" "s' = u" by simp_all
    show ?thesis unfolding loaded_def s'(2) using s'(1) u lu up' BP by (auto simp: word_le_nat_alt)
  next
    case False
    then have Dp: "0 < unat D" by (simp add: word_neq_0_conv word_less_nat_alt)
    have PB: "unat (P + B) = unat P + unat B" using u32_unat_add [of P B] B nw by auto
    have to: "unat (bounce_below_addr (lay u)) \<le> unat (P + B)" "unat (P + B) + unat D \<le> lo"
      using B D Dp PB top lu(1) by (auto split: if_splits)
    have ob: "unat (off + B) = unat off + unat B" if "R \<noteq> 0"
    proof -
      have "0 < unat R" using that by (simp add: word_neq_0_conv word_less_nat_alt)
      then have "unat B < unat fsz" using R by linarith
      moreover have "unat B \<le> unat sz" using D Dp by linarith
      ultimately show ?thesis using av by (intro u32_unat_add) auto
    qed
    have "unat off + unat B + min (unat R) (unat D) \<le> length content" if "R \<noteq> 0"
    proof -
      have "0 < unat R" using that by (simp add: word_neq_0_conv word_less_nat_alt)
      then have "unat B + min (unat R) (unat D) = min (unat fsz) (unat sz)" using R D Dp by linarith
      then show ?thesis using av(1) by linarith
    qed
    then have av': "unat (off + B) + min (unat R) (unat D) \<le> length content" if "R \<noteq> 0" using ob that by simp
    from direct_step [OF u(1) r to av', of fd1] obtain fd2 v where
      l: "load_part fs fd1 (P + B) (off + B) D R u = (FR_OK, fd2, v, R - (if D > R then R else D))"
      and v: "loader_ok lo v" "keeps_blocks u v" "\<And>a. unat a < unat (P + B) \<Longrightarrow> lmem v a = lmem u a"
        "loader_bounce_buffer_data v = loader_bounce_buffer_data u"
        "loader_bounce_buffer_target v = loader_bounce_buffer_target u"
        "\<And>a. unat a < lo \<Longrightarrow> unat (a - (P + B)) < unat D \<Longrightarrow>
           settled v a \<and> image v a = segment_byte content (unat (off + B)) (unat R) (unat (a - (P + B)))"
        "\<And>a. unat a < lo \<Longrightarrow> \<not> unat (a - (P + B)) < unat D \<Longrightarrow> settled v a = settled u a \<and> image v a = image u a"
      by blast
    from ld' one l False have s': "fr = FR_OK" "s' = v" by simp_all
    have split: "unat (a - P) < unat sz \<longleftrightarrow> unat (a - P) < unat B \<or> unat (a - (P + B)) < unat D"
      "unat (a - (P + B)) < unat D \<Longrightarrow> unat (a - P) = unat B + unat (a - (P + B)) \<and> \<not> unat (a - P) < unat B" for a
    proof -
      have e: "a - (P + B) = (a - P) - B" by simp
      have w: "unat (a - (P + B)) = (if unat B \<le> unat (a - P) then unat (a - P) - unat B else 4294967296 + unat (a - P) - unat B)"
        unfolding e by (rule unat_sub_wrap)
      have "unat sz = unat B + unat D" "unat sz < 4294967296" using D Dp by simp_all
      with w show "unat (a - P) < unat sz \<longleftrightarrow> unat (a - P) < unat B \<or> unat (a - (P + B)) < unat D"
        "unat (a - (P + B)) < unat D \<Longrightarrow> unat (a - P) = unat B + unat (a - (P + B)) \<and> \<not> unat (a - P) < unat B"
        by (auto split: if_splits)
    qed
    have low: "lmem v a = lmem s a" if "unat a < lo" "a < ?bb" for a
      using v(3) [of a] lu(3) [OF that(1)] to(1) that(2) lu(1) by (simp add: word_less_nat_alt)
    have inside: "settled v a \<and> image v a = ?f (unat (a - P))" if a: "unat a < lo" "unat (a - P) < unat sz" for a
    proof (cases "unat (a - (P + B)) < unat D")
      case True
      then show ?thesis using v(6) [OF a(1) True] split(2) [OF True] rest_byte [OF R ob] by simp
    next
      case False
      then show ?thesis using split(1) [of a] a u(4) [of a] v(7) [of a] by simp
    qed
    have outside: "settled v a \<and> image v a = image s a" if a: "unat a < lo" "\<not> unat (a - P) < unat sz" "settled s a" for a
      using split(1) [of a] a u(5) [of a] v(7) [of a] by simp
    show ?thesis unfolding loaded_def s'(2)
      using s'(1) v(1) keeps_blocks_trans [OF lu(2) v(2)] low inside outside u(3) v(4,5) by (auto simp: word_le_nat_alt)
  qed
qed

lemma load_data_None:
  assumes "load_data fs fd P off fsz sz s = None"
  shows "P < bounce_below_addr (lay s) \<and> (\<exists>n. bounce_expand P n s = None)"
  using assms by (auto simp: load_data_def Let_def split: if_splits prod.splits bind_splits option.splits)


section \<open>All segments of an ELF file\<close>

fun segments :: "memory \<Rightarrow> u32 \<Rightarrow> u32 \<Rightarrow> nat \<Rightarrow> segment list" where
  "segments m a entsize 0 = []"
| "segments m a entsize (Suc n) = segment_at m a # segments m (a + entsize) entsize n"

text \<open>A segment the loader can load, at its load offset.\<close>

definition fits :: "layout \<Rightarrow> u8 list \<Rightarrow> u32 \<Rightarrow> segment \<Rightarrow> bool" where
  "fits l content lo p \<longleftrightarrow> check_writable_range l (lo + p_paddr p) (p_memsz p) True = None \<and>
     unat (lo + p_paddr p) + unat (p_memsz p) < 2 ^ 32 \<and>
     unat (p_offset p) + min (unat (p_filesz p)) (unat (p_memsz p)) \<le> length content"

definition before :: "u32 \<Rightarrow> segment \<Rightarrow> segment \<Rightarrow> bool" where
  "before lo p q \<longleftrightarrow> unat (lo + p_paddr p) + unat (p_memsz p) \<le> unat (lo + p_paddr q)"

definition loads :: "memory \<Rightarrow> u32 \<Rightarrow> u32 \<Rightarrow> nat \<Rightarrow> segment list" where
  "loads m a entsize n = filter (\<lambda>p. p_type p = PT_LOAD) (segments m a entsize n)"

text \<open>The program headers lie in a live block of the heap.\<close>

definition headers_in :: "block \<Rightarrow> u32 \<Rightarrow> u32 \<Rightarrow> nat \<Rightarrow> bool" where
  "headers_in c a entsize n \<longleftrightarrow> (\<forall>i < n. \<forall>k < 24. a + of_nat i * entsize + of_nat k \<in> byte_set c)"

lemma headers_in_Suc:
  assumes "headers_in c a entsize (Suc n)"
  shows "headers_in c (a + entsize) entsize n" "\<forall>k < 24. a + of_nat k \<in> byte_set c"
proof -
  have "a + entsize + of_nat i * entsize + of_nat k \<in> byte_set c" if "i < n" "k < 24" for i k
  proof -
    have "Suc i < Suc n" using that(1) by simp
    then have "a + of_nat (Suc i) * entsize + of_nat k \<in> byte_set c"
      using assms that(2) unfolding headers_in_def by blast
    then show ?thesis by (simp add: algebra_simps)
  qed
  then show "headers_in c (a + entsize) entsize n" by (simp add: headers_in_def)
  show "\<forall>k < 24. a + of_nat k \<in> byte_set c"
    using assms unfolding headers_in_def by (metis add.right_neutral mult_zero_left of_nat_0 zero_less_Suc)
qed

lemma segment_at_eq:
  assumes "\<forall>k < 24. m' (a + of_nat k) = m (a + of_nat k)"
  shows "segment_at m' a = segment_at m a"
proof -
  have k: "m' (a + w) = m (a + w)" if "unat w < 24" for w
    using assms that by (auto dest: spec [of _ "unat w"])
  have "m' a = m a" using k [of 0] by simp
  then show ?thesis by (simp add: segment_at_def mem32_def k add.assoc)
qed

lemma segments_eq:
  assumes "headers_in c a entsize n" "\<forall>x \<in> byte_set c. m' x = m x"
  shows "segments m' a entsize n = segments m a entsize n"
  using assms(1)
proof (induction n arbitrary: a)
  case (Suc n)
  from headers_in_Suc [OF Suc.prems] Suc.IH assms(2) show ?case by (simp add: segment_at_eq)
qed simp

text \<open>The state before the segments from the header at \<open>a\<close> on are loaded, in ascending order.\<close>

definition ready :: "nat \<Rightarrow> u8 list \<Rightarrow> block \<Rightarrow> u32 \<Rightarrow> u32 \<Rightarrow> u32 \<Rightarrow> nat \<Rightarrow> loader \<Rightarrow> bool" where
  "ready lo content c d a entsize n s \<longleftrightarrow> loader_ok lo s \<and> c \<in> set (hused (lheap s)) \<and>
     baddr c \<noteq> loader_bounce_buffer_data s \<and> headers_in c a entsize n \<and>
     (\<forall>p \<in> set (loads (lmem s) a entsize n). fits (lay s) content d p \<and>
        (loader_bounce_buffer_data s \<noteq> 0 \<longrightarrow> loader_bounce_buffer_target s \<le> d + p_paddr p)) \<and>
     sorted_wrt (before d) (loads (lmem s) a entsize n)"

lemma ready_skip:
  assumes "ready lo content c d a entsize (Suc n) s" "p_type (segment_at (lmem s) a) \<noteq> PT_LOAD"
  shows "loads (lmem s) a entsize (Suc n) = loads (lmem s) (a + entsize) entsize n"
    "ready lo content c d (a + entsize) entsize n s"
proof -
  show ls: "loads (lmem s) a entsize (Suc n) = loads (lmem s) (a + entsize) entsize n"
    using assms(2) by (simp add: loads_def)
  have "headers_in c a entsize (Suc n)" using assms(1) by (simp add: ready_def)
  from headers_in_Suc(1) [OF this] assms(1) ls show "ready lo content c d (a + entsize) entsize n s"
    by (simp only: ready_def) blast
qed

lemma ready_load:
  assumes rd: "ready lo content c d a entsize (Suc n) s" and r: "reads fs content" "length content < 2 ^ 32"
    and ty: "p_type (segment_at (lmem s) a) = PT_LOAD" and p: "p = segment_at (lmem s) a"
    and ld: "load_data fs fd (d + p_paddr p) (p_offset p) (p_filesz p) (p_memsz p) s = Some (fr, fd1, t)"
  shows "loads (lmem s) a entsize (Suc n) = p # loads (lmem s) (a + entsize) entsize n \<and> fr = FR_OK \<and>
    loaded lo s (d + p_paddr p) (unat (p_memsz p)) (segment_byte content (unat (p_offset p)) (unat (p_filesz p))) t \<and>
    loads (lmem t) (a + entsize) entsize n = loads (lmem s) (a + entsize) entsize n \<and>
    ready lo content c d (a + entsize) entsize n t"
proof -
  let ?P = "d + p_paddr p" and ?f = "segment_byte content (unat (p_offset p)) (unat (p_filesz p))"
  have ls: "loads (lmem s) a entsize (Suc n) = p # loads (lmem s) (a + entsize) entsize n"
    using ty by (simp add: loads_def p)
  have ok: "loader_ok lo s" "c \<in> set (hused (lheap s))" "baddr c \<noteq> loader_bounce_buffer_data s"
    "headers_in c a entsize (Suc n)" using rd by (simp_all add: ready_def)
  have fp: "fits (lay s) content d p" "loader_bounce_buffer_data s \<noteq> 0 \<Longrightarrow> loader_bounce_buffer_target s \<le> ?P"
    using rd ls by (auto simp: ready_def)
  have t: "fr = FR_OK \<and> loaded lo s ?P (unat (p_memsz p)) ?f t"
    using fp r(2) by (intro load_data_effect [OF ld ok(1) r(1)]) (auto simp: fits_def)
  then have c: "c \<in> set (hused (lheap t))" "baddr c \<noteq> loader_bounce_buffer_data t" "\<forall>x \<in> byte_set c. lmem t x = lmem s x"
    "lay t = lay s" using ok(2,3) by (auto simp: loaded_def keeps_blocks_def)
  have eq: "loads (lmem t) (a + entsize) entsize n = loads (lmem s) (a + entsize) entsize n"
    unfolding loads_def using segments_eq [OF headers_in_Suc(1) [OF ok(4)] c(3)] by simp
  have "fits (lay t) content d q \<and>
     (loader_bounce_buffer_data t \<noteq> 0 \<longrightarrow> loader_bounce_buffer_target t \<le> d + p_paddr q)"
    if q: "q \<in> set (loads (lmem s) (a + entsize) entsize n)" for q
  proof -
    have "before d p q" using rd q unfolding ready_def ls by simp
    then have "?P \<le> d + p_paddr q" by (simp add: before_def word_le_nat_alt)
    moreover have "loader_bounce_buffer_data t \<noteq> 0 \<longrightarrow> loader_bounce_buffer_target t \<le> ?P" using t by (simp add: loaded_def)
    ultimately show ?thesis using rd q unfolding ready_def ls c(4) by (auto intro: order_trans)
  qed
  moreover have "sorted_wrt (before d) (loads (lmem s) (a + entsize) entsize n)"
    using rd unfolding ready_def ls by simp
  ultimately have "ready lo content c d (a + entsize) entsize n t"
    using t c(1,2) headers_in_Suc(1) [OF ok(4)] unfolding ready_def eq by (simp add: loaded_def)
  with ls t eq show ?thesis by blast
qed

lemma before_apart:
  assumes "before d p q" "fits l content d p" "fits l content d q"
    and "unat (x - (d + p_paddr p)) < unat (p_memsz p)"
  shows "\<not> unat (x - (d + p_paddr q)) < unat (p_memsz q)"
proof
  let ?P = "d + p_paddr p" and ?Q = "d + p_paddr q"
  assume l: "unat (x - ?Q) < unat (p_memsz q)"
  have w: "unat ?P + unat (p_memsz p) < 4294967296" "unat ?Q + unat (p_memsz q) < 4294967296"
    using assms(2,3) by (auto simp: fits_def)
  have "unat x = unat (x - ?Q) + unat ?Q" using u32_unat_add [of "x - ?Q" ?Q] l w(2) by simp
  moreover have "unat x = unat (x - ?P) + unat ?P" using u32_unat_add [of "x - ?P" ?P] assms(4) w(1) by simp
  ultimately show False using assms(1,4) unfolding before_def by linarith
qed

text \<open>What the jump finds of the segments, and what else is as before.\<close>

definition all_loaded :: "nat \<Rightarrow> u8 list \<Rightarrow> u32 \<Rightarrow> segment list \<Rightarrow> loader \<Rightarrow> loader \<Rightarrow> bool" where
  "all_loaded lo content d ps s s' \<longleftrightarrow> loader_ok lo s' \<and> keeps_blocks s s' \<and>
    (\<forall>p \<in> set ps. \<forall>x. unat x < lo \<longrightarrow> unat (x - (d + p_paddr p)) < unat (p_memsz p) \<longrightarrow> settled s' x \<and>
       image s' x = segment_byte content (unat (p_offset p)) (unat (p_filesz p)) (unat (x - (d + p_paddr p)))) \<and>
    (\<forall>x. unat x < lo \<longrightarrow> settled s x \<longrightarrow>
       (\<forall>p \<in> set ps. \<not> unat (x - (d + p_paddr p)) < unat (p_memsz p)) \<longrightarrow> settled s' x \<and> image s' x = image s x)"

lemma all_loaded_Cons:
  assumes t: "loaded lo s (d + p_paddr p) (unat (p_memsz p)) (segment_byte content (unat (p_offset p)) (unat (p_filesz p))) t"
    and ih: "all_loaded lo content d ps t s'"
    and apart: "\<And>q x. q \<in> set ps \<Longrightarrow> unat (x - (d + p_paddr p)) < unat (p_memsz p) \<Longrightarrow>
      \<not> unat (x - (d + p_paddr q)) < unat (p_memsz q)"
  shows "all_loaded lo content d (p # ps) s s'"
proof -
  have mine: "settled s' x \<and> image s' x = segment_byte content (unat (p_offset p)) (unat (p_filesz p)) (unat (x - (d + p_paddr p)))"
    if x: "unat x < lo" "unat (x - (d + p_paddr p)) < unat (p_memsz p)" for x
    using t ih apart [OF _ x(2)] x unfolding loaded_def all_loaded_def by metis
  have others: "settled s' x \<and> image s' x = image s x"
    if x: "unat x < lo" "settled s x" "\<forall>q \<in> set (p # ps). \<not> unat (x - (d + p_paddr q)) < unat (p_memsz q)" for x
    using t ih x unfolding loaded_def all_loaded_def by (metis list.set_intros)
  have "keeps_blocks s s'" using t ih keeps_blocks_trans by (auto simp: loaded_def all_loaded_def)
  with mine others ih show ?thesis unfolding all_loaded_def by auto
qed

lemma load_segments_effect:
  assumes "ready lo content c d a entsize n s" "reads fs content" "length content < 2 ^ 32"
  shows "case load_segments fs d a entsize n fd s of
      None \<Rightarrow> \<exists>p \<in> set (loads (lmem s) a entsize n). d + p_paddr p < bounce_below_addr (lay s)
    | Some (ok, fd', s') \<Rightarrow> ok \<and> all_loaded lo content d (loads (lmem s) a entsize n) s s'"
  using assms(1)
proof (induction n arbitrary: a fd s)
  case 0
  then show ?case by (simp add: loads_def all_loaded_def ready_def)
next
  case (Suc n)
  let ?p = "segment_at (lmem s) a"
  show ?case
  proof (cases "p_type ?p = PT_LOAD")
    case False
    from ready_skip [OF Suc.prems False] have ls: "loads (lmem s) a entsize (Suc n) = loads (lmem s) (a + entsize) entsize n"
      and rd: "ready lo content c d (a + entsize) entsize n s" .
    have "load_segments fs d a entsize (Suc n) fd s = load_segments fs d (a + entsize) entsize n fd s"
      using False by (simp add: Let_def)
    with Suc.IH [OF rd, of fd] ls show ?thesis by presburger
  next
    case True
    have ls: "loads (lmem s) a entsize (Suc n) = ?p # loads (lmem s) (a + entsize) entsize n"
      using True by (simp add: loads_def)
    show ?thesis
    proof (cases "load_data fs fd (d + p_paddr ?p) (p_offset ?p) (p_filesz ?p) (p_memsz ?p) s")
      case None
      then show ?thesis using load_data_None [OF None] True ls by (simp add: Let_def)
    next
      case (Some y)
      then obtain fr fd1 t where ld: "load_data fs fd (d + p_paddr ?p) (p_offset ?p) (p_filesz ?p) (p_memsz ?p) s = Some (fr, fd1, t)"
        by (cases y) auto
      note step = ready_load [OF Suc.prems assms(2,3) True refl ld]
      have run: "load_segments fs d a entsize (Suc n) fd s = load_segments fs d (a + entsize) entsize n fd1 t"
        using ld True step by (simp add: Let_def)
      have ih: "case load_segments fs d (a + entsize) entsize n fd1 t of
          None \<Rightarrow> \<exists>p \<in> set (loads (lmem s) (a + entsize) entsize n). d + p_paddr p < bounce_below_addr (lay s)
        | Some (ok, fd', s') \<Rightarrow> ok \<and> all_loaded lo content d (loads (lmem s) (a + entsize) entsize n) t s'"
      proof -
        from step have rd: "ready lo content c d (a + entsize) entsize n t"
          and eqs: "loads (lmem t) (a + entsize) entsize n = loads (lmem s) (a + entsize) entsize n" "lay t = lay s"
          by (auto simp: loaded_def keeps_blocks_def)
        show ?thesis by (rule Suc.IH [OF rd, of fd1, unfolded eqs])
      qed
      have apart: "\<not> unat (x - (d + p_paddr q)) < unat (p_memsz q)"
        if q: "q \<in> set (loads (lmem s) (a + entsize) entsize n)" and x: "unat (x - (d + p_paddr ?p)) < unat (p_memsz ?p)" for q x
        using Suc.prems q unfolding ready_def ls by (intro before_apart [OF _ _ _ x]) auto
      show ?thesis
      proof (cases "load_segments fs d (a + entsize) entsize n fd1 t")
        case None
        then show ?thesis using ih run ls by simp
      next
        case (Some z)
        then obtain ok fd' s' where z: "load_segments fs d (a + entsize) entsize n fd1 t = Some (ok, fd', s')" by (cases z) auto
        have al: "ok" "all_loaded lo content d (loads (lmem s) (a + entsize) entsize n) t s'" using ih unfolding z by auto
        have "loaded lo s (d + p_paddr ?p) (unat (p_memsz ?p)) (segment_byte content (unat (p_offset ?p)) (unat (p_filesz ?p))) t"
          using step by blast
        from all_loaded_Cons [OF this al(2) apart] al(1) show ?thesis unfolding run z ls by simp
      qed
    qed
  qed
qed


section \<open>Booting\<close>

lemma boot_loader_ok:
  assumes "dram_target bss_end ram l" "0x10000 \<le> unat ram" "16 dvd unat ram" "unat ram \<le> 2 ^ 30"
    and "unat bss_end \<le> 2 ^ 30 - 4"
  shows "loader_ok (heap_first l) (boot_loader l m)"
proof -
  note h = heap_init_ready [OF assms(1-4)]
  have "unat (bounce_below_addr l) = (unat bss_end + 3) div 4 * 4"
    using dram_target_layout(3) [OF assms(1,2)] round_up [of bss_end] assms(5) by simp
  then have "4 dvd unat (bounce_below_addr l)" "unat (bounce_below_addr l) \<le> 2 ^ 30" using assms(5) by auto
  moreover have "unat (heap_base l) \<le> heap_first l" "0 < heap_first l" by (simp_all add: heap_first_def)
  ultimately show ?thesis using h assms(4) by (simp add: loader_ok_def boot_loader_def)
qed

text \<open>The firmware starts right: on every target whose program runs in main memory, with 64 KiB to 1 GiB of
  RAM, the heap that \<open>heap_init\<close> builds in the space the memory layout leaves for it is well formed and
  ends within the RAM, and the first state satisfies the invariant of the loader.\<close>

theorem boot_ready:
  assumes "dram_target bss_end ram l" "0x10000 \<le> unat ram" "16 dvd unat ram" "unat ram \<le> 2 ^ 30"
    and "unat bss_end \<le> 2 ^ 30 - 4"
  shows "heap_wf (heap_first l) (heap_init l) \<and> unat (heap_limit (heap_init l)) \<le> unat ram \<and>
    loader_ok (heap_first l) (boot_loader l m)"
  using heap_init_ready [OF assms(1-4)] boot_loader_ok [OF assms] by simp

lemma q40_dram: "dram_target b r (q40_mem_init b r)" by (simp add: dram_target_def)

theorem boot_ready_witness:
  "heap_wf (heap_first (q40_mem_init 0x30001 0x2000000)) (heap_init (q40_mem_init 0x30001 0x2000000))"
  using boot_ready [OF q40_dram, of "0x2000000" "0x30001"] by simp

text \<open>A Q40 with 4 MiB and a file of eight bytes, on a file system whose state is the position.\<close>

definition sample_fs :: "u8 list \<Rightarrow> u32 fatfs" where
  "sample_fs content = \<lparr>f_lseek = (\<lambda>_ off. (FR_OK, off)),
     f_read = (\<lambda>off n. (FR_OK, take (unat n) (drop (unat off) content), off + n)),
     f_size = (\<lambda>_. of_nat (length content)), f_open = (\<lambda>_. (FR_OK, 0))\<rparr>"

definition sample_loader :: loader where
  "sample_loader = boot_loader (q40_mem_init 0x30001 0x400000) (\<lambda>_. 7)"

lemma sample_reads: "reads (sample_fs content) content" by (simp add: reads_def sample_fs_def)

lemma sample_ok: "loader_ok (heap_first (lay sample_loader)) sample_loader"
  using boot_loader_ok [OF q40_dram, of "0x400000" "0x30001"] by (simp add: sample_loader_def boot_loader_def)

lemma sample_lay: "lay sample_loader = \<lparr>ram_size = 0x400000, stack_base = 0x3FE000, stack_size = 0x2000,
    stack_top = 0x400000, heap_base = 0x300000, heap_size = 0xFE000, bounce_below_addr = 0x30004, rom_below_addr = 0x28000\<rparr>"
  by (simp add: sample_loader_def boot_loader_def q40_mem_init_def dram_layout_def MAXHEAP_def DEFAULT_STACK_SIZE_def)


text \<open>Two program headers of 32 bytes in a block of the heap.\<close>

definition sample_headers :: memory where
  "sample_headers = (\<lambda>_. 0)(0x100043 := 1, 0x10004D := 4, 0x100053 := 4, 0x100057 := 6,
     0x100063 := 1, 0x100067 := 4, 0x10006D := 5, 0x100073 := 2, 0x100077 := 2)"

definition header_loader :: loader where
  "header_loader = \<lparr>lheap = snd (ta_alloc 64 heap0), lmem = sample_headers,
     lay = (lay sample_loader)\<lparr>heap_base := 0x100000\<rparr>, loader_scratch_space = 0,
     loader_bounce_buffer_data = 0, loader_bounce_buffer_size = 0, loader_bounce_buffer_target = 0\<rparr>"

lemma header_heap: "snd (ta_alloc 64 heap0) = \<lparr>hfree = [], hused = [Block 0 0x100040 64],
    hfresh = [Block 1 0 0, Block 2 0 0, Block 3 0 0], htop = 0x100080, heap_limit = 0x101000,
    heap_split_thresh = 16, heap_alignment = 4, heap_max_blocks = 4\<rparr>"
  by (simp add: heap0_eq ta_alloc_def alloc_block_def round_num_def is_top_def Let_def)

lemma header_segments: "segments (lmem header_loader) 0x100040 32 2 =
  [\<lparr>p_type = 1, p_offset = 0, p_paddr = 0x40000, p_filesz = 4, p_memsz = 6\<rparr>,
   \<lparr>p_type = 1, p_offset = 4, p_paddr = 0x50000, p_filesz = 2, p_memsz = 2\<rparr>]"
proof -
  have two: "segments m a e 2 = [segment_at m a, segment_at m (a + e)]" for m a e by (simp add: numeral_2_eq_2)
  have "segment_at sample_headers 0x100040 = \<lparr>p_type = 1, p_offset = 0, p_paddr = 0x40000, p_filesz = 4, p_memsz = 6\<rparr>"
    by (simp add: segment_at_def mem32_def sample_headers_def be32_def push_bit_eq_mult)
  moreover have "segment_at sample_headers 0x100060 = \<lparr>p_type = 1, p_offset = 4, p_paddr = 0x50000, p_filesz = 2, p_memsz = 2\<rparr>"
    by (simp add: segment_at_def mem32_def sample_headers_def be32_def push_bit_eq_mult)
  ultimately show ?thesis by (simp add: two header_loader_def)
qed

lemma header_loader_ready: "ready 1048640 [1, 2, 3, 4, 5, 6, 7, 8] (Block 0 0x100040 64) 0 0x100040 32 2 header_loader"
proof -
  have rq: "request_ok 64 heap0" by (simp add: heap0_eq request_ok_def)
  have a: "ta_alloc 64 heap0 = (0x100040, snd (ta_alloc 64 heap0))"
    by (simp add: heap0_eq ta_alloc_def alloc_block_def round_num_def is_top_def Let_def)
  have "heap_wf 1048640 (snd (ta_alloc 64 heap0))"
    using ta_alloc_cases [OF a heap0_wf rq] by auto
  moreover have "4 dvd (196612 :: nat)" by simp
  ultimately have ok: "loader_ok 1048640 header_loader"
    by (simp add: loader_ok_def header_loader_def sample_lay header_heap)
  have "headers_in (Block 0 0x100040 64) 0x100040 32 2"
  proof -
    have "0x100040 + of_nat i * 32 + of_nat k \<in> byte_set (Block 0 0x100040 64)" if "i < 2" "k < 24" for i k :: nat
    proof -
      have "unat (of_nat (i * 32 + k) :: u32) = i * 32 + k" using that by (intro u32_unat_of_nat) simp
      then show ?thesis using that by (simp add: byte_set_def)
    qed
    then show ?thesis by (simp add: headers_in_def)
  qed
  then show ?thesis
    using ok unfolding ready_def loads_def header_segments
    by (simp add: header_loader_def header_heap PT_LOAD_def fits_def before_def sample_lay check_writable_range_def)
qed


end
