(* ===== verification/Strtoul.thy ===== *)
theory Strtoul
  imports CString
begin

text \<open>
  The number parser of \<^verbatim>\<open>lib/strtoul.c\<close>. The scanning pointer \<open>cp\<close> is the offset of the byte it
  points to in the argument string; reading past the end of the object is \<open>None\<close>. A result is
  the value, the offset stored through \<open>endptr\<close> and the value left in \<open>errno\<close>.
\<close>

definition rd :: "cbytes \<Rightarrow> nat \<Rightarrow> u8 option" where
  "rd s i = (if i < length s then Some (s ! i) else None)"

text \<open>\<open>RUB\<close> is 0377; a byte from 0x80 on is a negative \<open>char\<close> and in none of the ranges.\<close>

definition RUB :: u8 where "RUB = 0xFF"

definition ndigit :: "u8 \<Rightarrow> u8" where
  "ndigit c =
     (if c \<ge> 0x30 \<and> c \<le> 0x39 then c - 0x30
      else if c \<ge> 0x41 \<and> c \<le> 0x5A then c - (0x41 - 10)
      else if c \<ge> 0x61 \<and> c \<le> 0x7A then c - (0x61 - 10)
      else RUB)"

function skip_space :: "cbytes \<Rightarrow> nat \<Rightarrow> nat option" where
  "skip_space s cp =
     (case rd s cp of None \<Rightarrow> None
      | Some c \<Rightarrow> if isspace c then skip_space s (cp + 1) else Some cp)"
  by pat_completeness auto
termination by (relation "measure (\<lambda>(s, cp). length s - cp)") (auto simp: rd_def split: if_splits)

declare skip_space.simps [simp del]

definition ULONG_MAX :: u32 where "ULONG_MAX = 0xFFFFFFFF"

text \<open>The conversion loop, entered with \<open>cp\<close> at the last digit read: the pre-increment reads the
  next one, and an unacceptable digit restarts the value and steps over one more byte.\<close>

function convert :: "cbytes \<Rightarrow> int \<Rightarrow> nat \<Rightarrow> u32 \<Rightarrow> int \<Rightarrow> (u32 \<times> nat \<times> int) option" where
  "convert s radix cp val errno =
     (let cp = cp + 1 in
      case rd s cp of None \<Rightarrow> None
      | Some c \<Rightarrow>
          (let digit = ndigit c;
               max = ULONG_MAX div of_int radix;
               maxdigit = ucast (ULONG_MAX mod of_int radix) :: u8
           in if digit = RUB then Some (val, cp, errno)
              else if uint digit < radix \<and> (val < max \<or> val = max \<and> digit \<le> maxdigit)
                   then convert s radix cp (val * of_int radix + ucast digit) errno
                   else convert s radix (cp + 1) 0 1))"
  by pat_completeness auto
termination
  by (relation "measure (\<lambda>(s, radix, cp, val, errno). length s - cp)")
    (auto simp: rd_def split: if_splits)

declare convert.simps [simp del]

text \<open>The radix prefix: the radix to use, the first digit and the position it was read at.\<close>

definition radix_prefix :: "cbytes \<Rightarrow> int \<Rightarrow> nat \<Rightarrow> (int \<times> u8 \<times> nat) option" where
  "radix_prefix s radix cp =
     Option.bind (rd s cp) (\<lambda>c.
       let digit = ndigit c in
       if radix = 0 then
         (if digit = 0 then
            Option.bind (rd s (cp + 1)) (\<lambda>x.
              if ndigit x = 33
              then map_option (\<lambda>d. (16, ndigit d, cp + 2)) (rd s (cp + 2))
              else Some (8, digit, cp))
          else Some (10, digit, cp))
       else if radix = 16 \<and> digit = 0 then
         map_option (\<lambda>x. if ndigit x = 33 then (radix, digit, cp + 1) else (radix, digit, cp)) (rd s (cp + 1))
       else Some (radix, digit, cp))"

definition strtoul :: "cbytes \<Rightarrow> int \<Rightarrow> (u32 \<times> nat \<times> int) option" where
  "strtoul s radix =
     Option.bind (skip_space s 0) (\<lambda>cp.
     Option.bind (rd s cp) (\<lambda>c.
       let (sign, cp) = (if c = 0x2D then (-1, cp + 1) else if c = 0x2B then (1, cp + 1) else (0, cp)) in
       Option.bind (radix_prefix s radix cp) (\<lambda>(radix, digit, cp).
         if uint digit \<ge> radix then Some (0, 0, 1)
         else map_option (\<lambda>(val, end, errno). (if sign < (0 :: int) then - val else val, end, errno))
                (convert s radix cp (ucast digit) 0))))"

definition atoi :: "cbytes \<Rightarrow> int option" where
  "atoi s = map_option (\<lambda>(val, _, _). sint val) (strtoul s 0)"

definition strtol :: "cbytes \<Rightarrow> int \<Rightarrow> (int \<times> nat \<times> int) option" where
  "strtol s base =
     Option.bind (skip_space s 0) (\<lambda>p.
     Option.bind (rd s p) (\<lambda>c.
       let negative = (c = 0x2D) in
       map_option (\<lambda>(number, end, errno). (sint (if negative then - number else number), end, errno))
         (strtoul s base)))"

section \<open>What the parser accepts\<close>

lemma rd_append [simp]: "rd (xs @ y # ys) (length xs) = Some y"
  by (simp add: rd_def)

lemma rd_at: "s = xs @ y # ys \<Longrightarrow> i = length xs \<Longrightarrow> rd s i = Some y"
  by simp

lemma skip_space_stop:
  "\<forall>b \<in> set sp. isspace b \<Longrightarrow> \<not> isspace y \<Longrightarrow>
   skip_space (xs @ sp @ y # ys) (length xs) = Some (length xs + length sp)"
proof (induction sp arbitrary: xs)
  case Nil
  then show ?case by (subst skip_space.simps) simp
next
  case (Cons b sp)
  from Cons.IH [of "xs @ [b]"] Cons.prems have
    "skip_space (xs @ (b # sp) @ y # ys) (length xs + 1) = Some (length xs + 1 + length sp)" by simp
  then show ?case using Cons.prems by (subst skip_space.simps) simp
qed

text \<open>The guard against overflow is exact.\<close>

lemma no_overflow_nat:
  fixes v r d m q M :: nat
  assumes "m * r + q = M" "q < r" "d < r"
  shows "v < m \<or> v = m \<and> d \<le> q \<longleftrightarrow> v * r + d \<le> M"
proof -
  consider "v < m" | "v = m" | "m < v" by linarith
  then show ?thesis
  proof cases
    case 1
    then have "Suc v * r \<le> m * r" by (intro mult_le_mono1) simp
    with 1 assms show ?thesis by simp
  next
    case 3
    then have "Suc m * r \<le> v * r" by (intro mult_le_mono1) simp
    with 3 assms show ?thesis by simp
  qed (use assms in auto)
qed

lemma convert_guard:
  fixes v :: u32 and d :: u8
  assumes r: "2 \<le> r" "r \<le> 36" and d: "unat d < r"
  shows "(v < ULONG_MAX div of_nat r \<or>
      v = ULONG_MAX div of_nat r \<and> d \<le> (ucast (ULONG_MAX mod of_nat r :: u32) :: u8)) \<longleftrightarrow>
    unat v * r + unat d < 4294967296"
proof -
  have ur: "unat (of_nat r :: u32) = r" using r by (intro u32_unat_of_nat) simp
  have m: "unat (ULONG_MAX div of_nat r :: u32) = 4294967295 div r"
    by (simp add: unat_div ur ULONG_MAX_def)
  have "unat (ULONG_MAX mod of_nat r :: u32) = 4294967295 mod r"
    by (simp add: unat_mod ur ULONG_MAX_def)
  moreover have qr: "4294967295 mod r < r" using r by simp
  then have "4294967295 mod r < 256" using r(2) by linarith
  then have "4294967295 mod r < (2 :: nat) ^ 8" by simp
  ultimately have q: "unat (ucast (ULONG_MAX mod of_nat r :: u32) :: u8) = 4294967295 mod r"
    by (simp add: unsigned_ucast_eq take_bit_nat_eq_self)
  have e: "4294967295 div r * r + 4294967295 mod r = (4294967295 :: nat)" by (rule div_mult_mod_eq)
  have "(v < ULONG_MAX div of_nat r \<or>
      v = ULONG_MAX div of_nat r \<and> d \<le> (ucast (ULONG_MAX mod of_nat r :: u32) :: u8)) \<longleftrightarrow>
    (unat v < 4294967295 div r \<or> unat v = 4294967295 div r \<and> unat d \<le> 4294967295 mod r)"
    by (simp only: word_less_nat_alt word_le_nat_alt word_unat_eq_iff m q)
  also have "\<dots> \<longleftrightarrow> unat v * r + unat d \<le> 4294967295"
    using qr d by (intro no_overflow_nat [OF e]) simp_all
  finally show ?thesis by auto
qed

definition digits_value :: "nat \<Rightarrow> cbytes \<Rightarrow> nat \<Rightarrow> nat" where
  "digits_value r cs v = foldl (\<lambda>v c. v * r + unat (ndigit c)) v cs"

lemma digits_value_simps [simp]:
  "digits_value r [] v = v" "digits_value r (c # cs) v = digits_value r cs (v * r + unat (ndigit c))"
  by (simp_all add: digits_value_def)

lemma digits_value_mono: "1 \<le> r \<Longrightarrow> v \<le> digits_value r cs v"
proof (induction cs arbitrary: v)
  case (Cons c cs)
  have "v \<le> v * r + unat (ndigit c)" using Cons.prems by (simp add: trans_le_add1)
  also have "\<dots> \<le> digits_value r cs (v * r + unat (ndigit c))" using Cons by simp
  finally show ?case by simp
qed simp

lemma convert_digits:
  assumes r: "2 \<le> r" "r \<le> 36"
  shows "\<forall>c \<in> set cs. unat (ndigit c) < r \<Longrightarrow> digits_value r cs (unat v) < 4294967296 \<Longrightarrow>
    ndigit y = RUB \<Longrightarrow>
    convert (xs @ x # cs @ y # ys) (int r) (length xs) v err =
      Some (of_nat (digits_value r cs (unat v)), length xs + 1 + length cs, err)"
proof (induction cs arbitrary: v xs x)
  case Nil
  have "rd (xs @ x # y # ys) (length xs + 1) = Some y" by (simp add: rd_def nth_append)
  with Nil show ?case by (subst convert.simps) (simp add: Let_def)
next
  case (Cons c cs)
  have rdc: "rd (xs @ x # (c # cs) @ y # ys) (length xs + 1) = Some c" by (simp add: rd_def nth_append)
  have d: "unat (ndigit c) < r" using Cons.prems by simp
  then have nr: "ndigit c \<noteq> RUB" using r by (auto simp: RUB_def)
  have "unat v * r + unat (ndigit c) \<le> digits_value r (c # cs) (unat v)"
    using r digits_value_mono [of r] by simp
  then have nov: "unat v * r + unat (ndigit c) < 4294967296" using Cons.prems by simp
  have ur: "unat (of_nat r :: u32) = r" using r by (intro u32_unat_of_nat) simp
  have uv: "unat (v * of_nat r + ucast (ndigit c)) = unat v * r + unat (ndigit c)"
  proof -
    have "unat (v * of_nat r) = unat v * r" using nov ur by (subst u32_unat_mult) simp_all
    then show ?thesis using nov by (subst u32_unat_add) (simp_all add: unsigned_ucast_eq take_bit_nat_eq_self)
  qed
  have ug: "uint (ndigit c) < int r" using d by (metis of_nat_less_iff of_nat_unat)
  from Cons.IH [of "v * of_nat r + ucast (ndigit c)" "xs @ [x]" c] Cons.prems uv
  have "convert (xs @ x # (c # cs) @ y # ys) (int r) (length xs + 1) (v * of_nat r + ucast (ndigit c)) err =
      Some (of_nat (digits_value r (c # cs) (unat v)), length xs + 1 + length (c # cs), err)"
    by simp
  then show ?case
    using rdc nr ug convert_guard [OF r d, of v] nov by (subst convert.simps) (simp add: Let_def)
qed

lemma ndigit_not_space: "ndigit c \<noteq> RUB \<Longrightarrow> \<not> isspace c \<and> c \<noteq> 0x2D \<and> c \<noteq> 0x2B"
  by (auto simp: ndigit_def isspace_def RUB_def)


lemma radix_prefix_digit:
  assumes "ndigit c \<noteq> RUB" "unat (ndigit c) < r" "r \<noteq> 0"
    and "r = 16 \<longrightarrow> ndigit y \<noteq> 33"
  shows "radix_prefix (xs @ c # y # ys) (int r) (length xs) = Some (int r, ndigit c, length xs)"
proof -
  have "rd (xs @ c # y # ys) (Suc (length xs)) = Some y" by (simp add: rd_def nth_append)
  then show ?thesis using assms by (auto simp: radix_prefix_def Let_def)
qed

definition sign_bytes :: "bool \<Rightarrow> cbytes \<Rightarrow> bool" where
  "sign_bytes neg sg \<longleftrightarrow> (if neg then sg = [0x2D] else sg = [] \<or> sg = [0x2B])"

lemma sign_bytes_cases:
  "sign_bytes neg sg \<Longrightarrow> (neg \<and> sg = [0x2D]) \<or> (\<not> neg \<and> sg = []) \<or> (\<not> neg \<and> sg = [0x2B])"
  by (auto simp: sign_bytes_def split: if_splits)

lemma strtoul_after_sign:
  assumes r: "2 \<le> r" "r \<le> 36"
    and cs: "\<forall>b \<in> set (c # cs). ndigit b \<noteq> RUB \<and> unat (ndigit b) < r" and y: "ndigit y = RUB"
    and fits: "digits_value r (c # cs) 0 < 4294967296"
    and s: "s = xs @ c # cs @ y # ys" and p: "p = length xs"
  shows "Option.bind (radix_prefix s (int r) p) (\<lambda>(radix, digit, cp).
         if uint digit \<ge> radix then Some (0, 0, 1)
         else map_option (\<lambda>(val, end, errno). (if sign < (0 :: int) then - val else val, end, errno))
                (convert s radix cp (ucast digit) 0)) =
    Some (if sign < 0 then - of_nat (digits_value r (c # cs) 0) else of_nat (digits_value r (c # cs) 0),
      p + 1 + length cs, 0)"
proof -
  obtain z zs where z: "cs @ y # ys = z # zs" "r = 16 \<longrightarrow> ndigit z \<noteq> 33"
  proof (cases cs)
    case Nil
    with that [of y ys] y show ?thesis by (simp add: RUB_def)
  next
    case (Cons b bs)
    then have "unat (ndigit b) < r" using cs by simp
    then have "r = 16 \<longrightarrow> ndigit b \<noteq> 33" by auto
    with that [of b "bs @ y # ys"] Cons show ?thesis by simp
  qed
  have rp: "radix_prefix (xs @ c # cs @ y # ys) (int r) (length xs) = Some (int r, ndigit c, length xs)"
    unfolding z(1) by (rule radix_prefix_digit) (use cs r z in auto)
  have ug: "\<not> uint (ndigit c) \<ge> int r"
    using cs by (simp add: not_le) (metis of_nat_less_iff of_nat_unat)
  have u: "unat (ucast (ndigit c) :: u32) = unat (ndigit c)"
    by simp
  have "convert (xs @ c # cs @ y # ys) (int r) (length xs) (ucast (ndigit c)) 0 =
      Some (of_nat (digits_value r (c # cs) 0), length xs + 1 + length cs, 0)"
    using convert_digits [OF r, of cs "ucast (ndigit c)" y xs c ys 0] cs y fits u by simp
  with rp ug show ?thesis unfolding s p by simp
qed

lemma strtoul_plain:
  assumes "2 \<le> r" and "r \<le> 36" and "\<forall>b \<in> set (c # cs). ndigit b \<noteq> RUB \<and> unat (ndigit b) < r"
    and "ndigit y = RUB" and "digits_value r (c # cs) 0 < 4294967296"
  shows "strtoul ((c # cs) @ y # ys) (int r) =
    Some (of_nat (digits_value r (c # cs) 0), length (c # cs), 0)"
proof -
  have c: "\<not> isspace c" "c \<noteq> 0x2D" "c \<noteq> 0x2B" using ndigit_not_space [of c] assms(3) by simp_all
  have "skip_space (c # cs @ y # ys) 0 = Some 0"
    using skip_space_stop [of "[]", OF _ c(1), of "[]"] by simp
  moreover have "rd (c # cs @ y # ys) 0 = Some c" by (simp add: rd_def)
  ultimately show ?thesis
    using c strtoul_after_sign [OF assms, of "c # cs @ y # ys" "[]" ys 0 0]
    by (simp add: strtoul_def)
qed

text \<open>\<open>strtoul\<close> on white space, an optional sign and digits of the radix, followed by a byte that
  is no digit or letter, returns the value of the digits (negated modulo 2^32 after a minus sign),
  the position of the first byte not converted, and no error, whenever the value fits 32 bits.\<close>

theorem strtoul_parses:
  assumes "2 \<le> r" and "r \<le> 36" and "\<forall>b \<in> set sp. isspace b" and "sign_bytes neg sg"
    and "\<forall>b \<in> set (c # cs). ndigit b \<noteq> RUB \<and> unat (ndigit b) < r" and "ndigit y = RUB"
    and "digits_value r (c # cs) 0 < 4294967296"
  shows "strtoul (sp @ sg @ (c # cs) @ y # ys) (int r) =
    Some ((if neg then - 1 else 1) * of_nat (digits_value r (c # cs) 0),
      length sp + length sg + length (c # cs), 0)"
proof -
  have c: "\<not> isspace c" "c \<noteq> 0x2D" "c \<noteq> 0x2B" using ndigit_not_space [of c] assms(5) by simp_all
  have sgn: "\<not> isspace 0x2D" "\<not> isspace 0x2B" by (simp_all add: isspace_def)
  from sign_bytes_cases [OF assms(4)] show ?thesis
  proof (elim disjE conjE)
    assume n: "neg" "sg = [0x2D]"
    have "skip_space (sp @ 0x2D # c # cs @ y # ys) 0 = Some (length sp)"
      using skip_space_stop [OF assms(3) sgn(1), of "[]"] by simp
    moreover have "rd (sp @ 0x2D # c # cs @ y # ys) (length sp) = Some 0x2D" by (simp add: rd_def)
    ultimately show ?thesis
      using n strtoul_after_sign [OF assms(1,2,5,6,7), of "sp @ 0x2D # c # cs @ y # ys" "sp @ [0x2D]" ys "length sp + 1" "-1"]
      by (simp add: strtoul_def)
  next
    assume n: "\<not> neg" "sg = []"
    have "skip_space (sp @ c # cs @ y # ys) 0 = Some (length sp)"
      using skip_space_stop [OF assms(3) c(1), of "[]"] by simp
    moreover have "rd (sp @ c # cs @ y # ys) (length sp) = Some c" by (simp add: rd_def)
    ultimately show ?thesis
      using n c strtoul_after_sign [OF assms(1,2,5,6,7), of "sp @ c # cs @ y # ys" sp ys "length sp" 0]
      by (simp add: strtoul_def)
  next
    assume n: "\<not> neg" "sg = [0x2B]"
    have "skip_space (sp @ 0x2B # c # cs @ y # ys) 0 = Some (length sp)"
      using skip_space_stop [OF assms(3) sgn(2), of "[]"] by simp
    moreover have "rd (sp @ 0x2B # c # cs @ y # ys) (length sp) = Some 0x2B" by (simp add: rd_def)
    ultimately show ?thesis
      using n strtoul_after_sign [OF assms(1,2,5,6,7), of "sp @ 0x2B # c # cs @ y # ys" "sp @ [0x2B]" ys "length sp + 1" 1]
      by (simp add: strtoul_def)
  qed
qed

lemmas parse_eval = strtoul_def strtol_def skip_space.simps convert.simps radix_prefix_def rd_def
  ndigit_def isspace_def RUB_def ULONG_MAX_def Let_def

theorem strtoul_parses_witness: "strtoul [0x20, 0x2D, 0x34, 0x32, 0] 10 = Some (- 42, 4, 0)"
  using strtoul_parses [of 10 "[0x20]" True "[0x2D]" "0x34" "[0x32]" 0 "[]"]
  by (simp add: isspace_def sign_bytes_def ndigit_def RUB_def)

text \<open>\<open>strtol\<close> negates a number that \<open>strtoul\<close> has already negated; a letter that is no digit of the
  radix makes the scan skip bytes, here past the end of the string.\<close>

lemma strtol_negates_twice: "strtol [0x2D, 0x35, 0] 10 = Some (5, 2, 0)"
  by (simp add: parse_eval)

lemma strtoul_reads_past_end: "strtoul [0x35, 0x67, 0] 10 = None"
  by (simp add: parse_eval)

end
