(* ===== verification/Printf.thy ===== *)
theory Printf
  imports Strtoul
begin

text \<open>
  The formatted output of \<^verbatim>\<open>lib/printf.c\<close>. The bytes handed to the UART are returned as a list;
  the variadic arguments are a list of values, and consuming a missing argument or one of the
  other kind, which C leaves undefined, is \<open>None\<close>.
\<close>

definition NUMLTH :: int where "NUMLTH = 11"

definition nstring :: "u8 list" where
  "nstring = [0x30, 0x31, 0x32, 0x33, 0x34, 0x35, 0x36, 0x37, 0x38, 0x39, 0x41, 0x42, 0x43, 0x44, 0x45, 0x46]"

text \<open>The digit loop fills \<open>out\<close> from the end; storing below its start is \<open>None\<close>.\<close>

function numout_loop :: "u32 \<Rightarrow> u32 \<Rightarrow> int \<Rightarrow> cbytes \<Rightarrow> (int \<times> cbytes) option" where
  "numout_loop val base n out =
     (if n < 0 then None
      else let out = out[nat n := nstring ! unat (val mod base)]; n = n - 1; val = val div base
           in if val \<noteq> 0 then numout_loop val base n out else Some (n, out))"
  by pat_completeness auto
termination by (relation "measure (\<lambda>(val, base, n, out). nat (n + 1))") auto

declare numout_loop.simps [simp del]

text \<open>\<open>numout\<close> returns the string from \<open>out[n + 1]\<close> on. The buffer has \<open>NUMLTH + 1\<close> bytes.\<close>

definition numout :: "u32 \<Rightarrow> int \<Rightarrow> cbytes \<Rightarrow> cbytes option" where
  "numout i base out =
     (let neg = base < 0 \<and> sint i < 0;
          base = \<bar>base\<bar>;
          val = (if neg then - i else i);
          out = out[nat NUMLTH := 0]
      in Option.bind (numout_loop val (of_int base) (NUMLTH - 1) out) (\<lambda>(n, out).
           if neg then (if n < 0 then None else Some (drop (nat n) (out[nat n := 0x2D])))
           else Some (drop (nat (n + 1)) out)))"

definition putch :: "u8 \<Rightarrow> u8 list \<Rightarrow> u8 list" where
  "putch ch tx = tx @ (if ch = 0x0A then [0x0D, ch] else [ch])"

fun putchs :: "nat \<Rightarrow> u8 \<Rightarrow> u8 list \<Rightarrow> u8 list" where
  "putchs 0 ch tx = tx"
| "putchs (Suc n) ch tx = putchs n ch (putch ch tx)"

datatype va = VInt u32 | VStr cbytes

text \<open>One decimal field of a directive: the first byte that is not a digit, what follows it, and
  the number.\<close>

fun scan_field :: "cbytes \<Rightarrow> int \<Rightarrow> (u8 \<times> cbytes \<times> int) option" where
  "scan_field [] n = None"
| "scan_field (c # fmt) n =
     (if c < 0x30 \<or> c > 0x39 then Some (c, fmt, n) else scan_field fmt (n * 10 + (uint c - 0x30)))"

lemma scan_field_shorter: "scan_field fmt n = Some (c, rest, m) \<Longrightarrow> length rest < length fmt"
  by (induction fmt n rule: scan_field.induct) (auto split: if_splits)

fun put_string :: "cbytes \<Rightarrow> int \<Rightarrow> int \<Rightarrow> u8 list \<Rightarrow> (int \<times> u8 list) option" where
  "put_string [] maxsize cnt tx = None"
| "put_string (c # cp) maxsize cnt tx =
     (if c \<noteq> 0 \<and> maxsize > 0 then put_string cp (maxsize - 1) (cnt + 1) (putch c tx) else Some (cnt, tx))"

definition put_field :: "cbytes \<Rightarrow> int \<Rightarrow> int \<Rightarrow> u8 \<Rightarrow> int \<Rightarrow> u8 list \<Rightarrow> (int \<times> u8 list) option" where
  "put_field cp minsize maxsize padch cnt tx =
     Option.bind (strlen cp) (\<lambda>len.
       let c = sint len;
           maxsize = (if maxsize = 0 then c else maxsize);
           lead = (if minsize > 0 then nat (minsize - c) else 0);
           tx = putchs lead padch tx; cnt = cnt + int lead;
           minsize = (if minsize > 0 then 0 else minsize);
           minsize = (if minsize < 0 then - minsize - c else minsize)
       in map_option (\<lambda>(cnt, tx). (cnt + int (nat minsize), putchs (nat minsize) 0x20 tx))
            (put_string cp maxsize cnt tx))"

text \<open>\<open>val\<close> for each length modifier: \<open>h\<close>, none, \<open>l\<close>, for a signed or an unsigned conversion.\<close>

definition fetch_val :: "nat \<Rightarrow> u32 \<Rightarrow> u32" where
  "fetch_val type a =
     (if type = 0 then scast (ucast a :: u16) else if type = 4 then ucast (ucast a :: u16)
      else if type \<in> {1, 2, 5, 6} then a else 0)"

definition number_base :: "u8 \<Rightarrow> int option" where
  "number_base c =
     (if c = 0x58 \<or> c = 0x78 then Some 16 else if c = 0x6F then Some 8
      else if c = 0x75 then Some 10 else if c = 0x64 then Some (-10) else None)"

text \<open>The \<open>switch\<close> on the conversion character.\<close>

definition convert_arg ::
  "u8 \<Rightarrow> nat \<Rightarrow> int \<Rightarrow> int \<Rightarrow> u8 \<Rightarrow> va list \<Rightarrow> int \<Rightarrow> u8 list \<Rightarrow> (va list \<times> int \<times> u8 list) option" where
  "convert_arg c type minsize maxsize padch ap cnt tx =
     (case number_base c of
        Some base \<Rightarrow>
          (let type = (if base = -10 then type else type + 4) in
           case ap of
             VInt a # ap \<Rightarrow>
               Option.bind (numout (fetch_val type a) base (replicate (nat NUMLTH + 1) 0)) (\<lambda>cp.
                 map_option (Pair ap) (put_field cp minsize maxsize padch (cnt - 1) tx))
           | _ \<Rightarrow> None)
      | None \<Rightarrow>
          if c = 0x73 then
            (case ap of VStr cp # ap \<Rightarrow> map_option (Pair ap) (put_field cp minsize maxsize padch (cnt - 1) tx)
             | _ \<Rightarrow> None)
          else if c = 0x63 then
            (case ap of VInt a # ap \<Rightarrow> Some (ap, cnt, putch (ucast a) tx) | _ \<Rightarrow> None)
          else Some (ap, cnt, putch c tx))"

text \<open>The fields of a directive after the percent sign: conversion character, rest of the format,
  length type, minimum and maximum size, and pad character.\<close>

definition length_modifier :: "u8 \<Rightarrow> cbytes \<Rightarrow> (u8 \<times> cbytes \<times> nat) option" where
  "length_modifier c fmt =
     (if c = 0x68 \<or> c = 0x6C then
        (case fmt of [] \<Rightarrow> None | c' # fmt \<Rightarrow> Some (c', fmt, if c = 0x68 then 0 else 2))
      else Some (c, fmt, 1))"

definition parse_directive :: "cbytes \<Rightarrow> (u8 \<times> cbytes \<times> nat \<times> int \<times> int \<times> u8) option" where
  "parse_directive fmt =
     (case fmt of [] \<Rightarrow> None
      | padch # fmt1 \<Rightarrow>
          Option.bind (scan_field (if padch = 0x2D then fmt1 else fmt) 0) (\<lambda>(c, fmt, minsize).
          Option.bind (if c = 0x2E then scan_field fmt 0 else Some (c, fmt, 0)) (\<lambda>(c, fmt, maxsize).
            map_option (\<lambda>(c, fmt, type).
                (c, fmt, type, if padch = 0x2D then - minsize else minsize, maxsize,
                 if padch = 0x2D \<or> padch = 0x30 then padch else 0x20))
              (length_modifier c fmt))))"

lemma length_modifier_le: "length_modifier c fmt = Some (c', rest, type) \<Longrightarrow> length rest \<le> length fmt"
  by (auto simp: length_modifier_def split: if_splits list.splits)

lemma parse_directive_shorter:
  assumes "parse_directive fmt = Some (c, rest, r)"
  shows "length rest < length fmt"
proof (cases fmt)
  case (Cons padch fmt1)
  with assms obtain c1 f1 n1 where 1: "scan_field (if padch = 0x2D then fmt1 else fmt) 0 = Some (c1, f1, n1)"
    and r: "Option.bind (if c1 = 0x2E then scan_field f1 0 else Some (c1, f1, 0)) (\<lambda>(c, fmt, maxsize).
            map_option (\<lambda>(c, fmt, type).
                (c, fmt, type, if padch = 0x2D then - n1 else n1, maxsize,
                 if padch = 0x2D \<or> padch = 0x30 then padch else 0x20))
              (length_modifier c fmt)) = Some (c, rest, r)"
    by (auto simp: parse_directive_def bind_eq_Some_conv simp del: scan_field.simps)
  from r obtain c2 f2 n2 where 2: "(if c1 = 0x2E then scan_field f1 0 else Some (c1, f1, 0)) = Some (c2, f2, n2)"
    and m: "map_option (\<lambda>(c, fmt, type).
                (c, fmt, type, if padch = 0x2D then - n1 else n1, n2,
                 if padch = 0x2D \<or> padch = 0x30 then padch else 0x20))
              (length_modifier c2 f2) = Some (c, rest, r)"
    by (auto simp: bind_eq_Some_conv)
  from m obtain c3 t3 where 3: "length_modifier c2 f2 = Some (c3, rest, t3)"
    by (auto simp del: map_option_eq_Some simp: map_option_case split: option.splits)
  have "length f1 < length fmt" using scan_field_shorter [OF 1] Cons by (simp split: if_splits)
  moreover have "length f2 \<le> length f1"
    using 2 by (auto split: if_splits dest: scan_field_shorter)
  moreover have "length rest \<le> length f2" using length_modifier_le [OF 3] .
  ultimately show ?thesis by simp
qed (use assms in \<open>simp add: parse_directive_def\<close>)

text \<open>A NUL conversion character ends the output, unless it follows a length modifier, where the
  \<open>default\<close> case of the \<open>switch\<close> writes it and the scan goes on behind it.\<close>

function printf_loop :: "cbytes \<Rightarrow> va list \<Rightarrow> int \<Rightarrow> u8 list \<Rightarrow> (int \<times> u8 list) option" where
  "printf_loop [] ap cnt tx = None"
| "printf_loop (c # fmt) ap cnt tx =
     (if c = 0 then Some (cnt, tx)
      else if c \<noteq> 0x25 then printf_loop fmt ap (cnt + 1) (putch c tx)
      else case parse_directive fmt of None \<Rightarrow> None
           | Some (c, fmt', type, minsize, maxsize, padch) \<Rightarrow>
               if c = 0 \<and> type = 1 then Some (cnt + 1, tx)
               else (case convert_arg c type minsize maxsize padch ap (cnt + 1) tx of
                       None \<Rightarrow> None
                     | Some (ap, cnt, tx) \<Rightarrow> printf_loop fmt' ap cnt tx))"
  by pat_completeness auto
termination
  by (relation "measure (\<lambda>(fmt, _). length fmt)")
    (auto dest: parse_directive_shorter intro: less_SucI)

definition printf :: "cbytes \<Rightarrow> va list \<Rightarrow> (int \<times> u8 list) option" where
  "printf fmt ap = printf_loop fmt ap 0 []"

section \<open>The digits written\<close>

text \<open>The reference: the digits of a number in a base, most significant first.\<close>

fun digits :: "nat \<Rightarrow> nat \<Rightarrow> nat list" where
  "digits b n = (if b < 2 \<or> n < b then [n] else digits b (n div b) @ [n mod b])"

declare digits.simps [simp del]

lemma digits_less: "2 \<le> b \<Longrightarrow> \<forall>d \<in> set (digits b n). d < b"
  by (induction b n rule: digits.induct) (subst digits.simps, auto)

lemma digits_nonempty: "digits b n \<noteq> []"
  by (subst digits.simps) simp

lemma digits_length: "2 \<le> b \<Longrightarrow> n < b ^ Suc k \<Longrightarrow> length (digits b n) \<le> Suc k"
proof (induction k arbitrary: n)
  case 0
  then show ?case by (subst digits.simps) simp
next
  case (Suc k)
  have "n div b < b ^ Suc k" using Suc.prems by (simp add: div_less_iff_less_mult mult.commute)
  from Suc.IH [OF Suc.prems(1) this] show ?case by (subst digits.simps) simp
qed

lemma digits_fold: "2 \<le> b \<Longrightarrow> foldl (\<lambda>v d. v * b + d) 0 (digits b n) = n"
proof (induction b n rule: digits.induct)
  case (1 b n)
  then show ?case by (subst digits.simps) (simp split: if_split)
qed

definition digit_bytes :: "nat \<Rightarrow> nat \<Rightarrow> cbytes" where
  "digit_bytes b n = map (\<lambda>d. nstring ! d) (digits b n)"

lemma unat_base: "2 \<le> b \<Longrightarrow> b \<le> 16 \<Longrightarrow> unat (of_nat b :: u32) = b"
  by (intro u32_unat_of_nat) simp

lemma numout_loop_digits:
  assumes b: "2 \<le> b" "b \<le> 16"
  shows "int (length pre) = n + 1 \<Longrightarrow> length (digits b (unat v)) \<le> length pre \<Longrightarrow>
    numout_loop v (of_nat b) n (pre @ suf) =
      Some (n - int (length (digits b (unat v))),
        take (length pre - length (digits b (unat v))) pre @ digit_bytes b (unat v) @ suf)"
proof (induction "unat v" arbitrary: v n pre suf rule: less_induct)
  case less
  have ub: "unat (of_nat b :: u32) = b" using b by (rule unat_base)
  have n0: "0 \<le> n" using less.prems digits_nonempty [of b "unat v"] by (cases pre) auto
  obtain pre' x where pre: "pre = pre' @ [x]"
    using less.prems digits_nonempty [of b "unat v"] by (cases pre rule: rev_cases) auto
  let ?d = "nstring ! (unat v mod b)"
  have ln: "nat n = length pre'" using less.prems(1) pre by simp
  have upd: "(pre @ suf)[nat n := nstring ! unat (v mod of_nat b)] = pre' @ ?d # suf"
    by (simp add: pre ln list_update_append unat_mod ub)
  have ud: "unat (v div of_nat b) = unat v div b" by (simp add: unat_div ub)
  show ?case
  proof (cases "unat v < b")
    case True
    then have "v div of_nat b = 0" using ud by (simp add: word_unat_eq_iff)
    moreover have "digits b (unat v) = [unat v]" using True b by (subst digits.simps) simp
    ultimately show ?thesis
      using n0 upd True pre by (subst numout_loop.simps) (simp add: Let_def digit_bytes_def)
  next
    case False
    have dg: "digits b (unat v) = digits b (unat v div b) @ [unat v mod b]"
      using False b by (subst digits.simps) simp
    have nz: "v div of_nat b \<noteq> 0"
      using ud False b by (auto simp: word_unat_eq_iff div_eq_0_iff)
    have "unat (v div of_nat b) < unat v" using ud False b by simp
    from less.hyps [OF this, of pre' "n - 1" "?d # suf"] less.prems dg ud pre
    have "numout_loop (v div of_nat b) (of_nat b) (n - 1) (pre' @ ?d # suf) =
      Some (n - 1 - int (length (digits b (unat v div b))),
        take (length pre' - length (digits b (unat v div b))) pre' @ digit_bytes b (unat v div b) @ ?d # suf)"
      by simp
    then show ?thesis
      using n0 upd nz dg pre by (subst numout_loop.simps) (simp add: Let_def digit_bytes_def)
  qed
qed

lemma digits_fit: "b \<in> {8, 10, 16} \<Longrightarrow> length (digits b (unat (v :: u32))) \<le> 11"
proof -
  assume b: "b \<in> {8, 10, 16}"
  have "unat v < b ^ Suc 10" by (rule order.strict_trans [OF u32_less]) (use b in auto)
  with b digits_length [of b "unat v" 10] show ?thesis by auto
qed

lemma digits_fit10: "length (digits 10 (unat (v :: u32))) \<le> 10"
proof -
  have "unat v < 10 ^ Suc 9" by (rule order.strict_trans [OF u32_less]) simp
  then show ?thesis using digits_length [of 10 "unat v" 9] by simp
qed

lemma buffer_split: "length out = 12 \<Longrightarrow> \<exists>pre. length pre = 11 \<and> out[11 := 0] = pre @ [0 :: u8]"
  by (rule exI [of _ "take 11 out"]) (simp add: list_eq_iff_nth_eq nth_append nth_list_update less_Suc_eq)


lemma numout_unsigned:
  assumes "length out = 12" and b: "b \<in> {8, 10, 16}"
  shows "Option.bind (numout_loop v (of_nat b) 10 (out[11 := 0])) (\<lambda>(n, out). Some (drop (nat (n + 1)) out)) =
    Some (digit_bytes b (unat v) @ [0])"
proof -
  obtain pre where pre: "length pre = 11" "out[11 := 0] = pre @ [0]" using buffer_split [OF assms(1)] by blast
  have "2 \<le> b" "b \<le> 16" using b by auto
  then show ?thesis
    using numout_loop_digits [of b pre 10 v "[0]"] digits_fit [OF b, of v] pre by auto
qed

lemma numout_positive:
  "length out = 12 \<Longrightarrow> b \<in> {8, 10, 16} \<Longrightarrow> numout i (int b) out = Some (digit_bytes b (unat i) @ [0])"
  using numout_unsigned [of out b i] by (auto simp: numout_def NUMLTH_def)

lemma store_last: "length t = Suc n \<Longrightarrow> drop n ((t @ r)[n := y]) = y # r"
  by (cases t rule: rev_cases) (simp_all add: list_update_append)

text \<open>\<open>__numout\<close> writes the digits of the value in the base, most significant first, NUL
  terminated, with a minus sign for a negative value in signed decimal, and for every 32-bit value
  and every base \<open>printf\<close> uses it stays inside its 12-byte buffer.\<close>

theorem numout_digits:
  assumes "length out = 12"
  shows "(\<forall>b \<in> {8, 10, 16}. numout i (int b) out = Some (digit_bytes b (unat i) @ [0])) \<and>
    numout i (- 10) out =
      Some (if sint i < 0 then 0x2D # digit_bytes 10 (nat (- sint i)) @ [0]
            else digit_bytes 10 (nat (sint i)) @ [0])"
proof (intro conjI ballI)
  fix b :: nat assume "b \<in> {8, 10, 16}"
  then show "numout i (int b) out = Some (digit_bytes b (unat i) @ [0])"
    by (rule numout_positive [OF assms])
next
  show "numout i (- 10) out =
      Some (if sint i < 0 then 0x2D # digit_bytes 10 (nat (- sint i)) @ [0]
            else digit_bytes 10 (nat (sint i)) @ [0])"
  proof (cases "sint i < 0")
    case False
    then show ?thesis
      using numout_unsigned [OF assms, of 10 i] sint_nonneg [of i] by (simp add: numout_def NUMLTH_def)
  next
    case True
    obtain pre where pre: "length pre = 11" "out[11 := 0] = pre @ [0]"
      using buffer_split [OF assms] by blast
    let ?k = "length (digits 10 (unat (- i)))"
    have k: "?k \<le> 10" by (rule digits_fit10)
    have "numout_loop (- i) 10 10 (pre @ [0]) =
        Some (10 - int ?k, take (11 - ?k) pre @ digit_bytes 10 (unat (- i)) @ [0])"
      using numout_loop_digits [of 10 pre 10 "- i" "[0]"] pre k by simp
    moreover have "drop (nat (10 - int ?k)) ((take (11 - ?k) pre @ r)[nat (10 - int ?k) := 0x2D]) = 0x2D # r" for r
      by (rule store_last) (use pre(1) k in simp)
    ultimately show ?thesis
      using True k pre(2) sint_neg [OF True] by (simp add: numout_def NUMLTH_def)
  qed
qed


theorem numout_digits_witness:
  "numout 255 16 (replicate 12 0) = Some [0x46, 0x46, 0]"
  using numout_digits [of "replicate 12 0" 255]
  by (simp add: digit_bytes_def nstring_def digits.simps)

section \<open>Printing and parsing\<close>

lemma ndigit_nstring: "d < 16 \<Longrightarrow> ndigit (nstring ! d) = of_nat d"
proof -
  have "\<forall>e \<in> set [0..<16]. ndigit (nstring ! e) = of_nat e"
    by (simp add: upt_rec ndigit_def nstring_def)
  then show "d < 16 \<Longrightarrow> ndigit (nstring ! d) = of_nat d" by simp
qed

lemma unat_ndigit_nstring: "d < 16 \<Longrightarrow> unat (ndigit (nstring ! d)) = d"
  by (simp add: ndigit_nstring u8_unat_of_nat)

lemma digits_value_bytes:
  "\<forall>d \<in> set ds. d < 16 \<Longrightarrow> digits_value b (map (\<lambda>d. nstring ! d) ds) v = foldl (\<lambda>v d. v * b + d) v ds"
  by (induction ds arbitrary: v) (simp_all add: unat_ndigit_nstring)

text \<open>Parsing what \<open>__numout\<close> prints gives the number back: \<open>strtoul\<close> with the same radix reads
  all of the digits, reports no error and returns the 32-bit value that was printed.\<close>

theorem print_parse:
  assumes "b \<in> {8, 10, 16}" and "length out = 12"
  shows "\<exists>t. numout v (int b) out = Some t \<and> strtoul t (int b) = Some (v, length t - 1, 0)"
proof -
  have b: "2 \<le> b" "b \<le> 36" "b \<le> 16" using assms(1) by auto
  let ?ds = "digits b (unat v)"
  have lt: "\<forall>d \<in> set ?ds. d < b" using digits_less b(1) by blast
  then have lt16: "\<forall>d \<in> set ?ds. d < 16" using b(3) by auto
  obtain d ds where ds: "?ds = d # ds" using digits_nonempty [of b "unat v"] by (cases ?ds) auto
  let ?c = "nstring ! d" and ?cs = "map (\<lambda>d. nstring ! d) ds"
  have p: "digit_bytes b (unat v) = ?c # ?cs" by (simp add: digit_bytes_def ds)
  have val: "digits_value b (?c # ?cs) 0 = unat v"
    using digits_value_bytes [OF lt16, of b 0] digits_fold [OF b(1), of "unat v"] by (simp add: ds)
  have good: "\<forall>x \<in> set (?c # ?cs). ndigit x \<noteq> RUB \<and> unat (ndigit x) < b"
  proof
    fix x assume "x \<in> set (?c # ?cs)"
    then obtain e where "e \<in> set ?ds" "x = nstring ! e" using ds by auto
    with lt lt16 show "ndigit x \<noteq> RUB \<and> unat (ndigit x) < b"
      using unat_ndigit_nstring [of e] by (auto simp: RUB_def)
  qed
  have "numout v (int b) out = Some (digit_bytes b (unat v) @ [0])"
    using numout_positive [OF assms(2,1)] .
  moreover have "strtoul (digit_bytes b (unat v) @ [0]) (int b) =
      Some (v, length (digit_bytes b (unat v)), 0)"
    unfolding p using strtoul_plain [OF b(1,2) good, of 0 "[]"] val
    by (simp add: ndigit_def)
  ultimately show ?thesis by simp
qed

theorem print_parse_witness:
  "\<exists>t. numout 255 16 (replicate 12 7) = Some t \<and> strtoul t 16 = Some (255, length t - 1, 0)"
  using print_parse [of 16 "replicate 12 7" 255] by simp

end
