(* ===== verification/Packet.thy ===== *)
theory Packet
  imports Printf "HOL-Library.Monad_Syntax"
begin

text \<open>
  Packets: the structures of \<^verbatim>\<open>include/net.h\<close>, \<^verbatim>\<open>packet_alloc\<close> of \<^verbatim>\<open>net/packet.c\<close> and the
  constructors of \<^verbatim>\<open>net/ipv4.c\<close>. A packet carries its frame as a byte list; a header pointer is the
  offset of the header in the frame, \<open>None\<close> for a null pointer. An access outside the frame or
  through a null pointer is \<open>None\<close>. Multi-byte fields are big-endian, as on the target. The
  bytes \<open>malloc\<close> does not clear are a parameter \<open>junk\<close>.
\<close>

record packet =
  pflags :: u32
  nexthop :: u32
  parp :: "nat option"
  pipv4 :: "nat option"
  pudp :: "nat option"
  ptcp :: "nat option"
  picmp :: "nat option"
  data_length :: u16
  pdata :: "nat option"
  alloc_length :: u16
  buffer_length :: u16
  pbuf :: "u8 list"

text \<open>The interface configuration, the globals of \<^verbatim>\<open>net/net.c\<close>.\<close>

record netconf =
  if_mac :: "u8 list"
  if_ip :: u32
  if_mask :: u32
  if_gateway :: u32
  if_dns :: u32

definition broadcast_macaddr :: "u8 list" where "broadcast_macaddr = replicate 6 0xFF"
definition ipv4_broadcast :: u32 where "ipv4_broadcast = 0xFFFFFFFF"
definition flag_mac_valid :: u32 where "flag_mac_valid = 1"
definition ethertype_ipv4 :: u16 where "ethertype_ipv4 = 0x0800"
definition ethertype_arp :: u16 where "ethertype_arp = 0x0806"
definition ip_proto_icmp :: u8 where "ip_proto_icmp = 1"
definition ip_proto_tcp :: u8 where "ip_proto_tcp = 6"
definition ip_proto_udp :: u8 where "ip_proto_udp = 17"

lemmas net_consts = ethertype_ipv4_def ethertype_arp_def ip_proto_icmp_def ip_proto_tcp_def ip_proto_udp_def
  flag_mac_valid_def ipv4_broadcast_def broadcast_macaddr_def

text \<open>Sizes: ethernet 14, IPv4 20, UDP 8, ICMP 8, TCP 18 (17 bytes, rounded to its alignment),
  ARP 28. The accessors name a field by its offset in its header.\<close>

section \<open>Access to the frame\<close>

definition rd8 :: "packet \<Rightarrow> nat \<Rightarrow> u8 option" where
  "rd8 p i = (if i < length (pbuf p) then Some (pbuf p ! i) else None)"

definition rd16 :: "packet \<Rightarrow> nat \<Rightarrow> u16 option" where
  "rd16 p i = do { a \<leftarrow> rd8 p i; b \<leftarrow> rd8 p (i + 1); Some (be16 a b) }"

definition rd32 :: "packet \<Rightarrow> nat \<Rightarrow> u32 option" where
  "rd32 p i = do { a \<leftarrow> rd8 p i; b \<leftarrow> rd8 p (i + 1); c \<leftarrow> rd8 p (i + 2); d \<leftarrow> rd8 p (i + 3);
     Some (be32 a b c d) }"

definition rdn :: "packet \<Rightarrow> nat \<Rightarrow> nat \<Rightarrow> u8 list option" where
  "rdn p i n = (if i + n \<le> length (pbuf p) then Some (take n (drop i (pbuf p))) else None)"

definition wr :: "packet \<Rightarrow> nat \<Rightarrow> u8 list \<Rightarrow> packet option" where
  "wr p i bs = (if i + length bs \<le> length (pbuf p)
     then Some (p\<lparr>pbuf := take i (pbuf p) @ bs @ drop (i + length bs) (pbuf p)\<rparr>) else None)"

definition wr8 :: "packet \<Rightarrow> nat \<Rightarrow> u8 \<Rightarrow> packet option" where "wr8 p i v = wr p i [v]"
definition wr16 :: "packet \<Rightarrow> nat \<Rightarrow> u16 \<Rightarrow> packet option" where "wr16 p i v = wr p i (bytes16 v)"
definition wr32 :: "packet \<Rightarrow> nat \<Rightarrow> u32 \<Rightarrow> packet option" where "wr32 p i v = wr p i (bytes32 v)"

definition ethertype :: "packet \<Rightarrow> u16 option" where "ethertype p = rd16 p 12"

section \<open>Allocation and construction\<close>

definition packet_alloc :: "(nat \<Rightarrow> u8) \<Rightarrow> nat \<Rightarrow> packet" where
  "packet_alloc junk n =
     \<lparr>pflags = 0, nexthop = 0, parp = None, pipv4 = None, pudp = None, ptcp = None, picmp = None,
      data_length = 0, pdata = None, alloc_length = of_nat n, buffer_length = of_nat n,
      pbuf = map junk [0..<n]\<rparr>"

definition packet_set_destination_mac :: "packet \<Rightarrow> u8 list \<Rightarrow> packet option" where
  "packet_set_destination_mac p mac = do {
     p \<leftarrow> wr p 0 mac;
     Some (p\<lparr>pflags := pflags p OR flag_mac_valid\<rparr>) }"

definition packet_create_ipv4 :: "netconf \<Rightarrow> (nat \<Rightarrow> u8) \<Rightarrow> u32 \<Rightarrow> u32 \<Rightarrow> nat \<Rightarrow> u8 \<Rightarrow> packet option" where
  "packet_create_ipv4 cf junk now dest_ipv4 data_size proto = do {
     let p = packet_alloc junk (14 + 20 + data_size);
     p \<leftarrow> wr p 6 (if_mac cf);
     p \<leftarrow> wr16 p 12 ethertype_ipv4;
     let p = p\<lparr>pipv4 := Some 14\<rparr>;
     p \<leftarrow> wr8 p (14 + 0) 0x45;
     p \<leftarrow> wr8 p (14 + 1) 0;
     p \<leftarrow> wr16 p (14 + 2) (of_nat (20 + data_size));
     p \<leftarrow> wr16 p (14 + 4) (ucast (now AND 0xFFFF));
     p \<leftarrow> wr16 p (14 + 6) 0x4000;
     p \<leftarrow> wr8 p (14 + 8) 64;
     p \<leftarrow> wr8 p (14 + 9) proto;
     p \<leftarrow> wr32 p (14 + 12) (if_ip cf);
     wr32 p (14 + 16) dest_ipv4 }"

definition packet_create_icmp :: "netconf \<Rightarrow> (nat \<Rightarrow> u8) \<Rightarrow> u32 \<Rightarrow> u32 \<Rightarrow> nat \<Rightarrow> packet option" where
  "packet_create_icmp cf junk now dest_ipv4 data_size = do {
     p \<leftarrow> packet_create_ipv4 cf junk now dest_ipv4 (data_size + 8) ip_proto_icmp;
     Some (p\<lparr>picmp := Some 34, pdata := Some 42, data_length := of_nat data_size\<rparr>) }"

definition packet_create_tcp ::
  "netconf \<Rightarrow> (nat \<Rightarrow> u8) \<Rightarrow> u32 \<Rightarrow> u32 \<Rightarrow> u16 \<Rightarrow> u16 \<Rightarrow> nat \<Rightarrow> packet option" where
  "packet_create_tcp cf junk now dest_ipv4 destination_port source_port data_size = do {
     p \<leftarrow> packet_create_ipv4 cf junk now dest_ipv4 (data_size + 18) ip_proto_udp;
     Some (p\<lparr>ptcp := Some 34, pdata := Some 51, data_length := of_nat data_size\<rparr>) }"

definition packet_create_udp ::
  "netconf \<Rightarrow> (nat \<Rightarrow> u8) \<Rightarrow> u32 \<Rightarrow> u32 \<Rightarrow> u16 \<Rightarrow> u16 \<Rightarrow> nat \<Rightarrow> packet option" where
  "packet_create_udp cf junk now dest_ipv4 destination_port source_port data_size = do {
     p \<leftarrow> packet_create_ipv4 cf junk now dest_ipv4 (data_size + 8) ip_proto_udp;
     let p = p\<lparr>pudp := Some 34, pdata := Some 42, data_length := of_nat data_size\<rparr>;
     p \<leftarrow> wr16 p (34 + 0) source_port;
     p \<leftarrow> wr16 p (34 + 2) destination_port;
     wr16 p (34 + 4) (of_nat (8 + data_size)) }"

text \<open>\<open>packet_data_resize\<close> returns whether it resized; the sum of two \<open>int\<close>s is compared with the
  promoted 16-bit allocation length.\<close>

definition packet_data_resize :: "packet \<Rightarrow> int \<Rightarrow> (bool \<times> packet) option" where
  "packet_data_resize p new_data_length =
     (case pipv4 p of
        None \<Rightarrow> Some (False, p)
      | Some ip \<Rightarrow> do {
          proto \<leftarrow> rd8 p (ip + 9);
          if proto = ip_proto_udp then
            (if 42 + new_data_length > uint (alloc_length p) then Some (False, p)
             else do {
               let len = (of_int new_data_length :: u16);
               let p = p\<lparr>data_length := len\<rparr>;
               let len = len + 8;
               u \<leftarrow> pudp p;
               p \<leftarrow> wr16 p (u + 4) len;
               let len = len + 20;
               p \<leftarrow> wr16 p (ip + 2) len;
               let len = len + 14;
               Some (True, p\<lparr>buffer_length := len\<rparr>) })
          else Some (False, p) })"

section \<open>Parsing an address\<close>

definition dot :: u8 where "dot = 0x2E"

text \<open>The loop over the four octets, from octet \<open>i\<close> on; \<open>str\<close> is the rest of the string.\<close>

function parse_octets :: "nat \<Rightarrow> cbytes \<Rightarrow> u32 \<Rightarrow> u32 option" where
  "parse_octets i str result =
     (if i < 4 then do {
        (octet, end, _) \<leftarrow> strtoul str 10;
        if octet > 255 then Some 0 else do {
        c \<leftarrow> (if i < 3 then rd str end else Some dot);
        if i < 3 \<and> c \<noteq> dot then Some 0
        else parse_octets (i + 1) (drop (end + 1) str) (push_bit 8 result OR octet) } }
      else Some result)"
  by pat_completeness auto
termination by (relation "measure (\<lambda>(i, str, result). 4 - i)") auto

declare parse_octets.simps [simp del]

definition net_parse_ipv4 :: "cbytes \<Rightarrow> u32 option" where
  "net_parse_ipv4 input = parse_octets 0 input 0"

section \<open>Reading back what was written\<close>

lemma wr_Some: "wr p i bs = Some q \<longleftrightarrow> i + length bs \<le> length (pbuf p) \<and>
    q = p\<lparr>pbuf := take i (pbuf p) @ bs @ drop (i + length bs) (pbuf p)\<rparr>"
  by (auto simp: wr_def)

lemma wr_length: "wr p i bs = Some q \<Longrightarrow> length (pbuf q) = length (pbuf p)"
  by (auto simp: wr_Some)

lemma wr_nth:
  "wr p i bs = Some q \<Longrightarrow> k < length (pbuf p) \<Longrightarrow>
   pbuf q ! k = (if i \<le> k \<and> k < i + length bs then bs ! (k - i) else pbuf p ! k)"
  by (auto simp: wr_Some nth_append)

lemma wr_defined: "i + length bs \<le> length (pbuf p) \<Longrightarrow> \<exists>q. wr p i bs = Some q"
  by (simp add: wr_def)

lemma wr_fields:
  assumes "wr p i bs = Some q"
  shows "pflags q = pflags p" "nexthop q = nexthop p" "parp q = parp p" "pipv4 q = pipv4 p" "pudp q = pudp p"
    "ptcp q = ptcp p" "picmp q = picmp p" "data_length q = data_length p" "pdata q = pdata p"
    "alloc_length q = alloc_length p" "buffer_length q = buffer_length p"
  using assms by (auto simp: wr_Some)

lemma rd8_after_wr:
  "wr p i bs = Some q \<Longrightarrow>
   rd8 q k = (if i \<le> k \<and> k < i + length bs then Some (bs ! (k - i)) else rd8 p k)"
  by (auto simp: rd8_def wr_Some nth_append)

lemma rd16_same: "wr16 p i v = Some q \<Longrightarrow> rd16 q i = Some v"
  using be16_bytes16 [of v] by (simp add: wr16_def rd16_def rd8_after_wr)

lemma rd32_same: "wr32 p i v = Some q \<Longrightarrow> rd32 q i = Some v"
  using be32_bytes32 [of v] by (simp add: wr32_def rd32_def rd8_after_wr)

lemma rd16_other: "wr p i bs = Some q \<Longrightarrow> k + 2 \<le> i \<or> i + length bs \<le> k \<Longrightarrow> rd16 q k = rd16 p k"
  by (simp add: rd16_def rd8_after_wr) (auto simp: rd8_after_wr)

lemma rd32_other: "wr p i bs = Some q \<Longrightarrow> k + 4 \<le> i \<or> i + length bs \<le> k \<Longrightarrow> rd32 q k = rd32 p k"
  by (simp add: rd32_def rd8_after_wr) (auto simp: rd8_after_wr)

lemma rd8_other: "wr p i bs = Some q \<Longrightarrow> k < i \<or> i + length bs \<le> k \<Longrightarrow> rd8 q k = rd8 p k"
  by (auto simp: rd8_after_wr)

lemma rd16_defined: "i + 2 \<le> length (pbuf p) \<Longrightarrow> \<exists>v. rd16 p i = Some v"
  by (simp add: rd16_def rd8_def)

lemma rd8_defined: "i < length (pbuf p) \<Longrightarrow> \<exists>v. rd8 p i = Some v"
  by (simp add: rd8_def)

section \<open>The frame after a write\<close>

definition put :: "packet \<Rightarrow> nat \<Rightarrow> u8 list \<Rightarrow> packet" where
  "put p i bs = p\<lparr>pbuf := take i (pbuf p) @ bs @ drop (i + length bs) (pbuf p)\<rparr>"

lemma wr_put: "wr p i bs = (if i + length bs \<le> length (pbuf p) then Some (put p i bs) else None)"
  by (simp add: wr_def put_def)

lemma put_fields [simp]:
  "pflags (put p i bs) = pflags p" "nexthop (put p i bs) = nexthop p" "parp (put p i bs) = parp p"
  "pipv4 (put p i bs) = pipv4 p" "pudp (put p i bs) = pudp p" "ptcp (put p i bs) = ptcp p"
  "picmp (put p i bs) = picmp p" "data_length (put p i bs) = data_length p" "pdata (put p i bs) = pdata p"
  "alloc_length (put p i bs) = alloc_length p" "buffer_length (put p i bs) = buffer_length p"
  by (simp_all add: put_def)

lemma put_length [simp]: "i + length bs \<le> length (pbuf p) \<Longrightarrow> length (pbuf (put p i bs)) = length (pbuf p)"
  by (simp add: put_def)

lemma rd8_put [simp]:
  "i + length bs \<le> length (pbuf p) \<Longrightarrow>
   rd8 (put p i bs) k = (if i \<le> k \<and> k < i + length bs then Some (bs ! (k - i)) else rd8 p k)"
  by (rule rd8_after_wr) (simp add: wr_put)

lemma drop_put_behind: "i + length bs \<le> k \<Longrightarrow> k \<le> length (pbuf p) \<Longrightarrow> drop k (pbuf (put p i bs)) = drop k (pbuf p)"
  by (simp add: put_def)

lemma drop_put_at: "i + length bs = length (pbuf p) \<Longrightarrow> drop i (pbuf (put p i bs)) = bs"
  by (simp add: put_def)

text \<open>The headers of a new packet.\<close>

lemma create_ipv4:
  assumes "length (if_mac cf) = 6"
  obtains p where "packet_create_ipv4 cf junk tm dst n proto = Some p" "length (pbuf p) = 34 + n"
    "pipv4 p = Some 14" "pudp p = None" "ptcp p = None" "picmp p = None" "parp p = None" "pflags p = 0"
    "buffer_length p = of_nat (34 + n)"
    "rd8 p 12 = Some 8" "rd8 p 13 = Some 0" "rd8 p 23 = Some proto" "rd16 p 16 = Some (of_nat (20 + n))"
    "rd32 p 26 = Some (if_ip cf)" "rd32 p 30 = Some dst"
proof
  show "packet_create_ipv4 cf junk tm dst n proto = Some (put (put (put (put (put (put (put (put (put
    ((put (put (packet_alloc junk (34 + n)) 6 (if_mac cf)) 12 (bytes16 ethertype_ipv4))\<lparr>pipv4 := Some 14\<rparr>)
    14 [0x45]) 15 [0]) 16 (bytes16 (of_nat (20 + n)))) 18 (bytes16 (ucast (tm AND 0xFFFF)))) 20 (bytes16 0x4000))
    22 [64]) 23 [proto]) 26 (bytes32 (if_ip cf))) 30 (bytes32 dst))" (is "_ = Some ?p")
    by (simp add: packet_create_ipv4_def wr16_def wr8_def wr32_def wr_put packet_alloc_def assms)
  have u: "rd8 (q\<lparr>pipv4 := x\<rparr>) k = rd8 q k" for q x k by (simp add: rd8_def)
  show "length (pbuf ?p) = 34 + n" "pipv4 ?p = Some 14" "pudp ?p = None" "ptcp ?p = None" "picmp ?p = None"
    "parp ?p = None" "pflags ?p = 0" "buffer_length ?p = of_nat (34 + n)"
    "rd8 ?p 12 = Some 8" "rd8 ?p 13 = Some 0" "rd8 ?p 23 = Some proto"
    by (simp_all add: assms packet_alloc_def u bytes16_def ethertype_ipv4_def)
  show "rd16 ?p 16 = Some (of_nat (20 + n))" "rd32 ?p 26 = Some (if_ip cf)" "rd32 ?p 30 = Some dst"
    using be16_bytes16 [of "of_nat (20 + n)"] be32_bytes32 [of "if_ip cf"] be32_bytes32 [of dst]
    by (simp_all add: assms packet_alloc_def u rd16_def rd32_def)
qed

lemma create_udp:
  assumes m: "length (if_mac cf) = 6"
  obtains p where "packet_create_udp cf junk tm dst dport sport n = Some p" "length (pbuf p) = 42 + n"
    "pipv4 p = Some 14" "pudp p = Some 34" "ptcp p = None" "picmp p = None" "parp p = None" "pflags p = 0"
    "pdata p = Some 42" "data_length p = of_nat n" "buffer_length p = of_nat (42 + n)"
    "ethertype p = Some ethertype_ipv4" "rd8 p 23 = Some ip_proto_udp" "rd16 p 16 = Some (of_nat (28 + n))"
    "rd32 p 26 = Some (if_ip cf)" "rd32 p 30 = Some dst"
    "rd16 p 34 = Some sport" "rd16 p 36 = Some dport" "rd16 p 38 = Some (of_nat (8 + n))"
proof -
  obtain q where q: "packet_create_ipv4 cf junk tm dst (n + 8) ip_proto_udp = Some q" "length (pbuf q) = 34 + (n + 8)"
    "pipv4 q = Some 14" "pudp q = None" "ptcp q = None" "picmp q = None" "parp q = None" "pflags q = 0"
    "buffer_length q = of_nat (34 + (n + 8))"
    "rd8 q 12 = Some 8" "rd8 q 13 = Some 0" "rd8 q 23 = Some ip_proto_udp" "rd16 q 16 = Some (of_nat (20 + (n + 8)))"
    "rd32 q 26 = Some (if_ip cf)" "rd32 q 30 = Some dst"
    by (rule create_ipv4 [OF m])
  define r where "r = q\<lparr>pudp := Some 34, pdata := Some 42, data_length := of_nat n\<rparr>"
  have rd: "rd8 r k = rd8 q k" for k by (simp add: rd8_def r_def)
  have rl: "length (pbuf r) = 42 + n" using q(2) by (simp add: r_def)
  let ?p = "put (put (put r 34 (bytes16 sport)) 36 (bytes16 dport)) 38 (bytes16 (of_nat (8 + n)))"
  show ?thesis
  proof (rule that [of ?p])
    show "packet_create_udp cf junk tm dst dport sport n = Some ?p"
      using q(1,2) rl by (simp add: packet_create_udp_def wr16_def wr_put flip: r_def)
    show "length (pbuf ?p) = 42 + n" using rl by simp
    show "pipv4 ?p = Some 14" "pudp ?p = Some 34" "ptcp ?p = None" "picmp ?p = None" "parp ?p = None" "pflags ?p = 0"
      "pdata ?p = Some 42" "data_length ?p = of_nat n" "buffer_length ?p = of_nat (42 + n)"
      using q by (simp_all add: r_def)
    show "ethertype ?p = Some ethertype_ipv4" "rd8 ?p 23 = Some ip_proto_udp" 
      using q rl by (simp_all add: ethertype_def rd16_def rd be16_def ethertype_ipv4_def)
    show "rd16 ?p 16 = Some (of_nat (28 + n))" "rd32 ?p 26 = Some (if_ip cf)" "rd32 ?p 30 = Some dst"
      using q rl by (simp_all add: rd16_def rd32_def rd add.commute)
    show "rd16 ?p 34 = Some sport" "rd16 ?p 36 = Some dport" "rd16 ?p 38 = Some (of_nat (8 + n))"
      using be16_bytes16 [of sport] be16_bytes16 [of dport] be16_bytes16 [of "of_nat (8 + n)"] rl
      by (simp_all add: rd16_def)
  qed
qed

end
