(* ===== verification/Checksum.thy ===== *)
theory Checksum
  imports Packet
begin

text \<open>
  The Internet checksums of \<^verbatim>\<open>net/ipcsum.c\<close>. The bytes summed are the frame from the pointer on; a
  count that runs past the end of the frame is \<open>None\<close>. The code reads the odd last byte as a
  16-bit word and masks the byte behind it, which therefore does not matter.
\<close>

fun checksum_update :: "u32 \<Rightarrow> u8 list \<Rightarrow> nat \<Rightarrow> u32 option" where
  "checksum_update acc (a # b # addr) cnt =
     (if cnt \<ge> 2 then checksum_update (acc + ucast (be16 a b)) addr (cnt - 2)
      else if cnt > 0 then Some (acc + ucast (be16 a b AND 0xFF00)) else Some acc)"
| "checksum_update acc [a] cnt =
     (if cnt \<ge> 2 then None
      else if cnt > 0 then Some (acc + ucast (be16 a 0 AND 0xFF00)) else Some acc)"
| "checksum_update acc [] cnt = (if cnt = 0 then Some acc else None)"

lemma low16: "unat (s AND 0xFFFF :: u32) = unat s mod 65536"
proof -
  have "s AND 0xFFFF = take_bit 16 s" by (simp add: take_bit_eq_mask mask_eq_exp_minus_1)
  then show ?thesis by (simp add: unsigned_take_bit_eq take_bit_eq_mod unat_mod)
qed

lemma high16: "unat (drop_bit 16 s :: u32) = unat s div 65536"
  by (simp add: unat_drop_bit_eq drop_bit_eq_div unat_div)

lemma fold_step: "unat ((s AND 0xFFFF) + drop_bit 16 s :: u32) = unat s mod 65536 + unat s div 65536"
proof -
  have "unat s div 65536 < 65536" using u32_less [of s] by (simp add: div_less_iff_less_mult)
  moreover have "unat s mod 65536 < 65536" by simp
  ultimately have "unat s mod 65536 + unat s div 65536 < 4294967296" by linarith
  then show ?thesis using u32_unat_add [of "s AND 0xFFFF" "drop_bit 16 s"] low16 [of s] high16 [of s] by simp
qed

function checksum_fold :: "u32 \<Rightarrow> u32" where
  "checksum_fold acc =
     (if drop_bit 16 acc \<noteq> 0 then checksum_fold ((acc AND 0xFFFF) + drop_bit 16 acc) else acc)"
  by pat_completeness auto
termination
proof (relation "measure unat", goal_cases)
  case (2 s)
  then have "unat s div 65536 \<noteq> 0" using high16 [of s] by (auto simp: word_unat_eq_iff)
  moreover have "unat s = unat s div 65536 * 65536 + unat s mod 65536" by simp
  ultimately have "unat s mod 65536 + unat s div 65536 < unat s" by linarith
  then show ?case by (simp only: in_measure fold_step)
qed simp

declare checksum_fold.simps [simp del]

definition checksum_complete :: "u32 \<Rightarrow> u16" where
  "checksum_complete acc = NOT (ucast (checksum_fold acc))"

definition checksum_compute :: "u8 list \<Rightarrow> nat \<Rightarrow> u16 option" where
  "checksum_compute addr cnt = map_option checksum_complete (checksum_update 0 addr cnt)"

definition net_compute_ipv4_checksum :: "packet \<Rightarrow> packet option" where
  "net_compute_ipv4_checksum p = do {
     ip \<leftarrow> pipv4 p;
     p \<leftarrow> wr16 p (ip + 10) 0;
     c \<leftarrow> checksum_compute (drop ip (pbuf p)) 20;
     wr16 p (ip + 10) c }"

definition net_verify_ipv4_checksum :: "packet \<Rightarrow> bool option" where
  "net_verify_ipv4_checksum p = do {
     ip \<leftarrow> pipv4 p;
     c \<leftarrow> checksum_compute (drop ip (pbuf p)) 20;
     Some (c = 0) }"

text \<open>The length of the ICMP message: a 16-bit field minus \<open>sizeof(ipv4_header_t)\<close>, in \<open>size_t\<close>.\<close>

definition icmp_length :: "packet \<Rightarrow> nat \<Rightarrow> nat option" where
  "icmp_length p ip = map_option (\<lambda>len. unat (ucast len - 20 :: u32)) (rd16 p (ip + 2))"

definition net_compute_icmp_checksum :: "packet \<Rightarrow> packet option" where
  "net_compute_icmp_checksum p = do {
     ic \<leftarrow> picmp p;
     p \<leftarrow> wr16 p (ic + 2) 0;
     ip \<leftarrow> pipv4 p;
     n \<leftarrow> icmp_length p ip;
     c \<leftarrow> checksum_compute (drop ic (pbuf p)) n;
     wr16 p (ic + 2) c }"

definition net_verify_icmp_checksum :: "packet \<Rightarrow> bool option" where
  "net_verify_icmp_checksum p = do {
     ic \<leftarrow> picmp p;
     ip \<leftarrow> pipv4 p;
     n \<leftarrow> icmp_length p ip;
     c \<leftarrow> checksum_compute (drop ic (pbuf p)) n;
     Some (c = 0) }"

definition udp_checksum_pseudoheader :: "packet \<Rightarrow> u16 option" where
  "udp_checksum_pseudoheader p = do {
     ip \<leftarrow> pipv4 p;
     acc \<leftarrow> checksum_update 0 (drop (ip + 12) (pbuf p)) 8;
     proto \<leftarrow> rd8 p (ip + 9);
     u \<leftarrow> pudp p;
     len \<leftarrow> rd16 p (u + 4);
     let acc = acc + ucast proto + ucast len;
     acc \<leftarrow> checksum_update acc (drop u (pbuf p)) (unat len);
     Some (checksum_complete acc) }"

definition net_verify_udp_checksum :: "packet \<Rightarrow> bool option" where
  "net_verify_udp_checksum p = do {
     u \<leftarrow> pudp p;
     c \<leftarrow> rd16 p (u + 6);
     if c = 0 then Some True else map_option (\<lambda>c. c = 0) (udp_checksum_pseudoheader p) }"

definition net_compute_udp_checksum :: "packet \<Rightarrow> packet option" where
  "net_compute_udp_checksum p = do {
     u \<leftarrow> pudp p;
     p \<leftarrow> wr16 p (u + 6) 0;
     cs \<leftarrow> udp_checksum_pseudoheader p;
     wr16 p (u + 6) (if cs = 0 then 0xFFFF else cs) }"

text \<open>TCP is a stub in the source: nothing is computed and everything is accepted.\<close>

definition net_verify_tcp_checksum :: "packet \<Rightarrow> bool" where "net_verify_tcp_checksum p = True"
definition net_compute_tcp_checksum :: "packet \<Rightarrow> packet" where "net_compute_tcp_checksum p = p"

section \<open>The sum modulo 65535\<close>

lemma unat_be16: "unat (be16 a b) = 256 * unat a + unat b"
proof -
  have "push_bit 8 (ucast a :: u16) OR ucast b = push_bit 8 (ucast a) + ucast b"
    by (rule disjunctive_add [symmetric]) (auto simp: bit_simps dest: bit_imp_le_length)
  moreover have "unat (push_bit 8 (ucast a) :: u16) = 256 * unat a"
  proof -
    have "256 * unat a < 65536" using u8_less [of a] by linarith
    then show ?thesis by (simp add: push_bit_eq_mult unat_word_ariths mult.commute)
  qed
  moreover have "256 * unat a + unat b < 65536" using u8_less [of a] u8_less [of b] by linarith
  ultimately show ?thesis by (simp add: be16_def unat_word_ariths)
qed

fun wsum :: "u8 list \<Rightarrow> nat" where
  "wsum (a # b # bs) = unat (be16 a b) + wsum bs"
| "wsum [a] = 256 * unat a"
| "wsum [] = 0"

lemma masked_be16: "unat (be16 a b AND 0xFF00) = 256 * unat a"
proof -
  have "be16 a b AND 0xFF00 = be16 a 0"
  proof -
    have m: "(0xFF00 :: u16) = push_bit 8 (mask 8)" by (simp add: mask_eq_exp_minus_1)
    show ?thesis
      unfolding m by (rule bit_word_eqI) (auto simp: be16_def bit_simps dest: bit_imp_le_length)
  qed
  then show ?thesis by (simp add: unat_be16)
qed


lemma of_nat_masked: "(of_nat (256 * unat a) :: u32) = ucast (be16 a b AND 0xFF00)"
proof (rule u32_eqI)
  have "256 * unat a < 4294967296" using u8_less [of a] by linarith
  then have "unat (of_nat (256 * unat a) :: u32) = 256 * unat a" by (rule u32_unat_of_nat)
  then show "unat (of_nat (256 * unat a) :: u32) = unat (ucast (be16 a b AND 0xFF00) :: u32)"
    by (simp add: masked_be16)
qed

lemma checksum_update_eq:
  "cnt \<le> length bs \<Longrightarrow> checksum_update acc bs cnt = Some (acc + of_nat (wsum (take cnt bs)))"
proof (induction acc bs cnt rule: checksum_update.induct)
  case (1 acc a b bs cnt)
  consider "cnt = 0" | "cnt = 1" | "2 \<le> cnt" by linarith
  then show ?case
  proof cases
    case 2
    have "(of_nat (256 * unat a) :: u32) = ucast (be16 a b AND 0xFF00)" by (rule of_nat_masked)
    with 2 show ?thesis by simp
  next
    case 3
    then obtain k where k: "cnt = Suc (Suc k)" by (metis add_2_eq_Suc le_Suc_ex)
    have "(of_nat (unat (be16 a b)) :: u32) = ucast (be16 a b)" by (simp add: word_unat_eq_iff unat_of_nat)
    with 1 3 k show ?thesis by (simp add: ac_simps)
  qed simp
next
  case (2 acc a cnt)
  have "(of_nat (256 * unat a) :: u32) = ucast (be16 a 0 AND 0xFF00)" by (rule of_nat_masked)
  with 2 show ?case by (cases "cnt = 0") auto
qed simp

lemma wsum_bound: "wsum bs \<le> 32768 * length bs + 32768"
proof (induction bs rule: wsum.induct)
  case (1 a b bs)
  have "unat (be16 a b) \<le> 65535" using u16_less [of "be16 a b"] by linarith
  with 1 show ?case by simp
next
  case (2 a)
  have "unat a \<le> 255" using u8_less [of a] by linarith
  then show ?case by simp
qed simp

lemma wsum_append: "even (length xs) \<Longrightarrow> wsum (xs @ ys) = wsum xs + wsum ys"
  by (induction xs rule: wsum.induct) auto

lemma wsum_bytes16 [simp]: "wsum (bytes16 v @ ys) = unat v + wsum ys"
  using be16_bytes16 [of v] by (simp add: bytes16_def)

lemma checksum_fold_props:
  "unat (checksum_fold s) < 65536 \<and> unat (checksum_fold s) mod 65535 = unat s mod 65535 \<and>
   (unat (checksum_fold s) = 0 \<longleftrightarrow> unat s = 0)"
proof (induction s rule: checksum_fold.induct)
  case (1 s)
  show ?case
  proof (cases "drop_bit 16 s \<noteq> 0")
    case True
    let ?t = "(s AND 0xFFFF) + drop_bit 16 s"
    have f: "checksum_fold s = checksum_fold ?t" using True by (subst checksum_fold.simps) simp
    have d: "unat s = unat s div 65536 * 65536 + unat s mod 65536" by simp
    have t: "unat ?t = unat s mod 65536 + unat s div 65536" by (rule fold_step)
    have "unat s = unat ?t + unat s div 65536 * 65535" using d t by linarith
    then have "unat s mod 65535 = unat ?t mod 65535" by (metis mod_mult_self1)
    moreover have "unat ?t = 0 \<longleftrightarrow> unat s = 0" using d t by linarith
    ultimately show ?thesis using 1 [OF True] unfolding f by simp
  next
    case False
    then have "checksum_fold s = s" by (subst checksum_fold.simps) simp
    moreover have "unat s < 65536" using False high16 [of s] by (simp add: div_eq_0_iff)
    ultimately show ?thesis by simp
  qed
qed

lemma unat_not_u16: "unat (NOT x :: u16) = 65535 - unat x"
proof -
  have "unat x \<le> 65535" using u16_less [of x] by linarith
  then have "unat x \<le> unat (0xFFFF :: u16)" by simp
  then have "unat (0xFFFF - x) = 65535 - unat x" by (simp add: unat_sub_if_size)
  moreover have "NOT x = 0xFFFF - x" by (simp add: not_eq_complement)
  ultimately show ?thesis by simp
qed

lemma unat_checksum_complete: "unat (checksum_complete s) = 65535 - unat (checksum_fold s)"
proof -
  have "unat (ucast (checksum_fold s) :: u16) = unat (checksum_fold s)"
    using checksum_fold_props [of s] by (simp add: unsigned_ucast_eq take_bit_nat_eq_self)
  then show ?thesis by (simp add: checksum_complete_def unat_not_u16)
qed

lemma checksum_complete_zero:
  "checksum_complete s = 0 \<longleftrightarrow> 0 < unat s \<and> unat s mod 65535 = 0"
proof -
  note p = checksum_fold_props [of s]
  have "checksum_complete s = 0 \<longleftrightarrow> unat (checksum_fold s) = 65535"
    using p unat_checksum_complete [of s] by (auto simp: word_unat_eq_iff)
  also have "\<dots> \<longleftrightarrow> 0 < unat (checksum_fold s) \<and> unat (checksum_fold s) mod 65535 = 0"
    using p by (auto simp: mod_eq_0_iff_dvd elim!: dvdE)
  finally show ?thesis using p by auto
qed

text \<open>A message whose checksum field was filled in with the complement of the sum with that field
  zero sums to a positive multiple of 65535.\<close>

lemma complete_then_verify:
  assumes "unat (s :: u32) + 65535 < 4294967296"
  shows "checksum_complete (s + ucast (checksum_complete s)) = 0"
    "checksum_complete s = 0 \<Longrightarrow> checksum_complete (s + 0xFFFF) = 0"
proof -
  note p = checksum_fold_props [of s]
  have c: "unat (checksum_complete s) \<le> 65535" using u16_less [of "checksum_complete s"] by linarith
  have u: "unat (s + ucast (checksum_complete s)) = unat s + (65535 - unat (checksum_fold s))"
    using assms c by (subst u32_unat_add) (simp_all add: unat_checksum_complete)
  have e: "unat s + (65535 - unat (checksum_fold s)) + unat (checksum_fold s) = unat s + 65535"
    using p by simp
  have "(unat s + (65535 - unat (checksum_fold s)) + unat (checksum_fold s)) mod 65535 =
      unat (checksum_fold s) mod 65535"
    unfolding e using p by simp
  then have "65535 dvd unat s + (65535 - unat (checksum_fold s)) + unat (checksum_fold s) - unat (checksum_fold s)"
    by (subst (asm) mod_eq_dvd_iff_nat) simp_all
  then have "(unat s + (65535 - unat (checksum_fold s))) mod 65535 = 0"
    by (simp only: add_diff_cancel_right' dvd_eq_mod_eq_0)
  moreover have "0 < unat s + (65535 - unat (checksum_fold s))"
    using p by (cases "unat s = 0") auto
  ultimately show "checksum_complete (s + ucast (checksum_complete s)) = 0"
    by (simp add: checksum_complete_zero u)
  have "unat (s + 0xFFFF) = unat s + 65535" using assms by (subst u32_unat_add) simp_all
  then show "checksum_complete s = 0 \<Longrightarrow> checksum_complete (s + 0xFFFF) = 0"
    by (simp add: checksum_complete_zero)
qed


section \<open>Computing and verifying\<close>

lemma drop_wr16:
  "wr16 p i v = Some q \<Longrightarrow> u \<le> i \<Longrightarrow>
   drop u (pbuf q) = take (i - u) (drop u (pbuf p)) @ bytes16 v @ drop (i + 2) (pbuf p)"
  by (auto simp: wr16_def wr_Some drop_take)

lemma wr16_twice:
  assumes "wr16 p i v = Some q"
  shows "wr16 q i w = wr16 p i w"
proof -
  have "i + 2 \<le> length (pbuf p)" "q = p\<lparr>pbuf := take i (pbuf p) @ bytes16 v @ drop (i + 2) (pbuf p)\<rparr>"
    using assms by (simp_all add: wr16_def wr_Some)
  then show ?thesis by (simp add: wr16_def wr_def)
qed

lemma drop_wr16_other: "wr16 p i v = Some q \<Longrightarrow> k + n \<le> i \<Longrightarrow> take n (drop k (pbuf q)) = take n (drop k (pbuf p))"
  by (auto simp: wr16_def wr_Some take_drop)

lemma checksum_field:
  assumes "even (length pre)" "length pre + 2 \<le> n" "n \<le> length (pre @ bytes16 v @ rest)"
  shows "checksum_update acc (pre @ bytes16 v @ rest) n =
    Some (acc + of_nat (wsum pre + wsum (take (n - length pre - 2) rest)) + ucast v)"
proof -
  have tk: "take n (pre @ bytes16 v @ rest) = pre @ bytes16 v @ take (n - length pre - 2) rest"
    using assms(2) by simp
  have "(of_nat (unat v) :: u32) = ucast v" by (simp add: word_unat_eq_iff unat_of_nat)
  then show ?thesis
    unfolding checksum_update_eq [OF assms(3)] tk by (simp add: wsum_append [OF assms(1)] ac_simps)
qed

lemma field_sum_bound:
  assumes "unat acc + 32768 * n + 131072 < 4294967296" "length pre + 2 \<le> n"
  shows "unat (acc + of_nat (wsum pre + wsum (take (n - length pre - 2) rest)) :: u32) + 65535 < 4294967296"
proof -
  let ?w = "wsum pre + wsum (take (n - length pre - 2) rest)"
  have "length (take (n - length pre - 2) rest) \<le> n - length pre - 2" by simp
  then have "?w \<le> 32768 * length pre + 32768 + (32768 * (n - length pre - 2) + 32768)"
    using wsum_bound [of pre] wsum_bound [of "take (n - length pre - 2) rest"]
    by (meson add_mono le_trans mult_le_mono2 add_le_mono1)
  also have "\<dots> = 32768 * n" using assms(2) by simp
  finally have w: "?w \<le> 32768 * n" .
  then have "unat acc + unat (of_nat ?w :: u32) < 4294967296"
    using assms(1) by (subst u32_unat_of_nat) simp_all
  then have "unat (acc + of_nat ?w) = unat acc + unat (of_nat ?w :: u32)" by (rule u32_unat_add)
  moreover have "unat (of_nat ?w :: u32) = ?w" using w assms(1) by (intro u32_unat_of_nat) simp
  ultimately show ?thesis using w assms(1) by simp
qed

lemma compute_verify_ipv4:
  assumes "pipv4 p = Some ip" "ip + 20 \<le> length (pbuf p)"
  shows "\<exists>c q. net_compute_ipv4_checksum p = Some q \<and> wr16 p (ip + 10) c = Some q \<and>
    net_verify_ipv4_checksum q = Some True"
proof -
  let ?hd = "take 10 (drop ip (pbuf p))" and ?rest = "drop (ip + 10 + 2) (pbuf p)"
  obtain p0 where p0: "wr16 p (ip + 10) 0 = Some p0"
    using wr_defined [of "ip + 10" "bytes16 0" p] assms(2) by (auto simp: wr16_def)
  have l: "length ?hd = 10" "20 \<le> length (?hd @ bytes16 v @ ?rest)" for v using assms(2) by simp_all
  let ?s = "of_nat (wsum ?hd + wsum (take (20 - length ?hd - 2) ?rest)) :: u32"
  have sum: "checksum_update 0 (?hd @ bytes16 v @ ?rest) 20 = Some (?s + ucast v)" for v
    using checksum_field [of ?hd 20 v ?rest 0] l by simp
  have c0: "checksum_compute (drop ip (pbuf p0)) 20 = Some (checksum_complete ?s)"
    using drop_wr16 [OF p0, of ip] sum [of 0] by (simp add: checksum_compute_def)
  let ?c = "checksum_complete ?s"
  obtain q where q: "wr16 p0 (ip + 10) ?c = Some q" "wr16 p (ip + 10) ?c = Some q"
    using wr16_twice [OF p0, of ?c] wr_defined [of "ip + 10" "bytes16 ?c" p] assms(2)
    by (auto simp: wr16_def)
  have f: "pipv4 p0 = Some ip" "pipv4 q = Some ip"
    using wr_fields p0 q(2) assms(1) by (auto simp: wr16_def)
  have "net_compute_ipv4_checksum p = Some q"
    using assms(1) p0 c0 q(1) by (simp add: net_compute_ipv4_checksum_def)
  moreover have "net_verify_ipv4_checksum q = Some True"
  proof -
    have "checksum_update 0 (drop ip (pbuf q)) 20 = Some (?s + ucast ?c)"
      using drop_wr16 [OF q(2), of ip] sum [of ?c] by simp
    moreover have "checksum_complete (?s + ucast ?c) = 0"
      using complete_then_verify(1) [of ?s] field_sum_bound [of 0 20 ?hd ?rest] l(1) by simp
    ultimately show ?thesis using f by (simp add: net_verify_ipv4_checksum_def checksum_compute_def)
  qed
  ultimately show ?thesis using q(2) by blast
qed


lemma rd_unchanged:
  assumes "wr16 p i v = Some q"
  shows "k < i \<Longrightarrow> rd8 q k = rd8 p k" "k + 2 \<le> i \<Longrightarrow> rd16 q k = rd16 p k" "k + 4 \<le> i \<Longrightarrow> rd32 q k = rd32 p k"
  using assms rd8_other [of p i "bytes16 v" q k] rd16_other [of p i "bytes16 v" q k]
    rd32_other [of p i "bytes16 v" q k] by (auto simp: wr16_def)

lemma compute_verify_icmp:
  assumes ptrs: "pipv4 p = Some ip" "picmp p = Some ic" "ip + 20 \<le> ic"
    and len: "rd16 p (ip + 2) = Some len" "24 \<le> unat len" "ic + (unat len - 20) \<le> length (pbuf p)"
  shows "\<exists>c q. net_compute_icmp_checksum p = Some q \<and> wr16 p (ic + 2) c = Some q \<and>
    net_verify_icmp_checksum q = Some True"
proof -
  let ?hd = "take 2 (drop ic (pbuf p))" and ?rest = "drop (ic + 2 + 2) (pbuf p)" and ?n = "unat len - 20"
  have n131: "unat len - 20 < 131068" using u16_less [of len] by linarith
  have n: "unat (ucast len - 20 :: u32) = ?n" using len(2) by (subst u32_unat_sub) simp_all
  have n4: "4 \<le> ?n" using len(2) by arith
  then have fits: "ic + 4 \<le> length (pbuf p)" using len(3) by linarith
  obtain p0 where p0: "wr16 p (ic + 2) 0 = Some p0"
    using wr_defined [of "ic + 2" "bytes16 0" p] fits by (auto simp: wr16_def)
  have l: "length ?hd = 2" "?n \<le> length (?hd @ bytes16 v @ ?rest)" "4 \<le> ?n" for v
    using len(3) n4 fits by auto
  let ?s = "of_nat (wsum ?hd + wsum (take (?n - length ?hd - 2) ?rest)) :: u32"
  have sum: "checksum_update 0 (?hd @ bytes16 v @ ?rest) ?n = Some (?s + ucast v)" for v
    using checksum_field [of ?hd ?n v ?rest 0] l by simp
  let ?c = "checksum_complete ?s"
  have c0: "checksum_compute (drop ic (pbuf p0)) ?n = Some ?c"
    using drop_wr16 [OF p0, of ic] sum [of 0] by (simp add: checksum_compute_def)
  obtain q where q: "wr16 p0 (ic + 2) ?c = Some q" "wr16 p (ic + 2) ?c = Some q"
    using wr16_twice [OF p0, of ?c] wr_defined [of "ic + 2" "bytes16 ?c" p] fits
    by (auto simp: wr16_def)
  have f: "pipv4 p0 = Some ip" "pipv4 q = Some ip" "picmp q = Some ic"
    using wr_fields p0 q(2) ptrs by (auto simp: wr16_def)
  have il: "icmp_length p0 ip = Some ?n" "icmp_length q ip = Some ?n"
    using rd_unchanged(2) [OF p0, of "ip + 2"] rd_unchanged(2) [OF q(2), of "ip + 2"] ptrs(3) len(1) n
    by (simp_all add: icmp_length_def)
  have "net_compute_icmp_checksum p = Some q"
    using ptrs p0 c0 q(1) f il by (simp add: net_compute_icmp_checksum_def)
  moreover have "net_verify_icmp_checksum q = Some True"
  proof -
    have "checksum_update 0 (drop ic (pbuf q)) ?n = Some (?s + ucast ?c)"
      using drop_wr16 [OF q(2), of ic] sum [of ?c] by simp
    moreover have "unat ?s + 65535 < 4294967296"
      using field_sum_bound [of 0 ?n ?hd ?rest] l n131 by simp
    ultimately show ?thesis using f il complete_then_verify(1) [of ?s]
      by (simp add: net_verify_icmp_checksum_def checksum_compute_def)
  qed
  ultimately show ?thesis using q(2) by blast
qed

text \<open>The sum before the UDP header: addresses, protocol and length.\<close>

definition pseudo_sum :: "packet \<Rightarrow> nat \<Rightarrow> nat \<Rightarrow> u32 option" where
  "pseudo_sum p ip u = do {
     acc \<leftarrow> checksum_update 0 (drop (ip + 12) (pbuf p)) 8;
     proto \<leftarrow> rd8 p (ip + 9);
     len \<leftarrow> rd16 p (u + 4);
     Some (acc + ucast proto + ucast len) }"

lemma udp_checksum_split:
  assumes "pipv4 p = Some ip" "pudp p = Some u" "rd16 p (u + 4) = Some len" "pseudo_sum p ip u = Some acc"
  shows "udp_checksum_pseudoheader p = map_option checksum_complete (checksum_update acc (drop u (pbuf p)) (unat len))"
  using assms by (auto simp: udp_checksum_pseudoheader_def pseudo_sum_def bind_eq_Some_conv map_conv_bind_option comp_def)

lemma pseudo_sum_bound:
  assumes "ip + 20 \<le> length (pbuf p)" "rd16 p (u + 4) = Some len"
  shows "\<exists>acc. pseudo_sum p ip u = Some acc \<and> unat acc \<le> 425984"
proof -
  let ?w = "wsum (take 8 (drop (ip + 12) (pbuf p)))"
  have w: "?w \<le> 294912" using wsum_bound [of "take 8 (drop (ip + 12) (pbuf p))"] by simp
  have "checksum_update 0 (drop (ip + 12) (pbuf p)) 8 = Some (0 + of_nat ?w)"
    using assms(1) by (intro checksum_update_eq) simp
  moreover obtain proto where "rd8 p (ip + 9) = Some proto" using rd8_defined [of "ip + 9" p] assms(1) by auto
  moreover have "unat (of_nat ?w + ucast proto + ucast len :: u32) = ?w + unat proto + unat len"
  proof -
    have pl: "unat proto \<le> 255" "unat len \<le> 65535"
      using u8_less [of proto] u16_less [of len] by linarith+
    moreover have u: "unat (of_nat ?w :: u32) = ?w" using w by (intro u32_unat_of_nat) simp
    ultimately have "unat (of_nat ?w + ucast proto :: u32) = ?w + unat proto"
      using w by (subst u32_unat_add) simp_all
    with pl w show ?thesis by (subst u32_unat_add) simp_all
  qed
  moreover have "?w + unat proto + unat len \<le> 425984"
    using w u8_less [of proto] u16_less [of len] by linarith
  ultimately show ?thesis using assms(2) by (simp add: pseudo_sum_def)
qed

lemma pseudo_sum_wr:
  assumes "wr16 p i v = Some q" "ip + 20 \<le> i" "u + 6 \<le> i" "i + 2 \<le> length (pbuf p)"
  shows "pseudo_sum q ip u = pseudo_sum p ip u"
proof -
  have "length (pbuf q) = length (pbuf p)" using assms(1) wr_length by (auto simp: wr16_def)
  then have "checksum_update 0 (drop (ip + 12) (pbuf q)) 8 = checksum_update 0 (drop (ip + 12) (pbuf p)) 8"
    using drop_wr16_other [OF assms(1), of "ip + 12" 8] assms(2,4) by (subst (1 2) checksum_update_eq) simp_all
  then show ?thesis
    using rd_unchanged(1) [OF assms(1), of "ip + 9"] rd_unchanged(2) [OF assms(1), of "u + 4"] assms(2,3)
    by (simp add: pseudo_sum_def)
qed

lemma compute_verify_udp:
  assumes ptrs: "pipv4 p = Some ip" "pudp p = Some u" "ip + 20 \<le> u"
    and len: "rd16 p (u + 4) = Some len" "8 \<le> unat len" "u + unat len \<le> length (pbuf p)"
  shows "\<exists>c q. net_compute_udp_checksum p = Some q \<and> wr16 p (u + 6) c = Some q \<and> c \<noteq> 0 \<and>
    net_verify_udp_checksum q = Some True"
proof -
  let ?hd = "take 6 (drop u (pbuf p))" and ?rest = "drop (u + 6 + 2) (pbuf p)" and ?n = "unat len"
  have n16: "?n < 65536" by simp
  obtain acc where acc: "pseudo_sum p ip u = Some acc" "unat acc \<le> 425984"
    using pseudo_sum_bound [OF _ len(1), of ip] ptrs(3) len by auto
  obtain p0 where p0: "wr16 p (u + 6) 0 = Some p0"
    using wr_defined [of "u + 6" "bytes16 0" p] len by (auto simp: wr16_def)
  have l: "length ?hd = 6" "?n \<le> length (?hd @ bytes16 v @ ?rest)" for v using len by simp_all
  let ?s = "acc + of_nat (wsum ?hd + wsum (take (?n - length ?hd - 2) ?rest)) :: u32"
  have sum: "checksum_update acc (?hd @ bytes16 v @ ?rest) ?n = Some (?s + ucast v)" for v
    using checksum_field [of ?hd ?n v ?rest acc] l len(2) by simp
  have bound: "unat ?s + 65535 < 4294967296"
    using field_sum_bound [of acc ?n ?hd ?rest] l len(2) acc(2) n16 by simp
  define c0 where "c0 = checksum_complete ?s"
  define c where "c = (if c0 = 0 then 0xFFFF else c0)"
  obtain q where q: "wr16 p0 (u + 6) c = Some q" "wr16 p (u + 6) c = Some q"
    using wr16_twice [OF p0, of c] wr_defined [of "u + 6" "bytes16 c" p] len by (auto simp: wr16_def)
  have f: "pipv4 p0 = Some ip" "pudp p0 = Some u" "pipv4 q = Some ip" "pudp q = Some u"
    using wr_fields p0 q(2) ptrs by (auto simp: wr16_def)
  have fits: "u + 6 + 2 \<le> length (pbuf p)" using len by simp
  have r: "rd16 p0 (u + 4) = Some len" "rd16 q (u + 4) = Some len"
    using rd_unchanged(2) [OF p0, of "u + 4"] rd_unchanged(2) [OF q(2), of "u + 4"] len(1) by simp_all
  have ps: "pseudo_sum p0 ip u = Some acc" "pseudo_sum q ip u = Some acc"
    using pseudo_sum_wr [OF p0 _ _ fits, of ip u] pseudo_sum_wr [OF q(2) _ _ fits, of ip u] ptrs(3) acc(1) by simp_all
  have "udp_checksum_pseudoheader p0 = Some c0"
    using udp_checksum_split [OF f(1,2) r(1) ps(1)] drop_wr16 [OF p0, of u] sum [of 0]
    by (simp add: c0_def)
  then have "net_compute_udp_checksum p = Some q"
    using ptrs p0 q(1) by (simp add: net_compute_udp_checksum_def c_def)
  moreover have "net_verify_udp_checksum q = Some True"
  proof -
    have "rd16 q (u + 6) = Some c" using rd16_same [OF q(2)] .
    moreover have "udp_checksum_pseudoheader q = Some (checksum_complete (?s + ucast c))"
      using udp_checksum_split [OF f(3,4) r(2) ps(2)] drop_wr16 [OF q(2), of u] sum [of c] by simp
    moreover have "checksum_complete (?s + ucast c) = 0"
      using complete_then_verify [OF bound] by (simp add: c_def c0_def)
    ultimately show ?thesis using f by (simp add: net_verify_udp_checksum_def)
  qed
  moreover have "c \<noteq> 0" by (simp add: c_def)
  ultimately show ?thesis using q(2) by blast
qed

text \<open>C28. Whatever the stack computes it accepts: the IPv4 header, ICMP and UDP checksums written by
  the compute functions are accepted by the verify functions, the frame otherwise unchanged, for
  every packet whose length fields stay inside its frame; a UDP checksum is never written as zero,
  which would mean that there is none.\<close>

theorem checksums_verify:
  assumes "pipv4 p = Some ip" and "ip + 20 \<le> length (pbuf p)"
  shows "(\<exists>c q. net_compute_ipv4_checksum p = Some q \<and> wr16 p (ip + 10) c = Some q \<and>
      net_verify_ipv4_checksum q = Some True) \<and>
    (\<forall>ic len. picmp p = Some ic \<and> ip + 20 \<le> ic \<and> rd16 p (ip + 2) = Some len \<and> 24 \<le> unat len \<and>
      ic + (unat len - 20) \<le> length (pbuf p) \<longrightarrow>
      (\<exists>c q. net_compute_icmp_checksum p = Some q \<and> wr16 p (ic + 2) c = Some q \<and>
        net_verify_icmp_checksum q = Some True)) \<and>
    (\<forall>u len. pudp p = Some u \<and> ip + 20 \<le> u \<and> rd16 p (u + 4) = Some len \<and> 8 \<le> unat len \<and>
      u + unat len \<le> length (pbuf p) \<longrightarrow>
      (\<exists>c q. net_compute_udp_checksum p = Some q \<and> wr16 p (u + 6) c = Some q \<and> c \<noteq> 0 \<and>
        net_verify_udp_checksum q = Some True))"
  using compute_verify_ipv4 [OF assms] compute_verify_icmp [OF assms(1)] compute_verify_udp [OF assms(1)]
  by blast

definition sample_packet :: packet where
  "sample_packet = (packet_alloc (\<lambda>_. 1) 60)\<lparr>pipv4 := Some 14\<rparr>"

theorem checksums_verify_witness:
  "\<exists>q. net_compute_ipv4_checksum sample_packet = Some q \<and> net_verify_ipv4_checksum q = Some True"
  using checksums_verify [of sample_packet 14] by (auto simp: sample_packet_def packet_alloc_def)

text \<open>The checksum detects every change of a single 16-bit word, except the exchange of 0x0000 and
  0xFFFF: two messages that differ in one aligned word only cannot both verify.\<close>

theorem checksum_detects_word:
  assumes "even (length xs)" and "length xs + 2 + length ys \<le> 65536"
    and "v \<noteq> w" and "{v, w} \<noteq> {0, 0xFFFF}"
    and "checksum_compute (xs @ bytes16 v @ ys) (length xs + 2 + length ys) = Some 0"
  shows "checksum_compute (xs @ bytes16 w @ ys) (length xs + 2 + length ys) \<noteq> Some 0"
proof
  assume w0: "checksum_compute (xs @ bytes16 w @ ys) (length xs + 2 + length ys) = Some 0"
  let ?n = "length xs + 2 + length ys"
  let ?s = "of_nat (wsum xs + wsum (take (?n - length xs - 2) ys)) :: u32"
  have b: "unat ?s + 65535 < 4294967296" using field_sum_bound [of 0 ?n xs ys] assms(2) by simp
  have sum: "checksum_compute (xs @ bytes16 x @ ys) ?n = Some (checksum_complete (?s + ucast x))" for x
    using checksum_field [OF assms(1), of ?n x ys 0] by (simp add: checksum_compute_def)
  have u: "unat (?s + ucast x) = unat ?s + unat x" for x :: u16
  proof -
    have "unat x \<le> 65535" using u16_less [of x] by linarith
    then show ?thesis using b by (subst u32_unat_add) simp_all
  qed
  have "checksum_complete (?s + ucast v) = 0" "checksum_complete (?s + ucast w) = 0"
    using assms(5) w0 sum [of v] sum [of w] by simp_all
  then have "(unat ?s + unat v) mod 65535 = 0" "(unat ?s + unat w) mod 65535 = 0"
    by (simp_all only: checksum_complete_zero u)
  then have "65535 dvd unat ?s + unat v" "65535 dvd unat ?s + unat w"
    by (simp_all only: dvd_eq_mod_eq_0)
  then have "int 65535 dvd int (unat ?s + unat v)" "int 65535 dvd int (unat ?s + unat w)"
    by (simp_all only: int_dvd_int_iff)
  then have "int 65535 dvd int (unat ?s + unat v) - int (unat ?s + unat w)"
    by (rule dvd_diff)
  then have d: "65535 dvd int (unat v) - int (unat w)" by simp
  have r: "int (unat v) < 65536" "int (unat w) < 65536" using u16_less [of v] u16_less [of w] by linarith+
  obtain k where k: "int (unat v) - int (unat w) = 65535 * k" using d by (elim dvdE)
  have "0 \<le> int (unat v)" "0 \<le> int (unat w)" by (rule of_nat_0_le_iff)+
  with k r have "k < 2" "-2 < k" by linarith+
  then have "k = 0 \<or> k = 1 \<or> k = -1" by arith
  then show False
  proof (elim disjE)
    assume "k = 0"
    with k have "unat v = unat w" by linarith
    with assms(3) show False by (simp add: word_unat_eq_iff)
  next
    assume "k = 1"
    with k r have "unat v = 65535" "unat w = 0" by linarith+
    then have "v = 0xFFFF" "w = 0" by (simp_all add: word_unat_eq_iff)
    with assms(4) show False by auto
  next
    assume "k = -1"
    with k r have "unat w = 65535" "unat v = 0" by linarith+
    then have "w = 0xFFFF" "v = 0" by (simp_all add: word_unat_eq_iff)
    with assms(4) show False by auto
  qed
qed

theorem checksum_detects_word_witness:
  "checksum_compute ([0xFF, 0xFE] @ bytes16 2 @ []) (length [0xFF, 0xFE :: u8] + 2 + length ([] :: u8 list)) \<noteq> Some 0"
proof -
  have "checksum_compute ([0xFF, 0xFE] @ bytes16 1 @ []) (length [0xFF, 0xFE :: u8] + 2 + length ([] :: u8 list)) = Some 0"
    by (simp add: checksum_compute_def checksum_complete_def checksum_fold.simps bytes16_def be16_def)
  with checksum_detects_word [of "[0xFF, 0xFE]" "[]" 1 2] show ?thesis
    by (simp add: doubleton_eq_iff)
qed

end
