(* ===== verification/Ne2000.thy ===== *)
theory Ne2000
  imports Prelude "HOL-Library.Monad_Syntax"
begin

text \<open>
  The DP83902A (NE2000) driver of \<^verbatim>\<open>net/ne2000.c\<close>. The card is what the program sees of it: the
  values successive port reads return are a sequence fixed in advance, and the port writes are
  logged in order, so every statement holds for any behaviour of the card. \<open>pio16\<close> selects the
  16-bit build (\<open>NE2000_16BIT_PIO\<close>). Frames handed to \<open>net_eth_push\<close> are collected in \<open>rx_frames\<close>: that
  function does not touch the card. Delays between accesses are left out.
\<close>

record nic =
  pio16 :: bool
  base :: u16
  data_port :: u16
  rtl8019 :: bool
  tx_next :: int
  tx_int :: int
  rx_next :: int
  tx1 :: int
  tx2 :: int
  tx1_len :: int
  tx2_len :: int
  tx_started :: bool
  running :: bool
  tx_buf1 :: int
  tx_buf2 :: int
  rx_buf_start :: int
  rx_buf_end :: int
  port_in :: "nat \<Rightarrow> u16"
  port_pos :: nat
  port_out :: "(u16 \<times> u16) list"
  rx_frames :: "(int \<times> u8 list) list"

section \<open>Ports\<close>

definition outb :: "u16 \<Rightarrow> int \<Rightarrow> nic \<Rightarrow> nic" where
  "outb reg val s = s\<lparr>port_out := port_out s @ [(base s + reg, ucast (of_int val :: u8))]\<rparr>"

definition out_data :: "u16 \<Rightarrow> nic \<Rightarrow> nic" where
  "out_data val s = s\<lparr>port_out := port_out s @ [(data_port s, val)]\<rparr>"

definition inb :: "nic \<Rightarrow> u8 \<times> nic" where
  "inb s = (ucast (port_in s (port_pos s)), s\<lparr>port_pos := Suc (port_pos s)\<rparr>)"

definition inw :: "nic \<Rightarrow> u16 \<times> nic" where
  "inw s = (port_in s (port_pos s), s\<lparr>port_pos := Suc (port_pos s)\<rparr>)"

definition DP_CR :: u16 where "DP_CR = 0x00"
definition DP_PSTART :: u16 where "DP_PSTART = 0x01"
definition DP_PSTOP :: u16 where "DP_PSTOP = 0x02"
definition DP_BNDRY :: u16 where "DP_BNDRY = 0x03"
definition DP_TPSR :: u16 where "DP_TPSR = 0x04"
definition DP_TBCL :: u16 where "DP_TBCL = 0x05"
definition DP_TBCH :: u16 where "DP_TBCH = 0x06"
definition DP_ISR :: u16 where "DP_ISR = 0x07"
definition DP_RSAL :: u16 where "DP_RSAL = 0x08"
definition DP_RSAH :: u16 where "DP_RSAH = 0x09"
definition DP_RBCL :: u16 where "DP_RBCL = 0x0A"
definition DP_RBCH :: u16 where "DP_RBCH = 0x0B"
definition DP_RCR :: u16 where "DP_RCR = 0x0C"
definition DP_TCR :: u16 where "DP_TCR = 0x0D"
definition DP_DCR :: u16 where "DP_DCR = 0x0E"
definition DP_IMR :: u16 where "DP_IMR = 0x0F"
definition DP_P1_CURP :: u16 where "DP_P1_CURP = 0x07"
definition DP_P1_PAR0 :: u16 where "DP_P1_PAR0 = 0x01"

text \<open>The command bytes: \<open>STOP\<close> 1, \<open>START\<close> 2, \<open>TXPKT\<close> 4, \<open>RDMA\<close> 8, \<open>WDMA\<close> 16, \<open>NODMA\<close> 32, \<open>PAGE1\<close> 64.\<close>

definition CR_STOP :: int where "CR_STOP = 0x21"
definition CR_START :: int where "CR_START = 0x22"
definition CR_TXPKT :: int where "CR_TXPKT = 0x26"
definition CR_RDMA :: int where "CR_RDMA = 0x0A"
definition CR_WDMA :: int where "CR_WDMA = 0x12"
definition CR_PAGE1_STOP :: int where "CR_PAGE1_STOP = 0x61"
definition CR_PAGE1_START :: int where "CR_PAGE1_START = 0x62"
definition ISR_RxP_RxE :: u8 where "ISR_RxP_RxE = 0x05"
definition ISR_TxP_TxE :: u8 where "ISR_TxP_TxE = 0x0A"
definition ISR_OFLW :: u8 where "ISR_OFLW = 0x10"
definition ISR_CNT :: u8 where "ISR_CNT = 0x20"
definition ISR_RDC :: u8 where "ISR_RDC = 0x40"

section \<open>Start and stop\<close>

definition dp83902a_stop :: "nic \<Rightarrow> nic" where
  "dp83902a_stop s =
     (let s = outb DP_CR CR_STOP s; s = outb DP_ISR 0xFF s; s = outb DP_IMR 0x00 s
      in s\<lparr>running := False\<rparr>)"

fun write_mac :: "nat \<Rightarrow> u8 list \<Rightarrow> nic \<Rightarrow> nic" where
  "write_mac i [] s = s"
| "write_mac i (e # es) s = write_mac (Suc i) es (outb (DP_P1_PAR0 + of_nat i) (uint e) s)"

definition dp83902a_start :: "u8 list \<Rightarrow> nic \<Rightarrow> nic" where
  "dp83902a_start enaddr s =
     (let s = outb DP_CR CR_STOP s;
          s = outb DP_DCR (if pio16 s then 0x49 else 0x48) s;
          s = outb DP_RBCH 0 s;
          s = outb DP_RBCL 0 s;
          s = outb DP_RCR 0x20 s;
          s = outb DP_TCR 0x02 s;
          s = outb DP_TPSR (tx_buf1 s) s;
          s = s\<lparr>tx1 := 0, tx2 := 0, tx_next := tx_buf1 s, tx_started := False\<rparr>;
          s = outb DP_PSTART (rx_buf_start s) s;
          s = outb DP_PSTOP (rx_buf_end s) s;
          s = outb DP_BNDRY (rx_buf_start s) s;
          s = outb DP_ISR 0xFF s;
          s = outb DP_IMR 0x3F s;
          s = outb DP_CR CR_PAGE1_STOP s;
          s = outb DP_P1_CURP (rx_buf_start s + 1) s;
          s = s\<lparr>rx_next := rx_buf_start s + 1\<rparr>;
          s = write_mac 0 enaddr s;
          s = outb DP_CR CR_START s;
          s = outb DP_TCR 0x00 s;
          s = outb DP_RCR 0x04 s
      in s\<lparr>running := True\<rparr>)"

section \<open>Transmission\<close>

definition dp83902a_start_xmit :: "int \<Rightarrow> int \<Rightarrow> nic \<Rightarrow> nic" where
  "dp83902a_start_xmit start_page len s =
     (let s = outb DP_ISR 0x0A s;
          s = outb DP_CR CR_START s;
          s = outb DP_TBCL (len mod 256) s;
          s = outb DP_TBCH (len div 256) s;
          s = outb DP_TPSR start_page s;
          s = outb DP_CR CR_TXPKT s
      in s\<lparr>tx_started := True\<rparr>)"

text \<open>The data words written for a frame; \<open>pad\<close> is the byte behind an odd-length frame in memory,
  which the 16-bit loop also reads.\<close>

fun frame_words :: "u8 \<Rightarrow> u8 list \<Rightarrow> u16 list" where
  "frame_words pad (a # b # bs) = bswap16 (be16 a b) # frame_words pad bs"
| "frame_words pad [a] = [bswap16 (be16 a pad)]"
| "frame_words pad [] = []"

definition put_data :: "u16 list \<Rightarrow> nic \<Rightarrow> nic" where
  "put_data ws s = foldl (\<lambda>s w. out_data w s) s ws"

text \<open>\<open>do isr = read(DP_ISR); while ((isr & DP_ISR_RDC) == 0);\<close>\<close>

partial_function (option) wait_rdc :: "nic \<Rightarrow> nic option" where
  "wait_rdc s =
     (case inb s of (isr, s) \<Rightarrow> if isr AND 0x40 = 0 then wait_rdc s else Some s)"

text \<open>Reserving a transmit buffer: the first assignments of \<open>dp83902a_send\<close>.\<close>

definition reserve_buffer :: "int \<Rightarrow> nic \<Rightarrow> nic" where
  "reserve_buffer pkt_len s =
     (if tx_next s = tx_buf1 s
      then s\<lparr>tx1 := tx_next s, tx1_len := pkt_len, tx_next := tx_buf2 s\<rparr>
      else s\<lparr>tx2 := tx_next s, tx2_len := pkt_len, tx_next := tx_buf1 s\<rparr>)"

definition upload_frame :: "int \<Rightarrow> int \<Rightarrow> u8 \<Rightarrow> u8 list \<Rightarrow> nic \<Rightarrow> nic" where
  "upload_frame start_page pkt_len pad frame s =
     (let s = outb DP_ISR 0x40 s;
          s = outb DP_RSAL (0x100 - 1) s;
          s = outb DP_RSAH ((start_page - 1) mod 256) s;
          s = outb DP_RBCL (if pio16 s then 2 else 1) s;
          s = outb DP_RBCH 0 s;
          s = outb DP_CR CR_RDMA s;
          s = snd (inw s);
          s = outb DP_RSAL 0 s;
          s = outb DP_RSAH start_page s;
          s = outb DP_RBCL (pkt_len mod 256) s;
          s = outb DP_RBCH (pkt_len div 256) s;
          s = outb DP_CR CR_WDMA s;
          words = (if pio16 s then frame_words pad frame else map ucast frame);
          s = put_data words s;
          total_len = int (length frame)
      in if total_len < pkt_len
         then (let len = (if pio16 s then (pkt_len - 2 * int (length words)) div 2 else pkt_len - int (length words))
               in put_data (replicate (nat len) 0) s)
         else s)"

definition dp83902a_send :: "u8 \<Rightarrow> u8 list \<Rightarrow> nic \<Rightarrow> nic option" where
  "dp83902a_send pad frame s =
     (let total_len = int (length frame);
          pkt_len = (if total_len < 64 then 64 else total_len);
          start_page = tx_next s;
          s = reserve_buffer pkt_len s;
          pkt_len = (if pio16 s \<and> pkt_len mod 2 = 1 then pkt_len + 1 else pkt_len);
          s = upload_frame start_page pkt_len pad frame s
      in do {
        s \<leftarrow> wait_rdc s;
        let s = outb DP_CR CR_START s;
        Some (if \<not> tx_started s
              then dp83902a_start_xmit start_page pkt_len
                     (s\<lparr>tx_int := if start_page = tx1 s then 1 else 2\<rparr>)
              else s) })"

definition dp83902a_TxEvent :: "nic \<Rightarrow> nic" where
  "dp83902a_TxEvent s =
     (let s = snd (inb s);
          s = (if tx_int s = 1 then s\<lparr>tx1 := 0\<rparr> else s\<lparr>tx2 := 0\<rparr>);
          s = s\<lparr>tx_started := False\<rparr>
      in if tx1 s \<noteq> 0 then (dp83902a_start_xmit (tx1 s) (tx1_len s) s)\<lparr>tx_int := 1\<rparr>
         else if tx2 s \<noteq> 0 then (dp83902a_start_xmit (tx2 s) (tx2_len s) s)\<lparr>tx_int := 2\<rparr>
         else s\<lparr>tx_int := 0\<rparr>)"

definition eth_tx :: "u8 \<Rightarrow> u8 list \<Rightarrow> nic \<Rightarrow> (bool \<times> nic) option" where
  "eth_tx pad frame s =
     (if base s = 0 then Some (False, s)
      else if length frame \<ge> 1536 then Some (False, s)
      else if tx1 s \<noteq> 0 \<and> tx2 s \<noteq> 0 then Some (False, s)
      else map_option (Pair True) (dp83902a_send pad frame s))"

section \<open>Reception\<close>

fun read_bytes :: "nat \<Rightarrow> nic \<Rightarrow> u8 list \<times> nic" where
  "read_bytes 0 s = ([], s)"
| "read_bytes (Suc n) s = (let (b, s) = inb s; (bs, s) = read_bytes n s in (b # bs, s))"

fun read_words :: "nat \<Rightarrow> nic \<Rightarrow> u8 list \<times> nic" where
  "read_words 0 s = ([], s)"
| "read_words (Suc n) s = (let (w, s) = inw s; (bs, s) = read_words n s in (bytes16 (bswap16 w) @ bs, s))"

text \<open>The bytes \<open>dp83902a_recv\<close> stores from \<open>data\<close> on: an odd length is rounded up in the 16-bit build.\<close>

definition dp83902a_recv :: "int \<Rightarrow> nic \<Rightarrow> u8 list \<times> nic" where
  "dp83902a_recv len s =
     (let s = outb DP_CR CR_START s;
          s = outb DP_RBCL (len mod 256) s;
          s = outb DP_RBCH (len div 256) s;
          s = outb DP_RSAL 4 s;
          s = outb DP_RSAH (rx_next s) s;
          s = outb DP_ISR 0x40 s;
          s = outb DP_CR CR_RDMA s
      in if pio16 s then read_words (nat ((len + 1) div 2)) s else read_bytes (nat len) s)"

text \<open>\<open>packet_alloc(len)\<close> stores the length in 16 bits, and that many bytes are fetched.\<close>

definition push_packet_ready :: "int \<Rightarrow> nic \<Rightarrow> nic" where
  "push_packet_ready len s =
     (let (bs, s) = dp83902a_recv (uint (of_int len :: u16)) s
      in s\<lparr>rx_frames := rx_frames s @ [(len, bs)]\<rparr>)"

definition read_header :: "nic \<Rightarrow> u8 list \<times> nic" where
  "read_header s =
     (let s = outb DP_RBCL 4 s;
          s = outb DP_RBCH 0 s;
          s = outb DP_RSAL 0 s;
          s = outb DP_RSAH (rx_next s) s;
          s = outb DP_ISR 0x40 s;
          s = outb DP_CR CR_RDMA s
      in if pio16 s then read_words 2 s else read_bytes 4 s)"

text \<open>Unloading one packet of the receive ring: the body of the loop of \<open>dp83902a_RxEvent\<close>.\<close>

definition rx_one :: "nic \<Rightarrow> nic" where
  "rx_one s =
     (let (hdr, s) = read_header s;
          len = uint (hdr ! 3) * 256 + uint (hdr ! 2) - 4;
          s = (if len \<ge> 1536 then s else push_packet_ready len s);
          s = s\<lparr>rx_next := uint (hdr ! 1)\<rparr>
      in if rx_next s - 1 < rx_buf_start s then outb DP_BNDRY (rx_buf_end s - 1) s
         else outb DP_BNDRY (rx_next s - 1) s)"

partial_function (option) dp83902a_RxEvent :: "nic \<Rightarrow> nic option" where
  "dp83902a_RxEvent s =
     (case inb (outb DP_CR CR_PAGE1_START s) of
        (cur, s) \<Rightarrow>
          (let s = outb DP_CR CR_START s in
           if rx_next s = uint cur then Some s else dp83902a_RxEvent (rx_one s)))"

section \<open>Events\<close>

definition dp83902a_ClearCounters :: "nic \<Rightarrow> nic" where
  "dp83902a_ClearCounters s = outb DP_ISR 0x20 (snd (inb (snd (inb (snd (inb s))))))"

definition dp83902a_Overflow :: "nic \<Rightarrow> nic option" where
  "dp83902a_Overflow s =
     (let s = outb DP_CR CR_STOP s;
          s = outb DP_RBCL 0 s;
          s = outb DP_RBCH 0 s;
          s = outb DP_TCR 0x02 s;
          s = outb DP_CR CR_START s
      in do {
        s \<leftarrow> dp83902a_RxEvent s;
        let s = outb DP_ISR 0x05 s;
        let s = outb DP_ISR 0x10 s;
        let s = outb DP_TCR 0x00 s;
        let (isr, s) = inb s;
        Some (if tx_started s \<and> isr AND ISR_TxP_TxE = 0 then outb DP_CR CR_TXPKT s else s) })"

text \<open>One pass of the poll loop for the interrupt status read; the flag says to leave the loop.\<close>

definition poll_step :: "u8 \<Rightarrow> nic \<Rightarrow> (bool \<times> nic) option" where
  "poll_step isr s =
     (let s = (if isr AND ISR_CNT \<noteq> 0 then dp83902a_ClearCounters s else s) in
      if isr AND ISR_OFLW \<noteq> 0 then map_option (Pair False) (dp83902a_Overflow s)
      else
        let s = outb DP_ISR (uint isr) s in
        if \<not> running s then Some (True, s)
        else
          let s = (if isr AND ISR_TxP_TxE \<noteq> 0 \<and> tx_started s then dp83902a_TxEvent s else s)
          in if isr AND ISR_RxP_RxE \<noteq> 0 then map_option (Pair False) (dp83902a_RxEvent s)
             else Some (False, s))"

partial_function (option) poll_loop :: "nic \<Rightarrow> nic option" where
  "poll_loop s =
     (case inb s of (isr, s) \<Rightarrow>
        Option.bind (poll_step isr s) (\<lambda>(leave, s).
          if leave \<or> isr = 0 then Some s else poll_loop s))"

definition dp83902a_poll :: "nic \<Rightarrow> nic option" where
  "dp83902a_poll s = poll_loop (outb DP_CR CR_START s)"

definition eth_rxbuffer_size :: "nic \<Rightarrow> int" where
  "eth_rxbuffer_size s = (if base s = 0 then 0 else (rx_buf_end s - rx_buf_start s) * 256)"

definition eth_halt :: "nic \<Rightarrow> nic" where
  "eth_halt s = (if base s \<noteq> 0 then dp83902a_stop s else s)"

section \<open>Finding the card\<close>

text \<open>\<open>pcnet_reset_8390\<close> polls the reset bit at most 100 times; the delays are left out.\<close>

fun wait_reset :: "nat \<Rightarrow> nic \<Rightarrow> nic" where
  "wait_reset 0 s = s"
| "wait_reset (Suc n) s = (let (r, s) = inb s in if r AND 0x80 \<noteq> 0 then s else wait_reset n s)"

definition pcnet_reset_8390 :: "nic \<Rightarrow> nic" where
  "pcnet_reset_8390 s =
     (let s = outb DP_CR CR_STOP s;
          s = outb DP_CR CR_PAGE1_STOP s;
          s = outb DP_CR CR_STOP s;
          s = outb DP_CR CR_STOP s;
          (r, s) = inb s;
          s = outb 0x1F (uint r) s;
          s = wait_reset 100 s
      in outb DP_ISR 0xFF s)"

definition get_prom_program_seq :: "(int \<times> u16) list" where
  "get_prom_program_seq =
     [(CR_STOP, DP_CR), (0x48, DP_DCR), (0x00, DP_RBCL), (0x00, DP_RBCH), (0x00, DP_IMR), (0xFF, DP_ISR),
      (0x20, DP_RCR), (0x02, DP_TCR), (32, DP_RBCL), (0x00, DP_RBCH), (0x00, DP_RSAL), (0x00, DP_RSAH),
      (CR_RDMA, DP_CR)]"

text \<open>The result is whether a card was found, and the MAC address read, which is stored even when it
  is rejected.\<close>

definition get_prom :: "nic \<Rightarrow> bool \<times> u8 list \<times> nic" where
  "get_prom s =
     (let s = pcnet_reset_8390 s;
          s = foldl (\<lambda>s (v, r). outb r v s) s get_prom_program_seq;
          (prom, s) = read_bytes 32 s;
          mac = map (\<lambda>j. prom ! (2 * j)) [0..<6]
      in if (\<forall>b \<in> set mac. b = 0x00) \<or> (\<forall>b \<in> set mac. b = 0xFF) then (False, mac, s)
         else (let (lo, s) = inb s in
               if lo = 0x50 then (let (hi, s) = inb s in (True, mac, s\<lparr>rtl8019 := hi = 0x70\<rparr>))
               else (True, mac, s\<lparr>rtl8019 := False\<rparr>)))"

fun probe_ports :: "u16 list \<Rightarrow> u8 list \<Rightarrow> nic \<Rightarrow> bool \<times> u8 list \<times> nic" where
  "probe_ports [] mac s = (False, mac, s\<lparr>base := 0, data_port := 0\<rparr>)"
| "probe_ports (port # ports) mac s =
     (let s = s\<lparr>base := port, data_port := port + 0x10\<rparr>;
          (found, mac, s) = get_prom s
      in if \<not> found then probe_ports ports mac s
         else (let s = s\<lparr>tx_buf1 := 0x40, tx_buf2 := 0x46, rx_buf_start := 0x4C,
                         rx_buf_end := (if \<not> pio16 s \<and> rtl8019 s then 0x60 else 0x80)\<rparr>
               in (True, mac, dp83902a_start mac s)))"

definition portlist :: "bool \<Rightarrow> u16 list" where
  "portlist q40 = (if q40 then [0x300, 0x280, 0x320, 0x340, 0x360, 0x380] else [])"

text \<open>The result also carries the interface address \<open>interface_macaddr\<close>, initially \<open>mac\<close>.\<close>

definition eth_init :: "u8 list \<Rightarrow> nic \<Rightarrow> bool \<times> u8 list \<times> nic" where
  "eth_init mac s = probe_ports (portlist (pio16 s)) mac s"

text \<open>\<open>eth_pump\<close> takes frames from the transmit queue until it is empty or both buffers are busy; a
  frame \<open>eth_tx\<close> refuses is dropped. A queued frame comes with the byte behind it in memory; the
  result carries the frames left in the queue.\<close>

fun pump_tx :: "(u8 \<times> u8 list) list \<Rightarrow> nic \<Rightarrow> ((u8 \<times> u8 list) list \<times> nic) option" where
  "pump_tx [] s = Some ([], s)"
| "pump_tx ((pad, f) # fs) s =
     (if tx1 s \<noteq> 0 \<and> tx2 s \<noteq> 0 then Some ((pad, f) # fs, s)
      else Option.bind (eth_tx pad f s) (\<lambda>(sent, s). pump_tx fs s))"

definition eth_pump :: "(u8 \<times> u8 list) list \<Rightarrow> nic \<Rightarrow> ((u8 \<times> u8 list) list \<times> nic) option" where
  "eth_pump queue s =
     (if base s = 0 then Some (queue, s)
      else Option.bind (dp83902a_poll s) (\<lambda>s. pump_tx queue s))"

section \<open>The two transmit buffers\<close>

text \<open>The part of the driver state transmission depends on.\<close>

definition tx_view :: "nic \<Rightarrow> (int \<times> int \<times> int \<times> int) \<times> (int \<times> int \<times> bool) \<times> int \<times> int" where
  "tx_view s = ((tx_next s, tx_int s, tx1 s, tx2 s), (tx1_len s, tx2_len s, tx_started s), tx_buf1 s, tx_buf2 s)"

definition bus :: "nic \<Rightarrow> u16 \<times> u16 \<times> bool \<times> (nat \<Rightarrow> u16)" where
  "bus s = (base s, data_port s, pio16 s, port_in s)"

text \<open>What the card still has to send, oldest first: buffer page and length.\<close>

definition tx_pending :: "nic \<Rightarrow> (int \<times> int) list" where
  "tx_pending s =
     (let first = (if tx1 s \<noteq> 0 then [(tx1 s, tx1_len s)] else []);
          second = (if tx2 s \<noteq> 0 then [(tx2 s, tx2_len s)] else [])
      in if tx_int s = 1 then first @ second else second @ first)"

definition tx_inv :: "nic \<Rightarrow> bool" where
  "tx_inv s \<longleftrightarrow> tx_buf1 s = 0x40 \<and> tx_buf2 s = 0x46 \<and>
     (tx1 s = 0 \<or> tx1 s = 0x40) \<and> (tx2 s = 0 \<or> tx2 s = 0x46) \<and>
     (tx_next s = 0x40 \<or> tx_next s = 0x46) \<and>
     (tx_started s \<longleftrightarrow> tx1 s \<noteq> 0 \<or> tx2 s \<noteq> 0) \<and>
     (tx_started s \<longrightarrow> (tx_int s = 1 \<and> tx1 s \<noteq> 0 \<or> tx_int s = 2 \<and> tx2 s \<noteq> 0)) \<and>
     (tx1 s \<noteq> 0 \<and> tx2 s = 0 \<longrightarrow> tx_next s = 0x46) \<and>
     (tx2 s \<noteq> 0 \<and> tx1 s = 0 \<longrightarrow> tx_next s = 0x40) \<and>
     (tx1 s \<noteq> 0 \<and> tx2 s \<noteq> 0 \<longrightarrow> tx_next s = (if tx_int s = 1 then 0x40 else 0x46))"

lemma tx_view_same:
  "tx_view s' = tx_view s \<Longrightarrow> tx_pending s' = tx_pending s"
  "tx_view s' = tx_view s \<Longrightarrow> tx_inv s' = tx_inv s"
  by (auto simp: tx_view_def tx_pending_def tx_inv_def)

lemma view_fields:
  "tx_view s' = tx_view s \<Longrightarrow> tx_next s' = tx_next s \<and> tx_int s' = tx_int s \<and> tx1 s' = tx1 s \<and> tx2 s' = tx2 s \<and>
     tx1_len s' = tx1_len s \<and> tx2_len s' = tx2_len s \<and> tx_started s' = tx_started s \<and>
     tx_buf1 s' = tx_buf1 s \<and> tx_buf2 s' = tx_buf2 s"
  "bus s' = bus s \<Longrightarrow> base s' = base s \<and> data_port s' = data_port s \<and> pio16 s' = pio16 s \<and> port_in s' = port_in s"
  by (auto simp: tx_view_def bus_def)

lemma outb_fields [simp]:
  "tx_view (outb r v s) = tx_view s" "bus (outb r v s) = bus s"
  by (auto simp: outb_def tx_view_def bus_def)

lemma out_data_fields [simp]: "tx_view (out_data w s) = tx_view s" "bus (out_data w s) = bus s"
  by (auto simp: out_data_def tx_view_def bus_def)

lemma put_data_fields [simp]: "tx_view (put_data ws s) = tx_view s" "bus (put_data ws s) = bus s"
  unfolding put_data_def by (induction ws arbitrary: s; simp)+

lemma in_fields [simp]:
  "inb s = (v, s') \<Longrightarrow> tx_view s' = tx_view s \<and> bus s' = bus s"
  "tx_view (snd (inb s)) = tx_view s" "bus (snd (inb s)) = bus s"
  "tx_view (snd (inw s)) = tx_view s" "bus (snd (inw s)) = bus s"
  by (auto simp: inb_def inw_def tx_view_def bus_def)

lemma read_fields [simp]:
  "tx_view (snd (read_bytes n s)) = tx_view s" "bus (snd (read_bytes n s)) = bus s"
  "tx_view (snd (read_words n s)) = tx_view s" "bus (snd (read_words n s)) = bus s"
  by (induction n arbitrary: s) (simp_all add: Let_def case_prod_unfold)

lemma update_fields [simp]:
  "tx_view (s\<lparr>rx_frames := x\<rparr>) = tx_view s" "bus (s\<lparr>rx_frames := x\<rparr>) = bus s"
  "tx_view (s\<lparr>rx_next := i\<rparr>) = tx_view s" "bus (s\<lparr>rx_next := i\<rparr>) = bus s"
  "tx_view (s\<lparr>running := b\<rparr>) = tx_view s" "bus (s\<lparr>running := b\<rparr>) = bus s"
  by (auto simp: tx_view_def bus_def)

lemma recv_fields [simp]:
  "tx_view (snd (dp83902a_recv len s)) = tx_view s" "bus (snd (dp83902a_recv len s)) = bus s"
  "tx_view (snd (read_header s)) = tx_view s" "bus (snd (read_header s)) = bus s"
  "tx_view (push_packet_ready len s) = tx_view s" "bus (push_packet_ready len s) = bus s"
  by (simp_all add: dp83902a_recv_def read_header_def push_packet_ready_def Let_def case_prod_unfold)

lemma rx_one_fields: "tx_view (rx_one s) = tx_view s \<and> bus (rx_one s) = bus s"
  by (simp add: rx_one_def Let_def case_prod_unfold)

lemma RxEvent_fields: "dp83902a_RxEvent s = Some s' \<Longrightarrow> tx_view s' = tx_view s \<and> bus s' = bus s"
proof (induction rule: dp83902a_RxEvent.raw_induct [rotated 1, consumes 1])
  case (1 f s s')
  let ?t = "outb DP_CR CR_START (snd (inb (outb DP_CR CR_PAGE1_START s)))"
  have t: "tx_view ?t = tx_view s" "bus ?t = bus s" by simp_all
  from 1(2) have "s' = ?t \<or> f (rx_one ?t) = Some s'"
    by (simp add: Let_def case_prod_unfold split: if_splits)
  then show ?case
  proof
    assume "s' = ?t"
    then show ?case using t by simp
  next
    assume "f (rx_one ?t) = Some s'"
    then show ?case using 1(1) [of "rx_one ?t" s'] t rx_one_fields [of ?t] by simp
  qed
qed

lemma Overflow_fields:
  assumes "dp83902a_Overflow s = Some s'"
  shows "tx_view s' = tx_view s \<and> bus s' = bus s"
proof -
  let ?a = "outb DP_CR CR_START (outb DP_TCR 0x02 (outb DP_RBCH 0 (outb DP_RBCL 0 (outb DP_CR CR_STOP s))))"
  from assms obtain t where t: "dp83902a_RxEvent ?a = Some t"
    and s': "s' = snd (inb (outb DP_TCR 0 (outb DP_ISR 0x10 (outb DP_ISR 0x05 t)))) \<or>
      s' = outb DP_CR CR_TXPKT (snd (inb (outb DP_TCR 0 (outb DP_ISR 0x10 (outb DP_ISR 0x05 t)))))"
    unfolding dp83902a_Overflow_def Let_def case_prod_unfold
    by (auto simp: bind_eq_Some_conv split: if_splits)
  from RxEvent_fields [OF t] s' show ?thesis by auto
qed

lemma ClearCounters_fields [simp]:
  "tx_view (dp83902a_ClearCounters s) = tx_view s" "bus (dp83902a_ClearCounters s) = bus s"
  by (auto simp: dp83902a_ClearCounters_def)

lemma stop_fields [simp]: "tx_view (dp83902a_stop s) = tx_view s" "bus (dp83902a_stop s) = bus s"
  by (auto simp: dp83902a_stop_def)

lemma write_mac_fields [simp]: "tx_view (write_mac i es s) = tx_view s" "bus (write_mac i es s) = bus s"
  by (induction i es s rule: write_mac.induct) simp_all

lemma start_xmit_fields:
  "tx_view (dp83902a_start_xmit p l s) = tx_view (s\<lparr>tx_started := True\<rparr>)"
  "bus (dp83902a_start_xmit p l s) = bus s"
  by (simp_all add: dp83902a_start_xmit_def Let_def outb_def tx_view_def bus_def)

lemma upload_fields [simp]:
  "tx_view (upload_frame p l pad f s) = tx_view s" "bus (upload_frame p l pad f s) = bus s"
  by (simp_all add: upload_frame_def Let_def)

lemma wait_rdc_fields:
  "wait_rdc s = Some s' \<Longrightarrow> tx_view s' = tx_view s \<and> bus s' = bus s \<and> port_out s' = port_out s"
proof (induction rule: wait_rdc.raw_induct [rotated 1, consumes 1])
  case (1 f s s')
  let ?t = "snd (inb s)"
  have t: "tx_view ?t = tx_view s" "bus ?t = bus s" "port_out ?t = port_out s" by (simp_all add: inb_def)
  from 1(2) have "s' = ?t \<or> f ?t = Some s'"
    by (simp add: Let_def case_prod_unfold split: if_splits)
  then show ?case
  proof
    assume "s' = ?t"
    then show ?case using t by simp
  next
    assume "f ?t = Some s'"
    then show ?case using 1(1) [of ?t s'] t by simp
  qed
qed

lemma wait_rdc_returns:
  assumes "port_in s n AND 0x40 \<noteq> 0" "port_pos s \<le> n"
  shows "\<exists>s'. wait_rdc s = Some s'"
  using assms
proof (induction "n - port_pos s" arbitrary: s)
  case 0
  have "(ucast (port_in s n) :: u8) AND 2 ^ 6 \<noteq> 0"
    using 0(2) and_exp_eq_0_iff_not_bit [of "port_in s n" 6] and_exp_eq_0_iff_not_bit [of "ucast (port_in s n) :: u8" 6]
    by (simp add: bit_simps)
  with 0 show ?case by (subst wait_rdc.simps) (simp add: inb_def)
next
  case (Suc k)
  then show ?case
    using Suc.hyps(1) [of "s\<lparr>port_pos := Suc (port_pos s)\<rparr>"]
    by (subst wait_rdc.simps) (auto simp: inb_def)
qed

lemma reserve_inv:
  assumes "tx_inv s" "\<not> (tx1 s \<noteq> 0 \<and> tx2 s \<noteq> 0)"
  shows "tx_pending (reserve_buffer n s) =
      (if tx_started s then tx_pending s @ [(tx_next s, n)] else [(tx_next s, n)])"
    and "tx_started s \<Longrightarrow> tx_inv (reserve_buffer n s)"
    and "\<not> tx_started s \<Longrightarrow> tx_inv (reserve_buffer n s\<lparr>tx_int := if tx_next s = 0x40 then 1 else 2, tx_started := True\<rparr>)"
    and "tx_next s \<notin> fst ` set (tx_pending s)" and "\<not> tx_started s \<Longrightarrow> tx_pending s = []"
proof -
  have f: "tx_buf1 s = 0x40" "tx_buf2 s = 0x46" "tx1 s = 0 \<or> tx1 s = 0x40" "tx2 s = 0 \<or> tx2 s = 0x46"
    "tx_next s = 0x40 \<or> tx_next s = 0x46" "tx_started s \<longleftrightarrow> tx1 s \<noteq> 0 \<or> tx2 s \<noteq> 0"
    "tx_started s \<Longrightarrow> tx_int s = 1 \<and> tx1 s \<noteq> 0 \<or> tx_int s = 2 \<and> tx2 s \<noteq> 0"
    "tx1 s \<noteq> 0 \<and> tx2 s = 0 \<Longrightarrow> tx_next s = 0x46" "tx2 s \<noteq> 0 \<and> tx1 s = 0 \<Longrightarrow> tx_next s = 0x40"
    using assms(1) by (simp_all add: tx_inv_def)
  consider (none) "tx1 s = 0" "tx2 s = 0" "\<not> tx_started s"
    | (one) "tx1 s = 0x40" "tx2 s = 0" "tx_started s" "tx_int s = 1" "tx_next s = 0x46"
    | (two) "tx1 s = 0" "tx2 s = 0x46" "tx_started s" "tx_int s = 2" "tx_next s = 0x40"
    using f assms(2) by metis
  note c = this
  show "tx_pending (reserve_buffer n s) =
      (if tx_started s then tx_pending s @ [(tx_next s, n)] else [(tx_next s, n)])"
    using c f(5) by cases (auto simp: tx_pending_def reserve_buffer_def Let_def f(1,2))
  show "tx_started s \<Longrightarrow> tx_inv (reserve_buffer n s)"
    using c by cases (simp_all add: tx_inv_def reserve_buffer_def f(1,2))
  show "\<not> tx_started s \<Longrightarrow> tx_inv (reserve_buffer n s\<lparr>tx_int := if tx_next s = 0x40 then 1 else 2, tx_started := True\<rparr>)"
    using c f(5) by cases (auto simp: tx_inv_def reserve_buffer_def f(1,2))
  show "tx_next s \<notin> fst ` set (tx_pending s)"
    using c by cases (simp_all add: tx_pending_def)
  show "\<not> tx_started s \<Longrightarrow> tx_pending s = []"
    using c by cases (simp_all add: tx_pending_def)
qed

text \<open>Sending: the buffer the frame goes to is free, and the frame is queued behind what is pending.\<close>

lemma send_cases:
  assumes "dp83902a_send pad frame s = Some s'"
  obtains w where
    "wait_rdc (upload_frame (tx_next s) (max 64 (int (length frame)) + (if pio16 s then max 64 (int (length frame)) mod 2 else 0))
       pad frame (reserve_buffer (max 64 (int (length frame))) s)) = Some w"
    "s' = (if tx_started w then outb DP_CR CR_START w else
       dp83902a_start_xmit (tx_next s) (max 64 (int (length frame)) + (if pio16 s then max 64 (int (length frame)) mod 2 else 0))
         (outb DP_CR CR_START w\<lparr>tx_int := if tx_next s = tx1 w then 1 else 2\<rparr>))"
proof -
  let ?n = "if int (length frame) < 64 then 64 else int (length frame)"
  have n: "?n = max 64 (int (length frame))" by auto
  have p: "pio16 (reserve_buffer m s) = pio16 s" for m by (simp add: reserve_buffer_def)
  have k: "(if pio16 s \<and> m mod 2 = 1 then m + 1 else m) = m + (if pio16 s then m mod 2 else 0)" for m :: int
    by auto
  have st: "tx_started (outb r v w) = tx_started w" "tx1 (outb r v w) = tx1 w" for r v w
    by (simp_all add: outb_def)
  show ?thesis
    using assms unfolding dp83902a_send_def Let_def n p k
    by (auto simp: bind_eq_Some_conv st intro!: that split: if_splits)
qed

lemma send_inv:
  assumes inv: "tx_inv s" and free: "\<not> (tx1 s \<noteq> 0 \<and> tx2 s \<noteq> 0)"
    and r: "dp83902a_send pad frame s = Some s'"
  shows "tx_inv s'" and "tx_pending s' = tx_pending s @ [(tx_next s, max 64 (int (length frame)))]"
    and "bus s' = bus s"
proof -
  let ?n = "max 64 (int (length frame))"
  let ?r = "reserve_buffer ?n s"
  let ?k = "?n + (if pio16 s then ?n mod 2 else 0)"
  let ?d = "?r\<lparr>tx_int := if tx_next s = 0x40 then 1 else 2, tx_started := True\<rparr>"
  note rinv = reserve_inv [OF inv free]
  obtain w where w: "wait_rdc (upload_frame (tx_next s) ?k pad frame ?r) = Some w"
    and s': "s' = (if tx_started w then outb DP_CR CR_START w else
       dp83902a_start_xmit (tx_next s) ?k (outb DP_CR CR_START w\<lparr>tx_int := if tx_next s = tx1 w then 1 else 2\<rparr>))"
    using send_cases [OF r] by blast
  have wv: "tx_view w = tx_view ?r" "bus w = bus ?r" using wait_rdc_fields [OF w] by simp_all
  have rb: "bus ?r = bus s" "tx_started ?r = tx_started s" by (auto simp: reserve_buffer_def bus_def)
  have bt: "bus (w\<lparr>tx_int := x\<rparr>) = bus w" for x by (simp add: bus_def)
  have out: "outb p v w\<lparr>tx_int := x\<rparr> = outb p v (w\<lparr>tx_int := x\<rparr>)" for p v x by (simp add: outb_def)
  show "bus s' = bus s" using s' wv(2) rb(1) by (auto simp: start_xmit_fields out bt)
  have v: "tx_started w = tx_started s" "tx1 w = tx1 ?r" using view_fields(1) [OF wv(1)] rb(2) by simp_all
  have "tx_inv s' \<and> tx_pending s' = tx_pending s @ [(tx_next s, ?n)]"
  proof (cases "tx_started s")
    case True
    with s' v have "tx_view s' = tx_view ?r" using wv(1) by simp
    then show ?thesis using tx_view_same [of s' ?r] rinv(1,2) True by simp
  next
    case False
    from inv False have z: "tx1 s = 0" "tx_buf1 s = 0x40" "tx_buf2 s = 0x46" "tx_next s = 0x40 \<or> tx_next s = 0x46"
      by (auto simp: tx_inv_def)
    then have i: "(tx_next s = tx1 w) = (tx_next s = 0x40)" using v by (auto simp: reserve_buffer_def)
    have "tx_view s' = tx_view ?d"
      using False s' v i view_fields(1) [OF wv(1)] by (simp add: start_xmit_fields) (simp add: tx_view_def outb_def)
    moreover have "tx_pending ?d = [(tx_next s, ?n)]"
      using False rinv(1) z(1) inv by (auto simp: tx_pending_def reserve_buffer_def tx_inv_def)
    ultimately show ?thesis using tx_view_same [of s' ?d] rinv(3,5) False by simp
  qed
  then show "tx_inv s'" "tx_pending s' = tx_pending s @ [(tx_next s, ?n)]" by blast+
qed

text \<open>The transmit interrupt retires the oldest frame and starts the next one, if any.\<close>

definition start_commands :: "nic \<Rightarrow> int \<times> int \<Rightarrow> (u16 \<times> u16) list" where
  "start_commands s p = port_out (dp83902a_start_xmit (fst p) (snd p) (s\<lparr>port_out := []\<rparr>))"

lemma TxEvent_inv:
  assumes inv: "tx_inv s" and st: "tx_started s"
  shows "tx_inv (dp83902a_TxEvent s)" and "tx_pending (dp83902a_TxEvent s) = tl (tx_pending s)"
    and "bus (dp83902a_TxEvent s) = bus s"
    and "port_out (dp83902a_TxEvent s) = port_out s @ (case tx_pending s of _ # p # _ \<Rightarrow> start_commands s p | _ \<Rightarrow> [])"
proof -
  have f: "tx_buf1 s = 0x40" "tx_buf2 s = 0x46" "tx1 s = 0 \<or> tx1 s = 0x40" "tx2 s = 0 \<or> tx2 s = 0x46"
    "tx_int s = 1 \<and> tx1 s \<noteq> 0 \<or> tx_int s = 2 \<and> tx2 s \<noteq> 0" "tx_next s = 0x40 \<or> tx_next s = 0x46"
    "tx1 s \<noteq> 0 \<and> tx2 s = 0 \<Longrightarrow> tx_next s = 0x46" "tx2 s \<noteq> 0 \<and> tx1 s = 0 \<Longrightarrow> tx_next s = 0x40"
    "tx1 s \<noteq> 0 \<and> tx2 s \<noteq> 0 \<Longrightarrow> tx_next s = (if tx_int s = 1 then 0x40 else 0x46)"
    using inv st by (simp_all add: tx_inv_def)
  consider (a) "tx_int s = 1" "tx1 s = 0x40" "tx2 s = 0"
    | (b) "tx_int s = 1" "tx1 s = 0x40" "tx2 s = 0x46" "tx_next s = 0x40"
    | (c) "tx_int s = 2" "tx1 s = 0" "tx2 s = 0x46"
    | (d) "tx_int s = 2" "tx1 s = 0x40" "tx2 s = 0x46" "tx_next s = 0x46"
    using f by fastforce
  note c = this
  note defs = dp83902a_TxEvent_def dp83902a_start_xmit_def inb_def outb_def Let_def tx_pending_def
  show "tx_inv (dp83902a_TxEvent s)"
    using c f(6) by cases (simp_all add: defs tx_inv_def f(1,2))
  show "tx_pending (dp83902a_TxEvent s) = tl (tx_pending s)" using c by cases (simp_all add: defs)
  show "bus (dp83902a_TxEvent s) = bus s" using c by cases (simp_all add: defs bus_def)
  show "port_out (dp83902a_TxEvent s) = port_out s @ (case tx_pending s of _ # p # _ \<Rightarrow> start_commands s p | _ \<Rightarrow> [])"
    using c by cases (simp_all add: defs start_commands_def)
qed

text \<open>\<open>retires s s'\<close>: the invariant is kept and only the oldest frames have left the queue.\<close>

definition retires :: "nic \<Rightarrow> nic \<Rightarrow> bool" where
  "retires s s' \<longleftrightarrow> (tx_inv s \<longrightarrow> tx_inv s' \<and> (\<exists>n. tx_pending s' = drop n (tx_pending s))) \<and> bus s' = bus s"

lemma retires_refl: "tx_view s' = tx_view s \<Longrightarrow> bus s' = bus s \<Longrightarrow> retires s s'"
  unfolding retires_def using tx_view_same [of s' s] by (metis drop_0)

lemma retires_trans: "retires s t \<Longrightarrow> retires t u \<Longrightarrow> retires s u"
  unfolding retires_def by (metis drop_drop)

lemma TxEvent_bus: "bus (dp83902a_TxEvent s) = bus s"
  by (simp add: dp83902a_TxEvent_def dp83902a_start_xmit_def inb_def outb_def bus_def Let_def)

lemma retires_TxEvent: "tx_started s \<Longrightarrow> retires s (dp83902a_TxEvent s)"
  unfolding retires_def using TxEvent_inv(1,2) [of s] TxEvent_bus [of s] by (metis drop_0 drop_Suc)

lemma retires_poll_step:
  assumes "poll_step isr s = Some (leave, s')"
  shows "retires s s'"
proof -
  let ?c = "if isr AND ISR_CNT \<noteq> 0 then dp83902a_ClearCounters s else s"
  let ?a = "outb DP_ISR (uint isr) ?c"
  let ?t = "if isr AND ISR_TxP_TxE \<noteq> 0 \<and> tx_started ?a then dp83902a_TxEvent ?a else ?a"
  have c: "retires s ?c" "retires s ?a" by (auto intro!: retires_refl)
  have t: "retires s ?t" using retires_trans [OF c(2) retires_TxEvent] c(2) by auto
  consider (o) "dp83902a_Overflow ?c = Some s'" | (n) "s' = ?a" | (r) "dp83902a_RxEvent ?t = Some s'" | (e) "s' = ?t"
    using assms unfolding poll_step_def Let_def by (auto split: if_splits)
  then show ?thesis
  proof cases
    case o
    show ?thesis by (rule retires_trans [OF c(1) retires_refl]) (use Overflow_fields [OF o] in auto)
  next
    case r
    show ?thesis by (rule retires_trans [OF t retires_refl]) (use RxEvent_fields [OF r] in auto)
  qed (use c t in auto)
qed

lemma retires_poll_loop: "poll_loop s = Some s' \<Longrightarrow> retires s s'"
proof (induction rule: poll_loop.raw_induct [rotated 1, consumes 1])
  case (1 f s s')
  let ?t = "snd (inb s)"
  have i: "retires s ?t" by (rule retires_refl) simp_all
  from 1(2) obtain leave u where u: "poll_step (fst (inb s)) ?t = Some (leave, u)"
    and e: "s' = u \<or> f u = Some s'"
    by (auto simp: case_prod_unfold bind_eq_Some_conv split: if_splits)
  from e show ?case
  proof
    assume "s' = u"
    then show ?thesis using retires_trans [OF i retires_poll_step [OF u]] by simp
  next
    assume "f u = Some s'"
    from 1(1) [OF this] show ?thesis using retires_trans [OF i retires_poll_step [OF u]] retires_trans by blast
  qed
qed

lemma retires_poll: "dp83902a_poll s = Some s' \<Longrightarrow> retires s s'"
  unfolding dp83902a_poll_def
  by (rule retires_trans [OF retires_refl retires_poll_loop]) auto

section \<open>What the card receives\<close>

definition data_written :: "nic \<Rightarrow> u16 list" where
  "data_written s = map snd (filter (\<lambda>(p, w). p = data_port s) (port_out s))"

definition word_bytes :: "u16 list \<Rightarrow> u8 list" where
  "word_bytes ws = concat (map (\<lambda>w. [ucast w, ucast (drop_bit 8 w)]) ws)"

lemma data_written_outb:
  "data_port s = base s + 0x10 \<Longrightarrow> r \<noteq> 0x10 \<Longrightarrow> data_written (outb r v s) = data_written s"
  by (simp add: data_written_def outb_def)

lemma data_written_put: "data_written (put_data ws s) = data_written s @ ws"
  unfolding put_data_def
  by (induction ws arbitrary: s) (simp_all add: data_written_def out_data_def)

lemma word_bytes_append: "word_bytes (a @ b) = word_bytes a @ word_bytes b"
  by (simp add: word_bytes_def)

lemma word_bytes_zero: "word_bytes (replicate n 0) = replicate (2 * n) 0"
  by (induction n) (simp_all add: word_bytes_def)

lemma frame_words_bytes: "word_bytes (frame_words pad f) = f @ (if odd (length f) then [pad] else [])"
  by (induction pad f rule: frame_words.induct) (simp_all add: word_bytes_def bswap_be16)

lemma frame_words_length: "length (frame_words pad f) = (length f + 1) div 2"
  by (induction pad f rule: frame_words.induct) simp_all

lemma port_out_data: "port_out s' = port_out s \<Longrightarrow> bus s' = bus s \<Longrightarrow> data_written s' = data_written s"
  by (simp add: data_written_def bus_def)

lemma data_port_outb:
  "data_port (outb r v s) = data_port s" "base (outb r v s) = base s" "pio16 (outb r v s) = pio16 s"
  by (simp_all add: outb_def)

lemma data_inw: "data_written (snd (inw s)) = data_written s" "data_port (snd (inw s)) = data_port s"
  "base (snd (inw s)) = base s" "pio16 (snd (inw s)) = pio16 s"
  by (simp_all add: data_written_def inw_def)

lemma put_data_ports: "data_port (put_data ws s) = data_port s" "base (put_data ws s) = base s"
  "pio16 (put_data ws s) = pio16 s"
  using put_data_fields(2) [of ws s] by (simp_all add: bus_def)

lemmas register_offsets = DP_CR_def DP_ISR_def DP_RSAL_def DP_RSAH_def DP_RBCL_def DP_RBCH_def DP_TBCL_def
  DP_TBCH_def DP_TPSR_def

text \<open>The words written to the data port for a frame, padding included.\<close>

definition upload_words :: "bool \<Rightarrow> u8 \<Rightarrow> u8 list \<Rightarrow> u16 list" where
  "upload_words w pad frame =
     (if w then frame_words pad frame @ replicate ((64 - length frame) div 2) 0
      else map ucast frame @ replicate (64 - length frame) 0)"

lemma upload_data:
  fixes frame :: "u8 list"
  assumes "data_port s = base s + 0x10"
    and n: "n = max 64 (int (length frame)) + (if pio16 s then max 64 (int (length frame)) mod 2 else 0)"
  shows "data_written (upload_frame p n pad frame s) = data_written s @ upload_words (pio16 s) pad frame"
proof -
  have even_pad: "nat ((n - 2 * int (length (frame_words pad frame))) div 2) = (64 - length frame) div 2"
    if "pio16 s" "int (length frame) < n"
  proof (cases "length frame < 64")
    case True
    then have "n = 64" using n that by (simp add: max_def)
    then show ?thesis using True by (simp add: frame_words_length; presburger?)
  next
    case False
    then have "n = int (length frame) + int (length frame) mod 2" using n that by (simp add: max_def)
    then show ?thesis using False by (simp add: frame_words_length; presburger?)
  qed
  have nopad: "(64 - length frame) div 2 = 0" "64 - length frame = 0" if "\<not> int (length frame) < n"
    using n that by (auto simp: max_def split: if_splits)
  have byte_pad: "nat (n - int (length frame)) = 64 - length frame" if "\<not> pio16 s"
    using n that by (simp add: max_def nat_diff_distrib)
  show ?thesis
    unfolding upload_frame_def Let_def upload_words_def
    using assms(1) even_pad nopad byte_pad
    by (simp add: data_written_put data_written_outb data_port_outb data_inw put_data_ports register_offsets)
qed

lemma u8_via_u16: "ucast (ucast (b :: u8) :: u16) = b"
  by (rule bit_eqI) (auto simp: bit_simps)

lemma upload_words_bytes:
  "word_bytes (upload_words True pad frame) =
     frame @ (if odd (length frame) then [pad] else []) @ replicate (2 * ((64 - length frame) div 2)) 0"
  "map ucast (upload_words False pad frame) = frame @ replicate (64 - length frame) 0"
  by (simp_all add: upload_words_def word_bytes_append frame_words_bytes word_bytes_zero comp_def u8_via_u16)

lemma data_written_started: "data_written (s\<lparr>tx_started := b\<rparr>) = data_written s"
  by (simp add: data_written_def)

lemma start_xmit_data:
  "data_port s = base s + 0x10 \<Longrightarrow> data_written (dp83902a_start_xmit p n s) = data_written s"
  by (simp add: dp83902a_start_xmit_def Let_def register_offsets data_written_outb data_port_outb data_written_started)

lemma send_data:
  assumes "data_port s = base s + 0x10" "dp83902a_send pad frame s = Some s'"
  shows "data_written s' = data_written s @ upload_words (pio16 s) pad frame"
proof -
  let ?n = "max 64 (int (length frame))"
  let ?r = "reserve_buffer ?n s"
  let ?k = "?n + (if pio16 s then ?n mod 2 else 0)"
  obtain w where w: "wait_rdc (upload_frame (tx_next s) ?k pad frame ?r) = Some w"
    and s': "s' = (if tx_started w then outb DP_CR CR_START w else
       dp83902a_start_xmit (tx_next s) ?k (outb DP_CR CR_START w\<lparr>tx_int := if tx_next s = tx1 w then 1 else 2\<rparr>))"
    using send_cases [OF assms(2)] by blast
  have r: "data_port ?r = data_port s" "base ?r = base s" "pio16 ?r = pio16 s" "data_written ?r = data_written s"
    by (simp_all add: reserve_buffer_def data_written_def)
  have "data_written w = data_written (upload_frame (tx_next s) ?k pad frame ?r)" "bus w = bus (upload_frame (tx_next s) ?k pad frame ?r)"
    using wait_rdc_fields [OF w] port_out_data [of w] by simp_all
  then have b: "bus w = bus ?r" by simp
  have dw: "data_written w = data_written s @ upload_words (pio16 s) pad frame"
    using upload_data [of ?r ?k frame "tx_next s" pad] assms(1) r
      \<open>data_written w = data_written (upload_frame (tx_next s) ?k pad frame ?r)\<close> by simp
  have p: "data_port w = base w + 0x10" using b r assms(1) by (simp add: bus_def)
  let ?o = "outb DP_CR CR_START w"
  have o: "data_written ?o = data_written w" using data_written_outb [OF p] by (simp add: register_offsets)
  have "data_port (?o\<lparr>tx_int := i\<rparr>) = base (?o\<lparr>tx_int := i\<rparr>) + 0x10" "data_written (?o\<lparr>tx_int := i\<rparr>) = data_written ?o"
    for i
    using p by (simp_all add: data_port_outb data_written_def)
  from start_xmit_data [OF this(1)] this(2) o dw s' show ?thesis by simp
qed

text \<open>The send returns when the card reports the end of its transfer at some later register read.\<close>

lemma send_returns:
  assumes "\<And>n. \<exists>k \<ge> n. port_in s k AND 0x40 \<noteq> 0"
  shows "\<exists>s'. dp83902a_send pad frame s = Some s'"
proof -
  let ?n = "if int (length frame) < 64 then 64 else int (length frame)"
  let ?k = "if pio16 (reserve_buffer ?n s) \<and> ?n mod 2 = 1 then ?n + 1 else ?n"
  let ?u = "upload_frame (tx_next s) ?k pad frame (reserve_buffer ?n s)"
  have "port_in ?u = port_in s"
    using upload_fields(2) [of "tx_next s" ?k pad frame "reserve_buffer ?n s"]
    by (auto simp: bus_def reserve_buffer_def)
  with assms [of "port_pos ?u"] obtain k where "port_in ?u k AND 0x40 \<noteq> 0" "port_pos ?u \<le> k" by auto
  from wait_rdc_returns [OF this] obtain w where "wait_rdc ?u = Some w" by blast
  then show ?thesis unfolding dp83902a_send_def Let_def by simp
qed

section \<open>The properties of the driver\<close>

text \<open>The invariant holds as soon as the card is found.\<close>

lemma start_inv:
  assumes "tx_buf1 s = 0x40" "tx_buf2 s = 0x46"
  shows "tx_inv (dp83902a_start mac s) \<and> tx_pending (dp83902a_start mac s) = [] \<and> bus (dp83902a_start mac s) = bus s"
proof -
  let ?z = "s\<lparr>tx1 := 0, tx2 := 0, tx_next := tx_buf1 s, tx_started := False\<rparr>"
  have o: "tx_view (outb r v s\<lparr>tx1 := 0, tx2 := 0, tx_next := b, tx_started := False\<rparr>) =
      tx_view (s\<lparr>tx1 := 0, tx2 := 0, tx_next := b, tx_started := False\<rparr>)"
    "bus (outb r v s\<lparr>tx1 := 0, tx2 := 0, tx_next := b, tx_started := False\<rparr>) = bus s"
    "tx_buf1 (outb r v s) = tx_buf1 s" "pio16 (outb r v s) = pio16 s" for r v b s
    by (simp_all add: outb_def tx_view_def bus_def)
  have v: "tx_view (dp83902a_start mac s) = tx_view ?z" "bus (dp83902a_start mac s) = bus s"
    by (simp_all add: dp83902a_start_def Let_def o)
  then show ?thesis using tx_view_same [OF v(1)] assms by (simp add: tx_inv_def tx_pending_def)
qed

lemma get_prom_data_port: "bus (snd (snd (get_prom s))) = bus s"
proof -
  have w: "bus (wait_reset n s) = bus s" for n s
    by (induction n arbitrary: s) (simp_all add: Let_def case_prod_unfold)
  have f: "bus (foldl (\<lambda>s p. outb (snd p) (fst p) s) s xs) = bus s" for xs s
    by (induction xs arbitrary: s) simp_all
  have p: "bus (pcnet_reset_8390 s) = bus s" by (simp add: pcnet_reset_8390_def Let_def case_prod_unfold w)
  have r: "bus (s\<lparr>rtl8019 := b\<rparr>) = bus s" for s b by (simp add: bus_def)
  show ?thesis by (simp add: get_prom_def Let_def case_prod_unfold f p r)
qed

lemma probe_ports_found:
  "probe_ports ports mac0 s = (True, mac, s') \<Longrightarrow>
   tx_inv s' \<and> tx_pending s' = [] \<and> data_port s' = base s' + 0x10 \<and> base s' \<in> set ports \<and> port_in s' = port_in s"
proof (induction ports mac0 s rule: probe_ports.induct)
  case (2 port ports mac0 s)
  let ?b = "s\<lparr>base := port, data_port := port + 0x10\<rparr>"
  let ?g = "get_prom ?b"
  let ?t = "snd (snd ?g)\<lparr>tx_buf1 := 0x40, tx_buf2 := 0x46, rx_buf_start := 0x4C,
    rx_buf_end := (if \<not> pio16 (snd (snd ?g)) \<and> rtl8019 (snd (snd ?g)) then 0x60 else 0x80)\<rparr>"
  show ?case
  proof (cases "fst ?g")
    case True
    with 2(2) have s': "s' = dp83902a_start mac ?t" by (auto simp: Let_def case_prod_unfold)
    have "bus ?t = bus ?b" using get_prom_data_port [of ?b] by (simp add: bus_def)
    then show ?thesis using start_inv [of ?t mac] by (auto simp: s' bus_def)
  next
    case False
    with 2(2) have "probe_ports ports (fst (snd ?g)) (snd (snd ?g)) = (True, mac, s')"
      by (simp add: Let_def case_prod_unfold)
    with 2(1) [OF refl refl prod.collapse prod.collapse] False get_prom_data_port [of ?b]
    show ?thesis by (auto simp: bus_def)
  qed
qed simp

text \<open>Queueing a frame on the card. With a card present, a transmit buffer free and the driver's
  invariant, \<open>eth_tx\<close> of a frame below 1536 bytes returns true (on every card that goes on reporting
  the end of a transfer), keeps the invariant, puts the frame behind the pending ones in a buffer none
  of them occupies, with its length raised to 64, and the bytes it writes to the card are the frame
  followed by zeros up to that length.\<close>

theorem eth_tx_queues:
  assumes "tx_inv s" "data_port s = base s + 0x10" "base s \<noteq> 0" "length frame < 1536"
    and "\<not> (tx1 s \<noteq> 0 \<and> tx2 s \<noteq> 0)" and "\<And>n. \<exists>k \<ge> n. port_in s k AND 0x40 \<noteq> 0"
  shows "\<exists>s'. eth_tx pad frame s = Some (True, s') \<and> tx_inv s' \<and>
    tx_next s \<notin> fst ` set (tx_pending s) \<and>
    tx_pending s' = tx_pending s @ [(tx_next s, max 64 (int (length frame)))] \<and>
    data_written s' = data_written s @ upload_words (pio16 s) pad frame \<and>
    word_bytes (upload_words True pad frame) =
      frame @ (if odd (length frame) then [pad] else []) @ replicate (2 * ((64 - length frame) div 2)) 0 \<and>
    map ucast (upload_words False pad frame) = frame @ replicate (64 - length frame) 0"
proof -
  obtain s' where r: "dp83902a_send pad frame s = Some s'" using send_returns [OF assms(6)] by blast
  then have "eth_tx pad frame s = Some (True, s')" using assms by (simp add: eth_tx_def)
  then show ?thesis
    using send_inv [OF assms(1,5) r] send_data [OF assms(2) r] reserve_inv(4) [OF assms(1,5)]
      upload_words_bytes by blast
qed

definition idle_card :: nic where
  "idle_card = \<lparr>pio16 = True, base = 0x300, data_port = 0x310, rtl8019 = False, tx_next = 0x40, tx_int = 0,
     rx_next = 0x4D, tx1 = 0, tx2 = 0, tx1_len = 0, tx2_len = 0, tx_started = False, running = True,
     tx_buf1 = 0x40, tx_buf2 = 0x46, rx_buf_start = 0x4C, rx_buf_end = 0x80, port_in = \<lambda>n. 0x40,
     port_pos = 0, port_out = [], rx_frames = []\<rparr>"

theorem eth_tx_queues_witness:
  "\<exists>s'. eth_tx 0 [1, 2, 3] idle_card = Some (True, s') \<and> tx_pending s' = [(0x40, 64)]"
proof -
  have "tx_inv idle_card" "data_port idle_card = base idle_card + 0x10" "base idle_card \<noteq> 0"
    "length [1, 2, 3 :: u8] < 1536" "\<not> (tx1 idle_card \<noteq> 0 \<and> tx2 idle_card \<noteq> 0)"
    "\<exists>k \<ge> n. port_in idle_card k AND 0x40 \<noteq> 0" for n
    by (auto simp: tx_inv_def idle_card_def)
  from eth_tx_queues [OF this, of 0] show ?thesis by (auto simp: tx_pending_def idle_card_def)
qed

text \<open>A run of the driver: frames offered, polls, and the final halt. The accepted frames are
  collected with their buffer and length.\<close>

datatype nic_op = Offer u8 "u8 list" | Poll | Halt

fun driver_run :: "nic_op list \<Rightarrow> nic \<Rightarrow> (nic \<times> (int \<times> int) list) option" where
  "driver_run [] s = Some (s, [])"
| "driver_run (Offer pad frame # ops) s =
     Option.bind (eth_tx pad frame s) (\<lambda>(sent, t).
       map_option (\<lambda>(u, acc). (u, (if sent then [(tx_next s, max 64 (int (length frame)))] else []) @ acc))
         (driver_run ops t))"
| "driver_run (Poll # ops) s = Option.bind (dp83902a_poll s) (driver_run ops)"
| "driver_run (Halt # ops) s = driver_run ops (eth_halt s)"

lemma driver_run_inv:
  "driver_run ops s = Some (s', acc) \<Longrightarrow> tx_inv s \<Longrightarrow>
   tx_inv s' \<and> (\<exists>n. tx_pending s' = drop n (tx_pending s @ acc))"
proof (induction ops s arbitrary: s' acc rule: driver_run.induct)
  case (1 s)
  then show ?case by (auto intro: exI [of _ "0::nat"])
next
  case (2 pad frame ops s)
  from 2(2) obtain sent t rest where e: "eth_tx pad frame s = Some (sent, t)"
    and r: "driver_run ops t = Some (s', rest)"
    and acc: "acc = (if sent then [(tx_next s, max 64 (int (length frame)))] else []) @ rest"
    by (auto simp: bind_eq_Some_conv)
  have "tx_inv t \<and> tx_pending t @ rest = tx_pending s @ acc"
  proof (cases sent)
    case True
    with e have "dp83902a_send pad frame s = Some t" "\<not> (tx1 s \<noteq> 0 \<and> tx2 s \<noteq> 0)"
      by (auto simp: eth_tx_def split: if_splits)
    with send_inv(1,2) [OF 2(3)] True acc show ?thesis by simp
  next
    case False
    with e have "t = s" by (auto simp: eth_tx_def split: if_splits)
    with False acc 2(3) show ?thesis by simp
  qed
  with 2(1) [OF e refl r] show ?case by simp
next
  case (3 ops s)
  then obtain t where p: "dp83902a_poll s = Some t" and r: "driver_run ops t = Some (s', acc)"
    by (auto simp: bind_eq_Some_conv)
  from retires_poll [OF p] 3(3) obtain n where t: "tx_inv t" "tx_pending t = drop n (tx_pending s)"
    by (auto simp: retires_def)
  from 3(1) [OF p r t(1)] obtain m where m: "tx_inv s'" "tx_pending s' = drop m (tx_pending t @ acc)" by blast
  have "tx_pending t @ acc = drop (min n (length (tx_pending s))) (tx_pending s @ acc)"
    using t(2) by (cases "n \<le> length (tx_pending s)") (simp_all add: min_def)
  with m show ?case by (metis drop_drop)
next
  case (4 ops s)
  have "tx_view (eth_halt s) = tx_view s" by (simp add: eth_halt_def)
  with 4 tx_view_same [of "eth_halt s" s] show ?case by simp
qed

text \<open>C9. Frames leave the card in the order they were accepted. From a successful \<open>eth_init\<close>, however
  frames are offered and the card polled or halted, the invariant of the two transmit buffers holds,
  what is still to be sent is the tail of the sequence of accepted frames, and a transmit interrupt
  retires its head and gives the card exactly the commands that start the following frame.\<close>

theorem frames_leave_in_order:
  assumes "eth_init mac0 s0 = (True, mac, s)" "driver_run ops s = Some (s', acc)"
  shows "tx_inv s' \<and> (\<exists>n. tx_pending s' = drop n acc) \<and>
    (tx_started s' \<longrightarrow> tx_pending (dp83902a_TxEvent s') = tl (tx_pending s') \<and>
       port_out (dp83902a_TxEvent s') =
         port_out s' @ (case tx_pending s' of _ # p # _ \<Rightarrow> start_commands s' p | _ \<Rightarrow> []))"
proof -
  have "tx_inv s" "tx_pending s = []"
    using assms(1) probe_ports_found [of _ mac0 s0 mac s] by (auto simp: eth_init_def)
  with driver_run_inv [OF assms(2)] have "tx_inv s'" "\<exists>n. tx_pending s' = drop n acc" by auto
  with TxEvent_inv(2,4) [of s'] show ?thesis by blast
qed

lemma read_bytes_const:
  "port_in s = (\<lambda>n. c) \<Longrightarrow> fst (read_bytes n s) = replicate n (ucast c) \<and> port_in (snd (read_bytes n s)) = (\<lambda>n. c)"
  by (induction n arbitrary: s) (auto simp: Let_def case_prod_unfold inb_def)

lemma eth_init_const:
  assumes "port_in s = (\<lambda>n. 0xC0)" "pio16 s"
  shows "fst (eth_init mac s)"
proof -
  let ?b = "s\<lparr>base := 0x300, data_port := 0x300 + 0x10\<rparr>"
  let ?f = "foldl (\<lambda>s p. outb (snd p) (fst p) s) (pcnet_reset_8390 ?b) get_prom_program_seq"
  have w: "bus (wait_reset n s) = bus s" for n s
    by (induction n arbitrary: s) (simp_all add: Let_def case_prod_unfold)
  have f: "bus (foldl (\<lambda>s p. outb (snd p) (fst p) s) s xs) = bus s" for xs s
    by (induction xs arbitrary: s) simp_all
  have "bus ?f = bus ?b" by (simp add: pcnet_reset_8390_def Let_def case_prod_unfold w f)
  then have "fst (read_bytes 32 ?f) = replicate 32 0xC0"
    using read_bytes_const [of ?f "0xC0" 32] assms(1) by (simp add: bus_def)
  then have "fst (get_prom ?b)"
    by (simp add: get_prom_def Let_def case_prod_unfold) (rule exI [of _ "0::nat"], simp)
  then show ?thesis using assms(2) by (simp add: eth_init_def portlist_def Let_def case_prod_unfold)
qed

theorem frames_leave_in_order_witness:
  "\<exists>s s' acc. fst (eth_init [] (idle_card\<lparr>port_in := \<lambda>n. 0xC0\<rparr>)) \<and>
     driver_run [Offer 0 [1, 2, 3], Halt] s = Some (s', acc) \<and> tx_inv s'"
proof -
  let ?c = "idle_card\<lparr>port_in := \<lambda>n. 0xC0\<rparr>"
  have e: "fst (eth_init [] ?c)" by (rule eth_init_const) (simp_all add: idle_card_def)
  then obtain mac s where i: "eth_init [] ?c = (True, mac, s)" by (metis prod.collapse)
  from probe_ports_found [OF i [unfolded eth_init_def]]
  have s: "tx_inv s" "tx_pending s = []" "base s \<noteq> 0" "port_in s = (\<lambda>n. 0xC0)"
    by (auto simp: portlist_def idle_card_def)
  have "\<not> (tx1 s \<noteq> 0 \<and> tx2 s \<noteq> 0)" using s(2) by (auto simp: tx_pending_def Let_def split: if_splits)
  moreover obtain t where "dp83902a_send 0 [1, 2, 3] s = Some t"
    using send_returns [of s 0 "[1, 2, 3]"] s(4) by auto
  ultimately have "eth_tx 0 [1, 2, 3] s = Some (True, t)" using s(3) by (auto simp: eth_tx_def)
  then have d: "driver_run [Offer 0 [1, 2, 3], Halt] s = Some (eth_halt t, [(tx_next s, 64)])" by simp
  from frames_leave_in_order [OF i d] e d show ?thesis by blast
qed

end
