(* ===== verification/Timer.thy ===== *)
theory Timer
  imports Prelude
begin

text \<open>
  The timers of \<^verbatim>\<open>core/timer.c\<close> and the macros of \<^verbatim>\<open>include/timers.h\<close>. The tick counter is a 32-bit
  word that wraps around; \<open>now\<close> is its value when a function reads it. There are 200 ticks a second.
\<close>

definition set_timer_ticks :: "u32 \<Rightarrow> u32 \<Rightarrow> u32" where
  "set_timer_ticks now duration_ticks =
     now + (if duration_ticks = 0 then 1
            else if duration_ticks AND 0x80000000 \<noteq> 0 then 0x7FFFFFFF
            else duration_ticks)"

definition timer_expired :: "u32 \<Rightarrow> u32 \<Rightarrow> bool" where
  "timer_expired now timer \<longleftrightarrow> (timer - now) AND 0x80000000 \<noteq> 0"

text \<open>\<open>timer_wait\<close> reads the clock until the timer has expired; the fuel bounds the reads.\<close>

fun timer_wait :: "nat \<Rightarrow> (nat \<Rightarrow> u32) \<Rightarrow> nat \<Rightarrow> u32 \<Rightarrow> nat option" where
  "timer_wait 0 clock i timeout = None"
| "timer_wait (Suc fuel) clock i timeout =
     (if timer_expired (clock i) timeout then Some (Suc i) else timer_wait fuel clock (Suc i) timeout)"

definition TIMER_MS_PER_TICK :: u32 where "TIMER_MS_PER_TICK = 5"

definition set_timer_ms :: "u32 \<Rightarrow> u32 \<Rightarrow> u32" where
  "set_timer_ms now msec = set_timer_ticks now ((msec + TIMER_MS_PER_TICK - 1) div TIMER_MS_PER_TICK)"

definition set_timer_sec :: "u32 \<Rightarrow> u32 \<Rightarrow> u32" where
  "set_timer_sec now sec = set_timer_ms now (sec * 1000)"

lemma top_bit_iff: "(x :: u32) AND 0x80000000 \<noteq> 0 \<longleftrightarrow> 2 ^ 31 \<le> unat x"
proof -
  have "x AND 0x80000000 \<noteq> 0 \<longleftrightarrow> bit x 31" using and_exp_eq_0_iff_not_bit [of x 31] by simp
  also have "\<dots> \<longleftrightarrow> sint x < 0" using bit_last_iff [of x] by simp
  also have "\<dots> \<longleftrightarrow> 2 ^ 31 \<le> unat x"
  proof -
    define k where "k = unat x"
    have "uint x = int k" "k < 4294967296" by (simp_all add: k_def)
    with sint_u32 [of x] show ?thesis by (simp flip: k_def)
  qed
  finally show ?thesis .
qed

lemma expiry:
  assumes e: "unat e < 2 ^ 31"
  shows "timer_expired (t0 + e) (set_timer_ticks t0 d) \<longleftrightarrow>
     unat e > (if unat d = 0 then 1 else min (unat d) (2 ^ 31 - 1))"
proof -
  let ?k = "if d = 0 then 1 else if d AND 0x80000000 \<noteq> 0 then 0x7FFFFFFF else d"
  have k: "unat ?k = (if unat d = 0 then 1 else min (unat d) (2 ^ 31 - 1))"
    using top_bit_iff [of d] by (auto simp: unat_eq_zero)
  have "set_timer_ticks t0 d - (t0 + e) = ?k - e" by (simp add: set_timer_ticks_def)
  then have "timer_expired (t0 + e) (set_timer_ticks t0 d) \<longleftrightarrow> 2 ^ 31 \<le> unat (?k - e)"
    unfolding timer_expired_def by (simp only: top_bit_iff)
  also have "\<dots> \<longleftrightarrow> unat e > unat ?k"
  proof -
    define k' e' where "k' = unat ?k" and "e' = unat e"
    have "unat (?k - e) = (if e' \<le> k' then k' - e' else 4294967296 + k' - e')"
      using unat_sub_wrap [of ?k e] by (simp only: k'_def e'_def)
    moreover have "k' \<le> 2 ^ 31 - 1" "e' < 2 ^ 31" using k e by (auto simp: k'_def e'_def)
    ultimately show ?thesis by (auto simp flip: k'_def e'_def)
  qed
  finally show ?thesis unfolding k .
qed

text \<open>Timers count ticks correctly across the wrap-around of the counter. \<open>e < 2^31\<close> ticks after
  a timer was set for \<open>d\<close> ticks, at whatever counter value \<open>t0\<close>, it reports expiry exactly if more
  than \<open>d\<close> ticks have passed, where a duration of 0 counts as 1 and one from \<open>2^31\<close> up as \<open>2^31 - 1\<close>.\<close>

theorem timer_exact:
  assumes "unat e < 2 ^ 31"
  shows "timer_expired (t0 + e) (set_timer_ticks t0 d) \<longleftrightarrow>
     unat e > (if unat d = 0 then 1 else min (unat d) (2 ^ 31 - 1))"
  using assms by (rule expiry)

theorem timer_exact_witness: "timer_expired (0xFFFFFFFE + 6) (set_timer_ticks 0xFFFFFFFE 5) \<and>
    \<not> timer_expired (0xFFFFFFFE + 5) (set_timer_ticks 0xFFFFFFFE 5)"
  using timer_exact [of 6 "0xFFFFFFFE" 5] timer_exact [of 5 "0xFFFFFFFE" 5] by simp

text \<open>Waiting ends, and not early. If the tick counter advances by at most one tick between two
  reads and does pass the duration, \<open>timer_wait\<close> returns, and at the read on which it returns more
  than the set number of ticks has passed since the timer was set.\<close>

theorem timer_wait_returns:
  fixes ticks :: "nat \<Rightarrow> nat"
  assumes "ticks 0 = 0" "\<And>i. ticks (Suc i) \<le> ticks i + 1" "ticks n > unat d"
    and "0 < unat d" "unat d < 2 ^ 31 - 1"
  shows "\<exists>fuel i. timer_wait fuel (\<lambda>i. t0 + of_nat (ticks i)) 0 (set_timer_ticks t0 d) = Some (Suc i) \<and>
    ticks i = unat d + 1"
proof -
  define m where "m = (LEAST i. ticks i > unat d)"
  have m: "ticks m > unat d" unfolding m_def using assms(3) by (rule LeastI)
  have before: "ticks i \<le> unat d" if "i < m" for i using not_less_Least that unfolding m_def by force
  have "m \<noteq> 0" using m assms(1) by (cases m) auto
  then have tm: "ticks m = unat d + 1"
    using before [of "m - 1"] assms(2) [of "m - 1"] m by simp
  have x: "timer_expired (t0 + of_nat (ticks i)) (set_timer_ticks t0 d) \<longleftrightarrow> ticks i > unat d" if "i \<le> m" for i
  proof -
    have "ticks i \<le> unat d + 1" using that before [of i] tm by (cases "i = m") auto
    then have "unat (of_nat (ticks i) :: u32) = ticks i" "ticks i < 2 ^ 31"
      using assms(5) by (auto intro!: u32_unat_of_nat)
    then show ?thesis using expiry [of "of_nat (ticks i)" t0 d] assms(4,5) by auto
  qed
  have "timer_wait (Suc (m - i)) (\<lambda>i. t0 + of_nat (ticks i)) i (set_timer_ticks t0 d) = Some (Suc m)" if "i \<le> m" for i
    using that
  proof (induction "m - i" arbitrary: i)
    case 0
    then show ?case using x [of m] m by simp
  next
    case (Suc k)
    then have "i < m" "k = m - Suc i" by simp_all
    with Suc.hyps(1) [of "Suc i"] Suc.hyps(2) x [of i] before [of i] show ?case
      by (simp add: Suc_diff_Suc)
  qed
  from this [of 0] tm show ?thesis by blast
qed

theorem timer_wait_returns_witness:
  "\<exists>fuel i. timer_wait fuel (\<lambda>i. 0xFFFFFFFF + of_nat i) 0 (set_timer_ticks 0xFFFFFFFF 2) = Some (Suc i) \<and> i = 3"
  using timer_wait_returns [of "\<lambda>i. i" 2 3 "0xFFFFFFFF"] by simp

text \<open>A duration in milliseconds is rounded up to whole ticks of 5 ms.\<close>

lemma set_timer_ms_rounds_up:
  assumes "0 < unat msec" "unat msec < 2 ^ 31"
  shows "\<exists>d. set_timer_ms now msec = set_timer_ticks now d \<and> unat msec \<le> 5 * unat d \<and> 5 * unat d < unat msec + 5"
proof -
  have "unat (msec + 4) = unat msec + 4" using assms(2) u32_unat_add [of msec 4] by simp
  moreover have "unat ((msec + 4) div 5) = unat (msec + 4) div unat (5 :: u32)" by (rule unat_div)
  moreover have "msec + 5 - 1 = msec + 4" "unat (5 :: u32) = 5" by simp_all
  ultimately have v: "unat ((msec + 5 - 1) div 5) = (unat msec + 4) div 5" by metis
  have "unat msec \<le> 5 * ((unat msec + 4) div 5)" "5 * ((unat msec + 4) div 5) < unat msec + 5" by linarith+
  then have "unat msec \<le> 5 * unat ((msec + 5 - 1) div 5)" "5 * unat ((msec + 5 - 1) div 5) < unat msec + 5"
    unfolding v by simp_all
  then show ?thesis unfolding set_timer_ms_def TIMER_MS_PER_TICK_def by blast
qed

end
