(* ===== verification/Net.thy ===== *)
theory Net
  imports Checksum Ne2000 Timer
begin

text \<open>
  The network core: \<^verbatim>\<open>net/net.c\<close> (packet sinks, the receive and transmit pipes, routing) and
  \<^verbatim>\<open>net/arp.c\<close> (the address cache and resolution), which call each other. The state is a record that
  the DHCP client extends. The queues are lists, which is what the pointer queues of theory
  \<open>PacketQueue\<close> implement; a packet moves from one list to another, as its pointer does in the code.
  Out-of-frame and null-pointer accesses and a card that never answers are \<open>None\<close>. The clock is read
  once per operation, as \<open>now\<close>. \<open>alive\<close> is \<^verbatim>\<open>packet_alive_count\<close>: allocation raises it,
  \<^verbatim>\<open>packet_free\<close> lowers it.
\<close>

datatype handler = Arp_process | Icmp_received | Icmp_send_unreachable | Dhcp_pump | No_receiver
datatype timer_handler = Arp_cache_flush | Dhcp_timer | No_timer

record sink =
  sid :: nat
  match_interface_local_ip :: bool
  match_local_ip :: u32
  match_remote_ip :: u32
  match_local_port :: u16
  match_remote_port :: u16
  match_ethertype :: u16
  match_ipv4_protocol :: u8
  packets_queued :: u32
  squeue :: "packet list"
  cb_packet_received :: handler
  stimer :: u32
  cb_timer_expired :: timer_handler

record arp_cache_entry =
  ipv4_address :: u32
  mac_address :: "u8 list"
  valid :: bool
  resolve_attempts :: int
  next_event :: u32

record net =
  conf :: netconf
  sinks :: "sink list"
  txq :: "packet list"
  arpq :: "packet list"
  cache :: "arp_cache_entry list"
  throttle :: u32
  alive :: u32
  discard_count :: u32
  bad_cksum_count :: u32
  rx_count :: u32
  tx_count :: u32
  card :: nic
  now :: u32
  junk :: "nat \<Rightarrow> u8"
  low_memory :: "nat \<Rightarrow> u8"

definition packet_free :: "'a net_scheme \<Rightarrow> 'a net_scheme" where
  "packet_free s = s\<lparr>alive := alive s - 1\<rparr>"

definition packet_born :: "'a net_scheme \<Rightarrow> 'a net_scheme" where
  "packet_born s = s\<lparr>alive := alive s + 1\<rparr>"

section \<open>Sinks\<close>

definition packet_sink_alloc :: "nat \<Rightarrow> sink" where
  "packet_sink_alloc i =
     \<lparr>sid = i, match_interface_local_ip = False, match_local_ip = 0, match_remote_ip = 0,
      match_local_port = 0, match_remote_port = 0, match_ethertype = 0, match_ipv4_protocol = 0,
      packets_queued = 0, squeue = [], cb_packet_received = No_receiver, stimer = 0,
      cb_timer_expired = No_timer\<rparr>"

definition score_sink :: "sink \<Rightarrow> nat" where
  "score_sink k =
     (if match_local_ip k \<noteq> 0 \<or> match_interface_local_ip k then 1 else 0) +
     (if match_remote_ip k \<noteq> 0 then 1 else 0) +
     (if match_local_port k \<noteq> 0 then 1 else 0) +
     (if match_remote_port k \<noteq> 0 then 1 else 0) +
     (if match_ethertype k \<noteq> 0 then 1 else 0) +
     (if match_ipv4_protocol k \<noteq> 0 then 1 else 0)"

text \<open>A sink already in the list: the last one has a null \<open>next\<close>, so the check misses it and the
  list becomes circular, which is \<open>None\<close>; another one is left where it is.\<close>

fun insert_sink :: "sink \<Rightarrow> sink list \<Rightarrow> sink list" where
  "insert_sink k [] = [k]"
| "insert_sink k (e # es) = (if score_sink e \<le> score_sink k then k # e # es else e # insert_sink k es)"

definition add_sink :: "sink \<Rightarrow> sink list \<Rightarrow> sink list option" where
  "add_sink k ks =
     (if sid k \<in> set (map sid (butlast ks)) then Some ks
      else if sid k \<in> set (map sid ks) then None
      else Some (insert_sink k ks))"

definition net_add_packet_sink :: "sink \<Rightarrow> 'a net_scheme \<Rightarrow> 'a net_scheme option" where
  "net_add_packet_sink k s = map_option (\<lambda>ks. s\<lparr>sinks := ks\<rparr>) (add_sink k (sinks s))"

fun remove_sink :: "nat \<Rightarrow> sink list \<Rightarrow> sink list" where
  "remove_sink i [] = []"
| "remove_sink i (e # es) = (if sid e = i then es else e # remove_sink i es)"

definition net_remove_packet_sink :: "nat \<Rightarrow> 'a net_scheme \<Rightarrow> 'a net_scheme" where
  "net_remove_packet_sink i s = s\<lparr>sinks := remove_sink i (sinks s)\<rparr>"

section \<open>The receive pipe\<close>

text \<open>The header pointers and the checksum tests of \<open>net_eth_push\<close>; the flag is false for a bad
  checksum. For TCP the data offset is read through the still null \<open>tcp\<close> pointer, at address 12.\<close>

definition parse_ipv4 :: "'a net_scheme \<Rightarrow> packet \<Rightarrow> (bool \<times> packet) option" where
  "parse_ipv4 s p = do {
     let p = p\<lparr>pipv4 := Some 14\<rparr>;
     ok \<leftarrow> net_verify_ipv4_checksum p;
     if \<not> ok then Some (False, p) else do {
     proto \<leftarrow> rd8 p (14 + 9);
     len \<leftarrow> rd16 p (14 + 2);
     if proto = ip_proto_tcp then
       (let header_size = push_bit 2 (ucast (low_memory s 12 AND 0x0F)) :: u32;
            p = p\<lparr>ptcp := Some 34, pdata := Some (34 + unat header_size), data_length := len - ucast header_size\<rparr>
        in Some (net_verify_tcp_checksum p, p))
     else if proto = ip_proto_udp then do {
       ulen \<leftarrow> rd16 p (34 + 4);
       let p = p\<lparr>pudp := Some 34, pdata := Some 42, data_length := ulen - 8\<rparr>;
       ok \<leftarrow> net_verify_udp_checksum p;
       Some (ok, p) }
     else if proto = ip_proto_icmp then do {
       let p = p\<lparr>picmp := Some 34, pdata := Some 42, data_length := len - 8 - 20\<rparr>;
       ok \<leftarrow> net_verify_icmp_checksum p;
       Some (ok, p) }
     else Some (True, p) } }"

definition parse_frame :: "'a net_scheme \<Rightarrow> packet \<Rightarrow> (bool \<times> packet) option" where
  "parse_frame s p = do {
     et \<leftarrow> ethertype p;
     if et = ethertype_ipv4 then parse_ipv4 s p
     else if et = ethertype_arp then Some (True, p\<lparr>parp := Some 14\<rparr>)
     else Some (True, p) }"

text \<open>The fields a sink is compared with. Without an IPv4 header they are read through a null
  pointer, and not used.\<close>

record keys =
  k_ethertype :: u16
  k_ipv4 :: bool
  k_ports :: bool
  k_protocol :: u8
  k_destination_ip :: u32
  k_source_ip :: u32
  k_destination_port :: u16
  k_source_port :: u16

definition packet_keys :: "packet \<Rightarrow> keys option" where
  "packet_keys p = do {
     et \<leftarrow> ethertype p;
     (proto, dst, src) \<leftarrow> (case pipv4 p of
        None \<Rightarrow> Some (0, 0, 0)
      | Some ip \<Rightarrow> do { a \<leftarrow> rd8 p (ip + 9); b \<leftarrow> rd32 p (ip + 16); c \<leftarrow> rd32 p (ip + 12); Some (a, b, c) });
     (dport, sport) \<leftarrow> (case (ptcp p, pudp p) of
        (Some t, _) \<Rightarrow> do { a \<leftarrow> rd16 p (t + 2); b \<leftarrow> rd16 p t; Some (a, b) }
      | (None, Some u) \<Rightarrow> do { a \<leftarrow> rd16 p (u + 2); b \<leftarrow> rd16 p u; Some (a, b) }
      | (None, None) \<Rightarrow> Some (0, 0));
     Some \<lparr>k_ethertype = et, k_ipv4 = (pipv4 p \<noteq> None), k_ports = (ptcp p \<noteq> None \<or> pudp p \<noteq> None),
       k_protocol = proto, k_destination_ip = dst, k_source_ip = src,
       k_destination_port = dport, k_source_port = sport\<rparr> }"

definition sink_matches :: "u32 \<Rightarrow> keys \<Rightarrow> sink \<Rightarrow> bool" where
  "sink_matches ip q k \<longleftrightarrow>
     (match_ethertype k = 0 \<or> match_ethertype k = k_ethertype q) \<and>
     (match_ipv4_protocol k = 0 \<or> k_ipv4 q \<and> match_ipv4_protocol k = k_protocol q) \<and>
     (match_local_ip k = 0 \<or> k_ipv4 q \<and> match_local_ip k = k_destination_ip q) \<and>
     (\<not> match_interface_local_ip k \<or> k_ipv4 q \<and> ip \<noteq> 0 \<and> ip = k_destination_ip q) \<and>
     (match_remote_ip k = 0 \<or> k_ipv4 q \<and> match_remote_ip k = k_source_ip q) \<and>
     (match_local_port k = 0 \<or> k_ports q \<and> match_local_port k = k_destination_port q) \<and>
     (match_remote_port k = 0 \<or> k_ports q \<and> match_remote_port k = k_source_port q)"

text \<open>The walk along the sinks: the packet goes to the queue of the first one that matches.\<close>

fun deliver :: "u32 \<Rightarrow> keys \<Rightarrow> packet \<Rightarrow> sink list \<Rightarrow> sink list option" where
  "deliver ip q p [] = None"
| "deliver ip q p (k # ks) =
     (if sink_matches ip q k
      then Some (k\<lparr>squeue := squeue k @ [p], packets_queued := packets_queued k + 1\<rparr> # ks)
      else map_option ((#) k) (deliver ip q p ks))"

definition net_eth_push :: "packet \<Rightarrow> 'a net_scheme \<Rightarrow> 'a net_scheme option" where
  "net_eth_push p s = do {
     let s = s\<lparr>rx_count := rx_count s + 1\<rparr>;
     mac \<leftarrow> rdn p 0 6;
     if mac = if_mac (conf s) \<or> mac ! 0 AND 1 \<noteq> 0 then do {
       (ok, p) \<leftarrow> parse_frame s p;
       if \<not> ok then Some (packet_free (s\<lparr>bad_cksum_count := bad_cksum_count s + 1\<rparr>))
       else do {
         q \<leftarrow> packet_keys p;
         (case deliver (if_ip (conf s)) q p (sinks s) of
            Some ks \<Rightarrow> Some (s\<lparr>sinks := ks\<rparr>)
          | None \<Rightarrow> Some (packet_free (s\<lparr>discard_count := discard_count s + 1\<rparr>))) } }
     else Some (packet_free (s\<lparr>discard_count := discard_count s + 1\<rparr>)) }"

section \<open>The transmit pipe\<close>

definition net_ipv4_route :: "'a net_scheme \<Rightarrow> packet \<Rightarrow> packet option" where
  "net_ipv4_route s p =
     (case pipv4 p of
        None \<Rightarrow> Some p
      | Some ip \<Rightarrow> do {
          dst \<leftarrow> rd32 p (ip + 16);
          Some (p\<lparr>nexthop :=
            (if dst AND if_mask (conf s) = if_ip (conf s) AND if_mask (conf s) then dst
             else if_gateway (conf s))\<rparr>) })"

text \<open>A packet in memory as the driver reads it: the byte behind the frame and the frame.\<close>

definition wire :: "packet \<Rightarrow> u8 \<times> u8 list" where
  "wire p = (let n = unat (buffer_length p) in (if n < length (pbuf p) then pbuf p ! n else 0, take n (pbuf p)))"

definition eth_attempt_tx :: "packet \<Rightarrow> 'a net_scheme \<Rightarrow> (bool \<times> 'a net_scheme) option" where
  "eth_attempt_tx p s =
     map_option (\<lambda>(sent, c). (sent, s\<lparr>card := c\<rparr>)) (eth_tx (fst (wire p)) (snd (wire p)) (card s))"

definition compute_checksums :: "packet \<Rightarrow> packet option" where
  "compute_checksums p = do {
     et \<leftarrow> ethertype p;
     if et \<noteq> ethertype_ipv4 then Some p else do {
     p \<leftarrow> net_compute_ipv4_checksum p;
     ip \<leftarrow> pipv4 p;
     proto \<leftarrow> rd8 p (ip + 9);
     if proto = ip_proto_tcp then Some (net_compute_tcp_checksum p)
     else if proto = ip_proto_udp then net_compute_udp_checksum p
     else if proto = ip_proto_icmp then net_compute_icmp_checksum p
     else Some p } }"

text \<open>Only DHCP may be sent from address 0.0.0.0.\<close>

definition may_send :: "packet \<Rightarrow> bool option" where
  "may_send p =
     (case pipv4 p of
        None \<Rightarrow> Some True
      | Some ip \<Rightarrow> do {
          src \<leftarrow> rd32 p (ip + 12);
          if src \<noteq> 0 then Some True
          else (case pudp p of
                  None \<Rightarrow> Some False
                | Some u \<Rightarrow> do { sp \<leftarrow> rd16 p u; dp \<leftarrow> rd16 p (u + 2); Some (sp = 68 \<and> dp = 67) }) })"

datatype arp_result = Arp_okay | Arp_wait | Arp_fail

text \<open>\<open>net_tx\<close>, given the resolver it calls for a packet without a destination address.\<close>

definition net_tx_with ::
  "(packet \<Rightarrow> 'a net_scheme \<Rightarrow> (arp_result \<times> packet \<times> 'a net_scheme) option) \<Rightarrow>
   packet \<Rightarrow> 'a net_scheme \<Rightarrow> 'a net_scheme option" where
  "net_tx_with resolve p s = do {
     ok \<leftarrow> may_send p;
     if \<not> ok then Some (packet_free s) else do {
     p \<leftarrow> compute_checksums p;
     p \<leftarrow> net_ipv4_route s p;
     let s = s\<lparr>tx_count := tx_count s + 1\<rparr>;
     (r, p, s) \<leftarrow> (if pflags p AND flag_mac_valid \<noteq> 0 then Some (Arp_okay, p, s) else resolve p s);
     if r = Arp_okay then do {
       (sent, s) \<leftarrow> eth_attempt_tx p s;
       Some (if sent then packet_free s else s\<lparr>txq := txq s @ [p]\<rparr>) }
     else Some (s\<lparr>arpq := p # arpq s\<rparr>) } }"

section \<open>Address resolution\<close>

definition packet_create_arp :: "'a net_scheme \<Rightarrow> (packet \<times> 'a net_scheme) option" where
  "packet_create_arp s = do {
     let p = packet_alloc (junk s) (14 + 28);
     p \<leftarrow> wr p 6 (if_mac (conf s));
     p \<leftarrow> wr16 p 12 ethertype_arp;
     let p = p\<lparr>parp := Some 14\<rparr>;
     p \<leftarrow> wr16 p (14 + 0) 1;
     p \<leftarrow> wr16 p (14 + 2) 0x800;
     p \<leftarrow> wr8 p (14 + 4) 6;
     p \<leftarrow> wr8 p (14 + 5) 4;
     p \<leftarrow> wr p (14 + 8) (if_mac (conf s));
     p \<leftarrow> wr32 p (14 + 14) (if_ip (conf s));
     Some (p, packet_born s) }"

text \<open>The cache is the linked list from its head; a walk ends at the first entry for the address.\<close>

fun find_entry :: "u32 \<Rightarrow> arp_cache_entry list \<Rightarrow> arp_cache_entry option" where
  "find_entry ip [] = None"
| "find_entry ip (e # es) = (if ipv4_address e = ip then Some e else find_entry ip es)"

fun change_entry :: "u32 \<Rightarrow> (arp_cache_entry \<Rightarrow> arp_cache_entry) \<Rightarrow> arp_cache_entry list \<Rightarrow> arp_cache_entry list" where
  "change_entry ip f [] = []"
| "change_entry ip f (e # es) = (if ipv4_address e = ip then f e # es else e # change_entry ip f es)"

definition update_arp_cache :: "u32 \<Rightarrow> u8 list \<Rightarrow> bool \<Rightarrow> 'a net_scheme \<Rightarrow> 'a net_scheme" where
  "update_arp_cache ip mac add_entry s =
     (let e = \<lparr>ipv4_address = ip, mac_address = mac, valid = True, resolve_attempts = 0,
               next_event = set_timer_sec (now s) 60\<rparr> in
      case find_entry ip (cache s) of
        Some _ \<Rightarrow> s\<lparr>cache := change_entry ip (\<lambda>_. e) (cache s)\<rparr>
      | None \<Rightarrow> if \<not> add_entry then s else s\<lparr>cache := e # cache s\<rparr>)"

text \<open>The request carries a destination address, so its own transmission resolves nothing.\<close>

definition arp_transmit_query :: "u32 \<Rightarrow> 'a net_scheme \<Rightarrow> 'a net_scheme option" where
  "arp_transmit_query ip s = do {
     let s = s\<lparr>cache := change_entry ip (\<lambda>e. e\<lparr>resolve_attempts := resolve_attempts e + 1,
                                            next_event := set_timer_ms (now s) 500\<rparr>) (cache s)\<rparr>;
     (q, s) \<leftarrow> packet_create_arp s;
     q \<leftarrow> wr16 q (14 + 6) 1;
     q \<leftarrow> wr32 q (14 + 24) ip;
     q \<leftarrow> wr q (14 + 18) (replicate 6 0);
     q \<leftarrow> packet_set_destination_mac q broadcast_macaddr;
     net_tx_with (\<lambda>p s. None) q s }"

definition is_broadcast :: "netconf \<Rightarrow> packet \<Rightarrow> bool option" where
  "is_broadcast cf p =
     (case pipv4 p of
        None \<Rightarrow> Some False
      | Some ip \<Rightarrow> do {
          dst \<leftarrow> rd32 p (ip + 16);
          Some (dst = ipv4_broadcast \<or> dst = (if_ip cf OR NOT (if_mask cf))) })"

definition net_arp_resolve :: "packet \<Rightarrow> 'a net_scheme \<Rightarrow> (arp_result \<times> packet \<times> 'a net_scheme) option" where
  "net_arp_resolve p s = do {
     b \<leftarrow> is_broadcast (conf s) p;
     if b then do { p \<leftarrow> packet_set_destination_mac p broadcast_macaddr; Some (Arp_okay, p, s) }
     else
       (case find_entry (nexthop p) (cache s) of
          None \<Rightarrow> do {
            let e = \<lparr>ipv4_address = nexthop p, mac_address = replicate 6 0, valid = False,
                     resolve_attempts = 0, next_event = 0\<rparr>;
            s \<leftarrow> arp_transmit_query (nexthop p) (s\<lparr>cache := e # cache s\<rparr>);
            Some (Arp_wait, p, s) }
        | Some e \<Rightarrow>
            if valid e then do {
              p \<leftarrow> packet_set_destination_mac p (mac_address e);
              Some (Arp_okay, p, s) }
            else if timer_expired (now s) (next_event e) then
              (if resolve_attempts e \<ge> 10 then Some (Arp_fail, p, s)
               else do { s \<leftarrow> arp_transmit_query (nexthop p) s; Some (Arp_wait, p, s) })
            else Some (Arp_wait, p, s)) }"

definition net_tx :: "packet \<Rightarrow> 'a net_scheme \<Rightarrow> 'a net_scheme option" where
  "net_tx p s = net_tx_with net_arp_resolve p s"

definition arp_reply :: "packet \<Rightarrow> 'a net_scheme \<Rightarrow> 'a net_scheme option" where
  "arp_reply p s = do {
     (r, s) \<leftarrow> packet_create_arp s;
     r \<leftarrow> wr16 r (14 + 6) 2;
     a \<leftarrow> parp p;
     sender_ip \<leftarrow> rd32 p (a + 14);
     r \<leftarrow> wr32 r (14 + 24) sender_ip;
     sender_mac \<leftarrow> rdn p (a + 8) 6;
     r \<leftarrow> wr r (14 + 18) sender_mac;
     target_mac \<leftarrow> rdn r (14 + 18) 6;
     r \<leftarrow> packet_set_destination_mac r target_mac;
     net_tx r s }"

text \<open>The cases of a request and, falling through, a reply; \<open>a\<close> is the offset of the ARP header.\<close>

definition arp_input :: "packet \<Rightarrow> nat \<Rightarrow> u16 \<Rightarrow> 'a net_scheme \<Rightarrow> 'a net_scheme option" where
  "arp_input p a operation s = do {
     target_ip \<leftarrow> rd32 p (a + 24);
     let for_us = (operation = 1 \<and> if_ip (conf s) \<noteq> 0 \<and> target_ip = if_ip (conf s));
     s \<leftarrow> (if for_us then arp_reply p s else Some s);
     sender_ip \<leftarrow> rd32 p (a + 14);
     sender_mac \<leftarrow> rdn p (a + 8) 6;
     Some (update_arp_cache sender_ip sender_mac for_us s) }"

definition arp_process_packet :: "packet \<Rightarrow> 'a net_scheme \<Rightarrow> 'a net_scheme option" where
  "arp_process_packet p s = do {
     a \<leftarrow> parp p;
     hw \<leftarrow> rd16 p a;
     pt \<leftarrow> rd16 p (a + 2);
     hl \<leftarrow> rd8 p (a + 4);
     pl \<leftarrow> rd8 p (a + 5);
     operation \<leftarrow> rd16 p (a + 6);
     s \<leftarrow> (if (hw = 1 \<and> pt = 0x800 \<and> hl = 6 \<and> pl = 4) \<and> (operation = 1 \<or> operation = 2)
           then arp_input p a operation s else Some s);
     Some (packet_free s) }"

fun set_sink_timer :: "nat \<Rightarrow> u32 \<Rightarrow> sink list \<Rightarrow> sink list" where
  "set_sink_timer i t [] = []"
| "set_sink_timer i t (k # ks) = (if sid k = i then k\<lparr>stimer := t\<rparr> # ks else k # set_sink_timer i t ks)"

definition arp_dead :: "u32 \<Rightarrow> arp_cache_entry \<Rightarrow> bool" where
  "arp_dead tm e \<longleftrightarrow> valid e \<and> timer_expired tm (next_event e) \<or> \<not> valid e \<and> resolve_attempts e \<ge> 10"

definition arp_cache_flush :: "nat \<Rightarrow> 'a net_scheme \<Rightarrow> 'a net_scheme" where
  "arp_cache_flush i s =
     (let s = s\<lparr>sinks := set_sink_timer i (set_timer_sec (now s) 15) (sinks s)\<rparr>
      in s\<lparr>cache := filter (\<lambda>e. \<not> arp_dead (now s) e) (cache s)\<rparr>)"

definition arp_sink :: "u32 \<Rightarrow> nat \<Rightarrow> sink" where
  "arp_sink tm i = (packet_sink_alloc i)\<lparr>match_ethertype := ethertype_arp, cb_packet_received := Arp_process,
     stimer := set_timer_sec tm 15, cb_timer_expired := Arp_cache_flush\<rparr>"

definition net_arp_init :: "nat \<Rightarrow> 'a net_scheme \<Rightarrow> 'a net_scheme option" where
  "net_arp_init i s = net_add_packet_sink (arp_sink (now s) i) (s\<lparr>cache := []\<rparr>)"

text \<open>The walk along the packets waiting for an address: those still waiting stay, in order.\<close>

fun arp_pump :: "packet list \<Rightarrow> 'a net_scheme \<Rightarrow> (packet list \<times> 'a net_scheme) option" where
  "arp_pump [] s = Some ([], s)"
| "arp_pump (p # ps) s = do {
     (r, p, s) \<leftarrow> net_arp_resolve p s;
     (case r of
        Arp_wait \<Rightarrow> map_option (\<lambda>(kept, s). (p # kept, s)) (arp_pump ps s)
      | Arp_okay \<Rightarrow> arp_pump ps (s\<lparr>txq := txq s @ [p]\<rparr>)
      | Arp_fail \<Rightarrow> arp_pump ps (packet_free s)) }"

definition net_arp_resolver_pump :: "'a net_scheme \<Rightarrow> 'a net_scheme option" where
  "net_arp_resolver_pump s = map_option (\<lambda>(kept, s). s\<lparr>arpq := kept\<rparr>) (arp_pump (arpq s) s)"

section \<open>No packet is lost or freed twice\<close>

text \<open>The packets held by the queues, and the packets allocated but in no queue: those in the hands of
  the running functions.\<close>

definition queued :: "sink list \<Rightarrow> nat" where
  "queued ks = sum_list (map (\<lambda>k. length (squeue k)) ks)"

definition in_hand :: "'a net_scheme \<Rightarrow> u32" where
  "in_hand s = alive s - of_nat (length (txq s) + length (arpq s) + queued (sinks s))"

lemma in_hand_simps [simp]:
  "in_hand (packet_free s) = in_hand s - 1" "in_hand (packet_born s) = in_hand s + 1"
  "in_hand (s\<lparr>tx_count := c\<rparr>) = in_hand s" "in_hand (s\<lparr>rx_count := c\<rparr>) = in_hand s"
  "in_hand (s\<lparr>cache := es\<rparr>) = in_hand s" "in_hand (s\<lparr>card := d\<rparr>) = in_hand s"
  "in_hand (s\<lparr>discard_count := c\<rparr>) = in_hand s" "in_hand (s\<lparr>bad_cksum_count := c\<rparr>) = in_hand s"
  "in_hand (s\<lparr>txq := txq s @ [p]\<rparr>) = in_hand s - 1" "in_hand (s\<lparr>arpq := p # arpq s\<rparr>) = in_hand s - 1"
  "in_hand (s\<lparr>throttle := t\<rparr>) = in_hand s" "in_hand (s\<lparr>conf := cf\<rparr>) = in_hand s"
  by (simp_all add: in_hand_def packet_free_def packet_born_def)

lemma queued_simps [simp]: "queued [] = 0" "queued (k # ks) = length (squeue k) + queued ks"
  by (simp_all add: queued_def)

fun feed :: "('p \<Rightarrow> 's \<Rightarrow> 's option) \<Rightarrow> 'p list \<Rightarrow> 's \<Rightarrow> 's option" where
  "feed f [] s = Some s"
| "feed f (p # ps) s = Option.bind (f p s) (feed f ps)"

locale packet_consumer =
  fixes consume :: "packet \<Rightarrow> 'a net_scheme \<Rightarrow> 'a net_scheme option"
  assumes consumes: "consume p s = Some s' \<Longrightarrow> in_hand s' = in_hand s - 1"
begin

lemma in_hand_feed:
  "feed consume ps s = Some s' \<Longrightarrow> in_hand s' = in_hand s - of_nat (length ps)"
proof (induction ps arbitrary: s)
  case (Cons p ps)
  then obtain t where "consume p s = Some t" "feed consume ps t = Some s'"
    by (auto simp: bind_eq_Some_conv)
  with Cons.IH [of t] consumes [of p s t] show ?case by (simp add: algebra_simps)
qed simp

end

lemma eth_attempt_tx_in_hand:
  "eth_attempt_tx p s = Some (sent, s') \<Longrightarrow> in_hand s' = in_hand s \<and> txq s' = txq s \<and> arpq s' = arpq s \<and>
     sinks s' = sinks s \<and> cache s' = cache s \<and> conf s' = conf s \<and> now s' = now s \<and> net.more s' = net.more s"
  by (auto simp: eth_attempt_tx_def)

lemma net_tx_with_in_hand:
  assumes r: "\<And>p s r p' s'. resolve p s = Some (r, p', s') \<Longrightarrow> in_hand s' = in_hand s"
    and tx: "net_tx_with resolve p s = Some s'"
  shows "in_hand s' = in_hand s - 1"
proof -
  obtain ok where ok: "may_send p = Some ok" using tx by (auto simp: net_tx_with_def bind_eq_Some_conv)
  show ?thesis
  proof (cases ok)
    case False
    with tx ok show ?thesis by (auto simp: net_tx_with_def)
  next
    case True
    let ?s = "s\<lparr>tx_count := tx_count s + 1\<rparr>"
    from tx ok True obtain p2 res p3 t where
      a: "(if pflags p2 AND flag_mac_valid \<noteq> 0 then Some (Arp_okay, p2, ?s) else resolve p2 ?s) = Some (res, p3, t)"
      and b: "(if res = Arp_okay then do { (sent, s) \<leftarrow> eth_attempt_tx p3 t;
          Some (if sent then packet_free s else s\<lparr>txq := txq s @ [p3]\<rparr>) } else Some (t\<lparr>arpq := p3 # arpq t\<rparr>)) = Some s'"
      unfolding net_tx_with_def by (simp add: bind_eq_Some_conv Let_def) blast
    have t: "in_hand t = in_hand s" using a r by (fastforce split: if_splits)
    show ?thesis
    proof (cases "res = Arp_okay")
      case True
      with b obtain sent u where e: "eth_attempt_tx p3 t = Some (sent, u)"
        and u: "s' = (if sent then packet_free u else u\<lparr>txq := txq u @ [p3]\<rparr>)"
        by (auto simp: bind_eq_Some_conv)
      from eth_attempt_tx_in_hand [OF e, THEN conjunct1] t u show ?thesis by auto
    next
      case False
      with b t show ?thesis by auto
    qed
  qed
qed

lemma packet_create_arp_in_hand: "packet_create_arp s = Some (p, s') \<Longrightarrow> s' = packet_born s"
  by (auto simp: packet_create_arp_def bind_eq_Some_conv Let_def)

lemma arp_transmit_query_in_hand:
  assumes "arp_transmit_query ip s = Some s'"
  shows "in_hand s' = in_hand s"
proof -
  let ?s = "s\<lparr>cache := change_entry ip (\<lambda>e. e\<lparr>resolve_attempts := resolve_attempts e + 1,
                                            next_event := set_timer_ms (now s) 500\<rparr>) (cache s)\<rparr>"
  from assms obtain q t q2 where "packet_create_arp ?s = Some (q, t)" "net_tx_with (\<lambda>p s. None) q2 t = Some s'"
    unfolding arp_transmit_query_def by (auto simp: bind_eq_Some_conv Let_def)
  then show ?thesis
    using packet_create_arp_in_hand [of ?s q t] net_tx_with_in_hand [of "\<lambda>p s. None" q2 t s'] by simp
qed

lemma net_arp_resolve_in_hand:
  assumes "net_arp_resolve p s = Some (r, p', s')"
  shows "in_hand s' = in_hand s"
proof -
  obtain b where b: "is_broadcast (conf s) p = Some b"
    using assms by (auto simp: net_arp_resolve_def bind_eq_Some_conv)
  show ?thesis
  proof (cases "b \<or> (\<exists>e. find_entry (nexthop p) (cache s) = Some e \<and>
      (valid e \<or> \<not> timer_expired (now s) (next_event e) \<or> resolve_attempts e \<ge> 10))")
    case True
    with assms b have "s' = s"
      by (auto simp: net_arp_resolve_def bind_eq_Some_conv split: if_splits option.splits)
    then show ?thesis by simp
  next
    case False
    with assms b obtain t where t: "arp_transmit_query (nexthop p) t = Some s'" "in_hand t = in_hand s"
      by (cases "find_entry (nexthop p) (cache s)")
        (auto simp: net_arp_resolve_def bind_eq_Some_conv intro: that)
    from arp_transmit_query_in_hand [OF t(1)] t(2) show ?thesis by simp
  qed
qed

lemma net_tx_in_hand: "net_tx p s = Some s' \<Longrightarrow> in_hand s' = in_hand s - 1"
  unfolding net_tx_def by (rule net_tx_with_in_hand) (auto dest: net_arp_resolve_in_hand)

interpretation tx: packet_consumer net_tx
  by unfold_locales (rule net_tx_in_hand)

lemma deliver_queued: "deliver ip q p ks = Some ks' \<Longrightarrow> queued ks' = queued ks + 1"
  by (induction ks arbitrary: ks') (auto split: if_splits)

text \<open>The three outcomes of the receive pipe.\<close>

lemma net_eth_push_cases:
  assumes "net_eth_push p s = Some s'"
  obtains (drop) "s' = packet_free (s\<lparr>rx_count := rx_count s + 1, discard_count := discard_count s + 1\<rparr>)"
  | (bad) "s' = packet_free (s\<lparr>rx_count := rx_count s + 1, bad_cksum_count := bad_cksum_count s + 1\<rparr>)"
  | (queue) p' q ks where "parse_frame (s\<lparr>rx_count := rx_count s + 1\<rparr>) p = Some (True, p')" "packet_keys p' = Some q"
      "deliver (if_ip (conf s)) q p' (sinks s) = Some ks" "s' = s\<lparr>rx_count := rx_count s + 1, sinks := ks\<rparr>"
proof -
  from assms obtain mac where mac: "rdn p 0 6 = Some mac" by (auto simp: net_eth_push_def Let_def bind_eq_Some_conv)
  show ?thesis
  proof (cases "mac = if_mac (conf s) \<or> mac ! 0 AND 1 \<noteq> 0")
    case False
    with assms mac show ?thesis by (intro drop) (auto simp: net_eth_push_def Let_def)
  next
    case True
    with assms mac obtain ok p' where f: "parse_frame (s\<lparr>rx_count := rx_count s + 1\<rparr>) p = Some (ok, p')"
      by (auto simp: net_eth_push_def Let_def bind_eq_Some_conv)
    show ?thesis
    proof (cases ok)
      case False
      with assms mac True f show ?thesis by (intro bad) (auto simp: net_eth_push_def Let_def)
    next
      case ok: True
      with assms mac True f obtain q where q: "packet_keys p' = Some q"
        by (auto simp: net_eth_push_def Let_def bind_eq_Some_conv)
      show ?thesis
        using assms mac True f ok q drop queue [OF f [unfolded ok [THEN eqTrueI]] q]
        by (auto simp: net_eth_push_def Let_def split: option.splits)
    qed
  qed
qed

lemma net_eth_push_in_hand: "net_eth_push p s = Some s' \<Longrightarrow> in_hand s' = in_hand s - 1"
  by (erule net_eth_push_cases) (auto simp: in_hand_def packet_free_def dest!: deliver_queued)

interpretation push: packet_consumer net_eth_push
  by unfold_locales (rule net_eth_push_in_hand)

lemma arp_reply_in_hand: "arp_reply p s = Some s' \<Longrightarrow> in_hand s' = in_hand s"
  unfolding arp_reply_def
  by (auto simp: bind_eq_Some_conv dest!: packet_create_arp_in_hand net_tx_in_hand)

lemma update_arp_cache_in_hand [simp]: "in_hand (update_arp_cache ip mac add s) = in_hand s"
  by (simp add: update_arp_cache_def Let_def split: option.split)

lemma arp_input_in_hand: "arp_input p a operation s = Some s' \<Longrightarrow> in_hand s' = in_hand s"
  unfolding arp_input_def
  by (auto simp: bind_eq_Some_conv Let_def dest: arp_reply_in_hand split: if_splits)

lemma arp_process_in_hand: "arp_process_packet p s = Some s' \<Longrightarrow> in_hand s' = in_hand s - 1"
  unfolding arp_process_packet_def
  by (auto simp: bind_eq_Some_conv dest: arp_input_in_hand split: if_splits)

interpretation arp: packet_consumer arp_process_packet
  by unfold_locales (rule arp_process_in_hand)

lemma arp_pump_in_hand:
  "arp_pump ps s = Some (kept, s') \<Longrightarrow> in_hand s' - of_nat (length kept) = in_hand s - of_nat (length ps)"
proof (induction ps arbitrary: s kept)
  case (Cons p ps)
  then obtain r q t where r: "net_arp_resolve p s = Some (r, q, t)" by (auto simp: bind_eq_Some_conv)
  note t = net_arp_resolve_in_hand [OF r]
  show ?case
  proof (cases r)
    case Arp_okay
    with Cons.prems r have "arp_pump ps (t\<lparr>txq := txq t @ [q]\<rparr>) = Some (kept, s')" by simp
    from Cons.IH [OF this] t show ?thesis by simp
  next
    case Arp_wait
    with Cons.prems r obtain k where "arp_pump ps t = Some (k, s')" "kept = q # k" by auto
    with Cons.IH [of t k] t show ?thesis by (simp add: algebra_simps)
  next
    case Arp_fail
    with Cons.prems r have "arp_pump ps (packet_free t) = Some (kept, s')" by simp
    from Cons.IH [OF this] t show ?thesis by simp
  qed
qed simp

section \<open>The most specific sink gets the packet\<close>

definition sorted_sinks :: "sink list \<Rightarrow> bool" where
  "sorted_sinks ks \<longleftrightarrow> sorted_wrt (\<lambda>a b. score_sink b \<le> score_sink a) ks"

lemma set_insert_sink: "set (insert_sink k ks) = insert k (set ks)"
  by (induction ks) auto

lemma sorted_insert_sink: "sorted_sinks ks \<Longrightarrow> sorted_sinks (insert_sink k ks)"
  unfolding sorted_sinks_def
  by (induction ks) (auto simp: set_insert_sink)

lemma sorted_add_sink: "sorted_sinks ks \<Longrightarrow> add_sink k ks = Some ks' \<Longrightarrow> sorted_sinks ks'"
  by (auto simp: add_sink_def sorted_insert_sink split: if_splits)

lemma deliver_None: "deliver ip q p ks = None \<longleftrightarrow> (\<forall>k \<in> set ks. \<not> sink_matches ip q k)"
  by (induction ks) auto

definition enqueue :: "packet \<Rightarrow> sink \<Rightarrow> sink" where
  "enqueue p k = k\<lparr>squeue := squeue k @ [p], packets_queued := packets_queued k + 1\<rparr>"

lemma deliver_Some:
  "deliver ip q p ks = Some ks' \<Longrightarrow>
   \<exists>as k bs. ks = as @ k # bs \<and> ks' = as @ enqueue p k # bs \<and> sink_matches ip q k \<and>
     (\<forall>a \<in> set as. \<not> sink_matches ip q a)"
proof (induction ks arbitrary: ks')
  case (Cons k ks)
  show ?case
  proof (cases "sink_matches ip q k")
    case True
    with Cons.prems have "k # ks = [] @ k # ks \<and> ks' = [] @ enqueue p k # ks" by (simp add: enqueue_def)
    with True show ?thesis by (metis empty_iff list.set(1))
  next
    case False
    with Cons obtain as j bs where "ks = as @ j # bs" "ks' = k # as @ enqueue p j # bs"
      "sink_matches ip q j" "\<forall>a \<in> set as. \<not> sink_matches ip q a"
      by (auto split: if_splits)
    then have "k # ks = (k # as) @ j # bs \<and> ks' = (k # as) @ enqueue p j # bs \<and> sink_matches ip q j \<and>
        (\<forall>a \<in> set (k # as). \<not> sink_matches ip q a)" using False by simp
    then show ?thesis by blast
  qed
qed simp

lemma score_enqueue [simp]: "score_sink (enqueue p k) = score_sink k"
  by (simp add: score_sink_def enqueue_def)

section \<open>A concrete network\<close>

text \<open>Interface 10.0.0.1/24 with no card in the machine (frames stay queued), the ARP sink registered.\<close>

definition sample_net :: net where
  "sample_net = \<lparr>conf = \<lparr>if_mac = [2, 0, 0, 0, 0, 1], if_ip = 0x0A000001, if_mask = 0xFFFFFF00,
       if_gateway = 0x0A0000FE, if_dns = 0x0A0000FD\<rparr>,
     sinks = [arp_sink 0 1], txq = [], arpq = [], cache = [], throttle = 0, alive = 0, discard_count = 0,
     bad_cksum_count = 0, rx_count = 0, tx_count = 0, card = idle_card\<lparr>base := 0\<rparr>, now = 1000,
     junk = \<lambda>i. 0, low_memory = \<lambda>a. 0\<rparr>"

definition sample_frame :: packet where
  "sample_frame = (packet_alloc (\<lambda>i. 0) 42)\<lparr>pbuf :=
     [0xFF, 0xFF, 0xFF, 0xFF, 0xFF, 0xFF, 2, 0, 0, 0, 0, 2, 8, 6, 0, 1, 8, 0, 6, 4, 0, 1,
      2, 0, 0, 0, 0, 2, 10, 0, 0, 2, 0, 0, 0, 0, 0, 0, 10, 0, 0, 1]\<rparr>"

definition sample_request :: packet where
  "sample_request = sample_frame\<lparr>parp := Some 14\<rparr>"

lemma sample_push:
  "\<exists>s'. net_eth_push sample_frame sample_net = Some s' \<and> map squeue (sinks s') = [[sample_request]]"
  by (simp add: net_eth_push_def sample_frame_def sample_net_def sample_request_def rdn_def parse_frame_def
      ethertype_def rd16_def rd8_def be16_def net_consts packet_keys_def packet_alloc_def arp_sink_def
      packet_sink_alloc_def sink_matches_def idle_card_def)

text \<open>A received packet goes to the most specific sink. With the sinks in the order
  \<open>net_add_packet_sink\<close> keeps (which every registration preserves), the receive pipe either drops the
  packet, counting it, or appends it to the queue of a sink that matches it and whose score no other
  matching sink exceeds, leaving every other sink as it was; the order is kept.\<close>

theorem most_specific_sink:
  assumes "sorted_sinks (sinks s)" "net_eth_push p s = Some s'"
  shows "sorted_sinks (sinks s') \<and>
    (net_add_packet_sink new s' = Some s2 \<longrightarrow> sorted_sinks (sinks s2)) \<and>
    (sinks s' = sinks s \<and> alive s' = alive s - 1 \<and>
       discard_count s' + bad_cksum_count s' = discard_count s + bad_cksum_count s + 1 \<or>
     (\<exists>p' q as k bs. parse_frame (s\<lparr>rx_count := rx_count s + 1\<rparr>) p = Some (True, p') \<and> packet_keys p' = Some q \<and>
        sinks s = as @ k # bs \<and> sinks s' = as @ enqueue p' k # bs \<and> sink_matches (if_ip (conf s)) q k \<and>
        (\<forall>j \<in> set (sinks s). sink_matches (if_ip (conf s)) q j \<longrightarrow> score_sink j \<le> score_sink k)))"
proof -
  have add: "sorted_sinks (sinks s') \<Longrightarrow> net_add_packet_sink new s' = Some s2 \<Longrightarrow> sorted_sinks (sinks s2)"
    using sorted_add_sink [of "sinks s'" new] by (auto simp: net_add_packet_sink_def)
  show ?thesis
    using assms(2)
  proof (cases rule: net_eth_push_cases)
    case drop
    then show ?thesis using assms(1) add by (simp add: packet_free_def)
  next
    case bad
    then show ?thesis using assms(1) add by (simp add: packet_free_def)
  next
    case (queue p' q ks)
    from deliver_Some [OF queue(3)] obtain as k bs where d: "sinks s = as @ k # bs" "ks = as @ enqueue p' k # bs"
      "sink_matches (if_ip (conf s)) q k" "\<forall>a \<in> set as. \<not> sink_matches (if_ip (conf s)) q a" by blast
    have "\<forall>j \<in> set (sinks s). sink_matches (if_ip (conf s)) q j \<longrightarrow> score_sink j \<le> score_sink k"
      using assms(1) d(1,4) by (auto simp: sorted_sinks_def sorted_wrt_append)
    moreover have "sorted_sinks (sinks s')"
      using assms(1) d(1,2) queue(4) by (auto simp: sorted_sinks_def sorted_wrt_append)
    ultimately show ?thesis using queue(1,2,4) d add by auto
  qed
qed

theorem most_specific_sink_witness:
  "\<exists>s'. net_eth_push sample_frame sample_net = Some s' \<and> sorted_sinks (sinks s') \<and>
     map squeue (sinks s') = [[sample_request]]"
proof -
  from sample_push obtain s' where s': "net_eth_push sample_frame sample_net = Some s'"
    "map squeue (sinks s') = [[sample_request]]" by (elim exE conjE)
  have "sorted_sinks (sinks sample_net)" by (simp add: sorted_sinks_def sample_net_def)
  from most_specific_sink [OF this s'(1), THEN conjunct1] s' show ?thesis by (intro exI conjI)
qed

end
