(* ===== verification/Arp.thy ===== *)
theory Arp
  imports Net
begin

text \<open>
  What the ARP code of theory \<open>Net\<close> (\<^verbatim>\<open>net/arp.c\<close>) achieves: the frames it sends, the address cache as a
  lookup table, the cases of \<open>net_arp_resolve\<close>, and the fate of the packets that wait for an address.
\<close>

lemma arp_upts:
  "[0..<42] = [0,1,2,3,4,5,6,7,8,9,10,11,12,13,14,15,16,17,18,19,20,21,22,23,24,25,26,27,28,29,30,31,32,33,34,35,36,37,38,39,40,41]"
  "[0..<6] = [0,1,2,3,4,5]" "[32..<42] = [32,33,34,35,36,37,38,39,40,41]"
  by (simp_all add: upt_rec)

lemma wr_bytes:
  "i + length bs \<le> length (pbuf p) \<Longrightarrow>
   wr p i bs = Some (p\<lparr>pbuf := take i (pbuf p) @ bs @ drop (i + length bs) (pbuf p)\<rparr>)"
  by (simp add: wr_def)

lemma rdn_bytes: "i + n \<le> length (pbuf p) \<Longrightarrow> rdn p i n = Some (take n (drop i (pbuf p)))"
  by (simp add: rdn_def)

lemma packet_create_arp_bytes:
  assumes "if_mac (conf s) = [m0, m1, m2, m3, m4, m5]"
  shows "packet_create_arp s = Some ((packet_alloc (junk s) 42)\<lparr>parp := Some 14,
     pbuf := map (junk s) [0..<6] @ [m0, m1, m2, m3, m4, m5, 8, 6, 0, 1, 8, 0, 6, 4, junk s 20, junk s 21,
       m0, m1, m2, m3, m4, m5] @ bytes32 (if_ip (conf s)) @ map (junk s) [32..<42]\<rparr>, packet_born s)"
  unfolding packet_create_arp_def Let_def assms arp_upts
  by (simp add: packet_alloc_def wr_bytes wr16_def wr8_def wr32_def bytes16_def bytes32_def net_consts arp_upts)

lemma replicate6: "replicate 6 x = [x, x, x, x, x, x]"
  by (simp add: numeral_eq_Suc)

text \<open>An ARP frame on the wire.\<close>

definition arp_frame :: "u8 list \<Rightarrow> u8 list \<Rightarrow> u16 \<Rightarrow> u8 list \<Rightarrow> u32 \<Rightarrow> u8 list \<Rightarrow> u32 \<Rightarrow> u8 list" where
  "arp_frame dst src operation sender_mac sender_ip target_mac target_ip =
     dst @ src @ [8, 6, 0, 1, 8, 0, 6, 4] @ bytes16 operation @
     sender_mac @ bytes32 sender_ip @ target_mac @ bytes32 target_ip"

lemma query_bytes:
  assumes m: "if_mac (conf s) = [m0, m1, m2, m3, m4, m5]"
  shows "do { (q, s) \<leftarrow> packet_create_arp s;
     q \<leftarrow> wr16 q (14 + 6) 1;
     q \<leftarrow> wr32 q (14 + 24) ip;
     q \<leftarrow> wr q (14 + 18) (replicate 6 0);
     q \<leftarrow> packet_set_destination_mac q broadcast_macaddr;
     f q s } =
     f ((packet_alloc (junk s) 42)\<lparr>parp := Some 14, pflags := flag_mac_valid,
         pbuf := arp_frame broadcast_macaddr (if_mac (conf s)) 1 (if_mac (conf s)) (if_ip (conf s)) (replicate 6 0) ip\<rparr>)
       (packet_born s)"
  unfolding packet_create_arp_bytes [OF m] arp_upts
  by (simp add: packet_alloc_def packet_set_destination_mac_def wr_bytes wr16_def wr32_def bytes16_def
      bytes32_def net_consts arp_frame_def m replicate6)

lemma reply_bytes:
  assumes m: "if_mac (conf s) = [m0, m1, m2, m3, m4, m5]"
    and p: "parp p = Some a" "rd32 p (a + 14) = Some sip" "rdn p (a + 8) 6 = Some [n0, n1, n2, n3, n4, n5]"
  shows "arp_reply p s =
     net_tx ((packet_alloc (junk s) 42)\<lparr>parp := Some 14, pflags := flag_mac_valid,
         pbuf := arp_frame [n0, n1, n2, n3, n4, n5] (if_mac (conf s)) 2 (if_mac (conf s)) (if_ip (conf s))
            [n0, n1, n2, n3, n4, n5] sip\<rparr>)
       (packet_born s)"
  unfolding arp_reply_def packet_create_arp_bytes [OF m] arp_upts p
  by (simp add: p packet_alloc_def packet_set_destination_mac_def wr_bytes wr16_def wr32_def bytes16_def
      bytes32_def rdn_bytes net_consts arp_frame_def m replicate6)

section \<open>What a transmission does\<close>

text \<open>A frame leaves the network core: the card takes it, or it is appended to the transmit queue.\<close>

definition handed_over :: "packet \<Rightarrow> 'a net_scheme \<Rightarrow> 'a net_scheme \<Rightarrow> bool" where
  "handed_over p s s' \<longleftrightarrow> (\<exists>sent c. eth_tx (fst (wire p)) (snd (wire p)) (card s) = Some (sent, c) \<and>
     s' = (if sent then packet_free (s\<lparr>tx_count := tx_count s + 1, card := c\<rparr>)
           else s\<lparr>tx_count := tx_count s + 1, card := c, txq := txq s @ [p]\<rparr>))"

lemma net_tx_with_ready:
  assumes "may_send p = Some True" "compute_checksums p = Some p2" "net_ipv4_route s p2 = Some p3"
    and "pflags p3 AND flag_mac_valid \<noteq> 0" "net_tx_with resolve p s = Some s'"
  shows "handed_over p3 s s'"
proof -
  have r: "net_ipv4_route (s\<lparr>tx_count := tx_count s + 1\<rparr>) p2 = net_ipv4_route s p2"
    by (simp add: net_ipv4_route_def split: option.split cong: if_cong)
  from assms obtain sent u where e: "eth_attempt_tx p3 (s\<lparr>tx_count := tx_count s + 1\<rparr>) = Some (sent, u)"
    and s': "s' = (if sent then packet_free u else u\<lparr>txq := txq u @ [p3]\<rparr>)"
    by (auto simp: net_tx_with_def bind_eq_Some_conv Let_def r)
  from e obtain c where "eth_tx (fst (wire p3)) (snd (wire p3)) (card s) = Some (sent, c)"
    "u = s\<lparr>tx_count := tx_count s + 1, card := c\<rparr>" by (auto simp: eth_attempt_tx_def)
  with s' show ?thesis unfolding handed_over_def by (intro exI [of _ sent] exI [of _ c]) simp
qed

lemma arp_frame_tx:
  assumes "pipv4 p = None" "pbuf p = arp_frame d m op sm si tm ti" "length d = 6" "length m = 6"
    and "pflags p = flag_mac_valid" "net_tx_with resolve p s = Some s'"
  shows "handed_over p s s'"
proof -
  have "ethertype p = Some 0x0806"
    using assms(2-4)
    by (simp add: ethertype_def rd16_def rd8_def arp_frame_def nth_append be16_def)
  then show ?thesis
    using net_tx_with_ready [OF _ _ _ _ assms(6)] assms(1,5)
    by (simp add: may_send_def compute_checksums_def net_consts net_ipv4_route_def)
qed

section \<open>The cache as a table\<close>

definition cached_mac :: "'a net_scheme \<Rightarrow> u32 \<Rightarrow> u8 list option" where
  "cached_mac s ip =
     (case find_entry ip (cache s) of Some e \<Rightarrow> if valid e then Some (mac_address e) else None | None \<Rightarrow> None)"

lemma find_change_entry:
  assumes "\<And>e. ipv4_address e = ip \<Longrightarrow> ipv4_address (f e) = ip"
  shows "find_entry j (change_entry ip f es) = (if j = ip then map_option f (find_entry j es) else find_entry j es)"
  by (induction es) (auto simp: assms)

lemma cached_update:
  "cached_mac (update_arp_cache ip mac add s) j =
     (if j = ip \<and> (add \<or> find_entry ip (cache s) \<noteq> None) then Some mac else cached_mac s j)"
  by (auto simp: update_arp_cache_def Let_def cached_mac_def find_change_entry split: option.split)

interpretation arp_table: table cached_mac "\<lambda>s ip mac. update_arp_cache ip mac True s"
  by unfold_locales (simp_all add: cached_update)

section \<open>The cases of address resolution\<close>

definition start_query :: "u32 \<Rightarrow> u32 \<Rightarrow> arp_cache_entry list \<Rightarrow> arp_cache_entry list" where
  "start_query tm ip es =
     change_entry ip (\<lambda>e. e\<lparr>resolve_attempts := resolve_attempts e + 1, next_event := set_timer_ms tm 500\<rparr>) es"

lemma arp_transmit_query_effect:
  assumes q: "arp_transmit_query ip s = Some s'" and m: "length (if_mac (conf s)) = 6"
  shows "\<exists>r. handed_over r (packet_born (s\<lparr>cache := start_query (now s) ip (cache s)\<rparr>)) s' \<and>
     pbuf r = arp_frame broadcast_macaddr (if_mac (conf s)) 1 (if_mac (conf s)) (if_ip (conf s)) (replicate 6 0) ip \<and>
     buffer_length r = 42"
proof -
  obtain m0 m1 m2 m3 m4 m5 where mac: "if_mac (conf s) = [m0, m1, m2, m3, m4, m5]"
    using m by (auto simp: length_Suc_conv numeral_eq_Suc)
  let ?s = "s\<lparr>cache := start_query (now s) ip (cache s)\<rparr>"
  have mac': "if_mac (conf ?s) = [m0, m1, m2, m3, m4, m5]" using mac by simp
  let ?q = "(packet_alloc (junk ?s) 42)\<lparr>parp := Some 14, pflags := flag_mac_valid,
         pbuf := arp_frame broadcast_macaddr (if_mac (conf ?s)) 1 (if_mac (conf ?s)) (if_ip (conf ?s)) (replicate 6 0) ip\<rparr>"
  have "net_tx_with (\<lambda>p s. None) ?q (packet_born ?s) = Some s'"
    using q query_bytes [OF mac', of ip "net_tx_with (\<lambda>p s. None)"]
    unfolding arp_transmit_query_def Let_def start_query_def [symmetric] by simp
  then have "handed_over ?q (packet_born ?s) s'"
    by (rule arp_frame_tx [rotated 5]) (simp add: packet_alloc_def net_consts m)+
  then show ?thesis by (intro exI [of _ ?q]) (simp add: packet_alloc_def)
qed

lemma handed_over_keeps:
  "handed_over p s s' \<Longrightarrow> cache s' = cache s \<and> conf s' = conf s \<and> now s' = now s \<and> arpq s' = arpq s \<and>
     sinks s' = sinks s \<and> (txq s' = txq s \<or> txq s' = txq s @ [p])"
  by (auto simp: handed_over_def packet_free_def split: if_splits)

lemma query_keeps:
  assumes "arp_transmit_query ip s = Some s'" "length (if_mac (conf s)) = 6"
  shows "cache s' = start_query (now s) ip (cache s) \<and> conf s' = conf s \<and> now s' = now s \<and> arpq s' = arpq s \<and>
     sinks s' = sinks s \<and> (\<exists>qs. txq s' = txq s @ qs)"
  using arp_transmit_query_effect [OF assms] handed_over_keeps
  by (fastforce simp: packet_born_def)

lemma net_arp_resolve_cases:
  assumes "net_arp_resolve p s = Some (r, p', s')"
  obtains (broadcast) "is_broadcast (conf s) p = Some True" "r = Arp_okay" "s' = s"
      "packet_set_destination_mac p broadcast_macaddr = Some p'"
  | (hit) mac where "is_broadcast (conf s) p = Some False" "cached_mac s (nexthop p) = Some mac"
      "r = Arp_okay" "s' = s" "packet_set_destination_mac p mac = Some p'"
  | (fail) e where "is_broadcast (conf s) p = Some False" "find_entry (nexthop p) (cache s) = Some e" "\<not> valid e"
      "timer_expired (now s) (next_event e)" "resolve_attempts e \<ge> 10" "r = Arp_fail" "p' = p" "s' = s"
  | (wait) e where "is_broadcast (conf s) p = Some False" "find_entry (nexthop p) (cache s) = Some e" "\<not> valid e"
      "\<not> timer_expired (now s) (next_event e)" "r = Arp_wait" "p' = p" "s' = s"
  | (retry) e where "is_broadcast (conf s) p = Some False" "find_entry (nexthop p) (cache s) = Some e" "\<not> valid e"
      "timer_expired (now s) (next_event e)" "resolve_attempts e < 10" "r = Arp_wait" "p' = p"
      "arp_transmit_query (nexthop p) s = Some s'"
  | (start) "is_broadcast (conf s) p = Some False" "find_entry (nexthop p) (cache s) = None" "r = Arp_wait" "p' = p"
      "arp_transmit_query (nexthop p) (s\<lparr>cache := \<lparr>ipv4_address = nexthop p, mac_address = replicate 6 0,
         valid = False, resolve_attempts = 0, next_event = 0\<rparr> # cache s\<rparr>) = Some s'"
proof -
  obtain b where b: "is_broadcast (conf s) p = Some b"
    using assms by (auto simp: net_arp_resolve_def bind_eq_Some_conv)
  show ?thesis
  proof (cases b)
    case True
    with assms b show ?thesis by (intro broadcast) (auto simp: net_arp_resolve_def bind_eq_Some_conv)
  next
    case nb: False
    show ?thesis
    proof (cases "find_entry (nexthop p) (cache s)")
      case None
      with assms b nb show ?thesis by (intro start) (auto simp: net_arp_resolve_def bind_eq_Some_conv)
    next
      case e: (Some e)
      consider "valid e" | "\<not> valid e" "\<not> timer_expired (now s) (next_event e)"
        | "\<not> valid e" "timer_expired (now s) (next_event e)" "resolve_attempts e \<ge> 10"
        | "\<not> valid e" "timer_expired (now s) (next_event e)" "resolve_attempts e < 10" by linarith
      then show ?thesis
      proof cases
        case 1
        with assms b nb e show ?thesis
          by (intro hit [of "mac_address e"]) (auto simp: net_arp_resolve_def cached_mac_def bind_eq_Some_conv)
      next
        case 2
        with assms b nb e show ?thesis by (intro wait) (auto simp: net_arp_resolve_def)
      next
        case 3
        with assms b nb e show ?thesis by (intro fail) (auto simp: net_arp_resolve_def)
      next
        case 4
        with assms b nb e show ?thesis by (intro retry) (auto simp: net_arp_resolve_def bind_eq_Some_conv)
      qed
    qed
  qed
qed

lemma find_start_query:
  "find_entry j (start_query tm ip es) = (if j = ip
     then map_option (\<lambda>e. e\<lparr>resolve_attempts := resolve_attempts e + 1, next_event := set_timer_ms tm 500\<rparr>) (find_entry j es)
     else find_entry j es)"
  unfolding start_query_def by (rule find_change_entry) simp

lemma query_timer_runs: "\<not> timer_expired tm (set_timer_ms tm 500)"
proof -
  have "set_timer_ms tm 500 = set_timer_ticks tm 100" by (simp add: set_timer_ms_def TIMER_MS_PER_TICK_def)
  then show ?thesis using expiry [of 0 tm 100] by simp
qed

text \<open>A packet stays in the list of packets waiting for an address.\<close>

definition stays :: "'a net_scheme \<Rightarrow> packet \<Rightarrow> bool" where
  "stays s q \<longleftrightarrow> is_broadcast (conf s) q = Some False \<and> cached_mac s (nexthop q) = None \<and>
     (\<forall>e. find_entry (nexthop q) (cache s) = Some e \<longrightarrow>
        \<not> (timer_expired (now s) (next_event e) \<and> resolve_attempts e \<ge> 10))"

lemma resolve_wait:
  assumes r: "net_arp_resolve p s = Some (Arp_wait, p', s')" and m: "length (if_mac (conf s)) = 6"
  shows "p' = p \<and> stays s p \<and> (\<forall>q. stays s' q = stays s q) \<and> cached_mac s' = cached_mac s \<and>
    conf s' = conf s \<and> now s' = now s \<and> arpq s' = arpq s \<and> sinks s' = sinks s \<and> (\<exists>qs. txq s' = txq s @ qs)"
proof -
  have query: "?thesis" if q: "arp_transmit_query (nexthop p) t = Some s'" and b: "is_broadcast (conf s) p = Some False"
    and f: "find_entry (nexthop p) (cache t) = Some e" "\<not> valid e" "resolve_attempts e < 10"
    and o: "\<And>j. j \<noteq> nexthop p \<Longrightarrow> find_entry j (cache t) = find_entry j (cache s)"
    and i: "\<And>d. find_entry (nexthop p) (cache s) = Some d \<Longrightarrow> \<not> valid d \<and> resolve_attempts d < 10"
    and t: "conf t = conf s" "now t = now s" "arpq t = arpq s" "sinks t = sinks s" "txq t = txq s" and "p' = p" for t e
  proof -
    note k = query_keeps [OF q] 
    have k: "cache s' = start_query (now s) (nexthop p) (cache t)" "conf s' = conf s" "now s' = now s"
      "arpq s' = arpq s" "sinks s' = sinks s" "\<exists>qs. txq s' = txq s @ qs"
      using k t m by auto
    have c: "find_entry j (cache s') = (if j = nexthop p
        then Some (e\<lparr>resolve_attempts := resolve_attempts e + 1, next_event := set_timer_ms (now s) 500\<rparr>)
        else find_entry j (cache s))" for j
      using f(1) o unfolding k(1) find_start_query by auto
    have "cached_mac s' j = cached_mac s j" for j
      using c f(2) i by (auto simp: cached_mac_def split: option.split)
    moreover have "stays s' q = stays s q" for q
      using c [of "nexthop q"] calculation [of "nexthop q"] i query_timer_runs k(2,3) by (auto simp: stays_def)
    moreover have "stays s p" using b i by (auto simp: stays_def cached_mac_def split: option.split)
    ultimately show ?thesis using k \<open>p' = p\<close> by auto
  qed
  from r show ?thesis
  proof (cases rule: net_arp_resolve_cases)
    case (wait e)
    then have "stays s p" by (simp add: stays_def cached_mac_def)
    with wait show ?thesis by simp
  next
    case (retry e)
    from query [OF retry(8) retry(1,2,3,5)] retry show ?thesis by simp
  next
    case start
    from query [OF start(5,1)] start show ?thesis by simp
  qed simp_all
qed

definition agrees :: "'a net_scheme \<Rightarrow> 'a net_scheme \<Rightarrow> bool" where
  "agrees s t \<longleftrightarrow> stays t = stays s \<and> cached_mac t = cached_mac s \<and> conf t = conf s"

lemma txq_packet_free [simp]: "txq (packet_free t) = txq t"
  by (simp add: packet_free_def)

lemma agrees_upd [simp]: "agrees s (t\<lparr>txq := x\<rparr>) = agrees s t" "agrees s (packet_free t) = agrees s t"
proof -
  have "stays (t\<lparr>txq := x\<rparr>) = stays t" "stays (packet_free t) = stays t"
    "cached_mac (t\<lparr>txq := x\<rparr>) = cached_mac t" "cached_mac (packet_free t) = cached_mac t"
    by (auto simp: stays_def cached_mac_def packet_free_def fun_eq_iff)
  then show "agrees s (t\<lparr>txq := x\<rparr>) = agrees s t" "agrees s (packet_free t) = agrees s t"
    by (simp_all add: agrees_def packet_free_def)
qed

definition given_up :: "'a net_scheme \<Rightarrow> packet \<Rightarrow> bool" where
  "given_up s q \<longleftrightarrow> (\<exists>e. find_entry (nexthop q) (cache s) = Some e \<and> \<not> valid e \<and> resolve_attempts e \<ge> 10)"

definition ready_in :: "'a net_scheme \<Rightarrow> packet \<Rightarrow> packet list \<Rightarrow> bool" where
  "ready_in s q qs \<longleftrightarrow> (\<exists>mac q'. packet_set_destination_mac q mac = Some q' \<and> q' \<in> set qs \<and>
     (mac = broadcast_macaddr \<or> cached_mac s (nexthop q) = Some mac))"

lemma arp_pump_effect:
  assumes m: "length (if_mac (conf s)) = 6"
  shows "arp_pump ps t = Some (kept, s') \<Longrightarrow> agrees s t \<Longrightarrow>
   kept = filter (stays s) ps \<and> (\<exists>qs. txq s' = txq t @ qs) \<and>
   (\<forall>q \<in> set ps. \<not> stays s q \<longrightarrow> given_up s q \<or> ready_in s q (txq s'))"
proof (induction ps arbitrary: t kept)
  case (Cons q ps)
  then obtain r q' u where r: "net_arp_resolve q t = Some (r, q', u)" by (auto simp: bind_eq_Some_conv)
  have a: "stays t = stays s" "cached_mac t = cached_mac s" "conf t = conf s"
    using Cons.prems(2) by (simp_all add: agrees_def)
  show ?case
  proof (cases r)
    case Arp_wait
    from resolve_wait [OF r [unfolded Arp_wait]] m a
    have w: "q' = q" "stays s q" "agrees s u" "\<exists>qs. txq u = txq t @ qs"
      by (auto simp: agrees_def fun_eq_iff)
    from Cons.prems(1) r Arp_wait obtain k where "arp_pump ps u = Some (k, s')" "kept = q # k" using w(1) by auto
    with Cons.IH [of u k] w show ?thesis by auto
  next
    case Arp_okay
    with Cons.prems(1) r have pu: "arp_pump ps (u\<lparr>txq := txq u @ [q']\<rparr>) = Some (kept, s')" by simp
    from r Arp_okay obtain mac where o: "u = t" "packet_set_destination_mac q mac = Some q'" "\<not> stays t q"
      "mac = broadcast_macaddr \<or> cached_mac t (nexthop q) = Some mac"
      by (cases rule: net_arp_resolve_cases) (auto simp: stays_def)
    from Cons.IH [OF pu] Cons.prems(2) o(1) have
      i: "kept = filter (stays s) ps" "\<exists>qs. txq s' = txq t @ [q'] @ qs"
        "\<forall>q \<in> set ps. \<not> stays s q \<longrightarrow> given_up s q \<or> ready_in s q (txq s')" by auto
    then have "q' \<in> set (txq s')" by auto
    then have "ready_in s q (txq s')" using o(2,4) a(2) by (auto simp: ready_in_def)
    then show ?thesis using i o(3) a(1) by auto
  next
    case Arp_fail
    with Cons.prems(1) r have pu: "arp_pump ps (packet_free u) = Some (kept, s')" by simp
    from r Arp_fail obtain e where f: "u = t" "is_broadcast (conf t) q = Some False"
      "find_entry (nexthop q) (cache t) = Some e" "\<not> valid e" "timer_expired (now t) (next_event e)" "resolve_attempts e \<ge> 10"
      by (cases rule: net_arp_resolve_cases) auto
    then have n: "\<not> stays s q" "cached_mac s (nexthop q) = None" "is_broadcast (conf s) q = Some False"
      using a by (auto simp: stays_def cached_mac_def simp flip: a(1,2))
    then have "given_up s q"
      by (auto simp: stays_def given_up_def cached_mac_def split: option.splits if_splits)
    moreover from Cons.IH [OF pu] Cons.prems(2) f(1) have
      "kept = filter (stays s) ps" "\<exists>qs. txq s' = txq t @ qs"
      "\<forall>q \<in> set ps. \<not> stays s q \<longrightarrow> given_up s q \<or> ready_in s q (txq s')" by auto
    ultimately show ?thesis using n(1) by auto
  qed
qed auto

text \<open>C27. The packets waiting for an address. When the resolver pump has run, exactly the packets whose
  address is still being resolved are left waiting, in their order; every other one has either been
  given up (its address could not be resolved in ten requests) or is in the transmit queue, carrying the
  broadcast address or the hardware address cached for its next hop; and what was in the transmit queue
  before is still at its front.\<close>

theorem pump_releases_resolved:
  assumes p: "net_arp_resolver_pump s = Some s'" and m: "length (if_mac (conf s)) = 6"
  shows "arpq s' = filter (stays s) (arpq s) \<and> (\<exists>qs. txq s' = txq s @ qs) \<and>
    (\<forall>q \<in> set (arpq s). \<not> stays s q \<longrightarrow>
       given_up s q \<or> ready_in s q (txq s'))"
proof -
  from p obtain kept t where t: "arp_pump (arpq s) s = Some (kept, t)" "s' = t\<lparr>arpq := kept\<rparr>"
    by (auto simp: net_arp_resolver_pump_def)
  have "agrees s s" by (simp add: agrees_def)
  from arp_pump_effect [OF m t(1) this] t(2) show ?thesis by simp
qed

section \<open>Answering and learning\<close>

definition arp_packet :: "packet \<Rightarrow> u16 \<Rightarrow> u32 \<Rightarrow> u8 list \<Rightarrow> u32 \<Rightarrow> bool" where
  "arp_packet p operation sender_ip sender_mac target_ip \<longleftrightarrow> (\<exists>a. parp p = Some a \<and> rd16 p a = Some 1 \<and>
     rd16 p (a + 2) = Some 0x800 \<and> rd8 p (a + 4) = Some 6 \<and> rd8 p (a + 5) = Some 4 \<and>
     rd16 p (a + 6) = Some operation \<and> rd32 p (a + 14) = Some sender_ip \<and>
     rdn p (a + 8) 6 = Some sender_mac \<and> rd32 p (a + 24) = Some target_ip)"

text \<open>C26. Answering ARP. A request for the interface's own address is answered with one frame, sent
  to the requester's hardware address: an ARP reply from our hardware and protocol address to the
  requester's, and the requester is in the address cache afterwards; any other request or reply is not
  answered and only refreshes an address the cache already holds. In every case the cached addresses of
  the other hosts are unchanged, and a later packet to a cached address that is no broadcast gets that
  hardware address at once.\<close>

theorem arp_answers_and_learns:
  assumes "arp_process_packet p s = Some s'" "arp_packet p operation sip smac tip"
    and "operation = 1 \<or> operation = 2" "length (if_mac (conf s)) = 6"
  shows "(if operation = 1 \<and> if_ip (conf s) \<noteq> 0 \<and> tip = if_ip (conf s)
      then \<exists>r t. handed_over r (packet_born s) t \<and> buffer_length r = 42 \<and>
         pbuf r = arp_frame smac (if_mac (conf s)) 2 (if_mac (conf s)) (if_ip (conf s)) smac sip \<and>
         s' = packet_free (update_arp_cache sip smac True t) \<and> cached_mac s' sip = Some smac
      else s' = packet_free (update_arp_cache sip smac False s) \<and>
         cached_mac s' sip = (if find_entry sip (cache s) = None then None else Some smac)) \<and>
    (\<forall>ip. ip \<noteq> sip \<longrightarrow> cached_mac s' ip = cached_mac s ip) \<and>
    (\<forall>q mac. is_broadcast (conf s') q = Some False \<longrightarrow> cached_mac s' (nexthop q) = Some mac \<longrightarrow>
       net_arp_resolve q s' = map_option (\<lambda>q'. (Arp_okay, q', s')) (packet_set_destination_mac q mac))"
proof -
  obtain a where a: "parp p = Some a" "rd32 p (a + 14) = Some sip" "rdn p (a + 8) 6 = Some smac"
    "rd32 p (a + 24) = Some tip" and i: "arp_process_packet p s = map_option packet_free (arp_input p a operation s)"
    using assms(2,3) by (auto simp: arp_packet_def arp_process_packet_def map_conv_bind_option comp_def)
  from assms(1) i obtain u where u: "arp_input p a operation s = Some u" and s': "s' = packet_free u"
    using that by (cases "arp_input p a operation s") auto
  let ?us = "operation = 1 \<and> if_ip (conf s) \<noteq> 0 \<and> tip = if_ip (conf s)"
  have free: "cached_mac (packet_free t) = cached_mac t" "cached_mac (packet_born t) = cached_mac t" for t :: "'a net_scheme"
    by (simp_all add: fun_eq_iff cached_mac_def packet_free_def packet_born_def)
  have hit: "net_arp_resolve q s' = map_option (\<lambda>q'. (Arp_okay, q', s')) (packet_set_destination_mac q mac)"
    if "is_broadcast (conf s') q = Some False" "cached_mac s' (nexthop q) = Some mac" for q mac
    using that by (auto simp: net_arp_resolve_def cached_mac_def map_conv_bind_option comp_def split: option.splits if_splits)
  show ?thesis
  proof (cases ?us)
    case True
    have "length smac = 6" using a(3) by (auto simp: rdn_def split: if_splits)
    then obtain n0 n1 n2 n3 n4 n5 where n: "smac = [n0, n1, n2, n3, n4, n5]"
      by (auto simp: length_Suc_conv numeral_eq_Suc)
    obtain m0 m1 m2 m3 m4 m5 where m: "if_mac (conf s) = [m0, m1, m2, m3, m4, m5]"
      using assms(4) by (auto simp: length_Suc_conv numeral_eq_Suc)
    from u a True obtain t where t: "arp_reply p s = Some t" "u = update_arp_cache sip smac True t"
      by (auto simp: arp_input_def bind_eq_Some_conv)
    let ?r = "(packet_alloc (junk s) 42)\<lparr>parp := Some 14, pflags := flag_mac_valid,
         pbuf := arp_frame smac (if_mac (conf s)) 2 (if_mac (conf s)) (if_ip (conf s)) smac sip\<rparr>"
    have "net_tx_with net_arp_resolve ?r (packet_born s) = Some t"
      using t(1) reply_bytes [OF m a(1,2)] a(3) n by (simp add: net_tx_def)
    then have h: "handed_over ?r (packet_born s) t"
      by (rule arp_frame_tx [rotated 5]) (simp add: packet_alloc_def \<open>length smac = 6\<close> assms(4))+
    have k: "cached_mac t = cached_mac s"
      using handed_over_keeps [OF h] by (simp add: fun_eq_iff cached_mac_def packet_born_def)
    have "\<exists>r t. handed_over r (packet_born s) t \<and> buffer_length r = 42 \<and>
         pbuf r = arp_frame smac (if_mac (conf s)) 2 (if_mac (conf s)) (if_ip (conf s)) smac sip \<and>
         s' = packet_free (update_arp_cache sip smac True t) \<and> cached_mac s' sip = Some smac"
      using h t(2) s' by (intro exI [of _ ?r] exI [of _ t]) (simp add: free cached_update packet_alloc_def)
    moreover have "\<forall>ip. ip \<noteq> sip \<longrightarrow> cached_mac s' ip = cached_mac s ip"
      using t(2) s' k by (simp add: free cached_update)
    ultimately show ?thesis using True hit by simp
  next
    case False
    with u a have t: "u = update_arp_cache sip smac False s"
      by (auto simp: arp_input_def bind_eq_Some_conv)
    have "find_entry sip (cache s) = None \<Longrightarrow> cached_mac s sip = None" by (simp add: cached_mac_def)
    with t s' have "cached_mac s' sip = (if find_entry sip (cache s) = None then None else Some smac)"
      "\<forall>ip. ip \<noteq> sip \<longrightarrow> cached_mac s' ip = cached_mac s ip"
      by (simp_all add: free cached_update)
    with False t s' hit show ?thesis by auto
  qed
qed

section \<open>The cache stays bounded and free of duplicates\<close>

definition arp_inv :: "'a net_scheme \<Rightarrow> bool" where
  "arp_inv s \<longleftrightarrow> length (if_mac (conf s)) = 6 \<and> distinct (map ipv4_address (cache s)) \<and>
     (\<forall>e \<in> set (cache s). 0 \<le> resolve_attempts e \<and> resolve_attempts e \<le> 10 \<and> (valid e \<longrightarrow> resolve_attempts e = 0))"

lemma addresses_change_entry:
  "(\<And>e. ipv4_address e = ip \<Longrightarrow> ipv4_address (f e) = ip) \<Longrightarrow>
   map ipv4_address (change_entry ip f es) = map ipv4_address es"
  by (induction es) auto

lemma set_change_entry:
  "e \<in> set (change_entry ip f es) \<Longrightarrow> e \<in> set es \<or> (\<exists>d. find_entry ip es = Some d \<and> e = f d)"
  by (induction es) (auto split: if_splits)

lemma find_entry_in: "find_entry ip es = Some e \<Longrightarrow> e \<in> set es \<and> ipv4_address e = ip"
  by (induction es) (auto split: if_splits)

lemma find_entry_None: "find_entry ip es = None \<longleftrightarrow> ip \<notin> ipv4_address ` set es"
  by (induction es) auto

lemma arp_inv_cong: "cache s' = cache s \<Longrightarrow> conf s' = conf s \<Longrightarrow> arp_inv s' = arp_inv s"
  by (simp add: arp_inv_def)

lemma arp_inv_upd [simp]:
  "arp_inv (s\<lparr>txq := x\<rparr>) = arp_inv s" "arp_inv (s\<lparr>arpq := x\<rparr>) = arp_inv s"
  "arp_inv (packet_free s) = arp_inv s" "arp_inv (packet_born s) = arp_inv s"
  by (simp_all add: arp_inv_def packet_free_def packet_born_def)

lemma arp_inv_update: "arp_inv s \<Longrightarrow> arp_inv (update_arp_cache ip mac add s)"
  unfolding arp_inv_def update_arp_cache_def Let_def
  by (auto simp: addresses_change_entry find_entry_None split: option.split dest!: set_change_entry)

lemma arp_inv_query:
  assumes q: "arp_transmit_query ip s = Some s'" and i: "arp_inv s"
    and e: "find_entry ip (cache s) = Some e" "\<not> valid e" "resolve_attempts e < 10"
  shows "arp_inv s'"
proof -
  have m: "length (if_mac (conf s)) = 6" using i by (simp add: arp_inv_def)
  note k = query_keeps [OF q m]
  have "0 \<le> resolve_attempts e" using i find_entry_in [OF e(1)] by (auto simp: arp_inv_def)
  then show ?thesis
    using i k e unfolding arp_inv_def start_query_def
    by (auto simp: addresses_change_entry dest!: set_change_entry)
qed

lemma arp_inv_resolve:
  assumes "net_arp_resolve p s = Some (r, p', s')" "arp_inv s"
  shows "arp_inv s'"
  using assms(1)
proof (cases rule: net_arp_resolve_cases)
  case (retry e)
  from arp_inv_query [OF retry(8) assms(2) retry(2,3,5)] show ?thesis .
next
  case start
  let ?t = "s\<lparr>cache := \<lparr>ipv4_address = nexthop p, mac_address = replicate 6 0,
         valid = False, resolve_attempts = 0, next_event = 0\<rparr> # cache s\<rparr>"
  have "arp_inv ?t" using assms(2) start(2) by (auto simp: arp_inv_def find_entry_None)
  from arp_inv_query [OF start(5) this] show ?thesis by simp
qed (use assms(2) in simp_all)

lemma net_tx_with_keeps:
  assumes "net_tx_with resolve p s = Some s'" "I s"
    and "\<And>p s r p' s'. resolve p s = Some (r, p', s') \<Longrightarrow> I s \<Longrightarrow> I s'"
    and c: "\<And>s s'. cache s' = cache s \<Longrightarrow> conf s' = conf s \<Longrightarrow> sinks s' = sinks s \<Longrightarrow> now s' = now s \<Longrightarrow>
      net.more s' = net.more s \<Longrightarrow> I s \<Longrightarrow> I s'"
  shows "I s'"
proof -
  let ?s = "s\<lparr>tx_count := tx_count s + 1\<rparr>"
  have s: "I ?s" by (rule c [OF _ _ _ _ _ assms(2)]) simp_all
  have e: "I u" if "eth_attempt_tx q t = Some (b, u)" "I t" for q t b u
    using c [of u t] eth_attempt_tx_in_hand [OF that(1)] that(2) by simp
  obtain ok where ok: "may_send p = Some ok" using assms(1) by (auto simp: net_tx_with_def bind_eq_Some_conv)
  show ?thesis
  proof (cases ok)
    case False
    with assms(1) ok have "s' = packet_free s" by (auto simp: net_tx_with_def)
    then show ?thesis using c [of s' s] assms(2) by (simp add: packet_free_def)
  next
    case True
    with assms(1) ok obtain p2 res p3 t where
      a: "(if pflags p2 AND flag_mac_valid \<noteq> 0 then Some (Arp_okay, p2, ?s) else resolve p2 ?s) = Some (res, p3, t)"
      and b: "(if res = Arp_okay then do { (sent, s) \<leftarrow> eth_attempt_tx p3 t;
          Some (if sent then packet_free s else s\<lparr>txq := txq s @ [p3]\<rparr>) } else Some (t\<lparr>arpq := p3 # arpq t\<rparr>)) = Some s'"
      unfolding net_tx_with_def by (simp add: bind_eq_Some_conv Let_def) blast
    have t: "I t" using a s assms(3) by (fastforce split: if_splits)
    show ?thesis
    proof (cases "res = Arp_okay")
      case True
      with b obtain sent u where u: "eth_attempt_tx p3 t = Some (sent, u)"
        "s' = (if sent then packet_free u else u\<lparr>txq := txq u @ [p3]\<rparr>)" by (auto simp: bind_eq_Some_conv)
      then have "cache s' = cache u" "conf s' = conf u" "sinks s' = sinks u" "now s' = now u" "net.more s' = net.more u"
        by (auto simp: packet_free_def)
      from c [OF this] e [OF u(1) t] show ?thesis by simp
    next
      case False
      with b have "cache s' = cache t" "conf s' = conf t" "sinks s' = sinks t" "now s' = now t" "net.more s' = net.more t" by auto
      from c [OF this t] show ?thesis .
    qed
  qed
qed

lemma arp_inv_net_tx:
  assumes "net_tx p s = Some s'" "arp_inv s"
  shows "arp_inv s'"
proof (rule net_tx_with_keeps [OF assms(1) [unfolded net_tx_def], where I = arp_inv])
  show "arp_inv t'" if "net_arp_resolve q t = Some (r, q', t')" "arp_inv t" for q r q' and t t' :: "'a net_scheme"
    using arp_inv_resolve [OF that] .
  show "arp_inv t'" if "cache t' = cache t" "conf t' = conf t" "arp_inv t" for t t' :: "'a net_scheme"
    using arp_inv_cong [OF that(1,2)] that(3) by simp
qed (rule assms(2))

text \<open>Transmission leaves the configuration, the sinks, the clock and the variables of other components
  alone.\<close>

definition surroundings :: "'a net_scheme \<Rightarrow> netconf \<times> sink list \<times> u32 \<times> 'a" where
  "surroundings s = (conf s, sinks s, now s, net.more s)"

lemma query_surroundings:
  assumes "arp_transmit_query ip s = Some s'"
  shows "surroundings s' = surroundings s"
proof -
  from assms obtain q t q2 where c: "packet_create_arp (s\<lparr>cache := start_query (now s) ip (cache s)\<rparr>) = Some (q, t)"
    and n: "net_tx_with (\<lambda>p s. None) q2 t = Some s'"
    unfolding arp_transmit_query_def start_query_def by (auto simp: bind_eq_Some_conv Let_def)
  have t: "surroundings t = surroundings s"
    using packet_create_arp_in_hand [OF c] by (simp add: surroundings_def packet_born_def)
  show ?thesis by (rule net_tx_with_keeps [OF n, where I = "\<lambda>u. surroundings u = surroundings s"])
    (simp_all add: t, simp add: surroundings_def)
qed

lemma resolve_surroundings:
  assumes "net_arp_resolve p s = Some (r, p', s')"
  shows "surroundings s' = surroundings s"
  using assms
proof (cases rule: net_arp_resolve_cases)
  case (retry e)
  from query_surroundings [OF retry(8)] show ?thesis .
next
  case start
  from query_surroundings [OF start(5)] show ?thesis by (simp add: surroundings_def)
qed simp_all

lemma net_tx_surroundings:
  assumes "net_tx p s = Some s'"
  shows "surroundings s' = surroundings s"
proof (rule net_tx_with_keeps [OF assms [unfolded net_tx_def], where I = "\<lambda>u. surroundings u = surroundings s"])
  show "surroundings v = surroundings s"
    if "net_arp_resolve q u = Some (r, q', v)" "surroundings u = surroundings s" for q u r q' v
    using resolve_surroundings [OF that(1)] that(2) by simp
qed (simp_all add: surroundings_def)

lemma arp_inv_reply:
  assumes "arp_reply p s = Some s'" "arp_inv s"
  shows "arp_inv s'"
proof -
  from assms(1) obtain r t q where c: "packet_create_arp s = Some (r, t)" and n: "net_tx q t = Some s'"
    by (auto simp: arp_reply_def bind_eq_Some_conv)
  have "t = packet_born s" by (rule packet_create_arp_in_hand [OF c])
  then have "arp_inv t" using arp_inv_cong [of t s] assms(2) by (simp add: packet_born_def)
  with arp_inv_net_tx [OF n] show ?thesis .
qed

lemma arp_inv_process:
  assumes "arp_process_packet p s = Some s'" "arp_inv s"
  shows "arp_inv s'"
proof -
  have i: "arp_inv t" if t: "arp_input p a op s = Some t" for a op t
  proof -
    from t obtain ip mac b u where "(if b then arp_reply p s else Some s) = Some u"
      "t = update_arp_cache ip mac b u" unfolding arp_input_def Let_def by (auto simp only: bind_eq_Some_conv option.inject)
    then show ?thesis using arp_inv_reply [of p s u] arp_inv_update [of u] assms(2) by (auto split: if_splits)
  qed
  from assms(1) obtain t where "arp_inv t" "s' = packet_free t"
    using i assms(2) by (auto simp: arp_process_packet_def bind_eq_Some_conv split: if_splits)
  then show ?thesis by simp
qed

lemma arp_inv_pump: "arp_pump ps s = Some (kept, s') \<Longrightarrow> arp_inv s \<Longrightarrow> arp_inv s'"
proof (induction ps arbitrary: s kept)
  case (Cons p ps)
  then obtain r q t where r: "net_arp_resolve p s = Some (r, q, t)" by (auto simp: bind_eq_Some_conv)
  have t: "arp_inv t" by (rule arp_inv_resolve [OF r Cons.prems(2)])
  with Cons.IH Cons.prems(1) r show ?case by (cases r) auto
qed simp

lemma arp_inv_flush: "arp_inv s \<Longrightarrow> arp_inv (arp_cache_flush i s)"
  by (auto simp: arp_inv_def arp_cache_flush_def Let_def intro!: distinct_map_filter)


lemma sample_reply:
  "\<exists>s'. arp_process_packet sample_request sample_net = Some s'"
  by (simp add: arp_process_packet_def arp_input_def sample_request_def sample_frame_def sample_net_def rd16_def rd8_def
      rd32_def be16_def be32_def packet_alloc_def reply_bytes rdn_def net_tx_def net_tx_with_def may_send_def
      compute_checksums_def ethertype_def arp_frame_def bytes16_def bytes32_def net_consts net_ipv4_route_def
      eth_attempt_tx_def eth_tx_def idle_card_def packet_born_def)

theorem arp_answers_and_learns_witness:
  "\<exists>s'. arp_process_packet sample_request sample_net = Some s' \<and>
     cached_mac s' 0x0A000002 = Some [2, 0, 0, 0, 0, 2]"
proof -
  obtain s' where s': "arp_process_packet sample_request sample_net = Some s'" using sample_reply by blast
  have p: "arp_packet sample_request 1 0x0A000002 [2, 0, 0, 0, 0, 2] 0x0A000001"
    by (simp add: arp_packet_def sample_request_def sample_frame_def rd16_def rd8_def rd32_def rdn_def
        be16_def be32_def packet_alloc_def)
  have c: "if_ip (conf sample_net) = 0x0A000001" "length (if_mac (conf sample_net)) = 6"
    by (simp_all add: sample_net_def)
  have "cached_mac s' 0x0A000002 = Some [2, 0, 0, 0, 0, 2]"
    using arp_answers_and_learns [OF s' p _ c(2)] c(1) by auto
  then show ?thesis using s' by blast
qed

definition sample_entry :: arp_cache_entry where
  "sample_entry = \<lparr>ipv4_address = 0x0A000002, mac_address = [2, 0, 0, 0, 0, 2], valid = True,
     resolve_attempts = 0, next_event = 5000\<rparr>"

definition waiting_net :: net where
  "waiting_net = sample_net\<lparr>arpq := [sample_frame\<lparr>nexthop := 0x0A000002\<rparr>], cache := [sample_entry]\<rparr>"

theorem pump_releases_resolved_witness:
  "\<exists>s'. net_arp_resolver_pump waiting_net = Some s' \<and> arpq s' = [] \<and>
     ready_in waiting_net (sample_frame\<lparr>nexthop := 0x0A000002\<rparr>) (txq s')"
proof -
  have e: "\<exists>s'. net_arp_resolver_pump waiting_net = Some s'"
    by (simp add: net_arp_resolver_pump_def waiting_net_def sample_net_def net_arp_resolve_def is_broadcast_def
        sample_frame_def packet_alloc_def sample_entry_def packet_set_destination_mac_def wr_def)
  then obtain s' where s': "net_arp_resolver_pump waiting_net = Some s'" by blast
  have "\<not> stays waiting_net (sample_frame\<lparr>nexthop := 0x0A000002\<rparr>)"
    "\<not> given_up waiting_net (sample_frame\<lparr>nexthop := 0x0A000002\<rparr>)" "length (if_mac (conf waiting_net)) = 6"
    "arpq waiting_net = [sample_frame\<lparr>nexthop := 0x0A000002\<rparr>]"
    by (simp_all add: stays_def given_up_def cached_mac_def waiting_net_def sample_net_def sample_entry_def)
  with pump_releases_resolved [OF s'] s' show ?thesis by auto
qed


end
