(* ===== verification/Icmp.thy ===== *)
theory Icmp
  imports Arp
begin

text \<open>
  ICMP, \<^verbatim>\<open>net/icmp.c\<close>: the sink that answers echo requests and the one that reports unwanted IPv4
  traffic, at most every 100 ms. Both consume the packet they are given.
\<close>

definition icmp_unreachable :: "packet \<Rightarrow> 'a net_scheme \<Rightarrow> (packet \<times> 'a net_scheme) option" where
  "icmp_unreachable p s = do {
     ip \<leftarrow> pipv4 p;
     src \<leftarrow> rd32 p (ip + 12);
     u \<leftarrow> packet_create_icmp (conf s) (junk s) (now s) src (20 + 8);
     let s = packet_born s;
     mac \<leftarrow> rdn p 6 6;
     u \<leftarrow> packet_set_destination_mac u mac;
     ic \<leftarrow> picmp u;
     u \<leftarrow> wr8 u ic 3;
     u \<leftarrow> wr8 u (ic + 1) 3;
     original \<leftarrow> rdn p ip (20 + 8);
     u \<leftarrow> wr u (ic + 8) original;
     Some (u, s) }"

definition icmp_send_unreachable :: "packet \<Rightarrow> 'a net_scheme \<Rightarrow> 'a net_scheme option" where
  "icmp_send_unreachable p s = do {
     s \<leftarrow> (if timer_expired (now s) (throttle s) then do {
             (u, s) \<leftarrow> icmp_unreachable p (s\<lparr>throttle := set_timer_ms (now s) 100\<rparr>);
             net_tx u s }
           else Some s);
     Some (packet_free s) }"

definition echo_reply :: "packet \<Rightarrow> nat \<Rightarrow> 'a net_scheme \<Rightarrow> packet option" where
  "echo_reply p ic s = do {
     p \<leftarrow> wr8 p ic 0;
     let p = p\<lparr>pflags := 0\<rparr>;
     ip \<leftarrow> pipv4 p;
     src \<leftarrow> rd32 p (ip + 12);
     p \<leftarrow> wr32 p (ip + 16) src;
     mac \<leftarrow> rdn p 6 6;
     p \<leftarrow> packet_set_destination_mac p mac;
     p \<leftarrow> wr32 p (ip + 12) (if_ip (conf s));
     wr p 6 (if_mac (conf s)) }"

definition icmp_received :: "packet \<Rightarrow> 'a net_scheme \<Rightarrow> 'a net_scheme option" where
  "icmp_received p s = do {
     ic \<leftarrow> picmp p;
     type \<leftarrow> rd8 p ic;
     if type = 8 then do { p \<leftarrow> echo_reply p ic s; net_tx p s }
     else Some (packet_free s) }"

definition icmp_sink :: "nat \<Rightarrow> sink" where
  "icmp_sink i = (packet_sink_alloc i)\<lparr>match_interface_local_ip := True, match_ethertype := ethertype_ipv4,
     match_ipv4_protocol := ip_proto_icmp, cb_packet_received := Icmp_received\<rparr>"

definition unwanted_ipv4_sink :: "nat \<Rightarrow> sink" where
  "unwanted_ipv4_sink i = (packet_sink_alloc i)\<lparr>match_interface_local_ip := True,
     match_ethertype := ethertype_ipv4, cb_packet_received := Icmp_send_unreachable\<rparr>"

definition net_icmp_init :: "nat \<Rightarrow> nat \<Rightarrow> 'a net_scheme \<Rightarrow> 'a net_scheme option" where
  "net_icmp_init i j s = do {
     s \<leftarrow> net_add_packet_sink (icmp_sink i) s;
     net_add_packet_sink (unwanted_ipv4_sink j) s }"

section \<open>Both handlers consume their packet\<close>

lemma icmp_unreachable_in_hand: "icmp_unreachable p s = Some (u, s') \<Longrightarrow> s' = packet_born s"
  by (auto simp: icmp_unreachable_def bind_eq_Some_conv Let_def)

lemma icmp_send_unreachable_in_hand:
  "icmp_send_unreachable p s = Some s' \<Longrightarrow> in_hand s' = in_hand s - 1"
  by (auto simp: icmp_send_unreachable_def bind_eq_Some_conv dest!: icmp_unreachable_in_hand net_tx_in_hand
      split: if_splits)

lemma icmp_received_in_hand: "icmp_received p s = Some s' \<Longrightarrow> in_hand s' = in_hand s - 1"
  by (auto simp: icmp_received_def bind_eq_Some_conv dest!: net_tx_in_hand split: if_splits)

interpretation icmp: packet_consumer icmp_received
  by unfold_locales (rule icmp_received_in_hand)

interpretation unreachable: packet_consumer icmp_send_unreachable
  by unfold_locales (rule icmp_send_unreachable_in_hand)

section \<open>Transmission with a known destination address\<close>

lemma bytes32_be32: "bytes32 (be32 a b c d) = [a, b, c, d]"
  unfolding bytes32_def be32_def
  by (intro list.inject [THEN iffD2] conjI refl; rule bit_eqI; auto simp: bit_simps dest: bit_imp_le_length)

lemma rd32_Some:
  "rd32 p i = Some v \<Longrightarrow> bytes32 v = [pbuf p ! i, pbuf p ! (i + 1), pbuf p ! (i + 2), pbuf p ! (i + 3)] \<and> i + 3 < length (pbuf p)"
  by (auto simp: rd32_def rd8_def bind_eq_Some_conv bytes32_be32 split: if_splits)

lemma wr_some_length: "wr p i bs = Some q \<Longrightarrow> length (pbuf q) = length (pbuf p) \<and> i + length bs \<le> length (pbuf p)"
  by (auto simp: wr_Some)

lemma wr_byte: "wr p i bs = Some q \<Longrightarrow> k < length (pbuf p) \<Longrightarrow>
    pbuf q ! k = (if i \<le> k \<and> k < i + length bs then bs ! (k - i) else pbuf p ! k)"
  by (rule wr_nth)

text \<open>The bytes of the reply: addresses swapped, ours filled in, and the type cleared.\<close>

lemma echo_reply_bytes:
  assumes r: "echo_reply p 34 s = Some q" and ip: "pipv4 p = Some 14" and m: "length (if_mac (conf s)) = 6"
  shows "length (pbuf q) = length (pbuf p)" "pflags q = flag_mac_valid" "pipv4 q = Some 14" "picmp q = picmp p"
    "pudp q = pudp p" "buffer_length q = buffer_length p" "35 \<le> length (pbuf p)"
    "k < length (pbuf p) \<Longrightarrow> pbuf q ! k =
       (if k < 6 then pbuf p ! (k + 6) else if k < 12 then if_mac (conf s) ! (k - 6)
        else if 26 \<le> k \<and> k < 30 then bytes32 (if_ip (conf s)) ! (k - 26)
        else if 30 \<le> k \<and> k < 34 then pbuf p ! (k - 4) else if k = 34 then 0 else pbuf p ! k)"
proof -
  from r ip obtain p0 src p2 mac p3 p4 where
    w: "wr p 34 [0] = Some p0" "rd32 (p0\<lparr>pflags := 0\<rparr>) 26 = Some src"
      "wr (p0\<lparr>pflags := 0\<rparr>) 30 (bytes32 src) = Some p2" "rdn p2 6 6 = Some mac"
      "packet_set_destination_mac p2 mac = Some p3" "wr p3 26 (bytes32 (if_ip (conf s))) = Some p4"
      "wr p4 6 (if_mac (conf s)) = Some q"
    by (auto simp: echo_reply_def bind_eq_Some_conv Let_def wr8_def wr32_def wr_fields)
  from w(5) obtain p25 where p25: "wr p2 0 mac = Some p25" "p3 = p25\<lparr>pflags := pflags p25 OR flag_mac_valid\<rparr>"
    by (auto simp: packet_set_destination_mac_def bind_eq_Some_conv)
  have mac: "mac = take 6 (drop 6 (pbuf p2))" "12 \<le> length (pbuf p2)" using w(4) by (auto simp: rdn_def split: if_splits)
  have len: "length (pbuf p0) = length (pbuf p)" "length (pbuf p2) = length (pbuf p)"
    "length (pbuf p3) = length (pbuf p)" "length (pbuf p4) = length (pbuf p)" "length (pbuf q) = length (pbuf p)"
    using w(1,3,6,7) p25 by (auto dest!: wr_some_length)
  show "35 \<le> length (pbuf p)" "length (pbuf q) = length (pbuf p)"
    using wr_some_length [OF w(1)] len by simp_all
  show "pflags q = flag_mac_valid" "pipv4 q = Some 14" "picmp q = picmp p" "pudp q = pudp p"
    "buffer_length q = buffer_length p"
    using wr_fields [OF w(1)] wr_fields [OF w(3)] wr_fields [OF p25(1)] wr_fields [OF w(6)] wr_fields [OF w(7)] p25(2) ip
    by simp_all
  have src: "bytes32 src = [pbuf p0 ! 26, pbuf p0 ! 27, pbuf p0 ! 28, pbuf p0 ! 29]"
    using rd32_Some [OF w(2)] by simp
  assume k: "k < length (pbuf p)"
  have b0: "pbuf p0 ! j = (if j = 34 then 0 else pbuf p ! j)" if "j < length (pbuf p)" for j
    using wr_byte [OF w(1) that] by auto
  have b2: "pbuf p2 ! j = (if 30 \<le> j \<and> j < 34 then pbuf p0 ! (j - 4) else pbuf p0 ! j)" if "j < length (pbuf p)" for j
  proof -
    have "30 \<le> j \<and> j < 34 \<Longrightarrow> j = 30 \<or> j = 31 \<or> j = 32 \<or> j = 33" by auto
    then show ?thesis using wr_byte [OF w(3), of j] that len src by (auto simp: numeral_eq_Suc)
  qed
  have b3: "pbuf p3 ! j = (if j < 6 then pbuf p2 ! (j + 6) else pbuf p2 ! j)" if "j < length (pbuf p)" for j
    using wr_byte [OF p25(1), of j] that len mac p25(2) by (auto simp: add.commute)
  have b4: "pbuf p4 ! j = (if 26 \<le> j \<and> j < 30 then bytes32 (if_ip (conf s)) ! (j - 26) else pbuf p3 ! j)"
    if "j < length (pbuf p)" for j
    using wr_byte [OF w(6), of j] that len by auto
  have b5: "pbuf q ! k = (if 6 \<le> k \<and> k < 12 then if_mac (conf s) ! (k - 6) else pbuf p4 ! k)"
    using wr_byte [OF w(7), of k] k len m by auto
  have l12: "12 \<le> length (pbuf p)" using mac len by simp
  consider "k < 6" | "6 \<le> k \<and> k < 12" | "12 \<le> k \<and> k < 26" | "26 \<le> k \<and> k < 30" | "30 \<le> k \<and> k < 34" | "k = 34" | "34 < k" by linarith
  then show "pbuf q ! k =
       (if k < 6 then pbuf p ! (k + 6) else if k < 12 then if_mac (conf s) ! (k - 6)
        else if 26 \<le> k \<and> k < 30 then bytes32 (if_ip (conf s)) ! (k - 26)
        else if 30 \<le> k \<and> k < 34 then pbuf p ! (k - 4) else if k = 34 then 0 else pbuf p ! k)"
    using b5 b4 [OF k] b3 [OF k] b2 [OF k] b0 [OF k] b2 [of "k + 6"] b0 [of "k + 6"] b0 [of "k - 4"] l12 k
    by cases auto
qed

lemma verify_ipv4_other:
  assumes "wr16 p i v = Some q" "pipv4 p = Some 14" "34 \<le> i"
  shows "net_verify_ipv4_checksum q = net_verify_ipv4_checksum p"
proof -
  have f: "pipv4 q = Some 14" "length (pbuf q) = length (pbuf p)" "i + 2 \<le> length (pbuf p)"
    using wr_fields assms(1,2) wr_some_length [of p i "bytes16 v" q] by (auto simp: wr16_def)
  have "take 20 (drop 14 (pbuf q)) = take 20 (drop 14 (pbuf p))"
    using drop_wr16_other [OF assms(1), of 14 20] assms(3) by simp
  then have "checksum_update 0 (drop 14 (pbuf q)) 20 = checksum_update 0 (drop 14 (pbuf p)) 20"
    using f assms(3) by (subst (1 2) checksum_update_eq) simp_all
  then show ?thesis using f assms(2) by (simp add: net_verify_ipv4_checksum_def checksum_compute_def)
qed

lemma verify_nexthop [simp]:
  "net_verify_ipv4_checksum (p\<lparr>nexthop := h\<rparr>) = net_verify_ipv4_checksum p"
  "net_verify_icmp_checksum (p\<lparr>nexthop := h\<rparr>) = net_verify_icmp_checksum p"
  "net_verify_udp_checksum (p\<lparr>nexthop := h\<rparr>) = net_verify_udp_checksum p"
proof -
  have "rd16 (p\<lparr>nexthop := h\<rparr>) = rd16 p" "rd8 (p\<lparr>nexthop := h\<rparr>) = rd8 p"
    by (simp_all add: fun_eq_iff rd16_def rd8_def)
  moreover from this have "udp_checksum_pseudoheader (p\<lparr>nexthop := h\<rparr>) = udp_checksum_pseudoheader p"
    by (simp add: udp_checksum_pseudoheader_def)
  ultimately show "net_verify_ipv4_checksum (p\<lparr>nexthop := h\<rparr>) = net_verify_ipv4_checksum p"
    "net_verify_icmp_checksum (p\<lparr>nexthop := h\<rparr>) = net_verify_icmp_checksum p"
    "net_verify_udp_checksum (p\<lparr>nexthop := h\<rparr>) = net_verify_udp_checksum p"
    by (simp_all add: net_verify_ipv4_checksum_def net_verify_icmp_checksum_def net_verify_udp_checksum_def
        icmp_length_def cong: if_cong)
qed

text \<open>An ICMP packet with a destination address is handed over with valid checksums, its other bytes
  unchanged.\<close>

lemma net_tx_icmp:
  assumes tx: "net_tx p s = Some s'" and ptr: "pipv4 p = Some 14" "picmp p = Some 34"
    and et: "ethertype p = Some ethertype_ipv4" and proto: "rd8 p 23 = Some ip_proto_icmp"
    and src: "rd32 p 26 = Some src" "src \<noteq> 0" and fl: "pflags p = flag_mac_valid"
    and len: "rd16 p 16 = Some len" "24 \<le> unat len" "14 + unat len \<le> length (pbuf p)"
  shows "\<exists>q. handed_over q s s' \<and> length (pbuf q) = length (pbuf p) \<and> buffer_length q = buffer_length p \<and>
    (\<forall>k < length (pbuf p). k \<notin> {24, 25, 36, 37} \<longrightarrow> pbuf q ! k = pbuf p ! k) \<and>
    net_verify_ipv4_checksum q = Some True \<and> net_verify_icmp_checksum q = Some True"
proof -
  have l34: "34 \<le> length (pbuf p)" using len by linarith
  obtain c q1 where q1: "net_compute_ipv4_checksum p = Some q1" "wr16 p 24 c = Some q1" "net_verify_ipv4_checksum q1 = Some True"
    using compute_verify_ipv4 [OF ptr(1)] l34 by auto
  have w1: "wr p 24 (bytes16 c) = Some q1" using q1(2) by (simp add: wr16_def)
  note f1 = wr_fields [OF w1]
  have l1: "length (pbuf q1) = length (pbuf p)" using wr_some_length [OF w1] by simp
  have r1: "rd8 q1 23 = Some ip_proto_icmp" "rd16 q1 16 = Some len"
    using rd_unchanged [OF q1(2)] proto len(1) by simp_all
  obtain d q2 where q2: "net_compute_icmp_checksum q1 = Some q2" "wr16 q1 36 d = Some q2" "net_verify_icmp_checksum q2 = Some True"
    using compute_verify_icmp [of q1 14 34 len] f1 ptr r1 len l1 by auto
  have w2: "wr q1 36 (bytes16 d) = Some q2" using q2(2) by (simp add: wr16_def)
  note f2 = wr_fields [OF w2]
  have l2: "length (pbuf q2) = length (pbuf p)" using wr_some_length [OF w2] l1 by simp
  have v2: "net_verify_ipv4_checksum q2 = Some True"
    using verify_ipv4_other [OF q2(2)] f1 ptr q1(3) by simp
  have cs: "compute_checksums p = Some q2"
    using et q1(1) f1 ptr r1(1) q2(1) by (simp add: compute_checksums_def net_consts)
  have ms: "may_send p = Some True" using ptr src by (simp add: may_send_def)
  obtain dst where "rd32 q2 30 = Some dst"
    using l2 l34 by (simp add: rd32_def rd8_def)
  then obtain h where rt: "net_ipv4_route s q2 = Some (q2\<lparr>nexthop := h\<rparr>)"
    using f1 f2 ptr by (simp add: net_ipv4_route_def)
  have h: "handed_over (q2\<lparr>nexthop := h\<rparr>) s s'"
    using net_tx_with_ready [OF ms cs rt _ tx [unfolded net_tx_def]] f1 f2 fl by (simp add: net_consts)
  have b: "pbuf q2 ! k = pbuf p ! k" if "k < length (pbuf p)" "k \<notin> {24, 25, 36, 37}" for k
  proof -
    have "\<not> (24 \<le> k \<and> k < 26)" "\<not> (36 \<le> k \<and> k < 38)" using that(2) by auto
    then show ?thesis using wr_byte [OF w1 that(1)] wr_byte [OF w2, of k] that(1) l1 by auto
  qed
  show ?thesis
    using h l2 b q2(3) v2 f1 f2 by (intro exI [of _ "q2\<lparr>nexthop := h\<rparr>"]) simp
qed

text \<open>C29. Answering a ping. An ICMP echo request that arrived for the interface is turned into one
  frame handed to the card or to the transmit queue: addressed to the sender's hardware and protocol
  address, from ours, with type 0 (echo reply), every byte that is not an address, the type or a
  checksum as received, and with IPv4 and ICMP checksums the receiver will accept. Any other ICMP
  packet is dropped.\<close>

theorem ping_answered:
  assumes r: "icmp_received p s = Some s'" and ptr: "pipv4 p = Some 14" "picmp p = Some 34"
    and et: "ethertype p = Some ethertype_ipv4" and proto: "rd8 p 23 = Some ip_proto_icmp"
    and len: "rd16 p 16 = Some len" "24 \<le> unat len" "14 + unat len \<le> length (pbuf p)"
    and us: "if_ip (conf s) \<noteq> 0" "length (if_mac (conf s)) = 6"
  shows "if rd8 p 34 = Some 8
    then \<exists>q. handed_over q s s' \<and> length (pbuf q) = length (pbuf p) \<and> buffer_length q = buffer_length p \<and>
      take 6 (pbuf q) = take 6 (drop 6 (pbuf p)) \<and> take 6 (drop 6 (pbuf q)) = if_mac (conf s) \<and>
      take 4 (drop 26 (pbuf q)) = bytes32 (if_ip (conf s)) \<and> take 4 (drop 30 (pbuf q)) = take 4 (drop 26 (pbuf p)) \<and>
      pbuf q ! 34 = 0 \<and> (\<forall>k < length (pbuf p). k \<in> {12..<24} \<union> {35} \<union> {38..} \<longrightarrow> pbuf q ! k = pbuf p ! k) \<and>
      net_verify_ipv4_checksum q = Some True \<and> net_verify_icmp_checksum q = Some True
    else s' = packet_free s"
proof (cases "rd8 p 34 = Some 8")
  case False
  with r ptr(2) show ?thesis by (auto simp: icmp_received_def bind_eq_Some_conv)
next
  case True
  with r ptr(2) obtain e where e: "echo_reply p 34 s = Some e" and tx: "net_tx e s = Some s'"
    by (auto simp: icmp_received_def bind_eq_Some_conv)
  note b = echo_reply_bytes [OF e ptr(1) us(2)]
  have l38: "35 \<le> length (pbuf p)" by (rule b(7))
  have same: "rd8 e k = rd8 p k" if "k \<in> {12..<26} \<union> {35..}" for k
    using b(1) b(8) [of k] that by (auto simp: rd8_def)
  have et': "ethertype e = Some ethertype_ipv4" using et same [of 12] same [of 13] by (simp add: ethertype_def rd16_def)
  have pr': "rd8 e 23 = Some ip_proto_icmp" using proto same [of 23] by simp
  have ln': "rd16 e 16 = Some len" using len(1) same [of 16] same [of 17] by (simp add: rd16_def)
  have "rd32 e 26 = Some (if_ip (conf s))"
    using b(1) l38 b(8) [of 26] b(8) [of 27] b(8) [of 28] b(8) [of 29] be32_bytes32 [of "if_ip (conf s)"]
    by (simp add: rd32_def rd8_def)
  from net_tx_icmp [OF tx b(3) _ et' pr' this us(1) b(2) ln' len(2)] ptr(2) b(1,4) len(3)
  obtain q where q: "handed_over q s s'" "length (pbuf q) = length (pbuf p)" "buffer_length q = buffer_length e"
    "\<forall>k < length (pbuf p). k \<notin> {24, 25, 36, 37} \<longrightarrow> pbuf q ! k = pbuf e ! k"
    "net_verify_ipv4_checksum q = Some True" "net_verify_icmp_checksum q = Some True" by auto
  have n: "pbuf q ! k = (if k < 6 then pbuf p ! (k + 6) else if k < 12 then if_mac (conf s) ! (k - 6)
        else if 26 \<le> k \<and> k < 30 then bytes32 (if_ip (conf s)) ! (k - 26)
        else if 30 \<le> k \<and> k < 34 then pbuf p ! (k - 4) else if k = 34 then 0 else pbuf p ! k)"
    if "k < length (pbuf p)" "k \<notin> {24, 25, 36, 37}" for k
    using q(4) that b(8) [OF that(1)] by simp
  have "take 6 (pbuf q) = take 6 (drop 6 (pbuf p))"
    by (rule nth_equalityI) (use n l38 q(2) in \<open>auto simp: add.commute\<close>)
  moreover have "take 6 (drop 6 (pbuf q)) = if_mac (conf s)"
    by (rule nth_equalityI) (use n l38 q(2) us(2) in auto)
  moreover have "take 4 (drop 26 (pbuf q)) = bytes32 (if_ip (conf s))"
    by (rule nth_equalityI) (use n l38 q(2) in auto)
  moreover have "take 4 (drop 30 (pbuf q)) = take 4 (drop 26 (pbuf p))"
    by (rule nth_equalityI) (use n l38 q(2) in auto)
  moreover have "pbuf q ! 34 = 0" using n [of 34] l38 by simp
  moreover have "\<forall>k < length (pbuf p). k \<in> {12..<24} \<union> {35} \<union> {38..} \<longrightarrow> pbuf q ! k = pbuf p ! k"
    using n by auto
  ultimately show ?thesis using True q b(6) by auto
qed

definition sample_ping :: packet where
  "sample_ping = (packet_alloc (\<lambda>i. 0) 42)\<lparr>pipv4 := Some 14, picmp := Some 34, pbuf :=
     [2, 0, 0, 0, 0, 1, 2, 0, 0, 0, 0, 2, 8, 0, 0x45, 0, 0, 28, 0, 1, 0, 0, 64, 1, 0, 0,
      10, 0, 0, 2, 10, 0, 0, 1, 8, 0, 0, 0, 0, 1, 0, 1]\<rparr>"

lemma sample_ping_received: "\<exists>s'. icmp_received sample_ping sample_net = Some s'"
proof -
  have "\<exists>e. echo_reply sample_ping 34 sample_net = Some e \<and> pbuf e =
     [2, 0, 0, 0, 0, 2, 2, 0, 0, 0, 0, 1, 8, 0, 0x45, 0, 0, 28, 0, 1, 0, 0, 64, 1, 0, 0,
      10, 0, 0, 1, 10, 0, 0, 2, 0, 0, 0, 0, 0, 1, 0, 1] \<and> pipv4 e = Some 14 \<and> picmp e = Some 34 \<and>
      pudp e = None \<and> pflags e = 1"
    by (simp add: echo_reply_def sample_ping_def sample_net_def packet_alloc_def wr8_def wr_def rd32_def rd8_def
        be32_def wr32_def bytes32_def rdn_def packet_set_destination_mac_def net_consts)
  then obtain e where e: "echo_reply sample_ping 34 sample_net = Some e" "pbuf e =
     [2, 0, 0, 0, 0, 2, 2, 0, 0, 0, 0, 1, 8, 0, 0x45, 0, 0, 28, 0, 1, 0, 0, 64, 1, 0, 0,
      10, 0, 0, 1, 10, 0, 0, 2, 0, 0, 0, 0, 0, 1, 0, 1]" "pipv4 e = Some 14" "picmp e = Some 34" "pflags e = 1"
    by (elim exE conjE)
  have m: "may_send e = Some True" by (simp add: may_send_def e rd32_def rd8_def be32_def)
  obtain c q1 where q1: "net_compute_ipv4_checksum e = Some q1" "wr16 e 24 c = Some q1"
    using compute_verify_ipv4 [OF e(3)] e(2) by auto
  have w1: "wr e 24 (bytes16 c) = Some q1" using q1(2) by (simp add: wr16_def)
  note f1 = wr_fields [OF w1]
  have len: "rd16 q1 16 = Some 28"
    using rd_unchanged(2) [OF q1(2), of 16] e(2) by (simp add: rd16_def rd8_def be16_def)
  obtain d q2 where q2: "net_compute_icmp_checksum q1 = Some q2" "wr16 q1 36 d = Some q2"
    using compute_verify_icmp [of q1 14 34 28] f1 e wr_some_length [OF w1] len by auto
  have w2: "wr q1 36 (bytes16 d) = Some q2" using q2(2) by (simp add: wr16_def)
  note f2 = wr_fields [OF w2]
  have b: "rd8 e 23 = Some 1" "ethertype e = Some 0x0800"
    by (simp_all add: ethertype_def rd16_def e(2) rd8_def be16_def)
  have cs: "compute_checksums e = Some q2"
    using q1(1) q2(1) f1 e(3) rd_unchanged(1) [OF q1(2), of 23] b by (simp add: compute_checksums_def net_consts)
  obtain dst where "rd32 q2 30 = Some dst"
    using wr_some_length [OF w2] wr_some_length [OF w1] e(2) by (simp add: rd32_def rd8_def)
  then obtain q3 where rt: "net_ipv4_route sample_net q2 = Some q3" "pflags q3 = 1"
    using f1 f2 e by (simp add: net_ipv4_route_def)
  have r: "net_ipv4_route (sample_net\<lparr>tx_count := t\<rparr>) q2 = net_ipv4_route sample_net q2" for t
    by (simp add: net_ipv4_route_def split: option.split cong: if_cong)
  have "\<exists>s'. net_tx e sample_net = Some s'"
    using m cs rt by (simp add: net_tx_def net_tx_with_def Let_def r net_consts)
      (simp add: eth_attempt_tx_def eth_tx_def sample_net_def)
  then show ?thesis using e(1)
    by (simp add: icmp_received_def) (simp add: sample_ping_def rd8_def)
qed

theorem ping_answered_witness:
  "\<exists>s' q. icmp_received sample_ping sample_net = Some s' \<and> handed_over q sample_net s' \<and>
     net_verify_icmp_checksum q = Some True"
proof -
  from sample_ping_received obtain s' where s': "icmp_received sample_ping sample_net = Some s'" by (elim exE)
  have p: "pipv4 sample_ping = Some 14" "picmp sample_ping = Some 34" "ethertype sample_ping = Some ethertype_ipv4"
    "rd8 sample_ping 23 = Some ip_proto_icmp" "rd16 sample_ping 16 = Some 28" "24 \<le> unat (28 :: u16)"
    "14 + unat (28 :: u16) \<le> length (pbuf sample_ping)" "if_ip (conf sample_net) \<noteq> 0"
    "length (if_mac (conf sample_net)) = 6" "rd8 sample_ping 34 = Some 8"
    by (simp_all add: sample_ping_def sample_net_def ethertype_def rd16_def rd8_def be16_def net_consts packet_alloc_def)
  from ping_answered [OF s' p(1-9)] p(10) s' show ?thesis by auto
qed

end
