(* ===== verification/UdpTx.thy ===== *)
theory UdpTx
  imports Icmp
begin

text \<open>
  What \<open>net_tx\<close> makes of a UDP packet for the broadcast address: the lemmas the DHCP client's
  messages rest on.
\<close>

definition transmit_now :: "packet \<Rightarrow> 'a net_scheme \<Rightarrow> 'a net_scheme option" where
  "transmit_now q s = do {
     (sent, s) \<leftarrow> eth_attempt_tx q (s\<lparr>tx_count := tx_count s + 1\<rparr>);
     Some (if sent then packet_free s else s\<lparr>txq := txq s @ [q]\<rparr>) }"

lemma transmit_now_handed_over: "transmit_now q s = Some s' \<Longrightarrow> handed_over q s s'"
proof -
  assume "transmit_now q s = Some s'"
  then obtain sent c where c: "eth_tx (fst (wire q)) (snd (wire q)) (card s) = Some (sent, c)"
    and "s' = (if sent then packet_free (s\<lparr>tx_count := tx_count s + 1, card := c\<rparr>)
           else s\<lparr>tx_count := tx_count s + 1, card := c, txq := txq s @ [q]\<rparr>)"
    by (cases "eth_tx (fst (wire q)) (snd (wire q)) (card s)")
      (auto simp: transmit_now_def eth_attempt_tx_def packet_free_def)
  then show "handed_over q s s'" unfolding handed_over_def by (intro exI [of _ sent] exI [of _ c] conjI)
qed

lemma transmit_without_card:
  "base (card s) = 0 \<Longrightarrow> transmit_now q s = Some (s\<lparr>tx_count := tx_count s + 1, txq := txq s @ [q]\<rparr>)"
  by (cases s) (simp add: transmit_now_def eth_attempt_tx_def eth_tx_def)

lemma frame_behind_mac:
  assumes "packet_set_destination_mac p m = Some q" "length m = 6"
  shows "6 \<le> k \<Longrightarrow> rd8 q k = rd8 p k" "6 \<le> k \<Longrightarrow> rd16 q k = rd16 p k" "6 \<le> k \<Longrightarrow> drop k (pbuf q) = drop k (pbuf p)"
    "pflags q = pflags p OR flag_mac_valid" "pipv4 q = pipv4 p" "pudp q = pudp p" "buffer_length q = buffer_length p"
    "length (pbuf q) = length (pbuf p)" "take 6 (pbuf q) = m"
  using assms by (auto simp: packet_set_destination_mac_def bind_eq_Some_conv wr_Some rd16_def rd8_def nth_append)

lemma verify_behind_mac:
  assumes m: "packet_set_destination_mac p m = Some q" "length m = 6" and ptr: "pipv4 p = Some 14" "pudp p = Some 34"
  shows "net_verify_ipv4_checksum q = net_verify_ipv4_checksum p" "net_verify_udp_checksum q = net_verify_udp_checksum p"
proof -
  note f = frame_behind_mac [OF m]
  show "net_verify_ipv4_checksum q = net_verify_ipv4_checksum p"
    using f ptr by (simp add: net_verify_ipv4_checksum_def)
  have "udp_checksum_pseudoheader q = udp_checksum_pseudoheader p"
    using f ptr by (simp add: udp_checksum_pseudoheader_def)
  then show "net_verify_udp_checksum q = net_verify_udp_checksum p"
    using f ptr by (simp add: net_verify_udp_checksum_def cong: if_cong)
qed

lemma compute_checksums_udp:
  assumes ptr: "pipv4 p = Some 14" "pudp p = Some 34" and et: "ethertype p = Some ethertype_ipv4"
    and proto: "rd8 p 23 = Some ip_proto_udp"
    and len: "rd16 p 38 = Some len" "8 \<le> unat len" "34 + unat len \<le> length (pbuf p)"
  obtains q c d where "compute_checksums p = Some q" "wr16 p 24 c = Some (put p 24 (bytes16 c))"
    "q = put (put p 24 (bytes16 c)) 40 (bytes16 d)" "d \<noteq> 0"
    "net_verify_ipv4_checksum q = Some True" "net_verify_udp_checksum q = Some True"
proof -
  have l42: "42 \<le> length (pbuf p)" using len by linarith
  obtain c q1 where q1: "net_compute_ipv4_checksum p = Some q1" "wr16 p 24 c = Some q1" "net_verify_ipv4_checksum q1 = Some True"
    using compute_verify_ipv4 [OF ptr(1)] l42 by auto
  have e1: "q1 = put p 24 (bytes16 c)" using q1(2) by (simp add: wr16_def wr_put split: if_splits)
  have f1: "pipv4 q1 = Some 14" "pudp q1 = Some 34" "length (pbuf q1) = length (pbuf p)" "rd8 q1 23 = Some ip_proto_udp"
    "rd16 q1 38 = Some len"
    using ptr proto len l42 by (simp_all add: e1 rd16_def)
  obtain d q2 where q2: "net_compute_udp_checksum q1 = Some q2" "wr16 q1 40 d = Some q2" "d \<noteq> 0"
      "net_verify_udp_checksum q2 = Some True"
    using compute_verify_udp [of q1 14 34 len] f1 len by auto
  show ?thesis
  proof (rule that [of q2 c d])
    show "compute_checksums p = Some q2" using et q1(1) f1 q2(1) by (simp add: compute_checksums_def net_consts)
    show "wr16 p 24 c = Some (put p 24 (bytes16 c))" using q1(2) e1 by simp
    show "q2 = put (put p 24 (bytes16 c)) 40 (bytes16 d)" using q2(2) e1 by (simp add: wr16_def wr_put split: if_splits)
    show "net_verify_ipv4_checksum q2 = Some True" using verify_ipv4_other [OF q2(2) f1(1)] q1(3) by simp
  qed (use q2 in auto)
qed

lemma net_tx_udp_broadcast:
  assumes ptr: "pipv4 p = Some 14" "pudp p = Some 34" and et: "ethertype p = Some ethertype_ipv4"
    and proto: "rd8 p 23 = Some ip_proto_udp" and fl: "pflags p = 0"
    and addr: "rd32 p 26 = Some src" "rd32 p 30 = Some ipv4_broadcast" "rd16 p 34 = Some sport" "rd16 p 36 = Some dport"
    and src: "src \<noteq> 0 \<or> sport = 68 \<and> dport = 67"
    and len: "rd16 p 38 = Some len" "8 \<le> unat len" "34 + unat len \<le> length (pbuf p)"
  shows "\<exists>q. net_tx p s = transmit_now q s \<and> take 6 (pbuf q) = broadcast_macaddr \<and>
    length (pbuf q) = length (pbuf p) \<and> buffer_length q = buffer_length p \<and>
    rd32 q 26 = Some src \<and> rd32 q 30 = Some ipv4_broadcast \<and> rd16 q 34 = Some sport \<and> rd16 q 36 = Some dport \<and>
    rd16 q 38 = Some len \<and> drop 42 (pbuf q) = drop 42 (pbuf p) \<and>
    net_verify_ipv4_checksum q = Some True \<and> net_verify_udp_checksum q = Some True"
proof -
  obtain q c d where q: "compute_checksums p = Some q" "q = put (put p 24 (bytes16 c)) 40 (bytes16 d)"
    "net_verify_ipv4_checksum q = Some True" "net_verify_udp_checksum q = Some True"
    by (rule compute_checksums_udp [OF ptr et proto len])
  have l42: "42 \<le> length (pbuf p)" using len by linarith
  have f: "pipv4 q = Some 14" "pudp q = Some 34" "pflags q = 0" "length (pbuf q) = length (pbuf p)"
    "buffer_length q = buffer_length p" "rd32 q 26 = Some src" "rd32 q 30 = Some ipv4_broadcast"
    "rd16 q 34 = Some sport" "rd16 q 36 = Some dport" "rd16 q 38 = Some len" "drop 42 (pbuf q) = drop 42 (pbuf p)"
    using ptr fl addr len(1) l42 by (simp_all add: q(2) rd32_def rd16_def drop_put_behind)
  have ms: "may_send p = Some True" using ptr addr src by (simp add: may_send_def)
  obtain h where rt: "net_ipv4_route s q = Some (q\<lparr>nexthop := h\<rparr>)"
    using f(1,7) by (auto simp: net_ipv4_route_def)
  define r where "r = q\<lparr>nexthop := h\<rparr>"
  have rd: "rd8 r = rd8 q" "rd16 r = rd16 q" "rd32 r = rd32 q"
    by (simp_all add: fun_eq_iff r_def rd8_def rd16_def rd32_def)
  have b: "is_broadcast cf r = Some True" for cf
    using f(1,7) rd(3) by (simp add: is_broadcast_def r_def)
  obtain z where z: "packet_set_destination_mac r broadcast_macaddr = Some z"
    using f(4) l42 by (simp add: packet_set_destination_mac_def wr_put r_def net_consts)
  have m6: "length broadcast_macaddr = 6" by (simp add: broadcast_macaddr_def)
  note zf = frame_behind_mac [OF z m6]
  have "net_tx p s = transmit_now z s"
    using ms q(1) rt z b f(3)
    by (simp add: net_tx_def net_tx_with_def transmit_now_def net_arp_resolve_def Let_def flip: r_def)
      (simp add: r_def)
  moreover have "net_verify_ipv4_checksum z = Some True" "net_verify_udp_checksum z = Some True"
    using verify_behind_mac [OF z m6] f(1,2) q(3,4) by (simp_all add: r_def)
  moreover have "rd32 z k = rd32 q k" if "6 \<le> k" for k
    using zf(1) that rd by (simp add: rd32_def)
  ultimately show ?thesis
    using zf f rd(2) by (intro exI [of _ z]) (simp add: r_def)
qed

end
