(* ===== verification/Dhcp.thy ===== *)
theory Dhcp
  imports UdpTx
begin

text \<open>
  The DHCP client, \<^verbatim>\<open>net/dhcp.c\<close>: a state machine driven by received packets and by its timer. Its
  variables extend the state of the network core. The messages are the bytes of \<open>dhcp_message_t\<close> in
  the order of its fields; \<open>set_timer_sec\<close> takes the word the \<open>int\<close> argument converts to. The line
  printed when a lease is acquired is left out, with the prefix length computed for it.
\<close>

datatype dhcp_state_t = DHCP_DISCOVER | DHCP_SELECT | DHCP_REQUEST | DHCP_BOUND | DHCP_RENEW

record dhcp_net = net +
  dhcp_state :: dhcp_state_t
  dhcp_server_id :: u32
  offer_ipv4_address :: u32
  offer_subnet_mask :: u32
  offer_gateway :: u32
  offer_dns_server :: u32
  offer_lease_time :: u32
  renew_retry_remaining :: int
  select_wait_time :: int
  dhcp_sid :: nat

definition short_wait_time :: int where "short_wait_time = 5"
definition renew_retry_count :: int where "renew_retry_count = 100"

definition dhcp_type_discover :: u8 where "dhcp_type_discover = 1"
definition dhcp_type_offer :: u8 where "dhcp_type_offer = 2"
definition dhcp_type_request :: u8 where "dhcp_type_request = 3"
definition dhcp_type_ack :: u8 where "dhcp_type_ack = 5"
definition dhcp_type_nack :: u8 where "dhcp_type_nack = 6"

definition opt_pad :: u8 where "opt_pad = 0x00"
definition opt_subnet_mask :: u8 where "opt_subnet_mask = 0x01"
definition opt_gateway :: u8 where "opt_gateway = 0x03"
definition opt_dns_server :: u8 where "opt_dns_server = 0x06"
definition opt_requested_ip :: u8 where "opt_requested_ip = 0x32"
definition opt_lease_time :: u8 where "opt_lease_time = 0x33"
definition opt_message_type :: u8 where "opt_message_type = 0x35"
definition opt_server_id :: u8 where "opt_server_id = 0x36"
definition opt_terminator :: u8 where "opt_terminator = 0xFF"

lemmas opt_codes = opt_pad_def opt_subnet_mask_def opt_gateway_def opt_dns_server_def opt_requested_ip_def
  opt_lease_time_def opt_message_type_def opt_server_id_def opt_terminator_def

definition discover_options :: "u8 list" where
  "discover_options = [opt_message_type, 1, dhcp_type_discover, 0x37, 4, 1, 3, 6, 0x0F]"

definition dhcp_always_options :: "u8 list" where "dhcp_always_options = [0x39, 2, 5, 0x78]"

definition magic_cookie_value :: "u8 list" where "magic_cookie_value = [0x63, 0x82, 0x53, 0x63]"

section \<open>Messages\<close>

definition dhcp_message :: "u32 \<Rightarrow> u8 list \<Rightarrow> u8 \<Rightarrow> u8 list \<Rightarrow> u8 list" where
  "dhcp_message xid mac message_type extra_options =
     [1, 1, 6, 0] @ bytes32 xid @ [0, 0] @ [0, 0] @ replicate 16 0 @ mac @ replicate (10 + 64 + 128) 0 @
     magic_cookie_value @ [opt_message_type, 1, message_type] @ dhcp_always_options @ extra_options @
     [opt_terminator]"

definition packet_create_dhcp ::
  "u32 \<Rightarrow> u8 \<Rightarrow> u8 list \<Rightarrow> 'a net_scheme \<Rightarrow> (packet \<times> 'a net_scheme) option" where
  "packet_create_dhcp target_ipv4 message_type extra_options s = do {
     p \<leftarrow> packet_create_udp (conf s) (junk s) (now s) target_ipv4 67 68
            (236 + (4 + 3 + 4 + length extra_options + 1));
     d \<leftarrow> pdata p;
     p \<leftarrow> wr p d (dhcp_message (now s) (if_mac (conf s)) message_type extra_options);
     Some (p, packet_born s) }"

definition dhcp_send_request :: "'a dhcp_net_scheme \<Rightarrow> 'a dhcp_net_scheme option" where
  "dhcp_send_request s = do {
     (req, s) \<leftarrow> packet_create_dhcp ipv4_broadcast dhcp_type_request
        ([opt_requested_ip, 4] @ bytes32 (offer_ipv4_address s) @ [opt_server_id, 4] @ bytes32 (dhcp_server_id s)) s;
     net_tx req s }"

section \<open>Reading a reply\<close>

text \<open>One option with all its data inside the message; the flag is false if the packet is rejected.
  \<open>i\<close> is the offset of its data in the frame.\<close>

definition dhcp_option ::
  "packet \<Rightarrow> u8 \<Rightarrow> u8 \<Rightarrow> u8 \<Rightarrow> nat \<Rightarrow> 'a dhcp_net_scheme \<Rightarrow> (bool \<times> 'a dhcp_net_scheme) option" where
  "dhcp_option p expected code len i s =
     (if code = opt_message_type then
        (if len \<noteq> 1 then Some (False, s) else do { t \<leftarrow> rd8 p i; Some (t = expected, s) })
      else if code = opt_server_id then
        (if len \<noteq> 4 then Some (False, s) else do { v \<leftarrow> rd32 p i; Some (True, s\<lparr>dhcp_server_id := v\<rparr>) })
      else if code = opt_subnet_mask then
        (if len \<noteq> 4 then Some (False, s) else do { v \<leftarrow> rd32 p i; Some (True, s\<lparr>offer_subnet_mask := v\<rparr>) })
      else if code = opt_gateway then
        (if len \<noteq> 4 then Some (False, s) else do { v \<leftarrow> rd32 p i; Some (True, s\<lparr>offer_gateway := v\<rparr>) })
      else if code = opt_lease_time then
        (if len \<noteq> 4 then Some (False, s) else do { v \<leftarrow> rd32 p i; Some (True, s\<lparr>offer_lease_time := v\<rparr>) })
      else if code = opt_dns_server then
        (if len < 4 then Some (False, s) else do { v \<leftarrow> rd32 p i; Some (True, s\<lparr>offer_dns_server := v\<rparr>) })
      else Some (True, s))"

text \<open>The loop over the options; \<open>field\<close> is the offset of the option field in the frame.\<close>

function dhcp_options ::
  "packet \<Rightarrow> u8 \<Rightarrow> nat \<Rightarrow> nat \<Rightarrow> nat \<Rightarrow> 'a dhcp_net_scheme \<Rightarrow> (bool \<times> 'a dhcp_net_scheme) option" where
  "dhcp_options p expected field length' offset s =
     (if offset < length' then do {
        code \<leftarrow> rd8 p (field + offset);
        if code = opt_terminator then Some (True, s)
        else if code = opt_pad then dhcp_options p expected field length' (offset + 1) s
        else do {
          len \<leftarrow> rd8 p (field + offset + 1);
          (ok, s) \<leftarrow> (if length' - offset \<ge> 2 + unat len
                      then dhcp_option p expected code len (field + offset + 2) s else Some (True, s));
          if \<not> ok then Some (False, s)
          else dhcp_options p expected field length' (offset + 2 + unat len) s } }
      else Some (True, s))"
  by pat_completeness auto
termination
  by (relation "measure (\<lambda>(p, e, b, n, i, s). n - i)") auto

declare dhcp_options.simps [simp del]

definition process_dhcp_reply ::
  "packet \<Rightarrow> u8 \<Rightarrow> 'a dhcp_net_scheme \<Rightarrow> (bool \<times> 'a dhcp_net_scheme) option" where
  "process_dhcp_reply p expected s = do {
     d \<leftarrow> pdata p;
     op \<leftarrow> rd8 p d;
     if op \<noteq> 2 then Some (False, s)
     else if int (unat (data_length p)) - 236 \<le> 4 then Some (False, s)
     else do {
       cookie \<leftarrow> rdn p (d + 236) 4;
       if cookie \<noteq> magic_cookie_value then Some (False, s)
       else do {
         yiaddr \<leftarrow> rd32 p (d + 16);
         dhcp_options p expected (d + 236) (unat (data_length p) - 236) 4
           (s\<lparr>dhcp_server_id := 0, offer_lease_time := 0, offer_subnet_mask := 0, offer_gateway := 0,
              offer_dns_server := 0, offer_ipv4_address := yiaddr\<rparr>) } } }"

section \<open>The state machine\<close>

definition dhcp_set_timer :: "u32 \<Rightarrow> 'a dhcp_net_scheme \<Rightarrow> 'a dhcp_net_scheme" where
  "dhcp_set_timer sec s = s\<lparr>sinks := set_sink_timer (dhcp_sid s) (set_timer_sec (now s) sec) (sinks s)\<rparr>"

definition reset_interface :: "'a dhcp_net_scheme \<Rightarrow> 'a dhcp_net_scheme" where
  "reset_interface s =
     s\<lparr>offer_dns_server := 0, offer_gateway := 0, offer_lease_time := 0, offer_subnet_mask := 0,
       dhcp_server_id := 0,
       conf := (conf s)\<lparr>if_dns := 0, if_gateway := 0, if_ip := 0, if_mask := 0\<rparr>\<rparr>"

function dhcp_enter_state :: "dhcp_state_t \<Rightarrow> 'a dhcp_net_scheme \<Rightarrow> 'a dhcp_net_scheme option" where
  "dhcp_enter_state DHCP_DISCOVER s = do {
     let s = reset_interface (s\<lparr>dhcp_state := DHCP_DISCOVER\<rparr>);
     (p, s) \<leftarrow> packet_create_dhcp ipv4_broadcast dhcp_type_discover discover_options s;
     s \<leftarrow> net_tx p s;
     dhcp_enter_state DHCP_SELECT s }"
| "dhcp_enter_state DHCP_SELECT s =
     (let s = dhcp_set_timer (of_int (select_wait_time s)) (s\<lparr>dhcp_state := DHCP_SELECT\<rparr>)
      in Some (if select_wait_time s < 120 then s\<lparr>select_wait_time := select_wait_time s * 2\<rparr> else s))"
| "dhcp_enter_state DHCP_REQUEST s =
     Some (dhcp_set_timer (of_int short_wait_time) (s\<lparr>dhcp_state := DHCP_REQUEST\<rparr>))"
| "dhcp_enter_state DHCP_BOUND s =
     Some (dhcp_set_timer (offer_lease_time s - of_int (renew_retry_count * short_wait_time))
       (s\<lparr>dhcp_state := DHCP_BOUND\<rparr>))"
| "dhcp_enter_state DHCP_RENEW s =
     dhcp_send_request (dhcp_set_timer (of_int short_wait_time)
       (s\<lparr>dhcp_state := DHCP_RENEW, renew_retry_remaining := renew_retry_count\<rparr>))"
  by pat_completeness auto
termination by (relation "measure (\<lambda>(st, s). if st = DHCP_DISCOVER then 1 else 0)") auto

definition dhcp_timer :: "'a dhcp_net_scheme \<Rightarrow> 'a dhcp_net_scheme option" where
  "dhcp_timer s =
     (case dhcp_state s of
        DHCP_DISCOVER \<Rightarrow> Some s
      | DHCP_SELECT \<Rightarrow> dhcp_enter_state DHCP_DISCOVER s
      | DHCP_REQUEST \<Rightarrow> dhcp_enter_state DHCP_DISCOVER s
      | DHCP_BOUND \<Rightarrow> dhcp_enter_state DHCP_RENEW s
      | DHCP_RENEW \<Rightarrow>
          (let s = s\<lparr>renew_retry_remaining := renew_retry_remaining s - 1\<rparr> in
           if renew_retry_remaining s > 0
           then map_option (dhcp_set_timer (of_int short_wait_time)) (dhcp_send_request s)
           else dhcp_enter_state DHCP_DISCOVER s))"

definition take_lease :: "'a dhcp_net_scheme \<Rightarrow> 'a dhcp_net_scheme" where
  "take_lease s = s\<lparr>conf := (conf s)\<lparr>if_ip := offer_ipv4_address s, if_mask := offer_subnet_mask s,
     if_gateway := offer_gateway s, if_dns := offer_dns_server s\<rparr>\<rparr>"

definition suitable :: "'a dhcp_net_scheme \<Rightarrow> bool" where
  "suitable s \<longleftrightarrow> offer_ipv4_address s \<noteq> 0 \<and> offer_gateway s \<noteq> 0 \<and> offer_dns_server s \<noteq> 0 \<and>
     offer_lease_time s \<ge> 180"

definition dhcp_input :: "packet \<Rightarrow> 'a dhcp_net_scheme \<Rightarrow> 'a dhcp_net_scheme option" where
  "dhcp_input p s =
     (case dhcp_state s of
        DHCP_DISCOVER \<Rightarrow> Some s
      | DHCP_BOUND \<Rightarrow> Some s
      | DHCP_SELECT \<Rightarrow> do {
          (ok, s) \<leftarrow> process_dhcp_reply p dhcp_type_offer s;
          if \<not> ok \<or> \<not> suitable s then Some s
          else do {
            s \<leftarrow> dhcp_send_request s;
            dhcp_enter_state DHCP_REQUEST (s\<lparr>select_wait_time := short_wait_time\<rparr>) } }
      | _ \<Rightarrow> do {
          (nack, s) \<leftarrow> process_dhcp_reply p dhcp_type_nack s;
          if nack then dhcp_enter_state DHCP_DISCOVER s
          else do {
            (ack, s) \<leftarrow> process_dhcp_reply p dhcp_type_ack s;
            if ack then dhcp_enter_state DHCP_BOUND (take_lease s) else Some s } })"

definition dhcp_pump :: "packet \<Rightarrow> 'a dhcp_net_scheme \<Rightarrow> 'a dhcp_net_scheme option" where
  "dhcp_pump p s = map_option packet_free (dhcp_input p s)"

definition dhcp_sink :: "nat \<Rightarrow> sink" where
  "dhcp_sink i = (packet_sink_alloc i)\<lparr>match_ethertype := ethertype_ipv4, match_ipv4_protocol := ip_proto_udp,
     match_local_port := 68, cb_packet_received := Dhcp_pump, cb_timer_expired := Dhcp_timer\<rparr>"

definition dhcp_init :: "nat \<Rightarrow> 'a dhcp_net_scheme \<Rightarrow> 'a dhcp_net_scheme option" where
  "dhcp_init i s = do {
     s \<leftarrow> net_add_packet_sink (dhcp_sink i) (s\<lparr>dhcp_sid := i\<rparr>);
     dhcp_enter_state DHCP_DISCOVER s }"

section \<open>The messages on the wire\<close>

text \<open>A frame from port 68 of the interface, whatever its address, to port 67 of everybody, with valid
  checksums, that carries a message.\<close>

definition dhcp_frame :: "packet \<Rightarrow> netconf \<Rightarrow> u8 list \<Rightarrow> bool" where
  "dhcp_frame q cf message \<longleftrightarrow> take 6 (pbuf q) = broadcast_macaddr \<and> drop 42 (pbuf q) = message \<and>
     length (pbuf q) = 42 + length message \<and> unat (buffer_length q) = 42 + length message \<and>
     rd32 q 26 = Some (if_ip cf) \<and> rd32 q 30 = Some ipv4_broadcast \<and> rd16 q 34 = Some 68 \<and> rd16 q 36 = Some 67 \<and>
     rd16 q 38 = Some (of_nat (8 + length message)) \<and>
     net_verify_ipv4_checksum q = Some True \<and> net_verify_udp_checksum q = Some True"

lemma length_dhcp_message:
  "length mac = 6 \<Longrightarrow> length (dhcp_message xid mac mt x) = 236 + (4 + 3 + 4 + length x + 1)"
  by (simp add: dhcp_message_def magic_cookie_value_def dhcp_always_options_def)

lemma dhcp_message_sent:
  assumes m: "length (if_mac (conf s)) = 6" and x: "length x \<le> 1000"
  obtains p q where "packet_create_dhcp ipv4_broadcast mt x s = Some (p, packet_born s)"
    "net_tx p (packet_born s) = transmit_now q (packet_born s)"
    "dhcp_frame q (conf s) (dhcp_message (now s) (if_mac (conf s)) mt x)"
proof -
  let ?msg = "dhcp_message (now s) (if_mac (conf s)) mt x" and ?n = "236 + (4 + 3 + 4 + length x + 1)"
  note lm = length_dhcp_message [OF m, of "now s" mt x]
  obtain p where p: "packet_create_udp (conf s) (junk s) (now s) ipv4_broadcast 67 68 ?n = Some p"
    "length (pbuf p) = 42 + ?n" "pipv4 p = Some 14" "pudp p = Some 34" "pflags p = 0" "pdata p = Some 42"
    "buffer_length p = of_nat (42 + ?n)" "ethertype p = Some ethertype_ipv4" "rd8 p 23 = Some ip_proto_udp"
    "rd32 p 26 = Some (if_ip (conf s))" "rd32 p 30 = Some ipv4_broadcast" "rd16 p 34 = Some 68" "rd16 p 36 = Some 67"
    "rd16 p 38 = Some (of_nat (8 + ?n))"
    by (rule create_udp [OF m])
  let ?p = "put p 42 ?msg"
  have c: "packet_create_dhcp ipv4_broadcast mt x s = Some (?p, packet_born s)"
    using p(1,2,6) lm by (simp add: packet_create_dhcp_def wr_put)
  have fit: "42 + length ?msg \<le> length (pbuf p)" using p(2) lm by simp
  have rd: "rd8 ?p k = rd8 p k" if "k < 42" for k using that fit by simp
  have n: "unat (of_nat (8 + ?n) :: u16) = 8 + ?n" "unat (of_nat (42 + ?n) :: u16) = 42 + ?n"
    by (rule u16_unat_of_nat; use x in simp)+
  have "\<exists>q. net_tx ?p (packet_born s) = transmit_now q (packet_born s) \<and> take 6 (pbuf q) = broadcast_macaddr \<and>
    length (pbuf q) = length (pbuf ?p) \<and> buffer_length q = buffer_length ?p \<and>
    rd32 q 26 = Some (if_ip (conf s)) \<and> rd32 q 30 = Some ipv4_broadcast \<and> rd16 q 34 = Some 68 \<and> rd16 q 36 = Some 67 \<and>
    rd16 q 38 = Some (of_nat (8 + ?n)) \<and> drop 42 (pbuf q) = drop 42 (pbuf ?p) \<and>
    net_verify_ipv4_checksum q = Some True \<and> net_verify_udp_checksum q = Some True"
  proof (rule net_tx_udp_broadcast)
    show "8 \<le> unat (of_nat (8 + ?n) :: u16)" "34 + unat (of_nat (8 + ?n) :: u16) \<le> length (pbuf ?p)"
      unfolding n using p(2) fit by simp_all
    show "ethertype ?p = Some ethertype_ipv4" "rd32 ?p 26 = Some (if_ip (conf s))" "rd32 ?p 30 = Some ipv4_broadcast"
      "rd16 ?p 34 = Some 68" "rd16 ?p 36 = Some 67" "rd16 ?p 38 = Some (of_nat (8 + ?n))"
      using p(8,10-14) rd by (simp_all add: ethertype_def rd16_def rd32_def)
  qed (use p rd in auto)
  then obtain q where q: "net_tx ?p (packet_born s) = transmit_now q (packet_born s)" "take 6 (pbuf q) = broadcast_macaddr"
    "length (pbuf q) = length (pbuf ?p)" "buffer_length q = buffer_length ?p"
    "rd32 q 26 = Some (if_ip (conf s))" "rd32 q 30 = Some ipv4_broadcast" "rd16 q 34 = Some 68" "rd16 q 36 = Some 67"
    "rd16 q 38 = Some (of_nat (8 + ?n))" "drop 42 (pbuf q) = drop 42 (pbuf ?p)"
    "net_verify_ipv4_checksum q = Some True" "net_verify_udp_checksum q = Some True" by blast
  have "drop 42 (pbuf q) = ?msg" using q(10) fit p(2) lm by (simp add: drop_put_at)
  then have "dhcp_frame q (conf s) ?msg"
    unfolding dhcp_frame_def lm using q p(2,7) n fit by simp
  with that c q(1) show ?thesis by blast
qed

section \<open>Options as a server writes them\<close>

text \<open>An option as a code and a value; a pad is its code alone. What the client takes from one.\<close>

definition option_bytes :: "u8 \<times> u8 list \<Rightarrow> u8 list" where
  "option_bytes opt = (if fst opt = opt_pad then [opt_pad] else fst opt # of_nat (length (snd opt)) # snd opt)"

definition first_word :: "u8 list \<Rightarrow> u32 option" where
  "first_word v = (case v of a # b # c # d # _ \<Rightarrow> Some (be32 a b c d) | _ \<Rightarrow> None)"

definition note_option :: "u8 \<Rightarrow> u8 \<times> u8 list \<Rightarrow> 'a dhcp_net_scheme \<Rightarrow> bool \<times> 'a dhcp_net_scheme" where
  "note_option expected opt s =
     (let field = fst opt; v = snd opt;
          word = (\<lambda>set. case first_word v of Some w \<Rightarrow> if length v = 4 \<or> field = opt_dns_server then (True, set w) else (False, s)
                                          | None \<Rightarrow> (False, s)) in
      if field = opt_message_type then (v = [expected], s)
      else if field = opt_server_id then word (\<lambda>w. s\<lparr>dhcp_server_id := w\<rparr>)
      else if field = opt_subnet_mask then word (\<lambda>w. s\<lparr>offer_subnet_mask := w\<rparr>)
      else if field = opt_gateway then word (\<lambda>w. s\<lparr>offer_gateway := w\<rparr>)
      else if field = opt_lease_time then word (\<lambda>w. s\<lparr>offer_lease_time := w\<rparr>)
      else if field = opt_dns_server then word (\<lambda>w. s\<lparr>offer_dns_server := w\<rparr>)
      else (True, s))"

fun note_options :: "u8 \<Rightarrow> (u8 \<times> u8 list) list \<Rightarrow> 'a dhcp_net_scheme \<Rightarrow> bool \<times> 'a dhcp_net_scheme" where
  "note_options e [] s = (True, s)"
| "note_options e (opt # opts) s =
     (if fst (note_option e opt s) then note_options e opts (snd (note_option e opt s)) else (False, snd (note_option e opt s)))"

definition written_option :: "u8 \<times> u8 list \<Rightarrow> bool" where
  "written_option opt \<longleftrightarrow> fst opt \<noteq> opt_terminator \<and> length (snd opt) < 256"

lemma rd8_at:
  assumes "drop i (pbuf p) = bs @ rest" "k < length bs"
  shows "rd8 p (i + k) = Some (bs ! k)"
proof -
  have l: "length (pbuf p) - i = length bs + length rest" using arg_cong [OF assms(1), of length] by simp
  have "pbuf p ! (i + k) = drop i (pbuf p) ! k" using assms(2) l by simp
  then have "pbuf p ! (i + k) = (bs @ rest) ! k" by (simp only: assms(1))
  then show ?thesis using assms(2) l by (simp add: rd8_def nth_append)
qed

lemma first_word_rd32:
  assumes "drop i (pbuf p) = v @ rest" "4 \<le> length v"
  shows "rd32 p i = first_word v"
proof -
  obtain a b c d w where v: "v = a # b # c # d # w"
    using assms(2) by (auto simp: numeral_eq_Suc Suc_le_length_iff)
  show ?thesis
    using rd8_at [OF assms(1), of 0] rd8_at [OF assms(1), of 1] rd8_at [OF assms(1), of 2] rd8_at [OF assms(1), of 3]
    by (simp add: v rd32_def first_word_def numeral_3_eq_3)
qed

lemma first_word_None: "first_word v = None \<longleftrightarrow> length v < 4"
  by (auto simp: first_word_def split: list.splits)

lemma dhcp_option_notes:
  assumes d: "drop i (pbuf p) = v @ rest" and l: "length v < 256"
  shows "dhcp_option p e c (of_nat (length v)) i s = Some (note_option e (c, v) s)"
proof -
  have u: "unat (of_nat (length v) :: u8) = length v" using l by (rule u8_unat_of_nat)
  then have eq: "of_nat (length v) = (4 :: u8) \<longleftrightarrow> length v = 4" "of_nat (length v) = (1 :: u8) \<longleftrightarrow> length v = 1"
    "of_nat (length v) < (4 :: u8) \<longleftrightarrow> length v < 4"
    by (simp_all add: word_unat_eq_iff word_less_nat_alt)
  have one: "rd8 p i = Some (v ! 0)" if "length v = 1" using rd8_at [OF d, of 0] that by simp
  have w: "rd32 p i = first_word v" if "\<not> length v < 4" using first_word_rd32 [OF d] that by simp
  have v1: "v = [e] \<longleftrightarrow> length v = 1 \<and> v ! 0 = e" by (cases v) auto
  consider "length v < 4" "length v = 1" | "length v < 4" "length v \<noteq> 1" | "length v = 4" | "length v > 4" by linarith
  then show ?thesis
  proof cases
    case 1
    then have "first_word v = None" using first_word_None by blast
    with 1 one show ?thesis by (simp add: dhcp_option_def note_option_def Let_def eq v1)
  next
    case 2
    then have "first_word v = None" using first_word_None by blast
    with 2 show ?thesis by (simp add: dhcp_option_def note_option_def Let_def eq v1)
  next
    case 3
    then obtain x where "first_word v = Some x" using first_word_None [of v] by fastforce
    with 3 w show ?thesis by (simp add: dhcp_option_def note_option_def Let_def eq v1)
  next
    case 4
    then obtain x where x: "first_word v = Some x" using first_word_None [of v] by fastforce
    have "(length v = 4) = False" "(length v = 1) = False" "(length v < 4) = False" "rd32 p i = Some x"
      using 4 w x by simp_all
    then show ?thesis
      unfolding dhcp_option_def note_option_def Let_def eq v1 x fst_conv snd_conv opt_codes
      by (cases "c = 1"; cases "c = 3"; cases "c = 6"; cases "c = 0x33"; cases "c = 0x35"; cases "c = 0x36") simp_all
  qed
qed

lemma dhcp_options_read:
  assumes "drop (field + i) (pbuf p) = concat (map option_bytes opts) @ opt_terminator # rest"
    and "i + length (concat (map option_bytes opts)) < n" "\<forall>opt \<in> set opts. written_option opt"
  shows "dhcp_options p e field n i s = Some (note_options e opts s)"
  using assms
proof (induction opts arbitrary: i s)
  case Nil
  then have "rd8 p (field + i) = Some opt_terminator" using rd8_at [of "field + i" p "[opt_terminator]" rest 0] by simp
  with Nil.prems(2) show ?case by (subst dhcp_options.simps) simp
next
  case (Cons opt opts)
  obtain c v where opt: "opt = (c, v)" by (cases opt)
  let ?tail = "concat (map option_bytes opts) @ opt_terminator # rest"
  have c: "c \<noteq> opt_terminator" "length v < 256" using Cons.prems(3) by (simp_all add: opt written_option_def)
  have d: "drop (field + i) (pbuf p) = option_bytes opt @ ?tail" using Cons.prems(1) by simp
  have r: "rd8 p (field + i) = Some c" using rd8_at [OF d, of 0] by (simp add: opt option_bytes_def split: if_splits)
  show ?case
  proof (cases "c = opt_pad")
    case True
    then have "drop (field + (i + 1)) (pbuf p) = ?tail"
      using arg_cong [OF d, of "drop 1"] by (simp add: opt option_bytes_def add.commute)
    from Cons.IH [OF this] Cons.prems(2,3) True c r show ?thesis
      by (subst dhcp_options.simps) (simp add: opt option_bytes_def note_option_def opt_codes)
  next
    case False
    have u: "unat (of_nat (length v) :: u8) = length v" using c(2) by (rule u8_unat_of_nat)
    have b: "option_bytes opt = c # of_nat (length v) # v" using False by (simp add: opt option_bytes_def)
    have n: "i + 2 + length v + length (concat (map option_bytes opts)) < n" using Cons.prems(2) b by simp
    have l: "rd8 p (field + i + 1) = Some (of_nat (length v))" using rd8_at [OF d, of 1] b by simp
    have dv: "drop (field + i + 2) (pbuf p) = v @ ?tail"
      using arg_cong [OF d, of "drop 2"] b by (simp add: add.commute add.left_commute)
    have dt: "drop (field + (i + 2 + length v)) (pbuf p) = ?tail"
      using arg_cong [OF dv, of "drop (length v)"] by (simp add: ac_simps)
    obtain ok t where o: "note_option e opt s = (ok, t)" by (cases "note_option e opt s")
    have "dhcp_option p e c (of_nat (length v)) (field + i + 2) s = Some (ok, t)"
      using dhcp_option_notes [OF dv c(2), of e c s] o opt by simp
    moreover have "dhcp_options p e field n (i + 2 + length v) t = Some (note_options e opts t)"
      using Cons.IH [OF dt n] Cons.prems(3) by simp
    ultimately show ?thesis
      using n False c(1) r l u o le_diff_conv2 [of i n "2 + length v"] by (subst dhcp_options.simps) simp
  qed
qed

text \<open>A reply: the fixed part, of which the client reads the operation and the address offered, the
  cookie, the options and whatever follows them.\<close>

definition server_reply :: "u8 list \<Rightarrow> u32 \<Rightarrow> u8 list \<Rightarrow> (u8 \<times> u8 list) list \<Rightarrow> u8 list" where
  "server_reply before yiaddr after opts =
     2 # before @ bytes32 yiaddr @ after @ magic_cookie_value @ concat (map option_bytes opts) @ [opt_terminator]"

text \<open>C30. Reading a server's reply. For every reply a server can write (any list of options and pads with
  values of up to 255 bytes, a terminator, and whatever follows), the client takes from the message the
  offered address and, option by option in their order, exactly the values that were written, later ones
  overriding earlier ones, and accepts the message unless an option of the wrong size or of another
  message type stops it there.\<close>

theorem dhcp_reply_read:
  assumes "length before = 15" "length after = 216" "\<forall>opt \<in> set opts. written_option opt"
    and "pdata p = Some d" "drop d (pbuf p) = server_reply before yiaddr after opts @ rest"
    and "unat (data_length p) = length (server_reply before yiaddr after opts)"
  shows "process_dhcp_reply p e s = Some (note_options e opts
    (s\<lparr>dhcp_server_id := 0, offer_lease_time := 0, offer_subnet_mask := 0, offer_gateway := 0,
       offer_dns_server := 0, offer_ipv4_address := yiaddr\<rparr>))"
proof -
  let ?opts = "concat (map option_bytes opts) @ opt_terminator # rest"
  have d: "drop d (pbuf p) = 2 # before @ bytes32 yiaddr @ after @ magic_cookie_value @ ?opts"
    using assms(5) by (simp add: server_reply_def)
  have m: "length magic_cookie_value = 4" by (simp add: magic_cookie_value_def)
  have op: "rd8 p d = Some 2" using rd8_at [of d p "[2]" _ 0] d by simp
  have "drop (d + 16) (pbuf p) = bytes32 yiaddr @ after @ magic_cookie_value @ ?opts"
    using arg_cong [OF d, of "drop 16"] assms(1) by (simp add: add.commute)
  note y = this first_word_rd32 [OF this]
  have "rd32 p (d + 16) = Some yiaddr"
    using y(2) be32_bytes32 [of yiaddr] by (simp add: first_word_def bytes32_def)
  moreover have c: "drop (d + 236) (pbuf p) = magic_cookie_value @ ?opts"
    using arg_cong [OF d, of "drop 236"] assms(1,2) by (simp add: add.commute)
  moreover have "length (pbuf p) - (d + 236) = length magic_cookie_value + length ?opts"
    using arg_cong [OF c, of length] by (simp only: length_drop length_append)
  then have "rdn p (d + 236) 4 = Some magic_cookie_value" using c m by (simp add: rdn_def add.commute)
  moreover have o: "drop (d + 236 + 4) (pbuf p) = ?opts"
    using arg_cong [OF c, of "drop 4"] m by (simp add: add.commute)
  have "dhcp_options p e (d + 236) (unat (data_length p) - 236) 4 t = Some (note_options e opts t)" for t :: "'a dhcp_net_scheme"
    by (rule dhcp_options_read [OF o _ assms(3)]) (use assms(1,2,6) m in \<open>simp add: server_reply_def\<close>)
  moreover have "\<not> int (unat (data_length p)) - 236 \<le> 4" using assms(1,2,6) m by (simp add: server_reply_def)
  ultimately show ?thesis
    using op assms(4) by (simp add: process_dhcp_reply_def)
qed

section \<open>What the operations touch\<close>

lemma surroundings_dhcp:
  assumes "surroundings s' = surroundings s"
  shows "conf s' = conf s" "sinks s' = sinks s" "now s' = now s" "dhcp_state s' = dhcp_state s"
    "dhcp_server_id s' = dhcp_server_id s" "offer_ipv4_address s' = offer_ipv4_address s"
    "offer_subnet_mask s' = offer_subnet_mask s" "offer_gateway s' = offer_gateway s"
    "offer_dns_server s' = offer_dns_server s" "offer_lease_time s' = offer_lease_time s"
    "renew_retry_remaining s' = renew_retry_remaining s" "select_wait_time s' = select_wait_time s"
    "dhcp_sid s' = dhcp_sid s"
  using assms by (cases s; cases s'; simp add: surroundings_def)+

lemma packet_create_dhcp_state: "packet_create_dhcp t m x s = Some (p, s') \<Longrightarrow> s' = packet_born s"
  by (auto simp: packet_create_dhcp_def bind_eq_Some_conv)

lemma packet_born_surroundings [simp]: "surroundings (packet_born s) = surroundings s"
  by (simp add: surroundings_def packet_born_def)

lemma packet_free_surroundings [simp]: "surroundings (packet_free s) = surroundings s"
  by (simp add: surroundings_def packet_free_def)

lemma create_and_send:
  assumes "packet_create_dhcp t m x s = Some (p, u)" "net_tx p u = Some s'"
  shows "surroundings s' = surroundings s" "in_hand s' = in_hand s"
  using packet_create_dhcp_state [OF assms(1)] net_tx_surroundings [OF assms(2)] net_tx_in_hand [OF assms(2)]
  by simp_all

lemma send_request_effect:
  assumes "dhcp_send_request s = Some s'"
  shows "surroundings s' = surroundings s" "in_hand s' = in_hand s"
  using assms create_and_send unfolding dhcp_send_request_def by (auto simp: bind_eq_Some_conv, blast+)

text \<open>Reading a reply changes the offer only.\<close>

definition forget_offer :: "'a dhcp_net_scheme \<Rightarrow> 'a dhcp_net_scheme" where
  "forget_offer s = s\<lparr>dhcp_server_id := 0, offer_ipv4_address := 0, offer_subnet_mask := 0,
     offer_gateway := 0, offer_dns_server := 0, offer_lease_time := 0\<rparr>"

definition offers_only :: "'a dhcp_net_scheme \<Rightarrow> 'a dhcp_net_scheme \<Rightarrow> bool" where
  "offers_only s s' \<longleftrightarrow> forget_offer s' = forget_offer s"

lemma offers_upd [simp]:
  "offers_only s (t\<lparr>dhcp_server_id := v\<rparr>) = offers_only s t" "offers_only s (t\<lparr>offer_subnet_mask := v\<rparr>) = offers_only s t"
  "offers_only s (t\<lparr>offer_gateway := v\<rparr>) = offers_only s t" "offers_only s (t\<lparr>offer_dns_server := v\<rparr>) = offers_only s t"
  "offers_only s (t\<lparr>offer_lease_time := v\<rparr>) = offers_only s t" "offers_only s (t\<lparr>offer_ipv4_address := v\<rparr>) = offers_only s t"
  "offers_only (s\<lparr>dhcp_server_id := v\<rparr>) t = offers_only s t" "offers_only (s\<lparr>offer_subnet_mask := v\<rparr>) t = offers_only s t"
  "offers_only (s\<lparr>offer_gateway := v\<rparr>) t = offers_only s t" "offers_only (s\<lparr>offer_dns_server := v\<rparr>) t = offers_only s t"
  "offers_only (s\<lparr>offer_lease_time := v\<rparr>) t = offers_only s t" "offers_only (s\<lparr>offer_ipv4_address := v\<rparr>) t = offers_only s t"
  "offers_only s s"
  by (simp_all add: offers_only_def forget_offer_def)

lemma offers_trans: "offers_only s t \<Longrightarrow> offers_only t u \<Longrightarrow> offers_only s u"
  by (simp add: offers_only_def)

lemma offers_fields:
  assumes "offers_only s s'"
  shows "conf s' = conf s" "dhcp_state s' = dhcp_state s" "renew_retry_remaining s' = renew_retry_remaining s"
    "select_wait_time s' = select_wait_time s" "in_hand s' = in_hand s"
  using assms by (cases s; cases s'; simp add: offers_only_def forget_offer_def in_hand_def)+

lemma dhcp_option_offers: "dhcp_option p e c l i s = Some (ok, s') \<Longrightarrow> offers_only s s'"
  unfolding dhcp_option_def by (auto simp: bind_eq_Some_conv split: if_splits)

lemma dhcp_options_offers: "dhcp_options p e f n i s = Some (ok, s') \<Longrightarrow> offers_only s s'"
proof (induction p e f n i s rule: dhcp_options.induct)
  case (1 p e f n i s)
  show ?case
  proof (cases "i < n")
    case False
    with 1(3) show ?thesis by (subst (asm) dhcp_options.simps) simp
  next
    case True
    with 1(3) obtain c where c: "rd8 p (f + i) = Some c"
      by (subst (asm) dhcp_options.simps) (auto simp: bind_eq_Some_conv)
    consider "c = opt_terminator" | "c \<noteq> opt_terminator" "c = opt_pad" | "c \<noteq> opt_terminator" "c \<noteq> opt_pad" by blast
    then show ?thesis
    proof cases
      case 1
      with "1.prems" True c show ?thesis by (subst (asm) dhcp_options.simps) simp
    next
      case 2
      with "1.prems" True c have "dhcp_options p e f n (i + 1) s = Some (ok, s')"
        by (subst (asm) dhcp_options.simps) simp
      with "1.IH"(1) [OF True c] 2 show ?thesis by simp
    next
      case 3
      with "1.prems" True c obtain l where l: "rd8 p (f + i + 1) = Some l"
        by (subst (asm) dhcp_options.simps) (auto simp: bind_eq_Some_conv)
      with "1.prems" True c 3 obtain good t where
        o: "(if n - i \<ge> 2 + unat l then dhcp_option p e c l (f + i + 2) s else Some (True, s)) = Some (good, t)"
        and r: "(if \<not> good then Some (False, t) else dhcp_options p e f n (i + 2 + unat l) t) = Some (ok, s')"
        by (subst (asm) dhcp_options.simps) (auto simp: bind_eq_Some_conv)
      have t: "offers_only s t" using o dhcp_option_offers by (fastforce split: if_splits)
      show ?thesis
      proof (cases good)
        case False
        with r t show ?thesis by simp
      next
        case good: True
        with r have "dhcp_options p e f n (i + 2 + unat l) t = Some (ok, s')" by simp
        with "1.IH"(2) [OF True c 3 l o refl] good t show ?thesis using offers_trans by blast
      qed
    qed
  qed
qed

lemma process_reply_offers: "process_dhcp_reply p e s = Some (ok, s') \<Longrightarrow> offers_only s s'"
  unfolding process_dhcp_reply_def
  by (auto simp: bind_eq_Some_conv split: if_splits dest!: dhcp_options_offers)

section \<open>The states of the client\<close>

definition interface_of :: "'a net_scheme \<Rightarrow> u32 \<times> u32 \<times> u32 \<times> u32" where
  "interface_of s = (if_ip (conf s), if_mask (conf s), if_gateway (conf s), if_dns (conf s))"

definition offer_of :: "'a dhcp_net_scheme \<Rightarrow> u32 \<times> u32 \<times> u32 \<times> u32" where
  "offer_of s = (offer_ipv4_address s, offer_subnet_mask s, offer_gateway s, offer_dns_server s)"

lemma queued_set_timer [simp]: "queued (set_sink_timer i t ks) = queued ks"
  by (induction ks) auto

lemma dhcp_set_timer_fields [simp]:
  "conf (dhcp_set_timer t s) = conf s" "dhcp_state (dhcp_set_timer t s) = dhcp_state s"
  "in_hand (dhcp_set_timer t s) = in_hand s" "renew_retry_remaining (dhcp_set_timer t s) = renew_retry_remaining s"
  "select_wait_time (dhcp_set_timer t s) = select_wait_time s" "offer_of (dhcp_set_timer t s) = offer_of s"
  by (simp_all add: dhcp_set_timer_def in_hand_def offer_of_def)

lemma in_hand_dhcp [simp]:
  "in_hand (s\<lparr>dhcp_state := x\<rparr>) = in_hand s" "in_hand (s\<lparr>renew_retry_remaining := r\<rparr>) = in_hand s"
  "in_hand (s\<lparr>select_wait_time := w\<rparr>) = in_hand s" "in_hand (reset_interface s) = in_hand s"
  "in_hand (take_lease s) = in_hand s"
  by (simp_all add: in_hand_def reset_interface_def take_lease_def)

definition next_wait :: "int \<Rightarrow> int" where "next_wait w = (if w < 120 then w * 2 else w)"

lemma enter_select:
  "dhcp_enter_state DHCP_SELECT s = Some s' \<Longrightarrow> dhcp_state s' = DHCP_SELECT \<and> conf s' = conf s \<and>
     in_hand s' = in_hand s \<and> select_wait_time s' = next_wait (select_wait_time s)"
  by (auto simp: Let_def next_wait_def split: if_splits)

lemma enter_discover:
  assumes "dhcp_enter_state DHCP_DISCOVER s = Some s'"
  shows "dhcp_state s' = DHCP_SELECT" "interface_of s' = (0, 0, 0, 0)" "in_hand s' = in_hand s"
    "select_wait_time s' = next_wait (select_wait_time s)"
proof -
  let ?r = "reset_interface (s\<lparr>dhcp_state := DHCP_DISCOVER\<rparr>)"
  from assms obtain p u v where c: "packet_create_dhcp ipv4_broadcast dhcp_type_discover discover_options ?r = Some (p, u)"
    and t: "net_tx p u = Some v" and e: "dhcp_enter_state DHCP_SELECT v = Some s'"
    by (auto simp: bind_eq_Some_conv Let_def simp del: dhcp_enter_state.simps(2))
  note v = create_and_send [OF c t]
  from enter_select [OF e] surroundings_dhcp [OF v(1)] v(2)
  show "dhcp_state s' = DHCP_SELECT" "interface_of s' = (0, 0, 0, 0)" "in_hand s' = in_hand s"
    "select_wait_time s' = next_wait (select_wait_time s)"
    by (simp_all add: interface_of_def reset_interface_def) (simp add: in_hand_def)
qed

lemma enter_renew:
  assumes "dhcp_enter_state DHCP_RENEW s = Some s'"
  shows "dhcp_state s' = DHCP_RENEW" "conf s' = conf s" "in_hand s' = in_hand s"
    "select_wait_time s' = select_wait_time s" "renew_retry_remaining s' = 100"
proof -
  from assms have r: "dhcp_send_request (dhcp_set_timer (of_int short_wait_time)
       (s\<lparr>dhcp_state := DHCP_RENEW, renew_retry_remaining := renew_retry_count\<rparr>)) = Some s'" by simp
  note e = send_request_effect [OF r]
  from surroundings_dhcp [OF e(1)] e(2)
  show "dhcp_state s' = DHCP_RENEW" "conf s' = conf s" "in_hand s' = in_hand s"
    "select_wait_time s' = select_wait_time s" "renew_retry_remaining s' = 100"
    by (simp_all add: renew_retry_count_def)
qed

text \<open>The invariant: the client never rests in \<open>DHCP_DISCOVER\<close>; without a lease the interface has no
  address; between 1 and 100 renewals are left; and the offer timeout is one of the doubled values.\<close>

definition dhcp_inv :: "'a dhcp_net_scheme \<Rightarrow> bool" where
  "dhcp_inv s \<longleftrightarrow> dhcp_state s \<noteq> DHCP_DISCOVER \<and>
     (dhcp_state s = DHCP_SELECT \<or> dhcp_state s = DHCP_REQUEST \<longrightarrow> interface_of s = (0, 0, 0, 0)) \<and>
     (dhcp_state s = DHCP_RENEW \<longrightarrow> 1 \<le> renew_retry_remaining s \<and> renew_retry_remaining s \<le> 100) \<and>
     (dhcp_state s \<noteq> DHCP_SELECT \<longrightarrow> select_wait_time s = 5) \<and>
     select_wait_time s \<in> {5, 10, 20, 40, 80, 160}"

lemma discover_inv:
  assumes "dhcp_enter_state DHCP_DISCOVER s = Some s'" "select_wait_time s \<in> {5, 10, 20, 40, 80, 160}"
  shows "dhcp_inv s'"
  using enter_discover [OF assms(1)] assms(2) by (auto simp: dhcp_inv_def next_wait_def)

lemma timer_effect:
  assumes t: "dhcp_timer s = Some s'" and i: "dhcp_inv s"
  shows "dhcp_inv s' \<and> in_hand s' = in_hand s \<and>
    dhcp_state s' = (case dhcp_state s of DHCP_BOUND \<Rightarrow> DHCP_RENEW
      | DHCP_RENEW \<Rightarrow> if renew_retry_remaining s > 1 then DHCP_RENEW else DHCP_SELECT | _ \<Rightarrow> DHCP_SELECT) \<and>
    (dhcp_state s = DHCP_BOUND \<or> dhcp_state s' = DHCP_RENEW \<longrightarrow> conf s' = conf s)"
proof -
  have w: "select_wait_time s \<in> {5, 10, 20, 40, 80, 160}" using i by (simp add: dhcp_inv_def)
  show ?thesis
  proof (cases "dhcp_state s")
    case DHCP_DISCOVER
    with i show ?thesis by (simp add: dhcp_inv_def)
  next
    case DHCP_SELECT
    with t have e: "dhcp_enter_state DHCP_DISCOVER s = Some s'" by (simp add: dhcp_timer_def)
    from discover_inv [OF e w] enter_discover [OF e] DHCP_SELECT show ?thesis by simp
  next
    case DHCP_REQUEST
    with t have e: "dhcp_enter_state DHCP_DISCOVER s = Some s'" by (simp add: dhcp_timer_def)
    from discover_inv [OF e w] enter_discover [OF e] DHCP_REQUEST show ?thesis by simp
  next
    case DHCP_BOUND
    with t have e: "dhcp_enter_state DHCP_RENEW s = Some s'" by (simp add: dhcp_timer_def)
    from enter_renew [OF e] i DHCP_BOUND show ?thesis by (simp add: dhcp_inv_def)
  next
    case DHCP_RENEW
    let ?r = "s\<lparr>renew_retry_remaining := renew_retry_remaining s - 1\<rparr>"
    show ?thesis
    proof (cases "renew_retry_remaining s > 1")
      case True
      with t DHCP_RENEW obtain u where u: "dhcp_send_request ?r = Some u" "s' = dhcp_set_timer (of_int short_wait_time) u"
        by (auto simp: dhcp_timer_def Let_def)
      note e = send_request_effect [OF u(1)]
      from surroundings_dhcp [OF e(1)] e(2) u(2) DHCP_RENEW True i show ?thesis by (simp add: dhcp_inv_def)
    next
      case False
      with t DHCP_RENEW have e: "dhcp_enter_state DHCP_DISCOVER ?r = Some s'" by (simp add: dhcp_timer_def Let_def)
      from discover_inv [OF e] enter_discover [OF e] w DHCP_RENEW False show ?thesis by simp
    qed
  qed
qed

text \<open>An accepted lease: the reply that brought it passed as an acknowledgement.\<close>

definition leased :: "packet \<Rightarrow> 'a dhcp_net_scheme \<Rightarrow> 'a dhcp_net_scheme \<Rightarrow> bool" where
  "leased p s s' \<longleftrightarrow> (\<exists>r t. offers_only s r \<and> process_dhcp_reply p dhcp_type_ack r = Some (True, t) \<and>
     interface_of s' = offer_of t)"

lemma input_select:
  assumes "dhcp_input p s = Some s'" "dhcp_state s = DHCP_SELECT"
  obtains ok u where "process_dhcp_reply p dhcp_type_offer s = Some (ok, u)"
    and "(if \<not> ok \<or> \<not> suitable u then Some u else do { s \<leftarrow> dhcp_send_request u;
            dhcp_enter_state DHCP_REQUEST (s\<lparr>select_wait_time := short_wait_time\<rparr>) }) = Some s'"
  using assms by (simp add: dhcp_input_def bind_eq_Some_conv del: dhcp_enter_state.simps) (elim exE conjE, simp)

lemma input_wait:
  assumes "dhcp_input p s = Some s'" "dhcp_state s = DHCP_REQUEST \<or> dhcp_state s = DHCP_RENEW"
  obtains nack u where "process_dhcp_reply p dhcp_type_nack s = Some (nack, u)"
    and "(if nack then dhcp_enter_state DHCP_DISCOVER u else do {
            (ack, s) \<leftarrow> process_dhcp_reply p dhcp_type_ack u;
            if ack then dhcp_enter_state DHCP_BOUND (take_lease s) else Some s }) = Some s'"
proof -
  from assms have "do {
          (nack, s) \<leftarrow> process_dhcp_reply p dhcp_type_nack s;
          if nack then dhcp_enter_state DHCP_DISCOVER s
          else do {
            (ack, s) \<leftarrow> process_dhcp_reply p dhcp_type_ack s;
            if ack then dhcp_enter_state DHCP_BOUND (take_lease s) else Some s } } = Some s'"
    by (elim disjE) (simp_all add: dhcp_input_def del: dhcp_enter_state.simps)
  then show ?thesis
    by (cases "process_dhcp_reply p dhcp_type_nack s") (auto simp del: dhcp_enter_state.simps intro: that)
qed

lemma input_effect:
  assumes t: "dhcp_input p s = Some s'" and i: "dhcp_inv s"
  shows "dhcp_inv s' \<and> in_hand s' = in_hand s \<and>
    (conf s' = conf s \<and> (dhcp_state s' = dhcp_state s \<or> dhcp_state s = DHCP_SELECT \<and> dhcp_state s' = DHCP_REQUEST) \<or>
     dhcp_state s' = DHCP_SELECT \<and> interface_of s' = (0, 0, 0, 0) \<or>
     (dhcp_state s = DHCP_REQUEST \<or> dhcp_state s = DHCP_RENEW) \<and> dhcp_state s' = DHCP_BOUND \<and> leased p s s')"
proof -
  have w: "select_wait_time s \<in> {5, 10, 20, 40, 80, 160}" using i by (simp add: dhcp_inv_def)
  have keep: "dhcp_inv u" "interface_of u = interface_of s" if "offers_only s u" for u
    using i offers_fields [OF that] by (simp_all add: dhcp_inv_def interface_of_def)
  consider (idle) "dhcp_state s = DHCP_BOUND" | (select) "dhcp_state s = DHCP_SELECT"
    | (wait) "dhcp_state s = DHCP_REQUEST \<or> dhcp_state s = DHCP_RENEW"
    using i by (cases "dhcp_state s") (auto simp: dhcp_inv_def)
  then show ?thesis
  proof cases
    case idle
    with t i show ?thesis by (simp add: dhcp_input_def)
  next
    case select
    obtain ok u where u: "process_dhcp_reply p dhcp_type_offer s = Some (ok, u)"
      and r: "(if \<not> ok \<or> \<not> suitable u then Some u else do { s \<leftarrow> dhcp_send_request u;
            dhcp_enter_state DHCP_REQUEST (s\<lparr>select_wait_time := short_wait_time\<rparr>) }) = Some s'"
      by (rule input_select [OF t select])
    note o = process_reply_offers [OF u]
    show ?thesis
    proof (cases "\<not> ok \<or> \<not> suitable u")
      case True
      with r have "s' = u" by simp
      with keep [OF o] offers_fields [OF o] show ?thesis by simp
    next
      case False
      with r obtain v where v: "dhcp_send_request u = Some v"
        and s': "dhcp_enter_state DHCP_REQUEST (v\<lparr>select_wait_time := short_wait_time\<rparr>) = Some s'"
        by (cases "dhcp_send_request u") auto
      note e = send_request_effect [OF v]
      have c: "conf v = conf s" "in_hand v = in_hand s"
        using surroundings_dhcp(1) [OF e(1)] e(2) offers_fields(1,5) [OF o] by simp_all
      then have i': "interface_of v = (0, 0, 0, 0)" using i select by (simp add: interface_of_def dhcp_inv_def)
      have s2: "s' = dhcp_set_timer (of_int short_wait_time)
          (v\<lparr>select_wait_time := short_wait_time, dhcp_state := DHCP_REQUEST\<rparr>)" using s' by simp
      have "dhcp_state s' = DHCP_REQUEST" "conf s' = conf s" "in_hand s' = in_hand s" "select_wait_time s' = 5"
        unfolding s2 by (simp_all add: c short_wait_time_def)
      with select i' c(1) show ?thesis by (simp add: dhcp_inv_def interface_of_def)
    qed
  next
    case wait
    obtain nack u where u: "process_dhcp_reply p dhcp_type_nack s = Some (nack, u)"
      and r: "(if nack then dhcp_enter_state DHCP_DISCOVER u else do {
            (ack, s) \<leftarrow> process_dhcp_reply p dhcp_type_ack u;
            if ack then dhcp_enter_state DHCP_BOUND (take_lease s) else Some s }) = Some s'"
      by (rule input_wait [OF t wait])
    note o = process_reply_offers [OF u]
    show ?thesis
    proof (cases nack)
      case True
      with r have e: "dhcp_enter_state DHCP_DISCOVER u = Some s'" by simp
      have "dhcp_inv s'" using discover_inv [OF e] w offers_fields(4) [OF o] by simp
      with enter_discover [OF e] offers_fields(5) [OF o] show ?thesis by simp
    next
      case False
      with r obtain ack v where v: "process_dhcp_reply p dhcp_type_ack u = Some (ack, v)"
        and s': "(if ack then dhcp_enter_state DHCP_BOUND (take_lease v) else Some v) = Some s'"
        by (cases "process_dhcp_reply p dhcp_type_ack u") (auto simp del: dhcp_enter_state.simps)
      have ov: "offers_only s v" using offers_trans [OF o process_reply_offers [OF v]] .
      show ?thesis
      proof (cases ack)
        case False
        with s' have "s' = v" by simp
        with keep [OF ov] offers_fields [OF ov] show ?thesis by simp
      next
        case True
        with s' have "s' = dhcp_set_timer (offer_lease_time v - of_int (renew_retry_count * short_wait_time))
            (take_lease v\<lparr>dhcp_state := DHCP_BOUND\<rparr>)" by (simp add: take_lease_def)
        then have b: "dhcp_state s' = DHCP_BOUND" "interface_of s' = offer_of v" "in_hand s' = in_hand v"
          "select_wait_time s' = select_wait_time v"
          by (simp_all add: interface_of_def) (simp_all add: take_lease_def offer_of_def)
        have l: "leased p s s'" unfolding leased_def
          using o v True b(2) by (intro exI [of _ u] exI [of _ v]) simp
        have "select_wait_time s' = 5"
          using i wait b(4) offers_fields(4) [OF ov] by (elim disjE) (simp_all add: dhcp_inv_def)
        with b(1) have "dhcp_inv s'" by (simp add: dhcp_inv_def)
        with l wait b(1,3) offers_fields(5) [OF ov] show ?thesis by simp
      qed
    qed
  qed
qed

lemma dhcp_pump_in_hand: "dhcp_pump p s = Some s' \<Longrightarrow> dhcp_inv s \<Longrightarrow> in_hand s' = in_hand s - 1"
  using input_effect [of p s] by (auto simp: dhcp_pump_def)

text \<open>What can happen to the client: a packet, its timer, and everything else the program does, which
  leaves its variables and the interface configuration alone.\<close>

inductive dhcp_step :: "'a dhcp_net_scheme \<Rightarrow> 'a dhcp_net_scheme \<Rightarrow> bool" where
  receive: "dhcp_pump p s = Some s' \<Longrightarrow> dhcp_step s s'"
| timeout: "dhcp_timer s = Some s' \<Longrightarrow> dhcp_step s s'"
| other: "net.more s' = net.more s \<Longrightarrow> conf s' = conf s \<Longrightarrow> dhcp_step s s'"

inductive_cases dhcp_stepE: "dhcp_step s s'"

lemma more_inv:
  assumes "net.more s' = net.more s" "conf s' = conf s"
  shows "dhcp_inv s' = dhcp_inv s" "dhcp_state s' = dhcp_state s" "interface_of s' = interface_of s"
proof -
  have "dhcp_state s' = dhcp_state s" "renew_retry_remaining s' = renew_retry_remaining s"
    "select_wait_time s' = select_wait_time s"
    using assms(1) by (cases s; cases s'; simp)+
  then show "dhcp_inv s' = dhcp_inv s" "dhcp_state s' = dhcp_state s" "interface_of s' = interface_of s"
    using assms(2) by (simp_all add: dhcp_inv_def interface_of_def)
qed

lemma free_more [simp]: "dhcp_inv (packet_free s) = dhcp_inv s" "dhcp_state (packet_free s) = dhcp_state s"
  "interface_of (packet_free s) = interface_of s" "conf (packet_free s) = conf s"
  by (simp_all add: dhcp_inv_def interface_of_def packet_free_def)

lemma step_inv:
  assumes "dhcp_step s s'" "dhcp_inv s"
  shows "dhcp_inv s' \<and> (interface_of s' = interface_of s \<or>
      dhcp_state s' = DHCP_SELECT \<and> interface_of s' = (0, 0, 0, 0) \<or>
      (dhcp_state s = DHCP_REQUEST \<or> dhcp_state s = DHCP_RENEW) \<and> dhcp_state s' = DHCP_BOUND \<and> (\<exists>p. leased p s s'))"
  using assms(1)
proof (cases rule: dhcp_step.cases)
  case (receive p)
  then obtain t where t: "dhcp_input p s = Some t" "s' = packet_free t" by (auto simp: dhcp_pump_def)
  have "leased p s s' = leased p s t" using t(2) by (simp add: leased_def)
  with input_effect [OF t(1) assms(2)] t(2) show ?thesis by (auto simp: interface_of_def)
next
  case timeout
  note e = timer_effect [OF timeout assms(2)]
  consider "dhcp_state s = DHCP_BOUND \<or> dhcp_state s' = DHCP_RENEW" | "dhcp_state s' = DHCP_SELECT"
    using e by (cases "dhcp_state s") (simp_all split: if_splits)
  then show ?thesis
  proof cases
    case 1
    with e have "conf s' = conf s" by blast
    with e show ?thesis by (simp add: interface_of_def)
  next
    case 2
    with e have "interface_of s' = (0, 0, 0, 0)" by (simp add: dhcp_inv_def)
    with e 2 show ?thesis by simp
  qed
next
  case other
  with more_inv [OF other] assms(2) show ?thesis by simp
qed

text \<open>The client can ask for an address before it has one. A DHCPREQUEST, and the DHCPDISCOVER sent on
  entering the first state, leave as one broadcast frame handed to the card or else queued: never
  refused for its source address, waiting for no address resolution, with the ports of DHCP, lengths
  that match, checksums every receiver accepts, and as its data exactly the message; a DHCPREQUEST names
  the address and the server of the offer that was read last.\<close>

theorem dhcp_messages_leave:
  assumes "length (if_mac (conf s)) = 6"
  shows "(\<exists>q. dhcp_send_request s = transmit_now q (packet_born s) \<and>
      dhcp_frame q (conf s) (dhcp_message (now s) (if_mac (conf s)) dhcp_type_request
        ([0x32, 4] @ bytes32 (offer_ipv4_address s) @ [0x36, 4] @ bytes32 (dhcp_server_id s)))) \<and>
    (\<exists>q r. dhcp_enter_state DHCP_DISCOVER s =
        Option.bind (transmit_now q (packet_born r)) (dhcp_enter_state DHCP_SELECT) \<and>
      r = reset_interface (s\<lparr>dhcp_state := DHCP_DISCOVER\<rparr>) \<and>
      dhcp_frame q (conf r) (dhcp_message (now s) (if_mac (conf s)) dhcp_type_discover discover_options))"
proof -
  let ?x = "[opt_requested_ip, 4] @ bytes32 (offer_ipv4_address s) @ [opt_server_id, 4] @ bytes32 (dhcp_server_id s)"
  and ?r = "reset_interface (s\<lparr>dhcp_state := DHCP_DISCOVER\<rparr>)"
  have l: "length ?x \<le> 1000" by simp
  obtain p q where q: "packet_create_dhcp ipv4_broadcast dhcp_type_request ?x s = Some (p, packet_born s)"
    "net_tx p (packet_born s) = transmit_now q (packet_born s)"
    "dhcp_frame q (conf s) (dhcp_message (now s) (if_mac (conf s)) dhcp_type_request ?x)"
    by (rule dhcp_message_sent [OF assms l])
  have m: "length (if_mac (conf ?r)) = 6" and k: "now ?r = now s" "if_mac (conf ?r) = if_mac (conf s)"
    using assms by (simp_all add: reset_interface_def)
  obtain p2 q2 where q2: "packet_create_dhcp ipv4_broadcast dhcp_type_discover discover_options ?r = Some (p2, packet_born ?r)"
    "net_tx p2 (packet_born ?r) = transmit_now q2 (packet_born ?r)"
    "dhcp_frame q2 (conf ?r) (dhcp_message (now ?r) (if_mac (conf ?r)) dhcp_type_discover discover_options)"
    by (rule dhcp_message_sent [OF m, of discover_options]) (simp add: discover_options_def)
  have "dhcp_send_request s = transmit_now q (packet_born s)"
    using q(1,2) by (simp add: dhcp_send_request_def)
  moreover have "dhcp_enter_state DHCP_DISCOVER s = Option.bind (transmit_now q2 (packet_born ?r)) (dhcp_enter_state DHCP_SELECT)"
    using q2(1,2) by (simp add: Let_def del: dhcp_enter_state.simps(2))
  ultimately show ?thesis using q(3) q2(3) k by (auto simp: opt_codes)
qed

text \<open>A machine without a card: the frames stay in the transmit queue.\<close>

definition sample_dhcp :: dhcp_net where
  "sample_dhcp = net.extend (sample_net\<lparr>conf := (conf sample_net)\<lparr>if_ip := 0, if_mask := 0, if_gateway := 0, if_dns := 0\<rparr>\<rparr>)
     (dhcp_net.fields DHCP_DISCOVER 0 0 0 0 0 0 0 5 0)"

text \<open>An offer of 10.0.0.1 by 10.0.0.9, with a pad, followed by padding.\<close>

definition sample_options :: "(u8 \<times> u8 list) list" where
  "sample_options = [(0x35, [2]), (0, []), (1, [255, 255, 255, 0]), (3, [10, 0, 0, 254]), (6, [10, 0, 0, 253, 8, 8, 8, 8]),
     (0x33, [0, 0, 14, 16]), (0x36, [10, 0, 0, 9])]"

definition sample_offer :: packet where
  "sample_offer = (packet_alloc (\<lambda>i. 0) 0)\<lparr>pdata := Some 42, data_length := 279,
     pbuf := replicate 42 0 @ server_reply (replicate 15 0) 0x0A000001 (replicate 216 0) sample_options @ [0, 0]\<rparr>"

theorem dhcp_reply_read_witness:
  "map_option (\<lambda>(ok, s). (ok, offer_of s, offer_lease_time s, dhcp_server_id s))
     (process_dhcp_reply sample_offer dhcp_type_offer sample_dhcp) =
   Some (True, (0x0A000001, 0xFFFFFF00, 0x0A0000FE, 0x0A0000FD), 3600, 0x0A000009)"
proof -
  let ?r = "server_reply (replicate 15 0) 0x0A000001 (replicate 216 0) sample_options"
  have len: "length ?r = 279" by (simp add: server_reply_def sample_options_def option_bytes_def magic_cookie_value_def opt_codes)
  have "\<forall>opt \<in> set sample_options. written_option opt" by (simp add: sample_options_def written_option_def opt_codes)
  moreover have "pdata sample_offer = Some 42" "drop 42 (pbuf sample_offer) = ?r @ [0, 0]"
    "unat (data_length sample_offer) = length ?r"
    unfolding len by (simp_all add: sample_offer_def)
  ultimately have "process_dhcp_reply sample_offer dhcp_type_offer sample_dhcp = Some (note_options dhcp_type_offer sample_options
    (sample_dhcp\<lparr>dhcp_server_id := 0, offer_lease_time := 0, offer_subnet_mask := 0, offer_gateway := 0,
       offer_dns_server := 0, offer_ipv4_address := 0x0A000001\<rparr>))"
    by (intro dhcp_reply_read) simp_all
  then show ?thesis
    by (simp add: sample_options_def note_option_def opt_codes dhcp_type_offer_def first_word_def be32_def offer_of_def)
qed

theorem dhcp_messages_leave_witness:
  "\<exists>q. dhcp_send_request sample_dhcp = Some ((packet_born sample_dhcp)\<lparr>tx_count := 1, txq := [q]\<rparr>)"
proof -
  have s: "length (if_mac (conf sample_dhcp)) = 6" "base (card (packet_born sample_dhcp)) = 0"
    "txq (packet_born sample_dhcp) = []" "tx_count (packet_born sample_dhcp) = 0"
    by (simp_all add: sample_dhcp_def sample_net_def net.defs dhcp_net.defs packet_born_def)
  from dhcp_messages_leave [OF s(1)] obtain q where "dhcp_send_request sample_dhcp = transmit_now q (packet_born sample_dhcp)"
    by blast
  with transmit_without_card [OF s(2), of q] s(3,4) show ?thesis by auto
qed



end
