(* ===== verification/NetPump.thy ===== *)
theory NetPump
  imports Dhcp
begin

text \<open>
  The pump of the network stack: \<open>net_pump\<close> of \<^verbatim>\<open>net/net.c\<close>, the part of \<open>eth_pump\<close> of
  \<^verbatim>\<open>net/ne2000.c\<close> that moves packets between the card and the stack, and the calls through the
  function pointers of a sink. The driver's own operation is theory \<open>Ne2000\<close>; the frames it collects are
  pushed here in their order, which \<open>net_eth_push\<close> cannot observe, since it touches neither the card
  nor the transmit queue. A header of the card that announces fewer than four bytes makes the driver
  allocate less memory than it stores into, which is \<open>None\<close>.
\<close>

section \<open>The card\<close>

definition received_packet :: "'a net_scheme \<Rightarrow> int \<times> u8 list \<Rightarrow> packet option" where
  "received_packet s f =
     (if fst f < 0 then None
      else Some ((packet_alloc (junk s) (nat (fst f)))\<lparr>pbuf := take (nat (fst f)) (snd f)\<rparr>))"

definition push_received :: "int \<times> u8 list \<Rightarrow> 'a net_scheme \<Rightarrow> 'a net_scheme option" where
  "push_received f s = do { p \<leftarrow> received_packet s f; net_eth_push p (packet_born s) }"

fun pump_txq :: "packet list \<Rightarrow> 'a net_scheme \<Rightarrow> 'a net_scheme option" where
  "pump_txq [] s = Some (s\<lparr>txq := []\<rparr>)"
| "pump_txq (p # ps) s =
     (if tx1 (card s) \<noteq> 0 \<and> tx2 (card s) \<noteq> 0 then Some (s\<lparr>txq := p # ps\<rparr>)
      else do {
        (sent, s) \<leftarrow> eth_attempt_tx p (s\<lparr>txq := ps\<rparr>);
        pump_txq ps (packet_free s) })"

definition pump_card :: "'a net_scheme \<Rightarrow> 'a net_scheme option" where
  "pump_card s =
     (if base (card s) = 0 then Some s
      else do {
        c \<leftarrow> dp83902a_poll ((card s)\<lparr>rx_frames := []\<rparr>);
        s \<leftarrow> feed push_received (rx_frames c) (s\<lparr>card := c\<rparr>);
        pump_txq (txq s) s })"

section \<open>The sinks\<close>

fun find_sink :: "nat \<Rightarrow> sink list \<Rightarrow> sink option" where
  "find_sink i [] = None"
| "find_sink i (k # ks) = (if sid k = i then Some k else find_sink i ks)"

fun pop_sink :: "nat \<Rightarrow> sink list \<Rightarrow> (packet \<times> sink list) option" where
  "pop_sink i [] = None"
| "pop_sink i (k # ks) =
     (if sid k = i then (case squeue k of [] \<Rightarrow> None | p # ps \<Rightarrow> Some (p, k\<lparr>squeue := ps\<rparr> # ks))
      else map_option (\<lambda>(p, ks). (p, k # ks)) (pop_sink i ks))"

definition call_receiver :: "handler \<Rightarrow> packet \<Rightarrow> 'a dhcp_net_scheme \<Rightarrow> 'a dhcp_net_scheme option" where
  "call_receiver h p s =
     (case h of Arp_process \<Rightarrow> arp_process_packet p s | Icmp_received \<Rightarrow> icmp_received p s
      | Icmp_send_unreachable \<Rightarrow> icmp_send_unreachable p s | Dhcp_pump \<Rightarrow> dhcp_pump p s | No_receiver \<Rightarrow> Some s)"

definition call_timer :: "timer_handler \<Rightarrow> nat \<Rightarrow> 'a dhcp_net_scheme \<Rightarrow> 'a dhcp_net_scheme option" where
  "call_timer h i s =
     (case h of Arp_cache_flush \<Rightarrow> Some (arp_cache_flush i s) | Dhcp_timer \<Rightarrow> dhcp_timer s | No_timer \<Rightarrow> Some s)"

text \<open>The loop that empties the queue of a sink, with as many rounds as packets were queued: the
  handlers queue nothing in a sink.\<close>

fun drain_sink :: "nat \<Rightarrow> handler \<Rightarrow> nat \<Rightarrow> 'a dhcp_net_scheme \<Rightarrow> 'a dhcp_net_scheme option" where
  "drain_sink 0 h i s = Some s"
| "drain_sink (Suc n) h i s =
     (case pop_sink i (sinks s) of
        None \<Rightarrow> Some s
      | Some (p, ks) \<Rightarrow> Option.bind (call_receiver h p (s\<lparr>sinks := ks\<rparr>)) (drain_sink n h i))"

definition pump_timer :: "nat \<Rightarrow> 'a dhcp_net_scheme \<Rightarrow> 'a dhcp_net_scheme option" where
  "pump_timer i s = do {
     k \<leftarrow> find_sink i (sinks s);
     if cb_timer_expired k \<noteq> No_timer \<and> stimer k \<noteq> 0 \<and> timer_expired (now s) (stimer k)
     then call_timer (cb_timer_expired k) i (s\<lparr>sinks := set_sink_timer i 0 (sinks s)\<rparr>)
     else Some s }"

definition pump_sink :: "nat \<Rightarrow> 'a dhcp_net_scheme \<Rightarrow> 'a dhcp_net_scheme option" where
  "pump_sink i s = do {
     k \<leftarrow> find_sink i (sinks s);
     s \<leftarrow> (if cb_packet_received k \<noteq> No_receiver
           then drain_sink (length (squeue k)) (cb_packet_received k) i s else Some s);
     pump_timer i s }"

definition net_pump :: "'a dhcp_net_scheme \<Rightarrow> 'a dhcp_net_scheme option" where
  "net_pump s = do {
     s \<leftarrow> net_arp_resolver_pump s;
     s \<leftarrow> pump_card s;
     feed pump_sink (map sid (sinks s)) s }"

section \<open>What the handlers leave alone\<close>

definition stopped :: "sink \<Rightarrow> sink" where "stopped k = k\<lparr>stimer := 0\<rparr>"

text \<open>The steps of the stack: the sinks stay as they are, up to their timers, and the invariants of the
  address cache and of the DHCP client hold on.\<close>

definition calm :: "'a dhcp_net_scheme \<Rightarrow> 'a dhcp_net_scheme \<Rightarrow> bool" where
  "calm s s' \<longleftrightarrow> map stopped (sinks s') = map stopped (sinks s) \<and> (arp_inv s \<longrightarrow> arp_inv s') \<and>
     (dhcp_inv s \<longrightarrow> dhcp_inv s')"

lemma calm_refl [simp]: "calm s s" by (simp add: calm_def)

lemma calm_trans: "calm s t \<Longrightarrow> calm t u \<Longrightarrow> calm s u" by (auto simp: calm_def)

lemma surroundings_dhcp_inv: "surroundings s' = surroundings s \<Longrightarrow> dhcp_inv s' = dhcp_inv s"
  by (rule more_inv(1)) (auto simp: surroundings_def)

lemma calm_surroundings:
  "surroundings s' = surroundings s \<Longrightarrow> (arp_inv s \<Longrightarrow> arp_inv s') \<Longrightarrow> calm s s'"
  using surroundings_dhcp_inv [of s' s] by (auto simp: calm_def surroundings_def)

lemma net_tx_calm: "net_tx p s = Some s' \<Longrightarrow> calm s s'"
  by (rule calm_surroundings) (auto intro: net_tx_surroundings arp_inv_net_tx)

lemma calm_alive [simp]: "calm s (packet_free t) = calm s t" "calm s (packet_born t) = calm s t"
  "calm (packet_born s) t = calm s t" "calm (packet_free s) t = calm s t"
proof -
  have "dhcp_inv (packet_free u) = dhcp_inv u" "dhcp_inv (packet_born u) = dhcp_inv u"
    "sinks (packet_free u) = sinks u" "sinks (packet_born u) = sinks u" for u :: "'a dhcp_net_scheme"
    by (simp_all add: packet_free_def packet_born_def dhcp_inv_def interface_of_def)
  then show "calm s (packet_free t) = calm s t" "calm s (packet_born t) = calm s t"
    "calm (packet_born s) t = calm s t" "calm (packet_free s) t = calm s t" by (simp_all add: calm_def)
qed

lemma arp_reply_surroundings: "arp_reply p s = Some s' \<Longrightarrow> surroundings s' = surroundings s"
proof -
  assume "arp_reply p s = Some s'"
  then obtain r t q where "packet_create_arp s = Some (r, t)" "net_tx q t = Some s'"
    by (auto simp: arp_reply_def bind_eq_Some_conv)
  then show "surroundings s' = surroundings s"
    using packet_create_arp_in_hand net_tx_surroundings by fastforce
qed

lemma update_surroundings [simp]: "surroundings (update_arp_cache ip mac add s) = surroundings s"
  by (simp add: update_arp_cache_def surroundings_def Let_def split: option.split)

lemma arp_process_surroundings:
  assumes "arp_process_packet p s = Some s'"
  shows "surroundings s' = surroundings s"
proof -
  have i: "surroundings t = surroundings s" if t: "arp_input p a op s = Some t" for a op t
  proof -
    from t obtain ip mac b u where "(if b then arp_reply p s else Some s) = Some u"
      "t = update_arp_cache ip mac b u" unfolding arp_input_def Let_def by (auto simp only: bind_eq_Some_conv option.inject)
    then show ?thesis using arp_reply_surroundings [of p s u] by (cases b) auto
  qed
  from assms obtain t where "surroundings t = surroundings s" "s' = packet_free t"
    using i by (auto simp: arp_process_packet_def bind_eq_Some_conv split: if_splits)
  then show ?thesis by simp
qed

lemma icmp_received_calm: "icmp_received p s = Some s' \<Longrightarrow> calm s s'"
  unfolding icmp_received_def by (auto simp: bind_eq_Some_conv dest: net_tx_calm split: if_splits)

lemma calm_throttle: "calm (s\<lparr>throttle := x\<rparr>) t = calm s t"
  by (simp add: calm_def arp_inv_def dhcp_inv_def interface_of_def)

lemma icmp_unreachable_calm: "icmp_send_unreachable p s = Some s' \<Longrightarrow> calm s s'"
  unfolding icmp_send_unreachable_def
  by (auto simp: calm_throttle bind_eq_Some_conv dest!: icmp_unreachable_in_hand dest: net_tx_calm split: if_splits)

text \<open>The DHCP client.\<close>

lemma stopped_set_timer [simp]: "map stopped (set_sink_timer i t ks) = map stopped ks"
  by (induction ks) (auto simp: stopped_def)

lemma create_and_send_arp:
  assumes "packet_create_dhcp t m x s = Some (p, u)" "net_tx p u = Some s'"
  shows "arp_inv s \<Longrightarrow> arp_inv s'" "sinks s' = sinks s"
proof -
  have u: "u = packet_born s" by (rule packet_create_dhcp_state [OF assms(1)])
  show "arp_inv s \<Longrightarrow> arp_inv s'" using arp_inv_net_tx [OF assms(2)] u by simp
  show "sinks s' = sinks s" using net_tx_surroundings [OF assms(2)] u by (simp add: surroundings_def packet_born_def)
qed

text \<open>The same without the invariant of the client, which its operations establish together.\<close>

definition calm_arp :: "'a dhcp_net_scheme \<Rightarrow> 'a dhcp_net_scheme \<Rightarrow> bool" where
  "calm_arp s s' \<longleftrightarrow> map stopped (sinks s') = map stopped (sinks s) \<and> (arp_inv s \<longrightarrow> arp_inv s')"

lemma calm_arp_trans: "calm_arp s t \<Longrightarrow> calm_arp t u \<Longrightarrow> calm_arp s u" by (auto simp: calm_arp_def)

lemma calm_arpI: "calm_arp s s' \<Longrightarrow> (dhcp_inv s \<Longrightarrow> dhcp_inv s') \<Longrightarrow> calm s s'"
  by (auto simp: calm_arp_def calm_def)

lemma calm_arp_upd [simp]:
  "calm_arp s (t\<lparr>dhcp_state := a\<rparr>) = calm_arp s t" "calm_arp s (t\<lparr>select_wait_time := b\<rparr>) = calm_arp s t"
  "calm_arp s (t\<lparr>renew_retry_remaining := b\<rparr>) = calm_arp s t" "calm_arp s (dhcp_set_timer x t) = calm_arp s t"
  "calm_arp s (take_lease t) = calm_arp s t" "calm_arp s (reset_interface t) = calm_arp s t" "calm_arp s s"
  by (simp_all add: calm_arp_def arp_inv_def dhcp_set_timer_def take_lease_def reset_interface_def)

lemma send_request_arp: "dhcp_send_request s = Some s' \<Longrightarrow> calm_arp s s'"
  unfolding dhcp_send_request_def calm_arp_def
  by (auto simp: bind_eq_Some_conv dest: create_and_send_arp)

lemma enter_state_arp: "dhcp_enter_state st s = Some s' \<Longrightarrow> calm_arp s s'"
proof (induction st s rule: dhcp_enter_state.induct)
  case (1 s)
  let ?r = "reset_interface (s\<lparr>dhcp_state := DHCP_DISCOVER\<rparr>)"
  from 1(2) obtain p u v where c: "packet_create_dhcp ipv4_broadcast dhcp_type_discover discover_options ?r = Some (p, u)"
    and t: "net_tx p u = Some v" and e: "dhcp_enter_state DHCP_SELECT v = Some s'"
    by (auto simp: bind_eq_Some_conv Let_def simp del: dhcp_enter_state.simps(2))
  have "calm_arp s ?r" by simp
  moreover have "calm_arp ?r v" using create_and_send_arp [OF c t] by (simp add: calm_arp_def)
  moreover have "calm_arp v s'" using e by (auto simp: Let_def)
  ultimately show ?case using calm_arp_trans by blast
next
  case (5 s)
  then have "calm_arp (dhcp_set_timer (of_int short_wait_time)
       (s\<lparr>dhcp_state := DHCP_RENEW, renew_retry_remaining := renew_retry_count\<rparr>)) s'" by (auto dest: send_request_arp)
  with calm_arp_trans show ?case by (metis calm_arp_upd(1,3,4,7))
qed (auto simp: Let_def)

lemma offers_arp:
  assumes "offers_only s s'"
  shows "calm_arp s s'"
proof -
  have "sinks s' = sinks s" "cache s' = cache s" "conf s' = conf s"
    using assms by (cases s; cases s'; simp add: offers_only_def forget_offer_def)+
  then show ?thesis by (simp add: calm_arp_def arp_inv_def)
qed

lemma dhcp_timer_arp:
  assumes "dhcp_timer s = Some s'"
  shows "calm_arp s s'"
proof (cases "dhcp_state s = DHCP_RENEW \<and> renew_retry_remaining s - 1 > 0")
  case True
  with assms obtain u where u: "dhcp_send_request (s\<lparr>renew_retry_remaining := renew_retry_remaining s - 1\<rparr>) = Some u"
    "s' = dhcp_set_timer (of_int short_wait_time) u" by (auto simp: dhcp_timer_def Let_def)
  have "calm_arp s (s\<lparr>renew_retry_remaining := renew_retry_remaining s - 1\<rparr>)" by simp
  from calm_arp_trans [OF this send_request_arp [OF u(1)]] u(2) show ?thesis by simp
next
  case False
  with assms consider "s' = s" | st where "dhcp_enter_state st s = Some s'"
    | "dhcp_enter_state DHCP_DISCOVER (s\<lparr>renew_retry_remaining := renew_retry_remaining s - 1\<rparr>) = Some s'"
    by (cases "dhcp_state s") (auto simp: dhcp_timer_def Let_def simp del: dhcp_enter_state.simps)
  then show ?thesis
  proof cases
    case 3
    have "calm_arp s (s\<lparr>renew_retry_remaining := renew_retry_remaining s - 1\<rparr>)" by simp
    from calm_arp_trans [OF this enter_state_arp [OF 3]] show ?thesis .
  qed (auto dest: enter_state_arp)
qed

lemma dhcp_input_arp:
  assumes t: "dhcp_input p s = Some s'"
  shows "calm_arp s s'"
proof -
  consider (idle) "s' = s" | (select) "dhcp_state s = DHCP_SELECT"
    | (wait) "dhcp_state s = DHCP_REQUEST \<or> dhcp_state s = DHCP_RENEW"
    using t by (cases "dhcp_state s") (auto simp: dhcp_input_def)
  then show ?thesis
  proof cases
    case select
    obtain ok u where u: "process_dhcp_reply p dhcp_type_offer s = Some (ok, u)"
      and r: "(if \<not> ok \<or> \<not> suitable u then Some u else do { s \<leftarrow> dhcp_send_request u;
            dhcp_enter_state DHCP_REQUEST (s\<lparr>select_wait_time := short_wait_time\<rparr>) }) = Some s'"
      by (rule input_select [OF t select])
    note o = offers_arp [OF process_reply_offers [OF u]]
    show ?thesis
    proof (cases "\<not> ok \<or> \<not> suitable u")
      case True
      with r o show ?thesis by simp
    next
      case False
      with r obtain v where v: "dhcp_send_request u = Some v"
        and e: "dhcp_enter_state DHCP_REQUEST (v\<lparr>select_wait_time := short_wait_time\<rparr>) = Some s'"
        by (cases "dhcp_send_request u") auto
      have "calm_arp s (v\<lparr>select_wait_time := short_wait_time\<rparr>)"
        using calm_arp_trans [OF o send_request_arp [OF v]] by simp
      from calm_arp_trans [OF this enter_state_arp [OF e]] show ?thesis .
    qed
  next
    case wait
    obtain nack u where u: "process_dhcp_reply p dhcp_type_nack s = Some (nack, u)"
      and r: "(if nack then dhcp_enter_state DHCP_DISCOVER u else do {
            (ack, s) \<leftarrow> process_dhcp_reply p dhcp_type_ack u;
            if ack then dhcp_enter_state DHCP_BOUND (take_lease s) else Some s }) = Some s'"
      by (rule input_wait [OF t wait])
    note o = offers_arp [OF process_reply_offers [OF u]]
    show ?thesis
    proof (cases nack)
      case True
      with r have "dhcp_enter_state DHCP_DISCOVER u = Some s'" by simp
      from calm_arp_trans [OF o enter_state_arp [OF this]] show ?thesis .
    next
      case False
      with r obtain ack v where v: "process_dhcp_reply p dhcp_type_ack u = Some (ack, v)"
        and s': "(if ack then dhcp_enter_state DHCP_BOUND (take_lease v) else Some v) = Some s'"
        by (cases "process_dhcp_reply p dhcp_type_ack u") (auto simp del: dhcp_enter_state.simps)
      have "calm_arp s v" by (rule calm_arp_trans [OF o offers_arp [OF process_reply_offers [OF v]]])
      then have "calm_arp s (take_lease v)" "calm_arp s v" by simp_all
      then show ?thesis
        using s' calm_arp_trans [OF _ enter_state_arp [of DHCP_BOUND "take_lease v" s']] by (cases ack) auto
    qed
  qed simp
qed

lemma dhcp_input_calm: "dhcp_input p s = Some s' \<Longrightarrow> calm s s'"
  by (rule calm_arpI [OF dhcp_input_arp]) (auto dest: input_effect)

lemma dhcp_pump_calm: "dhcp_pump p s = Some s' \<Longrightarrow> calm s s'"
  by (auto simp: dhcp_pump_def dest: dhcp_input_calm)

lemma dhcp_timer_calm: "dhcp_timer s = Some s' \<Longrightarrow> calm s s'"
  by (rule calm_arpI [OF dhcp_timer_arp]) (auto dest: timer_effect)

lemma arp_flush_calm: "calm s (arp_cache_flush i s)"
proof -
  have "dhcp_inv (arp_cache_flush i s) = dhcp_inv s"
    by (rule more_inv(1)) (simp_all add: arp_cache_flush_def Let_def)
  moreover have "map stopped (sinks (arp_cache_flush i s)) = map stopped (sinks s)"
    by (simp add: arp_cache_flush_def Let_def)
  ultimately show ?thesis by (simp add: calm_def arp_inv_flush)
qed

section \<open>One call through a function pointer\<close>

lemma call_receiver_calm:
  assumes "call_receiver h p s = Some s'"
  shows "calm s s'"
proof (cases h)
  case Arp_process
  with assms have a: "arp_process_packet p s = Some s'" by (simp add: call_receiver_def)
  show ?thesis by (rule calm_surroundings [OF arp_process_surroundings [OF a] arp_inv_process [OF a]])
qed (use assms in \<open>simp_all add: call_receiver_def icmp_received_calm icmp_unreachable_calm dhcp_pump_calm\<close>)

lemma call_receiver_in_hand:
  assumes "call_receiver h p s = Some s'" "h \<noteq> No_receiver" "dhcp_inv s"
  shows "in_hand s' = in_hand s - 1"
proof (cases h)
  case Dhcp_pump
  with assms(1) have "dhcp_pump p s = Some s'" by (simp add: call_receiver_def)
  from dhcp_pump_in_hand [OF this assms(3)] show ?thesis .
qed (use assms in \<open>simp_all add: call_receiver_def arp_process_in_hand icmp_received_in_hand icmp_send_unreachable_in_hand\<close>)

lemma call_timer_calm:
  assumes "call_timer h i s = Some s'"
  shows "calm s s'"
  by (cases h) (use assms arp_flush_calm [of s i] in \<open>auto simp: call_timer_def dhcp_timer_calm\<close>)

lemma call_timer_in_hand:
  assumes "call_timer h i s = Some s'" "dhcp_inv s"
  shows "in_hand s' = in_hand s"
proof (cases h)
  case Dhcp_timer
  with assms(1) have "dhcp_timer s = Some s'" by (simp add: call_timer_def)
  from timer_effect [OF this assms(2)] show ?thesis by simp
qed (use assms in \<open>auto simp: call_timer_def arp_cache_flush_def Let_def in_hand_def\<close>)

section \<open>Serving the sinks\<close>

definition served :: "sink \<Rightarrow> sink" where
  "served k = (if cb_packet_received k \<noteq> No_receiver then k\<lparr>squeue := []\<rparr> else k)"

fun at_sink :: "nat \<Rightarrow> (sink \<Rightarrow> sink) \<Rightarrow> sink list \<Rightarrow> sink list" where
  "at_sink i f [] = []"
| "at_sink i f (k # ks) = (if sid k = i then f k # ks else k # at_sink i f ks)"

lemma stopped_fields [simp]:
  "sid (stopped k) = sid k" "squeue (stopped k) = squeue k" "cb_packet_received (stopped k) = cb_packet_received k"
  "cb_timer_expired (stopped k) = cb_timer_expired k" "score_sink (stopped k) = score_sink k"
  by (simp_all add: stopped_def score_sink_def)

lemma stopped_sids: "map stopped ks = map stopped ls \<Longrightarrow> map sid ks = map sid ls"
proof -
  assume "map stopped ks = map stopped ls"
  then have "map sid (map stopped ks) = map sid (map stopped ls)" by (rule arg_cong)
  then show "map sid ks = map sid ls" by (simp add: comp_def)
qed

lemma stopped_at_sink:
  assumes "\<And>k. stopped (f k) = f (stopped k)" "\<And>k. sid (f k) = sid k"
  shows "map stopped (at_sink i f ks) = at_sink i f (map stopped ks)"
  by (induction ks) (auto simp: assms)

lemma stopped_served [simp]: "stopped (served k) = served (stopped k)" "sid (served k) = sid k"
  by (simp_all add: served_def stopped_def)

lemma score_served [simp]: "score_sink (served k) = score_sink k"
  by (simp add: served_def score_sink_def)

lemma sorted_scores: "sorted_sinks ks = sorted_wrt (\<lambda>a b. b \<le> a) (map score_sink ks)"
  by (simp add: sorted_sinks_def sorted_wrt_map)

lemma find_sink_stopped: "find_sink i (map stopped ks) = map_option stopped (find_sink i ks)"
  by (induction ks) auto

lemma find_sink_sid: "find_sink i ks = Some k \<Longrightarrow> sid k = i"
  by (induction ks) (auto split: if_splits)

lemma at_sink_same: "find_sink i ks = Some k \<Longrightarrow> f k = k \<Longrightarrow> at_sink i f ks = ks"
  by (induction ks) (auto split: if_splits)

lemma at_sink_twice: "(\<And>k. sid (f k) = sid k) \<Longrightarrow> at_sink i g (at_sink i f ks) = at_sink i (\<lambda>k. g (f k)) ks"
  by (induction ks) auto

lemma at_sink_cong: "find_sink i ks = Some k \<Longrightarrow> f k = g k \<Longrightarrow> at_sink i f ks = at_sink i g ks"
  by (induction ks) (auto split: if_splits)

lemma pop_sink_find:
  "find_sink i ks = Some k \<Longrightarrow> pop_sink i ks =
     (case squeue k of [] \<Rightarrow> None | p # ps \<Rightarrow> Some (p, at_sink i (\<lambda>k. k\<lparr>squeue := ps\<rparr>) ks))"
  by (induction ks) (auto split: list.splits if_splits)

lemma queued_at_sink: "find_sink i ks = Some k \<Longrightarrow> squeue k = p # ps \<Longrightarrow>
   queued ks = queued (at_sink i (\<lambda>k. k\<lparr>squeue := ps\<rparr>) ks) + 1"
  by (induction ks) (auto split: if_splits)

lemma find_at_sink: "find_sink i ks = Some k \<Longrightarrow> sid (f k) = i \<Longrightarrow> find_sink i (at_sink i f ks) = Some (f k)"
  by (induction ks) (auto split: if_splits)

lemma inv_sinks [simp]:
  "dhcp_inv (s\<lparr>sinks := ks\<rparr>) = dhcp_inv s" "arp_inv (s\<lparr>sinks := ks\<rparr>) = arp_inv s"
  by (simp_all add: dhcp_inv_def arp_inv_def interface_of_def)

lemma drain_sink_effect:
  assumes "drain_sink n h i s = Some s'" "h \<noteq> No_receiver" "find_sink i (sinks s) = Some k"
    and "length (squeue k) = n" "dhcp_inv s" "arp_inv s"
  shows "in_hand s' = in_hand s \<and> dhcp_inv s' \<and> arp_inv s' \<and>
    map stopped (sinks s') = map stopped (at_sink i (\<lambda>k. k\<lparr>squeue := []\<rparr>) (sinks s))"
  using assms
proof (induction n arbitrary: s k)
  case 0
  then show ?case using at_sink_same [of i "sinks s" k "\<lambda>k. k\<lparr>squeue := []\<rparr>"] by simp
next
  case (Suc n)
  then obtain p ps where q: "squeue k = p # ps" by (cases "squeue k") auto
  let ?ks = "at_sink i (\<lambda>k. k\<lparr>squeue := ps\<rparr>) (sinks s)"
  from Suc.prems(1,3) q obtain t where t: "call_receiver h p (s\<lparr>sinks := ?ks\<rparr>) = Some t" "drain_sink n h i t = Some s'"
    by (auto simp: pop_sink_find bind_eq_Some_conv)
  have c: "calm (s\<lparr>sinks := ?ks\<rparr>) t" by (rule call_receiver_calm [OF t(1)])
  then have st: "map stopped (sinks t) = map stopped ?ks" "dhcp_inv t" "arp_inv t"
    using Suc.prems(5,6) by (simp_all add: calm_def)
  have h: "in_hand t = in_hand s"
    using call_receiver_in_hand [OF t(1) Suc.prems(2)] Suc.prems(5) queued_at_sink [OF Suc.prems(3) q]
    by (simp add: in_hand_def)
  have "find_sink i ?ks = Some (k\<lparr>squeue := ps\<rparr>)"
    using find_at_sink [OF Suc.prems(3)] find_sink_sid [OF Suc.prems(3)] by simp
  then have "map_option stopped (find_sink i (sinks t)) = Some (stopped (k\<lparr>squeue := ps\<rparr>))"
    using find_sink_stopped [of i "sinks t"] find_sink_stopped [of i ?ks] st(1) by simp
  then obtain k2 where k2: "find_sink i (sinks t) = Some k2" "stopped k2 = stopped (k\<lparr>squeue := ps\<rparr>)" by auto
  have "squeue k2 = ps" using arg_cong [OF k2(2), of squeue] by simp
  then have l: "length (squeue k2) = n" using Suc.prems(4) q by simp
  have e: "map stopped (at_sink i (\<lambda>k. k\<lparr>squeue := []\<rparr>) ks) = at_sink i (\<lambda>k. k\<lparr>squeue := []\<rparr>) (map stopped ks)" for ks
    by (rule stopped_at_sink) (simp_all add: stopped_def)
  from Suc.IH [OF t(2) Suc.prems(2) k2(1) l st(2,3)]
  have "in_hand s' = in_hand t" "dhcp_inv s'" "arp_inv s'"
    "map stopped (sinks s') = map stopped (at_sink i (\<lambda>k. k\<lparr>squeue := []\<rparr>) (sinks t))" by simp_all
  moreover have "map stopped (at_sink i (\<lambda>k. k\<lparr>squeue := []\<rparr>) (sinks t)) = map stopped (at_sink i (\<lambda>k. k\<lparr>squeue := []\<rparr>) ?ks)"
    by (simp only: e st(1))
  moreover have "at_sink i (\<lambda>k. k\<lparr>squeue := []\<rparr>) ?ks = at_sink i (\<lambda>k. k\<lparr>squeue := []\<rparr>) (sinks s)"
    by (subst at_sink_twice) simp_all
  ultimately show ?case using h by simp
qed

lemma pump_sink_effect:
  assumes "pump_sink i s = Some s'" "dhcp_inv s" "arp_inv s"
  shows "in_hand s' = in_hand s \<and> dhcp_inv s' \<and> arp_inv s' \<and>
    map stopped (sinks s') = map stopped (at_sink i served (sinks s))"
proof -
  from assms(1) obtain k t where k: "find_sink i (sinks s) = Some k"
    and d: "(if cb_packet_received k \<noteq> No_receiver
           then drain_sink (length (squeue k)) (cb_packet_received k) i s else Some s) = Some t"
    and t: "pump_timer i t = Some s'" by (auto simp: pump_sink_def bind_eq_Some_conv)
  have a: "in_hand t = in_hand s \<and> dhcp_inv t \<and> arp_inv t \<and> map stopped (sinks t) = map stopped (at_sink i served (sinks s))"
  proof (cases "cb_packet_received k = No_receiver")
    case True
    with d k assms(2,3) at_sink_same [OF k, of served] show ?thesis by (simp add: served_def)
  next
    case False
    with d drain_sink_effect [OF _ False k refl assms(2,3), of t] at_sink_cong [OF k, of served "\<lambda>k. k\<lparr>squeue := []\<rparr>"]
    show ?thesis by (simp add: served_def)
  qed
  from t obtain j where "find_sink i (sinks t) = Some j" by (auto simp: pump_timer_def bind_eq_Some_conv)
  with t have "s' = t \<or> call_timer (cb_timer_expired j) i (t\<lparr>sinks := set_sink_timer i 0 (sinks t)\<rparr>) = Some s'"
    by (auto simp: pump_timer_def split: if_splits)
  then show ?thesis
  proof
    assume "s' = t"
    with a show ?thesis by simp
  next
    let ?u = "t\<lparr>sinks := set_sink_timer i 0 (sinks t)\<rparr>"
    assume c: "call_timer (cb_timer_expired j) i ?u = Some s'"
    have u: "dhcp_inv ?u" "arp_inv ?u" "in_hand ?u = in_hand t" using a by (simp_all add: in_hand_def)
    have "map stopped (sinks s') = map stopped (sinks t)" "dhcp_inv s'" "arp_inv s'"
      using call_timer_calm [OF c] u by (simp_all add: calm_def)
    with call_timer_in_hand [OF c u(1)] u(3) a show ?thesis by simp
  qed
qed

lemma pump_sinks_effect:
  assumes "feed pump_sink is s = Some s'" "dhcp_inv s" "arp_inv s"
  shows "in_hand s' = in_hand s \<and> dhcp_inv s' \<and> arp_inv s' \<and>
    map stopped (sinks s') = fold (\<lambda>i. at_sink i served) is (map stopped (sinks s))"
  using assms
proof (induction "is" arbitrary: s)
  case (Cons i "is")
  then obtain t where t: "pump_sink i s = Some t" "feed pump_sink is t = Some s'" by (auto simp: bind_eq_Some_conv)
  note e = pump_sink_effect [OF t(1) Cons.prems(2,3)]
  from Cons.IH [OF t(2)] e show ?case by (simp add: stopped_at_sink)
qed simp

lemma fold_served:
  "distinct (map sid ks) \<Longrightarrow> fold (\<lambda>i. at_sink i served) (map sid ks) ks = map served ks"
proof (induction ks)
  case (Cons k ks)
  have behind: "fold (\<lambda>i. at_sink i served) is (k2 # ls) = k2 # fold (\<lambda>i. at_sink i served) is ls"
    if "sid k2 \<notin> set is" for "is" k2 ls
    using that by (induction "is" arbitrary: ls) auto
  show ?case using Cons behind [of "served k" "map sid ks"] by simp
qed simp

section \<open>The card and the transmit queue\<close>

lemma net_eth_push_keeps:
  "net_eth_push p s = Some s' \<Longrightarrow> conf s' = conf s \<and> cache s' = cache s \<and> net.more s' = net.more s"
  by (erule net_eth_push_cases) (simp_all add: packet_free_def)

lemma push_received_effect:
  assumes "push_received f s = Some s'"
  shows "in_hand s' = in_hand s" "dhcp_inv s' = dhcp_inv s" "arp_inv s' = arp_inv s"
    "map sid (sinks s') = map sid (sinks s)" "sorted_sinks (sinks s) \<Longrightarrow> sorted_sinks (sinks s')"
proof -
  from assms obtain p where p: "net_eth_push p (packet_born s) = Some s'" by (auto simp: push_received_def bind_eq_Some_conv)
  from net_eth_push_in_hand [OF p] show "in_hand s' = in_hand s" by simp
  have fields: "sinks (packet_born s) = sinks s" "conf (packet_born s) = conf s" "cache (packet_born s) = cache s"
    "net.more (packet_born s) = net.more s" by (simp_all add: packet_born_def)
  have free: "sinks (packet_free t) = sinks t" for t :: "'a dhcp_net_scheme" by (simp add: packet_free_def)
  show "dhcp_inv s' = dhcp_inv s" "arp_inv s' = arp_inv s"
    using net_eth_push_keeps [OF p] fields more_inv(1) [of s' s] arp_inv_cong [of s' s] by simp_all
  have "map sid (sinks s') = map sid (sinks s) \<and> (sorted_sinks (sinks s) \<longrightarrow> sorted_sinks (sinks s'))"
    using p
  proof (cases rule: net_eth_push_cases)
    case (queue p' q ks)
    from deliver_Some [OF queue(3)] obtain as k bs where "sinks s = as @ k # bs" "ks = as @ enqueue p' k # bs"
      by (auto simp: fields)
    then show ?thesis using queue(4) by (auto simp: sorted_sinks_def sorted_wrt_append enqueue_def score_sink_def)
  qed (simp_all add: free fields)
  then show "map sid (sinks s') = map sid (sinks s)" "sorted_sinks (sinks s) \<Longrightarrow> sorted_sinks (sinks s')" by simp_all
qed

lemma feed_received:
  assumes "feed push_received fs s = Some s'"
  shows "in_hand s' = in_hand s \<and> dhcp_inv s' = dhcp_inv s \<and> arp_inv s' = arp_inv s \<and>
    map sid (sinks s') = map sid (sinks s) \<and> (sorted_sinks (sinks s) \<longrightarrow> sorted_sinks (sinks s'))"
  using assms
proof (induction fs arbitrary: s)
  case (Cons f fs)
  then obtain t where t: "push_received f s = Some t" "feed push_received fs t = Some s'" by (auto simp: bind_eq_Some_conv)
  from Cons.IH [OF t(2)] push_received_effect [OF t(1)] show ?case by auto
qed simp

text \<open>The transmit queue drives the card as the driver's own loop does, packet for packet.\<close>

lemma pump_txq_effect:
  assumes "pump_txq ps s = Some s'" "in_hand (s\<lparr>txq := ps\<rparr>) = h"
  shows "in_hand s' = h \<and> surroundings s' = surroundings s \<and> cache s' = cache s \<and>
    pump_tx (map wire ps) (card s) = Some (map wire (txq s'), card s')"
  using assms
proof (induction ps arbitrary: s)
  case Nil
  then show ?case by (auto simp: surroundings_def)
next
  case (Cons p ps)
  show ?case
  proof (cases "tx1 (card s) \<noteq> 0 \<and> tx2 (card s) \<noteq> 0")
    case True
    with Cons.prems show ?thesis by (auto simp: surroundings_def wire_def Let_def)
  next
    case False
    with Cons.prems(1) obtain sent t where t: "eth_attempt_tx p (s\<lparr>txq := ps\<rparr>) = Some (sent, t)"
      "pump_txq ps (packet_free t) = Some s'" by (auto simp: bind_eq_Some_conv)
    then obtain c where c: "eth_tx (fst (wire p)) (snd (wire p)) (card s) = Some (sent, c)" "t = s\<lparr>txq := ps, card := c\<rparr>"
      by (auto simp: eth_attempt_tx_def)
    have "in_hand ((packet_free t)\<lparr>txq := ps\<rparr>) = h"
      using Cons.prems(2) c(2) by (simp add: in_hand_def packet_free_def algebra_simps)
    from Cons.IH [OF t(2) this] c False show ?thesis
      by (auto simp: surroundings_def packet_free_def wire_def Let_def)
  qed
qed

lemma pump_card_effect:
  assumes "pump_card s = Some s'"
  shows "in_hand s' = in_hand s \<and> dhcp_inv s' = dhcp_inv s \<and> arp_inv s' = arp_inv s \<and>
    map sid (sinks s') = map sid (sinks s) \<and> (sorted_sinks (sinks s) \<longrightarrow> sorted_sinks (sinks s'))"
proof (cases "base (card s) = 0")
  case True
  with assms show ?thesis by (simp add: pump_card_def)
next
  case False
  with assms obtain c t where f: "feed push_received (rx_frames c) (s\<lparr>card := c\<rparr>) = Some t" and p: "pump_txq (txq t) t = Some s'"
    by (auto simp: pump_card_def bind_eq_Some_conv)
  have c: "dhcp_inv (s\<lparr>card := c\<rparr>) = dhcp_inv s" "arp_inv (s\<lparr>card := c\<rparr>) = arp_inv s"
    by (simp_all add: dhcp_inv_def interface_of_def arp_inv_def)
  note e = pump_txq_effect [OF p, of "in_hand t"]
  have s: "surroundings s' = surroundings t" "cache s' = cache t" "in_hand s' = in_hand t" using e by simp_all
  have "dhcp_inv s' = dhcp_inv t" "sinks s' = sinks t" "arp_inv s' = arp_inv t"
    using surroundings_dhcp_inv [OF s(1)] s(1,2) by (simp_all add: surroundings_def arp_inv_def)
  with feed_received [OF f] s(3) c show ?thesis by simp
qed

lemma arp_pump_surroundings: "arp_pump ps s = Some (kept, s') \<Longrightarrow> surroundings s' = surroundings s"
proof (induction ps arbitrary: s kept)
  case (Cons p ps)
  then obtain r q t where r: "net_arp_resolve p s = Some (r, q, t)" by (auto simp: bind_eq_Some_conv)
  have "surroundings (t\<lparr>txq := x\<rparr>) = surroundings t" for x by (simp add: surroundings_def)
  with Cons resolve_surroundings [OF r] r show ?case by (cases r) auto
qed simp

lemma resolve_arpq:
  assumes "net_arp_resolve p s = Some (r, p', s')" "length (if_mac (conf s)) = 6"
  shows "arpq s' = arpq s"
  using assms(1)
proof (cases rule: net_arp_resolve_cases)
  case (retry e)
  from query_keeps [OF retry(8)] assms(2) show ?thesis by simp
next
  case start
  from query_keeps [OF start(5)] assms(2) show ?thesis by simp
qed simp_all

lemma arp_pump_arpq:
  "arp_pump ps s = Some (kept, s') \<Longrightarrow> length (if_mac (conf s)) = 6 \<Longrightarrow> arpq s' = arpq s"
proof (induction ps arbitrary: s kept)
  case (Cons p ps)
  then obtain r q t where r: "net_arp_resolve p s = Some (r, q, t)" by (auto simp: bind_eq_Some_conv)
  have "conf t = conf s" using resolve_surroundings [OF r] by (simp add: surroundings_def)
  moreover have "arpq (packet_free t) = arpq t" "conf (packet_free t) = conf t" by (simp_all add: packet_free_def)
  ultimately show ?case
    using Cons resolve_arpq [OF r Cons.prems(2)] r by (cases r) auto
qed simp

lemma net_pump_effect:
  assumes "net_pump s = Some s'" "dhcp_inv s" "arp_inv s" "sorted_sinks (sinks s)" "distinct (map sid (sinks s))"
  shows "in_hand s' = in_hand s \<and> (\<forall>k \<in> set (sinks s'). cb_packet_received k = No_receiver \<or> squeue k = []) \<and>
    map sid (sinks s') = map sid (sinks s) \<and> sorted_sinks (sinks s') \<and> arp_inv s' \<and> dhcp_inv s'"
proof -
  from assms(1) obtain t u where t: "net_arp_resolver_pump s = Some t" and u: "pump_card t = Some u"
    and w: "feed pump_sink (map sid (sinks u)) u = Some s'" by (auto simp: net_pump_def bind_eq_Some_conv)
  from t obtain kept a where a: "arp_pump (arpq s) s = Some (kept, a)" "t = a\<lparr>arpq := kept\<rparr>"
    by (auto simp: net_arp_resolver_pump_def)
  have "surroundings t = surroundings s" using arp_pump_surroundings [OF a(1)] a(2) by (simp add: surroundings_def)
  then have ts: "sinks t = sinks s" "dhcp_inv t = dhcp_inv s"
    using surroundings_dhcp_inv [of t s] by (simp_all add: surroundings_def)
  have m: "length (if_mac (conf s)) = 6" using assms(3) by (simp add: arp_inv_def)
  have "arp_inv t" using arp_inv_pump [OF a(1) assms(3)] a(2) by simp
  moreover have "in_hand t = in_hand s"
    using arp_pump_in_hand [OF a(1)] arp_pump_arpq [OF a(1) m] a(2) by (simp add: in_hand_def algebra_simps)
  moreover note e = pump_card_effect [OF u]
  ultimately have u: "in_hand u = in_hand s" "dhcp_inv u" "arp_inv u" "map sid (sinks u) = map sid (sinks s)"
    "sorted_sinks (sinks u)" using ts assms(2,4) by simp_all
  have d: "distinct (map sid (map stopped (sinks u)))" using u(4) assms(5) by (simp add: comp_def)
  have ids: "map sid (sinks u) = map sid (map stopped (sinks u))" by (simp add: comp_def)
  have f: "map stopped (sinks s') = map served (map stopped (sinks u))"
    using pump_sinks_effect [OF w u(2,3)] fold_served [OF d] ids by simp
  then have q: "map stopped (sinks s') = map (\<lambda>k. served (stopped k)) (sinks u)" by (simp add: comp_def)
  have "cb_packet_received k = No_receiver \<or> squeue k = []" if "k \<in> set (sinks s')" for k
  proof -
    have "stopped k \<in> set (map stopped (sinks s'))" using that by simp
    then obtain j where "stopped k = served (stopped j)" unfolding q by auto
    then have "cb_packet_received (stopped k) = cb_packet_received (served (stopped j))"
      "squeue (stopped k) = squeue (served (stopped j))" by simp_all
    then show ?thesis by (auto simp: served_def split: if_splits)
  qed
  moreover have "map sid (sinks s') = map sid (sinks s)"
    using arg_cong [OF q, of "map sid"] u(4) by (simp add: comp_def)
  moreover have "map score_sink (sinks s') = map score_sink (sinks u)"
    using arg_cong [OF q, of "map score_sink"] by (simp add: comp_def)
  then have "sorted_sinks (sinks s')"
    using u(5) by (simp add: sorted_scores)
  ultimately show ?thesis using pump_sinks_effect [OF w u(2,3)] u(1) by simp
qed

text \<open>C12. A turn of the network stack loses no packet and frees none twice: over \<open>net_pump\<close> (the resolver,
  the card, every handler and every timer) the packets allocated and held by no queue stay as many as
  they were, none in the main loop; afterwards no packet waits in a sink that has a receiver; the sinks
  stay the same and in order; and the invariants of the address cache and of the DHCP client hold on.\<close>

theorem pump_conserves:
  assumes "net_pump s = Some s'" "dhcp_inv s" "arp_inv s" "sorted_sinks (sinks s)" "distinct (map sid (sinks s))"
  shows "in_hand s' = in_hand s \<and> (\<forall>k \<in> set (sinks s'). cb_packet_received k = No_receiver \<or> squeue k = []) \<and>
    map sid (sinks s') = map sid (sinks s) \<and> sorted_sinks (sinks s') \<and> arp_inv s' \<and> dhcp_inv s'"
  by (rule net_pump_effect [OF assms])

text \<open>An ARP request for our address waits in the sink for ARP packets.\<close>

definition pumped_net :: dhcp_net where
  "pumped_net = net.extend (sample_net\<lparr>sinks := [(arp_sink 0 5)\<lparr>squeue := [sample_request]\<rparr>], alive := 1\<rparr>)
     (dhcp_net.fields DHCP_BOUND 0 0 0 0 0 0 100 5 2)"

theorem pump_conserves_witness:
  "\<exists>s'. net_pump pumped_net = Some s' \<and> in_hand s' = 0 \<and> (\<forall>k \<in> set (sinks s'). squeue k = [])"
proof -
  have "\<exists>s'. arp_process_packet sample_request (pumped_net\<lparr>sinks := [arp_sink 0 5]\<rparr>) = Some s'"
    by (simp add: pumped_net_def net.defs dhcp_net.defs arp_process_packet_def arp_input_def sample_request_def
        sample_frame_def sample_net_def rd16_def rd8_def
      rd32_def be16_def be32_def packet_alloc_def reply_bytes rdn_def net_tx_def net_tx_with_def may_send_def
      compute_checksums_def ethertype_def arp_frame_def bytes16_def bytes32_def net_consts net_ipv4_route_def
      eth_attempt_tx_def eth_tx_def idle_card_def packet_born_def)
  then obtain t where t: "arp_process_packet sample_request (pumped_net\<lparr>sinks := [arp_sink 0 5]\<rparr>) = Some t" by blast
  have "surroundings t = surroundings (pumped_net\<lparr>sinks := [arp_sink 0 5]\<rparr>)" by (rule arp_process_surroundings [OF t])
  then have ts: "sinks t = [arp_sink 0 5]" "now t = 1000" by (simp_all add: surroundings_def pumped_net_def sample_net_def net.defs dhcp_net.defs)
  have p: "arpq pumped_net = []" "base (card pumped_net) = 0" "sinks pumped_net = [(arp_sink 0 5)\<lparr>squeue := [sample_request]\<rparr>]"
    "pumped_net\<lparr>arpq := []\<rparr> = pumped_net"
    by (simp_all add: pumped_net_def sample_net_def net.defs dhcp_net.defs)
  have k: "(arp_sink 0 5)\<lparr>squeue := []\<rparr> = arp_sink 0 5" "sid (arp_sink 0 5) = 5"
    "cb_packet_received (arp_sink 0 5) = Arp_process" "stimer (arp_sink 0 5) = 3000"
    by (simp_all add: arp_sink_def packet_sink_alloc_def set_timer_sec_def set_timer_ms_def TIMER_MS_PER_TICK_def
        set_timer_ticks_def)
  have "net_pump pumped_net = Some t"
    using t ts by (simp add: net_pump_def net_arp_resolver_pump_def p pump_card_def pump_sink_def k call_receiver_def
        pump_timer_def timer_expired_def word_sless_alt)
  moreover have "dhcp_inv pumped_net" "arp_inv pumped_net" "sorted_sinks (sinks pumped_net)"
    "distinct (map sid (sinks pumped_net))" "in_hand pumped_net = 0" "\<forall>k \<in> set (sinks t). cb_packet_received k \<noteq> No_receiver"
    using ts by (simp_all add: p k sorted_sinks_def)
      (simp_all add: dhcp_inv_def arp_inv_def pumped_net_def sample_net_def net.defs dhcp_net.defs in_hand_def)
  ultimately show ?thesis using pump_conserves [of pumped_net t] by auto
qed

end
