(* ===== verification/FileIO.thy ===== *)
theory FileIO
  imports Loader
begin

text \<open>
  The part of the file system interface of the vendored FatFs that theory \<open>Loader\<close> does not use: writing,
  creating, closing and removing files, and searching a directory. All of it is a parameter. A write returns
  its result code and the number of bytes that were stored. The messages of the commands are here as well.
\<close>

record 'f rw_fatfs = "'f fatfs" +
  f_write :: "'f \<Rightarrow> u8 list \<Rightarrow> fresult \<times> u32 \<times> 'f"
  f_create :: "cbytes \<Rightarrow> fresult \<times> 'f"
  f_close :: "'f \<Rightarrow> fresult \<times> 'f"

text \<open>
  The volumes as the commands see them, with the state \<open>'v\<close> that creating, writing and removing files
  changes; \<open>'f\<close> are open files and \<open>'d\<close> open directories. \<open>filinfo\<close> is what reading a directory yields.
\<close>

record filinfo =
  fsize :: u32
  fdate :: u16
  ftime :: u16
  fattrib :: u8
  fname :: cbytes

definition AM_DIR :: u8 where "AM_DIR = 0x10"
definition FA_READ :: u8 where "FA_READ = 0x01"
definition FA_WRITE :: u8 where "FA_WRITE = 0x02"
definition FA_CREATE_ALWAYS :: u8 where "FA_CREATE_ALWAYS = 0x08"

record ('v, 'f, 'd) volumes =
  v_open :: "cbytes \<Rightarrow> u8 \<Rightarrow> 'v \<Rightarrow> fresult \<times> 'f \<times> 'v"
  v_size :: "'f \<Rightarrow> 'v \<Rightarrow> u32"
  v_read :: "'f \<Rightarrow> u32 \<Rightarrow> 'v \<Rightarrow> fresult \<times> u8 list \<times> 'f"
  v_lseek :: "'f \<Rightarrow> u32 \<Rightarrow> 'v \<Rightarrow> fresult \<times> 'f"
  v_write :: "'f \<Rightarrow> u8 list \<Rightarrow> 'v \<Rightarrow> fresult \<times> u32 \<times> 'f \<times> 'v"
  v_close :: "'f \<Rightarrow> 'v \<Rightarrow> fresult \<times> 'v"
  v_opendir :: "cbytes \<Rightarrow> 'v \<Rightarrow> fresult \<times> 'd"
  v_readdir :: "'d \<Rightarrow> 'v \<Rightarrow> fresult \<times> filinfo \<times> 'd"
  v_closedir :: "'d \<Rightarrow> 'v \<Rightarrow> fresult"
  v_findfirst :: "cbytes \<Rightarrow> cbytes \<Rightarrow> 'v \<Rightarrow> fresult \<times> filinfo"
  v_getfree :: "cbytes \<Rightarrow> 'v \<Rightarrow> fresult \<times> u32 \<times> u16"
  v_unlink :: "cbytes \<Rightarrow> 'v \<Rightarrow> fresult \<times> 'v"
  v_rename :: "cbytes \<Rightarrow> cbytes \<Rightarrow> 'v \<Rightarrow> fresult \<times> 'v"
  v_mkdir :: "cbytes \<Rightarrow> 'v \<Rightarrow> fresult \<times> 'v"
  v_chdir :: "cbytes \<Rightarrow> 'v \<Rightarrow> fresult \<times> 'v"
  v_chdrive :: "cbytes \<Rightarrow> 'v \<Rightarrow> fresult \<times> 'v"
  v_getcwd :: "'v \<Rightarrow> cbytes"

text \<open>The volumes in one state, as the loader sees them.\<close>

definition read_only :: "('v, 'f, 'd) volumes \<Rightarrow> 'v \<Rightarrow> 'f fatfs" where
  "read_only vol v = \<lparr>f_lseek = (\<lambda>f off. v_lseek vol f off v), f_read = (\<lambda>f n. v_read vol f n v),
     f_size = (\<lambda>f. v_size vol f v), f_open = (\<lambda>name. case v_open vol name FA_READ v of (fr, f, _) \<Rightarrow> (fr, f))\<rparr>"

text \<open>What a command prints: a failed call with its arguments, a fixed text, or the lines of the listing.\<close>

datatype message =
    Failed string "cbytes list" fresult
  | Note string
  | Told string "cbytes list"
  | Counted string u32
  | Entry "u32 option" int int int int int cbytes
  | Totals u32 u32 char u32 u32

definition fatfs_errmsg :: "string list" where
  "fatfs_errmsg = [''Succeeded'',
     ''A hard error occurred in the low level disk I/O layer'',
     ''Assertion failed'',
     ''The physical drive is not operational'',
     ''Could not find the file'',
     ''Could not find the path'',
     ''The path name format is invalid'',
     ''Access denied due to prohibited access or directory full'',
     ''Access denied due to prohibited access'',
     ''The file/directory object is invalid'',
     ''The physical drive is write protected'',
     ''The logical drive number is invalid'',
     ''The volume has no work area'',
     ''There is no valid FAT volume'',
     ''The f_mkfs() aborted due to any parameter error'',
     ''Could not get a grant to access the volume within defined period'',
     ''The operation is rejected according to the file sharing policy'',
     ''LFN working buffer could not be allocated'',
     ''Number of open files > _FS_LOCK'',
     ''Given parameter is invalid'']"

definition f_errmsg :: "fresult \<Rightarrow> string" where
  "f_errmsg errno = (if errno \<le> 19 then fatfs_errmsg ! errno else ''???'')"

text \<open>A string constant with its terminator.\<close>

definition ascii :: "string \<Rightarrow> cbytes" where "ascii s = map of_char s @ [0]"

text \<open>The file system writes: everything given is stored behind the contents there were.\<close>

definition appends :: "'f rw_fatfs \<Rightarrow> ('f \<Rightarrow> u8 list) \<Rightarrow> bool" where
  "appends fs contents \<longleftrightarrow> (\<forall>fd bs. \<exists>fd'. f_write fs fd bs = (FR_OK, of_nat (length bs), fd') \<and>
     contents fd' = contents fd @ bs)"

end
