(* ===== verification/Tftp.thy ===== *)
theory Tftp
  imports NetPump FileIO
begin

text \<open>
  The TFTP client, \<^verbatim>\<open>net/tftp.c\<close>. Its transfer record extends the state of the network core; its sink is
  the one with the identity \<open>tsid\<close>. The file system is a parameter. The callbacks of the sink
  (a packet received, the timer expired) are the steps of the machine; what the rest of the stack does
  meanwhile is the step \<open>Elsewhere\<close>. The byte counts are \<open>int\<close>s, and do not wrap for transfers below
  2 GiB. The allocation of the transfer record, the progress report and the final rate are left out. A null
  pointer for the count of bytes written makes the file system store that count at address 0.
\<close>

definition REQUEST_TIMEOUT :: u32 where "REQUEST_TIMEOUT = 1500"
definition DATA_TIMEOUT :: u32 where "DATA_TIMEOUT = 250"

record 'f tftp_transfer =
  data_queue :: "packet list"
  disk_file :: 'f
  is_put :: bool
  tftp_filename :: cbytes
  block_size :: u16
  last_block :: u16
  last_ack :: u16
  rollover_value :: u16
  bytes_transferred :: int
  total_size :: int
  window_size :: int
  started :: bool
  completed :: bool
  success :: bool
  timeouts :: int
  retransmits_this_block :: int

record 'f tftp_net = net +
  tftp :: "'f tftp_transfer"
  tsid :: nat

definition tftp_op_rrq :: u16 where "tftp_op_rrq = 1"
definition tftp_op_wrq :: u16 where "tftp_op_wrq = 2"
definition tftp_op_data :: u16 where "tftp_op_data = 3"
definition tftp_op_ack :: u16 where "tftp_op_ack = 4"
definition tftp_op_err :: u16 where "tftp_op_err = 5"
definition tftp_op_options_ack :: u16 where "tftp_op_options_ack = 6"

lemmas tftp_ops = tftp_op_rrq_def tftp_op_wrq_def tftp_op_data_def tftp_op_ack_def tftp_op_err_def tftp_op_options_ack_def

definition upd :: "('f tftp_transfer \<Rightarrow> 'f tftp_transfer) \<Rightarrow> 'f tftp_net \<Rightarrow> 'f tftp_net" where
  "upd f s = s\<lparr>tftp := f (tftp s)\<rparr>"

definition tftp_set_timer :: "u32 \<Rightarrow> 'f tftp_net \<Rightarrow> 'f tftp_net" where
  "tftp_set_timer ms s = s\<lparr>sinks := set_sink_timer (tsid s) (set_timer_ms (now s) ms) (sinks s)\<rparr>"

definition expected_block_number :: "'f tftp_transfer \<Rightarrow> int \<Rightarrow> u16" where
  "expected_block_number t cnt =
     (let e = uint (last_block t) + cnt in
      of_int (if e > 0xFFFF then
                (let e = e - 0x10000 in if e \<le> cnt \<and> rollover_value t = 1 then e + 1 else e)
              else e))"

section \<open>Packets\<close>

text \<open>A sink for another protocol has no packets.\<close>

definition packet_create_for_sink :: "sink \<Rightarrow> nat \<Rightarrow> 'a net_scheme \<Rightarrow> (packet \<times> 'a net_scheme) option" where
  "packet_create_for_sink k data_size s =
     map_option (\<lambda>p. (p, packet_born s))
       (if match_ipv4_protocol k = ip_proto_udp then
          packet_create_udp (conf s) (junk s) (now s) (match_remote_ip k) (match_remote_port k) (match_local_port k) data_size
        else if match_ipv4_protocol k = ip_proto_tcp then
          packet_create_tcp (conf s) (junk s) (now s) (match_remote_ip k) (match_remote_port k) (match_local_port k) data_size
        else None)"

definition MAXOPT :: nat where "MAXOPT = 1400"

text \<open>The options are the bytes of the buffer up to the offset: one that does not fit resets it to zero.\<close>

definition options_append :: "cbytes \<Rightarrow> cbytes \<Rightarrow> cbytes option" where
  "options_append options extra = do {
     n \<leftarrow> strlen extra;
     let extra_len = unat n + 1;
     Some (if extra_len + length options \<ge> MAXOPT then [] else options @ take extra_len extra) }"

fun options_list :: "cbytes \<Rightarrow> cbytes list \<Rightarrow> cbytes option" where
  "options_list options [] = Some options"
| "options_list options (e # es) = do { options \<leftarrow> options_append options e; options_list options es }"

function decimal :: "nat \<Rightarrow> cbytes \<Rightarrow> cbytes" where
  "decimal n t = (let t = of_nat (n mod 10 + 0x30) # t in if n div 10 \<noteq> 0 then decimal (n div 10) t else t)"
  by pat_completeness auto
termination by (relation "measure fst") auto

declare decimal.simps [simp del]

definition request_window :: "'f tftp_net \<Rightarrow> int" where
  "request_window s =
     (let w = (if is_put (tftp s) then 8 else eth_rxbuffer_size (card s) div 1280);
          w = (if w > 8 then 8 else w) in if w < 1 then 1 else w)"

definition tftp_create_request :: "'f tftp_net \<Rightarrow> (packet \<times> 'f tftp_net) option" where
  "tftp_create_request s = do {
     k \<leftarrow> find_sink (tsid s) (sinks s);
     options \<leftarrow> options_list []
       [tftp_filename (tftp s), ascii ''octet'', ascii ''rollover'', ascii ''0'', ascii ''tsize'',
        (if is_put (tftp s) then decimal (unat (of_int (total_size (tftp s)) :: u32)) [0] else ascii ''0''),
        ascii ''blksize'', ascii ''1024'', ascii ''windowsize'', [0x30 + of_int (request_window s), 0]];
     (p, s) \<leftarrow> packet_create_for_sink k (length options + 2) s;
     u \<leftarrow> pudp p;
     p \<leftarrow> wr16 p (u + 2) 69;
     d \<leftarrow> pdata p;
     p \<leftarrow> wr16 p d (if is_put (tftp s) then tftp_op_wrq else tftp_op_rrq);
     p \<leftarrow> wr p (d + 2) options;
     Some (p, s) }"

definition tftp_create_ack :: "'f tftp_net \<Rightarrow> (packet \<times> 'f tftp_net) option" where
  "tftp_create_ack s = do {
     k \<leftarrow> find_sink (tsid s) (sinks s);
     (p, s) \<leftarrow> packet_create_for_sink k 4 s;
     d \<leftarrow> pdata p;
     p \<leftarrow> wr16 p d tftp_op_ack;
     p \<leftarrow> wr16 p (d + 2) (last_block (tftp s));
     Some (p, upd (\<lambda>t. t\<lparr>last_ack := last_block t\<rparr>) s) }"

definition tftp_create_data :: "u16 \<Rightarrow> 'f tftp_net \<Rightarrow> (packet \<times> 'f tftp_net) option" where
  "tftp_create_data block_number s = do {
     k \<leftarrow> find_sink (tsid s) (sinks s);
     (p, s) \<leftarrow> packet_create_for_sink k (unat (block_size (tftp s)) + 4) s;
     d \<leftarrow> pdata p;
     p \<leftarrow> wr16 p d tftp_op_data;
     p \<leftarrow> wr16 p (d + 2) block_number;
     Some (p, s) }"

section \<open>Sending a file\<close>

definition give_up :: "'f tftp_net \<Rightarrow> 'f tftp_net" where
  "give_up s = upd (\<lambda>t. t\<lparr>completed := True, success := False\<rparr>) s"

text \<open>Block \<open>n + 1\<close> behind the last one acknowledged: \<open>None\<close> in the middle for an error (the loop returns
  without setting the timer), else whether it was the last of the file.\<close>

definition send_filled ::
  "packet \<Rightarrow> fresult \<Rightarrow> nat \<Rightarrow> 'f tftp_net \<Rightarrow> (bool option \<times> 'f tftp_net) option" where
  "send_filled p fr n s =
     (if fr \<noteq> FR_OK then Some (None, packet_free (give_up s))
      else if n < unat (block_size (tftp s)) then do {
        (ok, p) \<leftarrow> packet_data_resize p (int n + 4);
        if \<not> ok then Some (None, packet_free s)
        else map_option (\<lambda>s. (Some True, s)) (net_tx p s) }
      else map_option (\<lambda>s. (Some False, s)) (net_tx p s))"

definition put_block :: "'f fatfs \<Rightarrow> int \<Rightarrow> 'f tftp_net \<Rightarrow> (bool option \<times> 'f tftp_net) option" where
  "put_block fs n s = do {
     (p, s) \<leftarrow> tftp_create_data (expected_block_number (tftp s) (n + 1)) s;
     d \<leftarrow> pdata p;
     (case f_read fs (disk_file (tftp s)) (ucast (block_size (tftp s))) of (fr, bs, f) \<Rightarrow> do {
        p \<leftarrow> wr p (d + 4) bs;
        send_filled p fr (length bs) (upd (\<lambda>t. t\<lparr>disk_file := f\<rparr>) s) }) }"

fun put_blocks :: "'f fatfs \<Rightarrow> nat \<Rightarrow> int \<Rightarrow> 'f tftp_net \<Rightarrow> (bool \<times> 'f tftp_net) option" where
  "put_blocks fs 0 n s = Some (True, s)"
| "put_blocks fs (Suc k) n s = do {
     (last, s) \<leftarrow> put_block fs n s;
     (case last of None \<Rightarrow> Some (False, s) | Some l \<Rightarrow> if l then Some (True, s) else put_blocks fs k (n + 1) s) }"

definition tftp_put_send_data :: "'f fatfs \<Rightarrow> int \<Rightarrow> 'f tftp_net \<Rightarrow> 'f tftp_net option" where
  "tftp_put_send_data fs cnt s = do {
     let f = snd (f_lseek fs (disk_file (tftp s)) (of_int (bytes_transferred (tftp s))));
     (go, s) \<leftarrow> put_blocks fs (nat cnt) 0 (upd (\<lambda>t. t\<lparr>disk_file := f\<rparr>) s);
     Some (if go then tftp_set_timer DATA_TIMEOUT s else s) }"

text \<open>How many blocks the acknowledged one lies behind the last: the search goes down from the window size.\<close>

function acked_blocks :: "'f tftp_transfer \<Rightarrow> u16 \<Rightarrow> int \<Rightarrow> int" where
  "acked_blocks t block b =
     (if b \<ge> 0 then (if block = expected_block_number t b then b else acked_blocks t block (b - 1)) else b)"
  by pat_completeness auto
termination by (relation "measure (\<lambda>(t, block, b). nat (b + 1))") auto

declare acked_blocks.simps [simp del]

definition tftp_put_process_ack :: "'f fatfs \<Rightarrow> packet \<Rightarrow> 'f tftp_net \<Rightarrow> 'f tftp_net option" where
  "tftp_put_process_ack fs p s = do {
     d \<leftarrow> pdata p;
     block \<leftarrow> rd16 p (d + 2);
     let b = acked_blocks (tftp s) block (window_size (tftp s));
     if b < 0 then Some s
     else
       let s = (if b > 0 then upd (\<lambda>t. t\<lparr>retransmits_this_block := 0\<rparr>) s else s);
           s = upd (\<lambda>t. t\<lparr>last_block := block, bytes_transferred := bytes_transferred t + uint (block_size t) * b\<rparr>) s
       in if bytes_transferred (tftp s) > total_size (tftp s)
          then Some (upd (\<lambda>t. t\<lparr>completed := True, success := True\<rparr>) s)
          else tftp_put_send_data fs (if b = window_size (tftp s) then window_size (tftp s) else 1) s }"

section \<open>Options\<close>

definition tftp_get_send_ack :: "'f tftp_net \<Rightarrow> 'f tftp_net option" where
  "tftp_get_send_ack s = do {
     (p, s) \<leftarrow> tftp_create_ack s;
     s \<leftarrow> net_tx p s;
     Some (tftp_set_timer DATA_TIMEOUT s) }"

text \<open>The string at \<open>i\<close> ends at its terminator, or at \<open>e\<close>; the byte there is read before the bound is tested.\<close>

function skip_string :: "packet \<Rightarrow> nat \<Rightarrow> nat \<Rightarrow> nat option" where
  "skip_string p i e = do { c \<leftarrow> rd8 p i; if c \<noteq> 0 \<and> i < e then skip_string p (i + 1) e else Some i }"
  by pat_completeness auto
termination by (relation "measure (\<lambda>(p, i, e). e - i)") auto

declare skip_string.simps [simp del]

definition note_option_ack :: "cbytes \<Rightarrow> int \<Rightarrow> 'f tftp_transfer \<Rightarrow> 'f tftp_transfer option" where
  "note_option_ack opt v t = do {
     rollover \<leftarrow> strcmp opt (ascii ''rollover'');
     tsize \<leftarrow> strcmp opt (ascii ''tsize'');
     blksize \<leftarrow> strcmp opt (ascii ''blksize'');
     windowsize \<leftarrow> strcmp opt (ascii ''windowsize'');
     Some (if rollover = 0 \<and> (v = 0 \<or> v = 1) then t\<lparr>rollover_value := of_int v\<rparr>
       else if tsize = 0 then (if is_put t then t else t\<lparr>total_size := v\<rparr>)
       else if blksize = 0 then t\<lparr>block_size := of_int v\<rparr>
       else if windowsize = 0 then t\<lparr>window_size := v\<rparr>
       else t) }"

lemma skip_string_le: "skip_string p i e = Some j \<Longrightarrow> i \<le> j"
  by (induction p i e rule: skip_string.induct) (subst (asm) (2) skip_string.simps; auto simp: bind_eq_Some_conv split: if_splits)

function options_loop :: "packet \<Rightarrow> nat \<Rightarrow> nat \<Rightarrow> 'f tftp_transfer \<Rightarrow> 'f tftp_transfer option" where
  "options_loop p i e t = (
     case skip_string p i e of None \<Rightarrow> None | Some j \<Rightarrow>
     if j \<ge> e then Some t else
     case skip_string p (j + 1) e of None \<Rightarrow> None | Some k \<Rightarrow>
     if k \<ge> e then Some t else
     case atoi (drop (j + 1) (pbuf p)) of None \<Rightarrow> None | Some v \<Rightarrow>
     case note_option_ack (drop i (pbuf p)) v t of None \<Rightarrow> None | Some t \<Rightarrow>
     options_loop p (k + 1) e t)"
  by pat_completeness auto
termination
  by (relation "measure (\<lambda>(p, i, e, t). e - i)") (auto dest!: skip_string_le)

declare options_loop.simps [simp del]

definition tftp_process_options_ack :: "'f fatfs \<Rightarrow> packet \<Rightarrow> 'f tftp_net \<Rightarrow> 'f tftp_net option" where
  "tftp_process_options_ack fs p s = do {
     d \<leftarrow> pdata p;
     t \<leftarrow> options_loop p (d + 2) (d + unat (data_length p)) (tftp s);
     let s = s\<lparr>tftp := t\<rparr>;
     if is_put t then tftp_put_send_data fs (window_size t) s else tftp_get_send_ack s }"

section \<open>Receiving a file\<close>

definition count_at_zero :: "u32 \<Rightarrow> 'a net_scheme \<Rightarrow> 'a net_scheme" where
  "count_at_zero n s = s\<lparr>low_memory := (\<lambda>i. if i < 4 then bytes32 n ! i else low_memory s i)\<rparr>"

fun flush_queue :: "'f rw_fatfs \<Rightarrow> packet list \<Rightarrow> 'f tftp_net \<Rightarrow> 'f tftp_net option" where
  "flush_queue fs [] s = Some s"
| "flush_queue fs (p # ps) s =
     (let sz = uint (data_length p) - 4 in do {
      s \<leftarrow> (if sz > 0 then do {
             d \<leftarrow> pdata p;
             bs \<leftarrow> rdn p (d + 4) (nat sz);
             (case f_write fs (disk_file (tftp s)) bs of (fr, n, f) \<Rightarrow>
                let s = count_at_zero n (upd (\<lambda>t. t\<lparr>disk_file := f, bytes_transferred := bytes_transferred t + sz\<rparr>) s)
                in Some (if fr \<noteq> FR_OK then give_up s else s)) }
           else Some s);
      flush_queue fs ps (packet_free s) })"

definition tftp_get_flush_data_and_ack :: "'f rw_fatfs \<Rightarrow> 'f tftp_net \<Rightarrow> 'f tftp_net option" where
  "tftp_get_flush_data_and_ack fs s = do {
     s \<leftarrow> tftp_get_send_ack s;
     flush_queue fs (data_queue (tftp s)) (upd (\<lambda>t. t\<lparr>data_queue := []\<rparr>) s) }"

text \<open>The flag tells the caller to free the packet.\<close>

definition tftp_get_process_data :: "'f rw_fatfs \<Rightarrow> packet \<Rightarrow> 'f tftp_net \<Rightarrow> (bool \<times> 'f tftp_net) option" where
  "tftp_get_process_data fs p s = do {
     d \<leftarrow> pdata p;
     let sz = uint (data_length p) - 4;
     rxblock \<leftarrow> rd16 p (d + 2);
     (free_packet, s) \<leftarrow>
       (if rxblock = expected_block_number (tftp s) 1 then
          let s = upd (\<lambda>t. t\<lparr>last_block := rxblock, retransmits_this_block := 0, data_queue := data_queue t @ [p]\<rparr>) s
          in if \<not> completed (tftp s) \<and> sz < uint (block_size (tftp s))
             then map_option (Pair False)
               (tftp_get_flush_data_and_ack fs (upd (\<lambda>t. t\<lparr>completed := True, success := True\<rparr>) s))
             else Some (False, s)
        else Some (True, s));
     s \<leftarrow> (if uint (last_block (tftp s)) = (uint (last_ack (tftp s)) + window_size (tftp s)) mod 0x10000
           then tftp_get_flush_data_and_ack fs s else Some s);
     Some (free_packet, s) }"

section \<open>The callbacks\<close>

definition lock_port :: "packet \<Rightarrow> 'f tftp_net \<Rightarrow> 'f tftp_net option" where
  "lock_port p s = do {
     k \<leftarrow> find_sink (tsid s) (sinks s);
     u \<leftarrow> pudp p;
     port \<leftarrow> rd16 p u;
     s \<leftarrow> net_add_packet_sink (k\<lparr>match_remote_port := port\<rparr>) (net_remove_packet_sink (tsid s) s);
     Some (upd (\<lambda>t. t\<lparr>started := True\<rparr>) s) }"

definition tftp_client_packet_received :: "'f rw_fatfs \<Rightarrow> packet \<Rightarrow> 'f tftp_net \<Rightarrow> 'f tftp_net option" where
  "tftp_client_packet_received fs p s = do {
     s \<leftarrow> (if \<not> started (tftp s) then lock_port p s else Some s);
     d \<leftarrow> pdata p;
     opcode \<leftarrow> rd16 p d;
     (free_packet, s) \<leftarrow>
       (if opcode = tftp_op_options_ack then map_option (Pair True) (tftp_process_options_ack (fatfs.truncate fs) p s)
        else if opcode = tftp_op_ack then
          (if is_put (tftp s) then map_option (Pair True) (tftp_put_process_ack (fatfs.truncate fs) p s) else Some (True, s))
        else if opcode = tftp_op_data then
          (if is_put (tftp s) then Some (True, s) else tftp_get_process_data fs p s)
        else Some (True, give_up s));
     Some (if free_packet then packet_free s else s) }"

definition tftp_client_timer_expired :: "'f rw_fatfs \<Rightarrow> 'f tftp_net \<Rightarrow> 'f tftp_net option" where
  "tftp_client_timer_expired fs s =
     (if retransmits_this_block (tftp s) > 20 then Some (give_up s)
      else if completed (tftp s) then Some s
      else do {
        s \<leftarrow> (if \<not> started (tftp s) then do {
                let s = tftp_set_timer REQUEST_TIMEOUT s;
                (p, s) \<leftarrow> tftp_create_request s;
                net_tx p s }
              else if is_put (tftp s) then tftp_put_send_data (fatfs.truncate fs) 1 s
              else tftp_get_flush_data_and_ack fs s);
        Some (upd (\<lambda>t. t\<lparr>timeouts := timeouts t + 1, retransmits_this_block := retransmits_this_block t + 1\<rparr>) s) })"

section \<open>A transfer\<close>

datatype event = Received packet | Expired | Elsewhere net

definition tftp_step :: "'f rw_fatfs \<Rightarrow> event \<Rightarrow> 'f tftp_net \<Rightarrow> 'f tftp_net option" where
  "tftp_step fs e s =
     (case e of Received p \<Rightarrow> tftp_client_packet_received fs p s
      | Expired \<Rightarrow> tftp_client_timer_expired fs s
      | Elsewhere n \<Rightarrow> Some (net.extend n (net.more s)))"

fun tftp_steps :: "'f rw_fatfs \<Rightarrow> event list \<Rightarrow> 'f tftp_net \<Rightarrow> 'f tftp_net option" where
  "tftp_steps fs [] s = Some s"
| "tftp_steps fs (e # es) s = Option.bind (tftp_step fs e s) (tftp_steps fs es)"

text \<open>The main loop: every turn pumps the network, which causes some steps, and reads a key. Waiting for
  more turns than are given is \<open>None\<close>.\<close>

fun tftp_loop :: "'f rw_fatfs \<Rightarrow> (event list \<times> int) list \<Rightarrow> 'f tftp_net \<Rightarrow> 'f tftp_net option" where
  "tftp_loop fs [] s = (if completed (tftp s) then Some s else None)"
| "tftp_loop fs ((es, byte) # turns) s =
     (if completed (tftp s) then Some s
      else do {
        s \<leftarrow> tftp_steps fs es s;
        if byte = 0x71 \<or> byte = 0x51 then Some s else tftp_loop fs turns s })"

definition tftp_sink :: "nat \<Rightarrow> u32 \<Rightarrow> u32 \<Rightarrow> sink" where
  "tftp_sink i server_ip tm = (packet_sink_alloc i)\<lparr>match_interface_local_ip := True, match_ipv4_protocol := ip_proto_udp,
     match_remote_ip := server_ip, match_local_port := 8192 + ucast (tm AND 0x7FFF)\<rparr>"

definition new_transfer :: "bool \<Rightarrow> cbytes \<Rightarrow> 'f \<Rightarrow> int \<Rightarrow> 'f tftp_transfer" where
  "new_transfer sending name f sz = \<lparr>data_queue = [], disk_file = f, is_put = sending, tftp_filename = name, block_size = 512,
     last_block = 0, last_ack = 0, rollover_value = 0, bytes_transferred = 0, total_size = sz, window_size = 1,
     started = False, completed = False, success = False, timeouts = 0, retransmits_this_block = 0\<rparr>"

text \<open>The result is the success and the closed file, or nothing when the file could not be opened.\<close>

definition tftp_transfer ::
  "'f rw_fatfs \<Rightarrow> nat \<Rightarrow> (event list \<times> int) list \<Rightarrow> u32 \<Rightarrow> cbytes \<Rightarrow> cbytes \<Rightarrow> bool \<Rightarrow> net \<Rightarrow>
   ((bool \<times> 'f) option \<times> net) option" where
  "tftp_transfer fs i turns server_ip name disk sending n =
     (case (if sending then f_open fs disk else f_create fs disk) of (fr, f) \<Rightarrow>
       if fr \<noteq> FR_OK then Some (None, n)
       else do {
         let t = new_transfer sending name f (if sending then sint (f_size fs f) else 0);
         n \<leftarrow> net_add_packet_sink (tftp_sink i server_ip (now n)) n;
         s \<leftarrow> tftp_client_timer_expired fs (net.extend n \<lparr>tftp = t, tsid = i\<rparr>);
         s \<leftarrow> tftp_loop fs turns (upd (\<lambda>t. t\<lparr>timeouts := 0, retransmits_this_block := 0\<rparr>) s);
         k \<leftarrow> find_sink i (sinks s);
         let f = snd (f_close fs (disk_file (tftp s)));
         let s = net_remove_packet_sink i s;
         let s = s\<lparr>alive := alive s - of_nat (length (squeue k) + length (data_queue (tftp s)))\<rparr>;
         Some (Some (success (tftp s), f), net.truncate s) })"

end
