(* ===== verification/Tftp_Transfer.thy ===== *)
theory Tftp_Transfer
  imports Tftp
begin

text \<open>
  What a TFTP transfer guarantees, in both directions: the file received is the file sent, every block sent is
  the block its number says, and success is reported only for a file acknowledged to the end. The runs
  are inductive predicates over the callbacks of theory \<open>Tftp\<close>.
\<close>

section \<open>Block numbers\<close>

text \<open>The number of block \<open>k\<close>, from 1 on, after both kinds of rollover.\<close>

definition block_no :: "u16 \<Rightarrow> nat \<Rightarrow> u16" where
  "block_no r k = of_nat (if r = 1 \<and> 0 < k then (k - 1) mod 65535 + 1 else k)"

lemma unat_block_no: "unat (block_no r k) = (if r = 1 \<and> 0 < k then (k - 1) mod 65535 + 1 else k mod 65536)"
proof (cases "r = 1 \<and> 0 < k")
  case True
  have "(k - 1) mod 65535 < 65535" by simp
  then have "unat (of_nat ((k - 1) mod 65535 + 1) :: u16) = (k - 1) mod 65535 + 1" by (intro u16_unat_of_nat) simp
  with True show ?thesis by (simp add: block_no_def)
qed (auto simp: block_no_def unat_of_nat)

lemma mod_close:
  fixes a b n :: nat
  assumes "a mod n = b mod n" "a < b + n" "b < a + n"
  shows "a = b"
proof -
  have "int n dvd int a - int b" using assms(1) by (metis mod_eq_dvd_iff of_nat_mod)
  then obtain q where q: "int a - int b = int n * q" by (auto elim: dvdE)
  have "\<bar>int n * q\<bar> < int n * 1" using assms(2,3) by (simp flip: q)
  have "q = 0"
  proof (rule ccontr)
    assume "q \<noteq> 0"
    then have "int n * 1 \<le> int n * \<bar>q\<bar>" by (intro mult_left_mono) auto
    with \<open>\<bar>int n * q\<bar> < int n * 1\<close> show False by (simp add: abs_mult)
  qed
  then show ?thesis using q by simp
qed

lemma block_no_inj:
  assumes "block_no r j = block_no r k" "j < k + 65535" "k < j + 65535"
  shows "j = k"
proof -
  have u: "unat (block_no r j) = unat (block_no r k)" using assms(1) by simp
  show ?thesis
  proof (cases "r = 1")
    case True
    then have z: "j = 0 \<longleftrightarrow> k = 0" using u unfolding unat_block_no by (auto split: if_splits)
    show ?thesis
    proof (cases "j = 0")
      case False
      then have "(j - 1) mod 65535 + 1 = (k - 1) mod 65535 + 1" using u z True unfolding unat_block_no by simp
      then have "(j - 1) mod 65535 = (k - 1) mod 65535" by (rule add_right_imp_eq)
      then have "j - 1 = k - 1" by (rule mod_close) (use assms z False in linarith)+
      with z False show ?thesis by simp
    qed (use z in simp)
  next
    case False
    then have "j mod 65536 = k mod 65536" using u unfolding unat_block_no by (simp only: simp_thms if_False)
    then show ?thesis by (rule mod_close) (use assms in linarith)+
  qed
qed

lemma expected_next:
  assumes "last_block t = block_no (rollover_value t) k"
  shows "expected_block_number t 1 = block_no (rollover_value t) (Suc k)"
proof -
  define m where "m = unat (last_block t)"
  have m: "m < 65536" "uint (last_block t) = int m" by (simp_all add: m_def)
  have b: "unat (expected_block_number t 1) = (if m + 1 > 65535 then if rollover_value t = 1 then 1 else 0 else m + 1)"
  proof (cases "m = 65535")
    case True
    then show ?thesis by (simp add: expected_block_number_def Let_def m(2))
  next
    case False
    then have "expected_block_number t 1 = of_nat (m + 1)"
      using m by (simp add: expected_block_number_def Let_def)
    then show ?thesis using False m(1) u16_unat_of_nat [of "m + 1"] by simp
  qed
  have mk: "m = (if rollover_value t = 1 \<and> 0 < k then (k - 1) mod 65535 + 1 else k mod 65536)"
    using assms by (simp add: m_def unat_block_no)
  have "unat (expected_block_number t 1) = unat (block_no (rollover_value t) (Suc k))"
  proof (cases "rollover_value t = 1")
    case True
    show ?thesis
    proof (cases k)
      case (Suc i)
      have "Suc i mod 65535 = (if Suc (i mod 65535) = 65535 then 0 else Suc (i mod 65535))" by (rule mod_Suc)
      with True Suc mk show ?thesis unfolding b unat_block_no by auto
    qed (use True mk in \<open>simp add: b unat_block_no\<close>)
  next
    case False
    have "Suc k mod 65536 = (if Suc (k mod 65536) = 65536 then 0 else Suc (k mod 65536))" by (rule mod_Suc)
    with False mk show ?thesis unfolding b unat_block_no by auto
  qed
  then show ?thesis by (simp only: word_unat_eq_iff)
qed

section \<open>What the steps change of the transfer\<close>

lemma upd_simps [simp]:
  "tftp (upd f s) = f (tftp s)" "tsid (upd f s) = tsid s" "sinks (upd f s) = sinks s"
  by (simp_all add: upd_def)

lemma tftp_other [simp]:
  "tftp (packet_free s) = tftp s" "tftp (packet_born s) = tftp s" "tftp (tftp_set_timer ms s) = tftp s"
  "tftp (count_at_zero n s) = tftp s" "tftp (s\<lparr>sinks := ks\<rparr>) = tftp s"
  "tsid (packet_free s) = tsid s" "tsid (count_at_zero n s) = tsid s"
  by (simp_all add: packet_free_def packet_born_def tftp_set_timer_def count_at_zero_def)

lemma net_tx_tftp: "net_tx p s = Some s' \<Longrightarrow> tftp s' = tftp s"
  using net_tx_surroundings [of p s s'] by (cases s; cases s') (auto simp: surroundings_def)

lemma elsewhere_tftp [simp]: "tftp (net.extend n (net.more s)) = tftp s"
  by (cases s) (simp add: net.extend_def)

lemma create_for_sink_state: "packet_create_for_sink k n s = Some (p, s') \<Longrightarrow> s' = packet_born s"
  by (auto simp: packet_create_for_sink_def)

lemma send_ack_tftp:
  assumes "tftp_get_send_ack s = Some s'"
  shows "tftp s' = (tftp s)\<lparr>last_ack := last_block (tftp s)\<rparr>"
  using assms
  by (auto simp: tftp_get_send_ack_def tftp_create_ack_def bind_eq_Some_conv dest!: net_tx_tftp create_for_sink_state)

lemma create_request_tftp: "tftp_create_request s = Some (p, s') \<Longrightarrow> tftp s' = tftp s"
  by (auto simp: tftp_create_request_def bind_eq_Some_conv dest!: create_for_sink_state)

lemma lock_port_tftp: "lock_port p s = Some s' \<Longrightarrow> tftp s' = (tftp s)\<lparr>started := True\<rparr>"
  by (auto simp: lock_port_def bind_eq_Some_conv net_add_packet_sink_def net_remove_packet_sink_def)

section \<open>A file received is the file sent\<close>

text \<open>The data of a DATA packet.\<close>

definition payload :: "packet \<Rightarrow> u8 list" where
  "payload p = (case pdata p of None \<Rightarrow> []
     | Some d \<Rightarrow> take (nat (uint (data_length p) - 4)) (drop (d + 4) (pbuf p)))"

lemma flush_queue_effect:
  assumes "flush_queue fs ps s = Some s'" "appends fs contents"
  shows "\<exists>f b. tftp s' = (tftp s)\<lparr>disk_file := f, bytes_transferred := b\<rparr> \<and>
    contents f = contents (disk_file (tftp s)) @ concat (map payload ps)"
  using assms(1)
proof (induction ps arbitrary: s)
  case Nil
  then show ?case by (intro exI [of _ "disk_file (tftp s')"] exI [of _ "bytes_transferred (tftp s')"]) simp
next
  case (Cons p ps)
  let ?sz = "uint (data_length p) - 4"
  show ?case
  proof (cases "?sz > 0")
    case False
    then have "payload p = []" by (simp add: payload_def split: option.split)
    moreover from Cons.prems False have "flush_queue fs ps (packet_free s) = Some s'" by (simp add: Let_def)
    ultimately show ?thesis using Cons.IH [of "packet_free s"] by simp
  next
    case True
    from Cons.prems True obtain d bs where d: "pdata p = Some d" "rdn p (d + 4) (nat ?sz) = Some bs"
      by (auto simp: Let_def bind_eq_Some_conv)
    then have bs: "payload p = bs" by (simp add: payload_def rdn_def split: if_splits)
    obtain f where w: "f_write fs (disk_file (tftp s)) bs = (FR_OK, of_nat (length bs), f)"
      "contents f = contents (disk_file (tftp s)) @ bs" using assms(2) unfolding appends_def by metis
    let ?t = "packet_free (count_at_zero (of_nat (length bs))
      (upd (\<lambda>t. t\<lparr>disk_file := f, bytes_transferred := bytes_transferred t + ?sz\<rparr>) s))"
    from Cons.prems True d w(1) have "flush_queue fs ps ?t = Some s'" by (simp add: Let_def)
    from Cons.IH [OF this] w(2) bs show ?thesis by auto
  qed
qed

lemma flush_effect:
  assumes "tftp_get_flush_data_and_ack fs s = Some s'" "appends fs contents"
  shows "\<exists>f b. tftp s' = (tftp s)\<lparr>last_ack := last_block (tftp s), data_queue := [], disk_file := f, bytes_transferred := b\<rparr> \<and>
    contents f = contents (disk_file (tftp s)) @ concat (map payload (data_queue (tftp s)))"
proof -
  from assms(1) obtain u where u: "tftp_get_send_ack s = Some u"
    "flush_queue fs (data_queue (tftp u)) (upd (\<lambda>t. t\<lparr>data_queue := []\<rparr>) u) = Some s'"
    by (auto simp: tftp_get_flush_data_and_ack_def bind_eq_Some_conv)
  from flush_queue_effect [OF u(2) assms(2)] send_ack_tftp [OF u(1)] show ?thesis by auto
qed

text \<open>A file in blocks: full ones, and a last one that is shorter.\<close>

definition file_block :: "u8 list \<Rightarrow> nat \<Rightarrow> nat \<Rightarrow> u8 list" where
  "file_block file bs j = take bs (drop ((j - 1) * bs) file)"

definition last_no :: "u8 list \<Rightarrow> nat \<Rightarrow> nat" where "last_no file bs = length file div bs + 1"

lemma file_block_short:
  assumes "0 < bs" "0 < j" "j \<le> last_no file bs"
  shows "length (file_block file bs j) < bs \<longleftrightarrow> j = last_no file bs"
proof -
  have l: "length (file_block file bs j) = min bs (length file - (j - 1) * bs)" by (simp add: file_block_def)
  have dm: "length file = length file div bs * bs + length file mod bs" "length file mod bs < bs" using assms(1) by simp_all
  show ?thesis
  proof (cases "j = last_no file bs")
    case True
    then have "(j - 1) * bs = length file div bs * bs" by (simp add: last_no_def)
    then have "length file - (j - 1) * bs = length file mod bs" using dm(1) by linarith
    then show ?thesis using True l dm(2) by simp
  next
    case False
    then have "j * bs \<le> length file div bs * bs" using assms(3) by (simp add: last_no_def)
    moreover have "j * bs = (j - 1) * bs + bs" using assms(2) by (simp add: mult_eq_if)
    ultimately have "bs \<le> length file - (j - 1) * bs" using dm(1) by linarith
    then show ?thesis using False l by simp
  qed
qed

lemma file_blocks_all:
  assumes "0 < bs" shows "take (last_no file bs * bs) file = file"
proof -
  have "length file = length file div bs * bs + length file mod bs" "length file mod bs < bs" using assms by simp_all
  then have "length file \<le> last_no file bs * bs" by (simp only: last_no_def add_mult_distrib)
  then show ?thesis by simp
qed

text \<open>What may arrive while \<open>k\<close> blocks have been received: any packet after the options were agreed on;
  but a DATA packet is a copy of a block of the file, sent at most 65533 blocks before or after.\<close>

definition incoming :: "u8 list \<Rightarrow> nat \<Rightarrow> u16 \<Rightarrow> nat \<Rightarrow> packet \<Rightarrow> bool" where
  "incoming file bs r k p \<longleftrightarrow> (\<forall>d. pdata p = Some d \<longrightarrow> rd16 p d \<noteq> Some tftp_op_options_ack \<and>
     (rd16 p d = Some tftp_op_data \<longrightarrow>
       (\<exists>j. 0 < j \<and> j \<le> last_no file bs \<and> j < k + 65534 \<and> k < j + 65534 \<and>
          rd16 p (d + 2) = Some (block_no r j) \<and> payload p = file_block file bs j \<and>
          uint (data_length p) = int (length (file_block file bs j)) + 4)))"

definition next_block :: "packet \<Rightarrow> 'f tftp_net \<Rightarrow> bool" where
  "next_block p s \<longleftrightarrow> (\<exists>d. pdata p = Some d \<and> rd16 p d = Some tftp_op_data \<and>
     rd16 p (d + 2) = Some (expected_block_number (tftp s) 1))"

text \<open>The runs of the receiving client, with the number of blocks received.\<close>

inductive receiving :: "'f rw_fatfs \<Rightarrow> ('f \<Rightarrow> u8 list) \<Rightarrow> u8 list \<Rightarrow> nat \<Rightarrow> u16 \<Rightarrow> nat \<Rightarrow> 'f tftp_net \<Rightarrow> bool"
  for fs :: "'f rw_fatfs" and contents :: "'f \<Rightarrow> u8 list" and "file" :: "u8 list" and bs :: nat and r :: u16 where
  Agreed: "\<not> is_put (tftp s) \<Longrightarrow> last_block (tftp s) = 0 \<Longrightarrow> data_queue (tftp s) = [] \<Longrightarrow>
    contents (disk_file (tftp s)) = [] \<Longrightarrow> unat (block_size (tftp s)) = bs \<Longrightarrow> rollover_value (tftp s) = r \<Longrightarrow>
    \<not> success (tftp s) \<Longrightarrow> receiving fs contents file bs r 0 s"
| Receive: "receiving fs contents file bs r k s \<Longrightarrow> incoming file bs r k p \<Longrightarrow>
    tftp_step fs (Received p) s = Some s' \<Longrightarrow> k' = (if next_block p s then Suc k else k) \<Longrightarrow>
    receiving fs contents file bs r k' s'"
| Expire: "receiving fs contents file bs r k s \<Longrightarrow> tftp_step fs Expired s = Some s' \<Longrightarrow>
    receiving fs contents file bs r k s'"
| Other: "receiving fs contents file bs r k s \<Longrightarrow> tftp_step fs (Elsewhere n) s = Some s' \<Longrightarrow>
    receiving fs contents file bs r k s'"

definition get_inv :: "('f \<Rightarrow> u8 list) \<Rightarrow> u8 list \<Rightarrow> nat \<Rightarrow> u16 \<Rightarrow> nat \<Rightarrow> 'f tftp_transfer \<Rightarrow> bool" where
  "get_inv contents file bs r k t \<longleftrightarrow> \<not> is_put t \<and> unat (block_size t) = bs \<and> rollover_value t = r \<and>
     last_block t = block_no r k \<and> k \<le> last_no file bs \<and>
     contents (disk_file t) @ concat (map payload (data_queue t)) = take (k * bs) file \<and>
     (success t \<longrightarrow> completed t \<and> k = last_no file bs \<and> data_queue t = [])"

lemma flush_inv:
  assumes "tftp_get_flush_data_and_ack fs s = Some s'" "appends fs contents" "get_inv contents file bs r k (tftp s)"
  shows "get_inv contents file bs r k (tftp s')"
  using flush_effect [OF assms(1,2)] assms(3) by (auto simp: get_inv_def)

lemma get_inv_other [simp]:
  "get_inv contents file bs r k (t\<lparr>started := a\<rparr>) = get_inv contents file bs r k t"
  "get_inv contents file bs r k (t\<lparr>timeouts := i, retransmits_this_block := j\<rparr>) = get_inv contents file bs r k t"
  "get_inv contents file bs r k (t\<lparr>completed := True, success := False\<rparr>) \<longleftrightarrow>
     get_inv contents file bs r k (t\<lparr>success := False\<rparr>)"
  by (simp_all add: get_inv_def)

lemma give_up_inv: "get_inv contents file bs r k (tftp s) \<Longrightarrow> get_inv contents file bs r k (tftp (give_up s))"
  by (auto simp: get_inv_def give_up_def)

lemma take_next_block: "take (k * bs) file @ file_block file bs (Suc k) = take (Suc k * bs) file"
proof -
  have "Suc k * bs = k * bs + bs" by simp
  then show ?thesis by (simp only: file_block_def take_add diff_Suc_1)
qed

lemma process_data_inv:
  assumes pd: "tftp_get_process_data fs p s = Some (fp, s')" and fs: "appends fs contents" and bs: "0 < bs"
    and inv: "get_inv contents file bs r k (tftp s)" and inc: "incoming file bs r k p"
    and d: "pdata p = Some d" "rd16 p d = Some tftp_op_data"
  shows "get_inv contents file bs r (if next_block p s then Suc k else k) (tftp s')"
proof -
  note I = inv [unfolded get_inv_def]
  obtain j where j: "0 < j" "j \<le> last_no file bs" "j < k + 65534" "k < j + 65534"
    "rd16 p (d + 2) = Some (block_no r j)" "payload p = file_block file bs j"
    "uint (data_length p) = int (length (file_block file bs j)) + 4"
    using inc d by (auto simp: incoming_def)
  have ex: "expected_block_number (tftp s) 1 = block_no r (Suc k)" using expected_next [of "tftp s" k] I by simp
  have nb: "next_block p s \<longleftrightarrow> block_no r j = expected_block_number (tftp s) 1"
    using d j(5) by (auto simp: next_block_def)
  obtain s1 where step: "(if block_no r j = expected_block_number (tftp s) 1 then
      (let u = upd (\<lambda>t. t\<lparr>last_block := block_no r j, retransmits_this_block := 0, data_queue := data_queue t @ [p]\<rparr>) s
       in if \<not> completed (tftp u) \<and> uint (data_length p) - 4 < uint (block_size (tftp u))
          then map_option (Pair False) (tftp_get_flush_data_and_ack fs (upd (\<lambda>t. t\<lparr>completed := True, success := True\<rparr>) u))
          else Some (False, u)) else Some (True, s)) = Some (fp, s1)"
    and last: "(if uint (last_block (tftp s1)) = (uint (last_ack (tftp s1)) + window_size (tftp s1)) mod 0x10000
       then tftp_get_flush_data_and_ack fs s1 else Some s1) = Some s'"
    using pd d(1) j(5) by (auto simp: tftp_get_process_data_def Let_def bind_eq_Some_conv cong: if_cong)
  have "get_inv contents file bs r (if next_block p s then Suc k else k) (tftp s1)"
  proof (cases "next_block p s")
    case False
    with step nb inv show ?thesis by simp
  next
    case True
    then have "block_no r j = block_no r (Suc k)" using nb ex by simp
    from block_no_inj [OF this] j(3,4) have jk: "j = Suc k" by simp
    let ?u = "upd (\<lambda>t. t\<lparr>last_block := block_no r j, retransmits_this_block := 0, data_queue := data_queue t @ [p]\<rparr>) s"
    have ns: "\<not> success (tftp s)" using I j(2) jk by auto
    have "contents (disk_file (tftp s)) @ concat (map payload (data_queue (tftp s))) @ payload p = take (Suc k * bs) file"
      using I j(6) jk take_next_block [of k bs "file"] by (metis append_assoc)
    then have iu: "get_inv contents file bs r (Suc k) (tftp ?u)" using I ns j(2) jk by (simp add: get_inv_def)
    show ?thesis
    proof (cases "\<not> completed (tftp ?u) \<and> uint (data_length p) - 4 < uint (block_size (tftp ?u))")
      case False
      have c: "block_no r j = expected_block_number (tftp s) 1" using True nb by simp
      from step have "s1 = ?u" unfolding if_P [OF c] Let_def if_not_P [OF False] by simp
      with iu True show ?thesis by simp
    next
      case short: True
      have "int (unat (block_size (tftp s))) = uint (block_size (tftp s))" by simp
      moreover have "unat (block_size (tftp s)) = bs" using I by blast
      moreover have "uint (data_length p) - 4 < uint (block_size (tftp s))" using short by simp
      ultimately have "int (length (file_block file bs j)) < int bs" using j(7) by linarith
      then have "j = last_no file bs" using file_block_short [OF bs j(1,2)] by simp
      let ?v = "upd (\<lambda>t. t\<lparr>completed := True, success := True\<rparr>) ?u"
      have fl: "tftp_get_flush_data_and_ack fs ?v = Some s1" using step True nb short by (simp add: Let_def)
      obtain f b where fb: "tftp s1 = (tftp ?v)\<lparr>last_ack := last_block (tftp ?v), data_queue := [], disk_file := f, bytes_transferred := b\<rparr>"
        "contents f = contents (disk_file (tftp ?v)) @ concat (map payload (data_queue (tftp ?v)))"
        using flush_effect [OF fl fs] by blast
      have "last_no file bs = Suc k" using \<open>j = last_no file bs\<close> jk by simp
      then have "get_inv contents file bs r (Suc k) (tftp s1)"
        using iu fb(2) unfolding fb(1) get_inv_def by simp
      then show ?thesis using True by simp
    qed
  qed
  then show ?thesis using last flush_inv [OF _ fs] by (auto split: if_splits)
qed

lemma timer_inv:
  assumes "tftp_client_timer_expired fs s = Some s'" "appends fs contents" "get_inv contents file bs r k (tftp s)"
  shows "get_inv contents file bs r k (tftp s')"
proof -
  consider "retransmits_this_block (tftp s) > 20" "s' = give_up s" | "s' = s"
    | t where "(if \<not> started (tftp s) then do {
                let s = tftp_set_timer REQUEST_TIMEOUT s;
                (p, s) \<leftarrow> tftp_create_request s;
                net_tx p s }
              else if is_put (tftp s) then tftp_put_send_data (fatfs.truncate fs) 1 s
              else tftp_get_flush_data_and_ack fs s) = Some t"
      "s' = upd (\<lambda>t. t\<lparr>timeouts := timeouts t + 1, retransmits_this_block := retransmits_this_block t + 1\<rparr>) t"
    using assms(1) by (auto simp: tftp_client_timer_expired_def bind_eq_Some_conv split: if_splits)
  then show ?thesis
  proof cases
    case (3 t)
    have np: "\<not> is_put (tftp s)" using assms(3) by (simp add: get_inv_def)
    have "get_inv contents file bs r k (tftp t)"
    proof (cases "started (tftp s)")
      case True
      with 3(1) np have "tftp_get_flush_data_and_ack fs s = Some t" by simp
      from flush_inv [OF this assms(2,3)] show ?thesis .
    next
      case False
      with 3(1) assms(3) show ?thesis by (auto simp: Let_def bind_eq_Some_conv dest!: net_tx_tftp create_request_tftp)
    qed
    then show ?thesis using 3(2) by simp
  qed (use assms(3) give_up_inv in auto)
qed

lemma receive_inv:
  assumes rc: "tftp_client_packet_received fs p s = Some s'" and fs: "appends fs contents" and bs: "0 < bs"
    and inv: "get_inv contents file bs r k (tftp s)" and inc: "incoming file bs r k p"
  shows "get_inv contents file bs r (if next_block p s then Suc k else k) (tftp s')"
proof -
  from rc obtain t d opc fp u where t: "(if \<not> started (tftp s) then lock_port p s else Some s) = Some t"
    and d: "pdata p = Some d" "rd16 p d = Some opc"
    and u: "(if opc = tftp_op_options_ack then map_option (Pair True) (tftp_process_options_ack (fatfs.truncate fs) p t)
        else if opc = tftp_op_ack then
          (if is_put (tftp t) then map_option (Pair True) (tftp_put_process_ack (fatfs.truncate fs) p t) else Some (True, t))
        else if opc = tftp_op_data then
          (if is_put (tftp t) then Some (True, t) else tftp_get_process_data fs p t)
        else Some (True, give_up t)) = Some (fp, u)"
    and s': "s' = (if fp then packet_free u else u)"
    by (auto simp: tftp_client_packet_received_def bind_eq_Some_conv)
  have it: "get_inv contents file bs r k (tftp t)"
    using t inv lock_port_tftp [of p s t] by (auto split: if_splits)
  have np: "\<not> is_put (tftp t)" using it by (simp add: get_inv_def)
  have nt: "next_block p t = next_block p s"
  proof -
    have "last_block (tftp t) = last_block (tftp s)" "rollover_value (tftp t) = rollover_value (tftp s)"
      using t lock_port_tftp [of p s t] by (auto split: if_splits)
    then show ?thesis by (simp only: next_block_def expected_block_number_def)
  qed
  have no: "opc \<noteq> tftp_op_options_ack" using inc d by (auto simp: incoming_def)
  have "get_inv contents file bs r (if next_block p s then Suc k else k) (tftp u)"
  proof (cases "opc = tftp_op_data")
    case True
    with u np have "tftp_get_process_data fs p t = Some (fp, u)" by (simp add: tftp_ops)
    from process_data_inv [OF this fs bs it inc d(1)] d(2) True nt show ?thesis by simp
  next
    case False
    then have "\<not> next_block p s" using d by (simp add: next_block_def)
    with u np no False it give_up_inv [OF it] show ?thesis by (auto split: if_splits)
  qed
  then show ?thesis by (cases fp) (simp_all only: s' if_True if_False tftp_other)
qed

lemma receiving_inv:
  assumes "receiving fs contents file bs r k s" "appends fs contents" "0 < bs"
  shows "get_inv contents file bs r k (tftp s)"
  using assms(1)
proof (induction rule: receiving.induct)
  case (Agreed s)
  then show ?case by (simp add: get_inv_def block_no_def)
next
  case (Receive k s p s' k')
  then show ?case using receive_inv [OF _ assms(2,3)] by (simp add: tftp_step_def)
next
  case (Expire k s s')
  then show ?case using timer_inv [OF _ assms(2)] by (simp add: tftp_step_def)
next
  case (Other k s n s')
  then show ?case by (auto simp: tftp_step_def)
qed


section \<open>A file sent is acknowledged\<close>

lemma expected_block:
  assumes "last_block t = block_no (rollover_value t) k" "b \<le> 65535"
  shows "expected_block_number t (int b) = block_no (rollover_value t) (k + b)"
proof -
  define m where "m = unat (last_block t)"
  have m: "m < 65536" "uint (last_block t) = int m" by (simp_all add: m_def)
  have mk: "m = (if rollover_value t = 1 \<and> 0 < k then (k - 1) mod 65535 + 1 else k mod 65536)"
    using assms(1) by (simp add: m_def unat_block_no)
  define v where "v = (if m + b > 65535 then if rollover_value t = 1 then m + b - 65535 else m + b - 65536 else m + b)"
  have "expected_block_number t (int b) = of_int (int v)"
    using m assms(2) by (auto simp: expected_block_number_def Let_def v_def)
  moreover have "v < 65536" using m(1) assms(2) by (auto simp: v_def)
  ultimately have e: "unat (expected_block_number t (int b)) = v" by (simp add: u16_unat_of_nat)
  have "v = unat (block_no (rollover_value t) (k + b))"
  proof (cases "rollover_value t = 1")
    case True
    show ?thesis
    proof (cases k)
      case 0
      then have "m = 0" using mk by simp
      then show ?thesis using True 0 assms(2) by (auto simp: v_def unat_block_no)
    next
      case (Suc i)
      define c where "c = i mod 65535"
      have c: "m = c + 1" "c < 65535" using mk True Suc by (simp_all add: c_def)
      have "(i + b) mod 65535 = (c + b) mod 65535" by (simp add: c_def mod_add_left_eq)
      also have "\<dots> = (if c + b < 65535 then c + b else c + b - 65535)"
        using c(2) assms(2) by (auto simp: not_less le_mod_geq)
      finally show ?thesis using True Suc c by (auto simp: v_def unat_block_no)
    qed
  next
    case False
    have "m = k mod 65536" using mk False by simp
    then have "(k + b) mod 65536 = (m + b) mod 65536" by (simp add: mod_add_left_eq)
    also have "\<dots> = (if m + b < 65536 then m + b else m + b - 65536)"
      using m(1) assms(2) by (auto simp: not_less le_mod_geq)
    finally show ?thesis using False by (auto simp: v_def unat_block_no)
  qed
  with e show ?thesis by (simp only: word_unat_eq_iff)
qed

text \<open>The search finds how far the acknowledged block lies ahead, if it lies within the window.\<close>

lemma acked_blocks_eq:
  assumes "last_block t = block_no (rollover_value t) k" "int b \<le> 32767"
    and "j < k + 32768" "k < j + 32768"
  shows "acked_blocks t (block_no (rollover_value t) j) (int b) =
    (if k \<le> j \<and> j \<le> k + b then int j - int k else -1)"
  using assms(2)
proof (induction b)
  case 0
  have e: "expected_block_number t 0 = block_no (rollover_value t) k" using expected_block [OF assms(1), of 0] by simp
  have "block_no (rollover_value t) j = block_no (rollover_value t) k \<longleftrightarrow> j = k"
    using block_no_inj [of "rollover_value t" j k] assms(3,4) by auto
  with e show ?case by (subst acked_blocks.simps, subst acked_blocks.simps) auto
next
  case (Suc b)
  have e: "expected_block_number t (int (Suc b)) = block_no (rollover_value t) (k + Suc b)"
    by (rule expected_block [OF assms(1)]) (use Suc.prems in simp)
  have "block_no (rollover_value t) j = block_no (rollover_value t) (k + Suc b) \<longleftrightarrow> j = k + Suc b"
    using block_no_inj [of "rollover_value t" j "k + Suc b"] assms(3,4) Suc.prems by auto
  with e Suc show ?case by (subst acked_blocks.simps) auto
qed

text \<open>Sending moves on in the file, and may give up.\<close>

definition moved_on :: "'f tftp_transfer \<Rightarrow> 'f tftp_transfer \<Rightarrow> bool" where
  "moved_on t t' \<longleftrightarrow> (\<exists>f c d. t' = t\<lparr>disk_file := f, completed := c, success := d\<rparr> \<and>
     (c = completed t \<and> d = success t \<or> c \<and> \<not> d))"

lemma moved_onI [simp]: "moved_on t t" "moved_on t (t\<lparr>disk_file := f\<rparr>)"
  "moved_on t (t\<lparr>disk_file := f, completed := True, success := False\<rparr>)"
proof -
  show "moved_on t (t\<lparr>disk_file := f, completed := True, success := False\<rparr>)" unfolding moved_on_def by blast
  show m: "moved_on t (t\<lparr>disk_file := f\<rparr>)" for f
    unfolding moved_on_def by (intro exI [of _ f] exI [of _ "completed t"] exI [of _ "success t"]) simp
  show "moved_on t t" using m [of "disk_file t"] by simp
qed

lemma moved_on_trans: "moved_on t u \<Longrightarrow> moved_on u v \<Longrightarrow> moved_on t v"
  unfolding moved_on_def by (elim exE conjE, hypsubst_thin) auto

lemma put_block_tftp:
  assumes "put_block fs n s = Some (l, s')"
  shows "moved_on (tftp s) (tftp s')"
proof -
  from assms obtain p u d where c: "tftp_create_data (expected_block_number (tftp s) (n + 1)) s = Some (p, u)"
    and rest: "(case f_read fs (disk_file (tftp u)) (ucast (block_size (tftp u))) of (fr, bs, f) \<Rightarrow> do {
        p \<leftarrow> wr p (d + 4) bs;
        send_filled p fr (length bs) (upd (\<lambda>t. t\<lparr>disk_file := f\<rparr>) u) }) = Some (l, s')"
    unfolding put_block_def by (auto simp: bind_eq_Some_conv)
  obtain fr bs f where r: "f_read fs (disk_file (tftp u)) (ucast (block_size (tftp u))) = (fr, bs, f)" by (rule prod_cases3)
  let ?v = "upd (\<lambda>t. t\<lparr>disk_file := f\<rparr>) u"
  have u: "tftp u = tftp s" using c by (auto simp: tftp_create_data_def bind_eq_Some_conv dest!: create_for_sink_state)
  from rest r obtain q where "send_filled q fr (length bs) ?v = Some (l, s')" by (auto simp: bind_eq_Some_conv)
  then consider "s' = packet_free (give_up ?v)" | "s' = packet_free ?v" | p where "net_tx p ?v = Some s'"
    by (auto simp: send_filled_def bind_eq_Some_conv split: if_splits)
  then show ?thesis
    by cases (use u in \<open>auto simp: give_up_def dest!: net_tx_tftp\<close>)
qed

lemma put_blocks_tftp:
  assumes "put_blocks fs m n s = Some (go, s')"
  shows "moved_on (tftp s) (tftp s')"
  using assms
proof (induction m arbitrary: n s)
  case 0
  then show ?case by simp
next
  case (Suc m)
  then obtain l u where u: "put_block fs n s = Some (l, u)"
    "(case l of None \<Rightarrow> Some (False, u) | Some l \<Rightarrow> if l then Some (True, u) else put_blocks fs m (n + 1) u) = Some (go, s')"
    by (auto simp: bind_eq_Some_conv)
  from put_block_tftp [OF u(1)] u(2) Suc.IH [of "n + 1" u] show ?case
    by (cases l) (auto split: if_splits intro: moved_on_trans)
qed

lemma send_data_tftp:
  assumes "tftp_put_send_data fs cnt s = Some s'"
  shows "moved_on (tftp s) (tftp s')"
proof -
  obtain go f u where u: "put_blocks fs (nat cnt) 0 (upd (\<lambda>t. t\<lparr>disk_file := f\<rparr>) s) = Some (go, u)" "tftp s' = tftp u"
    using assms by (auto simp: tftp_put_send_data_def bind_eq_Some_conv Let_def)
  show ?thesis using moved_on_trans [OF _ put_blocks_tftp [OF u(1)], of "tftp s"] u(2) by simp
qed

definition ack_of :: "packet \<Rightarrow> u16 option" where
  "ack_of p = (case pdata p of None \<Rightarrow> None
     | Some d \<Rightarrow> if rd16 p d = Some tftp_op_ack then rd16 p (d + 2) else None)"

text \<open>The runs of the sending client, from the agreement on the options on, with the number of blocks
  acknowledged: an acknowledgement is for a block of the file less than 32768 blocks away; other packets are
  anything but a second agreement.\<close>

inductive sending :: "'f rw_fatfs \<Rightarrow> nat \<Rightarrow> nat \<Rightarrow> u16 \<Rightarrow> nat \<Rightarrow> 'f tftp_net \<Rightarrow> bool"
  for fs :: "'f rw_fatfs" and fin :: nat and bs :: nat and r :: u16 where
  Agreed: "is_put (tftp s) \<Longrightarrow> last_block (tftp s) = 0 \<Longrightarrow> bytes_transferred (tftp s) = 0 \<Longrightarrow>
    unat (block_size (tftp s)) = bs \<Longrightarrow> rollover_value (tftp s) = r \<Longrightarrow>
    int ((fin - 1) * bs) \<le> total_size (tftp s) \<Longrightarrow> total_size (tftp s) < int (fin * bs) \<Longrightarrow>
    0 \<le> window_size (tftp s) \<Longrightarrow> window_size (tftp s) < 32768 \<Longrightarrow> \<not> success (tftp s) \<Longrightarrow> sending fs fin bs r 0 s"
| Acked: "sending fs fin bs r k s \<Longrightarrow> ack_of p = Some (block_no r j) \<Longrightarrow> j \<le> fin \<Longrightarrow> j < k + 32768 \<Longrightarrow>
    k < j + 32768 \<Longrightarrow> tftp_step fs (Received p) s = Some s' \<Longrightarrow>
    k' = (if k \<le> j \<and> int j \<le> int k + window_size (tftp s) then j else k) \<Longrightarrow> sending fs fin bs r k' s'"
| Stray: "sending fs fin bs r k s \<Longrightarrow> ack_of p = None \<Longrightarrow>
    (\<forall>d. pdata p = Some d \<longrightarrow> rd16 p d \<noteq> Some tftp_op_options_ack) \<Longrightarrow>
    tftp_step fs (Received p) s = Some s' \<Longrightarrow> sending fs fin bs r k s'"
| Expire: "sending fs fin bs r k s \<Longrightarrow> tftp_step fs Expired s = Some s' \<Longrightarrow> sending fs fin bs r k s'"
| Other: "sending fs fin bs r k s \<Longrightarrow> tftp_step fs (Elsewhere n) s = Some s' \<Longrightarrow> sending fs fin bs r k s'"

definition put_inv :: "nat \<Rightarrow> nat \<Rightarrow> u16 \<Rightarrow> nat \<Rightarrow> 'f tftp_transfer \<Rightarrow> bool" where
  "put_inv fin bs r k t \<longleftrightarrow> is_put t \<and> unat (block_size t) = bs \<and> rollover_value t = r \<and>
     last_block t = block_no r k \<and> k \<le> fin \<and> bytes_transferred t = int (k * bs) \<and>
     int ((fin - 1) * bs) \<le> total_size t \<and> total_size t < int (fin * bs) \<and>
     0 \<le> window_size t \<and> window_size t < 32768 \<and> (success t \<longrightarrow> completed t \<and> k = fin)"

lemma put_inv_other [simp]:
  "put_inv fin bs r k (t\<lparr>started := a\<rparr>) = put_inv fin bs r k t"
  "put_inv fin bs r k (t\<lparr>timeouts := i, retransmits_this_block := j\<rparr>) = put_inv fin bs r k t"
  "put_inv fin bs r k (t\<lparr>retransmits_this_block := j\<rparr>) = put_inv fin bs r k t"
  "put_inv fin bs r k (t\<lparr>timeouts := i\<rparr>) = put_inv fin bs r k t"
  by (simp_all add: put_inv_def)

lemma put_inv_moved: "moved_on t t' \<Longrightarrow> put_inv fin bs r k t \<Longrightarrow> put_inv fin bs r k t'"
  by (auto simp: moved_on_def put_inv_def)

lemma put_inv_give_up: "put_inv fin bs r k (tftp s) \<Longrightarrow> put_inv fin bs r k (tftp (give_up s))"
  by (simp add: put_inv_def give_up_def)

lemma put_inv_ack:
  assumes inv: "put_inv fin bs r k t" and bs: "0 < bs" and j: "k \<le> j" "j \<le> fin"
    and u: "u = t\<lparr>last_block := block_no r j, bytes_transferred := bytes_transferred t + uint (block_size t) * (int j - int k)\<rparr>"
  shows "bytes_transferred u > total_size u \<longleftrightarrow> j = fin"
    and "j = fin \<Longrightarrow> put_inv fin bs r j (u\<lparr>completed := True, success := True\<rparr>)"
    and "j < fin \<Longrightarrow> put_inv fin bs r j u"
proof -
  have b: "uint (block_size t) = int bs"
  proof -
    have "int (unat (block_size t)) = uint (block_size t)" by simp
    then show ?thesis using inv by (simp only: put_inv_def)
  qed
  have "bytes_transferred t = int k * int bs" using inv by (simp add: put_inv_def)
  then have bt: "bytes_transferred u = int (j * bs)" unfolding u by (simp add: b algebra_simps)
  have tu: "total_size u = total_size t" "int ((fin - 1) * bs) \<le> total_size t" "total_size t < int (fin * bs)"
    using inv by (simp_all add: u put_inv_def)
  show "bytes_transferred u > total_size u \<longleftrightarrow> j = fin"
  proof (cases "j = fin")
    case True
    then show ?thesis using bt tu by simp
  next
    case False
    then have "j * bs \<le> (fin - 1) * bs" using j(2) by (intro mult_le_mono1) simp
    then have "int (j * bs) \<le> int ((fin - 1) * bs)" by (simp only: of_nat_le_iff)
    then have "\<not> bytes_transferred u > total_size u" using bt tu by linarith
    then show ?thesis using False by simp
  qed
  show "j = fin \<Longrightarrow> put_inv fin bs r j (u\<lparr>completed := True, success := True\<rparr>)"
    using inv bt by (simp add: put_inv_def u)
  show "put_inv fin bs r j u" if "j < fin"
    using inv bt that j by (auto simp: put_inv_def u)
qed

lemma process_ack_inv:
  assumes pa: "tftp_put_process_ack fs p s = Some s'" and inv: "put_inv fin bs r k (tftp s)" and bs: "0 < bs"
    and ack: "pdata p = Some d" "rd16 p (d + 2) = Some (block_no r j)" and j: "j \<le> fin" "j < k + 32768" "k < j + 32768"
  shows "put_inv fin bs r (if k \<le> j \<and> int j \<le> int k + window_size (tftp s) then j else k) (tftp s')"
proof -
  note I = inv [unfolded put_inv_def]
  define w where "w = nat (window_size (tftp s))"
  have w: "window_size (tftp s) = int w" "int w \<le> 32767" using I by (simp_all add: w_def)
  have b: "acked_blocks (tftp s) (block_no r j) (int w) = (if k \<le> j \<and> j \<le> k + w then int j - int k else -1)"
    using acked_blocks_eq [of "tftp s" k w j] I w(2) j(2,3) by auto
  show ?thesis
  proof (cases "k \<le> j \<and> j \<le> k + w")
    case False
    then have "acked_blocks (tftp s) (block_no r j) (int w) = -1" unfolding b by (rule if_not_P)
    then have "s' = s" using pa ack by (simp add: tftp_put_process_ack_def w(1))
    then show ?thesis using inv False w(1) by auto
  next
    case True
    let ?s1 = "if int j - int k > 0 then upd (\<lambda>t. t\<lparr>retransmits_this_block := 0\<rparr>) s else s"
    let ?s2 = "upd (\<lambda>t. t\<lparr>last_block := block_no r j, bytes_transferred := bytes_transferred t + uint (block_size t) * (int j - int k)\<rparr>) ?s1"
    have i1: "put_inv fin bs r k (tftp ?s1)" using inv by simp
    have e: "(if bytes_transferred (tftp ?s2) > total_size (tftp ?s2) then Some (upd (\<lambda>t. t\<lparr>completed := True, success := True\<rparr>) ?s2)
        else tftp_put_send_data fs (if int j - int k = window_size (tftp ?s2) then window_size (tftp ?s2) else 1) ?s2) = Some s'"
    proof -
      have bw: "acked_blocks (tftp s) (block_no r j) (window_size (tftp s)) = int j - int k"
        unfolding w(1) b by (rule if_P [OF True])
      have nn: "(int j - int k < 0) = False" using True by simp
      from pa show ?thesis
        by (simp only: tftp_put_process_ack_def ack Let_def bw nn if_False bind.bind_lunit)
    qed
    have a: "bytes_transferred (tftp ?s2) > total_size (tftp ?s2) \<longleftrightarrow> j = fin"
      "j = fin \<Longrightarrow> put_inv fin bs r j (tftp (upd (\<lambda>t. t\<lparr>completed := True, success := True\<rparr>) ?s2))"
      "j < fin \<Longrightarrow> put_inv fin bs r j (tftp ?s2)"
      using put_inv_ack [OF i1 bs conjunct1 [OF True] j(1), of "tftp ?s2"] by simp_all
    have kj: "(if k \<le> j \<and> int j \<le> int k + window_size (tftp s) then j else k) = j" using True w(1) by simp
    show ?thesis
    proof (cases "j = fin")
      case f: True
      then have "s' = upd (\<lambda>t. t\<lparr>completed := True, success := True\<rparr>) ?s2" using e a(1) by simp
      then show ?thesis using a(2) [OF f] unfolding kj by simp
    next
      case False
      then have "put_inv fin bs r j (tftp ?s2)" using a(3) j(1) by simp
      moreover have "moved_on (tftp ?s2) (tftp s')"
      proof -
        have "tftp_put_send_data fs (if int j - int k = window_size (tftp ?s2) then window_size (tftp ?s2) else 1) ?s2 = Some s'"
          using e unfolding if_not_P [OF False [folded a(1)]] .
        then show ?thesis by (rule send_data_tftp)
      qed
      ultimately show ?thesis unfolding kj by (rule put_inv_moved [rotated])
    qed
  qed
qed

lemma put_timer_inv:
  assumes "tftp_client_timer_expired fs s = Some s'" "put_inv fin bs r k (tftp s)"
  shows "put_inv fin bs r k (tftp s')"
proof -
  consider "s' = give_up s" | "s' = s"
    | t where "(if \<not> started (tftp s) then do {
                let s = tftp_set_timer REQUEST_TIMEOUT s;
                (p, s) \<leftarrow> tftp_create_request s;
                net_tx p s }
              else if is_put (tftp s) then tftp_put_send_data (fatfs.truncate fs) 1 s
              else tftp_get_flush_data_and_ack fs s) = Some t"
      "s' = upd (\<lambda>t. t\<lparr>timeouts := timeouts t + 1, retransmits_this_block := retransmits_this_block t + 1\<rparr>) t"
    using assms(1) by (auto simp: tftp_client_timer_expired_def bind_eq_Some_conv split: if_splits)
  then show ?thesis
  proof cases
    case (3 t)
    have "put_inv fin bs r k (tftp t)"
    proof (cases "started (tftp s)")
      case True
      then have "tftp_put_send_data (fatfs.truncate fs) 1 s = Some t" using 3(1) assms(2) by (simp add: put_inv_def)
      from put_inv_moved [OF send_data_tftp [OF this] assms(2)] show ?thesis .
    next
      case False
      with 3(1) assms(2) show ?thesis by (auto simp: Let_def bind_eq_Some_conv dest!: net_tx_tftp create_request_tftp)
    qed
    then show ?thesis using 3(2) by simp
  qed (use assms(2) put_inv_give_up in auto)
qed

lemma put_receive_inv:
  assumes rc: "tftp_client_packet_received fs p s = Some s'" and bs: "0 < bs" and inv: "put_inv fin bs r k (tftp s)"
    and no: "\<forall>d. pdata p = Some d \<longrightarrow> rd16 p d \<noteq> Some tftp_op_options_ack"
  shows "ack_of p = Some (block_no r j) \<Longrightarrow> j \<le> fin \<Longrightarrow> j < k + 32768 \<Longrightarrow> k < j + 32768 \<Longrightarrow>
      put_inv fin bs r (if k \<le> j \<and> int j \<le> int k + window_size (tftp s) then j else k) (tftp s')"
    and "ack_of p = None \<Longrightarrow> put_inv fin bs r k (tftp s')"
proof -
  from rc obtain t d opc fp u where t: "(if \<not> started (tftp s) then lock_port p s else Some s) = Some t"
    and d: "pdata p = Some d" "rd16 p d = Some opc"
    and u: "(if opc = tftp_op_options_ack then map_option (Pair True) (tftp_process_options_ack (fatfs.truncate fs) p t)
        else if opc = tftp_op_ack then
          (if is_put (tftp t) then map_option (Pair True) (tftp_put_process_ack (fatfs.truncate fs) p t) else Some (True, t))
        else if opc = tftp_op_data then
          (if is_put (tftp t) then Some (True, t) else tftp_get_process_data fs p t)
        else Some (True, give_up t)) = Some (fp, u)"
    and s': "s' = (if fp then packet_free u else u)"
    by (auto simp: tftp_client_packet_received_def bind_eq_Some_conv)
  have tt: "tftp t = (tftp s)\<lparr>started := started (tftp t)\<rparr>"
    using t lock_port_tftp [of p s t] by (auto split: if_splits)
  have w: "window_size (tftp t) = window_size (tftp s)" by (subst tt) simp
  have it: "put_inv fin bs r k (tftp t)" by (subst tt) (simp add: inv)
  have ip: "is_put (tftp t)" using it by (simp add: put_inv_def)
  have su: "tftp s' = tftp u" by (simp add: s')
  have noo: "opc \<noteq> tftp_op_options_ack" using no d by auto
  {
    assume a: "ack_of p = Some (block_no r j)" and j: "j \<le> fin" "j < k + 32768" "k < j + 32768"
    then have opc: "opc = tftp_op_ack" "rd16 p (d + 2) = Some (block_no r j)"
      using d by (auto simp: ack_of_def split: if_splits)
    then have "tftp_put_process_ack (fatfs.truncate fs) p t = Some u" using u ip by (auto simp: tftp_ops)
    from process_ack_inv [OF this it bs d(1) opc(2) j]
    show "put_inv fin bs r (if k \<le> j \<and> int j \<le> int k + window_size (tftp s) then j else k) (tftp s')"
      unfolding su w .
  }
  {
    assume a: "ack_of p = None"
    show "put_inv fin bs r k (tftp s')"
    proof (cases "opc = tftp_op_ack")
      case True
      then have "rd16 p (d + 2) = None" using a d by (simp add: ack_of_def)
      then show ?thesis using u ip True d(1) noo by (simp add: tftp_put_process_ack_def)
    next
      case False
      then show ?thesis using u ip noo it put_inv_give_up [OF it] unfolding su by (auto split: if_splits)
    qed
  }
qed

lemma sending_inv: "sending fs fin bs r k s \<Longrightarrow> 0 < bs \<Longrightarrow> put_inv fin bs r k (tftp s)"
proof (induction rule: sending.induct)
  case (Agreed s)
  then show ?case by (simp add: put_inv_def block_no_def)
next
  case (Acked k s p j s' k')
  have "\<forall>d. pdata p = Some d \<longrightarrow> rd16 p d \<noteq> Some tftp_op_options_ack"
    using Acked.hyps(2) by (auto simp: ack_of_def tftp_ops split: if_splits)
  with Acked show ?case using put_receive_inv(1) [of fs p s s' bs fin r k j] by (simp add: tftp_step_def)
next
  case (Stray k s p s')
  then show ?case using put_receive_inv(2) [of fs p s s' bs fin r k] by (simp add: tftp_step_def)
next
  case (Expire k s s')
  then show ?case using put_timer_inv by (simp add: tftp_step_def)
next
  case (Other k s n s')
  then show ?case by (auto simp: tftp_step_def)
qed

section \<open>The blocks that are sent\<close>

text \<open>Reading goes on in the file from a position.\<close>

definition serves :: "'f fatfs \<Rightarrow> u8 list \<Rightarrow> ('f \<Rightarrow> nat) \<Rightarrow> bool" where
  "serves fs file pos \<longleftrightarrow> (\<forall>f n. \<exists>f'. f_read fs f n = (FR_OK, take (unat n) (drop (pos f) file), f') \<and>
     pos f' = pos f + length (take (unat n) (drop (pos f) file)))"

lemma wr_alloc:
  "wr p i bs = Some q \<Longrightarrow> alloc_length q = alloc_length p" "wr8 p i b = Some q \<Longrightarrow> alloc_length q = alloc_length p"
  "wr16 p i h = Some q \<Longrightarrow> alloc_length q = alloc_length p" "wr32 p i w = Some q \<Longrightarrow> alloc_length q = alloc_length p"
  by (auto simp: wr8_def wr16_def wr32_def wr_put split: if_splits)

lemma create_ipv4_alloc:
  "packet_create_ipv4 cf jk tm dst n proto = Some p \<Longrightarrow> alloc_length p = of_nat (34 + n)"
  unfolding packet_create_ipv4_def Let_def bind_eq_Some_conv
  by (elim exE conjE) (drule wr_alloc, simp add: packet_alloc_def)+

lemma create_udp_alloc:
  "packet_create_udp cf jk tm dst dport sport n = Some p \<Longrightarrow> alloc_length p = of_nat (42 + n)"
  unfolding packet_create_udp_def Let_def bind_eq_Some_conv
  by (elim exE conjE, drule create_ipv4_alloc) (drule wr_alloc, simp)+

lemma put_put_next:
  assumes "i + length as + length bs \<le> length (pbuf p)"
  shows "put (put p i as) (i + length as) bs = put p i (as @ bs)"
proof -
  have "take i (pbuf p) @ as = take (i + length as) (take i (pbuf p) @ as @ drop (i + length as) (pbuf p))"
    using assms by simp
  moreover have "drop (i + length as + length bs) (take i (pbuf p) @ as @ drop (i + length as) (pbuf p)) =
      drop (i + length (as @ bs)) (pbuf p)" using assms by (simp add: ac_simps)
  ultimately show ?thesis by (simp add: put_def)
qed

text \<open>What is on the wire behind the headers.\<close>

definition udp_data :: "packet \<Rightarrow> u8 list" where
  "udp_data p = drop 42 (take (unat (buffer_length p)) (pbuf p))"

lemma resized_data:
  assumes p: "pipv4 p = Some 14" "pudp p = Some 34" "rd8 p 23 = Some ip_proto_udp" "42 + m \<le> uint (alloc_length p)"
    and n: "m = int n" "42 + n \<le> length (pbuf p)" "n < 65000"
  shows "\<exists>q. packet_data_resize p m = Some (True, q) \<and> udp_data q = take n (drop 42 (pbuf p)) \<and>
    length (pbuf q) = length (pbuf p) \<and> rd32 q 26 = rd32 p 26 \<and> rd32 q 30 = rd32 p 30 \<and> rd16 q 34 = rd16 p 34 \<and> rd16 q 36 = rd16 p 36"
proof -
  let ?a = "put (p\<lparr>data_length := of_nat n\<rparr>) 38 (bytes16 (of_nat n + 8))"
  let ?b = "put ?a 16 (bytes16 (of_nat n + 8 + 20))"
  have fit: "40 \<le> length (pbuf p)" using n(2) by simp
  have "packet_data_resize p m = Some (True, ?b\<lparr>buffer_length := of_nat n + 8 + 20 + 14\<rparr>)"
    using p n fit by (simp add: packet_data_resize_def wr16_def wr_put Let_def)
  moreover have "unat (of_nat n + 8 + 20 + 14 :: u16) = 42 + n"
  proof -
    have "(of_nat n + 8 + 20 + 14 :: u16) = of_nat (42 + n)" by simp
    then show ?thesis using n(3) u16_unat_of_nat [of "42 + n"] by simp
  qed
  moreover have "drop 42 (pbuf ?b) = drop 42 (pbuf p)" "length (pbuf ?b) = length (pbuf p)"
    using n(2) by (simp_all add: drop_put_behind)
  moreover have rd: "rd8 (?b\<lparr>buffer_length := x\<rparr>) k = rd8 p k" if "18 \<le> k" "k < 38" for k x
  proof -
    have "rd8 (?b\<lparr>buffer_length := x\<rparr>) k = rd8 ?b k" by (simp add: rd8_def)
    also have "\<dots> = rd8 (p\<lparr>data_length := of_nat n\<rparr>) k" using that fit by simp
    also have "\<dots> = rd8 p k" by (simp add: rd8_def)
    finally show ?thesis .
  qed
  ultimately show ?thesis
    by (intro exI [of _ "?b\<lparr>buffer_length := of_nat n + 8 + 20 + 14\<rparr>"])
      (simp add: udp_data_def drop_take rd32_def rd16_def)
qed

lemma create_data_frame:
  assumes k: "find_sink (tsid s) (sinks s) = Some k" "match_ipv4_protocol k = ip_proto_udp" and m: "length (if_mac (conf s)) = 6"
  obtains p where "tftp_create_data no s = Some (p, packet_born s)"
    "length (pbuf p) = 46 + unat (block_size (tftp s))" "pipv4 p = Some 14" "pudp p = Some 34" "pdata p = Some 42"
    "rd8 p 23 = Some ip_proto_udp" "rd32 p 26 = Some (if_ip (conf s))" "rd32 p 30 = Some (match_remote_ip k)"
    "rd16 p 34 = Some (match_local_port k)" "rd16 p 36 = Some (match_remote_port k)"
    "alloc_length p = of_nat (46 + unat (block_size (tftp s)))" "buffer_length p = of_nat (46 + unat (block_size (tftp s)))"
    "\<forall>bs. length bs \<le> unat (block_size (tftp s)) \<longrightarrow> (\<exists>q. wr p 46 bs = Some q \<and> q = put p 46 bs \<and>
       take (4 + length bs) (drop 42 (pbuf q)) = bytes16 tftp_op_data @ bytes16 no @ bs)"
proof -
  let ?n = "unat (block_size (tftp s)) + 4"
  obtain p where p: "packet_create_udp (conf s) (junk s) (now s) (match_remote_ip k) (match_remote_port k) (match_local_port k) ?n = Some p"
    "length (pbuf p) = 42 + ?n" "pipv4 p = Some 14" "pudp p = Some 34" "ptcp p = None" "picmp p = None" "parp p = None" "pflags p = 0"
    "pdata p = Some 42" "data_length p = of_nat ?n" "buffer_length p = of_nat (42 + ?n)"
    "ethertype p = Some ethertype_ipv4" "rd8 p 23 = Some ip_proto_udp" "rd16 p 16 = Some (of_nat (28 + ?n))"
    "rd32 p 26 = Some (if_ip (conf s))" "rd32 p 30 = Some (match_remote_ip k)"
    "rd16 p 34 = Some (match_local_port k)" "rd16 p 36 = Some (match_remote_port k)" "rd16 p 38 = Some (of_nat (8 + ?n))"
    by (rule create_udp [OF m])
  let ?q = "put (put p 42 (bytes16 tftp_op_data)) 44 (bytes16 no)"
  have e: "?q = put p 42 (bytes16 tftp_op_data @ bytes16 no)"
    using put_put_next [of 42 "bytes16 tftp_op_data" "bytes16 no" p] p(2) by simp
  have c: "tftp_create_data no s = Some (?q, packet_born s)"
    using k p(1,2,9) by (simp add: tftp_create_data_def packet_create_for_sink_def wr16_def wr_put)
  have rd: "rd8 ?q i = rd8 p i" if "i < 42" for i using p(2) that by simp
  have data: "\<exists>q. wr ?q 46 bs = Some q \<and> q = put ?q 46 bs \<and>
       take (4 + length bs) (drop 42 (pbuf q)) = bytes16 tftp_op_data @ bytes16 no @ bs"
    if "length bs \<le> unat (block_size (tftp s))" for bs
  proof -
    have "put ?q 46 bs = put p 42 (bytes16 tftp_op_data @ bytes16 no @ bs)"
      using put_put_next [of 42 "bytes16 tftp_op_data @ bytes16 no" bs p] p(2) that unfolding e by simp
    then have "take (4 + length bs) (drop 42 (pbuf (put ?q 46 bs))) = bytes16 tftp_op_data @ bytes16 no @ bs"
      using p(2) that by (simp add: put_def)
    then show ?thesis using p(2) that by (simp add: wr_put)
  qed
  show ?thesis
  proof (rule that [OF c])
    show "alloc_length ?q = of_nat (46 + unat (block_size (tftp s)))"
      using create_udp_alloc [OF p(1)] by (simp add: ac_simps)
    show "buffer_length ?q = of_nat (46 + unat (block_size (tftp s)))" using p(11) by (simp add: ac_simps)
    show "rd32 ?q 26 = Some (if_ip (conf s))" "rd32 ?q 30 = Some (match_remote_ip k)"
      "rd16 ?q 34 = Some (match_local_port k)" "rd16 ?q 36 = Some (match_remote_port k)"
      using p(15-18) rd by (simp_all add: rd32_def rd16_def)
  qed (use p rd data in auto)
qed

text \<open>Every block sent is the block its number says. With the file read from position
  \<open>(m + n) * bs\<close> on, when \<open>m\<close> blocks are acknowledged, \<open>put_block\<close> hands the transmit pipe one packet, from the
  sink's port to the server's, whose data are a DATA header with the number of block \<open>m + n + 1\<close> and
  exactly that block of the file; it reports the last block exactly when it is the short one.\<close>

theorem put_block_sends:
  assumes "find_sink (tsid s) (sinks s) = Some k" "match_ipv4_protocol k = ip_proto_udp" "length (if_mac (conf s)) = 6"
    and "serves fs file pos" "pos (disk_file (tftp s)) = (m + n) * bs" "m + n < last_no file bs"
    and "unat (block_size (tftp s)) = bs" "0 < bs" "bs \<le> 8192" "n < 65535"
    and "last_block (tftp s) = block_no (rollover_value (tftp s)) m"
  shows "\<exists>p f u. put_block fs (int n) s = map_option (\<lambda>v. (Some (m + n + 1 = last_no file bs), v)) (net_tx p u) \<and>
    u = upd (\<lambda>t. t\<lparr>disk_file := f\<rparr>) (packet_born s) \<and>
    pos f = (m + n) * bs + length (file_block file bs (m + n + 1)) \<and>
    udp_data p = bytes16 tftp_op_data @ bytes16 (block_no (rollover_value (tftp s)) (m + n + 1)) @ file_block file bs (m + n + 1) \<and>
    rd32 p 30 = Some (match_remote_ip k) \<and> rd16 p 34 = Some (match_local_port k) \<and> rd16 p 36 = Some (match_remote_port k)"
proof -
  let ?no = "block_no (rollover_value (tftp s)) (m + n + 1)" and ?d = "file_block file bs (m + n + 1)"
  have no: "expected_block_number (tftp s) (int n + 1) = ?no"
    using expected_block [OF assms(11), of "n + 1"] assms(10) by (simp add: ac_simps)
  obtain p where p: "tftp_create_data ?no s = Some (p, packet_born s)"
    "length (pbuf p) = 46 + unat (block_size (tftp s))" "pipv4 p = Some 14" "pudp p = Some 34" "pdata p = Some 42"
    "rd8 p 23 = Some ip_proto_udp" "rd32 p 26 = Some (if_ip (conf s))" "rd32 p 30 = Some (match_remote_ip k)"
    "rd16 p 34 = Some (match_local_port k)" "rd16 p 36 = Some (match_remote_port k)"
    "alloc_length p = of_nat (46 + unat (block_size (tftp s)))" "buffer_length p = of_nat (46 + unat (block_size (tftp s)))"
    "\<forall>bs. length bs \<le> unat (block_size (tftp s)) \<longrightarrow> (\<exists>q. wr p 46 bs = Some q \<and> q = put p 46 bs \<and>
       take (4 + length bs) (drop 42 (pbuf q)) = bytes16 tftp_op_data @ bytes16 ?no @ bs)"
    by (rule create_data_frame [OF assms(1-3)])
  have ub: "unat (ucast (block_size (tftp s)) :: u32) = bs" using assms(7) by simp
  obtain f where f: "f_read fs (disk_file (tftp s)) (ucast (block_size (tftp s))) = (FR_OK, ?d, f)" "pos f = (m + n) * bs + length ?d"
    using assms(4,5) ub unfolding serves_def file_block_def by (metis add_diff_cancel_right')
  have dl: "length ?d \<le> bs" by (simp add: file_block_def)
  obtain q where q: "wr p 46 ?d = Some q" "q = put p 46 ?d"
    "take (4 + length ?d) (drop 42 (pbuf q)) = bytes16 tftp_op_data @ bytes16 ?no @ ?d"
    using p(13) dl assms(7) by metis
  let ?u = "upd (\<lambda>t. t\<lparr>disk_file := f\<rparr>) (packet_born s)"
  have pb: "put_block fs (int n) s = send_filled q FR_OK (length ?d) ?u"
    using p(1,5) f(1) q(1) by (simp add: put_block_def no)
  have rd: "rd8 q i = rd8 p i" if "i < 42" for i using p(2) dl assms(7) that by (simp add: q(2))
  have qf: "pipv4 q = Some 14" "pudp q = Some 34" "rd8 q 23 = Some ip_proto_udp" "rd32 q 30 = Some (match_remote_ip k)"
    "rd16 q 34 = Some (match_local_port k)" "rd16 q 36 = Some (match_remote_port k)" "length (pbuf q) = 46 + bs"
    "alloc_length q = of_nat (46 + bs)" "buffer_length q = of_nat (46 + bs)"
    using p rd assms(7) dl by (simp_all add: q(2) rd32_def rd16_def)
  have u46: "unat (of_nat (46 + bs) :: u16) = 46 + bs" using assms(9) by (intro u16_unat_of_nat) simp
  have short: "length ?d < bs \<longleftrightarrow> m + n + 1 = last_no file bs"
    using file_block_short [OF assms(8), of "m + n + 1" "file"] assms(6) by simp
  have "\<exists>z. send_filled q FR_OK (length ?d) ?u = map_option (\<lambda>v. (Some (length ?d < bs), v)) (net_tx z ?u) \<and>
      udp_data z = take (4 + length ?d) (drop 42 (pbuf q)) \<and> rd32 z 30 = rd32 q 30 \<and> rd16 z 34 = rd16 q 34 \<and> rd16 z 36 = rd16 q 36"
  proof (cases "length ?d < bs")
    case True
    have "int (unat (alloc_length q)) = uint (alloc_length q)" by simp
    moreover have "unat (alloc_length q) = 46 + bs" by (simp only: qf(8) u46)
    ultimately have "uint (alloc_length q) = int (46 + bs)" by metis
    then obtain z where z: "packet_data_resize q (int (length ?d) + 4) = Some (True, z)"
      "udp_data z = take (4 + length ?d) (drop 42 (pbuf q))" "rd32 z 30 = rd32 q 30" "rd16 z 34 = rd16 q 34" "rd16 z 36 = rd16 q 36"
      using resized_data [OF qf(1-3), of "int (length ?d) + 4" "4 + length ?d"] dl qf(7) assms(9) by auto
    then show ?thesis using True assms(7) by (intro exI [of _ z]) (simp add: send_filled_def)
  next
    case False
    then have "length ?d = bs" using dl by simp
    moreover have "udp_data q = take (4 + bs) (drop 42 (pbuf q))" using qf(7,9) u46 by (simp add: udp_data_def)
    ultimately show ?thesis using assms(7) by (intro exI [of _ q]) (simp add: send_filled_def)
  qed
  then show ?thesis using pb q(3) qf f(2) short by (auto simp del: upd_simps)
qed

text \<open>C16. A file is only reported as sent when the server has acknowledged it to the end. For any sequence
  of packets whose acknowledgements are for blocks less than 32768 away, timer expiries and other events:
  \<open>bytes_transferred\<close> and \<open>last_block\<close> are those of the blocks acknowledged, through both kinds of
  rollover, and success is reported only when the last, short block is acknowledged.\<close>

theorem tftp_put_acknowledged:
  assumes "sending fs fin bs r k s" "0 < bs"
  shows "bytes_transferred (tftp s) = int (k * bs) \<and> last_block (tftp s) = block_no r k \<and> k \<le> fin \<and>
    (success (tftp s) \<longrightarrow> completed (tftp s) \<and> k = fin)"
  using sending_inv [OF assms] by (simp add: put_inv_def)

section \<open>Samples\<close>

text \<open>A file system with one file, which is its contents and the position in them.\<close>

definition log_fs :: "(u8 list \<times> nat) rw_fatfs" where
  "log_fs = \<lparr>f_lseek = (\<lambda>(c, i) off. (FR_OK, (c, unat off))),
     f_read = (\<lambda>(c, i) n. (FR_OK, take (unat n) (drop i c), (c, i + length (take (unat n) (drop i c))))),
     f_size = (\<lambda>(c, i). of_nat (length c)), f_open = (\<lambda>_. (FR_OK, ([], 0))),
     f_write = (\<lambda>(c, i) bs. (FR_OK, of_nat (length bs), (c @ bs, i))),
     f_create = (\<lambda>_. (FR_OK, ([], 0))), f_close = (\<lambda>f. (FR_OK, f))\<rparr>"

lemma log_appends: "appends log_fs fst"
  by (auto simp: appends_def log_fs_def)

definition sample_transfer :: "bool \<Rightarrow> 'f \<Rightarrow> 'f tftp_net" where
  "sample_transfer up f = net.extend (sample_net\<lparr>sinks := [(tftp_sink 9 0x0A000001 0)\<lparr>match_remote_port := 2000\<rparr>]\<rparr>)
     \<lparr>tftp = (new_transfer up [0] f 3)\<lparr>started := True, block_size := 2, window_size := 8\<rparr>, tsid = 9\<rparr>"

definition tftp_packet :: "u8 list \<Rightarrow> packet" where
  "tftp_packet bs = (packet_alloc (\<lambda>_. 0) (42 + length bs))\<lparr>pbuf := replicate 42 0 @ bs, pdata := Some 42,
     data_length := of_nat (length bs)\<rparr>"

lemma sample_tftp: "tftp (sample_transfer up f) =
    (new_transfer up [0] f 3)\<lparr>started := True, block_size := 2, window_size := 8\<rparr>"
  by (simp add: sample_transfer_def net.defs)


theorem tftp_put_acknowledged_witness:
  "\<exists>s. sending log_fs 2 2 0 2 s \<and> bytes_transferred (tftp s) = 4"
proof -
  let ?s = "sample_transfer True ([1, 2, 3 :: u8], 0 :: nat)" and ?p = "tftp_packet [0, 4, 0, 2]"
  have a: "sending log_fs 2 2 0 0 ?s"
    by (rule sending.Agreed) (simp_all add: sample_tftp new_transfer_def)
  have pk: "pdata ?p = Some 42" "rd16 ?p 42 = Some 4" "rd16 ?p 44 = Some 2"
    by (simp_all add: tftp_packet_def packet_alloc_def rd16_def rd8_def be16_def nth_append)
  have ack: "ack_of ?p = Some (block_no 0 2)" using pk by (simp add: ack_of_def tftp_ops block_no_def)
  have "acked_blocks (tftp ?s) (block_no (rollover_value (tftp ?s)) 2) (int 8) = (if 0 \<le> (2 :: nat) \<and> 2 \<le> 0 + (8 :: nat) then int 2 - int 0 else -1)"
    by (rule acked_blocks_eq) (simp_all add: sample_tftp new_transfer_def block_no_def)
  then have ab: "acked_blocks (tftp ?s) 2 8 = 2" by (simp add: sample_tftp new_transfer_def block_no_def)
  have f: "window_size (tftp ?s) = 8" "uint (block_size (tftp ?s)) = 2" "bytes_transferred (tftp ?s) = 0" "total_size (tftp ?s) = 3"
    "started (tftp ?s)" "is_put (tftp ?s)" by (simp_all add: sample_tftp new_transfer_def)
  have "\<exists>u. tftp_put_process_ack (fatfs.truncate log_fs) ?p ?s = Some u"
    using pk ab f by (simp add: tftp_put_process_ack_def)
  then obtain s where s: "tftp_step log_fs (Received ?p) ?s = Some s"
    using pk f by (auto simp: tftp_step_def tftp_client_packet_received_def tftp_ops)
  have r: "sending log_fs 2 2 0 2 s"
    by (rule sending.Acked [OF a ack _ _ _ s]) (simp_all add: sample_tftp)
  from tftp_put_acknowledged [OF r] r show ?thesis by auto
qed

definition three_fs :: "nat fatfs" where
  "three_fs = \<lparr>f_lseek = (\<lambda>_ off. (FR_OK, unat off)),
     f_read = (\<lambda>i n. (FR_OK, take (unat n) (drop i [1, 2, 3]), i + length (take (unat n) (drop i [1, 2, 3 :: u8])))),
     f_size = (\<lambda>_. 3), f_open = (\<lambda>_. (FR_OK, 0))\<rparr>"

theorem put_block_sends_witness:
  "\<exists>p u. put_block three_fs (int 0) (sample_transfer True (0 :: nat)) = map_option (\<lambda>v. (Some False, v)) (net_tx p u) \<and>
     udp_data p = [0, 3, 0, 1, 1, 2]"
proof -
  let ?s = "sample_transfer True (0 :: nat)" and ?k = "(tftp_sink 9 0x0A000001 0)\<lparr>match_remote_port := 2000\<rparr>"
  have k: "find_sink (tsid ?s) (sinks ?s) = Some ?k" "match_ipv4_protocol ?k = ip_proto_udp" "length (if_mac (conf ?s)) = 6"
    by (simp_all add: sample_transfer_def net.defs sample_net_def tftp_sink_def packet_sink_alloc_def)
  have sv: "serves three_fs [1, 2, 3] id" by (simp add: serves_def three_fs_def)
  have "\<exists>p f u. put_block three_fs (int 0) ?s = map_option (\<lambda>v. (Some (0 + 0 + 1 = last_no [1, 2, 3 :: u8] 2), v)) (net_tx p u) \<and>
    u = upd (\<lambda>t. t\<lparr>disk_file := f\<rparr>) (packet_born ?s) \<and>
    id f = (0 + 0) * 2 + length (file_block [1, 2, 3] 2 (0 + 0 + 1)) \<and>
    udp_data p = bytes16 tftp_op_data @ bytes16 (block_no (rollover_value (tftp ?s)) (0 + 0 + 1)) @ file_block [1, 2, 3] 2 (0 + 0 + 1) \<and>
    rd32 p 30 = Some (match_remote_ip ?k) \<and> rd16 p 34 = Some (match_local_port ?k) \<and> rd16 p 36 = Some (match_remote_port ?k)"
    by (rule put_block_sends [where m = 0 and n = 0 and bs = 2, OF k sv]) (simp_all add: sample_tftp new_transfer_def last_no_def block_no_def)
  then show ?thesis
    by (simp add: last_no_def tftp_ops bytes16_def block_no_def file_block_def sample_tftp new_transfer_def) blast
qed

end
