(* ===== verification/Env.thy ===== *)
theory Env
  imports Strtoul "HOL-Library.Monad_Syntax"
begin

text \<open>
  The environment of the command line, \<^verbatim>\<open>cli/cli_env.c\<close>: a linked list of names and values, from its head,
  and the numbers of the commands, which depend on the variable \<open>base\<close>. The copies of the strings
  (\<^verbatim>\<open>lib/strdup.c\<close>) are values here. \<open>None\<close> is a read past the end of a string's object.
\<close>

record environment_variable_t =
  ename :: cbytes
  evalue :: cbytes

type_synonym env = "environment_variable_t list"

definition strdup :: "cbytes \<Rightarrow> cbytes option" where
  "strdup s = do { n \<leftarrow> strlen s; Some (take (unat (n + 1)) s) }"

text \<open>\<open>Some None\<close> is the null pointer.\<close>

fun get_environment_variable :: "cbytes \<Rightarrow> env \<Rightarrow> cbytes option option" where
  "get_environment_variable name [] = Some None"
| "get_environment_variable name (e # es) = do {
     r \<leftarrow> strcasecmp (ename e) name;
     if r = 0 then Some (Some (evalue e)) else get_environment_variable name es }"

definition get_environment_variable_int :: "cbytes \<Rightarrow> int \<Rightarrow> env \<Rightarrow> int option" where
  "get_environment_variable_int name default_value es = do {
     v \<leftarrow> get_environment_variable name es;
     (case v of None \<Rightarrow> Some default_value | Some t \<Rightarrow> map_option fst (strtol t 0)) }"

text \<open>The first variable of that name is unlinked.\<close>

fun remove_variable :: "cbytes \<Rightarrow> env \<Rightarrow> env option" where
  "remove_variable name [] = Some []"
| "remove_variable name (e # es) = do {
     r \<leftarrow> strcasecmp (ename e) name;
     if r = 0 then Some es else map_option ((#) e) (remove_variable name es) }"

fun to_lower :: "cbytes \<Rightarrow> cbytes option" where
  "to_lower [] = None"
| "to_lower (c # s) = (if c = 0 then Some (c # s) else map_option ((#) (tolower c)) (to_lower s))"

definition set_environment_variable :: "cbytes \<Rightarrow> cbytes option \<Rightarrow> env \<Rightarrow> env option" where
  "set_environment_variable name v es = do {
     es \<leftarrow> remove_variable name es;
     (case v of
        None \<Rightarrow> Some es
      | Some t \<Rightarrow> do {
          n \<leftarrow> strdup name;
          t \<leftarrow> strdup t;
          n \<leftarrow> to_lower n;
          Some (\<lparr>ename = n, evalue = t\<rparr> # es) }) }"

text \<open>The command \<open>set\<close>: without arguments it shows the variables; a name with an equals sign is refused.\<close>

datatype set_result = Shown env | Refused | Done env

definition do_set :: "cbytes list \<Rightarrow> env \<Rightarrow> set_result option" where
  "do_set argv es =
     (case argv of
        [] \<Rightarrow> Some (Shown es)
      | name # rest \<Rightarrow> do {
          eq \<leftarrow> strchr name 0x3D;
          if eq \<noteq> None then Some Refused
          else map_option Done (set_environment_variable name
            (case rest of [v] \<Rightarrow> Some v | _ \<Rightarrow> None) es) })"

definition base_name :: cbytes where "base_name = [0x62, 0x61, 0x73, 0x65, 0]"

definition get_base :: "env \<Rightarrow> int option" where
  "get_base es = get_environment_variable_int base_name 0 es"

definition parse_uint32 :: "env \<Rightarrow> cbytes \<Rightarrow> (u32 \<times> nat) option" where
  "parse_uint32 es cptr = do {
     b \<leftarrow> get_base es;
     c \<leftarrow> rd cptr 0;
     b \<leftarrow> (if c = 0x30 then do { x \<leftarrow> rd cptr 1; Some (if x AND 0xDF = 0x58 then 0 else b) } else Some b);
     map_option (\<lambda>(v, end, _). (v, end)) (strtoul cptr b) }"

section \<open>The environment is a map\<close>

text \<open>From names up to case to values.\<close>

definition env_map :: "env \<Rightarrow> int list \<rightharpoonup> u8 list" where
  "env_map es = map_of (map (\<lambda>e. (case_key (ename e), cstr (evalue e))) es)"

definition env_ok :: "env \<Rightarrow> bool" where
  "env_ok es \<longleftrightarrow> (\<forall>e \<in> set es. terminated (ename e) \<and> terminated (evalue e)) \<and>
     distinct (map (\<lambda>e. case_key (ename e)) es)"

lemma env_ok_Cons [simp]: "env_ok (e # es) \<longleftrightarrow> terminated (ename e) \<and> terminated (evalue e) \<and>
    case_key (ename e) \<notin> (\<lambda>e. case_key (ename e)) ` set es \<and> env_ok es"
  by (auto simp: env_ok_def)

lemma env_map_simps [simp]: "env_map [] = Map.empty"
  "env_map (e # es) = (env_map es)(case_key (ename e) \<mapsto> cstr (evalue e))"
  by (simp_all add: env_map_def)

lemma env_map_None: "case_key n \<notin> (\<lambda>e. case_key (ename e)) ` set es \<Longrightarrow> env_map es (case_key n) = None"
  by (induction es) auto

lemma same_name: "terminated a \<Longrightarrow> terminated b \<Longrightarrow> \<exists>r. strcasecmp a b = Some r \<and> (r = 0 \<longleftrightarrow> case_key a = case_key b)"
  by (simp add: strcasecmp_key lex_cmp_zero)

lemma get_variable_map:
  "env_ok es \<Longrightarrow> terminated name \<Longrightarrow> \<exists>v. get_environment_variable name es = Some v \<and>
     map_option cstr v = env_map es (case_key name) \<and> (\<forall>t. v = Some t \<longrightarrow> terminated t)"
proof (induction es)
  case (Cons e es)
  then obtain r where r: "strcasecmp (ename e) name = Some r" "r = 0 \<longleftrightarrow> case_key (ename e) = case_key name"
    using same_name [of "ename e" name] by auto
  with Cons show ?case by (cases "r = 0") auto
qed simp

lemma remove_variable_map:
  "env_ok es \<Longrightarrow> terminated name \<Longrightarrow> \<exists>es'. remove_variable name es = Some es' \<and> env_ok es' \<and>
     env_map es' = (env_map es)(case_key name := None) \<and> set es' \<subseteq> set es \<and>
     case_key name \<notin> (\<lambda>e. case_key (ename e)) ` set es'"
proof (induction es)
  case (Cons e es)
  then obtain r where r: "strcasecmp (ename e) name = Some r" "r = 0 \<longleftrightarrow> case_key (ename e) = case_key name"
    using same_name [of "ename e" name] by auto
  have "env_ok es" using Cons.prems(1) by simp
  from Cons.IH [OF this Cons.prems(2)] obtain es' where es': "remove_variable name es = Some es'" "env_ok es'"
    "env_map es' = (env_map es)(case_key name := None)" "set es' \<subseteq> set es" "case_key name \<notin> (\<lambda>e. case_key (ename e)) ` set es'"
    by blast
  show ?case
  proof (cases "r = 0")
    case True
    then have "env_map es (case_key name) = None" using Cons.prems r(2) env_map_None [of name es] by auto
    then show ?thesis using True r Cons.prems by (auto simp: fun_eq_iff)
  next
    case False
    then show ?thesis using r es' Cons.prems by (auto simp: fun_upd_twist)
  qed
qed (simp add: env_ok_def)

lemma strdup_eq:
  assumes "terminated s" "length s < 4294967296"
  shows "strdup s = Some (cstr s @ [0])"
proof -
  have n: "length (cstr s) < length s" using length_cstr [OF assms(1)] .
  have u: "unat (of_nat (length (cstr s)) + 1 :: u32) = Suc (length (cstr s))"
    using n assms(2) by (intro unat_Suc_small) simp
  have "take (Suc (length (cstr s))) s = cstr s @ [0]"
    by (subst terminated_split [OF assms(1)]) simp
  then show ?thesis using assms u by (simp add: strdup_def strlen_eq)
qed

lemma to_lower_eq: "0 \<notin> set s \<Longrightarrow> to_lower (s @ [0]) = Some (map tolower s @ [0])"
  by (induction s) auto

lemma tolower_twice [simp]: "tolower (tolower c) = tolower c"
proof (cases "c \<ge> 0x41 \<and> c \<le> 0x5A")
  case True
  define n where "n = unat c"
  have n: "0x41 \<le> n" "n \<le> 0x5A" "c = of_nat n" using True by (simp_all add: n_def word_le_nat_alt)
  have all: "\<forall>n \<in> set [0x41 ..< 0x5B]. tolower (tolower (of_nat n)) = tolower (of_nat n)" by code_simp
  have "n \<in> set [0x41 ..< 0x5B]" unfolding set_upt atLeastLessThan_iff using n by linarith
  with all show ?thesis unfolding n(3) by blast
next
  case False
  then have "tolower c = c" by (auto simp: tolower_def)
  then show ?thesis by simp
qed

lemma case_key_lower: "terminated s \<Longrightarrow> case_key (map tolower (cstr s) @ [0]) = case_key s"
proof -
  have "0 \<notin> set (map tolower (cstr s))" using cstr_nonzero [of s] tolower_zero by fastforce
  then show ?thesis by (simp add: case_key_def)
qed

lemma set_variable_map:
  assumes "env_ok es" "terminated name" "length name < 4294967296"
    and "\<And>t. v = Some t \<Longrightarrow> terminated t \<and> length t < 4294967296"
  shows "\<exists>es'. set_environment_variable name v es = Some es' \<and> env_ok es' \<and>
    env_map es' = (env_map es)(case_key name := map_option cstr v)"
proof -
  obtain r where r: "remove_variable name es = Some r" "env_ok r" "env_map r = (env_map es)(case_key name := None)"
    "case_key name \<notin> (\<lambda>e. case_key (ename e)) ` set r" using remove_variable_map [OF assms(1,2)] by blast
  show ?thesis
  proof (cases v)
    case None
    with r show ?thesis by (simp add: set_environment_variable_def)
  next
    case (Some t)
    have t: "strdup t = Some (cstr t @ [0])" using assms(4) [OF Some] strdup_eq by blast
    have c: "cstr (cstr t @ [0]) = cstr t" by (rule cstr_append) simp
    show ?thesis
      using Some r t c strdup_eq [OF assms(2,3)] to_lower_eq [OF cstr_nonzero [of name]] case_key_lower [OF assms(2)]
      by (simp add: set_environment_variable_def)
  qed
qed

text \<open>C35. The environment is a map from names, up to case, to values: on a well-formed environment \<open>set\<close>
  updates the map at the name, in whatever case, or deletes it there, keeps the environment well formed
  (every name once, every string terminated), and a lookup reads the map.\<close>

theorem environment_is_map:
  assumes "env_ok es" "terminated name" "length name < 2 ^ 32"
    and "\<forall>t. v = Some t \<longrightarrow> terminated t \<and> length t < 2 ^ 32" "terminated other"
  shows "\<exists>es' w. set_environment_variable name v es = Some es' \<and> env_ok es' \<and>
    env_map es' = (env_map es)(case_key name := map_option cstr v) \<and>
    get_environment_variable other es' = Some w \<and>
    map_option cstr w = (if case_key other = case_key name then map_option cstr v else env_map es (case_key other))"
proof -
  obtain es' where es': "set_environment_variable name v es = Some es'" "env_ok es'"
    "env_map es' = (env_map es)(case_key name := map_option cstr v)"
    using set_variable_map [of es name v] assms by auto
  obtain w where "get_environment_variable other es' = Some w" "map_option cstr w = env_map es' (case_key other)"
    using get_variable_map [OF es'(2) assms(5)] by blast
  with es' show ?thesis by simp
qed

theorem environment_is_map_witness:
  "\<exists>es' w. set_environment_variable [0x42, 0] (Some [0x31, 0]) [] = Some es' \<and>
     get_environment_variable [0x62, 0] es' = Some w \<and> map_option cstr w = Some [0x31]"
  using environment_is_map [of "[]" "[0x42, 0]" "Some [0x31, 0]" "[0x62, 0]"]
  by (auto simp: env_ok_def case_key_def tolower_def)

text \<open>A number is read in the base of the environment, or with a \<open>0x\<close> prefix in hexadecimal.\<close>

lemma parse_hex: "parse_uint32 [] [0x30, 0x78, 0x31, 0x30, 0] = Some (16, 4)"
  by (simp add: parse_uint32_def get_base_def get_environment_variable_int_def rd_def strtoul_def skip_space.simps
      isspace_def radix_prefix_def convert.simps ndigit_def RUB_def ULONG_MAX_def Let_def)

end
