(* ===== verification/Cmdline.thy ===== *)
theory Cmdline
  imports Strtoul "HOL-Library.Monad_Syntax"
begin

text \<open>
  How \<open>execute_cmd\<close> of \<^verbatim>\<open>cli/cli.c\<close> splits a line into arguments: in place, by writing terminators
  into the buffer, an argument being the index of its first character. \<open>None\<close> is an access outside the buffer.
  The reference is \<open>split_line\<close> on the characters of the line.
\<close>

definition MAXARG :: nat where "MAXARG = 40"

definition is_quote :: "u8 \<Rightarrow> bool" where "is_quote c \<longleftrightarrow> c = 0x22 \<or> c = 0x27"

text \<open>\<open>while(*p && !stop(*p)) p++;\<close>\<close>

function seek :: "(u8 \<Rightarrow> bool) \<Rightarrow> cbytes \<Rightarrow> nat \<Rightarrow> nat option" where
  "seek stop s p =
     (case rd s p of None \<Rightarrow> None | Some c \<Rightarrow> if c \<noteq> 0 \<and> \<not> stop c then seek stop s (p + 1) else Some p)"
  by pat_completeness auto
termination
  by (relation "measure (\<lambda>(stop, s, p). length s - p)") (auto simp: rd_def split: if_splits)

declare seek.simps [simp del]

text \<open>The argument at \<open>p\<close>: the character of an unclosed quotation, or the buffer, the argument (none at the
  end of the line) and the position behind it.\<close>

definition take_arg :: "cbytes \<Rightarrow> nat \<Rightarrow> (u8 + cbytes \<times> nat list \<times> nat) option" where
  "take_arg s p = do {
     c \<leftarrow> rd s p;
     if is_quote c then do {
       q \<leftarrow> seek (\<lambda>x. x = c) s (p + 1);
       e \<leftarrow> rd s q;
       Some (if e = 0 then Inl c else Inr (s[q := 0], [p + 1], q + 1)) }
     else if c \<noteq> 0 then do {
       q \<leftarrow> seek isspace s p;
       e \<leftarrow> rd s q;
       Some (if e \<noteq> 0 then Inr (s[q := 0], [p], q + 1) else Inr (s, [p], q)) }
     else Some (Inr (s, [], p)) }"

datatype parsed = Unclosed u8 cbytes | Parsed cbytes "nat list"

lemma seek_ge: "seek stop s p = Some q \<Longrightarrow> p \<le> q \<and> q < length s"
  by (induction stop s p rule: seek.induct)
    (subst (asm) (2) seek.simps; auto simp: rd_def split: option.splits if_splits)

lemma skip_ge: "skip_space s p = Some q \<Longrightarrow> p \<le> q \<and> q < length s \<and> \<not> isspace (s ! q)"
  by (induction s p rule: skip_space.induct)
    (subst (asm) (2) skip_space.simps; auto simp: rd_def split: option.splits if_splits)

lemma seek_space_moves: "seek isspace s p = Some q \<Longrightarrow> rd s p = Some c \<Longrightarrow> c \<noteq> 0 \<Longrightarrow> \<not> isspace c \<Longrightarrow> p < q"
  by (subst (asm) seek.simps) (auto dest: seek_ge)

lemma take_arg_ge:
  assumes "take_arg s q = Some (Inr (t, a, r))" "\<not> isspace (s ! q)"
  shows "length t = length s \<and> q \<le> r \<and> (s ! q \<noteq> 0 \<longrightarrow> q < r)"
proof -
  obtain c where c: "rd s q = Some c" using assms(1) by (auto simp: take_arg_def bind_eq_Some_conv)
  then have s: "c = s ! q" by (simp add: rd_def split: if_splits)
  show ?thesis
  proof (cases "is_quote c")
    case True
    with assms c s show ?thesis by (auto simp: take_arg_def bind_eq_Some_conv dest: seek_ge split: if_splits)
  next
    case False
    with assms c s show ?thesis
      using seek_space_moves [of s q _ c]
      by (fastforce simp: take_arg_def bind_eq_Some_conv dest: seek_ge split: if_splits)
  qed
qed

function parse_args :: "nat list \<Rightarrow> cbytes \<Rightarrow> nat \<Rightarrow> parsed option" where
  "parse_args args s p = (
     case rd (if length args = MAXARG then s[p := 0] else s) p of None \<Rightarrow> None | Some c \<Rightarrow>
     if c = 0 then Some (Parsed (if length args = MAXARG then s[p := 0] else s) args) else
     case skip_space s p of None \<Rightarrow> None | Some q \<Rightarrow>
     case take_arg s q of None \<Rightarrow> None
     | Some (Inl c) \<Rightarrow> Some (Unclosed c s)
     | Some (Inr (t, a, r)) \<Rightarrow> parse_args (args @ a) t r)"
  by pat_completeness auto
termination
proof (relation "measure (\<lambda>(args, s, p). length s - p)", goal_cases)
  case (2 args s p c q d e t f a r)
  then have ge: "p \<le> q" "q < length s" "\<not> isspace (s ! q)" using skip_ge by auto
  have take: "length t = length s" "q \<le> r" "s ! q \<noteq> 0 \<longrightarrow> q < r" using take_arg_ge [of s q t a r] 2 ge by auto
  have "p < r"
  proof (cases "p = q")
    case True
    have "s ! p \<noteq> 0" using 2(1,2) by (auto simp: rd_def split: if_splits)
    then show ?thesis using take True by simp
  qed (use ge take in simp)
  then show ?case using ge take by simp
qed simp

declare parse_args.simps [simp del]

section \<open>The reference\<close>

fun split_line :: "nat \<Rightarrow> u8 list \<Rightarrow> u8 + u8 list list" where
  "split_line 0 s = Inr []"
| "split_line (Suc n) s =
     (case dropWhile isspace s of
        [] \<Rightarrow> Inr []
      | c # t \<Rightarrow>
          if is_quote c then
            (case dropWhile (\<lambda>x. x \<noteq> c) t of
               [] \<Rightarrow> Inl c
             | _ # rest \<Rightarrow> map_sum id ((#) (takeWhile (\<lambda>x. x \<noteq> c) t)) (split_line n rest))
          else map_sum id ((#) (c # takeWhile (\<lambda>x. \<not> isspace x) t))
            (split_line n (dropWhile (\<lambda>x. \<not> isspace x) t)))"

definition args_of :: "cbytes \<Rightarrow> nat list \<Rightarrow> u8 list list" where
  "args_of s idx = map (\<lambda>i. cstr (drop i s)) idx"

section \<open>The parser computes the reference\<close>

lemma skip_space_append:
  "0 \<notin> set rest \<Longrightarrow> skip_space (pre @ rest @ 0 # post) (length pre) =
     Some (length pre + length (takeWhile isspace rest))"
proof (induction rest arbitrary: pre)
  case Nil
  show ?case by (subst skip_space.simps) (simp add: isspace_def)
next
  case (Cons c rest)
  show ?case using Cons.IH [of "pre @ [c]"] Cons.prems by (subst skip_space.simps) simp
qed

lemma seek_append:
  "0 \<notin> set rest \<Longrightarrow> seek stop (pre @ rest @ 0 # post) (length pre) =
     Some (length pre + length (takeWhile (\<lambda>x. \<not> stop x) rest))"
proof (induction rest arbitrary: pre)
  case Nil
  show ?case by (subst seek.simps) simp
next
  case (Cons c rest)
  show ?case using Cons.IH [of "pre @ [c]"] Cons.prems by (subst seek.simps) auto
qed

lemma split_line_space [simp]: "isspace c \<Longrightarrow> split_line n (c # s) = split_line n s"
  by (cases n) auto

lemma split_line_Nil [simp]: "split_line n [] = Inr []"
  by (cases n) auto


text \<open>The outcome of the parser for the rest of a line behind \<open>pre\<close>.\<close>

definition parsed_as :: "nat list \<Rightarrow> u8 list \<Rightarrow> nat \<Rightarrow> u8 + u8 list list \<Rightarrow> parsed option \<Rightarrow> bool" where
  "parsed_as args pre len r p =
     (case r of Inl c \<Rightarrow> \<exists>t. p = Some (Unclosed c t) \<and> length t = len
      | Inr ws \<Rightarrow> \<exists>t idx. p = Some (Parsed t (args @ idx)) \<and> args_of t idx = ws \<and> length t = len \<and>
          take (length pre) t = pre \<and> (\<forall>i \<in> set idx. length pre \<le> i \<and> terminated (drop i t)))"

lemma drop_after:
  "take n t = xs @ ys @ [0] \<Longrightarrow> length xs \<le> n \<Longrightarrow> 0 \<notin> set ys \<Longrightarrow> cstr (drop (length xs) t) = ys"
proof -
  assume a: "take n t = xs @ ys @ [0]" "length xs \<le> n" "0 \<notin> set ys"
  have "t = xs @ ys @ 0 # drop n t" using a(1) append_take_drop_id [of n t] by simp
  then show ?thesis using a(3) by (metis append_eq_conv_conj cstr_append)
qed

text \<open>One more argument in front of an outcome.\<close>

lemma parsed_as_Cons:
  assumes "parsed_as (args @ [i]) pre' len r p" "pre' = xs @ w @ [0]" "i = length xs"
    and "0 \<notin> set w" "xs = pre @ zs"
  shows "parsed_as args pre len (map_sum id ((#) w) r) p"
proof (cases r)
  case (Inl c)
  with assms show ?thesis by (simp add: parsed_as_def)
next
  case (Inr ws)
  with assms(1) obtain t idx where t: "p = Some (Parsed t ((args @ [i]) @ idx))" "args_of t idx = ws" "length t = len"
    "take (length pre') t = pre'" "\<forall>i \<in> set idx. length pre' \<le> i \<and> terminated (drop i t)" by (auto simp: parsed_as_def)
  have "cstr (drop i t) = w"
    using drop_after [of "length pre'" t xs w] t(4) assms(2-4) by simp
  moreover have "terminated (drop i t)"
  proof -
    have "t = xs @ w @ 0 # drop (length pre') t"
      using t(4) assms(2) append_take_drop_id [of "length pre'" t] by simp
    then have "drop i t = w @ 0 # drop (length pre') t" using assms(3) by (metis append_eq_conv_conj)
    then show ?thesis by simp
  qed
  moreover have "take (length pre) t = pre"
  proof -
    have "take (length pre) (take (length pre') t) = pre" using t(4) assms(2,5) by simp
    then show ?thesis using assms(2,5) by (simp add: min_def)
  qed
  ultimately show ?thesis
    using t assms Inr unfolding parsed_as_def
    by (auto simp: args_of_def intro!: exI [of _ t] exI [of _ "i # idx"])
qed

lemma takeWhile_no_zero: "0 \<notin> set s \<Longrightarrow> 0 \<notin> set (takeWhile P s)" "0 \<notin> set s \<Longrightarrow> 0 \<notin> set (dropWhile P s)"
  by (auto dest: set_takeWhileD set_dropWhileD)

lemma parse_stop: "parse_args args (pre @ 0 # post) (length pre) = Some (Parsed (pre @ 0 # post) args)"
  by (subst parse_args.simps) (simp add: rd_def)

lemma parse_full:
  "length args = MAXARG \<Longrightarrow> p < length s \<Longrightarrow> parse_args args s p = Some (Parsed (s[p := 0]) args)"
  by (subst parse_args.simps) (simp add: rd_def)

text \<open>The loop behind the blanks.\<close>

definition parse_rest :: "nat list \<Rightarrow> cbytes \<Rightarrow> nat \<Rightarrow> parsed option" where
  "parse_rest args s q =
     (case take_arg s q of None \<Rightarrow> None
      | Some (Inl c) \<Rightarrow> Some (Unclosed c s)
      | Some (Inr (t, a, r)) \<Rightarrow> parse_args (args @ a) t r)"

lemma parse_next:
  assumes "length args \<noteq> MAXARG" "0 \<notin> set (c # rest)" "s = pre @ c # rest @ 0 # post"
  shows "parse_args args s (length pre) =
    parse_rest args s (length pre + length (takeWhile isspace (c # rest)))"
  using assms(1,2) skip_space_append [OF assms(2), of pre post] unfolding assms(3)
  by (subst parse_args.simps) (simp add: rd_def parse_rest_def split del: if_split)

lemma take_end: "take_arg (pre @ 0 # post) (length pre) = Some (Inr (pre @ 0 # post, [], length pre))"
  by (simp add: take_arg_def is_quote_def)

declare dropWhile_eq_Nil_conv [simp del] dropWhile_eq_Cons_conv [simp del]

lemma take_quoted:
  assumes "is_quote c" "0 \<notin> set t"
  shows "take_arg (xs @ c # t @ 0 # post) (length xs) = Some (case dropWhile (\<lambda>x. x \<noteq> c) t of
      [] \<Rightarrow> Inl c
    | _ # rest \<Rightarrow> Inr ((xs @ [c]) @ takeWhile (\<lambda>x. x \<noteq> c) t @ 0 # rest @ 0 # post, [length (xs @ [c])],
        length (xs @ [c]) + length (takeWhile (\<lambda>x. x \<noteq> c) t) + 1))"
proof -
  let ?w = "takeWhile (\<lambda>x. x \<noteq> c) t" and ?s = "xs @ c # t @ 0 # post"
  have sk: "seek (\<lambda>x. x = c) ?s (length xs + 1) = Some (length xs + 1 + length ?w)"
    using seek_append [OF assms(2), of "\<lambda>x. x = c" "xs @ [c]" post] by simp
  have s: "?s = (xs @ c # ?w) @ dropWhile (\<lambda>x. x \<noteq> c) t @ 0 # post" by simp
  show ?thesis
  proof (cases "dropWhile (\<lambda>x. x \<noteq> c) t")
    case Nil
    have "?s = (xs @ c # ?w) @ 0 # post" using s Nil by simp
    then have "rd ?s (length xs + 1 + length ?w) = Some 0" using rd_append [of "xs @ c # ?w" 0 post] by simp
    then show ?thesis using sk assms by (simp add: take_arg_def Nil)
  next
    case (Cons e rest)
    have e: "e = c" using Cons hd_dropWhile [of "\<lambda>x. x \<noteq> c" t] by simp
    have s': "?s = (xs @ c # ?w) @ e # rest @ 0 # post" using s Cons by simp
    have n: "length xs + 1 + length ?w = length (xs @ c # ?w)" by simp
    have "rd ?s (length xs + 1 + length ?w) = Some c" unfolding n by (subst s') (simp only: rd_append e)
    moreover have "?s[length xs + 1 + length ?w := 0] = (xs @ c # ?w) @ 0 # rest @ 0 # post"
      unfolding s' by (simp add: list_update_append)
    moreover have "c \<noteq> 0" using assms(1) by (auto simp: is_quote_def)
    ultimately show ?thesis using sk Cons assms(1) by (simp add: take_arg_def)
  qed
qed

lemma take_word:
  assumes "\<not> is_quote c" "\<not> isspace c" "0 \<notin> set (c # t)"
  shows "take_arg (xs @ c # t @ 0 # post) (length xs) = Some (Inr (case dropWhile (\<lambda>x. \<not> isspace x) t of
      [] \<Rightarrow> (xs @ c # t @ 0 # post, [length xs], length (xs @ c # t))
    | _ # rest \<Rightarrow> (xs @ c # takeWhile (\<lambda>x. \<not> isspace x) t @ 0 # rest @ 0 # post, [length xs],
        length (xs @ c # takeWhile (\<lambda>x. \<not> isspace x) t) + 1)))"
proof -
  let ?w = "takeWhile (\<lambda>x. \<not> isspace x) t" and ?s = "xs @ c # t @ 0 # post"
  have sk: "seek isspace ?s (length xs) = Some (length xs + 1 + length ?w)"
    using seek_append [OF assms(3), of isspace xs post] assms(2) by simp
  have s: "?s = (xs @ c # ?w) @ dropWhile (\<lambda>x. \<not> isspace x) t @ 0 # post" by simp
  show ?thesis
  proof (cases "dropWhile (\<lambda>x. \<not> isspace x) t")
    case Nil
    have w: "?w = t" using Nil by (metis append_Nil2 takeWhile_dropWhile_id)
    have "?s = (xs @ c # ?w) @ 0 # post" using s Nil by simp
    then have "rd ?s (length xs + 1 + length ?w) = Some 0" using rd_append [of "xs @ c # ?w" 0 post] by simp
    then show ?thesis using sk assms by (simp add: take_arg_def Nil w)
  next
    case (Cons e rest)
    have e: "e \<noteq> 0" using Cons assms(3) takeWhile_no_zero(2) [of t "\<lambda>x. \<not> isspace x"] by auto
    have s': "?s = (xs @ c # ?w) @ e # rest @ 0 # post" using s Cons by simp
    have n: "length xs + 1 + length ?w = length (xs @ c # ?w)" by simp
    have "rd ?s (length xs + 1 + length ?w) = Some e" unfolding n by (subst s') (simp only: rd_append)
    moreover have "?s[length xs + 1 + length ?w := 0] = (xs @ c # ?w) @ 0 # rest @ 0 # post"
      unfolding s' by (simp add: list_update_append)
    ultimately show ?thesis using sk Cons assms e by (simp add: take_arg_def)
  qed
qed


lemma split_blanks: "split_line n (dropWhile isspace s) = split_line n s"
  by (induction s) auto

lemma no_quote_space: "is_quote c \<Longrightarrow> c \<noteq> 0"
  by (auto simp: is_quote_def)

text \<open>The rest of a line is parsed as the reference says, and then so are a quotation and a word in front of it.\<close>

definition correct_for :: "nat \<Rightarrow> u8 list \<Rightarrow> bool" where
  "correct_for n post \<longleftrightarrow> (\<forall>rest args pre. 0 \<notin> set rest \<longrightarrow> length args + n = MAXARG \<longrightarrow>
     parsed_as args pre (length (pre @ rest @ 0 # post)) (split_line n rest)
       (parse_args args (pre @ rest @ 0 # post) (length pre)))"

lemma correct_forD:
  "correct_for n post \<Longrightarrow> 0 \<notin> set rest \<Longrightarrow> length args + n = MAXARG \<Longrightarrow> pre = xs @ w @ [0] \<Longrightarrow>
   parsed_as args pre (length (xs @ w @ 0 # rest @ 0 # post)) (split_line n rest)
     (parse_args args (xs @ w @ 0 # rest @ 0 # post) (length (xs @ w @ [0])))"
  unfolding correct_for_def by (drule spec [of _ rest], drule spec [of _ args], drule spec [of _ pre]) simp

lemma cut_length: "dropWhile P t = e # rest \<Longrightarrow> length t = length (takeWhile P t) + Suc (length rest)"
  by (metis length_Cons length_append takeWhile_dropWhile_id)

lemma parse_quoted:
  assumes "correct_for n post" "is_quote c" "0 \<notin> set t" "length args + Suc n = MAXARG"
  shows "parsed_as args pre (length ((pre @ zs) @ c # t @ 0 # post))
    (case dropWhile (\<lambda>x. x \<noteq> c) t of [] \<Rightarrow> Inl c
     | _ # rest \<Rightarrow> map_sum id ((#) (takeWhile (\<lambda>x. x \<noteq> c) t)) (split_line n rest))
    (parse_rest args ((pre @ zs) @ c # t @ 0 # post) (length (pre @ zs)))"
proof (cases "dropWhile (\<lambda>x. x \<noteq> c) t")
  case Nil
  have "parse_rest args ((pre @ zs) @ c # t @ 0 # post) (length (pre @ zs)) = Some (Unclosed c ((pre @ zs) @ c # t @ 0 # post))"
    unfolding parse_rest_def by (subst take_quoted [OF assms(2,3)]) (simp add: Nil)
  then show ?thesis by (simp add: Nil parsed_as_def)
next
  case (Cons e rest)
  let ?w = "takeWhile (\<lambda>x. x \<noteq> c) t" and ?xs = "(pre @ zs) @ [c]"
  have r0: "0 \<notin> set rest" "0 \<notin> set ?w" using takeWhile_no_zero [OF assms(3), of "\<lambda>x. x \<noteq> c"] Cons by auto
  have p: "parse_rest args ((pre @ zs) @ c # t @ 0 # post) (length (pre @ zs)) =
      parse_args (args @ [length ?xs]) (?xs @ ?w @ 0 # rest @ 0 # post) (length (?xs @ ?w @ [0]))"
    unfolding parse_rest_def by (subst take_quoted [OF assms(2,3)]) (simp add: Cons add.assoc)
  have "parsed_as (args @ [length ?xs]) (?xs @ ?w @ [0]) (length (?xs @ ?w @ 0 # rest @ 0 # post)) (split_line n rest)
      (parse_args (args @ [length ?xs]) (?xs @ ?w @ 0 # rest @ 0 # post) (length (?xs @ ?w @ [0])))"
    by (rule correct_forD [OF assms(1) r0(1) _ refl]) (use assms(4) in simp)
  from parsed_as_Cons [OF this refl refl r0(2), of pre "zs @ [c]"] show ?thesis
    unfolding p using cut_length [OF Cons] by (simp add: Cons add.assoc)
qed

lemma parse_word:
  assumes "correct_for n post" "\<not> is_quote c" "\<not> isspace c" "0 \<notin> set (c # t)" "length args + Suc n = MAXARG"
  shows "parsed_as args pre (length ((pre @ zs) @ c # t @ 0 # post))
    (map_sum id ((#) (c # takeWhile (\<lambda>x. \<not> isspace x) t)) (split_line n (dropWhile (\<lambda>x. \<not> isspace x) t)))
    (parse_rest args ((pre @ zs) @ c # t @ 0 # post) (length (pre @ zs)))"
proof (cases "dropWhile (\<lambda>x. \<not> isspace x) t")
  case Nil
  have w: "takeWhile (\<lambda>x. \<not> isspace x) t = t" using Nil by (metis append_Nil2 takeWhile_dropWhile_id)
  let ?xs = "(pre @ zs) @ c # t"
  have "parse_rest args ((pre @ zs) @ c # t @ 0 # post) (length (pre @ zs)) =
      parse_args (args @ [length (pre @ zs)]) (?xs @ 0 # post) (length ?xs)"
    unfolding parse_rest_def by (subst take_word [OF assms(2-4)]) (simp add: Nil)
  then show ?thesis
    using assms(4) drop_after [of "length (?xs @ [0])" "?xs @ 0 # post" "pre @ zs" "c # t"]
    unfolding parse_stop by (simp add: Nil w parsed_as_def args_of_def)
next
  case (Cons e rest)
  let ?w = "c # takeWhile (\<lambda>x. \<not> isspace x) t" and ?xs = "pre @ zs"
  have e: "isspace e" using hd_dropWhile [of "\<lambda>x. \<not> isspace x" t] Cons by simp
  have r0: "0 \<notin> set rest" "0 \<notin> set ?w"
    using takeWhile_no_zero [of t "\<lambda>x. \<not> isspace x"] assms(4) Cons by auto
  have p: "parse_rest args ((pre @ zs) @ c # t @ 0 # post) (length (pre @ zs)) =
      parse_args (args @ [length ?xs]) (?xs @ ?w @ 0 # rest @ 0 # post) (length (?xs @ ?w @ [0]))"
    unfolding parse_rest_def by (subst take_word [OF assms(2-4)]) (simp add: Cons add.assoc)
  have "parsed_as (args @ [length ?xs]) (?xs @ ?w @ [0]) (length (?xs @ ?w @ 0 # rest @ 0 # post)) (split_line n rest)
      (parse_args (args @ [length ?xs]) (?xs @ ?w @ 0 # rest @ 0 # post) (length (?xs @ ?w @ [0])))"
    by (rule correct_forD [OF assms(1) r0(1) _ refl]) (use assms(5) in simp)
  from parsed_as_Cons [OF this refl refl r0(2), of pre zs] show ?thesis
    unfolding p using cut_length [OF Cons] e by (simp add: Cons add.assoc)
qed

text \<open>A line behind \<open>pre\<close> is parsed as the reference says.\<close>

lemma parse_args_correct: "correct_for n post"
proof (induction n)
  case 0
  then show ?case by (auto simp: correct_for_def parse_full parsed_as_def args_of_def)
next
  case (Suc n)
  show ?case
    unfolding correct_for_def
  proof (intro allI impI)
    fix rest pre :: "u8 list" and args :: "nat list"
    assume r: "0 \<notin> set rest" and a: "length args + Suc n = MAXARG"
    let ?b = "takeWhile isspace rest" and ?s = "pre @ rest @ 0 # post"
    have d0: "0 \<notin> set (dropWhile isspace rest)" by (rule takeWhile_no_zero [OF r])
    have s: "?s = (pre @ ?b) @ dropWhile isspace rest @ 0 # post" by simp
    show "parsed_as args pre (length ?s) (split_line (Suc n) rest) (parse_args args ?s (length pre))"
    proof (cases rest)
      case Nil
      then show ?thesis by (simp add: parse_stop parsed_as_def args_of_def)
    next
      case (Cons c0 cs)
      have step: "parse_args args ?s (length pre) = parse_rest args ?s (length (pre @ ?b))"
        using parse_next [of args c0 cs ?s pre post] a r Cons by simp
      show ?thesis
      proof (cases "dropWhile isspace rest")
        case Nil
        have e: "?s = (pre @ ?b) @ 0 # post" using s Nil by simp
        have "parse_args args ?s (length pre) = Some (Parsed ((pre @ ?b) @ 0 # post) args)"
          unfolding step unfolding e parse_rest_def take_end by (simp only: option.case sum.case prod.case append_Nil2 parse_stop)
        moreover have "length ?s = length ((pre @ ?b) @ 0 # post)" by (simp only: e)
        ultimately show ?thesis unfolding e by (simp add: Nil parsed_as_def args_of_def)
      next
        case d: (Cons c t)
        have c: "\<not> isspace c" using hd_dropWhile [of isspace rest] d by simp
        have t: "0 \<notin> set (c # t)" using d0 unfolding d .
        have s1: "?s = (pre @ ?b) @ c # t @ 0 # post" using s unfolding d by simp
        show ?thesis
          unfolding step unfolding s1
          using parse_quoted [OF Suc, of c t args pre ?b] parse_word [OF Suc, of c t args pre ?b] t c a
          by (cases "is_quote c") (simp_all add: d)
      qed
    qed
  qed
qed

declare dropWhile_eq_Nil_conv [simp] dropWhile_eq_Cons_conv [simp]

section \<open>Properties\<close>

text \<open>A command line is split as the reference splits it. For a line in its buffer, ended by a
  terminator, the parser never leaves the buffer; it reports the first quotation that is not closed; otherwise
  its arguments, as C strings in the buffer after the parse, are the words of the line, at most \<open>MAXARG\<close>.\<close>

theorem line_parsed:
  assumes "0 \<notin> set line"
  shows "case split_line MAXARG line of
      Inl c \<Rightarrow> \<exists>s. parse_args [] (line @ 0 # post) 0 = Some (Unclosed c s) \<and> length s = length (line @ 0 # post)
    | Inr ws \<Rightarrow> \<exists>s idx. parse_args [] (line @ 0 # post) 0 = Some (Parsed s idx) \<and> args_of s idx = ws \<and>
        length s = length (line @ 0 # post) \<and> (\<forall>i \<in> set idx. terminated (drop i s))"
  using parse_args_correct [of MAXARG post, unfolded correct_for_def, rule_format, OF assms, of "[]" "[]"]
  by (auto simp: parsed_as_def split: sum.splits)

theorem line_parsed_witness:
  "(\<exists>s idx. parse_args [] ([0x61, 0x20, 0x22, 0x20, 0x22] @ 0 # [7]) 0 = Some (Parsed s idx) \<and>
      args_of s idx = [[0x61], [0x20]]) \<and>
   (\<exists>s. parse_args [] ([0x61, 0x20, 0x22] @ 0 # []) 0 = Some (Unclosed 0x22 s))"
proof -
  have "split_line MAXARG [0x61, 0x20, 0x22, 0x20, 0x22] = Inr [[0x61], [0x20]]"
    "split_line MAXARG [0x61, 0x20, 0x22] = Inl 0x22" by code_simp+
  with line_parsed [of "[0x61, 0x20, 0x22, 0x20, 0x22]" "[7]"] line_parsed [of "[0x61, 0x20, 0x22]" "[]"]
  show ?thesis by auto
qed

text \<open>An argument in quotes of the kind that it does not contain.\<close>

definition quoted :: "u8 list \<Rightarrow> u8 list" where
  "quoted w = (let q = (if 0x22 \<in> set w then 0x27 else 0x22) in q # w @ [q])"

definition quotable :: "u8 list \<Rightarrow> bool" where
  "quotable w \<longleftrightarrow> 0 \<notin> set w \<and> \<not> (0x22 \<in> set w \<and> 0x27 \<in> set w)"

lemma split_quoted:
  assumes "quotable w"
  shows "split_line (Suc n) (quoted w @ s) = map_sum id ((#) w) (split_line n s)"
proof -
  obtain q where q: "quoted w = q # w @ [q]" "is_quote q" "q \<notin> set w"
    using assms by (auto simp: quoted_def quotable_def is_quote_def Let_def)
  have t: "takeWhile (\<lambda>x. x \<noteq> q) (w @ q # s) = w" using q(3) by (induction w) auto
  have d: "dropWhile (\<lambda>x. x \<noteq> q) (w @ q # s) = q # s" using q(3) by (induction w) auto
  have "\<not> isspace q" using q(2) by (auto simp: is_quote_def isspace_def)
  then show ?thesis using q(2,3) by (simp add: q(1) t d)
qed

lemma split_quoted_line:
  "length ws \<le> n \<Longrightarrow> \<forall>w \<in> set ws. quotable w \<Longrightarrow>
   split_line n (concat (map (\<lambda>w. quoted w @ [0x20]) ws)) = Inr ws"
proof (induction ws arbitrary: n)
  case (Cons w ws)
  then obtain m where n: "n = Suc m" "length ws \<le> m" by (cases n) auto
  have "isspace 0x20" by (simp add: isspace_def)
  then show ?case using Cons n split_quoted [of w m] by simp
qed simp

text \<open>C36. Quoting is undone by the parser: any list of at most \<open>MAXARG\<close> arguments, empty ones and ones
  with blanks included, each in quotes it does not contain, comes back as exactly these arguments.\<close>

theorem quoting_round_trip:
  assumes "length ws \<le> MAXARG" "\<forall>w \<in> set ws. quotable w"
  shows "\<exists>s idx. parse_args [] (concat (map (\<lambda>w. quoted w @ [0x20]) ws) @ 0 # post) 0 = Some (Parsed s idx) \<and>
    args_of s idx = ws"
proof -
  have "0 \<notin> set (concat (map (\<lambda>w. quoted w @ [0x20]) ws))"
    using assms(2) by (auto simp: quoted_def quotable_def Let_def)
  from parse_args_correct [of MAXARG post, unfolded correct_for_def, rule_format, OF this, of "[]" "[]"]
  show ?thesis unfolding split_quoted_line [OF assms] by (auto simp: parsed_as_def)
qed

theorem quoting_round_trip_witness:
  "\<exists>s idx. parse_args [] (concat (map (\<lambda>w. quoted w @ [0x20]) [[], [0x20, 0x22]]) @ 0 # []) 0 = Some (Parsed s idx) \<and>
    args_of s idx = [[], [0x20, 0x22]]"
  by (rule quoting_round_trip) (simp_all add: MAXARG_def quotable_def)

end
