(* ===== verification/Uart.thy ===== *)
theory Uart
  imports CString "HOL-Library.Monad_Syntax"
begin

text \<open>
  The serial port of the console, \<^verbatim>\<open>core/uart.c\<close> with the constants of \<^verbatim>\<open>include/uart.h\<close>. The bus
  of the target is the record \<open>uart_io\<close> on the state \<open>'c\<close> of the hardware; registers are numbered from the
  base of the UART. A wait that never ends is \<open>None\<close>.
\<close>

record 'c uart_io =
  uart_inb :: "nat \<Rightarrow> 'c \<Rightarrow> u8 \<times> 'c"
  uart_outb :: "nat \<Rightarrow> u8 \<Rightarrow> 'c \<Rightarrow> 'c"

datatype uart_type_t =
    UART_UNKNOWN | UART_16450 | UART_16550 | UART_16550A | UART_16750 | UART_16950 | UART_16950B

definition UART_THR :: nat where "UART_THR = 0"
definition UART_RBR :: nat where "UART_RBR = 0"
definition UART_IER :: nat where "UART_IER = 1"
definition UART_IIR :: nat where "UART_IIR = 2"
definition UART_FCR :: nat where "UART_FCR = 2"
definition UART_LCR :: nat where "UART_LCR = 3"
definition UART_MCR :: nat where "UART_MCR = 4"
definition UART_LSR :: nat where "UART_LSR = 5"
definition UART_ICR :: nat where "UART_ICR = 5"
definition UART_MSR :: nat where "UART_MSR = 6"
definition UART_SCR :: nat where "UART_SCR = 7"
definition UART_EFR :: nat where "UART_EFR = 2"

lemmas uart_regs = UART_THR_def UART_RBR_def UART_IER_def UART_IIR_def UART_FCR_def UART_LCR_def UART_MCR_def
  UART_LSR_def UART_ICR_def UART_MSR_def UART_SCR_def UART_EFR_def

definition UART_ACR :: u8 where "UART_ACR = 0"
definition UART_ID1 :: u8 where "UART_ID1 = 8"
definition UART_ID2 :: u8 where "UART_ID2 = 9"
definition UART_ID3 :: u8 where "UART_ID3 = 10"
definition UART_REV :: u8 where "UART_REV = 11"
definition UART_ACR_ICRRD :: u8 where "UART_ACR_ICRRD = 0x40"
definition UART_FCR_ENABLE_FIFO :: u8 where "UART_FCR_ENABLE_FIFO = 0x01"
definition UART_FCR_CLEAR_RX_FIFO :: u8 where "UART_FCR_CLEAR_RX_FIFO = 0x02"
definition UART_FCR_CLEAR_TX_FIFO :: u8 where "UART_FCR_CLEAR_TX_FIFO = 0x04"
definition UART_FCR_DEEP :: u8 where "UART_FCR_DEEP = 0x20"
definition UART_FCR_RXFIFO_TRIGH :: u8 where "UART_FCR_RXFIFO_TRIGH = 0xC0"
definition UART_LSR_DR :: u8 where "UART_LSR_DR = 0x01"
definition UART_LSR_THRE :: u8 where "UART_LSR_THRE = 0x20"
definition UART_LSR_TEMT :: u8 where "UART_LSR_TEMT = 0x40"
definition UART_DLAB :: u8 where "UART_DLAB = 0x80"
definition UART_LCR_CONF_MODE_B :: u8 where "UART_LCR_CONF_MODE_B = 0xBF"
definition UART_LCR_WLEN8 :: u8 where "UART_LCR_WLEN8 = 0x03"
definition UART_MCR_DTR :: u8 where "UART_MCR_DTR = 0x01"
definition UART_MCR_RTS :: u8 where "UART_MCR_RTS = 0x02"
definition UART_MCR_AFE :: u8 where "UART_MCR_AFE = 0x20"
definition UART_IIR_FIFO_ENABLED :: u8 where "UART_IIR_FIFO_ENABLED = 0xC0"
definition UART_IIR_FIFO_ENABLED_16450 :: u8 where "UART_IIR_FIFO_ENABLED_16450 = 0x00"
definition UART_IIR_FIFO_ENABLED_16550 :: u8 where "UART_IIR_FIFO_ENABLED_16550 = 0x80"
definition UART_IIR_FIFO_ENABLED_16550A :: u8 where "UART_IIR_FIFO_ENABLED_16550A = 0xC0"
definition UART_IIR_FIFO_ENABLED_16750 :: u8 where "UART_IIR_FIFO_ENABLED_16750 = 0xE0"

lemmas uart_bits = UART_ACR_def UART_ID1_def UART_ID2_def UART_ID3_def UART_REV_def UART_ACR_ICRRD_def
  UART_FCR_ENABLE_FIFO_def UART_FCR_CLEAR_RX_FIFO_def UART_FCR_CLEAR_TX_FIFO_def UART_FCR_DEEP_def
  UART_FCR_RXFIFO_TRIGH_def UART_LSR_DR_def UART_LSR_THRE_def UART_LSR_TEMT_def UART_DLAB_def
  UART_LCR_CONF_MODE_B_def UART_LCR_WLEN8_def UART_MCR_DTR_def UART_MCR_RTS_def UART_MCR_AFE_def
  UART_IIR_FIFO_ENABLED_def UART_IIR_FIFO_ENABLED_16450_def UART_IIR_FIFO_ENABLED_16550_def
  UART_IIR_FIFO_ENABLED_16550A_def UART_IIR_FIFO_ENABLED_16750_def

text \<open>Both boards feed the UART with 1843200 Hz.\<close>

definition BAUD_RATE :: nat where "BAUD_RATE = 115200"
definition UART_BASE :: nat where "UART_BASE = 1843200 div 16"
definition UART_DIVISOR :: nat where "UART_DIVISOR = UART_BASE div BAUD_RATE"

section \<open>Finding out the type of the chip\<close>

definition uart_icr_write :: "'c uart_io \<Rightarrow> u8 \<Rightarrow> u8 \<Rightarrow> 'c \<Rightarrow> 'c" where
  "uart_icr_write io offset v c = uart_outb io UART_ICR v (uart_outb io UART_SCR offset c)"

definition uart_icr_read :: "'c uart_io \<Rightarrow> u8 \<Rightarrow> 'c \<Rightarrow> u8 \<times> 'c" where
  "uart_icr_read io offset c =
     (let c = uart_icr_write io UART_ACR (0 OR UART_ACR_ICRRD) c;
          c = uart_outb io UART_SCR offset c in
      case uart_inb io UART_ICR c of (v, c) \<Rightarrow> (v, uart_icr_write io UART_ACR 0 c))"

definition fifo_type :: "u8 \<Rightarrow> uart_type_t" where
  "fifo_type iir =
     (let v = iir AND UART_IIR_FIFO_ENABLED in
      if v = UART_IIR_FIFO_ENABLED_16450 then UART_16450
      else if v = UART_IIR_FIFO_ENABLED_16550 then UART_16550
      else if v = UART_IIR_FIFO_ENABLED_16550A then UART_16550A
      else UART_UNKNOWN)"

text \<open>A 16550A may be a 16750 or a 16950.\<close>

definition find_deep :: "'c uart_io \<Rightarrow> u8 \<Rightarrow> u8 \<Rightarrow> uart_type_t \<Rightarrow> 'c \<Rightarrow> uart_type_t \<times> 'c" where
  "find_deep io LCR FCR t c =
     (let c = uart_outb io UART_LCR (LCR OR UART_DLAB) c;
          c = uart_outb io UART_FCR FCR c;
          c = uart_outb io UART_LCR LCR c in
      case uart_inb io UART_IIR c of (iir, c) \<Rightarrow>
        (if iir AND UART_IIR_FIFO_ENABLED_16750 = UART_IIR_FIFO_ENABLED_16750 then UART_16750 else t, c))"

definition find_16950 :: "'c uart_io \<Rightarrow> u8 \<Rightarrow> uart_type_t \<Rightarrow> 'c \<Rightarrow> uart_type_t \<times> 'c" where
  "find_16950 io LCR t c =
     (let c = uart_outb io UART_LCR UART_LCR_CONF_MODE_B c in
      case uart_inb io UART_EFR c of (efr, c) \<Rightarrow>
        if efr = 0 then
          (let c = uart_outb io UART_LCR LCR c in
           case uart_icr_read io UART_ID1 c of (id1, c) \<Rightarrow>
           case uart_icr_read io UART_ID2 c of (id2, c) \<Rightarrow>
           case uart_icr_read io UART_ID3 c of (id3, c) \<Rightarrow>
           case uart_icr_read io UART_REV c of (revision, c) \<Rightarrow>
             (if id1 = 0x16 \<and> id2 = 0xC9 \<and> id3 = 0x50 then if revision = 3 then UART_16950B else UART_16950 else t, c))
        else (t, uart_outb io UART_LCR LCR c))"

definition uart_init :: "'c uart_io \<Rightarrow> 'c \<Rightarrow> uart_type_t \<times> 'c" where
  "uart_init io c =
     (let LCR = UART_LCR_WLEN8;
          MCR = UART_MCR_DTR OR UART_MCR_RTS;
          FCR = UART_FCR_ENABLE_FIFO OR UART_FCR_RXFIFO_TRIGH OR UART_FCR_DEEP;
          c = uart_outb io UART_IER 0 c in
      case uart_inb io UART_MSR c of (msr, c) \<Rightarrow>
        let MCR = (if msr AND 0x10 \<noteq> 0 then MCR OR UART_MCR_AFE else MCR);
            c = uart_outb io UART_LCR UART_LCR_CONF_MODE_B c;
            c = uart_outb io UART_EFR 0 c;
            c = uart_outb io UART_LCR LCR c;
            c = uart_outb io UART_FCR (FCR OR UART_FCR_CLEAR_RX_FIFO OR UART_FCR_CLEAR_TX_FIFO) c in
      case uart_inb io UART_IIR c of (iir, c) \<Rightarrow>
      case (if fifo_type iir = UART_16550A
            then (case find_deep io LCR FCR UART_16550A c of (t, c) \<Rightarrow> find_16950 io LCR t c)
            else (fifo_type iir, c)) of (t, c) \<Rightarrow>
        let c = uart_outb io UART_LCR (LCR OR UART_DLAB) c;
            c = uart_outb io 0 (of_nat (UART_DIVISOR mod 256)) c;
            c = uart_outb io 1 (of_nat (UART_DIVISOR div 256)) c;
            c = uart_outb io UART_LCR LCR c;
            c = uart_outb io UART_MCR MCR c in (t, c))"

definition uart_chip_name :: "uart_type_t \<Rightarrow> string" where
  "uart_chip_name t = (case t of UART_UNKNOWN \<Rightarrow> ''unknown'' | UART_16450 \<Rightarrow> ''16450'' | UART_16550 \<Rightarrow> ''16550''
     | UART_16550A \<Rightarrow> ''16550A'' | UART_16750 \<Rightarrow> ''16750'' | UART_16950 \<Rightarrow> ''16950'' | UART_16950B \<Rightarrow> ''16950B'')"

definition uart_identify :: "'c uart_io \<Rightarrow> uart_type_t \<Rightarrow> 'c \<Rightarrow> string \<times> 'c" where
  "uart_identify io t c = (case uart_inb io UART_MCR c of (MCR, c) \<Rightarrow>
     (''UART: '' @ uart_chip_name t @ (if MCR AND UART_MCR_AFE \<noteq> 0 then '' (RTS/CTS)'' else ''''), c))"

section \<open>Sending and receiving\<close>

definition uart_write_ready :: "'c uart_io \<Rightarrow> 'c \<Rightarrow> bool \<times> 'c" where
  "uart_write_ready io c = (case uart_inb io UART_LSR c of (v, c) \<Rightarrow> (v AND UART_LSR_THRE \<noteq> 0, c))"

definition uart_read_ready :: "'c uart_io \<Rightarrow> 'c \<Rightarrow> bool \<times> 'c" where
  "uart_read_ready io c = (case uart_inb io UART_LSR c of (v, c) \<Rightarrow> (v AND UART_LSR_DR \<noteq> 0, c))"

text \<open>The loops that wait for all the \<open>bits\<close> of the status.\<close>

partial_function (option) wait_status :: "'c uart_io \<Rightarrow> u8 \<Rightarrow> 'c \<Rightarrow> 'c option" where
  "wait_status io bits c =
     (case uart_inb io UART_LSR c of (v, c) \<Rightarrow> if v AND bits = bits then Some c else wait_status io bits c)"

definition uart_flush :: "'c uart_io \<Rightarrow> 'c \<Rightarrow> 'c option" where
  "uart_flush io c = wait_status io (UART_LSR_THRE OR UART_LSR_TEMT) c"

definition uart_write_byte :: "'c uart_io \<Rightarrow> u8 \<Rightarrow> 'c \<Rightarrow> 'c option" where
  "uart_write_byte io b c = map_option (uart_outb io UART_THR b) (wait_status io UART_LSR_THRE c)"

text \<open>The pointer is an index into the string.\<close>

function write_from :: "'c uart_io \<Rightarrow> cbytes \<Rightarrow> nat \<Rightarrow> int \<Rightarrow> 'c \<Rightarrow> (int \<times> 'c) option" where
  "write_from io str i r c =
     (if i < length str then
        if str ! i \<noteq> 0 then do {
          c \<leftarrow> (if str ! i = 0x0A then uart_write_byte io 0x0D c else Some c);
          c \<leftarrow> uart_write_byte io (str ! i) c;
          write_from io str (i + 1) (r + 1) c }
        else Some (r, c)
      else None)"
  by pat_completeness auto
termination by (relation "measure (\<lambda>(io, str, i, r, c). length str - i)") auto

declare write_from.simps [simp del]

definition uart_write_string :: "'c uart_io \<Rightarrow> cbytes \<Rightarrow> 'c \<Rightarrow> (int \<times> 'c) option" where
  "uart_write_string io str c = write_from io str 0 0 c"

definition uart_read_byte :: "'c uart_io \<Rightarrow> 'c \<Rightarrow> int \<times> 'c" where
  "uart_read_byte io c = (case uart_inb io UART_LSR c of (v, c) \<Rightarrow>
     if v AND UART_LSR_DR \<noteq> 0 then (case uart_inb io UART_RBR c of (b, c) \<Rightarrow> (uint b, c)) else (- 1, c))"

definition uart_read_byte_wait :: "'c uart_io \<Rightarrow> 'c \<Rightarrow> (u8 \<times> 'c) option" where
  "uart_read_byte_wait io c = map_option (uart_inb io UART_RBR) (wait_status io UART_LSR_DR c)"

text \<open>A count that is not positive reads nothing.\<close>

fun read_bytes_wait :: "'c uart_io \<Rightarrow> nat \<Rightarrow> 'c \<Rightarrow> (u8 list \<times> 'c) option" where
  "read_bytes_wait io 0 c = Some ([], c)"
| "read_bytes_wait io (Suc n) c = do {
     (b, c) \<leftarrow> uart_read_byte_wait io c;
     (bs, c) \<leftarrow> read_bytes_wait io n c;
     Some (b # bs, c) }"

definition uart_read_string :: "'c uart_io \<Rightarrow> int \<Rightarrow> 'c \<Rightarrow> (u8 list \<times> 'c) option" where
  "uart_read_string io cnt c = read_bytes_wait io (nat cnt) c"

text \<open>Q, in either case, or Escape.\<close>

definition cancel_byte :: "int \<Rightarrow> bool" where
  "cancel_byte byte \<longleftrightarrow> byte = 0x71 \<or> byte = 0x51 \<or> byte = 0x1B"

definition uart_check_cancel_key :: "'c uart_io \<Rightarrow> 'c \<Rightarrow> bool \<times> 'c" where
  "uart_check_cancel_key io c = (case uart_read_byte io c of (byte, c) \<Rightarrow> (cancel_byte byte, c))"

section \<open>A serial line\<close>

text \<open>
  What the driver relies on: \<open>sent\<close> are the bytes that have left, \<open>coming\<close> the ones still to be read. Reading
  the status changes neither; while it says busy, or no data although some will come, the measure \<open>delay\<close>
  decreases; a byte is taken when the transmitter is free and read when the status says that there is one.
\<close>

definition serial :: "'c uart_io \<Rightarrow> ('c \<Rightarrow> u8 list) \<Rightarrow> ('c \<Rightarrow> u8 list) \<Rightarrow> ('c \<Rightarrow> nat) \<Rightarrow> bool" where
  "serial io sent coming delay \<longleftrightarrow> (\<forall>c v c'. uart_inb io UART_LSR c = (v, c') \<longrightarrow>
     sent c' = sent c \<and> coming c' = coming c \<and>
     (v AND UART_LSR_THRE = 0 \<longrightarrow> delay c' < delay c) \<and>
     (v AND UART_LSR_DR = 0 \<and> coming c \<noteq> [] \<longrightarrow> delay c' < delay c) \<and>
     (v AND UART_LSR_THRE \<noteq> 0 \<longrightarrow> (\<forall>b. sent (uart_outb io UART_THR b c') = sent c @ [b] \<and> coming (uart_outb io UART_THR b c') = coming c)) \<and>
     (v AND UART_LSR_DR \<noteq> 0 \<longrightarrow> coming c \<noteq> [] \<and>
       (\<exists>c''. uart_inb io UART_RBR c' = (hd (coming c), c'') \<and> coming c'' = tl (coming c) \<and> sent c'' = sent c)))"

lemma one_bit: "(v :: u8) AND 0x20 = 0x20 \<longleftrightarrow> v AND 0x20 \<noteq> 0" "v AND 0x01 = 0x01 \<longleftrightarrow> v AND 0x01 \<noteq> 0"
proof -
  have "v AND push_bit k 1 = push_bit k 1 \<longleftrightarrow> v AND push_bit k 1 \<noteq> 0" if "k < 8" for k :: nat
  proof -
    have "v AND push_bit k 1 = (if bit v k then push_bit k 1 else 0)"
      by (rule bit_word_eqI) (auto simp: bit_and_iff bit_exp_iff)
    moreover have "push_bit k 1 \<noteq> (0 :: u8)" using that by (simp add: push_bit_eq_0_iff)
    ultimately show ?thesis by simp
  qed
  from this [of 5] this [of 0] show "v AND 0x20 = 0x20 \<longleftrightarrow> v AND 0x20 \<noteq> 0" "v AND 0x01 = 0x01 \<longleftrightarrow> v AND 0x01 \<noteq> 0"
    by (simp_all add: push_bit_eq_mult)
qed

lemma serialD:
  assumes "serial io sent coming delay" "uart_inb io UART_LSR c = (v, c')"
  shows "sent c' = sent c" "coming c' = coming c" "v AND UART_LSR_THRE = 0 \<Longrightarrow> delay c' < delay c"
    "v AND UART_LSR_DR = 0 \<Longrightarrow> coming c \<noteq> [] \<Longrightarrow> delay c' < delay c"
    "v AND UART_LSR_THRE \<noteq> 0 \<Longrightarrow> sent (uart_outb io UART_THR b c') = sent c @ [b] \<and> coming (uart_outb io UART_THR b c') = coming c"
    "v AND UART_LSR_DR \<noteq> 0 \<Longrightarrow> coming c \<noteq> [] \<and>
       (\<exists>c''. uart_inb io UART_RBR c' = (hd (coming c), c'') \<and> coming c'' = tl (coming c) \<and> sent c'' = sent c)"
  using assms unfolding serial_def by blast+

lemma write_byte_sends:
  assumes s: "serial io sent coming delay"
  shows "\<exists>c'. uart_write_byte io b c = Some c' \<and> sent c' = sent c @ [b] \<and> coming c' = coming c"
proof (induction "delay c" arbitrary: c rule: less_induct)
  case less
  obtain v c' where v: "uart_inb io UART_LSR c = (v, c')" by (cases "uart_inb io UART_LSR c")
  note d = serialD [OF s v]
  show ?case
  proof (cases "v AND UART_LSR_THRE = 0")
    case True
    then have "uart_write_byte io b c = uart_write_byte io b c'"
      using v by (simp add: uart_write_byte_def wait_status.simps [of io _ c] UART_LSR_THRE_def)
    then show ?thesis using less.hyps [of c'] d(1-3) True by simp
  next
    case False
    then have "wait_status io UART_LSR_THRE c = Some c'"
      using v by (subst wait_status.simps) (simp add: UART_LSR_THRE_def one_bit)
    then show ?thesis using d(5) [OF False] by (simp add: uart_write_byte_def)
  qed
qed

lemma read_byte_waits:
  assumes s: "serial io sent coming delay"
  shows "coming c = b # bs \<Longrightarrow> \<exists>c'. uart_read_byte_wait io c = Some (b, c') \<and> coming c' = bs \<and> sent c' = sent c"
proof (induction "delay c" arbitrary: c rule: less_induct)
  case less
  obtain v c' where v: "uart_inb io UART_LSR c = (v, c')" by (cases "uart_inb io UART_LSR c")
  note d = serialD [OF s v]
  show ?case
  proof (cases "v AND UART_LSR_DR = 0")
    case True
    then have "uart_read_byte_wait io c = uart_read_byte_wait io c'"
      using v by (simp add: uart_read_byte_wait_def wait_status.simps [of io _ c] UART_LSR_DR_def)
    then show ?thesis using less.hyps [of c'] less.prems d(1,2,4) True by simp
  next
    case False
    then have "wait_status io UART_LSR_DR c = Some c'"
      using v by (subst wait_status.simps) (simp add: UART_LSR_DR_def one_bit)
    then show ?thesis using d(6) [OF False] less.prems by (auto simp: uart_read_byte_wait_def)
  qed
qed

lemma read_bytes_waits:
  assumes s: "serial io sent coming delay"
  shows "coming c = bs @ rest \<Longrightarrow>
    \<exists>c'. read_bytes_wait io (length bs) c = Some (bs, c') \<and> coming c' = rest \<and> sent c' = sent c"
proof (induction bs arbitrary: c)
  case (Cons b bs)
  then obtain c1 where c1: "uart_read_byte_wait io c = Some (b, c1)" "coming c1 = bs @ rest" "sent c1 = sent c"
    using read_byte_waits [OF s, of c b "bs @ rest"] by auto
  from Cons.IH [OF c1(2)] c1 show ?case by auto
qed simp

text \<open>What a terminal is sent for a text: a carriage return before every line feed.\<close>

definition crlf :: "u8 list \<Rightarrow> u8 list" where
  "crlf bs = concat (map (\<lambda>b. if b = 0x0A then [0x0D, 0x0A] else [b]) bs)"

lemma write_from_sends:
  assumes s: "serial io sent coming delay"
  shows "0 \<notin> set bs \<Longrightarrow> \<exists>c'. write_from io (pre @ bs @ 0 # post) (length pre) r c = Some (r + int (length bs), c') \<and>
    sent c' = sent c @ crlf bs \<and> coming c' = coming c"
proof (induction bs arbitrary: pre r c)
  case Nil
  then show ?case by (subst write_from.simps) (simp add: crlf_def)
next
  case (Cons b bs)
  obtain c1 where c1: "(if b = 0x0A then uart_write_byte io 0x0D c else Some c) = Some c1"
    "sent c1 = sent c @ (if b = 0x0A then [0x0D] else [])" "coming c1 = coming c"
    using write_byte_sends [OF s, of "0x0D" c] by (cases "b = 0x0A") auto
  obtain c2 where c2: "uart_write_byte io b c1 = Some c2" "sent c2 = sent c1 @ [b]" "coming c2 = coming c1"
    using write_byte_sends [OF s] by blast
  have "write_from io (pre @ (b # bs) @ 0 # post) (length pre) r c =
      write_from io ((pre @ [b]) @ bs @ 0 # post) (length (pre @ [b])) (r + 1) c2"
    using Cons.prems c1(1) c2(1) by (subst write_from.simps) (simp add: nth_append)
  then show ?case using Cons.IH [of "pre @ [b]" "r + 1" c2] Cons.prems c1 c2 by (auto simp: crlf_def)
qed

text \<open>C19. The console carries bytes faithfully. On any serial line, however long it is busy, writing a string sends
  its characters, with a carriage return before every line feed, and returns their number; reading a count of
  bytes waits for and returns exactly the next ones that come, leaving the rest.\<close>

theorem console_carries:
  assumes "serial io sent coming delay" "0 \<notin> set str" "coming c = bs @ rest"
  shows "(\<exists>c'. uart_write_string io (str @ 0 # post) c = Some (int (length str), c') \<and>
      sent c' = sent c @ crlf str \<and> coming c' = coming c) \<and>
    (\<exists>c'. uart_read_string io (int (length bs)) c = Some (bs, c') \<and> coming c' = rest \<and> sent c' = sent c)"
  using write_from_sends [OF assms(1,2), of "[]" post 0 c] read_bytes_waits [OF assms(1,3)]
  by (auto simp: uart_write_string_def uart_read_string_def)

text \<open>A line that is ready at every second question.\<close>

definition slow_line :: "(bool \<times> u8 list \<times> u8 list) uart_io" where
  "slow_line = \<lparr>uart_inb = (\<lambda>r (ready, out, inp). if r = UART_LSR then (if ready then 0x60 OR of_bool (inp \<noteq> []) else 0, \<not> ready, out, inp)
       else (hd inp, ready, out, tl inp)),
     uart_outb = (\<lambda>r b (ready, out, inp). (ready, out @ [b], inp))\<rparr>"

lemma slow_line_serial: "serial slow_line (fst \<circ> snd) (snd \<circ> snd) (\<lambda>c. of_bool (\<not> fst c))"
  by (auto simp: serial_def slow_line_def uart_regs uart_bits split: if_splits)

theorem console_carries_witness:
  "(\<exists>c'. uart_write_string slow_line [0x6F, 0x6B, 0x0A, 0] (False, [], [1, 2, 3]) = Some (3, c') \<and> fst (snd c') = [0x6F, 0x6B, 0x0D, 0x0A]) \<and>
   (\<exists>c'. uart_read_string slow_line 2 (False, [], [1, 2, 3]) = Some ([1, 2], c') \<and> snd (snd c') = [3])"
  using console_carries [OF slow_line_serial, of "[0x6F, 0x6B, 0x0A]" "(False, [], [1, 2, 3])" "[1, 2]" "[3]" "[]"]
  by (auto simp: crlf_def)

section \<open>The chips\<close>

text \<open>
  The registers of the chips the driver knows, as their data sheets describe them: the divisor behind bit 7 of
  the line control register, the deep FIFO of the 16750 that can only be enabled then, the extended and the
  indexed registers of the 16950.
\<close>

record chip =
  kind :: uart_type_t
  revision_no :: u8
  cts :: bool
  ier :: u8
  fcr :: u8
  deep :: bool
  lcr :: u8
  mcr :: u8
  scr :: u8
  efr :: u8
  acr :: u8
  divisor_low :: u8
  divisor_high :: u8

definition oxford :: "chip \<Rightarrow> bool" where
  "oxford d \<longleftrightarrow> kind d = UART_16950 \<or> kind d = UART_16950B"

definition chip_iir :: "chip \<Rightarrow> u8" where
  "chip_iir d = (if kind d = UART_16450 \<or> fcr d AND 0x01 = 0 then 0x01 else if kind d = UART_16550 then 0x81 else if deep d then 0xE1 else 0xC1)"

definition chip_index :: "chip \<Rightarrow> u8" where
  "chip_index d = (if scr d = 8 then 0x16 else if scr d = 9 then 0xC9 else if scr d = 10 then 0x50
     else if scr d = 11 then revision_no d else 0)"

definition chip_inb :: "nat \<Rightarrow> chip \<Rightarrow> u8 \<times> chip" where
  "chip_inb r d =
     (if r = 2 then if oxford d \<and> lcr d = 0xBF then efr d else chip_iir d
      else if r = 3 then lcr d
      else if r = 4 then mcr d
      else if r = 5 then if oxford d \<and> acr d AND 0x40 \<noteq> 0 then chip_index d else 0x60
      else if r = 6 then if cts d then 0x10 else 0
      else if r = 7 then scr d
      else 0, d)"

definition chip_outb :: "nat \<Rightarrow> u8 \<Rightarrow> chip \<Rightarrow> chip" where
  "chip_outb r v d =
     (if lcr d AND 0x80 \<noteq> 0 \<and> r = 0 then d\<lparr>divisor_low := v\<rparr>
      else if lcr d AND 0x80 \<noteq> 0 \<and> r = 1 then d\<lparr>divisor_high := v\<rparr>
      else if r = 1 then d\<lparr>ier := v\<rparr>
      else if r = 2 then
        if oxford d \<and> lcr d = 0xBF then d\<lparr>efr := v\<rparr>
        else d\<lparr>fcr := v, deep := (kind d \<in> {UART_16750, UART_16950, UART_16950B} \<and> lcr d AND 0x80 \<noteq> 0 \<and> v AND 0x20 \<noteq> 0)\<rparr>
      else if r = 3 then d\<lparr>lcr := v\<rparr>
      else if r = 4 then d\<lparr>mcr := v\<rparr>
      else if r = 5 then if oxford d \<and> scr d = 0 then d\<lparr>acr := v\<rparr> else d
      else if r = 7 then d\<lparr>scr := v\<rparr>
      else d)"

definition chip_io :: "chip uart_io" where
  "chip_io = \<lparr>uart_inb = chip_inb, uart_outb = chip_outb\<rparr>"


definition fresh_chip :: chip where
  "fresh_chip = \<lparr>kind = UART_16950, revision_no = 2, cts = True, ier = 5, fcr = 0, deep = False, lcr = 0, mcr = 0, scr = 0xFF,
     efr = 0x10, acr = 0, divisor_low = 0, divisor_high = 0\<rparr>"


end
