(* ===== verification/Cli.thy ===== *)
theory Cli
  imports Cmdline FileIO Timer Uart
begin

text \<open>
  The command line, \<^verbatim>\<open>cli/cli.c\<close>, on the parser of theory \<open>Cmdline\<close>: the tables of commands, the
  dispatch of a line, scripts, the line editor and the start of a script at boot. What the commands do to the
  machine is the field \<open>exec\<close> of record \<open>shell\<close>, the loaders and the network pump likewise; the
  volumes are read through theory \<open>Loader\<close>'s interface. \<open>None\<close> is an access outside a buffer or a
  computation that does not return. Scripts run scripts: the depth of the nesting is the fuel of \<open>execute_cmd\<close>.
\<close>

section \<open>The tables of commands\<close>

datatype command =
    Do_cd | Do_rm | Do_ls | Do_mkdir | Do_mv | Do_cp | Do_rxfile | Do_set | Do_dump | Do_writemem | Do_memtest
  | Do_meminfo | Do_netinfo | Help | Do_date | Do_tftp_get | Do_tftp_put | Do_load | Do_save | Do_execute
  | Do_softrom | Do_hardrom | Do_loadimage

record cmd_entry_t =
  cname :: cbytes
  min_args :: int
  max_args :: int
  cfunction :: command
  helpme :: string

definition entry :: "string \<Rightarrow> int \<Rightarrow> int \<Rightarrow> command \<Rightarrow> string \<Rightarrow> cmd_entry_t" where
  "entry n lo hi f h = \<lparr>cname = ascii n, min_args = lo, max_args = hi, cfunction = f, helpme = h\<rparr>"

definition builtin_cmd_table :: "cmd_entry_t list" where
  "builtin_cmd_table = [
     entry ''cd'' 1 1 Do_cd ''change directory <dir>'',
     entry ''del'' 1 (int MAXARG) Do_rm ''delete a file'',
     entry ''dir'' 0 1 Do_ls ''list directory [<vol>:]'',
     entry ''ls'' 0 1 Do_ls ''synonym for DIR'',
     entry ''mkdir'' 1 1 Do_mkdir ''make a directory'',
     entry ''mv'' 2 2 Do_mv ''rename a file'',
     entry ''cp'' 2 2 Do_cp ''copy a file'',
     entry ''copy'' 2 2 Do_cp ''copy a file'',
     entry ''rename'' 2 2 Do_mv ''rename a file'',
     entry ''rm'' 1 (int MAXARG) Do_rm ''delete a file'',
     entry ''rxfile'' 1 1 Do_rxfile ''receive file through console UART'',
     entry ''set'' 0 2 Do_set ''show or set environment variables'',
     entry ''dm'' 2 2 Do_dump ''synonym for DUMP'',
     entry ''dump'' 2 2 Do_dump ''dump memory <from> <count>'',
     entry ''wm'' 2 0 Do_writemem ''synonym for WRITEMEM'',
     entry ''writemem'' 2 0 Do_writemem ''write memory <addr> [byte ...]'',
     entry ''testmem'' 0 2 Do_memtest ''test memory [base size]'',
     entry ''memtest'' 0 2 Do_memtest ''test memory [base size]'',
     entry ''meminfo'' 0 0 Do_meminfo ''info on memory state'',
     entry ''netinfo'' 0 0 Do_netinfo ''network statistics'',
     entry ''help'' 0 0 Help ''list this help info'',
     entry ''date'' 0 0 Do_date ''display date from RTC'',
     entry ''tftp'' 1 3 Do_tftp_get ''retrieve file with TFTP'',
     entry ''tftpget'' 1 3 Do_tftp_get ''retrieve file with TFTP'',
     entry ''tftpput'' 1 3 Do_tftp_put ''send file with TFTP'',
     entry ''load'' 2 4 Do_load ''load filename address [start] [length]: load file to memory'',
     entry ''save'' 3 3 Do_save ''save filename address length: save memory to file'',
     entry ''execute'' 1 1 Do_execute ''execute address: jump and execute code at address'']"

definition q40_cmd_table :: "cmd_entry_t list" where
  "q40_cmd_table = [
     entry ''softrom'' 0 1 Do_softrom ''load and boot a Q40 ROM image'',
     entry ''hardrom'' 0 0 Do_hardrom ''reboot into Q40 hardware ROM'',
     entry ''loadimage'' 1 1 Do_loadimage ''load image into Q40 graphics memory'']"

definition kiss_cmd_table :: "cmd_entry_t list" where
  "kiss_cmd_table = [
     entry ''softrom'' 0 1 Do_softrom ''load and boot a KISS ROM image'',
     entry ''hardrom'' 0 0 Do_hardrom ''reboot into KISS hardware ROM'']"

definition mini_cmd_table :: "cmd_entry_t list" where
  "mini_cmd_table = []"

section \<open>Dispatch\<close>

datatype cli_message =
    Perror fresult
  | Cannot_use_drive "u8 list"
  | Takes_exactly "u8 list" int
  | Takes_range "u8 list" int int
  | Limiting nat
  | No_quote_end u8
  | Unknown_command "u8 list"
  | Cannot_load "u8 list" fresult
  | File_size "u8 list" u32
  | File_kind string
  | Cannot_read "u8 list" fresult
  | Script_line "u8 list" "u8 list"
  | Line_too_long
  | No_filesystem
  | No_script "u8 list" string
  | Booting "u8 list"
  | Cancelled
  | Prompt "u8 list"
  | Echo u8
  | Rubout
  | Beep

record ('s, 'f) shell =
  exec :: "command \<Rightarrow> cbytes list \<Rightarrow> 's \<Rightarrow> 's option"
  load_elf :: "cbytes list \<Rightarrow> 'f \<Rightarrow> 's \<Rightarrow> 's option"
  load_m68k :: "cbytes list \<Rightarrow> 'f \<Rightarrow> 's \<Rightarrow> 's option"
  files :: "'s \<Rightarrow> 'f fatfs"
  close_file :: "'f \<Rightarrow> 's \<Rightarrow> 's"
  chdrive :: "cbytes \<Rightarrow> 's \<Rightarrow> fresult \<times> 's"
  opendir_ok :: "cbytes \<Rightarrow> 's \<Rightarrow> bool"
  getcwd :: "'s \<Rightarrow> cbytes"
  pump :: "'s \<Rightarrow> 's"
  say :: "cli_message \<Rightarrow> 's \<Rightarrow> 's"
  target_cmd_table :: "cmd_entry_t list"

text \<open>The character before the end of the only argument; for an empty one it is the byte before the string.\<close>

definition handle_cmd_drive ::
  "('s, 'f) shell \<Rightarrow> cbytes \<Rightarrow> nat list \<Rightarrow> 's \<Rightarrow> (bool \<times> 's) option" where
  "handle_cmd_drive sh buf args s =
     (case args of
        [i] \<Rightarrow> do {
          n \<leftarrow> strlen (drop i buf);
          c \<leftarrow> (if i + unat n = 0 then None else rd buf (i + unat n - 1));
          Some (if c = 0x3A
            then (case chdrive sh (drop i buf) s of (fr, s) \<Rightarrow>
                    (True, if fr \<noteq> FR_OK then say sh (Cannot_use_drive (cstr (drop i buf))) (say sh (Perror fr) s) else s))
            else (False, s)) }
      | _ \<Rightarrow> Some (False, s))"

definition arity_ok :: "cmd_entry_t \<Rightarrow> nat \<Rightarrow> bool" where
  "arity_ok e n \<longleftrightarrow> int n \<ge> min_args e \<and> (max_args e = 0 \<or> int n \<le> max_args e)"

definition usage :: "cmd_entry_t \<Rightarrow> u8 list \<Rightarrow> cli_message" where
  "usage e arg = (if min_args e = max_args e then Takes_exactly arg (min_args e) else Takes_range arg (min_args e) (max_args e))"

fun handle_cmd_table ::
  "('s, 'f) shell \<Rightarrow> cbytes list \<Rightarrow> cmd_entry_t list \<Rightarrow> 's \<Rightarrow> (bool \<times> 's) option" where
  "handle_cmd_table sh argv [] s = Some (False, s)"
| "handle_cmd_table sh argv (e # es) s = do {
     r \<leftarrow> strcasecmp (hd argv) (cname e);
     if r = 0 then
       if arity_ok e (length argv - 1) then map_option (Pair True) (exec sh (cfunction e) (tl argv) s)
       else Some (True, say sh (usage e (cstr (hd argv))) s)
     else handle_cmd_table sh argv es s }"

section \<open>Scripts and programs\<close>

definition LINELEN :: nat where "LINELEN = 2048"

text \<open>The bytes of a script are read one at a time into the buffer; a line break or the end of the file ends a
  line. \<open>run\<close> executes the command in the buffer.\<close>

partial_function (option) script_loop ::
  "('s, 'f) shell \<Rightarrow> (cbytes \<Rightarrow> 's \<Rightarrow> (cbytes \<times> 's) option) \<Rightarrow> cbytes \<Rightarrow> 'f \<Rightarrow> cbytes \<Rightarrow> nat \<Rightarrow> 's \<Rightarrow>
   ('f \<times> cbytes \<times> 's) option" where
  "script_loop sh run name fd buf i s =
     (case f_read (files sh s) fd 1 of (fr, bs, fd) \<Rightarrow>
        let eof = (fr \<noteq> FR_OK \<or> length bs \<noteq> 1);
            c = (if eof then 0x0A else hd bs) in
        if i \<ge> length buf then None
        else if c = 0x0A \<or> c = 0x0D then
          (let buf = buf[i := 0]; s = pump sh s in
           case (if i > 0 \<and> hd buf \<noteq> 0x23 then run buf (say sh (Script_line (cstr name) (cstr buf)) s) else Some (buf, s)) of
             None \<Rightarrow> None
           | Some (buf, s) \<Rightarrow> if eof then Some (fd, buf, s) else script_loop sh run name fd buf 0 s)
        else
          (let buf = buf[i := c] in
           if i + 1 = LINELEN then Some (fd, buf, say sh Line_too_long s)
           else script_loop sh run name fd buf (i + 1) s))"

definition execute_script ::
  "('s, 'f) shell \<Rightarrow> (cbytes \<Rightarrow> 's \<Rightarrow> (cbytes \<times> 's) option) \<Rightarrow> cbytes \<Rightarrow> 'f \<Rightarrow> cbytes \<Rightarrow> 's \<Rightarrow>
   ('f \<times> cbytes \<times> 's) option" where
  "execute_script sh run name fd buf s = do {
     name \<leftarrow> strncpy 40 (replicate 40 0) name;
     let name = name[39 := 0];
     script_loop sh run name fd buf 0 s }"

definition HEADER_EXAMINE_SIZE :: nat where "HEADER_EXAMINE_SIZE = 16"
definition coff_header_bytes :: cbytes where "coff_header_bytes = [0x01, 0x50]"
definition elf_header_bytes :: cbytes where "elf_header_bytes = [0x7F, 0x45, 0x4C, 0x46]"
definition m68k_header_bytes :: cbytes where "m68k_header_bytes = [0x60, 0x1A]"
definition script_header_bytes :: cbytes where "script_header_bytes = map of_char ''#!script''"

definition FR_NO_FILE :: fresult where "FR_NO_FILE = 4"
definition FR_NO_PATH :: fresult where "FR_NO_PATH = 5"

datatype file_type = Elf | Script | Coff | M68k | Unknown

definition sniff :: "cbytes \<Rightarrow> file_type option" where
  "sniff buffer = do {
     elf \<leftarrow> memcmp buffer elf_header_bytes 4;
     script \<leftarrow> strncasecmp 8 buffer script_header_bytes;
     coff \<leftarrow> memcmp buffer coff_header_bytes 2;
     m68k \<leftarrow> memcmp buffer m68k_header_bytes 2;
     Some (if elf = 0 then Elf else if script = 0 then Script else if coff = 0 then Coff
       else if m68k = 0 then M68k else Unknown) }"

definition run_file ::
  "('s, 'f) shell \<Rightarrow> (cbytes \<Rightarrow> 's \<Rightarrow> (cbytes \<times> 's) option) \<Rightarrow> cbytes list \<Rightarrow> 'f \<Rightarrow> file_type \<Rightarrow> cbytes \<Rightarrow> 's \<Rightarrow>
   (cbytes \<times> 's) option" where
  "run_file sh run argv fd t buf s =
     (case t of
        Elf \<Rightarrow> map_option (Pair buf) (load_elf sh argv fd (say sh (File_kind ''ELF.'') s))
      | Script \<Rightarrow> map_option snd (execute_script sh run (hd argv) fd buf (say sh (File_kind ''script'') s))
      | Coff \<Rightarrow> Some (buf, say sh (File_kind ''COFF: unsupported'') s)
      | M68k \<Rightarrow> map_option (Pair buf) (load_m68k sh argv fd (say sh (File_kind ''68K or SYS'') s))
      | Unknown \<Rightarrow> Some (buf, say sh (File_kind ''unknown format.'') s))"

definition handle_cmd_executable ::
  "('s, 'f) shell \<Rightarrow> (cbytes \<Rightarrow> 's \<Rightarrow> (cbytes \<times> 's) option) \<Rightarrow> cbytes list \<Rightarrow> cbytes \<Rightarrow> 's \<Rightarrow>
   (bool \<times> cbytes \<times> 's) option" where
  "handle_cmd_executable sh run argv buf s =
     (case f_open (files sh s) (hd argv) of (fr, fd) \<Rightarrow>
        if fr = FR_NO_FILE \<or> fr = FR_NO_PATH then Some (False, buf, s)
        else if fr \<noteq> FR_OK then Some (True, buf, say sh (Cannot_load (cstr (hd argv)) fr) s)
        else
          (let s = say sh (File_size (cstr (hd argv)) (f_size (files sh s) fd)) s in
           case f_read (files sh s) fd (of_nat HEADER_EXAMINE_SIZE) of (fr, bs, fd) \<Rightarrow>
             let fd = snd (f_lseek (files sh s) fd 0);
                 buffer = bs @ replicate (HEADER_EXAMINE_SIZE - length bs) 0 in
             map_option (\<lambda>(buf, s). (True, buf, close_file sh fd s))
               (if fr = FR_OK then Option.bind (sniff buffer) (\<lambda>t. run_file sh run argv fd t buf s)
                else Some (buf, say sh (Cannot_read (cstr (hd argv)) fr) s))))"

definition handle_any_command ::
  "('s, 'f) shell \<Rightarrow> (cbytes \<Rightarrow> 's \<Rightarrow> (cbytes \<times> 's) option) \<Rightarrow> cbytes \<Rightarrow> nat list \<Rightarrow> 's \<Rightarrow> (cbytes \<times> 's) option" where
  "handle_any_command sh run buf args s =
     (if args = [] then Some (buf, s)
      else do {
        let argv = map (\<lambda>i. drop i buf) args;
        (done, s) \<leftarrow> handle_cmd_drive sh buf args s;
        (done, s) \<leftarrow> (if done then Some (True, s) else handle_cmd_table sh argv (target_cmd_table sh) s);
        (done, s) \<leftarrow> (if done then Some (True, s) else handle_cmd_table sh argv builtin_cmd_table s);
        (done, buf, s) \<leftarrow> (if done then Some (True, buf, s) else handle_cmd_executable sh run argv buf s);
        Some (buf, if done then s else say sh (Unknown_command (cstr (hd argv))) s) })"

fun execute_cmd :: "('s, 'f) shell \<Rightarrow> nat \<Rightarrow> cbytes \<Rightarrow> 's \<Rightarrow> (cbytes \<times> 's) option" where
  "execute_cmd sh 0 buf s = None"
| "execute_cmd sh (Suc n) buf s =
     (case parse_args [] buf 0 of
        None \<Rightarrow> None
      | Some (Unclosed c buf) \<Rightarrow> Some (buf, say sh (No_quote_end c) s)
      | Some (Parsed buf args) \<Rightarrow>
          handle_any_command sh (execute_cmd sh n) buf args
            (if length args = MAXARG then say sh (Limiting MAXARG) s else s))"

declare execute_cmd.simps [simp del]

section \<open>The line editor\<close>

text \<open>One key: the buffer, the length \<open>k\<close> of the line and the state, and whether the key ends the line.
  A negative value is no key.\<close>

fun rubouts :: "('s, 'f) shell \<Rightarrow> nat \<Rightarrow> 's \<Rightarrow> 's" where
  "rubouts sh 0 s = s"
| "rubouts sh (Suc k) s = rubouts sh k (say sh Rubout s)"

definition put_key :: "('s, 'f) shell \<Rightarrow> int \<Rightarrow> cbytes \<Rightarrow> nat \<Rightarrow> 's \<Rightarrow> (int \<times> cbytes \<times> nat \<times> 's) option" where
  "put_key sh ch line k s =
     (if ch \<ge> 0 then
        (if ch \<ge> 32 \<and> ch < 127 then
           (if k < length line then Some (ch, line[k := of_int ch], k + 1, say sh (Echo (of_int ch)) s) else None)
         else if ch = 0x0D \<or> ch = 0x0A then Some (0, line, k, say sh (Echo 0x0A) s)
         else if (ch = 0x08 \<or> ch = 0x7F) \<and> k > 0 then Some (ch, line, k - 1, say sh Rubout s)
         else if ch = 0x18 then Some (ch, line, 0, rubouts sh k s)
         else Some (ch, line, k, say sh Beep s))
      else Some (ch, line, k, s))"

text \<open>The keys are what the serial port has at each turn; waiting for more than these is \<open>None\<close>. The result is the
  line, its length, the keys left and the state.\<close>

fun getline_loop ::
  "('s, 'f) shell \<Rightarrow> nat \<Rightarrow> int list \<Rightarrow> cbytes \<Rightarrow> nat \<Rightarrow> 's \<Rightarrow> (cbytes \<times> nat \<times> int list \<times> 's) option" where
  "getline_loop sh linesize [] line k s = None"
| "getline_loop sh linesize (key # keys) line k s = do {
     (ch, line, k, s) \<leftarrow> put_key sh key line k (pump sh s);
     if ch \<noteq> 0 \<and> int k < int linesize - 1 then getline_loop sh linesize keys line k s
     else if k < length line then Some (line[k := 0], k, keys, s) else None }"

definition getline ::
  "('s, 'f) shell \<Rightarrow> nat \<Rightarrow> int list \<Rightarrow> cbytes \<Rightarrow> 's \<Rightarrow> (cbytes \<times> nat \<times> int list \<times> 's) option" where
  "getline sh linesize keys line s = getline_loop sh linesize keys line 0 s"

section \<open>The interpreter\<close>

definition FF_VOLUMES :: nat where "FF_VOLUMES = 4"

fun try_drives :: "('s, 'f) shell \<Rightarrow> nat list \<Rightarrow> 's \<Rightarrow> 's" where
  "try_drives sh [] s = say sh No_filesystem s"
| "try_drives sh (d # ds) s =
     (let s = snd (chdrive sh [0x30 + of_nat d, 0x3A, 0] s) in if opendir_ok sh [0] s then s else try_drives sh ds s)"

definition select_working_drive :: "('s, 'f) shell \<Rightarrow> 's \<Rightarrow> 's" where
  "select_working_drive sh s = try_drives sh [0 ..< FF_VOLUMES] s"

text \<open>The turns of the waiting loop give the time and the key; the result says whether the wait was cancelled.\<close>

fun wait_cancel :: "('s, 'f) shell \<Rightarrow> u32 \<Rightarrow> (u32 \<times> int) list \<Rightarrow> 's \<Rightarrow> (bool \<times> 's) option" where
  "wait_cancel sh timer [] s = None"
| "wait_cancel sh timer ((tm, key) # turns) s =
     (if timer_expired tm timer then Some (False, s)
      else let s = pump sh s in if cancel_byte key then Some (True, say sh Cancelled s) else wait_cancel sh timer turns s)"

definition AUTOBOOT_FILENAME :: cbytes where "AUTOBOOT_FILENAME = ascii ''boot''"
definition AUTOBOOT_TIMEOUT_MS :: u32 where "AUTOBOOT_TIMEOUT_MS = 500"

definition run_autoexec ::
  "('s, 'f) shell \<Rightarrow> nat \<Rightarrow> u32 \<Rightarrow> (u32 \<times> int) list \<Rightarrow> cbytes \<Rightarrow> cbytes \<Rightarrow> 's \<Rightarrow> (cbytes \<times> 's) option" where
  "run_autoexec sh depth now turns filename buf s =
     (case f_open (files sh s) filename of (fr, fd) \<Rightarrow>
        if fr \<noteq> FR_OK then Some (buf, say sh (No_script (cstr filename) (f_errmsg fr)) s)
        else do {
          let s = say sh (Booting (cstr filename)) (close_file sh fd s);
          (cancelled, s) \<leftarrow> wait_cancel sh (set_timer_ms now AUTOBOOT_TIMEOUT_MS) turns s;
          if cancelled then Some (buf, s)
          else do { buf \<leftarrow> strcpy buf filename; execute_cmd sh depth buf s } })"

text \<open>The endless loop of prompt and command, for as many lines as the keys are enough for.\<close>

fun prompts :: "('s, 'f) shell \<Rightarrow> nat \<Rightarrow> nat \<Rightarrow> int list \<Rightarrow> cbytes \<Rightarrow> 's \<Rightarrow> (cbytes \<times> 's) option" where
  "prompts sh depth 0 keys buf s = Some (buf, s)"
| "prompts sh depth (Suc n) keys buf s = do {
     buf \<leftarrow> strcpy buf (getcwd sh s);
     (buf, k, keys, s) \<leftarrow> getline sh LINELEN keys buf (say sh (Prompt (cstr buf)) s);
     (buf, s) \<leftarrow> execute_cmd sh depth buf s;
     prompts sh depth n keys buf s }"

text \<open>The variable \<open>base\<close> is set by \<open>set_base\<close>. The buffer comes from \<open>malloc\<close> with arbitrary contents \<open>buf\<close>.\<close>

definition command_line_interpreter ::
  "('s, 'f) shell \<Rightarrow> ('s \<Rightarrow> 's) \<Rightarrow> nat \<Rightarrow> u32 \<Rightarrow> (u32 \<times> int) list \<Rightarrow> nat \<Rightarrow> int list \<Rightarrow> cbytes \<Rightarrow> 's \<Rightarrow> (cbytes \<times> 's) option" where
  "command_line_interpreter sh set_base depth now turns n keys buf s = do {
     (buf, s) \<leftarrow> run_autoexec sh depth now turns AUTOBOOT_FILENAME buf (set_base (select_working_drive sh s));
     prompts sh depth n keys buf s }"

definition help_cmd_table :: "cmd_entry_t list \<Rightarrow> (cbytes \<times> string) list" where
  "help_cmd_table es = map (\<lambda>e. (cname e, helpme e)) es"

definition help_cmd :: "('s, 'f) shell \<Rightarrow> (cbytes \<times> string) list" where
  "help_cmd sh = help_cmd_table builtin_cmd_table @ help_cmd_table (target_cmd_table sh)"

section \<open>Lines are dispatched\<close>

definition run_entry :: "('s, 'f) shell \<Rightarrow> cmd_entry_t \<Rightarrow> cbytes list \<Rightarrow> 's \<Rightarrow> 's option" where
  "run_entry sh e argv s =
     (if arity_ok e (length argv - 1) then exec sh (cfunction e) (tl argv) s
      else Some (say sh (usage e (cstr (hd argv))) s))"

definition called :: "u8 list \<Rightarrow> cmd_entry_t \<Rightarrow> bool" where
  "called w e \<longleftrightarrow> map tolower w = map tolower (cstr (cname e))"

lemma tolower_inj_key: "case_key a = case_key b \<longleftrightarrow> map tolower (cstr a) = map tolower (cstr b)"
proof -
  have "case_key s = map uint (map tolower (cstr s)) @ [0]" for s by (simp add: case_key_def)
  then show ?thesis by (metis append_same_eq inj_map_eq_map inj_on_def word_uint_eqI)
qed

lemma table_finds:
  assumes "terminated (hd argv)"
  shows "\<forall>e \<in> set es. terminated (cname e) \<Longrightarrow> handle_cmd_table sh argv es s =
    (case find (called (cstr (hd argv))) es of None \<Rightarrow> Some (False, s)
     | Some e \<Rightarrow> map_option (Pair True) (run_entry sh e argv s))"
proof (induction es)
  case (Cons e es)
  have "strcasecmp (hd argv) (cname e) = Some (lex_cmp (case_key (hd argv)) (case_key (cname e)))"
    using assms Cons.prems by (intro strcasecmp_key) simp_all
  moreover have "lex_cmp (case_key (hd argv)) (case_key (cname e)) = 0 \<longleftrightarrow> called (cstr (hd argv)) e"
    by (simp add: lex_cmp_zero tolower_inj_key called_def)
  ultimately show ?case using Cons by (simp add: run_entry_def)
qed simp

lemma builtin_names: "\<forall>e \<in> set builtin_cmd_table. terminated (cname e)"
  by (simp add: builtin_cmd_table_def entry_def ascii_def terminated_def)

definition command_of :: "('s, 'f) shell \<Rightarrow> u8 list \<Rightarrow> cmd_entry_t option" where
  "command_of sh w = find (called w) (target_cmd_table sh @ builtin_cmd_table)"

lemma find_append: "find P (xs @ ys) = (case find P xs of None \<Rightarrow> find P ys | Some x \<Rightarrow> Some x)"
  by (induction xs) auto

text \<open>Is the line the name of a drive?\<close>

definition drive_line :: "u8 list \<Rightarrow> u8 list list \<Rightarrow> bool" where
  "drive_line w ws \<longleftrightarrow> ws = [] \<and> w \<noteq> [] \<and> last w = 0x3A"

lemma not_drive:
  assumes "args_of buf args = w # ws" "\<forall>i \<in> set args. terminated (drop i buf)" "\<not> drive_line w ws" "w \<noteq> []"
    and "length buf < 2 ^ 32"
  shows "handle_cmd_drive sh buf args s = Some (False, s)"
proof (cases "\<exists>i. args = [i]")
  case True
  then obtain i where i: "args = [i]" by blast
  have t: "terminated (drop i buf)" and w: "cstr (drop i buf) = w" and ws: "ws = []"
    using assms(1,2) i by (auto simp: args_of_def)
  have len: "length w < length (drop i buf)" using length_cstr [OF t] w by simp
  have n: "strlen (drop i buf) = Some (of_nat (length w))" "unat (of_nat (length w) :: u32) = length w"
    using t w len assms(5) by (simp_all add: strlen_eq unat_of_nat)
  have "drop i buf = w @ 0 # drop (Suc (length w)) (drop i buf)" using terminated_split [OF t] w by simp
  then have "drop i buf ! (length w - 1) = last w" using assms(4) by (metis last_conv_nth append_eq_conv_conj nth_append_left diff_less length_greater_0_conv zero_less_one)
  then have "buf ! (i + length w - 1) = last w" using assms(4) len
    by (cases w) (simp_all add: nth_drop)
  moreover have "i + length w - 1 < length buf" using len by simp
  ultimately show ?thesis
    using n assms(3,4) ws by (simp add: handle_cmd_drive_def i rd_def drive_line_def)
next
  case False
  then show ?thesis by (auto simp: handle_cmd_drive_def split: list.splits)
qed

lemma any_command_found:
  assumes "args_of buf args = w # ws" "\<forall>i \<in> set args. terminated (drop i buf)" "\<not> drive_line w ws" "w \<noteq> []"
    and "length buf < 2 ^ 32" "\<forall>e \<in> set (target_cmd_table sh). terminated (cname e)" "command_of sh w = Some e"
  shows "handle_any_command sh run buf args s = map_option (Pair buf) (run_entry sh e (map (\<lambda>i. drop i buf) args) s)"
proof -
  let ?argv = "map (\<lambda>i. drop i buf) args"
  have ne: "args \<noteq> []" using assms(1) by (auto simp: args_of_def)
  have h: "terminated (hd ?argv)" "cstr (hd ?argv) = w" using assms(1,2) ne by (cases args; simp add: args_of_def)+
  note d = not_drive [OF assms(1-5), of sh s] and t = table_finds [OF h(1) assms(6), of sh s]
    and b = table_finds [OF h(1) builtin_names, of sh s]
  show ?thesis
  proof (cases "find (called w) (target_cmd_table sh)")
    case None
    then have "find (called w) builtin_cmd_table = Some e" using assms(7) by (simp add: command_of_def find_append)
    then show ?thesis using ne d t b h None
      by (cases "run_entry sh e ?argv s") (simp_all add: handle_any_command_def Let_def)
  next
    case (Some e')
    then have "e' = e" using assms(7) by (simp add: command_of_def find_append)
    then show ?thesis using ne d t h Some
      by (cases "run_entry sh e ?argv s") (simp_all add: handle_any_command_def Let_def)
  qed
qed

text \<open>C14. Every line ends in the right place. An unclosed quotation only prints a message; an empty line does
  nothing; a line whose first word is the name of a command (of the target first, then built in, in any case),
  with fewer than \<open>MAXARG\<close> words, runs the function of that command on exactly its arguments when their
  number is allowed, and otherwise prints the usage of the command and changes nothing else.\<close>

theorem lines_dispatched:
  assumes "0 \<notin> set line" "length (line @ 0 # post) < 2 ^ 32" "\<forall>e \<in> set (target_cmd_table sh). terminated (cname e)"
  shows "case split_line MAXARG line of
      Inl q \<Rightarrow> \<exists>buf. execute_cmd sh (Suc n) (line @ 0 # post) s = Some (buf, say sh (No_quote_end q) s)
    | Inr [] \<Rightarrow> \<exists>buf. execute_cmd sh (Suc n) (line @ 0 # post) s = Some (buf, s)
    | Inr (w # ws) \<Rightarrow> length (w # ws) < MAXARG \<longrightarrow> w \<noteq> [] \<longrightarrow> \<not> drive_line w ws \<longrightarrow>
        (\<forall>e. command_of sh w = Some e \<longrightarrow>
          (\<exists>buf argv. map cstr argv = w # ws \<and> list_all terminated argv \<and>
            execute_cmd sh (Suc n) (line @ 0 # post) s = map_option (Pair buf)
              (if arity_ok e (length ws) then exec sh (cfunction e) (tl argv) s else Some (say sh (usage e w) s))))"
proof (cases "split_line MAXARG line")
  case (Inl q)
  with line_parsed [OF assms(1), of post] show ?thesis by (auto simp: execute_cmd.simps)
next
  case (Inr ws')
  with line_parsed [OF assms(1), of post] obtain buf idx where
    p: "parse_args [] (line @ 0 # post) 0 = Some (Parsed buf idx)" "args_of buf idx = ws'"
    "length buf = length (line @ 0 # post)" "\<forall>i \<in> set idx. terminated (drop i buf)" by auto
  show ?thesis
  proof (cases ws')
    case Nil
    then have "idx = []" using p(2) by (simp add: args_of_def)
    then show ?thesis using Inr Nil p(1) by (simp add: handle_any_command_def MAXARG_def execute_cmd.simps)
  next
    case (Cons w ws)
    have len: "length idx = length (w # ws)" using p(2) Cons unfolding args_of_def by (metis length_map)
    have words: "args_of buf idx = w # ws" using p(2) Cons by simp
    have b: "length buf < 2 ^ 32" using p(3) assms(2) by simp
    let ?argv = "map (\<lambda>i. drop i buf) idx"
    have "\<exists>buf argv. map cstr argv = w # ws \<and> list_all terminated argv \<and>
        execute_cmd sh (Suc n) (line @ 0 # post) s = map_option (Pair buf)
          (if arity_ok e (length ws) then exec sh (cfunction e) (tl argv) s else Some (say sh (usage e w) s))"
      if few: "length (w # ws) < MAXARG" and w: "w \<noteq> []" and d: "\<not> drive_line w ws" and e: "command_of sh w = Some e" for e
    proof (intro exI conjI)
      have c: "map cstr ?argv = w # ws" using words by (simp add: args_of_def comp_def)
      show "map cstr ?argv = w # ws" by (rule c)
      show "list_all terminated ?argv" using p(4) by (simp add: list_all_iff)
      have "cstr (hd ?argv) = w" "length ?argv - 1 = length ws" using c len by (cases idx; simp)+
      then show "execute_cmd sh (Suc n) (line @ 0 # post) s = map_option (Pair buf)
          (if arity_ok e (length ws) then exec sh (cfunction e) (tl ?argv) s else Some (say sh (usage e w) s))"
        using p(1) few len any_command_found [OF words p(4) d w b assms(3) e, of "execute_cmd sh n" s]
        by (simp add: run_entry_def execute_cmd.simps)
    qed
    then show ?thesis using Inr Cons by simp
  qed
qed

text \<open>A shell that records the commands and the messages.\<close>

datatype event_log = Ran command "u8 list list" | Said cli_message

definition log_shell :: "'f fatfs \<Rightarrow> (event_log list, 'f) shell" where
  "log_shell fs = \<lparr>exec = (\<lambda>c args s. Some (s @ [Ran c (map cstr args)])), load_elf = (\<lambda>argv f s. Some s),
     load_m68k = (\<lambda>argv f s. Some s), files = (\<lambda>s. fs), close_file = (\<lambda>f s. s), chdrive = (\<lambda>d s. (FR_OK, s)),
     opendir_ok = (\<lambda>d s. True), getcwd = (\<lambda>s. [0]), pump = (\<lambda>s. s), say = (\<lambda>m s. s @ [Said m]),
     target_cmd_table = q40_cmd_table\<rparr>"

lemma log_shell_simps [simp]:
  "exec (log_shell fs) c args s = Some (s @ [Ran c (map cstr args)])" "say (log_shell fs) m s = s @ [Said m]"
  "pump (log_shell fs) s = s" "files (log_shell fs) s = fs" "target_cmd_table (log_shell fs) = q40_cmd_table"
  by (simp_all add: log_shell_def)

text \<open>The line \<open>RM a "b c"\<close>, and the same command without arguments.\<close>

definition rm_word :: "u8 list" where "rm_word = [0x52, 0x4D]"
definition sample_line :: "u8 list" where "sample_line = rm_word @ [0x20, 0x61, 0x20, 0x22, 0x62, 0x20, 0x63, 0x22]"

lemma sample_words:
  "split_line MAXARG sample_line = Inr [rm_word, [0x61], [0x62, 0x20, 0x63]]"
  "split_line MAXARG rm_word = Inr [rm_word]"
  by code_simp+

lemma sample_command: "command_of (log_shell fs) rm_word = Some (entry ''rm'' 1 40 Do_rm ''delete a file'')"
  by (simp add: command_of_def q40_cmd_table_def builtin_cmd_table_def called_def entry_def ascii_def tolower_def
      rm_word_def MAXARG_def)

lemma q40_names: "\<forall>e \<in> set (target_cmd_table (log_shell fs)). terminated (cname e)"
  by (simp add: q40_cmd_table_def entry_def ascii_def terminated_def)

text \<open>A volume without any file.\<close>

definition no_files :: "unit fatfs" where
  "no_files = \<lparr>f_lseek = (\<lambda>f off. (FR_OK, f)), f_read = (\<lambda>f n. (FR_OK, [], f)), f_size = (\<lambda>f. 0), f_open = (\<lambda>name. (FR_NO_FILE, ()))\<rparr>"

theorem lines_dispatched_witness:
  "(\<exists>buf. execute_cmd (log_shell no_files) (Suc 0) (sample_line @ 0 # []) [] = Some (buf, [Ran Do_rm [[0x61], [0x62, 0x20, 0x63]]])) \<and>
   (\<exists>buf. execute_cmd (log_shell no_files) (Suc 0) (rm_word @ 0 # []) [] = Some (buf, [Said (Takes_range rm_word 1 40)]))"
proof
  have l: "0 \<notin> set sample_line" "length (sample_line @ 0 # []) < 2 ^ 32" by (simp_all add: sample_line_def rm_word_def)
  have l': "0 \<notin> set rm_word" "length (rm_word @ 0 # []) < 2 ^ 32" "rm_word \<noteq> []" "last rm_word \<noteq> 0x3A" by (simp_all add: rm_word_def)
  let ?e = "entry ''rm'' 1 40 Do_rm ''delete a file''"
  have few: "length [rm_word, [0x61], [0x62, 0x20, 0x63]] < MAXARG" "length [rm_word] < MAXARG" by (simp_all add: MAXARG_def)
  have d: "\<not> drive_line rm_word [[0x61], [0x62, 0x20, 0x63]]" "\<not> drive_line rm_word []" using l' by (simp_all add: drive_line_def)
  have ok: "arity_ok ?e (length [[0x61], [0x62, 0x20, 0x63 :: u8]])" "\<not> arity_ok ?e (length ([] :: u8 list list))"
    "cfunction ?e = Do_rm" "usage ?e rm_word = Takes_range rm_word 1 40" by (simp_all add: arity_ok_def entry_def usage_def)
  show "\<exists>buf. execute_cmd (log_shell no_files) (Suc 0) (sample_line @ 0 # []) [] = Some (buf, [Ran Do_rm [[0x61], [0x62, 0x20, 0x63]]])"
    using lines_dispatched [OF l q40_names [of no_files], of 0 "[]", unfolded sample_words, simplified sum.case list.case,
      rule_format, OF few(1) l'(3) d(1) sample_command [of no_files]] ok by auto
  show "\<exists>buf. execute_cmd (log_shell no_files) (Suc 0) (rm_word @ 0 # []) [] = Some (buf, [Said (Takes_range rm_word 1 40)])"
    using lines_dispatched [OF l'(1,2) q40_names [of no_files], of 0 "[]", unfolded sample_words, simplified sum.case list.case,
      rule_format, OF few(2) l'(3) d(2) sample_command [of no_files]] ok by auto
qed

end
