(* ===== verification/Cli_Lines.thy ===== *)
theory Cli_Lines
  imports Cli
begin

text \<open>
  What the line editor and the script reader of theory \<open>Cli\<close> hand to the interpreter: the line typed, as an
  editor on strings gives it, and the lines of the script in turn.
\<close>

section \<open>The line editor\<close>

text \<open>The reference: printable keys append, backspace and delete drop the last character, control-X drops all,
  and a line break, a null or the length \<open>m\<close> end the line.\<close>

definition edited :: "int \<Rightarrow> u8 list \<Rightarrow> u8 list" where
  "edited c w =
     (if 32 \<le> c \<and> c < 127 then w @ [of_int c]
      else if c = 0x08 \<or> c = 0x7F then butlast w
      else if c = 0x18 then [] else w)"

fun edit :: "nat \<Rightarrow> int list \<Rightarrow> u8 list \<Rightarrow> (u8 list \<times> int list) option" where
  "edit m [] w = None"
| "edit m (c # cs) w =
     (if c = 0 \<or> c = 0x0A \<or> c = 0x0D \<or> length (edited c w) \<ge> m then Some (edited c w, cs) else edit m cs (edited c w))"

lemma put_key_edits:
  assumes "take k line = w" "k < length line"
  shows "\<exists>ch line' s'. put_key sh c line k s = Some (ch, line', length (edited c w), s') \<and>
    take (length (edited c w)) line' = edited c w \<and> length line' = length line \<and> length (edited c w) \<le> Suc k \<and>
    (ch = 0 \<longleftrightarrow> c = 0 \<or> c = 0x0A \<or> c = 0x0D)"
proof -
  have k: "length w = k" using assms by auto
  have b: "butlast w = take (k - 1) line" using assms by (auto simp: butlast_take)
  consider "32 \<le> c \<and> c < 127" | "c = 0x0D \<or> c = 0x0A" | "(c = 8 \<or> c = 0x7F) \<and> 0 < k" | "(c = 8 \<or> c = 0x7F) \<and> k = 0"
    | "c = 0x18" | "c < 0" | "0 \<le> c \<and> c < 32 \<and> c \<notin> {8, 0x0A, 0x0D, 0x18} \<or> c > 0x7F" by force
  then show ?thesis
  proof cases
    case 1
    then show ?thesis using assms k by (auto simp: put_key_def edited_def take_Suc_conv_app_nth)
  qed (use assms k b in \<open>auto simp: put_key_def edited_def\<close>)
qed

lemma getline_loop_edits:
  "take k line = w \<Longrightarrow> int k < int (length line) - 1 \<Longrightarrow>
   (case edit (length line - 1) keys w of
      None \<Rightarrow> getline_loop sh (length line) keys line k s = None
    | Some (v, ks) \<Rightarrow> \<exists>line' s'. getline_loop sh (length line) keys line k s = Some (line', length v, ks, s') \<and>
        length line' = length line \<and> length v < length line \<and> take (Suc (length v)) line' = v @ [0])"
proof (induction keys arbitrary: k line w s)
  case (Cons c keys)
  let ?v = "edited c w"
  have "k < length line" using Cons.prems(2) by linarith
  from put_key_edits [OF Cons.prems(1) this, of sh c "pump sh s"] obtain ch line' s' where
    p: "put_key sh c line k (pump sh s) = Some (ch, line', length ?v, s')" "take (length ?v) line' = ?v"
    "length line' = length line" "length ?v \<le> Suc k" "ch = 0 \<longleftrightarrow> c = 0 \<or> c = 0x0A \<or> c = 0x0D" by blast
  have v: "length ?v < length line" using p(4) Cons.prems(2) by linarith
  show ?case
  proof (cases "ch \<noteq> 0 \<and> int (length ?v) < int (length line) - 1")
    case True
    then have m: "\<not> length ?v \<ge> length line - 1" by linarith
    from True have "int (length ?v) < int (length line') - 1" using p(3) by simp
    note ih = Cons.IH [OF p(2) this, of s', unfolded p(3)]
    have "getline_loop sh (length line) (c # keys) line k s = getline_loop sh (length line) keys line' (length ?v) s'"
      using p(1) True by simp
    moreover have "edit (length line - 1) (c # keys) w = edit (length line - 1) keys ?v" using p(5) True m by simp
    ultimately show ?thesis using ih by (simp only:)
  next
    case False
    then have "c = 0 \<or> c = 0x0A \<or> c = 0x0D \<or> length ?v \<ge> length line - 1" using p(5) by linarith
    then have "edit (length line - 1) (c # keys) w = Some (?v, keys)" by (simp only: edit.simps if_True simp_thms)
    moreover have "getline_loop sh (length line) (c # keys) line k s = Some (line'[length ?v := 0], length ?v, keys, s')"
      using p(1,3) v by (simp add: if_not_P [OF False] del: if_True)
    ultimately show ?thesis using p(2,3) v by (simp add: take_Suc_conv_app_nth)
  qed
qed simp

lemma edit_printable:
  "edit m keys w = Some (v, ks) \<Longrightarrow> \<forall>c \<in> set w. isprint c \<Longrightarrow> \<forall>c \<in> set v. isprint c"
proof (induction m keys w rule: edit.induct)
  case (2 m c cs w)
  have "\<forall>x \<in> set (edited c w). isprint x"
  proof (cases "32 \<le> c \<and> c < 127")
    case True
    then have "uint (of_int c :: u8) = c" by (simp add: uint_word_of_int)
    then have "isprint (of_int c)" using True by (simp add: isprint_def word_le_def)
    then show ?thesis using "2.prems"(2) True by (auto simp: edited_def)
  next
    case False
    then show ?thesis using "2.prems"(2) by (auto simp: edited_def dest: in_set_butlastD)
  qed
  with 2 show ?case by (auto split: if_splits)
qed simp

text \<open>C37. The line typed is always a proper command line. For any keys, the line editor stays inside its buffer,
  and what it leaves there is a C string of printable characters shorter than the buffer, the one that the
  editor on strings gives; it waits exactly as long as that one.\<close>

theorem line_editor_typed:
  assumes "2 \<le> length line"
  shows "case edit (length line - 1) keys [] of
      None \<Rightarrow> getline sh (length line) keys line s = None
    | Some (w, ks) \<Rightarrow> \<exists>line' s'. getline sh (length line) keys line s = Some (line', length w, ks, s') \<and>
        length line' = length line \<and> length w < length line \<and> take (Suc (length w)) line' = w @ [0] \<and>
        (\<forall>c \<in> set w. isprint c)"
  using getline_loop_edits [where k = 0 and w = "[]" and line = line and keys = keys and sh = sh and s = s] edit_printable [of "length line - 1" keys "[]"] assms
  by (fastforce simp: getline_def split: option.splits)

theorem line_editor_typed_witness:
  "\<exists>line' s'. getline (log_shell no_files) 4 [0x61, 0x62, -1, 8, 0x63, 0x0D, 0x64] [9, 9, 9, 9] [] = Some (line', 2, [0x64], s') \<and>
     take 3 line' = [0x61, 0x63, 0]"
proof -
  have "edit (length [9, 9, 9, 9 :: u8] - 1) [0x61, 0x62, -1, 8, 0x63, 0x0D, 0x64] [] = Some ([0x61, 0x63], [0x64])"
    by (simp add: edited_def)
  with line_editor_typed [where line = "[9, 9, 9, 9]" and keys = "[0x61, 0x62, -1, 8, 0x63, 0x0D, 0x64]" and sh = "log_shell no_files" and s = "[]"]
  show ?thesis by (auto simp: eval_nat_numeral)
qed

section \<open>Scripts\<close>

definition line_break :: "u8 \<Rightarrow> bool" where "line_break c \<longleftrightarrow> c = 0x0A \<or> c = 0x0D"

text \<open>The lines of a text, behind the part \<open>cur\<close> of the first one.\<close>

fun script_lines :: "u8 list \<Rightarrow> u8 list \<Rightarrow> u8 list list" where
  "script_lines cur [] = [cur]"
| "script_lines cur (c # cs) = (if line_break c then cur # script_lines [] cs else script_lines (cur @ [c]) cs)"

text \<open>The file in the reader's hands has this content, whatever the commands do meanwhile.\<close>

definition reads_script :: "('s, 'f) shell \<Rightarrow> ('f \<Rightarrow> nat) \<Rightarrow> u8 list \<Rightarrow> bool" where
  "reads_script sh pos content \<longleftrightarrow> (\<forall>s fd n. \<exists>fd'.
     f_read (files sh s) fd n = (FR_OK, take (unat n) (drop (pos fd) content), fd') \<and>
     pos fd' = pos fd + length (take (unat n) (drop (pos fd) content)))"

lemma read_byte:
  assumes "reads_script sh pos content"
  shows "\<exists>fd'. f_read (files sh s) fd 1 = (FR_OK, take 1 (drop (pos fd) content), fd') \<and>
    pos fd' = pos fd + length (take 1 (drop (pos fd) content))"
  using assms [unfolded reads_script_def, rule_format, of s fd 1] by simp

text \<open>Running the line in a buffer is the step \<open>step\<close> on the line, and leaves a buffer of the same size.\<close>

definition computes :: "(cbytes \<Rightarrow> 's \<Rightarrow> (cbytes \<times> 's) option) \<Rightarrow> (u8 list \<Rightarrow> 's \<Rightarrow> 's option) \<Rightarrow> bool" where
  "computes run step \<longleftrightarrow> (\<forall>line post s. 0 \<notin> set line \<longrightarrow>
     (case step line s of
        None \<Rightarrow> run (line @ 0 # post) s = None
      | Some s' \<Rightarrow> \<exists>buf. run (line @ 0 # post) s = Some (buf, s') \<and> length buf = length (line @ 0 # post)))"

fun run_lines ::
  "('s, 'f) shell \<Rightarrow> u8 list \<Rightarrow> (u8 list \<Rightarrow> 's \<Rightarrow> 's option) \<Rightarrow> u8 list list \<Rightarrow> 's \<Rightarrow> 's option" where
  "run_lines sh name step [] s = Some s"
| "run_lines sh name step (l # ls) s =
     (let s = pump sh s in
      case (if l \<noteq> [] \<and> hd l \<noteq> 0x23 then step l (say sh (Script_line name l) s) else Some s) of
        None \<Rightarrow> None
      | Some s \<Rightarrow> run_lines sh name step ls s)"

text \<open>A finished line is run, and the buffer keeps its size.\<close>

lemma line_runs:
  assumes "computes run step" "0 \<notin> set cur" "buf = cur @ tail" "tail \<noteq> []"
  shows "(case (if cur \<noteq> [] \<and> hd cur \<noteq> 0x23 then step cur (f cur) else Some s) of
      None \<Rightarrow> (if length cur > 0 \<and> hd (buf[length cur := 0]) \<noteq> 0x23
          then run (buf[length cur := 0]) (f (cstr (buf[length cur := 0]))) else Some (buf[length cur := 0], s)) = None
    | Some s' \<Rightarrow> \<exists>buf'. (if length cur > 0 \<and> hd (buf[length cur := 0]) \<noteq> 0x23
          then run (buf[length cur := 0]) (f (cstr (buf[length cur := 0]))) else Some (buf[length cur := 0], s)) = Some (buf', s') \<and>
        length buf' = length buf)"
proof -
  obtain x xs where t: "tail = x # xs" using assms(4) by (cases tail) auto
  have b: "buf[length cur := 0] = cur @ 0 # xs" using assms(3) t by (simp add: list_update_append)
  have l: "length buf = length (cur @ 0 # xs)" using assms(3) t by simp
  have c: "cstr (cur @ 0 # xs) = cur" using assms(2) by simp
  have r: "case step cur (f cur) of None \<Rightarrow> run (cur @ 0 # xs) (f cur) = None
      | Some s' \<Rightarrow> \<exists>buf. run (cur @ 0 # xs) (f cur) = Some (buf, s') \<and> length buf = length (cur @ 0 # xs)"
    using assms(1,2) by (simp add: computes_def)
  show ?thesis
  proof (cases "cur \<noteq> [] \<and> hd cur \<noteq> 0x23")
    case True
    then show ?thesis unfolding b c l using r by simp
  next
    case False
    then show ?thesis unfolding b l by auto
  qed
qed

lemma script_loop_runs:
  assumes "reads_script sh pos content" "computes run step"
  shows "drop (pos fd) content = rest \<Longrightarrow> length buf = LINELEN \<Longrightarrow> take (length cur) buf = cur \<Longrightarrow> 0 \<notin> set (cur @ rest) \<Longrightarrow>
    \<forall>l \<in> set (script_lines cur rest). length l < LINELEN \<Longrightarrow>
    map_option (\<lambda>(_, _, s). s) (script_loop sh run name fd buf (length cur) s) =
      run_lines sh (cstr name) step (script_lines cur rest) s"
proof (induction rest arbitrary: fd buf cur s)
  case Nil
  obtain fd' where r: "f_read (files sh s) fd 1 = (FR_OK, [], fd')"
    using read_byte [OF assms(1), of s fd] Nil.prems(1) by auto
  have cur: "length cur < length buf" "buf = cur @ drop (length cur) buf"
    using Nil.prems by (simp_all) (metis append_take_drop_id)
  note line = line_runs [OF assms(2), of cur buf "drop (length cur) buf" "\<lambda>l. say sh (Script_line (cstr name) l) (pump sh s)" "pump sh s"]
  show ?case
    using line Nil.prems(4) cur
    by (subst script_loop.simps) (auto simp: r Let_def split: option.splits if_splits)
next
  case (Cons c rest)
  obtain fd' where r: "f_read (files sh s) fd 1 = (FR_OK, [c], fd')" "pos fd' = Suc (pos fd)"
    using read_byte [OF assms(1), of s fd] Cons.prems(1) by auto
  have d: "drop (pos fd') content = rest" using Cons.prems(1) unfolding r(2) by (metis drop_Suc list.sel(3) tl_drop)
  have "cur \<in> set (script_lines cur (c # rest)) \<or> \<not> line_break c" by simp
  show ?case
  proof (cases "line_break c")
    case True
    have l: "length cur < length buf" using Cons.prems(2,5) True by simp
    have b: "buf = cur @ drop (length cur) buf" using Cons.prems(3) by (metis append_take_drop_id)
    let ?s = "pump sh s"
    let ?r = "if length cur > 0 \<and> hd (buf[length cur := 0]) \<noteq> 0x23
      then run (buf[length cur := 0]) (say sh (Script_line (cstr name) (cstr (buf[length cur := 0]))) ?s)
      else Some (buf[length cur := 0], ?s)"
    let ?t = "if cur \<noteq> [] \<and> hd cur \<noteq> 0x23 then step cur (say sh (Script_line (cstr name) cur) ?s) else Some ?s"
    have line: "case ?t of None \<Rightarrow> ?r = None | Some s' \<Rightarrow> \<exists>buf'. ?r = Some (buf', s') \<and> length buf' = length buf"
      using line_runs [OF assms(2), of cur buf "drop (length cur) buf" "\<lambda>l. say sh (Script_line (cstr name) l) ?s" ?s] Cons.prems(4) b l
      by simp
    have step: "script_loop sh run name fd buf (length cur) s =
        (case ?r of None \<Rightarrow> None | Some (buf, s) \<Rightarrow> script_loop sh run name fd' buf 0 s)"
      using True l by (subst script_loop.simps) (auto simp: r line_break_def Let_def split: option.split)
    show ?thesis
    proof (cases ?t)
      case None
      then have "?r = None" using line by simp
      then show ?thesis using None True unfolding step by (simp add: Let_def)
    next
      case (Some s')
      then obtain buf' where b': "?r = Some (buf', s')" "length buf' = LINELEN" using line Cons.prems(2) by auto
      have "map_option (\<lambda>(_, _, s). s) (script_loop sh run name fd' buf' (length ([] :: u8 list)) s') =
          run_lines sh (cstr name) step (script_lines [] rest) s'"
        by (rule Cons.IH) (use d b'(2) Cons.prems(4,5) True in auto)
      then show ?thesis using Some True unfolding step b'(1) by (simp add: Let_def)
    qed
  next
    case False
    have len: "length (cur @ [c]) < LINELEN"
    proof -
      have "\<exists>l \<in> set (script_lines x r). length x \<le> length l" for x r
      proof (induction x r rule: script_lines.induct)
        case (2 cur c cs)
        then show ?case by (cases "line_break c") (auto dest: Suc_leD)
      qed simp
      then obtain l where "l \<in> set (script_lines (cur @ [c]) rest)" "length (cur @ [c]) \<le> length l" by blast
      then show ?thesis using Cons.prems(5) False by fastforce
    qed
    let ?buf = "buf[length cur := c]"
    have "script_loop sh run name fd buf (length cur) s = script_loop sh run name fd' ?buf (length (cur @ [c])) s"
      using False len Cons.prems(2) by (subst script_loop.simps) (simp add: r line_break_def Let_def)
    moreover have "map_option (\<lambda>(_, _, s). s) (script_loop sh run name fd' ?buf (length (cur @ [c])) s) =
        run_lines sh (cstr name) step (script_lines (cur @ [c]) rest) s"
      by (rule Cons.IH) (use d Cons.prems len False in \<open>auto simp: take_Suc_conv_app_nth\<close>)
    ultimately show ?thesis using False by simp
  qed
qed

text \<open>A script is run line by line: for a script of any number of lines that fit the buffer, whatever
  its commands do, the reader hands every line that is neither empty nor a comment to the interpreter, in
  order, announcing it, and it stops at the end of the file.\<close>

theorem script_runs:
  assumes "reads_script sh pos content" "computes run step" "pos fd = 0" "0 \<notin> set content"
    and "\<forall>l \<in> set (script_lines [] content). length l < LINELEN" "length buf = LINELEN"
    and "strncpy 40 (replicate 40 0) name = Some nm"
  shows "map_option (\<lambda>(_, _, s). s) (execute_script sh run name fd buf s) =
    run_lines sh (cstr (nm[39 := 0])) step (script_lines [] content) s"
  using script_loop_runs [OF assms(1,2), of fd content buf "[]" "nm[39 := 0]" s] assms(3-)
  by (simp add: execute_script_def)

text \<open>A file is its contents and the position.\<close>

definition script_fs :: "u8 list \<Rightarrow> nat fatfs" where
  "script_fs c = \<lparr>f_lseek = (\<lambda>i off. (FR_OK, unat off)),
     f_read = (\<lambda>i n. (FR_OK, take (unat n) (drop i c), i + length (take (unat n) (drop i c)))),
     f_size = (\<lambda>i. of_nat (length c)), f_open = (\<lambda>name. (FR_OK, 0))\<rparr>"

theorem script_runs_witness:
  "map_option (\<lambda>(_, _, s). s) (execute_script (log_shell (script_fs [0x61, 0x0A, 0x23, 0x0A, 0x62]))
      (\<lambda>buf s. Some (buf, s @ [Ran Do_ls [cstr buf]])) [0x73, 0] 0 (replicate LINELEN 0) []) =
    Some [Said (Script_line [0x73] [0x61]), Ran Do_ls [[0x61]], Said (Script_line [0x73] [0x62]), Ran Do_ls [[0x62]]]"
proof -
  let ?c = "[0x61, 0x0A, 0x23, 0x0A, 0x62] :: u8 list"
  have r: "reads_script (log_shell (script_fs ?c)) id ?c"
    by (simp add: reads_script_def script_fs_def)
  have run: "computes (\<lambda>buf s. Some (buf, s @ [Ran Do_ls [cstr buf]])) (\<lambda>l s. Some (s @ [Ran Do_ls [l]]))"
    by (simp add: computes_def)
  have l: "script_lines [] ?c = [[0x61], [0x23], [0x62]]" by (simp add: line_break_def)
  have "strncpy 40 (replicate 40 0) [0x73, 0] = Some (0x73 # replicate 39 0)" by code_simp
  moreover have "cstr ((0x73 # replicate 39 0)[39 := 0]) = [0x73]" by code_simp
  ultimately show ?thesis
    using script_runs [OF r run, of 0 "replicate LINELEN 0" "[0x73, 0]" "0x73 # replicate 39 0" "[]"]
    unfolding l by (simp add: LINELEN_def)
qed

end
