(* ===== verification/CliFs.thy ===== *)
theory CliFs
  imports FileIO Qsort Uart Tinyalloc
begin

text \<open>
  The file commands of \<^verbatim>\<open>cli/cli_fs.c\<close> and the receiving of a file through the serial port. The volumes
  are a parameter; \<open>None\<close> is an access outside an array or a loop that never ends. The arrays of
  \<open>do_ls\<close> come from \<open>malloc\<close>, which halts the machine instead of failing; the entries are a list, the pointers
  to them their indices.
\<close>

section \<open>Directories and names\<close>

definition do_cd :: "('v, 'f, 'd) volumes \<Rightarrow> cbytes \<Rightarrow> 'v \<Rightarrow> message list \<times> 'v" where
  "do_cd vol path v = (case v_chdir vol path v of (fr, v) \<Rightarrow> (if fr \<noteq> FR_OK then [Failed [] [] fr] else [], v))"

definition do_mkdir :: "('v, 'f, 'd) volumes \<Rightarrow> cbytes \<Rightarrow> 'v \<Rightarrow> message list \<times> 'v" where
  "do_mkdir vol path v =
     (case v_mkdir vol path v of (fr, v) \<Rightarrow> (if fr \<noteq> FR_OK then [Failed ''f_mkdir'' [path] fr] else [], v))"

definition do_mv :: "('v, 'f, 'd) volumes \<Rightarrow> cbytes \<Rightarrow> cbytes \<Rightarrow> 'v \<Rightarrow> message list \<times> 'v" where
  "do_mv vol old new v =
     (case v_rename vol old new v of (fr, v) \<Rightarrow> (if fr \<noteq> FR_OK then [Failed ''f_rename'' [old, new] fr] else [], v))"

section \<open>Copying\<close>

definition COPY_BUFFER_SIZE :: nat where "COPY_BUFFER_SIZE = 65536"

partial_function (option) cp_loop ::
  "('v, 'f, 'd) volumes \<Rightarrow> cbytes \<Rightarrow> cbytes \<Rightarrow> 'f \<Rightarrow> 'f \<Rightarrow> 'v \<Rightarrow> (message list \<times> 'f \<times> 'f \<times> 'v) option" where
  "cp_loop vol a b src dst v =
     (case v_read vol src (of_nat COPY_BUFFER_SIZE) v of (fr, bs, src) \<Rightarrow>
        if fr \<noteq> FR_OK then Some ([Failed ''f_read'' [a] fr], src, dst, v)
        else
          (case (if length bs > 0 then v_write vol dst bs v else (FR_OK, of_nat (length bs), dst, v)) of (fr, n, dst, v) \<Rightarrow>
             if fr \<noteq> FR_OK \<or> of_nat (length bs) \<noteq> n then Some ([Failed ''f_write'' [b] fr], src, dst, v)
             else if length bs < COPY_BUFFER_SIZE then Some ([], src, dst, v)
             else cp_loop vol a b src dst v))"

definition close_noted :: "('v, 'f, 'd) volumes \<Rightarrow> 'f \<Rightarrow> message list \<times> 'v \<Rightarrow> message list \<times> 'v" where
  "close_noted vol f mv = (case v_close vol f (snd mv) of (fr, v) \<Rightarrow>
     (if fr \<noteq> FR_OK then fst mv @ [Failed [] [] fr] else fst mv, v))"

definition do_cp :: "('v, 'f, 'd) volumes \<Rightarrow> cbytes \<Rightarrow> cbytes \<Rightarrow> 'v \<Rightarrow> (message list \<times> 'v) option" where
  "do_cp vol a b v =
     (case v_open vol a FA_READ v of (fr, src, v) \<Rightarrow>
        if fr \<noteq> FR_OK then Some ([Failed ''f_open'' [a] fr], v)
        else
          (case v_open vol b (FA_WRITE OR FA_CREATE_ALWAYS) v of (fr, dst, v) \<Rightarrow>
             if fr \<noteq> FR_OK then Some ([Failed ''f_open'' [b] fr], snd (v_close vol src v))
             else map_option (\<lambda>(ms, src, dst, v). close_noted vol dst (close_noted vol src (ms, v)))
               (cp_loop vol a b src dst v)))"

section \<open>Removing\<close>

text \<open>Does a name have characters at all?\<close>

definition named :: "cbytes \<Rightarrow> bool" where "named s \<longleftrightarrow> s \<noteq> [] \<and> hd s \<noteq> 0"

partial_function (option) rm_loop ::
  "('v, 'f, 'd) volumes \<Rightarrow> cbytes \<Rightarrow> message list \<times> 'v \<Rightarrow> (message list \<times> 'v) option" where
  "rm_loop vol pat mv =
     (case v_findfirst vol [0] pat (snd mv) of (fr, fi) \<Rightarrow>
        if fr = FR_OK \<and> named (fname fi)
        then rm_loop vol pat (fst mv @ [Told ''Deleting'' [fname fi]], snd (v_unlink vol (fname fi) (snd mv)))
        else Some mv)"

fun do_rm :: "('v, 'f, 'd) volumes \<Rightarrow> cbytes list \<Rightarrow> message list \<times> 'v \<Rightarrow> (message list \<times> 'v) option" where
  "do_rm vol [] mv = Some mv"
| "do_rm vol (a # as) mv = Option.bind (rm_loop vol a mv) (do_rm vol as)"

section \<open>Listing\<close>

definition ls_sort_name :: "filinfo list \<Rightarrow> nat \<Rightarrow> nat \<Rightarrow> int" where
  "ls_sort_name es a b = (case strcasecmp (fname (es ! a)) (fname (es ! b)) of None \<Rightarrow> 0 | Some r \<Rightarrow> r)"

text \<open>The entries of the directory are read into an array of \<open>len\<close> elements, which is doubled when it is full.\<close>

partial_function (option) ls_read ::
  "('v, 'f, 'd) volumes \<Rightarrow> 'v \<Rightarrow> nat \<Rightarrow> 'd \<Rightarrow> filinfo list \<Rightarrow> (filinfo list \<times> fresult \<times> 'd) option" where
  "ls_read vol v len d es =
     (let len = (if length es = len then len * 2 else len) in
      if length es \<ge> len then None
      else
        (case v_readdir vol d v of (fr, fi, d) \<Rightarrow>
           if fr \<noteq> FR_OK then Some (es, fr, d)
           else if \<not> named (fname fi) then Some (es, FR_OK, d)
           else ls_read vol v len d (es @ [fi])))"

definition ls_entry :: "filinfo \<Rightarrow> message" where
  "ls_entry e = Entry (if fattrib e AND AM_DIR \<noteq> 0 then None else Some (fsize e))
     (1980 + uint (drop_bit 9 (fdate e) AND 0x7F)) (uint (drop_bit 5 (fdate e) AND 0xF)) (uint (fdate e AND 0x1F))
     (uint (drop_bit 11 (ftime e))) (uint (drop_bit 5 (ftime e) AND 0x3F)) (fname e)"

fun ls_used :: "u32 \<Rightarrow> filinfo list \<Rightarrow> u32" where
  "ls_used u [] = u"
| "ls_used u (e # es) = ls_used (if fattrib e AND AM_DIR \<noteq> 0 then u else u + fsize e) es"

definition ls_totals :: "u32 \<Rightarrow> u32 \<Rightarrow> u16 \<Rightarrow> message" where
  "ls_totals used free_clusters cluster_sectors =
     (let csize = 512 * ucast cluster_sectors;
          free_space = drop_bit 9 csize * free_clusters;
          free_space = drop_bit 7 (drop_bit 4 free_space * 10);
          used = drop_bit 6 (drop_bit 4 used * 10)
      in if used > 9000 then Totals (drop_bit 10 used div 10) (drop_bit 10 used mod 10) (CHR ''M'') (free_space div 10) (free_space mod 10)
         else Totals (used div 10) (used mod 10) (CHR ''K'') (free_space div 10) (free_space mod 10))"

definition noted :: "string \<Rightarrow> fresult \<Rightarrow> message list" where
  "noted call fr = (if fr \<noteq> FR_OK then [Failed call [] fr] else [])"

definition do_ls :: "('v, 'f, 'd) volumes \<Rightarrow> cbytes list \<Rightarrow> 'v \<Rightarrow> message list option" where
  "do_ls vol argv v =
     (let path = (case argv of [] \<Rightarrow> [0] | a # _ \<Rightarrow> a) in
      case v_opendir vol path v of (fr, d) \<Rightarrow>
        if fr \<noteq> FR_OK then Some [Failed ''f_opendir'' [path] fr]
        else
          (case ls_read vol v 2 d [] of None \<Rightarrow> None | Some (es, fr, d) \<Rightarrow>
             if \<not> list_all (\<lambda>e. terminated (fname e)) es then None
             else
               (case qsort_long (ls_sort_name es) [0 ..< length es] of None \<Rightarrow> None | Some ptrs \<Rightarrow>
                  let sorted = map ((!) es) ptrs;
                      ms = noted ''f_readdir'' fr @ noted ''f_closedir'' (v_closedir vol d v) @ map ls_entry sorted in
                  case v_getfree vol path v of (fr, free_clusters, cluster_sectors) \<Rightarrow>
                    if fr \<noteq> FR_OK then Some (ms @ [Failed ''f_getfree'' [path] fr])
                    else Some (ms @ [ls_totals (ls_used 0 sorted) free_clusters cluster_sectors]))))"

section \<open>Receiving a file\<close>

text \<open>The last component is what \<open>f_write\<close> stores through the null pointer it is given for the count; a count from
  2^31 on is a negative one for \<open>uart_read_string\<close>, and then memory that was never written is saved: \<open>None\<close>.\<close>

definition save_received :: "('v, 'f, 'd) volumes \<Rightarrow> cbytes \<Rightarrow> u8 list \<Rightarrow> 'v \<Rightarrow> fresult \<times> 'v \<times> u32 option" where
  "save_received vol name img v =
     (case v_open vol name (FA_WRITE OR FA_CREATE_ALWAYS) v of (fr, fd, v) \<Rightarrow>
        if fr = FR_OK then
          (case v_write vol fd img v of (fr, n, fd, v) \<Rightarrow> (fr, snd (v_close vol fd v), Some n))
        else (fr, v, None))"

definition do_rxfile ::
  "('v, 'f, 'd) volumes \<Rightarrow> 'c uart_io \<Rightarrow> cbytes \<Rightarrow> 'v \<Rightarrow> 'c \<Rightarrow> heap \<Rightarrow>
   (message list \<times> 'v \<times> 'c \<times> heap \<times> u32 option) option" where
  "do_rxfile vol io name v c h = do {
     (cb, c) \<leftarrow> uart_read_string io 4 c;
     let num = be32 (cb ! 0) (cb ! 1) (cb ! 2) (cb ! 3);
     let ms = [Note ''rxfile: loading from UART ...''];
     (case malloc_unchecked num h of (img, h) \<Rightarrow>
        if img = 0 then Some (ms @ [Counted ''too large'' num], v, c, h, None)
        else do {
          (data, c) \<leftarrow> uart_read_string io (sint num) c;
          if length data < unat num then None
          else
            (case save_received vol name data v of (fr, v, stored) \<Rightarrow>
               Some (ms @ [Counted ''loaded'' num] @ (if fr \<noteq> FR_OK then [Failed ''rxfile'' [name] fr] else []),
                 v, c, free img h, stored)) }) }"

section \<open>The listing is sorted\<close>

text \<open>The order of the listing satisfies the contract of \<open>qsort\<close>.\<close>

interpretation ls_order: comparator "\<lambda>i. terminated (fname (es ! i))" "ls_sort_name es" for es
  by unfold_locales (auto simp: ls_sort_name_def strcasecmp_key lex_cmp_total dest: lex_cmp_trans)

definition name_le :: "filinfo \<Rightarrow> filinfo \<Rightarrow> bool" where
  "name_le a b \<longleftrightarrow> lex_cmp (case_key (fname a)) (case_key (fname b)) \<le> 0"

lemma sort_name_le: "terminated (fname (es ! i)) \<Longrightarrow> terminated (fname (es ! j)) \<Longrightarrow>
    ls_sort_name es i j \<le> 0 \<longleftrightarrow> name_le (es ! i) (es ! j)"
  by (simp add: ls_sort_name_def strcasecmp_key name_le_def)

lemma sorted_names:
  assumes "\<forall>e \<in> set es. terminated (fname e)"
  shows "\<exists>ptrs. qsort_long (ls_sort_name es) [0 ..< length es] = Some ptrs \<and>
    mset (map ((!) es) ptrs) = mset es \<and> sorted_wrt name_le (map ((!) es) ptrs)"
proof -
  have "\<forall>i \<in> set [0 ..< length es]. terminated (fname (es ! i))" using assms by simp
  from ls_order.qsort_correct [OF this] obtain ptrs where
    p: "qsort_long (ls_sort_name es) [0 ..< length es] = Some ptrs" "mset ptrs = mset [0 ..< length es]"
    "sorted_wrt (\<lambda>i j. ls_sort_name es i j \<le> 0) ptrs" by blast
  have "mset (map ((!) es) ptrs) = mset (map ((!) es) [0 ..< length es])" using p(2) by (simp del: map_nth)
  then have m: "mset (map ((!) es) ptrs) = mset es" by (simp only: map_nth)
  have "set ptrs = {0 ..< length es}" using mset_eq_setD [OF p(2)] by simp
  then have "sorted_wrt name_le (map ((!) es) ptrs)"
    unfolding sorted_wrt_map using assms sort_name_le
    by (intro sorted_wrt_mono_rel [OF _ p(3)]) auto
  with p(1) m show ?thesis by blast
qed

section \<open>The directory is read\<close>

text \<open>Reading the directory yields these entries and then its end.\<close>

fun dir_lists :: "('v, 'f, 'd) volumes \<Rightarrow> 'v \<Rightarrow> 'd \<Rightarrow> filinfo list \<Rightarrow> bool" where
  "dir_lists vol v d [] = (case v_readdir vol d v of (fr, fi, d) \<Rightarrow> fr = FR_OK \<and> \<not> named (fname fi))"
| "dir_lists vol v d (e # es) =
     (case v_readdir vol d v of (fr, fi, d) \<Rightarrow> fr = FR_OK \<and> fi = e \<and> named (fname e) \<and> dir_lists vol v d es)"

lemma ls_read_lists:
  "dir_lists vol v d es \<Longrightarrow> 0 < len \<Longrightarrow> length acc \<le> len \<Longrightarrow>
   \<exists>d'. ls_read vol v len d acc = Some (acc @ es, FR_OK, d')"
proof (induction es arbitrary: d acc len)
  case Nil
  then show ?case by (subst ls_read.simps) (auto simp: Let_def)
next
  case (Cons e es)
  obtain fr fi d' where r: "v_readdir vol d v = (fr, fi, d')" by (cases "v_readdir vol d v") auto
  let ?len = "if length acc = len then len * 2 else len"
  have "dir_lists vol v d' es" using Cons.prems(1) r by simp
  moreover have "0 < ?len" "length (acc @ [e]) \<le> ?len" using Cons.prems by auto
  ultimately obtain d'' where "ls_read vol v ?len d' (acc @ [e]) = Some ((acc @ [e]) @ es, FR_OK, d'')"
    using Cons.IH by blast
  with Cons.prems r show ?case by (subst ls_read.simps) (auto simp: Let_def)
qed

section \<open>The totals\<close>

lemma ls_used_eq: "ls_used u es = u + sum_list (map (\<lambda>e. if fattrib e AND AM_DIR \<noteq> 0 then 0 else fsize e) es)"
  by (induction u es rule: ls_used.induct) (simp_all add: ac_simps)

lemma ls_used_mset: "mset es = mset es' \<Longrightarrow> ls_used u es = ls_used u es'"
  unfolding ls_used_eq sum_mset_sum_list [symmetric] mset_map by simp

definition size_of_files :: "filinfo list \<Rightarrow> nat" where
  "size_of_files es = sum_list (map (\<lambda>e. if fattrib e AND AM_DIR \<noteq> 0 then 0 else unat (fsize e)) es)"

lemma ls_used_size: "size_of_files es < 2 ^ 32 \<Longrightarrow> unat (ls_used 0 es) = size_of_files es"
proof -
  have "ls_used u es = u + of_nat (size_of_files es)" for u
    by (induction es arbitrary: u) (simp_all add: size_of_files_def ac_simps)
  then show "size_of_files es < 2 ^ 32 \<Longrightarrow> unat (ls_used 0 es) = size_of_files es"
    by (simp add: unat_of_nat)
qed

lemma scaled: "unat (drop_bit k (drop_bit 4 x * 10)) = unat x div 16 * 10 div 2 ^ k" for x :: u32
proof -
  have d: "unat (drop_bit 4 x) = unat x div 16" unfolding unat_drop_bit_eq drop_bit_eq_div [of 4 "unat x"] by simp
  have "unat (drop_bit 4 x) * unat (10 :: u32) < 4294967296" 
  proof -
    have "unat x div 16 \<le> 4294967295 div 16" by (rule div_le_mono) (use u32_less [of x] in linarith)
    then show ?thesis unfolding d by simp
  qed
  then have "unat (drop_bit 4 x * 10) = unat x div 16 * 10" using u32_unat_mult d by fastforce
  then show ?thesis unfolding unat_drop_bit_eq drop_bit_eq_div [of k "unat (drop_bit 4 x * 10)"] by simp
qed

text \<open>A total in tenths of the unit.\<close>

definition tenths :: "u32 \<Rightarrow> u32 \<Rightarrow> nat" where "tenths whole part = unat whole * 10 + unat part"

lemma tenths_div: "tenths (x div 10) (x mod 10) = unat x"
  by (simp add: tenths_def unat_div unat_mod)


text \<open>The totals, when neither the sum of the sizes nor the number of free sectors exceeds 32 bits, are the
  tenths of KiB (of MiB when they are many) of the files and the tenths of MiB that are free, from sizes in
  units of 16 bytes and 16 sectors.\<close>

definition totals_shown :: "nat \<Rightarrow> nat \<Rightarrow> message \<Rightarrow> bool" where
  "totals_shown used sectors m = (case m of
     Totals uw ut unit fw ft \<Rightarrow> tenths fw ft = sectors div 16 * 10 div 128 \<and>
       (let k = used div 16 * 10 div 64 in
        if k > 9000 then unit = CHR ''M'' \<and> tenths uw ut = k div 1024 else unit = CHR ''K'' \<and> tenths uw ut = k)
   | _ \<Rightarrow> False)"

lemma ls_totals_shown:
  assumes "unat cs * unat fc < 2 ^ 32"
  shows "totals_shown (unat u) (unat cs * unat fc) (ls_totals u fc cs)"
proof -
  have "unat (512 * ucast cs :: u32) = 512 * unat cs"
  proof -
    have c: "unat (ucast cs :: u32) = unat cs" by simp
    have "unat cs < 65536" using unsigned_less [of cs, where 'a = nat] by simp
    then have "512 * unat cs < 4294967296" by linarith
    then show ?thesis using c u32_unat_mult [of 512 "ucast cs"] by simp
  qed
  then have "unat (drop_bit 9 (512 * ucast cs :: u32)) = unat cs"
    unfolding unat_drop_bit_eq drop_bit_eq_div [of 9 "unat (512 * ucast cs :: u32)"] by simp
  then have s: "unat (drop_bit 9 (512 * ucast cs) * fc) = unat cs * unat fc" using assms by (subst u32_unat_mult) simp_all
  define f where "f = drop_bit 7 (drop_bit 4 (drop_bit 9 (512 * ucast cs) * fc) * 10)"
  define k where "k = drop_bit 6 (drop_bit 4 u * 10)"
  have f: "unat f = unat cs * unat fc div 16 * 10 div 128" unfolding f_def scaled s by simp
  have k: "unat k = unat u div 16 * 10 div 64" unfolding k_def scaled by simp
  have m: "unat (drop_bit 10 k) = unat k div 1024" unfolding unat_drop_bit_eq drop_bit_eq_div [of 10 "unat k"] by simp
  have "k > 9000 \<longleftrightarrow> unat k > 9000" by (simp add: word_less_nat_alt)
  then show ?thesis
    unfolding totals_shown_def ls_totals_def Let_def f_def [symmetric] k_def [symmetric] f [symmetric] k [symmetric]
    using m tenths_div [of "drop_bit 10 k"] by (cases "k > 9000") (simp_all only: tenths_div message.case if_True if_False simp_thms)
qed

section \<open>Properties\<close>

text \<open>The listing shows the directory. When the volume yields the entries \<open>es\<close>, any number of them, the
  array of entries never overflows, and the command prints one line for every entry, sorted by name without
  regard to case, each with the fields of its entry, and the totals of the sizes and of the free space.\<close>

theorem ls_lists_directory:
  assumes "path = (case argv of [] \<Rightarrow> [0] | a # _ \<Rightarrow> a)" "v_opendir vol path v = (FR_OK, d)" "dir_lists vol v d es"
    and "\<forall>e \<in> set es. terminated (fname e)" "\<forall>d. v_closedir vol d v = FR_OK"
    and "v_getfree vol path v = (FR_OK, fc, cs)" "size_of_files es < 2 ^ 32" "unat cs * unat fc < 2 ^ 32"
  shows "\<exists>es' m. do_ls vol argv v = Some (map ls_entry es' @ [m]) \<and> mset es' = mset es \<and> sorted_wrt name_le es' \<and>
    totals_shown (size_of_files es) (unat cs * unat fc) m"
proof -
  obtain d' where r: "ls_read vol v 2 d [] = Some (es, FR_OK, d')" using ls_read_lists [OF assms(3), of 2 "[]"] by auto
  obtain ptrs where p: "qsort_long (ls_sort_name es) [0 ..< length es] = Some ptrs"
    "mset (map ((!) es) ptrs) = mset es" "sorted_wrt name_le (map ((!) es) ptrs)" using sorted_names [OF assms(4)] by blast
  have u: "unat (ls_used 0 (map ((!) es) ptrs)) = size_of_files es"
    using ls_used_mset [OF p(2)] ls_used_size [OF assms(7)] by simp
  have "do_ls vol argv v = Some (map ls_entry (map ((!) es) ptrs) @ [ls_totals (ls_used 0 (map ((!) es) ptrs)) fc cs])"
    using assms r p(1) by (simp add: do_ls_def Let_def list_all_iff noted_def assms(1) [symmetric])
  with p(2,3) ls_totals_shown [OF assms(8), of "ls_used 0 (map ((!) es) ptrs)"] u show ?thesis by metis
qed

section \<open>Removing ends\<close>

text \<open>The volume finds a matching name whenever there is one, and every removal succeeds.\<close>

definition removes :: "('v, 'f, 'd) volumes \<Rightarrow> ('v \<Rightarrow> cbytes set) \<Rightarrow> (cbytes \<Rightarrow> cbytes \<Rightarrow> bool) \<Rightarrow> bool" where
  "removes vol names matches \<longleftrightarrow>
     (\<forall>v pat. case v_findfirst vol [0] pat v of (fr, fi) \<Rightarrow>
        if \<exists>n \<in> names v. matches pat n
        then fr = FR_OK \<and> named (fname fi) \<and> fname fi \<in> names v \<and> matches pat (fname fi)
        else \<not> (fr = FR_OK \<and> named (fname fi))) \<and>
     (\<forall>v n. n \<in> names v \<longrightarrow> names (snd (v_unlink vol n v)) = names v - {n})"

definition deleted :: "cbytes list \<Rightarrow> message list" where
  "deleted ns = map (\<lambda>n. Told ''Deleting'' [n]) ns"

lemma deleted_simps [simp]: "deleted [] = []" "deleted (n # ns) = Told ''Deleting'' [n] # deleted ns"
  "deleted (ms @ ns) = deleted ms @ deleted ns"
  by (simp_all add: deleted_def)

lemma rm_loop_removes:
  assumes "removes vol names matches"
  shows "finite (names v) \<Longrightarrow> \<exists>ns v'. rm_loop vol pat (ms, v) = Some (ms @ deleted ns, v') \<and>
    names v' = {n \<in> names v. \<not> matches pat n} \<and> distinct ns \<and> set ns = {n \<in> names v. matches pat n}"
proof (induction "card (names v)" arbitrary: v ms rule: less_induct)
  case less
  obtain fr fi where f: "v_findfirst vol [0] pat v = (fr, fi)" by (cases "v_findfirst vol [0] pat v") auto
  have F: "if \<exists>n \<in> names v. matches pat n
      then fr = FR_OK \<and> named (fname fi) \<and> fname fi \<in> names v \<and> matches pat (fname fi)
      else \<not> (fr = FR_OK \<and> named (fname fi))"
    using conjunct1 [OF assms [unfolded removes_def], THEN spec [of _ v], THEN spec [of _ pat]]
    by (simp only: f prod.case)
  show ?case
  proof (cases "\<exists>n \<in> names v. matches pat n")
    case False
    have "rm_loop vol pat (ms, v) = Some (ms, v)" using F False f by (subst rm_loop.simps) auto
    with False show ?thesis by (auto intro!: exI [of _ "[]"])
  next
    case True
    let ?n = "fname fi" and ?v = "snd (v_unlink vol (fname fi) v)"
    have n: "fr = FR_OK" "named ?n" "?n \<in> names v" "matches pat ?n" using F True by simp_all
    have nv: "names ?v = names v - {?n}" using assms n(3) by (simp add: removes_def)
    have "card (names ?v) < card (names v)" unfolding nv using n(3) less.prems by (intro card_Diff1_less)
    moreover have "finite (names ?v)" using less.prems nv by simp
    ultimately obtain ns v' where ih:
      "rm_loop vol pat (ms @ [Told ''Deleting'' [?n]], ?v) = Some ((ms @ [Told ''Deleting'' [?n]]) @ deleted ns, v')"
      "names v' = {n \<in> names ?v. \<not> matches pat n}" "distinct ns" "set ns = {n \<in> names ?v. matches pat n}"
      using less.hyps [of ?v "ms @ [Told ''Deleting'' [?n]]"] by blast
    have "rm_loop vol pat (ms, v) = rm_loop vol pat (ms @ [Told ''Deleting'' [?n]], ?v)"
      using n f by (subst rm_loop.simps) simp
    then have e: "rm_loop vol pat (ms, v) = Some (ms @ deleted (?n # ns), v')" using ih(1) by simp
    have s: "names v' = {n \<in> names v. \<not> matches pat n}" "set (?n # ns) = {n \<in> names v. matches pat n}"
      unfolding ih(2) list.set ih(4) nv using n(3,4) by blast+
    have "distinct (?n # ns)" using ih(3,4) nv by simp
    with e s show ?thesis by blast
  qed
qed

lemma do_rm_removes:
  assumes "removes vol names matches"
  shows "finite (names v) \<Longrightarrow> \<exists>ns v'. do_rm vol argv (ms, v) = Some (ms @ deleted ns, v') \<and>
    names v' = {n \<in> names v. \<forall>pat \<in> set argv. \<not> matches pat n} \<and> distinct ns \<and> set ns = names v - names v'"
proof (induction argv arbitrary: v ms)
  case Nil
  then show ?case by (auto intro!: exI [of _ "[]"])
next
  case (Cons pat argv)
  obtain ns v1 where 1: "rm_loop vol pat (ms, v) = Some (ms @ deleted ns, v1)"
    "names v1 = {n \<in> names v. \<not> matches pat n}" "distinct ns" "set ns = {n \<in> names v. matches pat n}"
    using rm_loop_removes [OF assms Cons.prems] by blast
  then have "finite (names v1)" using Cons.prems by simp
  from Cons.IH [OF this, of "ms @ deleted ns"] obtain ns' v' where 2:
    "do_rm vol argv (ms @ deleted ns, v1) = Some ((ms @ deleted ns) @ deleted ns', v')"
    "names v' = {n \<in> names v1. \<forall>pat \<in> set argv. \<not> matches pat n}" "distinct ns'" "set ns' = names v1 - names v'" by blast
  have e: "do_rm vol (pat # argv) (ms, v) = Some (ms @ deleted (ns @ ns'), v')" using 1(1) 2(1) by simp
  have s: "names v' = {n \<in> names v. \<forall>p \<in> set (pat # argv). \<not> matches p n}" unfolding 2(2) 1(2) by auto
  have d: "set (ns @ ns') = names v - names v'" unfolding set_append 1(4) 2(4) unfolding 2(2) 1(2) by blast
  have "distinct (ns @ ns')" using 1(2-4) 2(3,4) by auto
  with e s d show ?case by blast
qed

text \<open>C38. Removing files ends, when every removal succeeds: exactly the files that match one of the arguments
  are gone, and each was announced once.\<close>

theorem rm_removes_matching:
  assumes "removes vol names matches" "finite (names v)"
  shows "\<exists>ns v'. do_rm vol argv ([], v) = Some (deleted ns, v') \<and>
    names v' = {n \<in> names v. \<forall>pat \<in> set argv. \<not> matches pat n} \<and> distinct ns \<and> set ns = names v - names v'"
  using do_rm_removes [OF assms, of argv "[]"] by simp

text \<open>A file that matches and cannot be removed (it is read only, or a directory that is not empty) is found
  again and again: the command never ends.\<close>

lemma rm_forever:
  assumes "v_findfirst vol [0] pat v = (FR_OK, fi)" "named (fname fi)" "snd (v_unlink vol (fname fi) v) = v"
  shows "rm_loop vol pat (ms, v) = None"
proof (cases "rm_loop vol pat (ms, v)")
  case (Some r)
  let ?P = "\<lambda>vo p mv (r :: message list \<times> 'v). vo = vol \<and> p = pat \<and> snd mv = v \<longrightarrow> False"
  have "?P vol pat (ms, v) r"
  proof (rule rm_loop.raw_induct [of ?P, OF _ Some])
    fix loop vo p mv r
    assume ih: "\<And>vo p mv r. loop vo p mv = Some r \<Longrightarrow> ?P vo p mv r"
      and r: "(case v_findfirst vo [0] p (snd mv) of (fr, fi) \<Rightarrow>
        if fr = FR_OK \<and> named (fname fi)
        then loop vo p (fst mv @ [Told ''Deleting'' [fname fi]], snd (v_unlink vo (fname fi) (snd mv)))
        else Some mv) = Some r"
    show "?P vo p mv r"
    proof
      assume a: "vo = vol \<and> p = pat \<and> snd mv = v"
      with r have "loop vol pat (fst mv @ [Told ''Deleting'' [fname fi]], v) = Some r" by (simp add: assms)
      from ih [OF this] show False by simp
    qed
  qed
  then show ?thesis by simp
qed simp

section \<open>Copying is exact\<close>

text \<open>A volume whose reads and writes succeed: \<open>ident\<close> says which file is open, \<open>pos\<close> how far it is read, and
  \<open>cont\<close> gives the contents of the files.\<close>

definition serves_files ::
  "('v, 'f, 'd) volumes \<Rightarrow> ('f \<Rightarrow> 'i) \<Rightarrow> ('f \<Rightarrow> nat) \<Rightarrow> ('v \<Rightarrow> 'i \<Rightarrow> u8 list) \<Rightarrow> bool" where
  "serves_files vol ident pos cont \<longleftrightarrow>
     (\<forall>f n v. \<exists>g. v_read vol f n v = (FR_OK, take (unat n) (drop (pos f) (cont v (ident f))), g) \<and>
        ident g = ident f \<and> pos g = pos f + length (take (unat n) (drop (pos f) (cont v (ident f))))) \<and>
     (\<forall>f bs v. \<exists>g w. v_write vol f bs v = (FR_OK, of_nat (length bs), g, w) \<and>
        ident g = ident f \<and> cont w = (cont v)(ident f := cont v (ident f) @ bs)) \<and>
     (\<forall>f v. fst (v_close vol f v) = FR_OK \<and> cont (snd (v_close vol f v)) = cont v)"

lemma serves_files_read:
  "serves_files vol ident pos cont \<Longrightarrow> \<exists>g. v_read vol f n v = (FR_OK, take (unat n) (drop (pos f) (cont v (ident f))), g) \<and>
     ident g = ident f \<and> pos g = pos f + length (take (unat n) (drop (pos f) (cont v (ident f))))"
  by (simp add: serves_files_def)

lemma serves_files_write:
  "serves_files vol ident pos cont \<Longrightarrow> \<exists>g w. v_write vol f bs v = (FR_OK, of_nat (length bs), g, w) \<and>
     ident g = ident f \<and> cont w = (cont v)(ident f := cont v (ident f) @ bs)"
  by (simp add: serves_files_def)

lemma serves_files_close:
  "serves_files vol ident pos cont \<Longrightarrow> fst (v_close vol f v) = FR_OK"
  "serves_files vol ident pos cont \<Longrightarrow> cont (snd (v_close vol f v)) = cont v"
  by (simp_all add: serves_files_def)

lemma cp_loop_copies:
  assumes vol: "serves_files vol ident pos cont" and "ident src \<noteq> ident dst"
    and "cont v (ident src) = take (pos src) (cont v (ident src)) @ rest"
  shows "\<exists>src' dst' v'. cp_loop vol a b src dst v = Some ([], src', dst', v') \<and>
    cont v' = (cont v)(ident dst := cont v (ident dst) @ rest)"
  using assms(2-)
proof (induction "length rest" arbitrary: src dst v rest rule: less_induct)
  case less
  let ?n = "of_nat COPY_BUFFER_SIZE :: u32"
  have n: "unat ?n = COPY_BUFFER_SIZE" by (simp add: COPY_BUFFER_SIZE_def)
  have d: "drop (pos src) (cont v (ident src)) = rest"
    using less.prems(2) by (metis append_take_drop_id same_append_eq)
  let ?bs = "take COPY_BUFFER_SIZE rest"
  obtain src' where r: "v_read vol src ?n v = (FR_OK, ?bs, src')" "ident src' = ident src" "pos src' = pos src + length ?bs"
    using serves_files_read [OF vol, of src ?n v] by (auto simp: d n)
  obtain dst' v' where w: "v_write vol dst ?bs v = (FR_OK, of_nat (length ?bs), dst', v')" "ident dst' = ident dst"
    "cont v' = (cont v)(ident dst := cont v (ident dst) @ ?bs)" using serves_files_write [OF vol, of dst ?bs v] by blast
  show ?case
  proof (cases "length rest < COPY_BUFFER_SIZE")
    case True
    then have b: "?bs = rest" by simp
    show ?thesis
      using r w True unfolding b by (subst cp_loop.simps) (auto simp: fun_upd_idem)
  next
    case False
    let ?r = "drop COPY_BUFFER_SIZE rest"
    have bs: "length ?bs = COPY_BUFFER_SIZE" "?bs @ ?r = rest" using False by simp_all
    have "0 < COPY_BUFFER_SIZE" by (simp add: COPY_BUFFER_SIZE_def)
    then have step: "cp_loop vol a b src dst v = cp_loop vol a b src' dst' v'"
      using r w bs False by (subst cp_loop.simps) (simp, cases rest, simp_all)
    have c: "cont v' (ident src') = cont v (ident src)" using w(3) r(2) less.prems(1) by simp
    have "length ?r < length rest" using False \<open>0 < COPY_BUFFER_SIZE\<close> by simp
    moreover have "cont v' (ident src') = take (pos src') (cont v' (ident src')) @ ?r"
      unfolding c r(3) using d bs(1) by (metis append_take_drop_id drop_drop add.commute)
    ultimately obtain s2 d2 v2 where "cp_loop vol a b src' dst' v' = Some ([], s2, d2, v2)"
      "cont v2 = (cont v')(ident dst' := cont v' (ident dst') @ ?r)"
      using less.hyps [of ?r src' dst' v'] less.prems(1) r(2) w(2) by auto
    with step w(2,3) bs(2) show ?thesis by simp
  qed
qed


section \<open>Samples\<close>

text \<open>A directory of named files, the last one written in front; an asterisk matches every name.\<close>

type_synonym sample_dir = "(cbytes \<times> u8 list) list"

definition sample_cont :: "sample_dir \<Rightarrow> cbytes \<Rightarrow> u8 list" where
  "sample_cont v n = (case map_of v n of None \<Rightarrow> [] | Some c \<Rightarrow> c)"

definition sample_match :: "cbytes \<Rightarrow> cbytes \<Rightarrow> bool" where
  "sample_match pat n \<longleftrightarrow> named n \<and> (pat = ascii ''*'' \<or> pat = n)"

definition sample_info :: "cbytes \<times> u8 list \<Rightarrow> filinfo" where
  "sample_info e = \<lparr>fsize = of_nat (length (snd e)), fdate = 0, ftime = 0, fattrib = 0, fname = fst e\<rparr>"

definition sample_volumes :: "(sample_dir, cbytes \<times> nat, filinfo list) volumes" where
  "sample_volumes = \<lparr>
     v_open = (\<lambda>n mode v. (FR_OK, (n, 0), if mode AND FA_CREATE_ALWAYS \<noteq> 0 then (n, []) # v else v)),
     v_size = (\<lambda>f v. of_nat (length (sample_cont v (fst f)))),
     v_read = (\<lambda>f n v. (FR_OK, take (unat n) (drop (snd f) (sample_cont v (fst f))),
       (fst f, snd f + length (take (unat n) (drop (snd f) (sample_cont v (fst f))))))),
     v_lseek = (\<lambda>f off v. (FR_OK, (fst f, unat off))),
     v_write = (\<lambda>f bs v. (FR_OK, of_nat (length bs), f, (fst f, sample_cont v (fst f) @ bs) # v)),
     v_close = (\<lambda>f v. (FR_OK, v)),
     v_opendir = (\<lambda>p v. (FR_OK, map sample_info v)),
     v_readdir = (\<lambda>d v. (FR_OK, if d = [] then sample_info ([0], []) else hd d, tl d)),
     v_closedir = (\<lambda>d v. FR_OK),
     v_findfirst = (\<lambda>p pat v. (case find (\<lambda>e. sample_match pat (fst e)) v of
       None \<Rightarrow> (4, sample_info ([0], [])) | Some e \<Rightarrow> (FR_OK, sample_info e))),
     v_getfree = (\<lambda>p v. (FR_OK, 100, 8)),
     v_unlink = (\<lambda>n v. (FR_OK, filter (\<lambda>e. fst e \<noteq> n) v)),
     v_rename = (\<lambda>a b v. (FR_OK, map (\<lambda>(n, c). (if n = a then b else n, c)) v)),
     v_mkdir = (\<lambda>n v. (7, v)), v_chdir = (\<lambda>n v. (5, v)), v_chdrive = (\<lambda>n v. (FR_OK, v)), v_getcwd = (\<lambda>v. [0])\<rparr>"

lemma sample_serves: "serves_files sample_volumes fst snd sample_cont"
  by (auto simp: serves_files_def sample_volumes_def sample_cont_def fun_eq_iff)


lemma sample_removes: "removes sample_volumes (\<lambda>v. {n \<in> fst ` set v. named n}) sample_match"
proof -
  have f: "case v_findfirst sample_volumes [0] pat v of (fr, fi) \<Rightarrow>
        if \<exists>n \<in> {n \<in> fst ` set v. named n}. sample_match pat n
        then fr = FR_OK \<and> named (fname fi) \<and> fname fi \<in> {n \<in> fst ` set v. named n} \<and> sample_match pat (fname fi)
        else \<not> (fr = FR_OK \<and> named (fname fi))" for pat and v :: sample_dir
  proof (cases "find (\<lambda>e. sample_match pat (fst e)) v")
    case None
    then have "\<forall>e \<in> set v. \<not> sample_match pat (fst e)" unfolding find_None_iff by blast
    then show ?thesis using None by (auto simp: sample_volumes_def FR_OK_def)
  next
    case (Some e)
    then have "e \<in> set v" "sample_match pat (fst e)" by (auto simp: find_Some_iff)
    then show ?thesis using Some by (auto simp: sample_volumes_def sample_info_def sample_match_def)
  qed
  show ?thesis unfolding removes_def by (intro conjI allI impI f) (auto simp: sample_volumes_def)
qed

theorem rm_removes_matching_witness:
  "\<exists>ns v'. do_rm sample_volumes [[0x61, 0]] ([], [([0x61, 0], [1]), ([0x62, 0], [])]) = Some (deleted ns, v') \<and>
     {n \<in> fst ` set v'. named n} = {[0x62, 0]} \<and> distinct ns \<and> set ns = {[0x61, 0]}"
proof -
  let ?v = "[([0x61, 0], [1]), ([0x62, 0], [])] :: sample_dir" and ?names = "\<lambda>v :: sample_dir. {n \<in> fst ` set v. named n}"
  have n: "?names ?v = {[0x61, 0], [0x62, 0]}" by (auto simp: named_def)
  have m: "{n \<in> ?names ?v. \<forall>pat \<in> set [[0x61, 0]]. \<not> sample_match pat n} = {[0x62, 0]}"
    unfolding n by (auto simp: sample_match_def named_def ascii_def)
  have "?names ?v - {[0x62, 0]} = {[0x61, 0]}" unfolding n by auto
  with rm_removes_matching [OF sample_removes, of ?v "[[0x61, 0]]"] m show ?thesis by auto
qed

theorem ls_lists_directory_witness:
  "\<exists>es' m. do_ls sample_volumes [] [([0x62, 0], [1, 2]), ([0x41, 0], [])] = Some (map ls_entry es' @ [m]) \<and>
     mset es' = mset (map sample_info [([0x62, 0], [1, 2]), ([0x41, 0], [])]) \<and> sorted_wrt name_le es' \<and>
     totals_shown 2 800 m"
proof -
  let ?v = "[([0x62, 0], [1, 2]), ([0x41, 0], [])] :: sample_dir"
  have "\<exists>es' m. do_ls sample_volumes [] ?v = Some (map ls_entry es' @ [m]) \<and> mset es' = mset (map sample_info ?v) \<and>
      sorted_wrt name_le es' \<and> totals_shown (size_of_files (map sample_info ?v)) (unat (8 :: u16) * unat (100 :: u32)) m"
    by (rule ls_lists_directory [where d = "map sample_info ?v" and path = "[0]"])
      (simp_all add: sample_volumes_def sample_info_def named_def size_of_files_def)
  then show ?thesis by (simp add: size_of_files_def sample_info_def)
qed

section \<open>What is received is saved\<close>

lemma received_saved:
  assumes vol: "serves_files vol ident pos cont" and line: "serial io sent coming delay"
    and "coming c = bytes32 num @ img @ rest" "length img = unat num" "num < 2 ^ 31"
    and heap: "ta_alloc num h = (p, h1)" "p \<noteq> 0"
    and opened: "v_open vol name (FA_WRITE OR FA_CREATE_ALWAYS) v = (FR_OK, f, v1)" "cont v1 (ident f) = []"
  shows "\<exists>v2 c2. do_rxfile vol io name v c h =
      Some ([Note ''rxfile: loading from UART ...'', Counted ''loaded'' num], v2, c2, free p h1, Some num) \<and>
    cont v2 = (cont v1)(ident f := img) \<and> coming c2 = rest"
proof -
  obtain c1 where c1: "read_bytes_wait io 4 c = Some (bytes32 num, c1)" "coming c1 = img @ rest"
    using read_bytes_waits [OF line assms(3)] by auto
  have "uint num < 2 ^ 31" using assms(5) by (simp add: word_less_def)
  then have sz: "sint num = int (length img)"
    using assms(4) by (simp add: sint_u32)
  obtain c2 where c2: "read_bytes_wait io (length img) c1 = Some (img, c2)" "coming c2 = rest"
    using read_bytes_waits [OF line c1(2)] by auto
  obtain g w where w: "v_write vol f img v1 = (FR_OK, of_nat (length img), g, w)" "cont w = (cont v1)(ident f := img)"
    using serves_files_write [OF vol, of f img v1] opened(2) by auto
  have n: "of_nat (length img) = num" using assms(4) by simp
  show ?thesis
    using c1 c2 w heap opened(1) sz n assms(4) serves_files_close(2) [OF vol, of g w] be32_bytes32 [of num]
    by (simp add: do_rxfile_def uart_read_string_def malloc_unchecked_def save_received_def Let_def)
qed

end
