(* ===== verification/Rtc.thy ===== *)
theory Rtc
  imports CliFs
begin

text \<open>
  The real-time clocks: the bit-banged DS1302 of \<^verbatim>\<open>ecb/rtc.c\<close>, the clock registers of \<^verbatim>\<open>q40/rtc.c\<close>, and
  the time stamp that \<^verbatim>\<open>fatfs/ffglue.c\<close> gives the files. The port of the DS1302 is the log of the bytes
  written to it and the bytes it will give when read; reading more than these is \<open>None\<close>.
\<close>

record rtc_time_t =
  year :: u16
  month :: u8
  day :: u8
  hour :: u8
  minute :: u8
  second :: u8

definition decode_bcd_digit :: "u8 \<Rightarrow> int" where
  "decode_bcd_digit val = (let v = val AND 0x0F in if v > 9 then 0 else uint v)"

definition decode_bcd_byte :: "u8 \<Rightarrow> int" where
  "decode_bcd_byte val = decode_bcd_digit (drop_bit 4 val) * 10 + decode_bcd_digit val"

text \<open>The century of a year of two digits.\<close>

definition full_year :: "u16 \<Rightarrow> u16" where
  "full_year y = y + (if y \<ge> 80 then 1900 else 2000)"

section \<open>The clock of the Q40\<close>

text \<open>The registers are a function; the accesses to the control register that freeze and release the clock are
  the second component.\<close>

definition q40_rtc_read_clock :: "(nat \<Rightarrow> u8) \<Rightarrow> rtc_time_t \<times> u8 list" where
  "q40_rtc_read_clock reg =
     (\<lparr>year = full_year (of_int (decode_bcd_byte (reg 7))),
       month = of_int (decode_bcd_byte (reg 6 AND 0x1F)),
       day = of_int (decode_bcd_byte (reg 5 AND 0x3F)),
       hour = of_int (decode_bcd_byte (reg 3 AND 0x3F)),
       minute = of_int (decode_bcd_byte (reg 2 AND 0x7F)),
       second = of_int (decode_bcd_byte (reg 1 AND 0x7F))\<rparr>,
      [reg 0 OR 0x40, reg 0 AND NOT 0xC0])"

definition Q40_RTC_NVRAM_SIZE :: int where "Q40_RTC_NVRAM_SIZE = 2040"

definition q40_rtc_read_nvram :: "(int \<Rightarrow> u8) \<Rightarrow> int \<Rightarrow> u8" where
  "q40_rtc_read_nvram nvram offset = (if offset \<ge> 0 \<and> offset < Q40_RTC_NVRAM_SIZE then nvram offset else 0xFF)"

definition q40_rtc_write_nvram :: "int \<Rightarrow> u8 \<Rightarrow> (int \<Rightarrow> u8) \<Rightarrow> int \<Rightarrow> u8" where
  "q40_rtc_write_nvram offset v nvram = (if offset \<ge> 0 \<and> offset < Q40_RTC_NVRAM_SIZE then nvram(offset := v) else nvram)"

section \<open>The DS1302\<close>

definition MFPIC_DS1302_DATA_BIT :: u8 where "MFPIC_DS1302_DATA_BIT = 1"
definition MFPIC_DS1302_WREN_BIT :: u8 where "MFPIC_DS1302_WREN_BIT = 2"
definition MFPIC_DS1302_CLK_BIT :: u8 where "MFPIC_DS1302_CLK_BIT = 4"
definition MFPIC_DS1302_RESET_BIT :: u8 where "MFPIC_DS1302_RESET_BIT = 8"

lemmas ds1302_bits = MFPIC_DS1302_DATA_BIT_def MFPIC_DS1302_WREN_BIT_def MFPIC_DS1302_CLK_BIT_def MFPIC_DS1302_RESET_BIT_def

record ds1302 =
  mfpic_rtc_shadow :: u8
  port :: "u8 list"
  answers :: "u8 list"

definition put_shadow :: "u8 \<Rightarrow> ds1302 \<Rightarrow> ds1302" where
  "put_shadow v s = s\<lparr>mfpic_rtc_shadow := v, port := port s @ [v]\<rparr>"

definition rtc_set_chipselect :: "bool \<Rightarrow> ds1302 \<Rightarrow> ds1302" where
  "rtc_set_chipselect enable s =
     put_shadow (if \<not> enable then mfpic_rtc_shadow s OR MFPIC_DS1302_RESET_BIT
       else mfpic_rtc_shadow s AND NOT MFPIC_DS1302_RESET_BIT) s"

definition rtc_set_clk :: "bool \<Rightarrow> ds1302 \<Rightarrow> ds1302" where
  "rtc_set_clk clk_high s =
     put_shadow (if clk_high then mfpic_rtc_shadow s OR MFPIC_DS1302_CLK_BIT
       else mfpic_rtc_shadow s AND NOT MFPIC_DS1302_CLK_BIT) s"

definition rtc_set_data_direction :: "bool \<Rightarrow> ds1302 \<Rightarrow> ds1302" where
  "rtc_set_data_direction write s =
     put_shadow (if \<not> write then mfpic_rtc_shadow s AND NOT MFPIC_DS1302_WREN_BIT
       else mfpic_rtc_shadow s OR MFPIC_DS1302_WREN_BIT) s"

definition rtc_set_mosi :: "bool \<Rightarrow> ds1302 \<Rightarrow> ds1302" where
  "rtc_set_mosi mosi_high s =
     (let s = rtc_set_data_direction True s in
      put_shadow (if mosi_high then mfpic_rtc_shadow s OR MFPIC_DS1302_DATA_BIT
        else mfpic_rtc_shadow s AND NOT MFPIC_DS1302_DATA_BIT) s)"

definition rtc_get_miso :: "ds1302 \<Rightarrow> (bool \<times> ds1302) option" where
  "rtc_get_miso s =
     (let s = rtc_set_data_direction False s in
      case answers s of [] \<Rightarrow> None | a # as \<Rightarrow> Some (a AND MFPIC_DS1302_DATA_BIT \<noteq> 0, s\<lparr>answers := as\<rparr>))"

fun send_bits :: "nat \<Rightarrow> u8 \<Rightarrow> ds1302 \<Rightarrow> ds1302" where
  "send_bits 0 v s = s"
| "send_bits (Suc n) v s = send_bits n (drop_bit 1 v) (rtc_set_clk False (rtc_set_clk True (rtc_set_mosi (v AND 1 \<noteq> 0) s)))"

definition rtc_send_byte :: "u8 \<Rightarrow> ds1302 \<Rightarrow> ds1302" where
  "rtc_send_byte v s = send_bits 8 v s"

fun read_bits :: "nat \<Rightarrow> u8 \<Rightarrow> ds1302 \<Rightarrow> (u8 \<times> ds1302) option" where
  "read_bits 0 v s = Some (v, s)"
| "read_bits (Suc n) v s =
     (case rtc_get_miso s of None \<Rightarrow> None
      | Some (b, s) \<Rightarrow> read_bits n (if b then drop_bit 1 v OR 0x80 else drop_bit 1 v) (rtc_set_clk False (rtc_set_clk True s)))"

definition rtc_read_byte :: "ds1302 \<Rightarrow> (u8 \<times> ds1302) option" where
  "rtc_read_byte s = read_bits 8 0 s"

definition rtc_idle :: "ds1302 \<Rightarrow> ds1302" where
  "rtc_idle s = rtc_set_data_direction False (rtc_set_chipselect False (rtc_set_clk False s))"

definition rtc_init :: "ds1302 \<Rightarrow> ds1302" where
  "rtc_init s = rtc_idle (s\<lparr>mfpic_rtc_shadow := 0\<rparr>)"

text \<open>From 12-hour mode.\<close>

definition hour_24 :: "u8 \<Rightarrow> u8" where
  "hour_24 h =
     (if h AND 0x80 \<noteq> 0 then
        (let h = h AND 0x7F in
         if h AND 0x20 \<noteq> 0 then
           (let h = (h AND 0xDF) + 0x12 in if h AND 0x0F \<ge> 10 then h + 6 else h)
         else h)
      else h)"

definition rtc_read_clock :: "ds1302 \<Rightarrow> (rtc_time_t \<times> ds1302) option" where
  "rtc_read_clock s = do {
     let s = rtc_send_byte 0xBF (rtc_set_chipselect True (rtc_set_clk False s));
     (sec, s) \<leftarrow> rtc_read_byte s;
     (min, s) \<leftarrow> rtc_read_byte s;
     (hr, s) \<leftarrow> rtc_read_byte s;
     (dy, s) \<leftarrow> rtc_read_byte s;
     (mon, s) \<leftarrow> rtc_read_byte s;
     (weekday, s) \<leftarrow> rtc_read_byte s;
     (yr, s) \<leftarrow> rtc_read_byte s;
     Some (\<lparr>year = full_year (of_int (decode_bcd_byte yr)), month = of_int (decode_bcd_byte mon),
         day = of_int (decode_bcd_byte dy), hour = of_int (decode_bcd_byte (hour_24 hr)),
         minute = of_int (decode_bcd_byte min), second = of_int (decode_bcd_byte (sec AND 0x7F))\<rparr>, rtc_idle s) }"

section \<open>The time stamp of a file\<close>

definition get_fattime :: "rtc_time_t \<Rightarrow> u32" where
  "get_fattime t =
     push_bit 25 (of_int (uint (year t) - 1980)) OR push_bit 21 (ucast (month t)) OR push_bit 16 (ucast (day t)) OR
     push_bit 11 (ucast (hour t)) OR push_bit 5 (ucast (minute t)) OR drop_bit 1 (ucast (second t))"

section \<open>Binary-coded decimals\<close>

definition bcd :: "nat \<Rightarrow> u8" where "bcd n = of_nat (n div 10 * 16 + n mod 10)"

lemma decode_bcd_list: "\<forall>n \<in> set [0 ..< 100]. decode_bcd_byte (bcd n) = int n"
  by code_simp

lemma decode_bcd: "n < 100 \<Longrightarrow> decode_bcd_byte (bcd n) = int n"
  using decode_bcd_list by (simp add: atLeastLessThan_iff)

lemma bcd_masks:
  "\<forall>n \<in> set [0 ..< 20]. bcd n AND 0x1F = bcd n" "\<forall>n \<in> set [0 ..< 40]. bcd n AND 0x3F = bcd n"
  "\<forall>n \<in> set [0 ..< 80]. bcd n AND 0x7F = bcd n" "\<forall>n \<in> set [0 ..< 40]. bcd n AND 0x80 = 0"
  by code_simp+

lemma bcd_mask:
  "n < 20 \<Longrightarrow> bcd n AND 0x1F = bcd n" "n < 40 \<Longrightarrow> bcd n AND 0x3F = bcd n" "n < 80 \<Longrightarrow> bcd n AND 0x7F = bcd n"
  "n < 40 \<Longrightarrow> hour_24 (bcd n) = bcd n"
  using bcd_masks by (simp_all add: hour_24_def)

section \<open>The wires of the DS1302\<close>

text \<open>What the chip receives: the data line at every rising edge of the clock while the port drives it.\<close>

fun clocked_in :: "u8 list \<Rightarrow> bool list" where
  "clocked_in (a # b # log) =
     (if a AND MFPIC_DS1302_CLK_BIT = 0 \<and> b AND MFPIC_DS1302_CLK_BIT \<noteq> 0 \<and> b AND MFPIC_DS1302_WREN_BIT \<noteq> 0
      then (b AND MFPIC_DS1302_DATA_BIT \<noteq> 0) # clocked_in (b # log) else clocked_in (b # log))"
| "clocked_in log = []"

text \<open>What the chip answers: the bits of a byte, lowest first.\<close>

definition wires :: "u8 \<Rightarrow> u8 list \<Rightarrow> bool" where
  "wires v as \<longleftrightarrow> length as = 8 \<and> (\<forall>i < 8. (as ! i AND MFPIC_DS1302_DATA_BIT \<noteq> 0) = bit v i)"

lemma read_bits_wires:
  assumes "length as = n" "n \<le> 8" "answers s = as @ rest" "mfpic_rtc_shadow s = 1 \<or> mfpic_rtc_shadow s = 3"
  shows "\<exists>w t. read_bits n x s = Some (w, t) \<and> answers t = rest \<and>
    (\<forall>i < 8. bit w i = (if i < 8 - n then bit x (i + n) else as ! (i - (8 - n)) AND MFPIC_DS1302_DATA_BIT \<noteq> 0)) \<and>
    port t = port s @ concat (replicate n [1, 5, 1]) \<and> mfpic_rtc_shadow t = (if n = 0 then mfpic_rtc_shadow s else 1)"
  using assms
proof (induction n arbitrary: x s as)
  case (Suc n)
  then obtain a bs where a: "as = a # bs" "length bs = n" by (cases as) auto
  let ?x = "if a AND MFPIC_DS1302_DATA_BIT \<noteq> 0 then drop_bit 1 x OR 0x80 else drop_bit 1 x"
  let ?s = "s\<lparr>answers := bs @ rest, mfpic_rtc_shadow := 1, port := port s @ [1, 5, 1]\<rparr>"
  have step: "read_bits (Suc n) x s = read_bits n ?x ?s"
    using Suc.prems(3,4) a
    by (auto simp: rtc_get_miso_def rtc_set_data_direction_def rtc_set_clk_def put_shadow_def ds1302_bits)
  from Suc.IH [of bs ?s ?x] a Suc.prems(2) obtain w t where
    w: "read_bits n ?x ?s = Some (w, t)" "answers t = rest"
    "\<forall>i < 8. bit w i = (if i < 8 - n then bit ?x (i + n) else bs ! (i - (8 - n)) AND MFPIC_DS1302_DATA_BIT \<noteq> 0)"
    "port t = port s @ [1, 5, 1] @ concat (replicate n [1, 5, 1])" "mfpic_rtc_shadow t = 1"
    by auto
  have top: "bit (0x80 :: int) j = (j = 7)" "bit (0x80 :: nat) j = (j = 7)" for j
    using bit_exp_iff [where 'a = int, of 7 j] bit_exp_iff [where 'a = nat, of 7 j] by auto
  have "bit w i = (if i < 8 - Suc n then bit x (i + Suc n) else as ! (i - (8 - Suc n)) AND MFPIC_DS1302_DATA_BIT \<noteq> 0)"
    if "i < 8" for i
  proof -
    consider "i < 8 - Suc n" | "i = 8 - Suc n" | "8 - n \<le> i" using Suc.prems(2) by linarith
    then show ?thesis
    proof cases
      case 2
      then have "i + n = 7" "i < 8 - n" "i - (8 - Suc n) = 0" "\<not> i < 8 - Suc n" using Suc.prems(2) by auto
      moreover have "\<not> bit x 8" using bit_imp_le_length [of x 8] by auto
      ultimately show ?thesis using w(3) that a(1) by (simp add: bit_drop_bit_eq bit_or_iff top)
    next
      case 3
      then have "i - (8 - Suc n) = Suc (i - (8 - n))" "\<not> i < 8 - n" "\<not> i < 8 - Suc n" using Suc.prems(2) by auto
      then show ?thesis using w(3) that a(1) by simp
    next
      case 1
      then have "i + n \<noteq> 7" "i < 8 - n" by auto
      then show ?thesis using w(3) that 1 by (simp add: bit_drop_bit_eq bit_or_iff top)
    qed
  qed
  then show ?case unfolding step using w(1,2,4,5) by simp
qed simp

lemma read_byte_wires:
  assumes "wires v as" "answers s = as @ rest" "mfpic_rtc_shadow s = 1 \<or> mfpic_rtc_shadow s = 3"
  shows "\<exists>t. rtc_read_byte s = Some (v, t) \<and> answers t = rest \<and>
    port t = port s @ concat (replicate 8 [1, 5, 1]) \<and> mfpic_rtc_shadow t = 1"
proof -
  have "length as = 8" using assms(1) by (simp add: wires_def)
  from read_bits_wires [OF this _ assms(2,3), of 0] obtain w t where
    w: "read_bits 8 0 s = Some (w, t)" "answers t = rest" "\<forall>i < 8. bit w i = (as ! i AND MFPIC_DS1302_DATA_BIT \<noteq> 0)"
    "port t = port s @ concat (replicate 8 [1, 5, 1])" "mfpic_rtc_shadow t = 1" by auto
  have "w = v" by (rule bit_word_eqI) (use w(3) assms(1) in \<open>simp add: wires_def\<close>)
  with w show ?thesis by (auto simp: rtc_read_byte_def)
qed

text \<open>What the port sees of a read, and of the command before it.\<close>

lemma clocked_in_quiet: "\<forall>b \<in> set log. b AND MFPIC_DS1302_WREN_BIT = 0 \<Longrightarrow> clocked_in (x # log) = []"
  by (induction log arbitrary: x) auto

lemma quiet_reads: "\<forall>b \<in> set (concat (replicate n [1, 5, 1])). b AND MFPIC_DS1302_WREN_BIT = 0"
  by (induction n) (auto simp: ds1302_bits)

lemma send_bits_wires:
  assumes "mfpic_rtc_shadow s \<in> {0, 1, 2, 3}"
  shows "\<exists>log. send_bits n v s = s\<lparr>mfpic_rtc_shadow := last (mfpic_rtc_shadow s # log), port := port s @ log\<rparr> \<and>
    last (mfpic_rtc_shadow s # log) = (if n = 0 then mfpic_rtc_shadow s else if bit v (n - 1) then 3 else 2) \<and>
    (\<forall>tail. clocked_in (mfpic_rtc_shadow s # log @ tail) =
       map (bit v) [0 ..< n] @ clocked_in (last (mfpic_rtc_shadow s # log) # tail))"
  using assms
proof (induction n arbitrary: v s)
  case (Suc n)
  define z :: u8 where "z = (if odd v then 3 else 2)"
  let ?first = "[mfpic_rtc_shadow s OR 2, z, z OR 4, z]"
  let ?s = "s\<lparr>mfpic_rtc_shadow := z, port := port s @ ?first\<rparr>"
  have step: "send_bits (Suc n) v s = send_bits n (drop_bit 1 v) ?s"
    using Suc.prems
    by (auto simp: z_def rtc_set_mosi_def rtc_set_data_direction_def rtc_set_clk_def put_shadow_def ds1302_bits and_one_eq odd_iff_mod_2_eq_one)
  have clk: "clocked_in (mfpic_rtc_shadow s # ?first @ xs) = odd v # clocked_in (z # xs)" for xs
    using Suc.prems by (auto simp: z_def ds1302_bits)
  have zs: "mfpic_rtc_shadow ?s \<in> {0, 1, 2, 3}" "mfpic_rtc_shadow ?s = z" by (auto simp: z_def)
  obtain log where log: "send_bits n (drop_bit 1 v) ?s = ?s\<lparr>mfpic_rtc_shadow := last (z # log), port := port ?s @ log\<rparr>"
    "last (z # log) = (if n = 0 then z else if bit (drop_bit 1 v) (n - 1) then 3 else 2)"
    "\<And>tail. clocked_in (z # log @ tail) = map (bit (drop_bit 1 v)) [0 ..< n] @ clocked_in (last (z # log) # tail)"
    using Suc.IH [OF zs(1), of "drop_bit 1 v"] unfolding zs(2) by blast
  have bits: "map (bit v) [0 ..< Suc n] = odd v # map (bit (drop_bit 1 v)) [0 ..< n]"
    by (simp add: upt_conv_Cons map_Suc_upt [symmetric] bit_0 bit_drop_bit_eq o_def del: upt_Suc)
  have top: "last (mfpic_rtc_shadow s # ?first @ log) = last (z # log)" by (cases log) auto
  have "last (z # log) = (if bit v (Suc n - 1) then 3 else 2)"
    by (cases n) (use log in \<open>auto simp: z_def bit_drop_bit_eq bit_0\<close>)
  then show ?case
    unfolding step log(1) by (intro exI [of _ "?first @ log"]) (use top clk log(3) bits in \<open>simp del: upt_Suc\<close>)
qed (auto intro: exI [of _ "[]"])

lemma send_burst_read:
  assumes "mfpic_rtc_shadow s = 8 \<or> mfpic_rtc_shadow s = 9"
  shows "\<exists>log. rtc_send_byte 0xBF (rtc_set_chipselect True (rtc_set_clk False s)) =
      s\<lparr>mfpic_rtc_shadow := 3, port := port s @ log\<rparr> \<and>
    (\<forall>tail. clocked_in (log @ tail) = map (bit (0xBF :: u8)) [0 ..< 8] @ clocked_in (3 # tail))"
proof -
  let ?s = "rtc_set_chipselect True (rtc_set_clk False s)"
  from assms have sh: "mfpic_rtc_shadow ?s \<in> {0, 1, 2, 3}"
    and s: "port ?s = port s @ [mfpic_rtc_shadow s, mfpic_rtc_shadow ?s]"
    and upd: "?s\<lparr>mfpic_rtc_shadow := 3, port := xs\<rparr> = s\<lparr>mfpic_rtc_shadow := 3, port := xs\<rparr>" for xs
    by (auto simp: rtc_set_chipselect_def rtc_set_clk_def put_shadow_def ds1302_bits)
  from send_bits_wires [OF sh, of 8 "0xBF"] obtain log where
    log: "send_bits 8 0xBF ?s = ?s\<lparr>mfpic_rtc_shadow := 3, port := port ?s @ log\<rparr>"
    "\<And>tail. clocked_in (mfpic_rtc_shadow ?s # log @ tail) = map (bit (0xBF :: u8)) [0 ..< 8] @ clocked_in (3 # tail)"
    by auto
  have quiet: "clocked_in (mfpic_rtc_shadow s # mfpic_rtc_shadow ?s # xs) = clocked_in (mfpic_rtc_shadow ?s # xs)" for xs
    using sh by (auto simp: ds1302_bits)
  show ?thesis
    unfolding rtc_send_byte_def log(1)
    by (intro exI [of _ "mfpic_rtc_shadow s # mfpic_rtc_shadow ?s # log"]) (use quiet log(2) in \<open>simp add: s upd\<close>)
qed

section \<open>The fields of a time stamp\<close>

lemma no_high_bit:
  assumes "unat (w :: 'a :: len word) < 2 ^ k" "k \<le> n"
  shows "\<not> bit w n"
proof -
  have "unat w < 2 ^ n" by (rule order_less_le_trans [OF assms(1)]) (simp add: assms(2))
  then have "\<not> bit (unat w) n" by (simp add: bit_iff_odd)
  then show ?thesis by (auto simp: bit_unsigned_iff dest: bit_imp_le_length)
qed

lemma stamp_fields:
  fixes y mo d h mi s :: u32
  assumes "unat y < 2 ^ 7" "unat mo < 2 ^ 4" "unat d < 2 ^ 5" "unat h < 2 ^ 5" "unat mi < 2 ^ 6" "unat s < 2 ^ 5"
    and st: "st = push_bit 25 y OR push_bit 21 mo OR push_bit 16 d OR push_bit 11 h OR push_bit 5 mi OR s"
  shows "drop_bit 9 (ucast (drop_bit 16 st) :: u16) AND 0x7F = ucast y"
    "drop_bit 5 (ucast (drop_bit 16 st) :: u16) AND 0xF = ucast mo" "(ucast (drop_bit 16 st) :: u16) AND 0x1F = ucast d"
    "drop_bit 11 (ucast st :: u16) = ucast h" "drop_bit 5 (ucast st :: u16) AND 0x3F = ucast mi"
proof -
  note high = assms(1-6) [THEN no_high_bit]
  have low: "bit y n \<Longrightarrow> n < 7" "bit mo n \<Longrightarrow> n < 4" "bit d n \<Longrightarrow> n < 5" "bit h n \<Longrightarrow> n < 5" "bit mi n \<Longrightarrow> n < 6" for n
    by (rule ccontr, simp add: high not_less)+
  have m: "(0x7F :: u16) = mask 7" "(0xF :: u16) = mask 4" "(0x1F :: u16) = mask 5" "(0x3F :: u16) = mask 6"
    by (simp_all add: mask_eq_exp_minus_1)
  note bits = st m bit_simps bit_unsigned_iff high
  show "drop_bit 9 (ucast (drop_bit 16 st) :: u16) AND 0x7F = ucast y"
    by (rule bit_word_eqI) (auto simp: bits; drule low; simp)
  show "drop_bit 5 (ucast (drop_bit 16 st) :: u16) AND 0xF = ucast mo"
    by (rule bit_word_eqI) (auto simp: bits; drule low; simp)
  show "(ucast (drop_bit 16 st) :: u16) AND 0x1F = ucast d"
    by (rule bit_word_eqI) (auto simp: bits; drule low; simp)
  show "drop_bit 11 (ucast st :: u16) = ucast h"
    by (rule bit_word_eqI) (auto simp: bits; drule low; simp)
  show "drop_bit 5 (ucast st :: u16) AND 0x3F = ucast mi"
    by (rule bit_word_eqI) (auto simp: bits; drule low; simp)
qed

section \<open>From the chip to the listing\<close>

text \<open>The date that the five bytes of a clock stand for, in the years from 1980 to 2079.\<close>

definition a_date :: "nat \<Rightarrow> nat \<Rightarrow> nat \<Rightarrow> nat \<Rightarrow> nat \<Rightarrow> nat \<Rightarrow> bool" where
  "a_date y mo d h mi s \<longleftrightarrow> 1980 \<le> y \<and> y < 2080 \<and> mo \<le> 12 \<and> d \<le> 31 \<and> h < 24 \<and> mi < 60 \<and> s < 60"

definition the_time :: "nat \<Rightarrow> nat \<Rightarrow> nat \<Rightarrow> nat \<Rightarrow> nat \<Rightarrow> nat \<Rightarrow> rtc_time_t" where
  "the_time y mo d h mi s = \<lparr>year = of_nat y, month = of_nat mo, day = of_nat d, hour = of_nat h, minute = of_nat mi, second = of_nat s\<rparr>"

lemma full_year_nat:
  assumes "n < 100"
  shows "full_year (of_nat n) = of_nat (n + (if 80 \<le> n then 1900 else 2000))"
proof -
  have "unat (of_nat n :: u16) = n" using assms by (simp add: unat_of_nat take_bit_nat_eq_self)
  then have "(80 :: u16) \<le> of_nat n \<longleftrightarrow> 80 \<le> n" by (simp add: word_le_nat_alt)
  then show ?thesis by (simp add: full_year_def)
qed

lemma full_year_bcd:
  assumes "1980 \<le> y" "y < 2080"
  shows "full_year (of_int (decode_bcd_byte (bcd (y mod 100)))) = of_nat y"
proof -
  define n where "n = y mod 100"
  define q where "q = y div 100"
  have y: "y = 100 * q + n" "n < 100" by (simp_all add: n_def q_def)
  then have "q = 19 \<or> q = 20" using assms by linarith
  then have n: "n < 100" "n + (if 80 \<le> n then 1900 else 2000) = y" using y assms by auto
  show ?thesis using full_year_nat [OF n(1)] n by (simp add: decode_bcd n_def [symmetric])
qed

text \<open>A log in which the port never drives the line.\<close>

definition quiet :: "u8 list \<Rightarrow> bool" where
  "quiet log \<longleftrightarrow> (\<forall>b \<in> set log. b AND MFPIC_DS1302_WREN_BIT = 0)"

lemma read_byte_quiet:
  assumes "wires v as" "answers s = as @ rest" "mfpic_rtc_shadow s = 1 \<or> mfpic_rtc_shadow s = 3"
  obtains t log where "rtc_read_byte s = Some (v, t)" "answers t = rest" "mfpic_rtc_shadow t = 1"
    "port t = port s @ log" "quiet log"
  using read_byte_wires [OF assms] quiet_reads [of 8] by (auto simp: quiet_def)

lemma rtc_burst:
  assumes "mfpic_rtc_shadow s = 8 \<or> mfpic_rtc_shadow s = 9" "answers s = concat ass @ rest"
    and "list_all2 wires [sec, mi, hr, dy, mon, wk, yr] ass"
  shows "\<exists>t. rtc_read_clock s = Some (\<lparr>year = full_year (of_int (decode_bcd_byte yr)), month = of_int (decode_bcd_byte mon),
         day = of_int (decode_bcd_byte dy), hour = of_int (decode_bcd_byte (hour_24 hr)),
         minute = of_int (decode_bcd_byte mi), second = of_int (decode_bcd_byte (sec AND 0x7F))\<rparr>, t) \<and>
    answers t = rest \<and> mfpic_rtc_shadow t = 9 \<and>
    (\<exists>log. port t = port s @ log \<and> clocked_in log = map (bit (0xBF :: u8)) [0 ..< 8])"
proof -
  obtain a1 a2 a3 a4 a5 a6 a7 where ass: "ass = [a1, a2, a3, a4, a5, a6, a7]"
    using assms(3) by (auto simp: list_all2_Cons1)
  have w: "wires sec a1" "wires mi a2" "wires hr a3" "wires dy a4" "wires mon a5" "wires wk a6" "wires yr a7"
    using assms(3) by (auto simp: ass)
  obtain log where send: "rtc_send_byte 0xBF (rtc_set_chipselect True (rtc_set_clk False s)) =
      s\<lparr>mfpic_rtc_shadow := 3, port := port s @ log\<rparr>"
    "\<And>tail. clocked_in (log @ tail) = map (bit (0xBF :: u8)) [0 ..< 8] @ clocked_in (3 # tail)"
    using send_burst_read [OF assms(1)] by blast
  let ?s = "s\<lparr>mfpic_rtc_shadow := 3, port := port s @ log\<rparr>"
  have s0: "answers ?s = a1 @ a2 @ a3 @ a4 @ a5 @ a6 @ a7 @ rest" "mfpic_rtc_shadow ?s = 1 \<or> mfpic_rtc_shadow ?s = 3"
    using assms(2) by (simp_all add: ass)
  obtain t1 l1 where t1: "rtc_read_byte ?s = Some (sec, t1)" "answers t1 = a2 @ a3 @ a4 @ a5 @ a6 @ a7 @ rest"
    "mfpic_rtc_shadow t1 = 1" "port t1 = port ?s @ l1" "quiet l1"
    by (rule read_byte_quiet [OF w(1) s0(1) s0(2)])
  obtain t2 l2 where t2: "rtc_read_byte t1 = Some (mi, t2)" "answers t2 = a3 @ a4 @ a5 @ a6 @ a7 @ rest"
    "mfpic_rtc_shadow t2 = 1" "port t2 = port t1 @ l2" "quiet l2"
    by (rule read_byte_quiet [OF w(2) t1(2) disjI1 [OF t1(3)]])
  obtain t3 l3 where t3: "rtc_read_byte t2 = Some (hr, t3)" "answers t3 = a4 @ a5 @ a6 @ a7 @ rest"
    "mfpic_rtc_shadow t3 = 1" "port t3 = port t2 @ l3" "quiet l3"
    by (rule read_byte_quiet [OF w(3) t2(2) disjI1 [OF t2(3)]])
  obtain t4 l4 where t4: "rtc_read_byte t3 = Some (dy, t4)" "answers t4 = a5 @ a6 @ a7 @ rest"
    "mfpic_rtc_shadow t4 = 1" "port t4 = port t3 @ l4" "quiet l4"
    by (rule read_byte_quiet [OF w(4) t3(2) disjI1 [OF t3(3)]])
  obtain t5 l5 where t5: "rtc_read_byte t4 = Some (mon, t5)" "answers t5 = a6 @ a7 @ rest"
    "mfpic_rtc_shadow t5 = 1" "port t5 = port t4 @ l5" "quiet l5"
    by (rule read_byte_quiet [OF w(5) t4(2) disjI1 [OF t4(3)]])
  obtain t6 l6 where t6: "rtc_read_byte t5 = Some (wk, t6)" "answers t6 = a7 @ rest"
    "mfpic_rtc_shadow t6 = 1" "port t6 = port t5 @ l6" "quiet l6"
    by (rule read_byte_quiet [OF w(6) t5(2) disjI1 [OF t5(3)]])
  obtain t7 l7 where t7: "rtc_read_byte t6 = Some (yr, t7)" "answers t7 = rest"
    "mfpic_rtc_shadow t7 = 1" "port t7 = port t6 @ l7" "quiet l7"
    by (rule read_byte_quiet [OF w(7) t6(2) disjI1 [OF t6(3)]])
  let ?quiet = "l1 @ l2 @ l3 @ l4 @ l5 @ l6 @ l7 @ [1, 9, 9]"
  have idle: "rtc_idle t7 = t7\<lparr>mfpic_rtc_shadow := 9, port := port t7 @ [1, 9, 9]\<rparr>"
    using t7(3) by (simp add: rtc_idle_def rtc_set_clk_def rtc_set_chipselect_def rtc_set_data_direction_def put_shadow_def ds1302_bits)
  have "port t7 = port s @ log @ l1 @ l2 @ l3 @ l4 @ l5 @ l6 @ l7"
    using t1(4) t2(4) t3(4) t4(4) t5(4) t6(4) t7(4) by simp
  moreover have "quiet ?quiet"
    using t1(5) t2(5) t3(5) t4(5) t5(5) t6(5) t7(5) by (auto simp: quiet_def ds1302_bits)
  then have "clocked_in (log @ ?quiet) = map (bit (0xBF :: u8)) [0 ..< 8]"
    unfolding send(2) using clocked_in_quiet [of ?quiet 3] by (simp add: quiet_def)
  ultimately have "\<exists>log. port (rtc_idle t7) = port s @ log \<and> clocked_in log = map (bit (0xBF :: u8)) [0 ..< 8]"
    unfolding idle by (intro exI [of _ "log @ ?quiet"]) simp
  then show ?thesis
    unfolding rtc_read_clock_def send(1)
    by (simp add: Let_def t1(1) t2(1) t3(1) t4(1) t5(1) t6(1) t7(1) idle t7(2))
qed

lemma stamp_listed:
  assumes "a_date y mo d h mi sec"
    and e: "fdate e = ucast (drop_bit 16 (get_fattime (the_time y mo d h mi sec)))" "ftime e = ucast (get_fattime (the_time y mo d h mi sec))"
  shows "\<exists>size. ls_entry e = Entry size (int y) (int mo) (int d) (int h) (int mi) (fname e)"
proof -
  note date = assms(1) [unfolded a_date_def]
  define yy :: u32 where "yy = of_int (uint (year (the_time y mo d h mi sec)) - 1980)"
  have small: "uint (of_nat k :: u16) = int k" if "k < 2080" for k
    using that by (simp add: unsigned_of_nat take_bit_nat_eq_self take_bit_int_eq_self)
  have tiny: "unat (ucast (of_nat k :: u8) :: u32) = k" "(ucast (ucast (of_nat k :: u8) :: u32) :: u16) = of_nat k" if "k < 60" for k
    using that by (simp_all add: unsigned_of_nat unsigned_ucast_eq take_bit_nat_eq_self word_eq_iff_unsigned)
  define k where "k = y - 1980"
  then have y: "y = k + 1980" "k < 100" using date by auto
  have yy: "yy = of_nat k" using small [of y] y by (simp add: yy_def the_time_def)
  have y7: "unat yy = k" "(ucast yy :: u16) = of_nat k"
    using y(2) by (simp_all add: yy unsigned_of_nat take_bit_nat_eq_self word_eq_iff_unsigned)
  have half: "unat (drop_bit 1 (ucast (of_nat sec :: u8) :: u32)) < 2 ^ 5"
  proof -
    have "sec < 60" using date by simp
    from tiny(1) [OF this] this show ?thesis by (simp only: unat_drop_bit_eq) (simp add: drop_bit_eq_div)
  qed
  note fields = stamp_fields [OF _ _ _ _ _ half, of yy "ucast (of_nat mo :: u8)" "ucast (of_nat d :: u8)" "ucast (of_nat h :: u8)"
      "ucast (of_nat mi :: u8)" "get_fattime (the_time y mo d h mi sec)"]
  have st: "get_fattime (the_time y mo d h mi sec) = push_bit 25 yy OR push_bit 21 (ucast (of_nat mo :: u8)) OR
      push_bit 16 (ucast (of_nat d :: u8)) OR push_bit 11 (ucast (of_nat h :: u8)) OR push_bit 5 (ucast (of_nat mi :: u8)) OR
      drop_bit 1 (ucast (of_nat sec :: u8))"
    by (simp add: get_fattime_def the_time_def yy_def)
  have u: "uint (of_nat k :: u16) = int k" if "k < 100" for k using small [of k] that by simp
  show ?thesis
    unfolding ls_entry_def e
    using fields [OF _ _ _ _ _ st] y7 tiny [of mo] tiny [of d] tiny [of h] tiny [of mi] date y u by simp
qed


text \<open>A quarter to six in the evening of a day in 2023.\<close>

definition sample_clock :: "u8 list" where
  "sample_clock = [bcd 58, bcd 45, bcd 17, bcd 16, bcd 9, 7, bcd 23]"

definition sample_wires :: "u8 list list" where
  "sample_wires = map (\<lambda>v. map (\<lambda>i. of_bool (bit v i)) [0 ..< 8]) sample_clock"

lemma sample_wires: "list_all2 wires sample_clock sample_wires"
  by (auto simp: sample_wires_def list.rel_map wires_def ds1302_bits intro!: list.rel_refl)


text \<open>In 12-hour mode the hours from 1 PM to 11 PM are right, but noon becomes 24 and midnight 12.\<close>

lemma twelve_hour_mode:
  "\<forall>n \<in> set [1 ..< 12]. decode_bcd_byte (hour_24 (0xA0 OR bcd n)) = int n + 12"
  "decode_bcd_byte (hour_24 (0xA0 OR bcd 12)) = 24" "decode_bcd_byte (hour_24 (0x80 OR bcd 12)) = 12"
  by code_simp+

end
