(* ===== verification/Memtest.thy ===== *)
theory Memtest
  imports Loader Uart
begin

text \<open>
  The memory test, \<^verbatim>\<open>core/memtest.c\<close>. The memory is written as it is; what reading a long word returns is the
  parameter \<open>peek\<close>, so that faulty memory can be described. The inline assembler loops are modelled by their
  instructions: their counter is the 16-bit one of \<^verbatim>\<open>dbf\<close>. The keys are what the serial port has before each
  chunk; waiting for more than these is \<open>None\<close>. Progress and the pump of the network are left out.
\<close>

section \<open>Filling and checking\<close>

definition lfsr :: "u32 \<Rightarrow> u32" where
  "lfsr x = (if bit x 0 then drop_bit 1 x XOR 0x80000062 else drop_bit 1 x)"

definition put_long :: "u32 \<Rightarrow> u32 \<Rightarrow> memory \<Rightarrow> memory" where "put_long a w m = store a (bytes32 w) m"
definition put_word :: "u32 \<Rightarrow> u16 \<Rightarrow> memory \<Rightarrow> memory" where "put_word a w m = store a (bytes16 w) m"

text \<open>The turns of a loop over the long words from \<open>start\<close> to \<open>end\<close>, by fours, with a 16-bit counter.\<close>

definition dbf_turns :: "u32 \<Rightarrow> u32 \<Rightarrow> nat" where
  "dbf_turns start bound = (let y = drop_bit 2 (bound - start) div 4 - 1 in Suc (unat (ucast y :: u16)))"

fun fill_32_loop :: "u32 \<Rightarrow> u32 \<Rightarrow> nat \<Rightarrow> memory \<Rightarrow> memory" where
  "fill_32_loop fill a 0 m = m"
| "fill_32_loop fill a (Suc n) m =
     fill_32_loop fill (a + 16) n (put_long (a + 12) fill (put_long (a + 8) fill (put_long (a + 4) fill (put_long a fill m))))"

definition fill_32 :: "u32 \<Rightarrow> u32 \<Rightarrow> u32 \<Rightarrow> memory \<Rightarrow> memory" where
  "fill_32 fill start bound m = fill_32_loop fill start (dbf_turns start bound) m"

fun fill_alt_loop :: "u16 \<Rightarrow> u32 \<Rightarrow> nat \<Rightarrow> memory \<Rightarrow> memory" where
  "fill_alt_loop fill a 0 m = m"
| "fill_alt_loop fill a (Suc n) m =
     fill_alt_loop fill (a + 16) n (put_word (a + 12) fill (put_word (a + 8) fill (put_word (a + 4) fill (put_word a fill m))))"

definition fill_alt_16 :: "u16 \<Rightarrow> u16 \<Rightarrow> u32 \<Rightarrow> u32 \<Rightarrow> memory \<Rightarrow> memory" where
  "fill_alt_16 fill shift start bound m = fill_alt_loop fill (start + ucast shift) (dbf_turns start bound) m"

fun check_loop :: "(u32 \<Rightarrow> memory \<Rightarrow> u32) \<Rightarrow> u32 \<Rightarrow> u32 \<Rightarrow> nat \<Rightarrow> u32 \<Rightarrow> memory \<Rightarrow> u32" where
  "check_loop peek check a 0 v m = v"
| "check_loop peek check a (Suc n) v m =
     check_loop peek check (a + 16) n
       (v OR (peek a m XOR check) OR (peek (a + 4) m XOR check) OR (peek (a + 8) m XOR check) OR (peek (a + 12) m XOR check)) m"

text \<open>Both halves of the error bits are merged into 16 bits.\<close>

definition check_pattern :: "(u32 \<Rightarrow> memory \<Rightarrow> u32) \<Rightarrow> u32 \<Rightarrow> u32 \<Rightarrow> u32 \<Rightarrow> memory \<Rightarrow> u16" where
  "check_pattern peek check start bound m =
     (let v = check_loop peek check start (dbf_turns start bound) 0 m in ucast v OR ucast (drop_bit 16 v))"

text \<open>The loops of the random numbers end when the pointer meets the end; both are multiples of 16.\<close>

fun random_fill :: "u32 \<Rightarrow> nat \<Rightarrow> u32 \<Rightarrow> memory \<Rightarrow> u32 \<times> memory" where
  "random_fill a 0 x m = (x, m)"
| "random_fill a (Suc n) x m =
     (let x1 = lfsr x; x2 = lfsr x1; x3 = lfsr x2; x4 = lfsr x3 in
      random_fill (a + 16) n x4 (put_long (a + 12) x4 (put_long (a + 8) x3 (put_long (a + 4) x2 (put_long a x1 m)))))"

fun random_check :: "(u32 \<Rightarrow> memory \<Rightarrow> u32) \<Rightarrow> u32 \<Rightarrow> nat \<Rightarrow> u32 \<Rightarrow> u32 \<Rightarrow> memory \<Rightarrow> u32 \<times> u32" where
  "random_check peek a 0 x v m = (x, v)"
| "random_check peek a (Suc n) x v m =
     (let x1 = lfsr x; x2 = lfsr x1; x3 = lfsr x2; x4 = lfsr x3 in
      random_check peek (a + 16) n x4
        (v OR (peek a m XOR x1) OR (peek (a + 4) m XOR x2) OR (peek (a + 8) m XOR x3) OR (peek (a + 12) m XOR x4)) m)"

section \<open>One range\<close>

datatype cache = CACHE_FULL | CACHE_NODATA | CACHE_NONE | CACHE_INIT

record test_memory_args =
  round_no :: u32
  subround :: nat
  start_addr :: u32
  end_addr :: u32
  seed :: u32
  saved_seed :: u32
  error_counter :: u32
  cache_mode :: cache
  spinner :: int

text \<open>A report is the range and the error bits.\<close>

type_synonym report = "u32 \<times> u32 \<times> u32"

definition blocks_between :: "u32 \<Rightarrow> u32 \<Rightarrow> nat" where
  "blocks_between start bound = unat (bound - start) div 16"

definition run_subround ::
  "(u32 \<Rightarrow> memory \<Rightarrow> u32) \<Rightarrow> nat \<Rightarrow> u32 \<Rightarrow> u32 \<Rightarrow> u32 \<Rightarrow> memory \<Rightarrow> u32 \<times> u32 \<times> memory" where
  "run_subround peek sub x s e m =
     (if sub = 0 then (case random_fill s (blocks_between s e) x m of (x, m) \<Rightarrow> (x, 0, m))
      else if sub = 1 then (case random_check peek s (blocks_between s e) x 0 m of (x, a) \<Rightarrow> (x, a, m))
      else if sub = 2 then (x, 0, fill_alt_16 (- 1) 0 s e (fill_32 0 s e m))
      else if sub = 3 then (x, ucast (check_pattern peek 0xFFFF0000 s e m), m)
      else if sub = 4 then (x, 0, fill_alt_16 (- 1) 2 s e (fill_32 0 s e m))
      else if sub = 5 then (x, ucast (check_pattern peek 0x0000FFFF s e m), m)
      else if sub = 6 then (x, 0, fill_alt_16 0 0 s e (fill_32 (- 1) s e m))
      else if sub = 7 then (x, ucast (check_pattern peek 0x0000FFFF s e m), m)
      else if sub = 8 then (x, 0, fill_alt_16 0 2 s e (fill_32 (- 1) s e m))
      else if sub = 9 then (x, ucast (check_pattern peek 0xFFFF0000 s e m), m)
      else (x, 0, m))"

definition test_memory_range ::
  "(u32 \<Rightarrow> memory \<Rightarrow> u32) \<Rightarrow> test_memory_args \<Rightarrow> memory \<Rightarrow> report list \<times> test_memory_args \<times> memory" where
  "test_memory_range peek args m =
     (let s = (start_addr args + 15) AND NOT 15; e = end_addr args AND NOT 15 in
      if s \<ge> e then ([], args, m)
      else
        (let args = args\<lparr>spinner := (spinner args + 1) mod 4\<rparr> in
         case run_subround peek (subround args) (seed args) s e m of (x, a, m) \<Rightarrow>
           let args = args\<lparr>seed := x\<rparr> in
           if a \<noteq> 0 then ([(s, e - 1, a)], args\<lparr>error_counter := error_counter args + 1\<rparr>, m) else ([], args, m)))"

section \<open>The rounds\<close>

definition print_memory_test_type :: "test_memory_args \<Rightarrow> test_memory_args" where
  "print_memory_test_type args =
     (if subround args = 0 then args\<lparr>saved_seed := seed args\<rparr>
      else if subround args = 1 then args\<lparr>seed := saved_seed args\<rparr>
      else args)"

definition next_cache :: "cache \<Rightarrow> cache" where
  "next_cache c = (case c of CACHE_FULL \<Rightarrow> CACHE_NODATA | CACHE_NODATA \<Rightarrow> CACHE_NONE | _ \<Rightarrow> CACHE_FULL)"

text \<open>Only from the 68020 on are there caches.\<close>

definition memory_test_next_cpu_cache_mode :: "bool \<Rightarrow> test_memory_args \<Rightarrow> test_memory_args" where
  "memory_test_next_cpu_cache_mode cpu_68020 args =
     (if cpu_68020 then args\<lparr>cache_mode := next_cache (cache_mode args)\<rparr> else args)"

definition init_memory_test :: "bool \<Rightarrow> test_memory_args" where
  "init_memory_test cpu_68020 =
     print_memory_test_type (memory_test_next_cpu_cache_mode cpu_68020
       \<lparr>round_no = 0, subround = 0, start_addr = 0, end_addr = 0, seed = 0x12341234, saved_seed = 0, error_counter = 0,
        cache_mode = CACHE_INIT, spinner = 0\<rparr>)"

definition memory_test_next_subround :: "bool \<Rightarrow> test_memory_args \<Rightarrow> test_memory_args" where
  "memory_test_next_subround cpu_68020 args =
     print_memory_test_type
       (if subround args = 9
        then memory_test_next_cpu_cache_mode cpu_68020 (args\<lparr>subround := 0, round_no := round_no args + 1\<rparr>)
        else args\<lparr>subround := subround args + 1\<rparr>)"

definition TEST_CHUNK_SIZE :: u32 where "TEST_CHUNK_SIZE = 0x80000"

text \<open>The end and the sz of the next chunk.\<close>

definition next_chunk :: "u32 \<Rightarrow> u32 \<Rightarrow> u32 \<times> u32" where
  "next_chunk start remain =
     (let sz = (if remain > TEST_CHUNK_SIZE then TEST_CHUNK_SIZE else remain);
          bound = start + sz;
          edge = bound AND NOT (TEST_CHUNK_SIZE - 1)
      in if edge \<noteq> bound \<and> edge > start then (edge, edge - start) else (bound, sz))"

text \<open>The result says whether the test was cancelled.\<close>

fun test_pass ::
  "(u32 \<Rightarrow> memory \<Rightarrow> u32) \<Rightarrow> u32 \<Rightarrow> int list \<Rightarrow> test_memory_args \<Rightarrow> memory \<Rightarrow>
   (bool \<times> int list \<times> report list \<times> test_memory_args \<times> memory) option" where
  "test_pass peek remain keys args m =
     (if remain = 0 then Some (False, keys, [], args, m)
      else
        (case keys of
           [] \<Rightarrow> None
         | key # keys \<Rightarrow>
             (case next_chunk (start_addr args) remain of (bound, sz) \<Rightarrow>
                let args = args\<lparr>end_addr := bound\<rparr> in
                if cancel_byte key then Some (True, keys, [], args\<lparr>start_addr := start_addr args + sz\<rparr>, m)
                else
                  (case test_memory_range peek args m of (rs, args, m) \<Rightarrow>
                     map_option (\<lambda>(cancelled, keys, rs', args, m). (cancelled, keys, rs @ rs', args, m))
                       (test_pass peek (remain - sz) keys (args\<lparr>start_addr := start_addr args + sz\<rparr>) m)))))"

declare test_pass.simps [simp del]

partial_function (option) test_rounds ::
  "(u32 \<Rightarrow> memory \<Rightarrow> u32) \<Rightarrow> bool \<Rightarrow> u32 \<Rightarrow> u32 \<Rightarrow> int list \<Rightarrow> test_memory_args \<Rightarrow> report list \<Rightarrow> memory \<Rightarrow>
   (report list \<times> test_memory_args \<times> memory) option" where
  "test_rounds peek cpu_68020 base sz keys args rs m =
     (case test_pass peek sz keys (args\<lparr>start_addr := base\<rparr>) m of
        None \<Rightarrow> None
      | Some (cancelled, keys, rs', args, m) \<Rightarrow>
          if cancelled then Some (rs @ rs', args, m)
          else test_rounds peek cpu_68020 base sz keys (memory_test_next_subround cpu_68020 args) (rs @ rs') m)"

text \<open>The first component is the refusal of a range.\<close>

definition memory_test ::
  "(u32 \<Rightarrow> memory \<Rightarrow> u32) \<Rightarrow> bool \<Rightarrow> layout \<Rightarrow> u32 \<Rightarrow> u32 \<Rightarrow> int list \<Rightarrow> memory \<Rightarrow>
   (range_error option \<times> report list \<times> memory) option" where
  "memory_test peek cpu_68020 l base sz keys m =
     (if sz = 0 then Some (None, [], m)
      else
        (case check_writable_range l base sz False of
           Some err \<Rightarrow> Some (Some err, [], m)
         | None \<Rightarrow> map_option (\<lambda>(rs, args, m). (None, rs, m))
             (test_rounds peek cpu_68020 base sz keys (init_memory_test cpu_68020) [] m)))"

end
