(* ===== verification/Memtest_Sound.thy ===== *)
theory Memtest_Sound
  imports Memtest
begin

text \<open>
  What the memory test of theory \<open>Memtest\<close> finds: nothing on memory that keeps what is written, every bit that is
  stuck; it writes only the range it was given, and it ends with the first key that cancels it.
\<close>

section \<open>Long words\<close>

text \<open>The loops write the long words in order: a whole one, its upper half or its lower half.\<close>

datatype access = Put u32 | High u16 | Low u16

fun access_at :: "u32 \<Rightarrow> access \<Rightarrow> memory \<Rightarrow> memory" where
  "access_at a (Put w) m = put_long a w m"
| "access_at a (High v) m = put_word a v m"
| "access_at a (Low v) m = put_word (a + 2) v m"

fun combine :: "access \<Rightarrow> u32 \<Rightarrow> u32" where
  "combine (Put w) old = w"
| "combine (High v) old = push_bit 16 (ucast v) OR take_bit 16 old"
| "combine (Low v) old = push_bit 16 (drop_bit 16 old) OR ucast v"

fun accesses :: "u32 \<Rightarrow> access list \<Rightarrow> memory \<Rightarrow> memory" where
  "accesses a [] m = m"
| "accesses a (s # ss) m = accesses (a + 4) ss (access_at a s m)"

fun peeks :: "(u32 \<Rightarrow> memory \<Rightarrow> u32) \<Rightarrow> u32 \<Rightarrow> nat \<Rightarrow> memory \<Rightarrow> u32 list" where
  "peeks peek a 0 m = []"
| "peeks peek a (Suc k) m = peek a m # peeks peek (a + 4) k m"

text \<open>Memory that returns what was written.\<close>

definition ideal :: "u32 \<Rightarrow> memory \<Rightarrow> u32" where "ideal a m = mem32 m a"

lemma access_other:
  assumes "4 \<le> unat (x - a)"
  shows "access_at a s m x = m x"
proof (cases s)
  case (Low v)
  have "unat (x - a - 2) = unat (x - a) - 2" using assms by (subst unat_sub) (simp_all add: word_le_nat_alt)
  then have "\<not> unat (x - (a + 2)) < 2" using assms by (simp add: diff_diff_eq)
  then show ?thesis using Low by (simp add: put_word_def store_def)
qed (use assms in \<open>simp_all add: put_long_def put_word_def store_def\<close>)

lemma offset_four: "unat (a + of_nat j - (a + 4) :: u32) = 2 ^ 32 - 4 + j" if "j < 4"
proof -
  have e: "a + of_nat j - (a + 4) = of_nat (2 ^ 32 - 4 + j)" by simp
  show ?thesis unfolding e by (rule u32_unat_of_nat) (use that in simp)
qed

lemma quarters: "n < LENGTH(32) \<Longrightarrow> n < 8 \<or> 8 \<le> n \<and> n < 16 \<or> 16 \<le> n \<and> n < 24 \<or> 24 \<le> n \<and> n < 32"
  by auto

lemma access_same: "mem32 (access_at a s m) a = combine s (mem32 m a)"
proof (cases s)
  case (Put w)
  have "mem32 (put_long a w m) a = be32 (bytes32 w ! 0) (bytes32 w ! 1) (bytes32 w ! 2) (bytes32 w ! 3)"
    by (simp add: mem32_def put_long_def store_def)
  then show ?thesis using Put be32_bytes32 by simp
next
  case (High v)
  have "mem32 (put_word a v m) a = be32 (bytes16 v ! 0) (bytes16 v ! 1) (m (a + 2)) (m (a + 3))"
    by (simp add: mem32_def put_word_def store_def)
  also have "\<dots> = combine (High v) (mem32 m a)"
    by (rule bit_word_eqI, drule quarters) (elim disjE; auto simp: be32_def bytes16_def mem32_def bit_simps dest: bit_imp_le_length)
  finally show ?thesis using High by simp
next
  case (Low v)
  have e: "a + 3 - (a + 2) = 1" "a - (a + 2) = - 2" "a + 1 - (a + 2) = - 1" by simp_all
  have "mem32 (put_word (a + 2) v m) a = be32 (m a) (m (a + 1)) (bytes16 v ! 0) (bytes16 v ! 1)"
    by (simp add: mem32_def put_word_def store_def e unsigned_minus_1_eq_mask mask_eq_exp_minus_1)
  also have "\<dots> = combine (Low v) (mem32 m a)"
    by (rule bit_word_eqI, drule quarters) (elim disjE; auto simp: be32_def bytes16_def mem32_def bit_simps dest: bit_imp_le_length)
  finally show ?thesis using Low by simp
qed

lemma ideal_same: "ideal a (access_at a s m) = combine s (ideal a m)"
  by (simp add: ideal_def access_same)

lemma accesses_outside: "4 * length ss \<le> unat (x - a) \<Longrightarrow> accesses a ss m x = m x"
proof (induction ss arbitrary: a m)
  case (Cons s ss)
  have "unat (x - a - 4) = unat (x - a) - 4" using Cons.prems by (subst unat_sub) (simp_all add: word_le_nat_alt)
  then have "unat (x - (a + 4)) = unat (x - a) - 4" by (simp add: diff_diff_eq)
  then have "accesses (a + 4) ss (access_at a s m) x = access_at a s m x" using Cons by simp
  then show ?case using access_other [of x a s m] Cons.prems by simp
qed simp

lemma ideal_cong: "(\<And>j. j < 4 \<Longrightarrow> m (a + of_nat j) = m' (a + of_nat j)) \<Longrightarrow> ideal a m = ideal a m'"
proof -
  assume e: "\<And>j. j < 4 \<Longrightarrow> m (a + of_nat j) = m' (a + of_nat j)"
  show ?thesis using e [of 0] e [of 1] e [of 2] e [of 3] by (simp add: ideal_def mem32_def)
qed

lemma unat_plus_le: "unat (y + z :: u32) \<le> unat y + unat z"
  by (simp add: unat_word_ariths)

lemma longs_cong:
  "4 * k \<le> 2 ^ 32 \<Longrightarrow> (\<And>x. unat (x - a) < 4 * k \<Longrightarrow> m x = m' x) \<Longrightarrow> peeks ideal a k m = peeks ideal a k m'"
proof (induction k arbitrary: a)
  case (Suc k)
  have "ideal a m = ideal a m'"
    by (rule ideal_cong, rule Suc.prems(2)) (simp add: unat_of_nat take_bit_nat_eq_self)
  moreover have "peeks ideal (a + 4) k m = peeks ideal (a + 4) k m'"
  proof (rule Suc.IH)
    fix x :: u32 assume "unat (x - (a + 4)) < 4 * k"
    moreover have "unat (x - (a + 4) + 4) \<le> unat (x - (a + 4)) + unat (4 :: u32)" by (rule unat_plus_le)
    ultimately have "unat (x - (a + 4) + 4) < 4 * Suc k" by simp
    then show "m x = m' x" by (intro Suc.prems(2)) simp
  qed (use Suc.prems in simp)
  ultimately show ?case by simp
qed simp

lemma longs_accesses:
  "4 * length ss \<le> 2 ^ 32 \<Longrightarrow> peeks ideal a (length ss) (accesses a ss m) = map2 combine ss (peeks ideal a (length ss) m)"
proof (induction ss arbitrary: a m)
  case (Cons s ss)
  let ?m = "access_at a s m"
  have "ideal a (accesses (a + 4) ss ?m) = ideal a ?m"
  proof (rule ideal_cong)
    fix j :: nat assume j: "j < 4"
    show "accesses (a + 4) ss ?m (a + of_nat j) = ?m (a + of_nat j)"
      by (rule accesses_outside) (use Cons.prems offset_four [OF j] in simp)
  qed
  moreover have "peeks ideal (a + 4) (length ss) ?m = peeks ideal (a + 4) (length ss) m"
  proof (rule longs_cong)
    fix x :: u32 assume x: "unat (x - (a + 4)) < 4 * length ss"
    then have "unat (x - (a + 4) + 4) = unat (x - (a + 4)) + 4" using Cons.prems by (intro unat_add_lem [THEN iffD1, THEN trans]) simp_all
    then show "?m x = m x" by (intro access_other) simp
  qed (use Cons.prems in simp)
  ultimately show ?case using Cons ideal_same [of a s m] by simp
qed simp

section \<open>The loops\<close>

fun lfsrs :: "nat \<Rightarrow> u32 \<Rightarrow> u32 list" where
  "lfsrs 0 x = []"
| "lfsrs (Suc k) x = lfsr x # lfsrs k (lfsr x)"

definition ors :: "u32 list \<Rightarrow> u32" where "ors ws = foldr (OR) ws 0"

lemma four_more: "4 * Suc n = Suc (Suc (Suc (Suc (4 * n))))"
  by simp

lemma length_lfsrs [simp]: "length (lfsrs k x) = k"
  by (induction k arbitrary: x) auto

lemma length_peeks [simp]: "length (peeks peek a k m) = k"
  by (induction k arbitrary: a) auto

lemma fill_32_accesses: "fill_32_loop fill a n m = accesses a (replicate (4 * n) (Put fill)) m"
  by (induction n arbitrary: a m) (simp_all add: four_more add.assoc del: mult_Suc_right)

lemma fill_high_accesses: "fill_alt_loop fill a n m = accesses a (replicate (4 * n) (High fill)) m"
  by (induction n arbitrary: a m) (simp_all add: four_more add.assoc del: mult_Suc_right)

lemma fill_low_accesses: "fill_alt_loop fill (a + 2) n m = accesses a (replicate (4 * n) (Low fill)) m"
proof (induction n arbitrary: a m)
  case (Suc n)
  show ?case using Suc.IH [of "a + 16"] by (simp add: four_more add.assoc del: mult_Suc_right)
qed simp

lemma random_fill_accesses: "random_fill a n x m = ((lfsr ^^ (4 * n)) x, accesses a (map Put (lfsrs (4 * n) x)) m)"
  by (induction n arbitrary: a x m) (simp_all add: four_more add.assoc funpow_swap1 Let_def del: mult_Suc_right)

lemma ors_simps [simp]: "ors [] = 0" "ors (w # ws) = w OR ors ws"
  by (simp_all add: ors_def)

lemma check_loop_ors: "check_loop peek check a n v m = v OR ors (map (\<lambda>w. w XOR check) (peeks peek a (4 * n) m))"
  by (induction n arbitrary: a v) (simp_all add: four_more add.assoc or.assoc del: mult_Suc_right)

lemma random_check_ors:
  "random_check peek a n x v m = ((lfsr ^^ (4 * n)) x, v OR ors (map2 (XOR) (peeks peek a (4 * n) m) (lfsrs (4 * n) x)))"
  by (induction n arbitrary: a x v) (simp_all add: four_more add.assoc or.assoc funpow_swap1 Let_def del: mult_Suc_right)

lemma or_zero: "a OR b = 0 \<longleftrightarrow> a = 0 \<and> b = (0 :: 'a :: len word)"
  by (auto simp: bit_eq_iff bit_or_iff)

lemma xor_zero: "a XOR b = 0 \<longleftrightarrow> a = (b :: 'a :: len word)"
  by (metis xor.assoc xor_self_eq xor.left_neutral xor.right_neutral)

lemma ors_zero: "length vs = length ws \<Longrightarrow> ors (map2 (XOR) vs ws) = 0 \<longleftrightarrow> vs = ws"
  by (induction vs ws rule: list_induct2) (simp_all add: or_zero xor_zero)

lemma ors_check: "ors (map (\<lambda>w. w XOR check) ws) = 0 \<longleftrightarrow> ws = replicate (length ws) check"
  by (induction ws) (simp_all add: or_zero xor_zero)

lemma halves_zero: "(ucast v :: u16) OR ucast (drop_bit 16 v) = 0 \<longleftrightarrow> v = (0 :: u32)"
proof
  assume z: "(ucast v :: u16) OR ucast (drop_bit 16 v) = 0"
  show "v = 0"
  proof (rule bit_word_eqI)
    fix n assume n: "n < LENGTH(32)"
    have zs: "\<not> bit (ucast v :: u16) k" "\<not> bit (ucast (drop_bit 16 v) :: u16) k" for k using z by (simp_all add: or_zero)
    have "16 + (n - 16) = n" if "\<not> n < 16" using that by simp
    then show "bit v n = bit (0 :: u32) n"
      using zs(1) [of n] zs(2) [of "n - 16"] n by (cases "n < 16") (auto simp: bit_unsigned_iff bit_drop_bit_eq)
  qed
qed simp

section \<open>One subround on one range\<close>

text \<open>A range of whole blocks of 16 bytes.\<close>

definition blocks_at :: "u32 \<Rightarrow> u32 \<Rightarrow> nat \<Rightarrow> bool" where
  "blocks_at s e k \<longleftrightarrow> 0 < k \<and> k \<le> 2 ^ 16 \<and> unat (e - s) = 16 * k"

lemma blocks_at_turns: "blocks_at s e k \<Longrightarrow> dbf_turns s e = k \<and> blocks_between s e = k"
proof -
  assume b: "blocks_at s e k"
  then have k: "0 < k" "k \<le> 2 ^ 16" "unat (e - s) = 16 * k" by (auto simp: blocks_at_def)
  have "unat (drop_bit 2 (e - s) div 4) = k" using k by (simp add: unat_div unat_drop_bit_eq drop_bit_eq_div)
  then have "unat (drop_bit 2 (e - s) div 4 - 1) = k - 1"
    using k by (subst unat_sub) (simp_all add: word_le_nat_alt)
  then have "unat (ucast (drop_bit 2 (e - s) div 4 - 1) :: u16) = k - 1"
    using k by (simp add: unsigned_ucast_eq take_bit_nat_eq_self)
  then show ?thesis using k by (simp add: dbf_turns_def blocks_between_def Let_def)
qed

text \<open>What a fill leaves in \<open>k\<close> long words.\<close>

definition filled :: "nat \<Rightarrow> u32 \<Rightarrow> nat \<Rightarrow> u32 list" where
  "filled sub x k =
     (if sub = 0 then lfsrs k x else if sub = 2 \<or> sub = 8 then replicate k 0xFFFF0000 else replicate k 0x0000FFFF)"

definition next_seed :: "nat \<Rightarrow> u32 \<Rightarrow> nat \<Rightarrow> u32" where
  "next_seed sub x k = (if sub \<le> 1 then (lfsr ^^ k) x else x)"

lemma map2_replicate: "map2 f (replicate (length ws) s) ws = map (f s) ws"
  by (induction ws) auto

lemma halves:
  "combine (High (- 1)) (combine (Put 0) w) = 0xFFFF0000" "combine (Low (- 1)) (combine (Put 0) w) = 0x0000FFFF"
  "combine (High 0) (combine (Put (- 1)) w) = 0x0000FFFF" "combine (Low 0) (combine (Put (- 1)) w) = 0xFFFF0000"
  by (simp_all add: push_bit_eq_mult unsigned_minus_1_eq_mask mask_eq_exp_minus_1)

lemma fill_pattern:
  assumes "4 * n \<le> 2 ^ 32" "\<And>w. combine half (combine (Put v) w) = p"
  shows "peeks ideal a n (accesses a (replicate n half) (accesses a (replicate n (Put v)) m)) = replicate n p"
proof -
  have "peeks ideal a n (accesses a (replicate n half) (accesses a (replicate n (Put v)) m)) =
    map (combine half) (map (combine (Put v)) (peeks ideal a n m))"
    using longs_accesses [of "replicate n half" a] longs_accesses [of "replicate n (Put v)" a] assms(1)
      map2_replicate [of combine "peeks ideal a n m"] map2_replicate [of combine "map (combine (Put v)) (peeks ideal a n m)"]
    by simp
  also have "\<dots> = map (\<lambda>_. p) (peeks ideal a n m)" by (simp only: map_map o_def assms(2))
  also have "\<dots> = replicate n p" by (simp add: map_replicate_const)
  finally show ?thesis .
qed

lemma run_fill:
  assumes b: "blocks_at s e k" and sub: "sub \<in> {0, 2, 4, 6, 8}"
  shows "\<exists>m'. run_subround peek sub x s e m = (next_seed sub x (4 * k), 0, m') \<and>
    peeks ideal s (4 * k) m' = filled sub x (4 * k) \<and> (\<forall>y. 16 * k \<le> unat (y - s) \<longrightarrow> m' y = m y)"
proof -
  have k: "4 * (4 * k) \<le> 2 ^ 32" using b by (simp add: blocks_at_def)
  have outside: "accesses s ss m y = m y" if "16 * k \<le> unat (y - s)" "length ss = 4 * k" for ss m y
    using that by (simp add: accesses_outside)
  have puts: "peeks ideal s (4 * k) (accesses s (map Put (lfsrs (4 * k) x)) m) = lfsrs (4 * k) x"
  proof -
    have "map2 combine (map Put vs) ws = vs" if "length vs = length ws" for vs ws using that by (induction vs ws rule: list_induct2) auto
    then show ?thesis using longs_accesses [of "map Put (lfsrs (4 * k) x)" s m] k by simp
  qed
  have loops: "fill_32 v s e m = accesses s (replicate (4 * k) (Put v)) m"
    "fill_alt_16 v' 0 s e m = accesses s (replicate (4 * k) (High v')) m"
    "fill_alt_16 v' 2 s e m = accesses s (replicate (4 * k) (Low v')) m" "blocks_between s e = k" for v v' m
    using blocks_at_turns [OF b]
    by (simp_all add: fill_32_def fill_alt_16_def fill_32_accesses fill_high_accesses [where a = s] fill_low_accesses)
  show ?thesis
    using sub fill_pattern [OF k halves(1)] fill_pattern [OF k halves(2)] fill_pattern [OF k halves(3)] fill_pattern [OF k halves(4)]
    by (auto simp: run_subround_def loops random_fill_accesses filled_def next_seed_def puts outside)
qed

lemma run_check:
  assumes b: "blocks_at s e k" and sub: "sub \<in> {1, 3, 5, 7, 9}"
  shows "\<exists>a. run_subround peek sub x s e m = (next_seed sub x (4 * k), a, m) \<and>
    (a = 0 \<longleftrightarrow> peeks peek s (4 * k) m = filled (sub - 1) x (4 * k))"
proof -
  have u: "(ucast (w :: u16) :: u32) = 0 \<longleftrightarrow> w = 0" for w
    by (simp add: word_unat_eq_iff unat_ucast_u16_u32)
  have pat: "(ucast (check_pattern peek c s e m) :: u32) = 0 \<longleftrightarrow> peeks peek s (4 * k) m = replicate (4 * k) c" for c
    by (simp add: u check_pattern_def Let_def halves_zero check_loop_ors blocks_at_turns [OF b] ors_check)
  show ?thesis
  proof (cases "sub = 1")
    case True
    then show ?thesis
      using ors_zero [of "peeks peek s (4 * k) m" "lfsrs (4 * k) x"]
      by (simp add: run_subround_def blocks_at_turns [OF b] random_check_ors filled_def next_seed_def)
  next
    case False
    then obtain c where c: "run_subround peek sub x s e m = (x, ucast (check_pattern peek c s e m), m)"
      "filled (sub - 1) x (4 * k) = replicate (4 * k) c"
      using sub by (auto simp: run_subround_def filled_def)
    have "next_seed sub x (4 * k) = x" using sub False by (auto simp: next_seed_def)
    then show ?thesis using c pat [of c] by simp
  qed
qed

section \<open>The chunks of a pass\<close>

lemma align_down: "unat (x AND NOT 15 :: u32) = unat x div 16 * 16"
  using unat_and_minus_exp [of x 4] by simp

lemma align_up: "unat x + 16 \<le> 2 ^ 32 \<Longrightarrow> unat ((x + 15) AND NOT 15 :: u32) = (unat x + 15) div 16 * 16"
  using round_up_exp [of x 4] by (simp add: add_diff_eq [symmetric])

lemma chunk_edge: "unat (x AND NOT (TEST_CHUNK_SIZE - 1) :: u32) = unat x div 0x80000 * 0x80000"
  using unat_and_minus_exp [of x 19] by (simp add: TEST_CHUNK_SIZE_def)

lemma next_chunk_bounds:
  assumes "next_chunk start remain = (bound, sz)" "remain \<noteq> 0"
  shows "0 < unat sz" "unat sz \<le> unat remain" "unat sz \<le> 0x80000" "bound = start + sz"
proof -
  let ?z = "if remain > TEST_CHUNK_SIZE then TEST_CHUNK_SIZE else remain"
  let ?edge = "(start + ?z) AND NOT (TEST_CHUNK_SIZE - 1)"
  have z: "0 < unat ?z" "unat ?z \<le> unat remain" "unat ?z \<le> 0x80000"
    using assms(2) by (auto simp: TEST_CHUNK_SIZE_def word_less_nat_alt unat_gt_0)
  have "0 < unat sz \<and> unat sz \<le> unat ?z \<and> bound = start + sz"
  proof (cases "?edge \<noteq> start + ?z \<and> ?edge > start")
    case True
    then have r: "bound = ?edge" "sz = ?edge - start" using assms(1) by (auto simp: next_chunk_def Let_def)
    have "unat ?edge \<le> unat (start + ?z)" unfolding chunk_edge by simp
    moreover have "unat (start + ?z) \<le> unat start + unat ?z" by (rule unat_plus_le)
    moreover have "unat start < unat ?edge" using True by (simp add: word_less_nat_alt)
    ultimately show ?thesis using r by (auto simp: u32_unat_sub)
  next
    case False
    then have "bound = start + ?z" "sz = ?z" using assms(1) by (auto simp: next_chunk_def Let_def split: if_splits)
    then show ?thesis using z by simp
  qed
  then show "0 < unat sz" "unat sz \<le> unat remain" "unat sz \<le> 0x80000" "bound = start + sz" using z by auto
qed

function chunks :: "u32 \<Rightarrow> u32 \<Rightarrow> (u32 \<times> u32) list" where
  "chunks start remain =
     (if remain = 0 then []
      else (case next_chunk start remain of (bound, sz) \<Rightarrow> (start, bound) # chunks (start + sz) (remain - sz)))"
  by pat_completeness auto
termination
proof (relation "measure (\<lambda>(start, remain). unat remain)")
  fix start remain bound sz :: u32
  assume "remain \<noteq> 0" "(bound, sz) = next_chunk start remain"
  then have "0 < unat sz" "unat sz \<le> unat remain" using next_chunk_bounds by metis+
  then show "((start + sz, remain - sz), start, remain) \<in> measure (\<lambda>(start, remain). unat remain)"
    by (simp add: u32_unat_sub)
qed simp

declare chunks.simps [simp del]

lemma trimmed_blocks:
  assumes "unat start + unat sz + 16 \<le> 2 ^ 32" "unat sz \<le> 0x80000"
    and s: "s = (start + 15) AND NOT 15" and e: "e = (start + sz) AND NOT 15" and "s < e"
  shows "\<exists>k. blocks_at s e k \<and> unat start \<le> unat s \<and> unat s + 16 * k = unat e \<and> unat e \<le> unat start + unat sz"
proof -
  have b: "unat (start + sz) = unat start + unat sz" using assms(1) by (intro u32_unat_add) simp
  have us: "unat s = (unat start + 15) div 16 * 16" unfolding s by (rule align_up) (use assms(1) in simp)
  have ue: "unat e = (unat start + unat sz) div 16 * 16" unfolding e align_down b ..
  have lt: "unat s < unat e" using assms(5) by (simp add: word_less_nat_alt)
  define k where "k = (unat start + unat sz) div 16 - (unat start + 15) div 16"
  have k: "unat s + 16 * k = unat e" using lt by (simp add: us ue k_def diff_mult_distrib2)
  have se: "unat start \<le> unat s" "unat e \<le> unat start + unat sz" by (simp_all add: us ue)
  have "unat (e - s) = 16 * k" using k lt by (simp add: u32_unat_sub)
  moreover have "0 < k" "k \<le> 2 ^ 16" using k lt se assms(2) by simp_all
  ultimately show ?thesis using k se by (auto simp: blocks_at_def)
qed

text \<open>What reading returns, chunk by chunk, is what a fill with the seed \<open>x\<close> has left.\<close>

fun holds :: "(u32 \<Rightarrow> memory \<Rightarrow> u32) \<Rightarrow> nat \<Rightarrow> u32 \<Rightarrow> (u32 \<times> u32) list \<Rightarrow> memory \<Rightarrow> bool" where
  "holds peek sub x [] m = True"
| "holds peek sub x ((start, bound) # cs) m =
     (let s = (start + 15) AND NOT 15; e = bound AND NOT 15; k = 4 * blocks_between s e in
      if s \<ge> e then holds peek sub x cs m
      else peeks peek s k m = filled sub x k \<and> holds peek sub (next_seed sub x k) cs m)"

section \<open>The passes\<close>

lemma peeks_same:
  assumes fit: "unat start + unat sz + 16 \<le> 2 ^ 32" "unat sz \<le> 0x80000"
    and s: "s = (start + 15) AND NOT 15" and e: "e = (start + sz) AND NOT 15" and "s < e"
    and same: "\<And>y. unat start \<le> unat y \<Longrightarrow> unat y < unat start + unat sz \<Longrightarrow> m' y = m y"
  shows "peeks ideal s (4 * blocks_between s e) m' = peeks ideal s (4 * blocks_between s e) m"
proof -
  from trimmed_blocks [OF assms(1-5)] obtain k where k: "blocks_at s e k" "unat start \<le> unat s"
    "unat s + 16 * k = unat e" "unat e \<le> unat start + unat sz" by auto
  show ?thesis
    unfolding blocks_at_turns [OF k(1), THEN conjunct2]
  proof (rule longs_cong)
    fix y :: u32 assume y: "unat (y - s) < 4 * (4 * k)"
    moreover have "unat e < 4294967296" by (rule u32_less)
    ultimately have "unat (s + (y - s)) = unat s + unat (y - s)"
      using k(3) by (intro u32_unat_add) linarith
    then show "m' y = m y" using k(2-4) y by (intro same) simp_all
  qed (use k(1) in \<open>simp add: blocks_at_def\<close>)
qed

lemma holds_cong:
  assumes "\<And>y. lo \<le> unat y \<Longrightarrow> m' y = m y" "unat start + unat remain + 16 \<le> 2 ^ 32" "lo \<le> unat start"
  shows "holds ideal sub x (chunks start remain) m' = holds ideal sub x (chunks start remain) m"
  using assms(2,3)
proof (induction start remain arbitrary: x rule: chunks.induct)
  case (1 start remain)
  show ?case
  proof (cases "remain = 0")
    case True
    then show ?thesis by (simp add: chunks.simps)
  next
    case False
    obtain bound sz where c: "next_chunk start remain = (bound, sz)" by (cases "next_chunk start remain")
    note n = next_chunk_bounds [OF c False]
    let ?s = "(start + 15) AND NOT 15" and ?e = "bound AND NOT 15"
    have next1: "unat (start + sz) = unat start + unat sz" "unat (remain - sz) = unat remain - unat sz"
      using n 1(2) by (simp_all add: u32_unat_add u32_unat_sub)
    have rest: "holds ideal sub x (chunks (start + sz) (remain - sz)) m' = holds ideal sub x (chunks (start + sz) (remain - sz)) m" for x
      using 1(1) [OF False c [symmetric], simplified] n next1 1(2,3) by simp
    have "unat start + unat sz + 16 \<le> 2 ^ 32" using n 1(2) by simp
    from peeks_same [OF this n(3) refl refl, of m' m] have "peeks ideal ?s (4 * blocks_between ?s ?e) m' = peeks ideal ?s (4 * blocks_between ?s ?e) m"
      if "?s < ?e" using that n(4) assms(1) 1(3) by auto
    then show ?thesis using rest c False by (cases "?s \<ge> ?e") (simp_all add: chunks.simps [of start remain] Let_def)
  qed
qed

lemma same_parts:
  "test_memory_range peek args m = (rs, args1, m1) \<Longrightarrow>
   subround args1 = subround args \<and> saved_seed args1 = saved_seed args \<and> start_addr args1 = start_addr args"
  by (auto simp: test_memory_range_def Let_def split: if_splits prod.splits)

text \<open>A turn of a pass that is not cancelled: the chunk, the range in it and the rest.\<close>

lemma pass_step:
  assumes "remain \<noteq> 0" "test_pass peek remain keys args m = Some r"
    and "next_chunk (start_addr args) remain = (bound, sz)"
  obtains key keys1 where "keys = key # keys1" "cancel_byte key" "\<exists>args'. r = (True, keys1, [], args', m) \<and>
      subround args' = subround args \<and> saved_seed args' = saved_seed args"
  | key keys1 rs1 args1 m1 c keys' rs args' m' where "keys = key # keys1" "\<not> cancel_byte key"
    "test_memory_range peek (args\<lparr>end_addr := bound\<rparr>) m = (rs1, args1, m1)"
    "test_pass peek (remain - sz) keys1 (args1\<lparr>start_addr := start_addr args1 + sz\<rparr>) m1 = Some (c, keys', rs, args', m')"
    "r = (c, keys', rs1 @ rs, args', m')"
proof (cases keys)
  case Nil
  then show thesis using assms by (simp add: test_pass.simps)
next
  case (Cons key keys1)
  show thesis
  proof (cases "cancel_byte key")
    case True
    then have "r = (True, keys1, [], args\<lparr>end_addr := bound, start_addr := start_addr args + sz\<rparr>, m)"
      using assms Cons by (simp add: test_pass.simps)
    then show thesis using that(1) [OF Cons True] by simp
  next
    case False
    obtain rs1 args1 m1 where t: "test_memory_range peek (args\<lparr>end_addr := bound\<rparr>) m = (rs1, args1, m1)"
      by (cases "test_memory_range peek (args\<lparr>end_addr := bound\<rparr>) m")
    then show thesis using that(2) [OF Cons False t] False assms Cons
      by (subst (asm) test_pass.simps) (auto simp: Let_def)
  qed
qed

lemma fill_range:
  assumes "test_memory_range peek args m = (rs, args1, m1)" "subround args \<in> {0, 2, 4, 6, 8}"
    and "unat (start_addr args) + unat sz + 16 \<le> 2 ^ 32" "unat sz \<le> 0x80000" "end_addr args = start_addr args + sz"
  defines "s \<equiv> (start_addr args + 15) AND NOT 15" and "e \<equiv> end_addr args AND NOT 15"
  shows "rs = []"
    and "unat y < unat (start_addr args) \<or> unat (start_addr args) + unat sz \<le> unat y \<Longrightarrow> m1 y = m y"
    and "s \<ge> e \<Longrightarrow> seed args1 = seed args"
    and "\<not> s \<ge> e \<Longrightarrow> seed args1 = next_seed (subround args) (seed args) (4 * blocks_between s e)"
    and "\<not> s \<ge> e \<Longrightarrow> peeks ideal s (4 * blocks_between s e) m1 = filled (subround args) (seed args) (4 * blocks_between s e)"
proof -
  have "rs = [] \<and> (\<forall>y. unat y < unat (start_addr args) \<or> unat (start_addr args) + unat sz \<le> unat y \<longrightarrow> m1 y = m y) \<and>
      (if s \<ge> e then seed args1 = seed args
       else seed args1 = next_seed (subround args) (seed args) (4 * blocks_between s e) \<and>
         peeks ideal s (4 * blocks_between s e) m1 = filled (subround args) (seed args) (4 * blocks_between s e))"
  proof (cases "s \<ge> e")
    case True
    then show ?thesis using assms(1) by (simp add: test_memory_range_def Let_def s_def e_def)
  next
    case False
    then have "s < (start_addr args + sz) AND NOT 15" using assms(5) by (simp add: not_le e_def)
    from trimmed_blocks [OF assms(3,4) s_def [THEN meta_eq_to_obj_eq] refl this] obtain k where k: "blocks_at s e k"
      "unat (start_addr args) \<le> unat s" "unat s + 16 * k = unat e" "unat e \<le> unat (start_addr args) + unat sz"
      using assms(5) by (auto simp: e_def)
    from run_fill [OF k(1) assms(2)] obtain m' where m': "run_subround peek (subround args) (seed args) s e m =
        (next_seed (subround args) (seed args) (4 * k), 0, m')" "peeks ideal s (4 * k) m' = filled (subround args) (seed args) (4 * k)"
      "\<forall>y. 16 * k \<le> unat (y - s) \<longrightarrow> m' y = m y" by blast
    have r: "rs = []" "seed args1 = next_seed (subround args) (seed args) (4 * k)" "m1 = m'"
      using assms(1) False m'(1) by (auto simp: test_memory_range_def Let_def s_def e_def)
    have "16 * k \<le> unat (y - s)" if "unat y < unat (start_addr args) \<or> unat (start_addr args) + unat sz \<le> unat y" for y
    proof (cases "unat s \<le> unat y")
      case True
      then have "16 * k \<le> unat y - unat s" using that k(2-4) by linarith
      then show ?thesis using True by (simp only: unat_sub_wrap if_True)
    next
      case False
      have "unat e < 4294967296" "unat y < 4294967296" by (rule u32_less)+
      then have "16 * k \<le> 4294967296 + unat y - unat s" using False k(3) by linarith
      then show ?thesis using False by (simp only: unat_sub_wrap if_False)
    qed
    then have "m1 y = m y" if "unat y < unat (start_addr args) \<or> unat (start_addr args) + unat sz \<le> unat y" for y
      using that m'(3) r(3) by blast
    then show ?thesis using r(1,2) m'(2) r(3) False blocks_at_turns [OF k(1)] by simp
  qed
  then show "rs = []"
    and "unat y < unat (start_addr args) \<or> unat (start_addr args) + unat sz \<le> unat y \<Longrightarrow> m1 y = m y"
    and "s \<ge> e \<Longrightarrow> seed args1 = seed args"
    and "\<not> s \<ge> e \<Longrightarrow> seed args1 = next_seed (subround args) (seed args) (4 * blocks_between s e)"
    and "\<not> s \<ge> e \<Longrightarrow> peeks ideal s (4 * blocks_between s e) m1 = filled (subround args) (seed args) (4 * blocks_between s e)"
    by (auto split: if_splits)
qed

lemma fill_pass:
  assumes "test_pass peek remain keys args m = Some (c, keys', rs, args', m')" "subround args \<in> {0, 2, 4, 6, 8}"
    and "unat (start_addr args) + unat remain + 16 \<le> 2 ^ 32"
  shows "rs = [] \<and> subround args' = subround args \<and> saved_seed args' = saved_seed args \<and>
    (\<forall>y. unat y < unat (start_addr args) \<or> unat (start_addr args) + unat remain \<le> unat y \<longrightarrow> m' y = m y) \<and>
    (\<not> c \<longrightarrow> holds ideal (subround args) (seed args) (chunks (start_addr args) remain) m')"
  using assms
proof (induction keys arbitrary: remain args m rs)
  case (Cons key keys)
  show ?case
  proof (cases "remain = 0")
    case True
    then show ?thesis using Cons.prems by (simp add: test_pass.simps chunks.simps)
  next
    case False
    obtain bound sz where n: "next_chunk (start_addr args) remain = (bound, sz)" by (cases "next_chunk (start_addr args) remain")
    note b = next_chunk_bounds [OF n False]
    show ?thesis
    proof (rule pass_step [OF False Cons.prems(1) n])
      fix rs1 args1 m1 d ks' rs2 args2 m2 key1 keys1
      assume k: "key # keys = key1 # keys1" and t: "test_memory_range peek (args\<lparr>end_addr := bound\<rparr>) m = (rs1, args1, m1)"
        and p: "test_pass peek (remain - sz) keys1 (args1\<lparr>start_addr := start_addr args1 + sz\<rparr>) m1 = Some (d, ks', rs2, args2, m2)"
        and r: "(c, keys', rs, args', m') = (d, ks', rs1 @ rs2, args2, m2)"
      have same: "subround args1 = subround args" "saved_seed args1 = saved_seed args" "start_addr args1 = start_addr args"
        using same_parts [OF t] by simp_all
      have fit: "unat (start_addr args) + unat sz + 16 \<le> 2 ^ 32" using b Cons.prems(3) by simp
      have next1: "unat (start_addr args + sz) = unat (start_addr args) + unat sz" "unat (remain - sz) = unat remain - unat sz"
        using b fit by (simp_all add: u32_unat_add u32_unat_sub)
      have upd: "subround (args\<lparr>end_addr := bound\<rparr>) = subround args" "start_addr (args\<lparr>end_addr := bound\<rparr>) = start_addr args"
        "end_addr (args\<lparr>end_addr := bound\<rparr>) = bound" "seed (args\<lparr>end_addr := bound\<rparr>) = seed args" by simp_all
      note f = fill_range [OF t, of sz, unfolded upd, OF Cons.prems(2) fit b(3,4)]
      have "unat (start_addr (args1\<lparr>start_addr := start_addr args1 + sz\<rparr>)) + unat (remain - sz) + 16 \<le> 2 ^ 32"
        using same next1 Cons.prems(3) b by simp
      from Cons.IH [of "remain - sz" "args1\<lparr>start_addr := start_addr args1 + sz\<rparr>" m1 rs2, OF _ _ this] p k r Cons.prems(2) same next1
      have ih: "rs2 = []" "subround args' = subround args" "saved_seed args' = saved_seed args"
        "\<And>y. unat y < unat (start_addr args) + unat sz \<or> unat (start_addr args) + unat sz + (unat remain - unat sz) \<le> unat y \<Longrightarrow> m' y = m1 y"
        "\<not> c \<Longrightarrow> holds ideal (subround args) (seed args1) (chunks (start_addr args + sz) (remain - sz)) m'"
        by auto
      have "m' y = m y" if y: "unat y < unat (start_addr args) \<or> unat (start_addr args) + unat remain \<le> unat y" for y
      proof -
        have "unat y < unat (start_addr args) + unat sz \<or> unat (start_addr args) + unat sz + (unat remain - unat sz) \<le> unat y"
          and "unat y < unat (start_addr args) \<or> unat (start_addr args) + unat sz \<le> unat y"
          using y b(2) by linarith+
        then show ?thesis using ih(4) f(2) by simp
      qed
      moreover have "holds ideal (subround args) (seed args) (chunks (start_addr args) remain) m'" if c: "\<not> c"
      proof -
        let ?s = "(start_addr args + 15) AND NOT 15" and ?e = "bound AND NOT 15"
        have p: "peeks ideal ?s (4 * blocks_between ?s ?e) m' = peeks ideal ?s (4 * blocks_between ?s ?e) m1" if "\<not> ?s \<ge> ?e"
          using peeks_same [OF fit b(3) refl refl, of m' m1] that ih(4) b(4) by simp
        show ?thesis
          using f(3-5) ih(5) [OF c] p n False
          by (cases "?s \<ge> ?e") (simp_all add: chunks.simps [of "start_addr args" remain] Let_def)
      qed
      ultimately show ?thesis using r f(1) ih(1-3) by simp
    qed auto
  qed
qed (simp add: test_pass.simps chunks.simps split: if_splits)

lemma check_range:
  assumes "test_memory_range peek args m = (rs, args1, m1)" "subround args \<in> {1, 3, 5, 7, 9}"
    and "unat (start_addr args) + unat sz + 16 \<le> 2 ^ 32" "unat sz \<le> 0x80000" "end_addr args = start_addr args + sz"
  defines "s \<equiv> (start_addr args + 15) AND NOT 15" and "e \<equiv> end_addr args AND NOT 15"
  shows "m1 = m"
    and "s \<ge> e \<Longrightarrow> rs = [] \<and> seed args1 = seed args"
    and "\<not> s \<ge> e \<Longrightarrow> seed args1 = next_seed (subround args - 1) (seed args) (4 * blocks_between s e)"
    and "\<not> s \<ge> e \<Longrightarrow> peeks peek s (4 * blocks_between s e) m = filled (subround args - 1) (seed args) (4 * blocks_between s e) \<Longrightarrow> rs = []"
    and "\<not> s \<ge> e \<Longrightarrow> peeks peek s (4 * blocks_between s e) m \<noteq> filled (subround args - 1) (seed args) (4 * blocks_between s e) \<Longrightarrow>
      \<exists>a. a \<noteq> 0 \<and> rs = [(s, e - 1, a)]"
proof -
  have "m1 = m \<and> (if s \<ge> e then rs = [] \<and> seed args1 = seed args
       else seed args1 = next_seed (subround args - 1) (seed args) (4 * blocks_between s e) \<and>
         (if peeks peek s (4 * blocks_between s e) m = filled (subround args - 1) (seed args) (4 * blocks_between s e) then rs = []
          else \<exists>a. a \<noteq> 0 \<and> rs = [(s, e - 1, a)]))"
  proof (cases "s \<ge> e")
    case True
    then show ?thesis using assms(1) by (simp add: test_memory_range_def Let_def s_def e_def)
  next
    case False
    then have "s < (start_addr args + sz) AND NOT 15" using assms(5) by (simp add: not_le e_def)
    from trimmed_blocks [OF assms(3,4) s_def [THEN meta_eq_to_obj_eq] refl this] obtain k where k: "blocks_at s e k"
      using assms(5) by (auto simp: e_def)
    from run_check [OF k assms(2)] obtain a where a: "run_subround peek (subround args) (seed args) s e m =
        (next_seed (subround args) (seed args) (4 * k), a, m)"
      "a = 0 \<longleftrightarrow> peeks peek s (4 * k) m = filled (subround args - 1) (seed args) (4 * k)" by blast
    have "next_seed (subround args - 1) (seed args) (4 * k) = next_seed (subround args) (seed args) (4 * k)"
      using assms(2) by (auto simp: next_seed_def)
    moreover have "m1 = m" "seed args1 = next_seed (subround args) (seed args) (4 * k)" "rs = (if a \<noteq> 0 then [(s, e - 1, a)] else [])"
      using assms(1) False a(1) by (auto simp: test_memory_range_def Let_def s_def e_def split: if_splits)
    ultimately show ?thesis using a(2) False blocks_at_turns [OF k] by auto
  qed
  then show "m1 = m"
    and "s \<ge> e \<Longrightarrow> rs = [] \<and> seed args1 = seed args"
    and "\<not> s \<ge> e \<Longrightarrow> seed args1 = next_seed (subround args - 1) (seed args) (4 * blocks_between s e)"
    and "\<not> s \<ge> e \<Longrightarrow> peeks peek s (4 * blocks_between s e) m = filled (subround args - 1) (seed args) (4 * blocks_between s e) \<Longrightarrow> rs = []"
    and "\<not> s \<ge> e \<Longrightarrow> peeks peek s (4 * blocks_between s e) m \<noteq> filled (subround args - 1) (seed args) (4 * blocks_between s e) \<Longrightarrow>
      \<exists>a. a \<noteq> 0 \<and> rs = [(s, e - 1, a)]"
    by (auto split: if_splits)
qed

text \<open>Does a report cover the range of a chunk?\<close>

definition reported :: "report list \<Rightarrow> u32 \<times> u32 \<Rightarrow> bool" where
  "reported rs c \<longleftrightarrow> (\<exists>a. a \<noteq> 0 \<and> ((fst c + 15) AND NOT 15, (snd c AND NOT 15) - 1, a) \<in> set rs)"

definition wrong_chunk :: "(u32 \<Rightarrow> memory \<Rightarrow> u32) \<Rightarrow> nat \<Rightarrow> memory \<Rightarrow> u32 \<times> u32 \<Rightarrow> bool" where
  "wrong_chunk peek sub m c =
     (let s = (fst c + 15) AND NOT 15; e = snd c AND NOT 15; k = 4 * blocks_between s e
      in \<not> s \<ge> e \<and> (\<forall>x. peeks peek s k m \<noteq> filled sub x k))"

lemma check_pass:
  assumes "test_pass peek remain keys args m = Some (c, keys', rs, args', m')" "subround args \<in> {1, 3, 5, 7, 9}"
    and "unat (start_addr args) + unat remain + 16 \<le> 2 ^ 32"
  shows "m' = m \<and> subround args' = subround args \<and> saved_seed args' = saved_seed args \<and>
    (holds peek (subround args - 1) (seed args) (chunks (start_addr args) remain) m \<longrightarrow> rs = []) \<and>
    (\<not> c \<longrightarrow> (\<forall>ch \<in> set (chunks (start_addr args) remain). wrong_chunk peek (subround args - 1) m ch \<longrightarrow> reported rs ch))"
  using assms
proof (induction keys arbitrary: remain args m rs)
  case (Cons key keys)
  show ?case
  proof (cases "remain = 0")
    case True
    then show ?thesis using Cons.prems by (simp add: test_pass.simps chunks.simps)
  next
    case False
    obtain bound sz where n: "next_chunk (start_addr args) remain = (bound, sz)" by (cases "next_chunk (start_addr args) remain")
    note b = next_chunk_bounds [OF n False]
    show ?thesis
    proof (rule pass_step [OF False Cons.prems(1) n])
      fix rs1 args1 m1 d ks' rs2 args2 m2 key1 keys1
      assume k: "key # keys = key1 # keys1" and t: "test_memory_range peek (args\<lparr>end_addr := bound\<rparr>) m = (rs1, args1, m1)"
        and p: "test_pass peek (remain - sz) keys1 (args1\<lparr>start_addr := start_addr args1 + sz\<rparr>) m1 = Some (d, ks', rs2, args2, m2)"
        and r: "(c, keys', rs, args', m') = (d, ks', rs1 @ rs2, args2, m2)"
      have same: "subround args1 = subround args" "saved_seed args1 = saved_seed args" "start_addr args1 = start_addr args"
        using same_parts [OF t] by simp_all
      have fit: "unat (start_addr args) + unat sz + 16 \<le> 2 ^ 32" using b Cons.prems(3) by simp
      have next1: "unat (start_addr args + sz) = unat (start_addr args) + unat sz" "unat (remain - sz) = unat remain - unat sz"
        using b fit by (simp_all add: u32_unat_add u32_unat_sub)
      have upd: "subround (args\<lparr>end_addr := bound\<rparr>) = subround args" "start_addr (args\<lparr>end_addr := bound\<rparr>) = start_addr args"
        "end_addr (args\<lparr>end_addr := bound\<rparr>) = bound" "seed (args\<lparr>end_addr := bound\<rparr>) = seed args" by simp_all
      note f = check_range [OF t, of sz, unfolded upd, OF Cons.prems(2) fit b(3,4)]
      have "unat (start_addr (args1\<lparr>start_addr := start_addr args1 + sz\<rparr>)) + unat (remain - sz) + 16 \<le> 2 ^ 32"
        using same next1 Cons.prems(3) b by simp
      from Cons.IH [of "remain - sz" "args1\<lparr>start_addr := start_addr args1 + sz\<rparr>" m1 rs2, OF _ _ this] p k r Cons.prems(2) same next1
      have ih: "m' = m1" "subround args' = subround args" "saved_seed args' = saved_seed args"
        "holds peek (subround args - 1) (seed args1) (chunks (start_addr args + sz) (remain - sz)) m1 \<Longrightarrow> rs2 = []"
        "\<And>ch. \<not> c \<Longrightarrow> ch \<in> set (chunks (start_addr args + sz) (remain - sz)) \<Longrightarrow> wrong_chunk peek (subround args - 1) m1 ch \<Longrightarrow> reported rs2 ch"
        by auto
      let ?s = "(start_addr args + 15) AND NOT 15" and ?e = "bound AND NOT 15"
      have cs: "chunks (start_addr args) remain = (start_addr args, bound) # chunks (start_addr args + sz) (remain - sz)"
        using n False by (simp add: chunks.simps [of "start_addr args" remain])
      have "rs1 = [] \<and> rs2 = []" if "holds peek (subround args - 1) (seed args) (chunks (start_addr args) remain) m"
        using that f ih(4) by (cases "?s \<ge> ?e") (simp_all add: cs Let_def)
      moreover have "reported rs (start_addr args, bound)" if "wrong_chunk peek (subround args - 1) m (start_addr args, bound)"
        using that f(5) r by (auto simp: wrong_chunk_def reported_def Let_def)
      moreover have "reported rs ch" if "reported rs2 ch" for ch using that r by (auto simp: reported_def)
      ultimately show ?thesis using r f(1) ih(1-3,5) by (auto simp: cs)
    qed (elim exE conjE, simp)
  qed
next
  case Nil
  have "remain = 0" using Nil(1) by (simp add: test_pass.simps split: if_splits)
  then show ?case using Nil(1) by (simp add: test_pass.simps chunks.simps)
qed

section \<open>The rounds\<close>

lemma holds_any_seed: "2 \<le> sub \<Longrightarrow> holds peek sub x cs m = holds peek sub y cs m"
proof (induction cs arbitrary: x y)
  case (Cons c cs)
  have "filled sub x k = filled sub y k" "next_seed sub x k = x" for x y k using Cons.prems by (simp_all add: filled_def next_seed_def)
  moreover have "holds peek sub x cs m = holds peek sub y cs m" for x y using Cons by blast
  ultimately show ?case by (cases c) (metis holds.simps(2))
qed simp

text \<open>Between two passes: what a check will compare has been filled in, and the seed can be restored.\<close>

definition between_passes :: "u32 \<Rightarrow> u32 \<Rightarrow> test_memory_args \<Rightarrow> memory \<Rightarrow> bool" where
  "between_passes base sz args m \<longleftrightarrow> subround args \<le> 9 \<and> (subround args = 0 \<longrightarrow> saved_seed args = seed args) \<and>
     (odd (subround args) \<longrightarrow> holds ideal (subround args - 1) (seed args) (chunks base sz) m)"

lemma subrounds: "n \<le> 9 \<Longrightarrow> if odd n then n \<in> {1, 3, 5, 7, 9} else n \<in> {0, 2, 4, 6, (8 :: nat)}"
proof -
  assume "n \<le> 9"
  then have "n = 0 \<or> n = 1 \<or> n = 2 \<or> n = 3 \<or> n = 4 \<or> n = 5 \<or> n = 6 \<or> n = 7 \<or> n = 8 \<or> n = 9" by arith
  then show ?thesis by (elim disjE) simp_all
qed

lemma between_next:
  assumes b: "between_passes base sz args m" and fit: "unat base + unat sz + 16 \<le> 2 ^ 32"
    and p: "test_pass ideal sz keys (args\<lparr>start_addr := base\<rparr>) m = Some (c, keys', rs, args', m')"
  shows "rs = [] \<and> (\<forall>y. unat y < unat base \<or> unat base + unat sz \<le> unat y \<longrightarrow> m' y = m y) \<and>
    (\<not> c \<longrightarrow> between_passes base sz (memory_test_next_subround cpu args') m')"
proof (cases "odd (subround args)")
  case True
  then have sub: "subround args \<in> {1, 3, 5, 7, 9}" using subrounds [of "subround args"] b by (simp add: between_passes_def)
  have h: "holds ideal (subround args - 1) (seed args) (chunks base sz) m" using b True by (simp add: between_passes_def)
  have r: "m' = m \<and> subround args' = subround args \<and> rs = []"
    using check_pass [OF p] sub fit h by simp
  then have "subround (memory_test_next_subround cpu args') = (if subround args = 9 then 0 else subround args + 1)"
    "subround args = 9 \<longrightarrow> saved_seed (memory_test_next_subround cpu args') = seed (memory_test_next_subround cpu args')"
    by (auto simp: memory_test_next_subround_def memory_test_next_cpu_cache_mode_def print_memory_test_type_def)
  then have "between_passes base sz (memory_test_next_subround cpu args') m'"
    using sub True by (auto simp: between_passes_def)
  then show ?thesis using r by simp
next
  case False
  then have sub: "subround args \<in> {0, 2, 4, 6, 8}" using subrounds [of "subround args"] b by (simp add: between_passes_def)
  have r: "rs = []" "subround args' = subround args" "saved_seed args' = saved_seed args"
    "\<forall>y. unat y < unat base \<or> unat base + unat sz \<le> unat y \<longrightarrow> m' y = m y"
    "\<not> c \<Longrightarrow> holds ideal (subround args) (seed args) (chunks base sz) m'"
    using fill_pass [OF p] sub fit by (simp_all del: insert_iff)
  have n: "subround (memory_test_next_subround cpu args') = subround args + 1"
    "subround args = 0 \<longrightarrow> seed (memory_test_next_subround cpu args') = saved_seed args"
    using r(2,3) sub by (auto simp: memory_test_next_subround_def print_memory_test_type_def)
  have "between_passes base sz (memory_test_next_subround cpu args') m'" if "\<not> c"
  proof -
    have "holds ideal (subround args) (seed (memory_test_next_subround cpu args')) (chunks base sz) m'"
    proof (cases "subround args = 0")
      case True
      then show ?thesis using r(5) [OF that] n(2) b by (simp add: between_passes_def)
    next
      case n0: False
      then have "2 \<le> subround args" using sub by auto
      then show ?thesis using r(5) [OF that] holds_any_seed by blast
    qed
    then show ?thesis using n(1) sub False by (auto simp: between_passes_def)
  qed
  then show ?thesis using r(1,4) by simp
qed

text \<open>A pass takes one key for every chunk.\<close>

lemma pass_keys:
  "test_pass peek remain keys args m = Some (c, keys', rs, args', m') \<Longrightarrow>
   \<exists>us. keys = us @ keys' \<and> (remain \<noteq> 0 \<longrightarrow> us \<noteq> []) \<and> (\<not> c \<longrightarrow> (\<forall>k \<in> set us. \<not> cancel_byte k))"
proof (induction keys arbitrary: remain args m rs)
  case Nil
  then show ?case by (simp add: test_pass.simps split: if_splits)
next
  case (Cons key keys)
  show ?case
  proof (cases "remain = 0")
    case True
    then show ?thesis using Cons.prems by (simp add: test_pass.simps)
  next
    case False
    obtain bound sz where n: "next_chunk (start_addr args) remain = (bound, sz)" by (cases "next_chunk (start_addr args) remain")
    show ?thesis
    proof (rule pass_step [OF False Cons.prems(1) n])
      fix key1 keys1 rs1 args1 m1 d ks' rs2 args2 m2
      assume k: "key # keys = key1 # keys1" "\<not> cancel_byte key1"
        and p: "test_pass peek (remain - sz) keys1 (args1\<lparr>start_addr := start_addr args1 + sz\<rparr>) m1 = Some (d, ks', rs2, args2, m2)"
        and r: "(c, keys', rs, args', m') = (d, ks', rs1 @ rs2, args2, m2)"
      obtain us where "keys = us @ keys'" "\<not> c \<longrightarrow> (\<forall>k \<in> set us. \<not> cancel_byte k)" using Cons.IH p k r by blast
      then show ?thesis using k by (intro exI [of _ "key # us"]) auto
    qed (elim exE conjE, simp)
  qed
qed

lemma pass_returns:
  "length (chunks (start_addr args) remain) \<le> length (takeWhile (\<lambda>k. \<not> cancel_byte k) keys) \<Longrightarrow>
   \<exists>rs args' m'. test_pass peek remain keys args m = Some (False, drop (length (chunks (start_addr args) remain)) keys, rs, args', m')"
proof (induction keys arbitrary: remain args m)
  case Nil
  then have "remain = 0" by (auto simp: chunks.simps [of "start_addr args" remain] split: if_splits prod.splits)
  then show ?case by (simp add: test_pass.simps chunks.simps)
next
  case (Cons key keys)
  show ?case
  proof (cases "remain = 0")
    case True
    then show ?thesis by (simp add: test_pass.simps chunks.simps)
  next
    case False
    obtain bound sz where n: "next_chunk (start_addr args) remain = (bound, sz)" by (cases "next_chunk (start_addr args) remain")
    obtain rs1 args1 m1 where t: "test_memory_range peek (args\<lparr>end_addr := bound\<rparr>) m = (rs1, args1, m1)"
      by (cases "test_memory_range peek (args\<lparr>end_addr := bound\<rparr>) m")
    have same: "start_addr args1 = start_addr args" using same_parts [OF t] by simp
    have cs: "chunks (start_addr args) remain = (start_addr args, bound) # chunks (start_addr args + sz) (remain - sz)"
      using n False by (simp add: chunks.simps [of "start_addr args" remain])
    have key: "\<not> cancel_byte key" using Cons.prems cs by (simp split: if_splits)
    then have "length (chunks (start_addr (args1\<lparr>start_addr := start_addr args1 + sz\<rparr>)) (remain - sz)) \<le> length (takeWhile (\<lambda>k. \<not> cancel_byte k) keys)"
      using Cons.prems cs same by simp
    from Cons.IH [OF this, of m1] show ?thesis
      using False n t key same cs by (subst test_pass.simps) (auto simp: Let_def)
  qed
qed

lemma pass_cancelled:
  "\<exists>k \<in> set keys. cancel_byte k \<Longrightarrow> \<exists>r. test_pass peek remain keys args m = Some r"
proof (induction keys arbitrary: remain args m)
  case (Cons key keys)
  show ?case
  proof (cases "cancel_byte key")
    case True
    then show ?thesis by (subst test_pass.simps) (auto simp: Let_def split: prod.splits)
  next
    case False
    then have later: "\<exists>r. test_pass peek remain keys args m = Some r" for remain args m using Cons by simp
    obtain bound sz where n: "next_chunk (start_addr args) remain = (bound, sz)" by (cases "next_chunk (start_addr args) remain")
    obtain rs1 args1 m1 where t: "test_memory_range peek (args\<lparr>end_addr := bound\<rparr>) m = (rs1, args1, m1)"
      by (cases "test_memory_range peek (args\<lparr>end_addr := bound\<rparr>) m")
    obtain r where "test_pass peek (remain - sz) keys (args1\<lparr>start_addr := start_addr args1 + sz\<rparr>) m1 = Some r" using later by blast
    then show ?thesis using n t by (subst test_pass.simps) (simp add: Let_def, cases r, auto)
  qed
qed simp

lemma rounds_quiet:
  assumes fit: "unat base + unat sz + 16 \<le> 2 ^ 32" and "sz \<noteq> 0"
  shows "\<exists>k \<in> set keys. cancel_byte k \<Longrightarrow> between_passes base sz args m \<Longrightarrow>
    \<exists>args' m'. test_rounds ideal cpu base sz keys args rs m = Some (rs, args', m') \<and>
      (\<forall>y. unat y < unat base \<or> unat base + unat sz \<le> unat y \<longrightarrow> m' y = m y)"
proof (induction "length keys" arbitrary: keys args m rule: less_induct)
  case less
  obtain c keys1 rs1 args1 m1 where p: "test_pass ideal sz keys (args\<lparr>start_addr := base\<rparr>) m = Some (c, keys1, rs1, args1, m1)"
    using pass_cancelled [OF less.prems(1), of ideal sz "args\<lparr>start_addr := base\<rparr>" m] by (metis prod_cases5)
  note n = between_next [OF less.prems(2) fit p]
  show ?case
  proof (cases c)
    case True
    then show ?thesis using p n by (subst test_rounds.simps) simp
  next
    case False
    obtain us where us: "keys = us @ keys1" "us \<noteq> []" "\<forall>k \<in> set us. \<not> cancel_byte k" using pass_keys [OF p] assms(2) False by auto
    have "\<exists>k \<in> set keys1. cancel_byte k" using us less.prems(1) by auto
    moreover have "length keys1 < length keys" using us by simp
    ultimately obtain args' m' where r: "test_rounds ideal cpu base sz keys1 (memory_test_next_subround cpu args1) rs m1 = Some (rs, args', m')"
      "\<forall>y. unat y < unat base \<or> unat base + unat sz \<le> unat y \<longrightarrow> m' y = m1 y"
      using less.hyps n False by blast
    have "test_rounds ideal cpu base sz keys args rs m = Some (rs, args', m')"
      using p False n r(1) by (subst test_rounds.simps) simp
    then show ?thesis using r(2) n by auto
  qed
qed

text \<open>C18. The memory test never blames good memory. On memory that returns what was written, for any range it accepts, any keys
  with a Q or Escape among them and both kinds of processor, the test ends, reports no error, however many rounds
  it got to, and has written nothing outside its range; a range that is not free for use is refused untouched.\<close>

theorem good_memory_passes:
  assumes "unat base + unat sz + 16 \<le> 2 ^ 32" "\<exists>k \<in> set keys. cancel_byte k"
  shows "\<exists>m'. memory_test ideal cpu l base sz keys m =
      Some (if sz = 0 then None else check_writable_range l base sz False, [], m') \<and>
    (\<forall>y. unat y < unat base \<or> unat base + unat sz \<le> unat y \<longrightarrow> m' y = m y) \<and>
    (check_writable_range l base sz False \<noteq> None \<longrightarrow> m' = m)"
proof (cases "sz = 0 \<or> check_writable_range l base sz False \<noteq> None")
  case True
  then show ?thesis by (auto simp: memory_test_def)
next
  case False
  have "between_passes base sz (init_memory_test cpu) m"
    by (simp add: between_passes_def init_memory_test_def print_memory_test_type_def memory_test_next_cpu_cache_mode_def)
  moreover have "sz \<noteq> 0" using False by simp
  ultimately obtain args' m' where "test_rounds ideal cpu base sz keys (init_memory_test cpu) [] m = Some ([], args', m')"
    "\<forall>y. unat y < unat base \<or> unat base + unat sz \<le> unat y \<longrightarrow> m' y = m y"
    using rounds_quiet [OF assms(1) _ assms(2)] by blast
  then show ?thesis using False by (auto simp: memory_test_def)
qed

lemma sample_range_free: "check_writable_range (q40_mem_init 0x30001 0x2000000) 0x200000 64 False = None"
  by (simp add: check_writable_range_def q40_mem_init_def dram_layout_def MAXHEAP_def)

theorem good_memory_passes_witness:
  "\<exists>m'. memory_test ideal True (q40_mem_init 0x30001 0x2000000) 0x200000 64 [0, 0x51] (\<lambda>_. 7) = Some (None, [], m') \<and>
     m' 0x1FFFFF = 7"
  using good_memory_passes [of "0x200000" 64 "[0, 0x51]" True "q40_mem_init 0x30001 0x2000000" "\<lambda>_. 7"]
  by (auto simp: sample_range_free cancel_byte_def)

section \<open>Stuck bits\<close>

lemma nth_peeks: "i < k \<Longrightarrow> peeks peek a k m ! i = peek (a + 4 * of_nat i) m"
proof (induction k arbitrary: a i)
  case (Suc k)
  then show ?case by (cases i) (simp_all add: algebra_simps)
qed simp

lemma chunk_edges:
  assumes "next_chunk start remain = (bound, sz)" "remain \<noteq> 0" "unat start + unat remain + 16 \<le> 2 ^ 32"
  shows "unat bound mod 16 = 0 \<or> sz = remain"
proof -
  let ?z = "if remain > TEST_CHUNK_SIZE then TEST_CHUNK_SIZE else remain"
  let ?edge = "(start + ?z) AND NOT (TEST_CHUNK_SIZE - 1)"
  have m16: "unat ?edge mod 16 = 0" unfolding chunk_edge by (intro dvd_imp_mod_0 dvd_mult) simp
  show ?thesis
  proof (cases "?edge \<noteq> start + ?z \<and> ?edge > start")
    case True
    then have "bound = ?edge" using assms(1) by (auto simp: next_chunk_def Let_def)
    then show ?thesis using m16 by simp
  next
    case False
    then have r: "bound = start + ?z" "sz = ?z" using assms(1) by (auto simp: next_chunk_def Let_def split: if_splits)
    show ?thesis
    proof (cases "?edge = start + ?z")
      case True
      then show ?thesis using m16 r by simp
    next
      case ne: False
      then have le: "unat ?edge \<le> unat start" using False by (simp add: not_less word_le_nat_alt)
      have "\<not> remain > TEST_CHUNK_SIZE"
      proof
        assume big: "remain > TEST_CHUNK_SIZE"
        then have "unat remain > 0x80000" by (simp add: TEST_CHUNK_SIZE_def word_less_nat_alt)
        then have "unat (start + TEST_CHUNK_SIZE) = unat start + 0x80000"
          using assms(3) by (subst u32_unat_add) (simp_all add: TEST_CHUNK_SIZE_def)
        then have "unat ?edge = (unat start + 0x80000) div 0x80000 * 0x80000" using big unfolding chunk_edge by simp
        then show False using le by simp
      qed
      then show ?thesis using r by simp
    qed
  qed
qed

lemma round16: "n mod 16 = 0 \<Longrightarrow> (n + 15) div 16 * 16 = (n :: nat)"
  by presburger

lemma chunks_cover:
  assumes "unat start + unat remain + 16 \<le> 2 ^ 32" "unat w mod 4 = 0"
    and "unat ((start + 15) AND NOT 15) \<le> unat w" "unat w + 4 \<le> unat ((start + remain) AND NOT 15)"
  shows "\<exists>(s, b) \<in> set (chunks start remain). unat ((s + 15) AND NOT 15) \<le> unat w \<and> unat w + 4 \<le> unat (b AND NOT 15)"
  using assms
proof (induction start remain rule: chunks.induct)
  case (1 start remain)
  show ?case
  proof (cases "remain = 0")
    case True
    have "unat (start AND NOT 15) \<le> unat start" "unat start \<le> unat ((start + 15) AND NOT 15)"
      using align_up [of start] align_down [of start] 1(2) by simp_all
    then show ?thesis using 1(4,5) True by simp
  next
    case False
    obtain bound sz where n: "next_chunk start remain = (bound, sz)" by (cases "next_chunk start remain")
    note b = next_chunk_bounds [OF n False]
    have cs: "chunks start remain = (start, bound) # chunks (start + sz) (remain - sz)"
      using n False by (simp add: chunks.simps [of start remain])
    show ?thesis
    proof (cases "unat w + 4 \<le> unat (bound AND NOT 15)")
      case True
      then show ?thesis using cs 1(4) by auto
    next
      case out: False
      have ne: "sz \<noteq> remain" using out 1(5) b(4) by auto
      then have m: "unat bound mod 16 = 0" using chunk_edges [OF n False 1(2)] by simp
      have next1: "unat (start + sz) = unat start + unat sz" "unat (remain - sz) = unat remain - unat sz"
        using b 1(2) by (simp_all add: u32_unat_add u32_unat_sub)
      have "unat (bound AND NOT 15) = unat bound" unfolding align_down using m by presburger
      then have w: "unat bound \<le> unat w" using out 1(3) m by presburger
      have up: "unat ((start + sz + 15) AND NOT 15) = unat (start + sz)"
      proof -
        have "unat ((start + sz + 15) AND NOT 15) = (unat bound + 15) div 16 * 16"
          unfolding b(4) [symmetric] by (rule align_up) (use next1 b 1(2) in simp)
        then show ?thesis using round16 [OF m] b(4) by simp
      qed
      have fit: "unat (start + sz) + unat (remain - sz) + 16 \<le> 2 ^ 32" using next1 b 1(2) by simp
      have "unat ((start + sz + 15) AND NOT 15) \<le> unat w" using up w b(4) by simp
      moreover have "start + sz + (remain - sz) = start + remain" by simp
      ultimately obtain c where "c \<in> set (chunks (start + sz) (remain - sz))"
        "case c of (s, b) \<Rightarrow> unat ((s + 15) AND NOT 15) \<le> unat w \<and> unat w + 4 \<le> unat (b AND NOT 15)"
        using 1(1) [OF False n [symmetric] fit 1(3)] 1(5) by auto
      then show ?thesis using cs by auto
    qed
  qed
qed

lemma takeWhile_behind: "n \<le> length (takeWhile P xs) \<Longrightarrow> length (takeWhile P (drop n xs)) = length (takeWhile P xs) - n"
proof (induction n arbitrary: xs)
  case (Suc n)
  then show ?case by (cases xs) (auto split: if_splits)
qed simp

lemma rounds_turn:
  assumes "test_rounds peek cpu base sz keys args rs m = Some (rs', args', m')"
  obtains c keys1 rs1 args1 m1 where "test_pass peek sz keys (args\<lparr>start_addr := base\<rparr>) m = Some (c, keys1, rs1, args1, m1)"
    "c \<Longrightarrow> rs' = rs @ rs1"
    "\<not> c \<Longrightarrow> test_rounds peek cpu base sz keys1 (memory_test_next_subround cpu args1) (rs @ rs1) m1 = Some (rs', args', m')"
  using assms by (subst (asm) test_rounds.simps) (auto split: option.splits if_splits prod.splits)

lemma rounds_go:
  assumes "test_pass peek sz keys (args\<lparr>start_addr := base\<rparr>) m = Some (False, keys1, rs1, args1, m1)"
  shows "test_rounds peek cpu base sz keys args rs m =
    test_rounds peek cpu base sz keys1 (memory_test_next_subround cpu args1) (rs @ rs1) m1"
  by (subst test_rounds.simps) (simp add: assms)

lemma rounds_extend:
  assumes "sz \<noteq> 0"
  shows "test_rounds peek cpu base sz keys args rs m = Some (rs', args', m') \<Longrightarrow> \<exists>more. rs' = rs @ more"
proof (induction "length keys" arbitrary: keys args rs m rule: less_induct)
  case less
  obtain c keys1 rs1 args1 m1 where p: "test_pass peek sz keys (args\<lparr>start_addr := base\<rparr>) m = Some (c, keys1, rs1, args1, m1)"
    and t: "c \<Longrightarrow> rs' = rs @ rs1"
      "\<not> c \<Longrightarrow> test_rounds peek cpu base sz keys1 (memory_test_next_subround cpu args1) (rs @ rs1) m1 = Some (rs', args', m')"
    using rounds_turn [OF less.prems] by blast
  obtain us where "keys = us @ keys1" "us \<noteq> []" using pass_keys [OF p] assms by auto
  then have "length keys1 < length keys" by simp
  then show ?case using t less.hyps [of keys1 _ "rs @ rs1" m1] by (cases c) fastforce+
qed

lemma pass_subround:
  assumes "test_pass peek sz keys (args\<lparr>start_addr := base\<rparr>) m = Some (c, keys1, rs1, args1, m1)" "subround args \<le> 9"
    and "unat base + unat sz + 16 \<le> 2 ^ 32"
  shows "subround args1 = subround args"
  using subrounds [OF assms(2)] fill_pass [OF assms(1)] check_pass [OF assms(1)] assms(3) by (simp del: insert_iff split: if_splits)

lemma turns_left:
  assumes "a \<le> b" "(b + 1 - a) * L \<le> (n :: nat)"
  shows "(b + 1 - (a + 1)) * L \<le> n - L"
proof -
  have "b + 1 - a = Suc (b + 1 - (a + 1))" using assms(1) by simp
  then have "L + (b + 1 - (a + 1)) * L \<le> n" using assms(2) by (simp only: mult_Suc)
  then show ?thesis by linarith
qed

lemma rounds_find:
  assumes sub: "sub \<in> {3, 5}" and wrong: "\<And>m. wrong_chunk peek (sub - 1) m ch" and ch: "ch \<in> set (chunks base sz)"
    and fit: "unat base + unat sz + 16 \<le> 2 ^ 32" and "sz \<noteq> 0"
  shows "test_rounds peek cpu base sz keys args rs m = Some (rs', args', m') \<Longrightarrow> subround args \<le> sub \<Longrightarrow>
    (sub + 1 - subround args) * length (chunks base sz) \<le> length (takeWhile (\<lambda>k. \<not> cancel_byte k) keys) \<Longrightarrow>
    reported rs' ch"
proof (induction "sub - subround args" arbitrary: keys args rs m rule: less_induct)
  case less
  let ?L = "length (chunks base sz)" and ?args = "args\<lparr>start_addr := base\<rparr>"
  have "1 \<le> sub + 1 - subround args" using less.prems(2) by simp
  from mult_le_mono1 [OF this, of ?L] have "?L \<le> (sub + 1 - subround args) * ?L" by simp
  then have quiet: "?L \<le> length (takeWhile (\<lambda>k. \<not> cancel_byte k) keys)" using less.prems(3) by linarith
  obtain rs1 args1 m1 where p: "test_pass peek sz keys ?args m = Some (False, drop ?L keys, rs1, args1, m1)"
    using pass_returns [of ?args sz keys peek m] quiet by auto
  have r: "test_rounds peek cpu base sz (drop ?L keys) (memory_test_next_subround cpu args1) (rs @ rs1) m1 = Some (rs', args', m')"
    using less.prems(1) unfolding rounds_go [OF p] .
  have j9: "subround args \<le> 9" using less.prems(2) sub by auto
  have j: "subround args1 = subround args" "subround args \<le> 9" using pass_subround [OF p j9 fit] j9 by simp_all
  show ?case
  proof (cases "subround args = sub")
    case True
    have "reported rs1 ch"
      using check_pass [OF p] sub True fit ch wrong [of m] by auto
    moreover obtain more where "rs' = (rs @ rs1) @ more" using rounds_extend [OF assms(5) r] by blast
    ultimately show ?thesis by (auto simp: reported_def)
  next
    case False
    have n: "subround (memory_test_next_subround cpu args1) = subround args + 1"
    proof -
      have "subround args1 \<noteq> 9" using j(1) sub less.prems(2) by auto
      then have "subround (memory_test_next_subround cpu args1) = subround args1 + 1"
        by (simp add: memory_test_next_subround_def print_memory_test_type_def)
      then show ?thesis using j(1) by simp
    qed
    have lt: "subround args < sub" using False less.prems(2) by simp
    have "(sub + 1 - (subround args + 1)) * ?L \<le> length (takeWhile (\<lambda>k. \<not> cancel_byte k) keys) - ?L"
      by (rule turns_left [OF less.prems(2,3)])
    then have rest: "(sub + 1 - subround (memory_test_next_subround cpu args1)) * ?L
        \<le> length (takeWhile (\<lambda>k. \<not> cancel_byte k) (drop ?L keys))"
      unfolding n takeWhile_behind [OF quiet] .
    have "sub - subround (memory_test_next_subround cpu args1) < sub - subround args"
      "subround (memory_test_next_subround cpu args1) \<le> sub"
      unfolding n using lt by simp_all
    then show ?thesis by (rule less.hyps [OF _ r _ rest])
  qed
qed

lemma rounds_return:
  assumes "sz \<noteq> 0"
  shows "\<exists>k \<in> set keys. cancel_byte k \<Longrightarrow> \<exists>rs' args' m'. test_rounds peek cpu base sz keys args rs m = Some (rs', args', m')"
proof (induction "length keys" arbitrary: keys args rs m rule: less_induct)
  case less
  obtain c keys1 rs1 args1 m1 where p: "test_pass peek sz keys (args\<lparr>start_addr := base\<rparr>) m = Some (c, keys1, rs1, args1, m1)"
    using pass_cancelled [OF less.prems, of peek sz "args\<lparr>start_addr := base\<rparr>" m] by (metis prod_cases5)
  show ?case
  proof (cases c)
    case True
    then show ?thesis using p by (subst test_rounds.simps) simp
  next
    case False
    obtain us where us: "keys = us @ keys1" "us \<noteq> []" "\<forall>k \<in> set us. \<not> cancel_byte k" using pass_keys [OF p] assms False by auto
    then have "\<exists>k \<in> set keys1. cancel_byte k" "length keys1 < length keys" using less.prems by auto
    then show ?thesis using less.hyps p False by (subst test_rounds.simps) simp
  qed
qed

lemma slot_exact:
  assumes "s mod 16 = (0 :: nat)" "w mod 4 = 0" "s \<le> w"
  shows "4 * ((w - s) div 4) = w - s"
proof -
  obtain a c where "s = 16 * a" "w = 4 * c" using assms(1,2) by (auto simp: mod_eq_0_iff_dvd elim!: dvdE)
  then show ?thesis by simp
qed

lemma slot_inside:
  assumes "s mod 16 = (0 :: nat)" "e mod 16 = 0" "w mod 4 = 0" "s \<le> w" "w + 4 \<le> e"
  shows "(w - s) div 4 < (e - s) div 16 * 4"
proof -
  obtain a b c where n: "s = 16 * a" "e = 16 * b" "w = 4 * c"
    using assms(1-3) by (auto simp: mod_eq_0_iff_dvd elim!: dvdE)
  then have "w - s = 4 * (c - 4 * a)" "e - s = 16 * (b - a)" by simp_all
  then have "(w - s) div 4 = c - 4 * a" "(e - s) div 16 * 4 = 4 * (b - a)" by simp_all
  moreover have "c - 4 * a < 4 * (b - a)" using assms(4,5) n by arith
  ultimately show ?thesis by simp
qed

lemma stuck_is_wrong:
  assumes stuck: "\<And>m. bit (peek w m) i = b" "i < 32" and w: "unat w mod 4 = 0"
    and inside: "unat ((s + 15) AND NOT 15) \<le> unat w" "unat w + 4 \<le> unat (e AND NOT 15)"
    and sub: "sub = (if b = (16 \<le> i) then 5 else 3)"
  shows "wrong_chunk peek (sub - 1) m (s, e)"
proof -
  let ?s = "(s + 15) AND NOT 15" and ?e = "e AND NOT 15"
  let ?k = "4 * blocks_between ?s ?e" and ?i = "(unat w - unat ?s) div 4"
  have lt: "\<not> ?s \<ge> ?e" using inside by (simp add: word_le_nat_alt)
  have aligned: "unat ?s mod 16 = 0" "unat ?e mod 16 = 0" unfolding align_down by simp_all
  have k: "?k = (unat ?e - unat ?s) div 16 * 4" using lt by (simp add: blocks_between_def u32_unat_sub word_le_nat_alt not_le)
  have i: "?i < ?k" unfolding k by (rule slot_inside [OF aligned w inside])
  have "of_nat (4 * ?i) = w - ?s"
    unfolding slot_exact [OF aligned(1) w inside(1)] using inside(1) by (simp add: word_unat_eq_iff u32_unat_sub)
  then have at: "?s + 4 * of_nat ?i = w" by (simp add: algebra_simps)
  let ?c = "if sub = 3 then 0xFFFF0000 else 0x0000FFFF :: u32"
  have f: "filled (sub - 1) x n = replicate n ?c" for x n using sub by (auto simp: filled_def)
  have "bit ?c i \<noteq> b"
  proof -
    have "(0xFFFF :: u32) = mask 16" "(0xFFFF0000 :: u32) = push_bit 16 (mask 16)"
      by (simp_all add: mask_eq_exp_minus_1 push_bit_eq_mult)
    then have "bit (0xFFFF :: u32) i = bit (mask 16 :: u32) i" "bit (0xFFFF0000 :: u32) i = bit (push_bit 16 (mask 16) :: u32) i"
      by simp_all
    moreover have "bit (mask 16 :: u32) i = (i < 16)" "bit (push_bit 16 (mask 16) :: u32) i = (16 \<le> i)"
      using stuck(2) by (simp_all only: bit_mask_iff bit_push_bit_iff possible_bit_word) auto
    ultimately have "bit (0xFFFF :: u32) i = (i < 16)" "bit (0xFFFF0000 :: u32) i = (16 \<le> i)" by (simp_all only:)
    then show ?thesis using sub by auto
  qed
  then have "peek w m \<noteq> ?c" unfolding stuck(1) [of m, symmetric] by (rule contrapos_nn) (drule sym, erule arg_cong)
  moreover have "peeks peek ?s ?k m ! ?i = peek w m" using nth_peeks [OF i, of peek ?s m] at by simp
  ultimately have "peeks peek ?s ?k m \<noteq> replicate ?k ?c" using nth_replicate [OF i, of ?c] by force
  then show ?thesis using lt unfolding wrong_chunk_def Let_def f fst_conv snd_conv by simp
qed

text \<open>C7. The memory test finds every stuck bit. If one bit of an aligned long word always reads the same, whatever else is wrong
  with the memory, then a test of an accepted range around that word that runs six passes ends with
  a report whose range contains the word.\<close>

theorem stuck_bit_found:
  assumes "unat base + unat sz + 16 \<le> 2 ^ 32" "check_writable_range l base sz False = None"
    and "\<And>m. bit (peek w m) i = b" "i < 32" "unat w mod 4 = 0"
    and "unat ((base + 15) AND NOT 15) \<le> unat w" "unat w + 4 \<le> unat ((base + sz) AND NOT 15)"
    and "\<exists>k \<in> set keys. cancel_byte k" "6 * length (chunks base sz) \<le> length (takeWhile (\<lambda>k. \<not> cancel_byte k) keys)"
  shows "\<exists>rs m'. memory_test peek cpu l base sz keys m = Some (None, rs, m') \<and> (\<exists>(s, t, a) \<in> set rs. s \<le> w \<and> w \<le> t \<and> a \<noteq> 0)"
proof -
  obtain s e where ch: "(s, e) \<in> set (chunks base sz)" "unat ((s + 15) AND NOT 15) \<le> unat w" "unat w + 4 \<le> unat (e AND NOT 15)"
    using chunks_cover [OF assms(1,5,6,7)] by auto
  have sz: "sz \<noteq> 0" using ch(1) by (auto simp: chunks.simps)
  define sub :: nat where "sub = (if b = (16 \<le> i) then 5 else 3)"
  obtain rs args' m' where r: "test_rounds peek cpu base sz keys (init_memory_test cpu) [] m = Some (rs, args', m')"
    using rounds_return [OF sz assms(8)] by blast
  have init: "subround (init_memory_test cpu) = 0"
    by (simp add: init_memory_test_def print_memory_test_type_def memory_test_next_cpu_cache_mode_def)
  have sub: "sub \<in> {3, 5}" "sub + 1 \<le> 6" by (auto simp: sub_def)
  have "(sub + 1) * length (chunks base sz) \<le> 6 * length (chunks base sz)" using sub(2) by (rule mult_le_mono1)
  then have "(sub + 1 - subround (init_memory_test cpu)) * length (chunks base sz)
      \<le> length (takeWhile (\<lambda>k. \<not> cancel_byte k) keys)"
    using assms(9) unfolding init diff_zero by (rule order_trans)
  moreover have "wrong_chunk peek (sub - 1) m (s, e)" for m
    by (rule stuck_is_wrong [where peek = peek and w = w and i = i and b = b]) (use assms(3-5) ch(2,3) sub_def in simp_all)
  ultimately have "reported rs (s, e)"
    using rounds_find [OF sub(1) _ ch(1) assms(1) sz r] init by simp
  then obtain a where a: "((s + 15) AND NOT 15, (e AND NOT 15) - 1, a) \<in> set rs" "a \<noteq> 0" by (auto simp: reported_def)
  have "unat ((e AND NOT 15) - 1) = unat (e AND NOT 15) - 1" using ch(3) by (subst u32_unat_sub) simp_all
  then have "(s + 15) AND NOT 15 \<le> w" "w \<le> (e AND NOT 15) - 1" using ch(2,3) by (simp_all only: word_le_nat_alt)
  then show ?thesis using r a sz assms(2) by (fastforce simp: memory_test_def)
qed

text \<open>Memory whose long word at \<open>0x200010\<close> has bit 20 stuck at zero.\<close>

definition stuck_memory :: "u32 \<Rightarrow> memory \<Rightarrow> u32" where
  "stuck_memory a m = (if a = 0x200010 then unset_bit 20 (ideal a m) else ideal a m)"

lemma sample_chunks: "chunks 0x200000 64 = [(0x200000, 0x200040)]"
  by (simp add: chunks.simps next_chunk_def TEST_CHUNK_SIZE_def)

theorem stuck_bit_found_witness:
  "\<exists>rs m'. memory_test stuck_memory True (q40_mem_init 0x30001 0x2000000) 0x200000 64 [0, 0, 0, 0, 0, 0, 0x51] (\<lambda>_. 0)
      = Some (None, rs, m') \<and>
    (\<exists>(s, t, a) \<in> set rs. s \<le> 0x200010 \<and> 0x200010 \<le> t \<and> a \<noteq> 0)"
proof (rule stuck_bit_found [where i = 20 and b = False])
  show "bit (stuck_memory 0x200010 m) 20 = False" for m by (simp add: stuck_memory_def bit_unset_bit_iff)
qed (simp_all add: sample_range_free sample_chunks cancel_byte_def)

end
