(* ===== verification/CliLoad.thy ===== *)
theory CliLoad
  imports Loader_Safety FileIO Env
begin

text \<open>
  The commands \<^verbatim>\<open>load\<close>, \<^verbatim>\<open>save\<close> and \<^verbatim>\<open>execute\<close> of \<^verbatim>\<open>cli/cli_load.c\<close>, over the loader of theory \<open>Loader\<close>. \<open>None\<close> is
  the halt of the loader, or an argument that is no C string.
\<close>

datatype load_message =
    Open_failed cbytes fresult
  | Offset_exceeds u32 u32
  | Saving u32 u32 cbytes
  | Write_failed cbytes fresult

definition do_execute :: "env \<Rightarrow> cbytes list \<Rightarrow> loader \<Rightarrow> (outcome \<times> loader) option" where
  "do_execute es argv s = do {
     (address, _) \<leftarrow> parse_uint32 es (hd argv);
     execute address (tl argv) s }"

text \<open>An argument that may be missing.\<close>

definition number_arg :: "env \<Rightarrow> cbytes list \<Rightarrow> nat \<Rightarrow> u32 \<Rightarrow> u32 option" where
  "number_arg es argv i default_value =
     (if length argv > i then map_option fst (parse_uint32 es (argv ! i)) else Some default_value)"

text \<open>The result of \<open>load_data\<close> is ignored; the loader prints its own messages.\<close>

definition do_load :: "env \<Rightarrow> 'f fatfs \<Rightarrow> cbytes list \<Rightarrow> loader \<Rightarrow> (load_message list \<times> loader) option" where
  "do_load es fs argv s =
     (case f_open fs (argv ! 0) of (fr, fd) \<Rightarrow>
        if fr \<noteq> FR_OK then Some ([Open_failed (argv ! 0) fr], s)
        else do {
          (address, _) \<leftarrow> parse_uint32 es (argv ! 1);
          let fsize = f_size fs fd;
          offset \<leftarrow> number_arg es argv 2 0;
          msize \<leftarrow> number_arg es argv 3 fsize;
          if offset > fsize then Some ([Offset_exceeds offset fsize], s)
          else do {
            let fsize = fsize - offset;
            let fsize = (if fsize > msize then msize else fsize);
            (fr, fd, s) \<leftarrow> load_data fs fd address offset fsize msize s;
            Some ([], s) } })"

definition memory_bytes :: "memory \<Rightarrow> u32 \<Rightarrow> nat \<Rightarrow> u8 list" where
  "memory_bytes m a n = map (\<lambda>i. m (a + of_nat i)) [0 ..< n]"

text \<open>The count of the bytes written is stored through a null pointer. The file that was closed is in the result.\<close>

definition do_save :: "env \<Rightarrow> 'f rw_fatfs \<Rightarrow> cbytes list \<Rightarrow> memory \<Rightarrow> (load_message list \<times> 'f option \<times> memory) option" where
  "do_save es fs argv m =
     (case f_create fs (argv ! 0) of (fr, fd) \<Rightarrow>
        if fr \<noteq> FR_OK then Some ([Open_failed (argv ! 0) fr], None, m)
        else do {
          (address, _) \<leftarrow> parse_uint32 es (argv ! 1);
          (msize, _) \<leftarrow> parse_uint32 es (argv ! 2);
          (case f_write fs fd (memory_bytes m address (unat msize)) of (fr, n, fd) \<Rightarrow>
             Some (Saving msize address (argv ! 0) # (if fr \<noteq> FR_OK then [Write_failed (argv ! 0) fr] else []),
               Some (snd (f_close fs fd)), store 0 (bytes32 n) m)) })"

section \<open>What the commands do\<close>

lemma number_arg_given: "i < length argv \<Longrightarrow> parse_uint32 es (argv ! i) = Some (v, e) \<Longrightarrow> number_arg es argv i d = Some v"
  by (simp add: number_arg_def)

lemma number_arg_missing: "length argv \<le> i \<Longrightarrow> number_arg es argv i d = Some d"
  by (simp add: number_arg_def)


lemma sample_numbers:
  "parse_uint32 [] [0x30, 0x78, 0x34, 0x30, 0x30, 0x30, 0x30, 0] = Some (0x40000, 7)"
  "parse_uint32 [] [0x32, 0] = Some (2, 1)" "parse_uint32 [] [0x39, 0] = Some (9, 1)"
  by (simp_all add: parse_uint32_def get_base_def get_environment_variable_int_def parse_eval)


end
