(* ===== verification/Console.thy ===== *)
theory Console
  imports Printf FileIO
begin

text \<open>
  Printing to the console through \<open>printf\<close> of theory \<open>Printf\<close> and \<^verbatim>\<open>puts\<close> of \<^verbatim>\<open>lib/printf.c\<close>: the bytes sent are appended to a list.
  A format whose arguments are missing is \<open>None\<close>.
\<close>

definition put_printf :: "string \<Rightarrow> va list \<Rightarrow> u8 list \<Rightarrow> u8 list option" where
  "put_printf fmt args tx = map_option (\<lambda>(n, bs). tx @ bs) (printf (ascii fmt) args)"

definition newline :: string where "newline = [CHR 0x0A]"

definition puts :: "cbytes \<Rightarrow> u8 list \<Rightarrow> u8 list" where
  "puts s tx = putch 0x0A (foldl (\<lambda>tx c. putch c tx) tx (cstr s))"

section \<open>Text without line breaks\<close>

lemma put_string_plain:
  "\<forall>c \<in> set s. c \<noteq> 0 \<and> c \<noteq> 0x0A \<Longrightarrow> put_string (s @ 0 # r) (int (length s)) cnt tx = Some (cnt + int (length s), tx @ s)"
  by (induction s arbitrary: cnt tx) (simp_all add: putch_def)

lemma putchs_plain: "c \<noteq> 0x0A \<Longrightarrow> putchs n c tx = tx @ replicate n c"
  by (induction n arbitrary: tx) (simp_all add: putch_def)

lemma put_field_plain:
  assumes "\<forall>c \<in> set s. c \<noteq> 0 \<and> c \<noteq> 0x0A" "length s < 2147483648" "s \<noteq> []" "0 \<le> mn" "pad \<noteq> 0x0A"
  shows "\<exists>k. put_field (s @ [0]) mn 0 pad cnt tx = Some (k, tx @ replicate (nat mn - length s) pad @ s)"
proof -
  have len: "strlen (s @ [0]) = Some (of_nat (length s))"
    using strlen_eq [of "s @ [0]"] assms(1) by (auto simp: terminated_def cstr_append takeWhile_append2)
  have c: "cstr (s @ [0]) = s" using assms(1) by (induction s) (auto simp: cstr_def)
  define n where "n = length s"
  have n: "uint (of_nat n :: u32) = int n" using assms(2) by (simp add: n_def uint_nat u32_unat_of_nat)
  have s: "sint (of_nat n :: u32) = int n" using sint_u32 [of "of_nat n"] n assms(2) by (simp add: n_def)
  have p: "put_string (s @ [0]) (int n) cnt' tx' = Some (cnt' + int n, tx' @ s)" for cnt' tx'
    using put_string_plain [OF assms(1), of "[]"] by (simp add: n_def)
  have z: "int n \<noteq> 0" using assms(3) by (simp add: n_def)
  have nn: "nat (mn - int n) = nat mn - n" by (simp add: nat_diff_distrib)
  show ?thesis
    using assms(4,5) len z s p by (cases "0 < mn") (simp_all add: put_field_def n_def [symmetric] putchs_plain nn Let_def)
qed

lemma puts_plain: "\<forall>c \<in> set (cstr s). c \<noteq> 0x0A \<Longrightarrow> puts s tx = tx @ cstr s @ [0x0D, 0x0A]"
proof -
  have "\<forall>c \<in> set u. c \<noteq> 0x0A \<Longrightarrow> foldl (\<lambda>tx c. putch c tx) tx u = tx @ u" for u
    by (induction u arbitrary: tx) (simp_all add: putch_def)
  then show "\<forall>c \<in> set (cstr s). c \<noteq> 0x0A \<Longrightarrow> puts s tx = tx @ cstr s @ [0x0D, 0x0A]" by (simp add: puts_def putch_def)
qed

text \<open>A number that is not negative, in decimal.\<close>

lemma decimal_field:
  assumes "unat v < 2 ^ 31"
  shows "numout v (- 10) (replicate 12 0) = Some (digit_bytes 10 (unat v) @ [0])"
    "\<exists>k. put_field (digit_bytes 10 (unat v) @ [0]) 0 0 0x20 cnt tx = Some (k, tx @ digit_bytes 10 (unat v))"
proof -
  define n where "n = unat v"
  have "uint v = int n" by (simp add: n_def)
  then have s: "sint v = int (unat v)" using assms by (simp add: sint_u32 flip: n_def)
  then show "numout v (- 10) (replicate 12 0) = Some (digit_bytes 10 (unat v) @ [0])"
    using numout_digits [of "replicate 12 0" v] by simp
  have "\<forall>d \<in> set [0 ..< 16]. nstring ! d \<noteq> 0 \<and> nstring ! d \<noteq> 0x0A" by (simp add: upt_rec nstring_def)
  then have p: "\<forall>c \<in> set (digit_bytes 10 (unat v)). c \<noteq> 0 \<and> c \<noteq> 0x0A"
    using digits_less [of 10 "unat v"] by (fastforce simp: digit_bytes_def)
  have "length (digit_bytes 10 (unat v)) < 2147483648" "digit_bytes 10 (unat v) \<noteq> []"
    using digits_fit10 [of v] digits_nonempty [of 10 "unat v"] by (simp_all add: digit_bytes_def)
  then show "\<exists>k. put_field (digit_bytes 10 (unat v) @ [0]) 0 0 0x20 cnt tx = Some (k, tx @ digit_bytes 10 (unat v))"
    using put_field_plain [OF p, of 0 "0x20" cnt tx] by simp
qed

end
