(* ===== verification/CliNet.thy ===== *)
theory CliNet
  imports Console Env Tftp
begin

text \<open>
  The network commands: \<^verbatim>\<open>tftp\<close> and \<^verbatim>\<open>tftpput\<close> of \<^verbatim>\<open>cli/cli_tftp.c\<close>, which find the server and hand the transfer to
  theory \<open>Tftp\<close>, and \<^verbatim>\<open>netinfo\<close> of \<^verbatim>\<open>cli/cli_info.c\<close> with \<^verbatim>\<open>net_dump_packet_sinks\<close> of \<^verbatim>\<open>net/net.c\<close>. The addresses of
  the sinks, which are printed, are the parameter \<open>place\<close>.
\<close>

section \<open>Transfers\<close>

datatype tftp_refusal = Unexpected_arguments | No_server | Bad_server cbytes

text \<open>The server, if it is given, the source and the destination.\<close>

definition tftp_arguments :: "cbytes list \<Rightarrow> (cbytes option \<times> cbytes \<times> cbytes) option" where
  "tftp_arguments argv =
     (case argv of
        [a] \<Rightarrow> Some (None, a, a)
      | [a, b] \<Rightarrow> Some (None, a, b)
      | [a, b, c] \<Rightarrow> Some (Some a, b, c)
      | _ \<Rightarrow> None)"

definition server_name :: cbytes where "server_name = ascii ''tftp_server''"

text \<open>What is asked of \<^verbatim>\<open>tftp_transfer\<close>: the address, the name on the server, the name on the disk, and the direction.\<close>

definition tftp_request :: "env \<Rightarrow> cbytes list \<Rightarrow> bool \<Rightarrow> (tftp_refusal + u32 \<times> cbytes \<times> cbytes \<times> bool) option" where
  "tftp_request es argv putting =
     (case tftp_arguments argv of
        None \<Rightarrow> Some (Inl Unexpected_arguments)
      | Some (server, src, dst) \<Rightarrow> do {
          server \<leftarrow> (if server = None then get_environment_variable server_name es else Some server);
          (case server of
             None \<Rightarrow> Some (Inl No_server)
           | Some server \<Rightarrow> do {
               targetip \<leftarrow> net_parse_ipv4 server;
               if targetip = 0 then Some (Inl (Bad_server server))
               else if putting then Some (Inr (targetip, dst, src, True))
               else Some (Inr (targetip, src, dst, False)) }) })"

definition do_tftp_cli ::
  "env \<Rightarrow> 'f rw_fatfs \<Rightarrow> nat \<Rightarrow> (event list \<times> int) list \<Rightarrow> cbytes list \<Rightarrow> bool \<Rightarrow> net \<Rightarrow>
   ((tftp_refusal + (bool \<times> 'f) option) \<times> net) option" where
  "do_tftp_cli es fs i turns argv putting n = do {
     r \<leftarrow> tftp_request es argv putting;
     (case r of
        Inl e \<Rightarrow> Some (Inl e, n)
      | Inr (ip, name, disk, sending) \<Rightarrow> map_option (\<lambda>(r, n). (Inr r, n)) (tftp_transfer fs i turns ip name disk sending n)) }"

definition do_tftp_get where "do_tftp_get es fs i turns argv n = do_tftp_cli es fs i turns argv False n"
definition do_tftp_put where "do_tftp_put es fs i turns argv n = do_tftp_cli es fs i turns argv True n"

section \<open>The state of the network\<close>

lemma bit_somewhere: "x \<noteq> 0 \<Longrightarrow> \<exists>i. bit (x :: u32) i"
  using bit_eq_iff [of x 0] by auto

function prefix_length :: "u32 \<Rightarrow> nat" where
  "prefix_length m = (if m \<noteq> 0 then Suc (prefix_length (push_bit 1 m)) else 0)"
  by pat_completeness auto
termination
proof (relation "measure (\<lambda>m. if m = 0 then 0 else 32 - (LEAST i. bit m i))")
  fix m :: u32
  assume m: "m \<noteq> 0"
  then obtain i where "bit m i" using bit_somewhere by blast
  then have "bit m (LEAST i. bit m i)" by (rule LeastI)
  with bit_imp_le_length [OF this] have l: "bit m (LEAST i. bit m i)" "(LEAST i. bit m i) < 32" by simp_all
  have "(LEAST i. bit m i) < (LEAST i. bit (push_bit 1 m) i)" if nz: "push_bit 1 m \<noteq> 0"
  proof -
    obtain j where "bit (push_bit 1 m) j" using bit_somewhere [OF nz] by blast
    then have "bit (push_bit 1 m) (LEAST i. bit (push_bit 1 m) i)" by (rule LeastI)
    then have "bit m ((LEAST i. bit (push_bit 1 m) i) - 1)" "1 \<le> (LEAST i. bit (push_bit 1 m) i)"
      unfolding bit_push_bit_iff by simp_all
    then show ?thesis using Least_le [of "bit m"] by fastforce
  qed
  then show "(push_bit 1 m, m) \<in> measure (\<lambda>m. if m = 0 then 0 else 32 - (LEAST i. bit m i))" using m l by (auto simp: diff_less_mono2)
qed auto

declare prefix_length.simps [simp del]

definition octets :: "u32 \<Rightarrow> va list" where
  "octets a = [VInt (drop_bit 24 a AND 0xFF), VInt (drop_bit 16 a AND 0xFF), VInt (drop_bit 8 a AND 0xFF), VInt (a AND 0xFF)]"

definition sink_format :: string where
  "sink_format = ''packet_sink @ 0x%lx:'' @ newline @
     ''  ipv4_protocol=0x%x, local_ip=0x%lx, if_ip=%s, remote_ip=0x%lx, local_port=%d, remote_port=%d'' @ newline @
     ''  ethertype=0x%x, queue_len=%d, packets_queued=%ld, timer=%ld, callbacks:%s%s'' @ newline"

definition sink_args :: "(nat \<Rightarrow> u32) \<Rightarrow> u32 \<Rightarrow> sink \<Rightarrow> va list" where
  "sink_args place t k =
     [VInt (place (sid k)), VInt (ucast (match_ipv4_protocol k)), VInt (match_local_ip k),
      VStr (ascii (if match_interface_local_ip k then ''true'' else ''false'')), VInt (match_remote_ip k),
      VInt (ucast (match_local_port k)), VInt (ucast (match_remote_port k)), VInt (ucast (match_ethertype k)),
      VInt (of_nat (length (squeue k))), VInt (packets_queued k), VInt (if stimer k \<noteq> 0 then stimer k - t else - 1),
      VStr (ascii (if cb_timer_expired k \<noteq> No_timer then '' timer'' else '''')),
      VStr (ascii (if cb_packet_received k \<noteq> No_receiver then '' packet'' else ''''))]"

fun net_dump_packet_sinks :: "(nat \<Rightarrow> u32) \<Rightarrow> u32 \<Rightarrow> sink list \<Rightarrow> u8 list \<Rightarrow> u8 list option" where
  "net_dump_packet_sinks place t [] tx = Some tx"
| "net_dump_packet_sinks place t (k # ks) tx =
     Option.bind (put_printf sink_format (sink_args place t k) tx) (net_dump_packet_sinks place t ks)"

definition do_netinfo :: "(nat \<Rightarrow> u32) \<Rightarrow> net \<Rightarrow> u8 list option" where
  "do_netinfo place s = do {
     let c = conf s;
     tx \<leftarrow> put_printf (''IPv4 address: %d.%d.%d.%d/%d'' @ newline) (octets (if_ip c) @ [VInt (of_nat (prefix_length (if_mask c)))]) [];
     tx \<leftarrow> put_printf (''Gateway: %d.%d.%d.%d'' @ newline) (octets (if_gateway c)) tx;
     tx \<leftarrow> put_printf (''DNS server: %d.%d.%d.%d'' @ newline) (octets (if_dns c)) tx;
     tx \<leftarrow> put_printf (''packet_rx_count %ld'' @ newline) [VInt (rx_count s)] tx;
     tx \<leftarrow> put_printf (''packet_tx_count %ld'' @ newline) [VInt (tx_count s)] tx;
     tx \<leftarrow> put_printf (''packet_alive_count %ld'' @ newline) [VInt (alive s)] tx;
     tx \<leftarrow> put_printf (''packet_discard_count %ld'' @ newline) [VInt (discard_count s)] tx;
     tx \<leftarrow> put_printf (''packet_bad_cksum_count %ld'' @ newline) [VInt (bad_cksum_count s)] tx;
     net_dump_packet_sinks place (now s) (sinks s) tx }"

section \<open>Addresses in print\<close>

definition octet :: "u32 \<Rightarrow> nat \<Rightarrow> nat" where "octet a i = unat (drop_bit (24 - 8 * i) a AND 0xFF)"

definition dotted :: "u32 \<Rightarrow> u8 list" where
  "dotted a = digit_bytes 10 (octet a 0) @ dot # digit_bytes 10 (octet a 1) @ dot # digit_bytes 10 (octet a 2) @
     dot # digit_bytes 10 (octet a 3)"

lemma octet_less: "octet a i < 256"
proof -
  have "drop_bit (24 - 8 * i) a AND 0xFF = take_bit 8 (drop_bit (24 - 8 * i) a)" by (simp add: take_bit_eq_mask mask_eq_exp_minus_1)
  then have "octet a i = unat (drop_bit (24 - 8 * i) a) mod 256"
    by (simp add: octet_def take_bit_eq_mod unat_mod)
  then show ?thesis by simp
qed

lemma octets_rejoin:
  "push_bit 8 (push_bit 8 (push_bit 8 (push_bit 8 0 OR of_nat (octet a 0)) OR of_nat (octet a 1)) OR of_nat (octet a 2)) OR of_nat (octet a 3) = a"
proof -
  have o: "of_nat (octet a i) = take_bit 8 (drop_bit (24 - 8 * i) a)" for i
    by (simp add: octet_def take_bit_eq_mask mask_eq_exp_minus_1)
  show ?thesis unfolding o
  proof (rule bit_word_eqI)
    fix n :: nat
    assume "n < LENGTH(32)"
    then consider "n < 8" | "8 \<le> n" "n < 16" | "16 \<le> n" "n < 24" | "24 \<le> n" "n < 32" by fastforce
    then show "bit (push_bit 8 (push_bit 8 (push_bit 8 (push_bit 8 0 OR take_bit 8 (drop_bit (24 - 8 * 0) a)) OR take_bit 8 (drop_bit (24 - 8 * 1) a)) OR
        take_bit 8 (drop_bit (24 - 8 * 2) a)) OR take_bit 8 (drop_bit (24 - 8 * 3) a)) n = bit a n"
      by cases (auto simp: bit_simps)
  qed
qed

lemma print_octets: "put_printf ''%d.%d.%d.%d'' (octets a) tx = Some (tx @ dotted a)"
proof -
  have lt: "unat (drop_bit (24 - 8 * i) a AND 0xFF) < 2 ^ 31" for i using octet_less [of a i] by (simp add: octet_def)
  note f = decimal_field [OF lt]
  have n: "numout (drop_bit 24 a AND 0xFF) (- 10) (replicate 12 0) = Some (digit_bytes 10 (octet a 0) @ [0])"
    "numout (drop_bit 16 a AND 0xFF) (- 10) (replicate 12 0) = Some (digit_bytes 10 (octet a 1) @ [0])"
    "numout (drop_bit 8 a AND 0xFF) (- 10) (replicate 12 0) = Some (digit_bytes 10 (octet a 2) @ [0])"
    "numout (a AND 0xFF) (- 10) (replicate 12 0) = Some (digit_bytes 10 (octet a 3) @ [0])"
    using f(1) [of 0] f(1) [of 1] f(1) [of 2] f(1) [of 3] by (simp_all add: octet_def)
  have p: "\<exists>k. put_field (digit_bytes 10 (octet a i) @ [0]) 0 0 0x20 c t = Some (k, t @ digit_bytes 10 (octet a i))" for i c t
    using f(2) [of i c t] by (simp add: octet_def)
  obtain k0 where p0: "put_field (digit_bytes 10 (octet a 0) @ [0]) 0 0 0x20 0 [] = Some (k0, digit_bytes 10 (octet a 0))"
    using p [of 0 0 "[]"] by auto
  obtain k1 where p1: "put_field (digit_bytes 10 (octet a 1) @ [0]) 0 0 0x20 (1 + k0) (digit_bytes 10 (octet a 0) @ [dot]) =
      Some (k1, digit_bytes 10 (octet a 0) @ dot # digit_bytes 10 (octet a 1))"
    using p [of 1 "1 + k0" "digit_bytes 10 (octet a 0) @ [dot]"] by auto
  obtain k2 where p2: "put_field (digit_bytes 10 (octet a 2) @ [0]) 0 0 0x20 (1 + k1) (digit_bytes 10 (octet a 0) @ dot # digit_bytes 10 (octet a 1) @ [dot]) =
      Some (k2, digit_bytes 10 (octet a 0) @ dot # digit_bytes 10 (octet a 1) @ dot # digit_bytes 10 (octet a 2))"
    using p [of 2 "1 + k1" "digit_bytes 10 (octet a 0) @ dot # digit_bytes 10 (octet a 1) @ [dot]"] by auto
  obtain k3 where p3: "put_field (digit_bytes 10 (octet a 3) @ [0]) 0 0 0x20 (1 + k2)
        (digit_bytes 10 (octet a 0) @ dot # digit_bytes 10 (octet a 1) @ dot # digit_bytes 10 (octet a 2) @ [dot]) = Some (k3, dotted a)"
    using p [of 3 "1 + k2" "digit_bytes 10 (octet a 0) @ dot # digit_bytes 10 (octet a 1) @ dot # digit_bytes 10 (octet a 2) @ [dot]"]
    by (auto simp: dotted_def)
  show ?thesis
    using p0 p1 p2 p3
    by (simp add: put_printf_def printf_def ascii_def parse_directive_def length_modifier_def convert_arg_def number_base_def
        fetch_val_def NUMLTH_def n putch_def octets_def dot_def)
qed

lemma decimal_digits:
  assumes "n < 256"
  shows "\<exists>c cs. digit_bytes 10 n = c # cs" "\<forall>b \<in> set (digit_bytes 10 n). ndigit b \<noteq> RUB \<and> unat (ndigit b) < 10"
    "digits_value 10 (digit_bytes 10 n) 0 = n"
proof -
  have d: "\<forall>d \<in> set (digits 10 n). d < 10" by (rule digits_less) simp
  have r: "ndigit (nstring ! d) \<noteq> RUB" if "d < 10" for d
    using unat_ndigit_nstring [of d] that by (auto simp: RUB_def)
  show "\<exists>c cs. digit_bytes 10 n = c # cs" using digits_nonempty [of 10 n] by (cases "digits 10 n") (auto simp: digit_bytes_def)
  show "\<forall>b \<in> set (digit_bytes 10 n). ndigit b \<noteq> RUB \<and> unat (ndigit b) < 10"
    using d r unat_ndigit_nstring by (auto simp: digit_bytes_def)
  have "\<forall>d \<in> set (digits 10 n). d < 16" using d by auto
  then show "digits_value 10 (digit_bytes 10 n) 0 = n"
    using digits_value_bytes [of "digits 10 n" 10 0] digits_fold [of 10 n] by (simp add: digit_bytes_def)
qed

lemma octet_read:
  assumes "n < 256" "ndigit y = RUB"
  shows "strtoul (digit_bytes 10 n @ y # r) 10 = Some (of_nat n, length (digit_bytes 10 n), 0)"
proof -
  obtain c cs where c: "digit_bytes 10 n = c # cs" using decimal_digits(1) [OF assms(1)] by blast
  have "strtoul ([] @ [] @ (c # cs) @ y # r) (int 10) =
      Some ((if False then - 1 else 1) * of_nat (digits_value 10 (c # cs) 0), length ([] :: u8 list) + length ([] :: u8 list) + length (c # cs), 0)"
  proof (rule strtoul_parses)
    show "\<forall>b \<in> set (c # cs). ndigit b \<noteq> RUB \<and> unat (ndigit b) < 10" using decimal_digits(2) [OF assms(1)] unfolding c .
    show "digits_value 10 (c # cs) 0 < 4294967296" using decimal_digits(3) [OF assms(1)] assms(1) unfolding c by simp
  qed (simp_all add: sign_bytes_def assms(2))
  then show ?thesis using decimal_digits(3) [OF assms(1)] by (simp add: c)
qed

lemma octet_parsed:
  assumes "n < 256"
  shows "i < 3 \<Longrightarrow> parse_octets i (digit_bytes 10 n @ dot # r) v = parse_octets (i + 1) r (push_bit 8 v OR of_nat n)"
    "parse_octets 3 (digit_bytes 10 n @ 0 # r) v = Some (push_bit 8 v OR of_nat n)"
proof -
  have y: "ndigit dot = RUB" "ndigit 0 = RUB" by (simp_all add: ndigit_def RUB_def dot_def)
  have n: "\<not> (of_nat n :: u32) > 255" using assms by (simp add: word_less_nat_alt u32_unat_of_nat not_less)
  have d: "rd (digit_bytes 10 n @ x # r) (length (digit_bytes 10 n)) = Some x"
    "drop (Suc (length (digit_bytes 10 n))) (digit_bytes 10 n @ x # r) = r" for x
    by (simp_all add: rd_def)
  show "i < 3 \<Longrightarrow> parse_octets i (digit_bytes 10 n @ dot # r) v = parse_octets (i + 1) r (push_bit 8 v OR of_nat n)"
    using octet_read [OF assms y(1), of r] n d by (subst parse_octets.simps) simp
  show "parse_octets 3 (digit_bytes 10 n @ 0 # r) v = Some (push_bit 8 v OR of_nat n)"
    using octet_read [OF assms y(2), of r] n d by (subst parse_octets.simps) (simp add: parse_octets.simps [of 4])
qed

lemma dotted_parsed: "net_parse_ipv4 (dotted a @ 0 # r) = Some a"
proof -
  let ?d = "\<lambda>i. digit_bytes 10 (octet a i)" and ?n = "\<lambda>i. of_nat (octet a i) :: u32"
  have "net_parse_ipv4 (dotted a @ 0 # r) = parse_octets 0 (?d 0 @ dot # ?d 1 @ dot # ?d 2 @ dot # ?d 3 @ 0 # r) 0"
    by (simp add: net_parse_ipv4_def dotted_def)
  also have "\<dots> = parse_octets 1 (?d 1 @ dot # ?d 2 @ dot # ?d 3 @ 0 # r) (push_bit 8 0 OR ?n 0)"
    using octet_parsed(1) [OF octet_less [of a 0], of 0] by simp
  also have "\<dots> = parse_octets 2 (?d 2 @ dot # ?d 3 @ 0 # r) (push_bit 8 (push_bit 8 0 OR ?n 0) OR ?n 1)"
    using octet_parsed(1) [OF octet_less [of a 1], of 1] by (simp add: numeral_2_eq_2)
  also have "\<dots> = parse_octets 3 (?d 3 @ 0 # r) (push_bit 8 (push_bit 8 (push_bit 8 0 OR ?n 0) OR ?n 1) OR ?n 2)"
    using octet_parsed(1) [OF octet_less [of a 2], of 2] by (simp add: numeral_3_eq_3)
  also have "\<dots> = Some (push_bit 8 (push_bit 8 (push_bit 8 (push_bit 8 0 OR ?n 0) OR ?n 1) OR ?n 2) OR ?n 3)"
    by (rule octet_parsed(2) [OF octet_less])
  finally show ?thesis unfolding octets_rejoin .
qed

text \<open>A mask with \<open>n\<close> leading ones is shown as a prefix of \<open>n\<close>.\<close>

lemma prefix_length_mask: "n \<le> 32 \<Longrightarrow> prefix_length (push_bit (32 - n) (mask n)) = n"
proof (induction n)
  case 0
  show ?case by (subst prefix_length.simps) simp
next
  case (Suc n)
  have "push_bit 1 (push_bit (32 - Suc n) (mask (Suc n))) = (push_bit (32 - n) (mask n) :: u32)"
    using Suc.prems by (intro bit_word_eqI) (simp only: bit_push_bit_iff bit_mask_iff possible_bit_word, auto)
  moreover have "bit (push_bit (32 - Suc n) (mask (Suc n)) :: u32) 31" using Suc.prems by (simp add: bit_simps)
  then have "push_bit (32 - Suc n) (mask (Suc n)) \<noteq> (0 :: u32)" by auto
  ultimately show ?case using Suc.IH Suc.prems by (subst prefix_length.simps) simp
qed

text \<open>Addresses survive printing. Every IPv4 address, as \<^verbatim>\<open>printf\<close> writes its four octets, is parsed back to itself, whatever stands
  behind the end of the string.\<close>

theorem address_round_trip:
  "\<exists>t. put_printf ''%d.%d.%d.%d'' (octets a) [] = Some t \<and> net_parse_ipv4 (t @ 0 # r) = Some a"
  using print_octets [of a "[]"] dotted_parsed [of a r] by simp

lemma tftp_requests:
  assumes "env_ok es" "a \<noteq> 0"
  shows "tftp_request es [dotted a @ [0], f, g] True = Some (Inr (a, g, f, True))"
    "tftp_request es [dotted a @ [0], f, g] False = Some (Inr (a, f, g, False))"
    "env_map es (case_key server_name) = Some (dotted a) \<Longrightarrow>
       tftp_request es [f, g] True = Some (Inr (a, g, f, True)) \<and> tftp_request es [f, g] False = Some (Inr (a, f, g, False)) \<and>
       tftp_request es [f] putting = Some (Inr (a, f, f, putting))"
    "env_map es (case_key server_name) = None \<Longrightarrow>
       tftp_request es [f, g] putting = Some (Inl No_server) \<and> tftp_request es [f] putting = Some (Inl No_server)"
proof -
  show "tftp_request es [dotted a @ [0], f, g] True = Some (Inr (a, g, f, True))"
    "tftp_request es [dotted a @ [0], f, g] False = Some (Inr (a, f, g, False))"
    using assms(2) dotted_parsed [of a "[]"] by (simp_all add: tftp_request_def tftp_arguments_def)
  obtain v where v: "get_environment_variable server_name es = Some v" "map_option cstr v = env_map es (case_key server_name)"
    "\<forall>t. v = Some t \<longrightarrow> terminated t"
    using get_variable_map [OF assms(1), of server_name] by (auto simp: server_name_def ascii_def terminated_def)
  show "tftp_request es [f, g] putting = Some (Inl No_server) \<and> tftp_request es [f] putting = Some (Inl No_server)"
    if "env_map es (case_key server_name) = None"
    using that v by (simp add: tftp_request_def tftp_arguments_def)
  assume s: "env_map es (case_key server_name) = Some (dotted a)"
  then obtain t where t: "v = Some t" "terminated t" "cstr t = dotted a" using v(2,3) by auto
  have "net_parse_ipv4 t = Some a"
    using terminated_split [OF t(2)] dotted_parsed [of a] t(3) by metis
  then show "tftp_request es [f, g] True = Some (Inr (a, g, f, True)) \<and> tftp_request es [f, g] False = Some (Inr (a, f, g, False)) \<and>
      tftp_request es [f] putting = Some (Inr (a, f, f, putting))"
    using v(1) t(1) assms(2) by (simp add: tftp_request_def tftp_arguments_def)
qed

text \<open>\<^verbatim>\<open>tftp\<close> asks the right server. The server is the address in the first of three arguments, and with one or two
  arguments the one that was set as \<^verbatim>\<open>tftp_server\<close>, in either case; without any the command only says so. One name stands for both files, and
  of two the first is where the file comes from: the server for a get, the disk for a put.\<close>

theorem tftp_request_made:
  assumes "env_ok es" "a \<noteq> 0"
  shows "tftp_request es [dotted a @ [0], f, g] True = Some (Inr (a, g, f, True)) \<and>
    tftp_request es [dotted a @ [0], f, g] False = Some (Inr (a, f, g, False)) \<and>
    (env_map es (case_key server_name) = Some (dotted a) \<longrightarrow>
       tftp_request es [f, g] True = Some (Inr (a, g, f, True)) \<and> tftp_request es [f, g] False = Some (Inr (a, f, g, False)) \<and>
       tftp_request es [f] putting = Some (Inr (a, f, f, putting))) \<and>
    (env_map es (case_key server_name) = None \<longrightarrow>
       tftp_request es [f, g] putting = Some (Inl No_server) \<and> tftp_request es [f] putting = Some (Inl No_server))"
  using tftp_requests [OF assms] by simp

theorem tftp_request_made_witness:
  "tftp_request [\<lparr>ename = server_name, evalue = dotted 0xC0A80001 @ [0]\<rparr>] [[0x66, 0]] False =
     Some (Inr (0xC0A80001, [0x66, 0], [0x66, 0], False))"
proof -
  let ?es = "[\<lparr>ename = server_name, evalue = dotted 0xC0A80001 @ [0]\<rparr>]"
  have ok: "env_ok ?es" by (simp add: env_ok_def terminated_def server_name_def ascii_def)
  have "\<forall>c \<in> set (digit_bytes 10 n). c \<noteq> 0" for n
  proof -
    have "\<forall>d \<in> set [0 ..< 16]. nstring ! d \<noteq> 0" by (simp add: upt_rec nstring_def)
    then show ?thesis using digits_less [of 10 n] by (fastforce simp: digit_bytes_def)
  qed
  then have "\<forall>c \<in> set (dotted 0xC0A80001). c \<noteq> 0" by (auto simp: dotted_def dot_def)
  then have "cstr (dotted 0xC0A80001 @ [0]) = dotted 0xC0A80001" by (simp add: cstr_def takeWhile_append2)
  then have "env_map ?es (case_key server_name) = Some (dotted 0xC0A80001)" by simp
  with tftp_request_made [OF ok, of "0xC0A80001" "[0x66, 0]" "[0x66, 0]" False] show ?thesis by simp
qed

end
