(* ===== verification/Rom.thy ===== *)
theory Rom
  imports CliLoad Uart
begin

text \<open>
  The commands of the targets, \<^verbatim>\<open>q40/cli.c\<close> and \<^verbatim>\<open>kiss/cli.c\<close>: starting another ROM image from a file or the serial port, going back
  to the ROM, and loading a picture. On the Q40 the running image is in the low memory, at the address 0 of \<^verbatim>\<open>rom_pointer\<close>; on the KISS it
  starts at \<open>text_start\<close>. The jump into the image is an outcome. Heap and memory are those of the loader.
\<close>

section \<open>The Q40\<close>

datatype rom_outcome =
    Matches_running
  | Rebooted u32
  | Rom_too_big u32
  | Rom_unreadable cbytes fresult
  | Rom_entered outcome

definition Q40_ROMSIZE :: u32 where "Q40_ROMSIZE = 96 * 1024"
definition VIDEO_RAM_BASE :: u32 where "VIDEO_RAM_BASE = 0xFE800000"

text \<open>A count sent before the data, as a long word.\<close>

definition uart_read_count :: "'c uart_io \<Rightarrow> 'c \<Rightarrow> (u32 \<times> 'c) option" where
  "uart_read_count io c = do {
     (b, c) \<leftarrow> uart_read_string io 4 c;
     Some (be32 (b ! 0) (b ! 1) (b ! 2) (b ! 3), c) }"

definition q40_do_softrom ::
  "'f fatfs \<Rightarrow> 'c uart_io \<Rightarrow> cbytes list \<Rightarrow> loader \<Rightarrow> 'c \<Rightarrow> (rom_outcome \<times> loader \<times> 'c) option" where
  "q40_do_softrom fs io argv s c = do {
     (romimage, h) \<leftarrow> malloc Q40_ROMSIZE (lheap s);
     let s = s\<lparr>lheap := h\<rparr>;
     let quit = (\<lambda>e s c. Some (e, s\<lparr>lheap := free romimage (lheap s)\<rparr>, c));
     (count_in, s, c) \<leftarrow>
       (if argv = [] then do {
          (cnt, c) \<leftarrow> uart_read_count io c;
          if cnt > Q40_ROMSIZE then Some (Inl (Rom_too_big cnt), s, c)
          else do {
            (data, c) \<leftarrow> uart_read_string io (sint cnt) c;
            Some (Inr cnt, s\<lparr>lmem := store romimage data (lmem s)\<rparr>, c) } }
        else
          (case f_open fs (argv ! 0) of (fr, fd) \<Rightarrow>
             if fr \<noteq> FR_OK then Some (Inl (Rom_unreadable (argv ! 0) fr), s, c)
             else (case f_read fs fd Q40_ROMSIZE of (fr, data, fd) \<Rightarrow>
               Some (Inr (of_nat (length data)), s\<lparr>lmem := store romimage data (lmem s)\<rparr>, c))));
     (case count_in of
        Inl e \<Rightarrow> quit e s c
      | Inr count_in \<Rightarrow> do {
          let s = s\<lparr>lmem := memset (romimage + count_in) 0xFF (Q40_ROMSIZE - count_in) (lmem s)\<rparr>;
          r \<leftarrow> memcmp (memory_bytes (lmem s) romimage (unat Q40_ROMSIZE)) (memory_bytes (lmem s) 0 (unat Q40_ROMSIZE)) Q40_ROMSIZE;
          if r \<noteq> 0 then Some (Rebooted romimage, s, c) else quit Matches_running s c }) }"

definition q40_do_hardrom :: "loader \<Rightarrow> rom_outcome \<times> loader" where
  "q40_do_hardrom s = (Rebooted 0, s)"

text \<open>The count of the bytes read is stored through a null pointer.\<close>

definition do_loadimage :: "'f fatfs \<Rightarrow> cbytes list \<Rightarrow> memory \<Rightarrow> memory" where
  "do_loadimage fs argv m =
     (case f_open fs (argv ! 0) of (fr, fd) \<Rightarrow>
        if fr = FR_OK then
          (case f_read fs fd (1024 * 1024) of (fr, data, fd) \<Rightarrow>
             store 0 (bytes32 (of_nat (length data))) (store VIDEO_RAM_BASE data m))
        else m)"

section \<open>The KISS\<close>

definition ECB_ROM_SIZE :: u32 where "ECB_ROM_SIZE = 512 * 1024"
definition ECB_ROM_BASE :: u32 where "ECB_ROM_BASE = 0xFFF00000"

definition kiss_do_hardrom :: "loader \<Rightarrow> (outcome \<times> loader) option" where
  "kiss_do_hardrom s = execute ECB_ROM_BASE [] s"

definition kiss_do_softrom ::
  "u32 \<Rightarrow> 'f fatfs \<Rightarrow> 'c uart_io \<Rightarrow> cbytes list \<Rightarrow> loader \<Rightarrow> 'c \<Rightarrow> (rom_outcome \<times> loader \<times> 'c) option" where
  "kiss_do_softrom text_start fs io argv s c = do {
     (source, c) \<leftarrow>
       (if argv = [] then do { (cnt, c) \<leftarrow> uart_read_count io c; Some (Inr (cnt, None), c) }
        else (case f_open fs (argv ! 0) of (fr, fd) \<Rightarrow>
          if fr \<noteq> FR_OK then Some (Inl (Rom_unreadable (argv ! 0) fr), c) else Some (Inr (f_size fs fd, Some fd), c)));
     (case source of
        Inl e \<Rightarrow> Some (e, s, c)
      | Inr (cnt, file) \<Rightarrow>
          if cnt > ECB_ROM_SIZE then Some (Rom_too_big cnt, s, c)
          else do {
            (romimage, h) \<leftarrow> malloc cnt (lheap s);
            let s = s\<lparr>lheap := h\<rparr>;
            (data, c) \<leftarrow>
              (case file of
                 None \<Rightarrow> uart_read_string io (sint cnt) c
               | Some fd \<Rightarrow> (case f_read fs fd cnt of (fr, data, fd) \<Rightarrow> Some (data, c)));
            let s = s\<lparr>lmem := store romimage data (lmem s)\<rparr>;
            r \<leftarrow> memcmp (memory_bytes (lmem s) romimage (unat cnt)) (memory_bytes (lmem s) text_start (unat cnt)) cnt;
            if r \<noteq> 0 then do { (out, s) \<leftarrow> execute romimage [] s; Some (Rom_entered out, s, c) }
            else Some (Matches_running, s\<lparr>lheap := free romimage (lheap s)\<rparr>, c) }) }"

section \<open>The image is started\<close>

lemma memcmp_equal:
  "length a = length b \<Longrightarrow> a \<noteq> [] \<Longrightarrow> \<exists>r. memcmp_loop (length a) a b = Some r \<and> (r = 0 \<longleftrightarrow> a = b)"
proof (induction a b rule: list_induct2)
  case (Cons x xs y ys)
  then show ?case by (cases xs) (auto simp: sint_eq_iff)
qed simp

lemma length_memory_bytes [simp]: "length (memory_bytes m a n) = n"
  by (simp add: memory_bytes_def)

lemma memory_bytes_cong: "\<forall>i<n. m (a + of_nat i) = m' (a + of_nat i) \<Longrightarrow> memory_bytes m a n = memory_bytes m' a n"
  by (simp add: memory_bytes_def)

lemma memory_bytes_eq: "length bs = n \<Longrightarrow> (\<And>i. i < n \<Longrightarrow> m (a + of_nat i) = bs ! i) \<Longrightarrow> memory_bytes m a n = bs"
  by (simp add: memory_bytes_def list_eq_iff_nth_eq)

definition padded :: "u8 list \<Rightarrow> u8 list" where
  "padded bs = bs @ replicate (unat Q40_ROMSIZE - length bs) 0xFF"

text \<open>The image that lies in the block, and all that changes.\<close>

lemma image_in_place:
  assumes "length bs \<le> unat Q40_ROMSIZE" "unat p + unat Q40_ROMSIZE \<le> 2 ^ 32"
    and "m' = memset (p + of_nat (length bs)) 0xFF (Q40_ROMSIZE - of_nat (length bs)) (store p bs m)"
  shows "memory_bytes m' p (unat Q40_ROMSIZE) = padded bs"
    "\<And>x. \<not> (unat p \<le> unat x \<and> unat x < unat p + unat Q40_ROMSIZE) \<Longrightarrow> m' x = m x"
proof -
  define N where "N = unat Q40_ROMSIZE"
  have N: "N = 98304" by (simp add: N_def Q40_ROMSIZE_def)
  define l where "l = length bs"
  have l: "l \<le> N" using assms(1) by (simp add: l_def N_def)
  have ul: "unat (of_nat l :: u32) = l" using l N by (intro u32_unat_of_nat) simp
  have rest: "unat (Q40_ROMSIZE - of_nat l) = N - l" using l ul by (simp add: u32_unat_sub N_def)
  have p: "unat p + N \<le> 4294967296" using assms(2) by (simp add: N_def)
  have at: "unat (x - (p + of_nat l)) < N - l \<longleftrightarrow> unat p + l \<le> unat x \<and> unat x < unat p + N" for x
  proof (cases "l = N")
    case False
    then have "unat (p + of_nat l) = unat p + l" using p l ul by (subst u32_unat_add) simp_all
    then show ?thesis using unat_sub_wrap [of x "p + of_nat l"] p l False u32_less [of x] by auto
  qed simp
  have near: "unat (x - p) < l \<longleftrightarrow> unat p \<le> unat x \<and> unat x < unat p + l" for x
    using unat_sub_wrap [of x p] p l u32_less [of x] by auto
  have off: "unat (x - p) = unat x - unat p" if "unat p \<le> unat x" for x using that by (simp add: u32_unat_sub)
  have m': "m' x = (if unat p + l \<le> unat x \<and> unat x < unat p + N then 0xFF
      else if unat p \<le> unat x \<and> unat x < unat p + l then bs ! (unat x - unat p) else m x)" for x
    unfolding assms(3) memset_eq store_def l_def [symmetric] rest at near using off by simp
  show "memory_bytes m' p (unat Q40_ROMSIZE) = padded bs"
  proof (rule memory_bytes_eq)
    fix i assume "i < unat Q40_ROMSIZE"
    then have i: "i < N" by (simp add: N_def)
    then have "unat (p + of_nat i) = unat p + i" using p N by (subst u32_unat_add) (simp_all add: u32_unat_of_nat)
    then show "m' (p + of_nat i) = padded bs ! i"
      using i by (simp add: m' padded_def nth_append l_def N_def [symmetric])
  qed (use assms(1) in \<open>simp add: padded_def\<close>)
  show "m' x = m x" if "\<not> (unat p \<le> unat x \<and> unat x < unat p + unat Q40_ROMSIZE)" for x
    using that l by (auto simp: m' simp flip: N_def)
qed

definition rom_started :: "u8 list \<Rightarrow> u32 \<Rightarrow> heap \<Rightarrow> loader \<Rightarrow> rom_outcome \<Rightarrow> loader \<Rightarrow> bool" where
  "rom_started bs p h s r s' \<longleftrightarrow>
     memory_bytes (lmem s') p (unat Q40_ROMSIZE) = padded bs \<and>
     (\<forall>x. \<not> (unat p \<le> unat x \<and> unat x < unat p + unat Q40_ROMSIZE) \<longrightarrow> lmem s' x = lmem s x) \<and>
     (if memory_bytes (lmem s) 0 (unat Q40_ROMSIZE) = padded bs then r = Matches_running \<and> lheap s' = free p h
      else r = Rebooted p \<and> lheap s' = h)"

lemma image_compared:
  assumes "length bs \<le> unat Q40_ROMSIZE" "unat Q40_ROMSIZE \<le> unat p" "unat p + unat Q40_ROMSIZE \<le> 2 ^ 32"
    and "m' = memset (p + of_nat (length bs)) 0xFF (Q40_ROMSIZE - of_nat (length bs)) (store p bs m)"
  obtains r where "memcmp (memory_bytes m' p (unat Q40_ROMSIZE)) (memory_bytes m' 0 (unat Q40_ROMSIZE)) Q40_ROMSIZE = Some r"
    "r = 0 \<longleftrightarrow> memory_bytes m 0 (unat Q40_ROMSIZE) = padded bs"
proof -
  note i = image_in_place [OF assms(1,3,4)]
  have N: "unat Q40_ROMSIZE = 98304" by (simp add: Q40_ROMSIZE_def)
  have "memory_bytes m' 0 (unat Q40_ROMSIZE) = memory_bytes m 0 (unat Q40_ROMSIZE)"
  proof (rule memory_bytes_cong, intro allI impI)
    fix j assume "j < unat Q40_ROMSIZE"
    then show "m' (0 + of_nat j) = m (0 + of_nat j)" using assms(2) N by (intro i(2)) (simp add: u32_unat_of_nat)
  qed
  moreover obtain r where "memcmp_loop (unat Q40_ROMSIZE) (memory_bytes m' p (unat Q40_ROMSIZE))
      (memory_bytes m' 0 (unat Q40_ROMSIZE)) = Some r"
    "r = 0 \<longleftrightarrow> memory_bytes m' p (unat Q40_ROMSIZE) = memory_bytes m' 0 (unat Q40_ROMSIZE)"
  proof -
    have "length (memory_bytes m' p (unat Q40_ROMSIZE)) = length (memory_bytes m' 0 (unat Q40_ROMSIZE))" by simp
    moreover have "length (memory_bytes m' p (unat Q40_ROMSIZE)) \<noteq> 0" unfolding length_memory_bytes N by simp
    ultimately show ?thesis using memcmp_equal that by (metis length_0_conv length_memory_bytes)
  qed
  moreover have "Q40_ROMSIZE \<noteq> 0" by (simp add: Q40_ROMSIZE_def)
  ultimately show ?thesis using i(1) by (intro that [of r]) (auto simp: memcmp_def)
qed

lemma count_received:
  assumes "serial io sent coming delay" "coming c = bytes32 n @ rest"
  shows "\<exists>c'. uart_read_count io c = Some (n, c') \<and> coming c' = rest"
proof -
  have "length (bytes32 n) = 4" by simp
  with read_bytes_waits [OF assms] obtain c' where "read_bytes_wait io 4 c = Some (bytes32 n, c')" "coming c' = rest" by metis
  then show ?thesis using be32_bytes32 [of n] by (auto simp: uart_read_count_def uart_read_string_def)
qed

text \<open>C20. \<^verbatim>\<open>softrom\<close> starts the image it is given. On the Q40, for an image of up to 96 KB from a file or the serial port, the block from the
  heap holds the image, padded with ones, and nothing outside the block changes; it is started exactly when it differs from
  the image that is running, and otherwise its block is released.\<close>

theorem softrom_starts:
  assumes "malloc Q40_ROMSIZE (lheap s) = Some (p, h)" "unat Q40_ROMSIZE \<le> unat p" "unat p + unat Q40_ROMSIZE \<le> 2 ^ 32"
    and "length bs \<le> unat Q40_ROMSIZE" "serial io sent coming delay"
  shows "(f_open fs name = (FR_OK, fd) \<and> f_read fs fd Q40_ROMSIZE = (FR_OK, bs, fd') \<longrightarrow>
      (\<exists>r s'. q40_do_softrom fs io [name] s c = Some (r, s', c) \<and> rom_started bs p h s r s')) \<and>
    (coming c = bytes32 n @ bs @ rest \<and> unat n = length bs \<longrightarrow>
      (\<exists>r s' c'. q40_do_softrom fs io [] s c = Some (r, s', c') \<and> rom_started bs p h s r s' \<and> coming c' = rest))"
proof (intro conjI impI)
  let ?m = "memset (p + of_nat (length bs)) 0xFF (Q40_ROMSIZE - of_nat (length bs)) (store p bs (lmem s))"
  obtain r where r: "memcmp (memory_bytes ?m p (unat Q40_ROMSIZE)) (memory_bytes ?m 0 (unat Q40_ROMSIZE)) Q40_ROMSIZE = Some r"
    "r = 0 \<longleftrightarrow> memory_bytes (lmem s) 0 (unat Q40_ROMSIZE) = padded bs"
    using image_compared [OF assms(4,2,3) refl] by blast
  define out where "out = (if r \<noteq> 0 then (Rebooted p, s\<lparr>lheap := h, lmem := ?m\<rparr>) else (Matches_running, s\<lparr>lheap := free p h, lmem := ?m\<rparr>))"
  have started: "rom_started bs p h s (fst out) (snd out)"
    using image_in_place [OF assms(4,3) refl, where m = "lmem s"] r(2) by (auto simp: rom_started_def out_def)
  {
    assume "f_open fs name = (FR_OK, fd) \<and> f_read fs fd Q40_ROMSIZE = (FR_OK, bs, fd')"
    then have "q40_do_softrom fs io [name] s c = Some (fst out, snd out, c)"
      using assms(1) r(1) by (auto simp: q40_do_softrom_def out_def)
    then show "\<exists>r s'. q40_do_softrom fs io [name] s c = Some (r, s', c) \<and> rom_started bs p h s r s'" using started by blast
  next
    assume c: "coming c = bytes32 n @ bs @ rest \<and> unat n = length bs"
    obtain c1 where c1: "uart_read_count io c = Some (n, c1)" "coming c1 = bs @ rest"
      using count_received [OF assms(5), of c n "bs @ rest"] c by auto
    obtain c2 where c2: "read_bytes_wait io (length bs) c1 = Some (bs, c2)" "coming c2 = rest"
      using read_bytes_waits [OF assms(5) c1(2)] by auto
    define k where "k = length bs"
    have "of_nat (unat n) = n" by simp
    then have n: "n = of_nat k" "unat n = k" "k \<le> 98304" using c assms(4) by (simp_all add: k_def Q40_ROMSIZE_def)
    have "\<not> n > Q40_ROMSIZE" using c assms(4) by (simp add: word_less_nat_alt)
    moreover have "nat (sint n) = length bs"
    proof -
      have "uint n = int k" using n(2) by (metis uint_nat)
      then show ?thesis using n(3) by (simp add: sint_u32 k_def)
    qed
    ultimately have "q40_do_softrom fs io [] s c = Some (fst out, snd out, c2)"
      using assms(1) r(1) c1(1) c2(1) n(1) by (auto simp: q40_do_softrom_def out_def uart_read_string_def k_def)
    then show "\<exists>r s' c'. q40_do_softrom fs io [] s c = Some (r, s', c') \<and> rom_started bs p h s r s' \<and> coming c' = rest"
      using started c2(2) by blast
  }
qed

text \<open>A file of three bytes on a Q40 whose low memory is clear, so that the image differs.\<close>

definition rom_heap :: heap where
  "rom_heap = \<lparr>hfree = [], hused = [], hfresh = [Block 0 0 0], htop = 0x300000, heap_limit = 0x3FE000, heap_split_thresh = 16,
     heap_alignment = 4, heap_max_blocks = 1\<rparr>"

lemma rom_block: "malloc Q40_ROMSIZE rom_heap = Some (0x300000, snd (ta_alloc Q40_ROMSIZE rom_heap))"
  by (simp add: malloc_def rom_heap_def ta_alloc_def alloc_block_def round_num_def Q40_ROMSIZE_def Let_def)

theorem softrom_starts_witness:
  "\<exists>s'. q40_do_softrom (sample_fs [1, 2, 3]) slow_line [[0x61, 0]] (sample_loader\<lparr>lheap := rom_heap, lmem := \<lambda>_. 0\<rparr>) (False, [], [])
     = Some (Rebooted 0x300000, s', False, [], []) \<and> memory_bytes (lmem s') 0x300000 (unat Q40_ROMSIZE) = padded [1, 2, 3]"
proof -
  let ?s = "sample_loader\<lparr>lheap := rom_heap, lmem := \<lambda>_. 0\<rparr>"
  have fs: "f_open (sample_fs [1, 2, 3]) [0x61, 0] = (FR_OK, 0)"
    "f_read (sample_fs [1, 2, 3]) 0 Q40_ROMSIZE = (FR_OK, [1, 2, 3], Q40_ROMSIZE)"
    by (simp_all add: sample_fs_def Q40_ROMSIZE_def)
  have sizes: "unat Q40_ROMSIZE \<le> unat (0x300000 :: u32)" "unat (0x300000 :: u32) + unat Q40_ROMSIZE \<le> 2 ^ 32"
    "length [1, 2, 3 :: u8] \<le> unat Q40_ROMSIZE" by (simp_all add: Q40_ROMSIZE_def)
  have m: "malloc Q40_ROMSIZE (lheap ?s) = Some (0x300000, snd (ta_alloc Q40_ROMSIZE rom_heap))" using rom_block by simp
  obtain r s' where r: "q40_do_softrom (sample_fs [1, 2, 3]) slow_line [[0x61, 0]] ?s (False, [], []) = Some (r, s', False, [], [])"
    "rom_started [1, 2, 3] 0x300000 (snd (ta_alloc Q40_ROMSIZE rom_heap)) ?s r s'"
    using softrom_starts [OF m sizes slow_line_serial, where name = "[0x61, 0]" and fs = "sample_fs [1, 2, 3]" and c = "(False, [], [])"] fs
    by blast
  have "memory_bytes (lmem ?s) 0 (unat Q40_ROMSIZE) ! 0 = 0" by (simp add: memory_bytes_def Q40_ROMSIZE_def)
  moreover have "padded [1, 2, 3] ! 0 = 1" by (simp add: padded_def)
  ultimately have "memory_bytes (lmem ?s) 0 (unat Q40_ROMSIZE) \<noteq> padded [1, 2, 3]" by auto
  then show ?thesis using r by (auto simp: rom_started_def)
qed

end
