(* ===== verification/Format.thy ===== *)
theory Format
  imports Console Uart
begin

text \<open>
  What \<open>printf\<close> of theory \<open>Printf\<close> prints, for formats given as the pieces they are made of: the text of each piece in turn,
  with the line breaks as the console wants them.
\<close>

section \<open>Formats and their text\<close>

text \<open>Padding stands on the left, on the right, or consists of zeros. A directive has a width and a precision, 0 for none, and a
  length modifier: 0 for \<^verbatim>\<open>h\<close>, 1 for none and 2 for \<^verbatim>\<open>l\<close>.\<close>

datatype padding = Pad_left | Pad_right | Pad_zeros

datatype piece =
    Literal u8
  | Percent
  | Number padding nat nat nat u8 u32
  | Chars padding nat nat cbytes
  | Single u32

definition padding_digits :: "padding \<Rightarrow> nat \<Rightarrow> nat list" where
  "padding_digits al w = (if al = Pad_zeros then [0] else []) @ (if w = 0 then [] else digits 10 w)"

definition directive :: "padding \<Rightarrow> nat \<Rightarrow> nat \<Rightarrow> nat \<Rightarrow> u8 \<Rightarrow> u8 list" where
  "directive al w p ty conv =
     (if al = Pad_right then [0x2D] else []) @ map ((!) nstring) (padding_digits al w) @
     (if p = 0 then [] else 0x2E # digit_bytes 10 p) @ (if ty = 0 then [0x68] else if ty = 2 then [0x6C] else []) @ [conv]"

fun piece_format :: "piece \<Rightarrow> u8 list" where
  "piece_format (Literal c) = [c]"
| "piece_format Percent = [0x25, 0x25]"
| "piece_format (Number al w p ty conv v) = 0x25 # directive al w p ty conv"
| "piece_format (Chars al w p s) = 0x25 # directive al w p 1 0x73"
| "piece_format (Single v) = 0x25 # directive Pad_left 0 0 1 0x63"

fun piece_args :: "piece \<Rightarrow> va list" where
  "piece_args (Number al w p ty conv v) = [VInt v]"
| "piece_args (Chars al w p s) = [VStr s]"
| "piece_args (Single v) = [VInt v]"
| "piece_args _ = []"

fun piece_ok :: "piece \<Rightarrow> bool" where
  "piece_ok (Literal c) \<longleftrightarrow> c \<noteq> 0 \<and> c \<noteq> 0x25"
| "piece_ok (Number al w p ty conv v) \<longleftrightarrow> ty \<le> 2 \<and> conv \<in> {0x64, 0x6F, 0x75, 0x58, 0x78}"
| "piece_ok (Chars al w p s) \<longleftrightarrow> terminated s \<and> length (cstr s) < 2147483648"
| "piece_ok _ \<longleftrightarrow> True"

text \<open>The digits of a number; a short one is extended, with its sign when it is signed.\<close>

definition signed_digits :: "int \<Rightarrow> u8 list" where
  "signed_digits i = (if i < 0 then 0x2D # digit_bytes 10 (nat (- i)) else digit_bytes 10 (nat i))"

definition number_text :: "nat \<Rightarrow> u8 \<Rightarrow> u32 \<Rightarrow> u8 list" where
  "number_text ty conv v =
     (if conv = 0x64 then signed_digits (if ty = 0 then sint (ucast v :: u16) else sint v)
      else digit_bytes (if conv = 0x6F then 8 else if conv = 0x75 then 10 else 16) (if ty = 0 then unat (ucast v :: u16) else unat v))"

definition field_text :: "padding \<Rightarrow> nat \<Rightarrow> nat \<Rightarrow> u8 list \<Rightarrow> u8 list" where
  "field_text al w p s =
     (let t = (if p = 0 then s else take p s); n = w - length s in
      case al of Pad_left \<Rightarrow> replicate n 0x20 @ t | Pad_right \<Rightarrow> t @ replicate n 0x20 | Pad_zeros \<Rightarrow> replicate n 0x30 @ t)"

fun piece_text :: "piece \<Rightarrow> u8 list" where
  "piece_text (Literal c) = [c]"
| "piece_text Percent = [0x25]"
| "piece_text (Number al w p ty conv v) = field_text al w p (number_text ty conv v)"
| "piece_text (Chars al w p s) = field_text al w p (cstr s)"
| "piece_text (Single v) = [ucast v]"

text \<open>Line breaks are sent as two bytes, which \<open>crlf\<close> of theory \<open>Uart\<close> says.\<close>

lemma crlf_simps [simp]:
  "crlf [] = []"
  "crlf (c # s) = (if c = 0x0A then [0x0D, 0x0A] else [c]) @ crlf s"
  "crlf (s @ t) = crlf s @ crlf t"
  by (simp_all add: crlf_def)

lemma crlf_plain: "0x0A \<notin> set s \<Longrightarrow> crlf s = s"
  by (induction s) auto

lemma putch_crlf: "putch c tx = tx @ crlf [c]"
  by (simp add: putch_def)

section \<open>Fields\<close>

lemma put_string_text:
  "0 \<notin> set s \<Longrightarrow> put_string (s @ 0 # r) (int n) cnt tx = Some (cnt + int (length (take n s)), tx @ crlf (take n s))"
proof (induction s arbitrary: n cnt tx)
  case (Cons c s)
  then show ?case
  proof (cases n)
    case (Suc k)
    have k: "int (Suc k) - 1 = int k" by simp
    show ?thesis unfolding Suc append_Cons put_string.simps k
      using Cons.prems Cons.IH [of k "cnt + 1" "putch c tx"] by (simp add: putch_crlf)
  qed simp
qed simp

definition least_width :: "padding \<Rightarrow> nat \<Rightarrow> int" where "least_width al w = (if al = Pad_right then - int w else int w)"
definition pad_char :: "padding \<Rightarrow> u8" where
  "pad_char al = (case al of Pad_left \<Rightarrow> 0x20 | Pad_right \<Rightarrow> 0x2D | Pad_zeros \<Rightarrow> 0x30)"

lemma put_field_text:
  assumes "0 \<notin> set s" "length s < 2147483648"
  shows "put_field (s @ 0 # r) (least_width al w) (int p) (pad_char al) cnt tx =
    Some (cnt + int (length (field_text al w p s)), tx @ crlf (field_text al w p s))"
proof -
  define n where "n = length s"
  have c: "cstr (s @ 0 # r) = s" using assms(1) by (induction s) (auto simp: cstr_def)
  have len: "strlen (s @ 0 # r) = Some (of_nat n)"
    using strlen_eq [of "s @ 0 # r"] c by (simp add: terminated_def n_def)
  have u: "uint (of_nat n :: u32) = int n" using assms(2) by (simp add: n_def uint_nat u32_unat_of_nat)
  then have z: "sint (of_nat n :: u32) = int n" using sint_u32 [of "of_nat n"] assms(2) by (simp add: n_def)
  have w: "nat (int w - int n) = w - n" by simp
  have all: "put_string (s @ 0 # r) (int n) cnt' tx' = Some (cnt' + int n, tx' @ crlf s)" for cnt' tx'
    using put_string_text [OF assms(1), of r n] by (simp add: n_def)
  have some: "put_string (s @ 0 # r) (int p) cnt' tx' = Some (cnt' + int (length (take p s)), tx' @ crlf (take p s))" for cnt' tx'
    by (rule put_string_text [OF assms(1)])
  have max: "(if int p = 0 then int n else int p) = int (if p = 0 then n else p)" by simp
  have body: "put_string (s @ 0 # r) (int (if p = 0 then n else p)) cnt' tx' =
      Some (cnt' + int (length (if p = 0 then s else take p s)), tx' @ crlf (if p = 0 then s else take p s))" for cnt' tx'
    using all some by (simp add: n_def)
  have blanks: "crlf (replicate k 0x20) = replicate k 0x20" "crlf (replicate k 0x30) = replicate k 0x30" for k
    by (simp_all add: crlf_plain)
  show ?thesis
    unfolding put_field_def len bind.bind_lunit z Let_def max body
    by (cases al) (simp_all add: least_width_def pad_char_def field_text_def Let_def putchs_plain blanks w flip: n_def)
qed

section \<open>Directives\<close>

lemma scan_digits:
  "\<forall>d \<in> set ds. d < 10 \<Longrightarrow> c < 0x30 \<or> c > 0x39 \<Longrightarrow>
    scan_field (map ((!) nstring) ds @ c # rest) n = Some (c, rest, foldl (\<lambda>v d. v * 10 + int d) n ds)"
proof (induction ds arbitrary: n)
  case (Cons d ds)
  have all: "\<forall>d \<in> set [0 ..< 10]. \<not> (nstring ! d < 0x30 \<or> nstring ! d > 0x39) \<and> uint (nstring ! d) - 0x30 = int d"
    by (simp add: upt_rec nstring_def)
  have "d \<in> set [0 ..< 10]" using Cons.prems(1) by simp
  then have "\<not> (nstring ! d < 0x30 \<or> nstring ! d > 0x39)" "uint (nstring ! d) - 0x30 = int d" using all by blast+
  moreover have "\<forall>d \<in> set ds. d < 10" using Cons.prems(1) by simp
  ultimately show ?case using Cons.IH [of "n * 10 + int d"] Cons.prems(2) by simp
qed simp

lemma digits_int: "foldl (\<lambda>v d. v * 10 + int d) 0 (digits 10 w) = int w"
proof -
  have "foldl (\<lambda>v d. v * 10 + int d) (int n) ds = int (foldl (\<lambda>v d. v * 10 + d) n ds)" for n ds
    by (induction ds arbitrary: n) (simp_all, metis of_nat_add of_nat_mult of_nat_numeral)
  from this [of 0 "digits 10 w"] show ?thesis using digits_fold [of 10 w] by simp
qed

lemma hd_digits: "0 < w \<Longrightarrow> \<exists>d ds. digits 10 w = d # ds \<and> 0 < d \<and> d < 10"
proof (induction w rule: less_induct)
  case (less w)
  show ?case
  proof (cases "w < 10")
    case True
    then show ?thesis using less.prems by (subst digits.simps) simp
  next
    case False
    then have "0 < w div 10" "w div 10 < w" by auto
    with less.IH obtain d ds where "digits 10 (w div 10) = d # ds \<and> 0 < d \<and> d < 10" by blast
    then show ?thesis using False by (subst digits.simps) simp
  qed
qed

text \<open>The bytes behind the width start with none of the bytes that steer the scan.\<close>

definition ends_field :: "u8 \<Rightarrow> bool" where "ends_field c \<longleftrightarrow> c \<noteq> 0x2D \<and> (c < 0x30 \<or> c > 0x39)"

lemma padding_first:
  assumes "ends_field c"
  obtains b bs where "map ((!) nstring) (padding_digits al w) @ c # rest = b # bs" "b \<noteq> 0x2D" "b = 0x30 \<longleftrightarrow> al = Pad_zeros"
proof -
  have all: "\<forall>d \<in> set [1 ..< 10]. nstring ! d \<noteq> 0x2D \<and> nstring ! d \<noteq> 0x30" by (simp add: upt_rec nstring_def)
  show thesis
  proof (cases "al = Pad_zeros")
    case True
    then show ?thesis using that by (simp add: padding_digits_def nstring_def)
  next
    case False
    show ?thesis
    proof (cases "w = 0")
      case True
      moreover have "c \<noteq> 0x30" "c \<noteq> 0x2D" using assms by (auto simp: ends_field_def)
      ultimately show ?thesis using that [of c rest] False by (simp add: padding_digits_def)
    next
      case nz: False
      then obtain d ds where d: "digits 10 w = d # ds" "0 < d" "d < 10" using hd_digits [of w] by auto
      then have "d \<in> set [1 ..< 10]" by simp
      then have "nstring ! d \<noteq> 0x2D" "nstring ! d \<noteq> 0x30" using all by blast+
      then show ?thesis using that [of "nstring ! d" "map ((!) nstring) ds @ c # rest"] False nz d(1) by (simp add: padding_digits_def)
    qed
  qed
qed

lemma padding_scanned:
  assumes "ends_field c"
  shows "scan_field (map ((!) nstring) (padding_digits al w) @ c # rest) 0 = Some (c, rest, int w)"
proof -
  have "\<forall>d \<in> set (padding_digits al w). d < 10" using digits_less [of 10 w] by (auto simp: padding_digits_def split: if_splits)
  moreover have "foldl (\<lambda>v d. v * 10 + int d) 0 (padding_digits al w) = int w"
    using digits_int [of w] by (simp add: padding_digits_def)
  ultimately show ?thesis using scan_digits [of "padding_digits al w" c rest 0] assms by (simp add: ends_field_def)
qed

lemma directive_parsed:
  assumes "conv \<in> {0x64, 0x6F, 0x75, 0x58, 0x78, 0x73, 0x63}" "ty \<le> 2"
  shows "parse_directive (directive al w p ty conv @ rest) = Some (conv, rest, ty, least_width al w, int p,
    if al = Pad_left then 0x20 else pad_char al)"
proof -
  define tail where "tail = (if ty = 0 then [0x68] else if ty = 2 then [0x6C] else []) @ conv # rest"
  obtain c cs where c: "tail = c # cs" "ends_field c" "c \<noteq> 0x2E" "length_modifier c cs = Some (conv, rest, ty)"
  proof -
    from assms(2) consider "ty = 0" | "ty = 1" | "ty = 2" by linarith
    then show thesis
    proof cases
      case 1 then show thesis using that [of "0x68" "conv # rest"] by (simp add: tail_def ends_field_def length_modifier_def)
    next
      case 2 then show thesis using that [of conv rest] assms(1) by (auto simp: tail_def ends_field_def length_modifier_def)
    next
      case 3 then show thesis using that [of "0x6C" "conv # rest"] by (simp add: tail_def ends_field_def length_modifier_def)
    qed
  qed
  define more where "more = (if p = 0 then [] else 0x2E # digit_bytes 10 p) @ tail"
  obtain e es where e: "more = e # es" "ends_field e"
    "(if e = 0x2E then scan_field es 0 else Some (e, es, 0)) = Some (c, cs, int p)"
  proof (cases "p = 0")
    case True
    then show thesis using that [of c cs] c by (simp add: more_def)
  next
    case False
    have "\<forall>d \<in> set (digits 10 p). d < 10" by (rule digits_less) simp
    then have "scan_field (digit_bytes 10 p @ tail) 0 = Some (c, cs, int p)"
      using scan_digits [of "digits 10 p" c cs 0] digits_int [of p] c(1,2) by (simp add: digit_bytes_def ends_field_def)
    then show thesis using that [of "0x2E" "digit_bytes 10 p @ tail"] False by (simp add: more_def ends_field_def)
  qed
  let ?wide = "map ((!) nstring) (padding_digits al w) @ more"
  obtain b bs where b: "?wide = b # bs" "b \<noteq> 0x2D" "b = 0x30 \<longleftrightarrow> al = Pad_zeros"
    using padding_first [OF e(2), where rest = es] unfolding e(1) by blast
  have s: "scan_field (b # bs) 0 = Some (e, es, int w)"
    using padding_scanned [OF e(2), where rest = es and al = al and w = w] unfolding e(1) [symmetric] b(1) .
  have d: "directive al w p ty conv @ rest = (if al = Pad_right then 0x2D # b # bs else b # bs)"
    using b(1) by (simp add: directive_def more_def tail_def)
  show ?thesis
    unfolding d parse_directive_def
    using s b(2,3) e(3) c(4) by (cases al) (simp_all add: least_width_def pad_char_def del: scan_field.simps)
qed

section \<open>The text of a format\<close>

lemma digit_bytes_plain: "2 \<le> b \<Longrightarrow> b \<le> 16 \<Longrightarrow> 0 \<notin> set (digit_bytes b n)"
proof -
  assume that: "2 \<le> b" "b \<le> 16"
  have "\<forall>d \<in> set [0 ..< 16]. nstring ! d \<noteq> 0" by (simp add: upt_rec nstring_def)
  then show "0 \<notin> set (digit_bytes b n)" using digits_less [OF that(1), of n] that(2) by (fastforce simp: digit_bytes_def)
qed

lemma number_written:
  assumes "conv \<in> {0x64, 0x6F, 0x75, 0x58, 0x78}" "ty \<le> 2"
  shows "\<exists>b. number_base conv = Some b \<and>
      numout (fetch_val (if b = -10 then ty else ty + 4) v) b (replicate (nat NUMLTH + 1) 0) = Some (number_text ty conv v @ [0])"
    "0 \<notin> set (number_text ty conv v)" "length (number_text ty conv v) < 2147483648"
proof -
  have n: "nat NUMLTH + 1 = 12" by (simp add: NUMLTH_def)
  define x where "x = fetch_val (if conv = 0x64 then ty else ty + 4) v"
  have ty: "ty = 0 \<or> ty = 1 \<or> ty = 2" using assms(2) by linarith
  have x: "sint x = (if ty = 0 then sint (ucast v :: u16) else sint v)" if "conv = 0x64"
    using ty that by (auto simp: x_def fetch_val_def sint_up_scast is_up)
  have y: "unat x = (if ty = 0 then unat (ucast v :: u16) else unat v)" if "conv \<noteq> 0x64"
    using ty that by (auto simp: x_def fetch_val_def)
  have out: "numout x (- 10) (replicate 12 0) = Some (signed_digits (sint x) @ [0])"
    using numout_digits [of "replicate 12 0" x] by (simp add: signed_digits_def split: if_splits)
  have out': "numout x (int b) (replicate 12 0) = Some (digit_bytes b (unat x) @ [0])" if "b \<in> {8, 10, 16}" for b
    by (rule numout_positive) (use that in simp_all)
  show "\<exists>b. number_base conv = Some b \<and>
      numout (fetch_val (if b = -10 then ty else ty + 4) v) b (replicate (nat NUMLTH + 1) 0) = Some (number_text ty conv v @ [0])"
    using assms(1) out out' [of 8] out' [of 10] out' [of 16] x y
    unfolding n by (auto simp: number_base_def number_text_def x_def)
  show "0 \<notin> set (number_text ty conv v)"
    by (simp add: digit_bytes_plain number_text_def signed_digits_def)
  have "length (digit_bytes b (unat z)) \<le> 11" if "b \<in> {8, 10, 16}" for b and z :: u32
    using digits_fit [OF that, of z] by (simp add: digit_bytes_def)
  note fits = this [of 8 x] this [of 10 x] this [of 10 "- x"] this [of 16 x]
  have "nat (sint x) = unat x" if "0 \<le> sint x" using sint_nonneg [of x] that by simp
  moreover have "nat (- sint x) = unat (- x)" if "sint x < 0" using sint_neg [OF that] by simp
  ultimately have "length (number_text ty conv v) \<le> 12"
    using fits x y assms(1) by (auto simp: number_text_def signed_digits_def split: if_splits)
  then show "length (number_text ty conv v) < 2147483648" by simp
qed

lemma piece_printed:
  assumes "piece_ok q"
  shows "printf_loop (piece_format q @ fmt) (piece_args q @ ap) cnt tx =
    printf_loop fmt ap (cnt + int (length (piece_text q))) (tx @ crlf (piece_text q))"
proof (cases q)
  case (Number al w p ty conv v)
  then have ok: "conv \<in> {0x64, 0x6F, 0x75, 0x58, 0x78}" "ty \<le> 2" using assms by auto
  note d = directive_parsed [of conv ty al w p fmt]
  note num = number_written [OF ok, of v]
  have f: "put_field (number_text ty conv v @ [0]) (least_width al w) (int p) (if al = Pad_left then 0x20 else pad_char al) cnt tx =
      Some (cnt + int (length (field_text al w p (number_text ty conv v))), tx @ crlf (field_text al w p (number_text ty conv v)))"
    using put_field_text [OF num(2,3), of "[]" al w p cnt tx] by (cases al) (simp_all add: pad_char_def)
  obtain b where b: "number_base conv = Some b"
    "numout (fetch_val (if b = -10 then ty else ty + 4) v) b (replicate (nat NUMLTH + 1) 0) = Some (number_text ty conv v @ [0])"
    using num(1) by blast
  then have "convert_arg conv ty (least_width al w) (int p) (if al = Pad_left then 0x20 else pad_char al) (VInt v # ap) (cnt + 1) tx =
      Some (ap, cnt + int (length (field_text al w p (number_text ty conv v))), tx @ crlf (field_text al w p (number_text ty conv v)))"
    using f by (simp add: convert_arg_def Let_def)
  moreover have "conv \<noteq> 0" using ok(1) by auto
  ultimately show ?thesis using d ok by (auto simp: Number)
next
  case (Chars al w p s)
  then have t: "terminated s" "length (cstr s) < 2147483648" using assms by auto
  have z: "0 \<notin> set (cstr s)" by (auto simp: cstr_def dest: set_takeWhileD)
  obtain r where r: "s = cstr s @ 0 # r" "0 \<notin> set (cstr s)" using that [OF terminated_split [OF t(1)] z] .
  have f: "put_field s (least_width al w) (int p) (if al = Pad_left then 0x20 else pad_char al) cnt tx =
      Some (cnt + int (length (field_text al w p (cstr s))), tx @ crlf (field_text al w p (cstr s)))"
    using put_field_text [OF r(2) t(2), of r al w p cnt tx] r(1) by (cases al) (simp_all add: pad_char_def)
  have "number_base 0x73 = None" by (simp add: number_base_def)
  then show ?thesis using f directive_parsed [of "0x73" 1 al w p fmt] by (simp add: Chars convert_arg_def)
next
  case (Single v)
  then show ?thesis using directive_parsed [of "0x63" 1 Pad_left 0 0 fmt]
    by (simp add: convert_arg_def number_base_def putch_def least_width_def)
qed (use assms in \<open>simp_all add: putch_crlf parse_directive_def length_modifier_def convert_arg_def number_base_def\<close>)

lemma pieces_printed:
  "\<forall>q \<in> set qs. piece_ok q \<Longrightarrow>
    printf_loop (concat (map piece_format qs) @ 0 # rest) (concat (map piece_args qs) @ others) cnt tx =
      Some (cnt + int (length (concat (map piece_text qs))), tx @ crlf (concat (map piece_text qs)))"
  by (induction qs arbitrary: cnt tx) (simp_all add: piece_printed)

lemma print_pieces:
  assumes "ascii fmt = concat (map piece_format qs) @ [0]" "args = concat (map piece_args qs)" "\<forall>q \<in> set qs. piece_ok q"
  shows "put_printf fmt args tx = Some (tx @ crlf (concat (map piece_text qs)))"
  using pieces_printed [OF assms(3), of "[]" "[]" 0 "[]"] by (simp add: put_printf_def printf_def assms(1,2))

definition literals :: "string \<Rightarrow> piece list" where "literals s = map (\<lambda>c. Literal (of_char c)) s"

lemma literals_pieces [simp]:
  "concat (map piece_format (literals s)) = map of_char s"
  "concat (map piece_text (literals s)) = map of_char s"
  "concat (map piece_args (literals s)) = []"
  "(\<forall>q \<in> set (literals s). piece_ok q) \<longleftrightarrow> (\<forall>c \<in> set s. of_char c \<noteq> (0 :: u8) \<and> of_char c \<noteq> (0x25 :: u8))"
  by (induction s) (auto simp: literals_def)

lemma cstr_ascii: "\<forall>c \<in> set s. of_char c \<noteq> (0 :: u8) \<Longrightarrow> cstr (ascii s) = map of_char s"
  by (induction s) (simp_all add: ascii_def cstr_def)

lemmas piece_formats = directive_def padding_digits_def digits.simps nstring_def ascii_def digit_bytes_def



end
