(* ===== verification/CliMem.thy ===== *)
theory CliMem
  imports Memtest Console Env
begin

text \<open>
  The memory commands \<^verbatim>\<open>dump\<close>, \<^verbatim>\<open>memtest\<close> and \<^verbatim>\<open>wm\<close> of \<^verbatim>\<open>cli/cli_mem.c\<close>. The dump is the list of the bytes sent to
  the console, made by \<open>printf\<close> of theory \<open>Printf\<close>; a store outside the line buffer, or a format whose arguments are
  missing, would be \<open>None\<close>. The count of bytes is kept as its 32 bits.
\<close>

section \<open>The dump\<close>

definition printable :: "u8 \<Rightarrow> u8" where
  "printable v = (if v \<ge> 32 \<and> v < 127 then v else 0x2E)"

definition dump_rest :: "u32 \<Rightarrow> cbytes \<Rightarrow> nat \<Rightarrow> u8 list \<Rightarrow> u8 list option" where
  "dump_rest ptr line pos tx =
     (let rem = 2 + 3 * (16 - unat (ptr AND 15));
          rem = (if rem \<ge> 26 then rem + 1 else rem);
          tx = putchs rem 0x20 tx
      in if pos < length line then Some (puts (line[pos := 0]) tx) else None)"

lemma one_less: "len \<noteq> 0 \<Longrightarrow> unat (len - 1 :: u32) < unat len" "len \<noteq> 0 \<Longrightarrow> unat (len - 1 :: u32) = unat len - 1"
proof -
  assume "len \<noteq> 0"
  then have "0 < unat len" by (simp add: unat_gt_0)
  then show "unat (len - 1) < unat len" "unat (len - 1) = unat len - 1" by (simp_all add: u32_unat_sub)
qed

function dump_loop :: "memory \<Rightarrow> u32 \<Rightarrow> u32 \<Rightarrow> cbytes \<Rightarrow> nat \<Rightarrow> u8 list \<Rightarrow> u8 list option" where
  "dump_loop m ptr len line pos tx =
     (if len = 0 then dump_rest ptr line pos tx
      else if pos \<ge> length line then None
      else
        (let tx = (if ptr AND 0x0F = 0x08 then putch 0x20 tx else tx);
             voi = m ptr; ptr = ptr + 1; line = line[pos := printable voi] in
         case put_printf '' %02x'' [VInt (ucast voi)] tx of None \<Rightarrow> None
         | Some tx \<Rightarrow>
             (let len = len - 1; pos = pos + 1 in
              if ptr mod 16 = 0 then
                (case put_printf ''  %s'' [VStr line] tx of None \<Rightarrow> None
                 | Some tx \<Rightarrow>
                     if len \<noteq> 0 then
                       (case put_printf (CHR 0x0A # ''0x%08x '') [VInt ptr] tx of None \<Rightarrow> None
                        | Some tx \<Rightarrow> dump_loop m ptr len line 0 tx)
                     else put_printf [CHR 0x0A] [] tx)
              else dump_loop m ptr len line pos tx)))"
  by pat_completeness auto
termination by (relation "measure (\<lambda>(m, ptr, len, line, pos, tx). unat len)") (auto simp: one_less unat_gt_0 intro!: diff_less)

declare dump_loop.simps [simp del]

fun skip_columns :: "nat \<Rightarrow> u8 list \<Rightarrow> u8 list option" where
  "skip_columns 0 tx = Some tx"
| "skip_columns (Suc n) tx = Option.bind (put_printf ''   '' [] tx) (skip_columns n)"

definition pretty_dump_memory :: "memory \<Rightarrow> u32 \<Rightarrow> u32 \<Rightarrow> u8 list option" where
  "pretty_dump_memory m start len = do {
     let line = replicate 16 0x20 @ [0];
     tx \<leftarrow> put_printf ''0x%08x '' [VInt (start AND NOT 15)] [];
     let i = unat (start AND 15);
     tx \<leftarrow> skip_columns i tx;
     let tx = (if i > 8 then putch 0x20 tx else tx);
     dump_loop m start len line i tx }"

definition do_dump :: "env \<Rightarrow> memory \<Rightarrow> cbytes list \<Rightarrow> u8 list option" where
  "do_dump es m argv = do {
     (start, _) \<leftarrow> parse_uint32 es (argv ! 0);
     (cnt, _) \<leftarrow> parse_uint32 es (argv ! 1);
     pretty_dump_memory m start cnt }"

section \<open>The test of the memory\<close>

text \<open>Without arguments all free memory is tested; with one the usage is printed, which is \<open>Inl\<close>.\<close>

definition free_memory :: "layout \<Rightarrow> u32 \<times> u32" where
  "free_memory l =
     (let start = bounce_below_addr l in
      (start, if heap_base l > ram_size l then ram_size l - start else heap_base l - start))"

definition do_memtest ::
  "(u32 \<Rightarrow> memory \<Rightarrow> u32) \<Rightarrow> bool \<Rightarrow> layout \<Rightarrow> env \<Rightarrow> cbytes list \<Rightarrow> int list \<Rightarrow> memory \<Rightarrow>
   (string + range_error option \<times> report list \<times> memory) option" where
  "do_memtest peek cpu_68020 l es argv keys m = do {
     r \<leftarrow> (case argv of
           [] \<Rightarrow> Some (Some (free_memory l))
         | [a, b] \<Rightarrow> do {
             (start, _) \<leftarrow> parse_uint32 es a;
             (cnt, _) \<leftarrow> parse_uint32 es b;
             Some (Some (start, cnt)) }
         | _ \<Rightarrow> Some None);
     case r of
       None \<Rightarrow> Some (Inl ''memtest: wrong number of arguments'')
     | Some (start, cnt) \<Rightarrow> map_option Inr (memory_test peek cpu_68020 l start cnt keys m) }"

section \<open>Writing bytes\<close>

definition fromhex :: "u8 \<Rightarrow> int" where
  "fromhex c =
     (if c \<ge> 0x30 \<and> c \<le> 0x39 then uint c - 0x30
      else if c \<ge> 0x61 \<and> c \<le> 0x66 then 10 + uint c - 0x61
      else if c \<ge> 0x41 \<and> c \<le> 0x46 then 10 + uint c - 0x41
      else -1)"

datatype wm_error = Ambiguous_value "u8 list" | Bad_hex_character u8 "u8 list"

definition check_value :: "cbytes \<Rightarrow> wm_error option option" where
  "check_value arg = do {
     n \<leftarrow> strlen arg;
     let l = unat n;
     Some (if l \<noteq> 1 \<and> l mod 2 \<noteq> 0 then Some (Ambiguous_value (cstr arg))
       else map_option (\<lambda>c. Bad_hex_character c (cstr arg)) (find (\<lambda>c. fromhex c < 0) (take l arg))) }"

fun check_values :: "cbytes list \<Rightarrow> wm_error option option" where
  "check_values [] = Some None"
| "check_values (arg # args) = do {
     e \<leftarrow> check_value arg;
     if e \<noteq> None then Some e else check_values args }"

fun write_pairs :: "u8 list \<Rightarrow> u32 \<times> memory \<Rightarrow> u32 \<times> memory" where
  "write_pairs (a # b # arg) (ptr, m) =
     write_pairs arg (ptr + 1, m(ptr := word_of_int (fromhex a * 16 OR fromhex b)))"
| "write_pairs _ pm = pm"

definition write_value :: "cbytes \<Rightarrow> u32 \<times> memory \<Rightarrow> (u32 \<times> memory) option" where
  "write_value arg pm = do {
     n \<leftarrow> strlen arg;
     let l = unat n;
     if l \<le> 2 then map_option (\<lambda>(v, _, _). (fst pm + 1, (snd pm)(fst pm := ucast v))) (strtoul arg 16)
     else Some (write_pairs (take l arg) pm) }"

fun write_values :: "cbytes list \<Rightarrow> u32 \<times> memory \<Rightarrow> (u32 \<times> memory) option" where
  "write_values [] pm = Some pm"
| "write_values (arg # args) pm = Option.bind (write_value arg pm) (write_values args)"

definition do_writemem :: "env \<Rightarrow> cbytes list \<Rightarrow> memory \<Rightarrow> (wm_error option \<times> memory) option" where
  "do_writemem es argv m = do {
     (ptr, _) \<leftarrow> parse_uint32 es (argv ! 0);
     e \<leftarrow> check_values (tl argv);
     if e \<noteq> None then Some (e, m)
     else map_option (\<lambda>(ptr, m). (None, m)) (write_values (tl argv) (ptr, m)) }"

section \<open>What the dump shows\<close>

text \<open>The reference: hexadecimal numbers of a fixed width, and rows of sixteen columns with the characters behind.\<close>

fun hexits :: "nat \<Rightarrow> nat \<Rightarrow> u8 list" where
  "hexits 0 v = []"
| "hexits (Suc w) v = hexits w (v div 16) @ [nstring ! (v mod 16)]"

definition cell :: "memory \<Rightarrow> u32 \<Rightarrow> nat \<Rightarrow> nat \<Rightarrow> nat \<Rightarrow> u8 list" where
  "cell m base i j c =
     (if c = 8 then [0x20] else []) @
     (if i \<le> c \<and> c < j then 0x20 # hexits 2 (unat (m (base + of_nat c))) else [0x20, 0x20, 0x20])"

definition row_from :: "memory \<Rightarrow> u32 \<Rightarrow> nat \<Rightarrow> nat \<Rightarrow> nat \<Rightarrow> u8 list" where
  "row_from m base i j c =
     concat (map (cell m base i j) [c ..< 16]) @ [0x20, 0x20] @
     replicate i 0x20 @ map (\<lambda>c. printable (m (base + of_nat c))) [i ..< j] @ [0x0D, 0x0A]"

definition row_label :: "u32 \<Rightarrow> u8 list" where
  "row_label base = [0x30, 0x78] @ hexits 8 (unat base) @ [0x20]"

function dump_rows :: "memory \<Rightarrow> u32 \<Rightarrow> nat \<Rightarrow> nat \<Rightarrow> u8 list" where
  "dump_rows m base i n =
     row_label base @ row_from m base i (min 16 (i + n)) 0 @
     (if i + n \<le> 16 \<or> i \<ge> 16 then [] else dump_rows m (base + 16) 0 (i + n - 16))"
  by pat_completeness auto
termination by (relation "measure (\<lambda>(m, base, i, n). n)") auto

declare dump_rows.simps [simp del]

lemma hexits_digits: "0 < w \<Longrightarrow> v < 16 ^ w \<Longrightarrow>
  replicate (w - length (digits 16 v)) 0x30 @ digit_bytes 16 v = hexits w v \<and> length (digits 16 v) \<le> w"
proof (induction w arbitrary: v)
  case (Suc w)
  have z: "nstring ! 0 = 0x30" by (simp add: nstring_def)
  show ?case
  proof (cases "v < 16")
    case True
    have "hexits w 0 = replicate w 0x30" by (induction w) (simp_all add: z replicate_append_same)
    then show ?thesis using True by (simp add: digits.simps [of 16 v] digit_bytes_def)
  next
    case False
    have d: "digits 16 v = digits 16 (v div 16) @ [v mod 16]" using False by (subst digits.simps) simp
    have "0 < w" using Suc.prems False by (cases w) auto
    moreover have "v div 16 < 16 ^ w" using Suc.prems by (simp add: div_less_iff_less_mult mult.commute)
    ultimately show ?thesis using Suc.IH [of "v div 16"] by (simp add: d digit_bytes_def)
  qed
qed simp

lemma hexits_plain: "\<forall>c \<in> set (digit_bytes 16 n). c \<noteq> 0 \<and> c \<noteq> 0x0A"
proof -
  have "\<forall>d \<in> set [0 ..< 16]. nstring ! d \<noteq> 0 \<and> nstring ! d \<noteq> 0x0A" by (simp add: upt_rec nstring_def)
  then show ?thesis using digits_less [of 16 n] by (auto simp: digit_bytes_def)
qed

lemma numout_hex: "numout v 16 (replicate 12 0) = Some (digit_bytes 16 (unat v) @ [0])"
  using numout_positive [of "replicate 12 0" 16 v] by simp

lemma hex_field:
  assumes "unat v < 16 ^ w" "0 < w" "w \<le> 8"
  shows "\<exists>k. put_field (digit_bytes 16 (unat v) @ [0]) (int w) 0 0x30 cnt tx = Some (k, tx @ hexits w (unat v))"
proof -
  have h: "replicate (w - length (digits 16 (unat v))) 0x30 @ digit_bytes 16 (unat v) = hexits w (unat v)"
    "length (digits 16 (unat v)) \<le> w" using hexits_digits [OF assms(2,1)] by simp_all
  have l: "length (digit_bytes 16 (unat v)) = length (digits 16 (unat v))" by (simp add: digit_bytes_def)
  have "digit_bytes 16 (unat v) \<noteq> []" using digits_nonempty [of 16 "unat v"] by (simp add: digit_bytes_def)
  then show ?thesis using put_field_plain [OF hexits_plain [of "unat v"], of "int w" "0x30" cnt tx] h l assms(3) by simp
qed

lemma print_byte: "put_printf '' %02x'' [VInt (ucast (v :: u8))] tx = Some (tx @ 0x20 # hexits 2 (unat v))"
proof -
  have "unat (ucast v :: u32) < 16 ^ 2" using u8_less [of v] by (simp add: unat_ucast_u8_u32)
  from hex_field [OF this, of 1 "[0x20]"] obtain k where
    "put_field (digit_bytes 16 (unat (ucast v :: u32)) @ [0]) 2 0 0x30 1 [0x20] = Some (k, 0x20 # hexits 2 (unat v))"
    by (auto simp: unat_ucast_u8_u32)
  then show ?thesis
    by (simp add: put_printf_def printf_def ascii_def parse_directive_def length_modifier_def convert_arg_def number_base_def
        fetch_val_def NUMLTH_def numout_hex putch_def)
qed

lemma print_label:
  "put_printf ''0x%08x '' [VInt a] tx = Some (tx @ row_label a)"
  "put_printf (CHR 0x0A # ''0x%08x '') [VInt a] tx = Some (tx @ [0x0D, 0x0A] @ row_label a)"
proof -
  have "unat a < 16 ^ 8" using u32_less [of a] by simp
  note f = hex_field [OF this, simplified]
  obtain k where "put_field (digit_bytes 16 (unat a) @ [0]) 8 0 0x30 2 [0x30, 0x78] = Some (k, [0x30, 0x78] @ hexits 8 (unat a))"
    using f [of 2 "[0x30, 0x78]"] by auto
  moreover obtain k' where "put_field (digit_bytes 16 (unat a) @ [0]) 8 0 0x30 3 [0x0D, 0x0A, 0x30, 0x78] =
      Some (k', [0x0D, 0x0A, 0x30, 0x78] @ hexits 8 (unat a))"
    using f [of 3 "[0x0D, 0x0A, 0x30, 0x78]"] by auto
  ultimately show "put_printf ''0x%08x '' [VInt a] tx = Some (tx @ row_label a)"
    "put_printf (CHR 0x0A # ''0x%08x '') [VInt a] tx = Some (tx @ [0x0D, 0x0A] @ row_label a)"
    by (simp_all add: put_printf_def printf_def ascii_def parse_directive_def length_modifier_def convert_arg_def number_base_def
        fetch_val_def NUMLTH_def numout_hex putch_def row_label_def del: hexits.simps)
qed

lemma print_line:
  assumes "\<forall>c \<in> set s. c \<noteq> 0 \<and> c \<noteq> 0x0A" "length s = 16"
  shows "put_printf ''  %s'' [VStr (s @ [0])] tx = Some (tx @ 0x20 # 0x20 # s)"
proof -
  have "s \<noteq> []" using assms(2) by auto
  then obtain k where "put_field (s @ [0]) 0 0 0x20 2 [0x20, 0x20] = Some (k, 0x20 # 0x20 # s)"
    using put_field_plain [OF assms(1), of 0 "0x20" 2 "[0x20, 0x20]"] assms(2) by auto
  then show ?thesis
    by (simp add: put_printf_def printf_def ascii_def parse_directive_def length_modifier_def convert_arg_def number_base_def putch_def)
qed

lemma print_spaces: "put_printf ''   '' [] tx = Some (tx @ [0x20, 0x20, 0x20])" "put_printf [CHR 0x0A] [] tx = Some (tx @ [0x0D, 0x0A])"
  by (simp_all add: put_printf_def printf_def ascii_def putch_def)

lemma skip_columns_eq: "skip_columns n tx = Some (tx @ replicate (3 * n) 0x20)"
  by (induction n arbitrary: tx) (simp_all add: print_spaces numeral_3_eq_3)

lemma printable_plain: "printable v \<noteq> 0 \<and> printable v \<noteq> 0x0A"
  by (auto simp: printable_def)

lemma columns_below_16: "c < 16 \<Longrightarrow> c \<in> {0, 1, 2, 3, 4, 5, 6, 7, 8, 9, 10, 11, 12, 13, 14, 15 :: nat}"
  by (simp only: insert_iff empty_iff) arith

text \<open>The cells that are not shown are blank.\<close>

lemma blank_cells:
  assumes "c < 16" "j \<le> c"
  shows "concat (map (cell m base i j) [c ..< 16]) = replicate (3 * (16 - c) + (if c \<le> 8 then 1 else 0)) 0x20"
proof -
  have "concat (map (cell m base i j) [c ..< 16]) = concat (map (cell m base 0 0) [c ..< 16])"
    using assms(2) by (intro arg_cong [where f = concat] map_cong) (auto simp: cell_def)
  also have "\<dots> = replicate (3 * (16 - c) + (if c \<le> 8 then 1 else 0)) 0x20"
    using columns_below_16 [OF assms(1)] by (elim insertE; simp add: upt_rec cell_def numeral_eq_Suc)
  finally show ?thesis .
qed

lemma skipped_cells:
  assumes "i < 16"
  shows "concat (map (cell m base i j) [0 ..< i]) = replicate (3 * i + (if 8 < i then 1 else 0)) 0x20"
proof -
  have "concat (map (cell m base i j) [0 ..< i]) = concat (map (cell m base 0 0) [0 ..< i])"
    by (intro arg_cong [where f = concat] map_cong) (auto simp: cell_def)
  also have "\<dots> = replicate (3 * i + (if 8 < i then 1 else 0)) 0x20"
    using columns_below_16 [OF assms] by (elim insertE; simp add: upt_rec cell_def numeral_eq_Suc)
  finally show ?thesis .
qed

text \<open>The buffer of characters in the middle of a row that started in column \<open>i\<close>.\<close>

definition line_at :: "memory \<Rightarrow> u32 \<Rightarrow> nat \<Rightarrow> nat \<Rightarrow> cbytes \<Rightarrow> bool" where
  "line_at m base i c line \<longleftrightarrow> i \<le> c \<and> c \<le> 16 \<and> length line = 17 \<and> line ! 16 = 0 \<and>
     take c line = replicate i 0x20 @ map (\<lambda>c. printable (m (base + of_nat c))) [i ..< c]"

lemma line_at_step:
  assumes "line_at m base i c line" "c < 16"
  shows "line_at m base i (Suc c) (line[c := printable (m (base + of_nat c))])"
  using assms by (auto simp: line_at_def take_Suc_conv_app_nth)

lemma line_at_plain: "line_at m base i c line \<Longrightarrow> \<forall>v \<in> set (take c line). v \<noteq> 0 \<and> v \<noteq> 0x0A"
  using printable_plain by (fastforce simp: line_at_def)

lemma line_full:
  assumes "line_at m base i 16 line"
  shows "line = take 16 line @ [0]" "length (take 16 line) = 16" "line_at m base' 0 0 line"
  using assms take_Suc_conv_app_nth [of 16 line] by (auto simp: line_at_def)

lemma line_cut:
  assumes "line_at m base i c line"
  shows "cstr (line[c := 0]) = take c line"
proof -
  have "c < length line" using assms by (simp add: line_at_def)
  then have "line[c := 0] = take c line @ 0 # drop (Suc c) line" by (rule upd_conv_take_nth_drop)
  moreover have "cstr (s @ 0 # r) = s" if "\<forall>v \<in> set s. v \<noteq> 0" for s r using that by (induction s) (auto simp: cstr_def)
  ultimately show ?thesis using line_at_plain [OF assms] by auto
qed

definition row_end :: "memory \<Rightarrow> u32 \<Rightarrow> nat \<Rightarrow> nat \<Rightarrow> nat \<Rightarrow> u8 list" where
  "row_end m base i c n =
     row_from m base i (min 16 (c + n)) c @ (if c + n \<le> 16 then [] else dump_rows m (base + 16) 0 (c + n - 16))"

lemma address_nibble: "unat (x AND 15 :: u32) = unat x mod 16"
proof -
  have "x AND 15 = take_bit 4 x" by (simp add: take_bit_eq_mask mask_eq_exp_minus_1)
  then show ?thesis by (simp add: take_bit_eq_mod unat_mod)
qed

lemma column:
  assumes "base AND 15 = 0" "c < 16"
  shows "(base + of_nat c) AND 15 = (of_nat c :: u32)" "(base + of_nat c + 1) mod 16 = 0 \<longleftrightarrow> c = 15"
proof -
  have b: "unat base mod 16 = 0" using assms(1) address_nibble [of base] by simp
  have u: "unat (of_nat c :: u32) = c" using assms(2) by (intro u32_unat_of_nat) simp
  have wrap: "x mod 4294967296 mod 16 = x mod (16 :: nat)" for x by (rule mod_mod_cancel) simp
  have "unat ((base + of_nat c) AND 15) = (unat base + c) mod 16" by (simp add: address_nibble unat_word_ariths u wrap)
  also have "\<dots> = c" using b assms(2) by (simp add: mod_add_eq [symmetric])
  finally show "(base + of_nat c) AND 15 = (of_nat c :: u32)" using u by (simp add: word_unat_eq_iff)
  have "unat ((base + of_nat c + 1) mod 16) = (unat base + c + 1) mod 16"
    by (simp add: unat_word_ariths u wrap mod_Suc_eq)
  also have "\<dots> = (c + 1) mod 16" using b by (metis add.assoc add.left_neutral mod_add_left_eq)
  finally have "(base + of_nat c + 1) mod 16 = 0 \<longleftrightarrow> (c + 1) mod 16 = 0" by (simp add: word_unat_eq_iff)
  also have "\<dots> \<longleftrightarrow> c = 15" using assms(2) by (cases "c = 15") auto
  finally show "(base + of_nat c + 1) mod 16 = 0 \<longleftrightarrow> c = 15" .
qed

lemma row_end_step:
  assumes "c < 15" "i \<le> c"
  shows "row_end m base i c (Suc n) =
    (if c = 8 then [0x20] else []) @ 0x20 # hexits 2 (unat (m (base + of_nat c))) @ row_end m base i (Suc c) n"
proof -
  have "[c ..< 16] = c # [Suc c ..< 16]" using assms(1) by (simp add: upt_conv_Cons)
  then show ?thesis using assms by (simp add: row_end_def row_from_def cell_def del: hexits.simps upt_Suc)
qed

lemma row_end_full:
  assumes "i \<le> 15"
  shows "row_end m base i 15 (Suc n) =
    0x20 # hexits 2 (unat (m (base + 15))) @ [0x20, 0x20] @
    replicate i 0x20 @ map (\<lambda>c. printable (m (base + of_nat c))) [i ..< 16] @ [0x0D, 0x0A] @
    (if n = 0 then [] else row_label (base + 16) @ row_end m (base + 16) 0 0 n)"
proof -
  have "[15 ..< 16] = [15 :: nat]" by simp
  then show ?thesis using assms
    by (simp add: row_end_def row_from_def cell_def dump_rows.simps [of m "base + 16" 0 n] del: hexits.simps upt_Suc)
qed

lemma dump_loop_shows:
  assumes "base AND 15 = 0"
  shows "c < 16 \<Longrightarrow> line_at m base i c line \<Longrightarrow>
    dump_loop m (base + of_nat c) len line c tx = Some (tx @ row_end m base i c (unat len))"
  using assms
proof (induction "unat len" arbitrary: base len c i line tx)
  case 0
  then have len: "len = 0" by (simp add: unat_eq_0)
  let ?n = "3 * (16 - c) + (if c \<le> 8 then 1 else 0)"
  have u: "unat (of_nat c :: u32) = c" using 0(2) by (intro u32_unat_of_nat) simp
  have "(let rem = 2 + 3 * (16 - c) in if rem \<ge> 26 then rem + 1 else rem) = ?n + 2" by auto
  moreover have "c < length line" using 0(2,3) by (simp add: line_at_def)
  moreover have "puts (line[c := 0]) t = t @ take c line @ [0x0D, 0x0A]" for t
    using puts_plain [of "line[c := 0]"] line_at_plain [OF 0(3)] by (simp add: line_cut [OF 0(3)])
  ultimately have "dump_rest (base + of_nat c) line c tx = Some (tx @ replicate (?n + 2) 0x20 @ take c line @ [0x0D, 0x0A])"
    by (simp add: dump_rest_def column [OF 0(4,2)] u putchs_plain Let_def)
  moreover have "replicate (?n + 2) 0x20 = replicate ?n 0x20 @ [0x20, 0x20 :: u8]"
    by (simp only: replicate_add) (simp add: numeral_2_eq_2)
  ultimately show ?case
    using 0(2,3) by (simp add: dump_loop.simps len row_end_def row_from_def blank_cells line_at_def)
next
  case (Suc n)
  have "len \<noteq> 0" using Suc(2) by auto
  then have len: "len \<noteq> 0" "unat (len - 1) = n" using Suc(2) one_less(2) [of len] by simp_all
  let ?v = "m (base + of_nat c)" and ?line = "line[c := printable (m (base + of_nat c))]"
  have i: "i \<le> c" "c < length line" using Suc(3,4) by (simp_all add: line_at_def)
  have "(of_nat c :: u32) = 8 \<longleftrightarrow> c = 8" using Suc(3) by (simp add: word_unat_eq_iff u32_unat_of_nat)
  then have tx: "(if (base + of_nat c) AND 0x0F = 0x08 then putch 0x20 tx else tx) = tx @ (if c = 8 then [0x20] else [])"
    using column(1) [OF Suc(5,3)] by (simp add: putch_def)
  note line = line_at_step [OF Suc(4,3)]
  show ?case
  proof (cases "c = 15")
    case True
    have full: "line_at m base i 16 ?line" using line True by simp
    let ?tx = "tx @ 0x20 # hexits 2 (unat ?v) @ [0x20, 0x20] @ take 16 ?line"
    have "put_printf ''  %s'' [VStr ?line] (tx @ 0x20 # hexits 2 (unat ?v)) = Some ?tx"
      using print_line [OF line_at_plain [OF full] line_full(2) [OF full], of "tx @ 0x20 # hexits 2 (unat ?v)"]
      by (simp add: line_full(1) [OF full, symmetric] del: hexits.simps)
    then have "dump_loop m (base + of_nat c) len line c tx =
        (if n \<noteq> 0 then dump_loop m (base + 16) (len - 1) ?line 0 (?tx @ [0x0D, 0x0A] @ row_label (base + 16)) else Some (?tx @ [0x0D, 0x0A]))"
      using len i column(2) [OF Suc(5,3)] tx True
      by (subst dump_loop.simps) (simp add: print_byte print_label print_spaces unat_eq_0 [symmetric] add.assoc Let_def del: hexits.simps)
    moreover have "dump_loop m (base + 16) (len - 1) ?line 0 t = Some (t @ row_end m (base + 16) 0 0 n)" for t
    proof -
      have "(base + 16) AND 15 = 0" using Suc(5) by (simp add: word_unat_eq_iff address_nibble unat_word_ariths mod_mod_cancel)
      then show ?thesis using Suc(1) [of "len - 1" 0 "base + 16" 0 ?line t] len(2) line_full(3) [OF full] by simp
    qed
    ultimately show ?thesis
      using full i(1) True Suc(2) len by (simp add: row_end_full [of i m base n] line_at_def flip: Suc(2) del: hexits.simps)
  next
    case False
    then have c: "Suc c < 16" using Suc(3) by simp
    have "dump_loop m (base + of_nat c) len line c tx =
        dump_loop m (base + of_nat (Suc c)) (len - 1) ?line (Suc c) (tx @ (if c = 8 then [0x20] else []) @ 0x20 # hexits 2 (unat ?v))"
      using len i column(2) [OF Suc(5,3)] tx False
      by (subst dump_loop.simps) (simp add: print_byte Let_def ac_simps del: hexits.simps)
    also have "\<dots> = Some (tx @ (if c = 8 then [0x20] else []) @ 0x20 # hexits 2 (unat ?v) @ row_end m base i (Suc c) n)"
      using Suc(1) [of "len - 1" "Suc c" base i ?line] len(2) c line Suc(5) by (simp del: hexits.simps of_nat_Suc)
    also have "\<dots> = Some (tx @ row_end m base i c (Suc n))"
      using row_end_step [of c i m base n] c i(1) by (simp del: hexits.simps)
    finally show ?thesis by (simp flip: Suc(2))
  qed
qed

lemma dump_rows_shown:
  "pretty_dump_memory m start len = Some (dump_rows m (start AND NOT 15) (unat (start AND 15)) (unat len))"
proof -
  let ?b = "start AND NOT 15" and ?i = "unat (start AND 15)"
  have i: "?i < 16" by (simp add: address_nibble)
  have u: "unat ?b = unat start div 16 * 16" using unat_and_minus_exp [of start 4] by simp
  have b: "?b AND 15 = 0" using address_nibble [of ?b] u by (simp add: word_unat_eq_iff)
  have "unat ?b + unat (start AND 15) = unat start" unfolding u address_nibble by simp
  then have "unat (?b + (start AND 15)) = unat start" by (subst u32_unat_add) simp_all
  then have s: "?b + of_nat ?i = start" by (simp add: word_unat_eq_iff)
  have "line_at m ?b ?i ?i (replicate 16 0x20 @ [0])" using i by (simp add: line_at_def nth_append)
  from dump_loop_shows [OF b i this, of len] have d: "dump_loop m start len (replicate 16 0x20 @ [0]) ?i tx =
      Some (tx @ row_end m ?b ?i ?i (unat len))" for tx by (simp only: s)
  have up: "[0 ..< 16] = [0 ..< ?i] @ [?i ..< 16]" using i upt_add_eq_append [of 0 ?i "16 - ?i"] by simp
  have "row_from m ?b ?i j 0 = replicate (3 * ?i + (if 8 < ?i then 1 else 0)) 0x20 @ row_from m ?b ?i j ?i" for j
    using skipped_cells [OF i] by (simp add: row_from_def up)
  moreover have "pretty_dump_memory m start len =
      Some (row_label ?b @ replicate (3 * ?i + (if 8 < ?i then 1 else 0)) 0x20 @ row_end m ?b ?i ?i (unat len))"
    by (simp add: pretty_dump_memory_def print_label skip_columns_eq d putch_def replicate_append_same Let_def)
  ultimately show ?thesis using i by (subst dump_rows.simps) (simp add: row_end_def)
qed

text \<open>C17. The dump shows the memory. For every address and every length \<^verbatim>\<open>dump\<close> prints, and prints only, rows of
  sixteen columns labelled with their address: each byte of the range once, in hexadecimal under its column and as a character
  behind, the columns outside the range blank, also in a first row that starts and a last row that ends in the middle.\<close>

theorem dump_shows_memory:
  "pretty_dump_memory m start len = Some (dump_rows m (start AND NOT 15) (unat (start AND 15)) (unat len))"
  by (rule dump_rows_shown)

section \<open>What is written\<close>

definition hexadecimal :: "u8 \<Rightarrow> bool" where "hexadecimal c \<longleftrightarrow> 0 \<le> fromhex c"

text \<open>The bytes of an argument: its digits by twos, or the one digit; nothing at all is a zero.\<close>

fun hex_bytes :: "u8 list \<Rightarrow> u8 list" where
  "hex_bytes (a # b # s) = of_int (16 * fromhex a + fromhex b) # hex_bytes s"
| "hex_bytes [a] = [of_int (fromhex a)]"
| "hex_bytes [] = []"

definition value_bytes :: "u8 list \<Rightarrow> u8 list" where "value_bytes s = (if s = [] then [0] else hex_bytes s)"

definition acceptable :: "u8 list \<Rightarrow> bool" where
  "acceptable s \<longleftrightarrow> (length s = 1 \<or> even (length s)) \<and> (\<forall>c \<in> set s. hexadecimal c)"

lemma hexadecimal_digit:
  assumes "hexadecimal c"
  shows "fromhex c < 16" "ndigit c \<noteq> RUB" "int (unat (ndigit c)) = fromhex c"
proof -
  define n where "n = unat c"
  have u: "uint c = int n" by (simp add: n_def)
  have s: "unat (c - k) = n - unat k" if "k \<le> c" for k using that unfolding n_def by (rule unat_sub)
  consider "0x30 \<le> c" "c \<le> 0x39" | "0x61 \<le> c" "c \<le> 0x66" | "0x41 \<le> c" "c \<le> 0x46"
    using assms by (auto simp: hexadecimal_def fromhex_def split: if_splits)
  then have d: "fromhex c < 16 \<and> int (unat (ndigit c)) = fromhex c"
  proof cases
    case 1
    then show ?thesis using s [of "0x30"] unfolding fromhex_def u by (simp add: ndigit_def word_le_nat_alt n_def [symmetric])
  next
    case 2
    then have "\<not> c \<le> 0x39" "\<not> c \<le> 0x5A" "87 \<le> c" by (simp_all add: word_le_nat_alt)
    then show ?thesis using 2 s [of 87] unfolding fromhex_def u by (simp add: ndigit_def word_le_nat_alt n_def [symmetric])
  next
    case 3
    then have "\<not> c \<le> 0x39" "\<not> 0x61 \<le> c" "55 \<le> c" by (simp_all add: word_le_nat_alt)
    then show ?thesis using 3 s [of 55] unfolding fromhex_def u by (simp add: ndigit_def word_le_nat_alt n_def [symmetric])
  qed
  then show "fromhex c < 16" "int (unat (ndigit c)) = fromhex c" by simp_all
  show "ndigit c \<noteq> RUB"
  proof
    assume "ndigit c = RUB"
    then have "unat (ndigit c) = 255" by (simp add: RUB_def)
    then show False using d by simp
  qed
qed

lemma store_Cons: "length bs < 4294967296 \<Longrightarrow> store (p + 1) bs (m(p := b)) = store p (b # bs) m"
proof
  fix x
  assume l: "length bs < 4294967296"
  show "store (p + 1) bs (m(p := b)) x = store p (b # bs) m x"
  proof (cases "x = p")
    case True
    have "unat (p - (p + 1)) = 4294967295" using unat_neg_u32 [of 1] by simp
    then show ?thesis using True l by (simp add: store_def)
  next
    case False
    then have "x - p \<noteq> 0" by simp
    then have "unat (x - p) = Suc (unat (x - p - 1))" using one_less(2) [of "x - p"] unat_gt_0 [of "x - p"] by simp
    then show ?thesis using False by (simp add: store_def diff_diff_eq [symmetric])
  qed
qed

lemma store_append:
  "length (xs @ ys) < 4294967296 \<Longrightarrow> store (p + of_nat (length xs)) ys (store p xs m) = store p (xs @ ys) m"
proof (induction xs arbitrary: p m)
  case Nil
  show ?case by (simp add: store_def)
next
  case (Cons x xs)
  then have "length xs < 4294967296" "length (xs @ ys) < 4294967296" by simp_all
  then have "store (p + 1) xs (m(p := x)) = store p (x # xs) m" "store (p + 1) (xs @ ys) (m(p := x)) = store p (x # xs @ ys) m"
    by (simp_all only: store_Cons)
  moreover have "store (p + 1 + of_nat (length xs)) ys (store (p + 1) xs (m(p := x))) = store (p + 1) (xs @ ys) (m(p := x))"
    by (rule Cons.IH) (use Cons.prems in simp)
  ultimately show ?case by (simp only: list.size of_nat_add add.assoc append_Cons of_nat_1 add.commute [of 1] One_nat_def [symmetric])
qed

lemma write_pairs_store:
  "\<forall>c \<in> set s. hexadecimal c \<Longrightarrow> even (length s) \<Longrightarrow> length s < 4294967296 \<Longrightarrow>
    write_pairs s (p, m) = (p + of_nat (length (hex_bytes s)), store p (hex_bytes s) m)"
proof (induction s arbitrary: p m rule: hex_bytes.induct)
  case (1 a b s)
  have d: "fromhex a < 16" "fromhex b < 16" "0 \<le> fromhex a" "0 \<le> fromhex b"
    using 1(2) hexadecimal_digit by (auto simp: hexadecimal_def)
  have "fromhex a * 16 OR fromhex b = push_bit 4 (fromhex a) OR fromhex b" by (simp add: push_bit_eq_mult)
  also have "\<dots> = push_bit 4 (fromhex a) + fromhex b"
  proof (rule disjunctive_add [symmetric])
    have "take_bit 4 (fromhex b) = fromhex b" using d by (simp add: take_bit_int_eq_self)
    then show "\<not> bit (push_bit 4 (fromhex a)) n \<or> \<not> bit (fromhex b) n" for n
      by (metis bit_push_bit_iff_int bit_take_bit_iff not_less)
  qed
  finally have v: "fromhex a * 16 OR fromhex b = 16 * fromhex a + fromhex b" by (simp add: push_bit_eq_mult)
  have "length (hex_bytes s) \<le> length s" by (induction s rule: hex_bytes.induct) auto
  then have "store (p + 1) (hex_bytes s) (m(p := x)) = store p (x # hex_bytes s) m" for x
    using 1(4) by (intro store_Cons) simp
  then show ?case using 1(1) [of "p + 1"] 1(2-4) by (simp add: v add.assoc)
qed (simp_all add: store_def)

lemma length_hex_bytes: "length (hex_bytes s) \<le> length s"
  by (induction s rule: hex_bytes.induct) auto

lemma strlen_bytes: "terminated s \<Longrightarrow> length s \<le> 2147483648 \<Longrightarrow> strlen s = Some (of_nat (length (cstr s))) \<and>
    unat (of_nat (length (cstr s)) :: u32) = length (cstr s) \<and> take (length (cstr s)) s = cstr s"
proof -
  assume t: "terminated s" and l: "length s \<le> 2147483648"
  have "length (cstr s) \<le> length s" by (simp add: cstr_def length_takeWhile_le)
  then have "unat (of_nat (length (cstr s)) :: u32) = length (cstr s)" using l by (intro u32_unat_of_nat) simp
  moreover have "take (length (cstr s)) s = cstr s" by (simp add: cstr_def takeWhile_eq_take [symmetric])
  ultimately show ?thesis using t by (simp add: strlen_eq)
qed

definition value_error :: "u8 list \<Rightarrow> wm_error option" where
  "value_error v =
     (if length v \<noteq> 1 \<and> odd (length v) then Some (Ambiguous_value v)
      else map_option (\<lambda>c. Bad_hex_character c v) (find (\<lambda>c. \<not> hexadecimal c) v))"

lemma value_error_None: "value_error v = None \<longleftrightarrow> acceptable v"
  by (auto simp: value_error_def acceptable_def find_None_iff)

lemma check_value_eq:
  assumes "terminated s" "length s \<le> 2147483648"
  shows "check_value s = Some (value_error (cstr s))"
proof -
  have "fromhex c < 0 \<longleftrightarrow> \<not> hexadecimal c" for c by (auto simp: hexadecimal_def)
  moreover define n where "n = length (cstr s)"
  then have "strlen s = Some (of_nat n)" "unat (of_nat n :: u32) = n" "take n s = cstr s" "length (cstr s) = n"
    using strlen_bytes [OF assms] by simp_all
  ultimately show ?thesis
    by (cases "n = 1") (simp_all add: check_value_def value_error_def odd_iff_mod_2_eq_one del: One_nat_def)
qed

definition first_error :: "cbytes list \<Rightarrow> wm_error option" where
  "first_error args = (case find (\<lambda>s. \<not> acceptable (cstr s)) args of None \<Rightarrow> None | Some s \<Rightarrow> value_error (cstr s))"

lemma check_values_eq:
  "\<forall>s \<in> set args. terminated s \<and> length s \<le> 2147483648 \<Longrightarrow> check_values args = Some (first_error args)"
  by (induction args) (auto simp: check_value_eq first_error_def split: option.splits simp flip: value_error_None)

lemma write_short:
  assumes "terminated s" "cstr s = c # cs" "\<forall>c \<in> set (cstr s). hexadecimal c" "length (cstr s) \<le> 2"
  shows "\<exists>r. strtoul s 16 = Some (of_nat (digits_value 16 (cstr s) 0), r)"
proof -
  have s: "s = cstr s @ 0 # drop (Suc (length (cstr s))) s" by (rule terminated_split [OF assms(1)])
  have d: "\<forall>b \<in> set (c # cs). ndigit b \<noteq> RUB \<and> unat (ndigit b) < 16"
  proof
    fix b assume "b \<in> set (c # cs)"
    then have "hexadecimal b" using assms(2,3) by auto
    from hexadecimal_digit [OF this] show "ndigit b \<noteq> RUB \<and> unat (ndigit b) < 16" by linarith
  qed
  have "digits_value 16 (c # cs) 0 < 4294967296"
  proof (cases cs)
    case Nil
    moreover have "unat (ndigit c) < 16" using d by simp
    ultimately show ?thesis by simp
  next
    case (Cons b bs)
    then have "bs = []" using assms(2,4) by simp
    moreover have "unat (ndigit c) < 16" "unat (ndigit b) < 16" using d Cons by simp_all
    ultimately show ?thesis using Cons by simp
  qed
  have "strtoul ([] @ [] @ (c # cs) @ 0 # drop (Suc (length (cstr s))) s) (int 16) =
      Some ((if False then - 1 else 1) * of_nat (digits_value 16 (c # cs) 0), length ([] :: u8 list) + length ([] :: u8 list) + length (c # cs), 0)"
  proof (rule strtoul_parses)
    show "ndigit 0 = RUB" by (simp add: ndigit_def RUB_def)
    show "digits_value 16 (c # cs) 0 < 4294967296" by fact
  qed (simp_all add: sign_bytes_def d [simplified])
  moreover have "strtoul s 16 = strtoul ((c # cs) @ 0 # drop (Suc (length (cstr s))) s) 16" by (subst s) (simp add: assms(2))
  ultimately show ?thesis using assms(2) by simp
qed

lemma write_value_stores:
  assumes "terminated s" "length s \<le> 2147483648" "acceptable (cstr s)"
  shows "write_value s (p, m) = Some (p + of_nat (length (value_bytes (cstr s))), store p (value_bytes (cstr s)) m)"
proof -
  note l = strlen_bytes [OF assms(1,2)]
  have cast: "ucast (ucast x :: u32) = x" for x :: u8 by (rule bit_word_eqI) (simp add: bit_simps)
  have low: "ucast (of_nat n :: u32) = (of_nat n :: u8)" for n by (simp add: word_unat_eq_iff unsigned_of_nat)
  have two: "(of_nat (unat x * 16 + unat y) :: u8) = x * 16 + y" for x y :: u8 by simp
  have one: "store p [b] m = m(p := b)" for b by (rule ext) (auto simp: store_def unat_eq_0)
  show ?thesis
  proof (cases "length (cstr s) \<le> 2")
    case False
    then have "even (length (cstr s))" "cstr s \<noteq> []" using assms(3) by (auto simp: acceptable_def)
    then show ?thesis using l False assms(2,3) write_pairs_store [of "cstr s" p m]
      by (simp add: write_value_def acceptable_def value_bytes_def cstr_def length_takeWhile_le [THEN le_less_trans])
  next
    case True
    show ?thesis
    proof (cases "cstr s")
      case Nil
      have s: "s = cstr s @ 0 # drop (Suc (length (cstr s))) s" by (rule terminated_split [OF assms(1)])
      then have "s = 0 # tl s" using Nil by (metis append_Nil list.sel(3))
      then have "strtoul s 16 = Some (0, 0, 1)"
        by (cases s) (simp_all add: strtoul_def skip_space.simps rd_def isspace_def radix_prefix_def ndigit_def RUB_def)
      then show ?thesis using l Nil by (simp add: write_value_def value_bytes_def one)
    next
      case (Cons c cs)
      obtain r where r: "strtoul s 16 = Some (of_nat (digits_value 16 (cstr s) 0), r)"
        using write_short [OF assms(1) Cons] assms(3) True by (auto simp: acceptable_def)
      have h: "fromhex c = int (unat (ndigit c))" if "c \<in> set (cstr s)" for c
        using assms(3) hexadecimal_digit(3) that by (auto simp: acceptable_def)
      have "value_bytes (cstr s) = [ucast (of_nat (digits_value 16 (cstr s) 0) :: u32)]"
      proof (cases cs)
        case Nil
        then show ?thesis using Cons h [of c] by (simp add: value_bytes_def cast)
      next
        case (Cons d ds)
        then have "cstr s = [c, d]" using True \<open>cstr s = c # cs\<close> by simp
        then show ?thesis using h [of c] h [of d] two [of "ndigit c" "ndigit d"] by (simp add: value_bytes_def low ac_simps del: of_nat_add of_nat_mult)
      qed
      then show ?thesis using l r True by (simp add: write_value_def one)
    qed
  qed
qed

lemma write_values_store:
  "\<forall>s \<in> set args. terminated s \<and> length s \<le> 2147483648 \<and> acceptable (cstr s) \<Longrightarrow>
   length (concat (map (value_bytes \<circ> cstr) args)) < 4294967296 \<Longrightarrow>
   \<exists>q. write_values args (p, m) = Some (q, store p (concat (map (value_bytes \<circ> cstr) args)) m)"
proof (induction args arbitrary: p m)
  case (Cons s args)
  let ?b = "value_bytes (cstr s)" and ?r = "concat (map (value_bytes \<circ> cstr) args)"
  obtain q where q: "write_values args (p + of_nat (length ?b), store p ?b m) = Some (q, store (p + of_nat (length ?b)) ?r (store p ?b m))"
    using Cons.IH [of "p + of_nat (length ?b)" "store p ?b m"] Cons.prems by (auto simp del: comp_apply)
  have "store (p + of_nat (length ?b)) ?r (store p ?b m) = store p (?b @ ?r) m"
    by (rule store_append) (use Cons.prems(2) in \<open>simp add: comp_def\<close>)
  then show ?case using q Cons.prems(1) by (simp add: write_value_stores comp_def)
qed (simp add: store_def)

text \<open>C22. \<^verbatim>\<open>wm\<close> writes exactly what is typed, or nothing. If every value is hexadecimal and of one digit or an even
  number of them, their bytes are stored behind each other from the address on and nothing else changes; otherwise the memory is
  unchanged and the message is about the first value that is wrong. What the columns of a dump show is a value that writes these bytes back.\<close>

theorem writemem_writes:
  assumes "parse_uint32 es a = Some (p, e)" "\<forall>s \<in> set args. terminated s \<and> length s \<le> 2147483648"
    and "length (concat (map (value_bytes \<circ> cstr) args)) < 4294967296"
  shows "do_writemem es (a # args) m =
      Some (if \<forall>s \<in> set args. acceptable (cstr s) then (None, store p (concat (map (value_bytes \<circ> cstr) args)) m)
        else (first_error args, m)) \<and>
    (first_error args = None \<longleftrightarrow> (\<forall>s \<in> set args. acceptable (cstr s))) \<and>
    (\<forall>bs. bs \<noteq> [] \<longrightarrow> acceptable (concat (map (hexits 2 \<circ> unat) bs)) \<and> value_bytes (concat (map (hexits 2 \<circ> unat) bs)) = bs)"
proof (intro conjI allI impI)
  show f: "first_error args = None \<longleftrightarrow> (\<forall>s \<in> set args. acceptable (cstr s))"
    by (auto simp: first_error_def find_None_iff find_Some_iff value_error_None split: option.splits dest: nth_mem)
  show "do_writemem es (a # args) m =
      Some (if \<forall>s \<in> set args. acceptable (cstr s) then (None, store p (concat (map (value_bytes \<circ> cstr) args)) m)
        else (first_error args, m))"
  proof (cases "\<forall>s \<in> set args. acceptable (cstr s)")
    case True
    then have all: "\<forall>s \<in> set args. terminated s \<and> length s \<le> 2147483648 \<and> acceptable (cstr s)" using assms(2) by auto
    obtain q where "write_values args (p, m) = Some (q, store p (concat (map (value_bytes \<circ> cstr) args)) m)"
      using write_values_store [OF all assms(3), of p m] by blast
    then show ?thesis using True f assms(1) check_values_eq [OF assms(2)] by (simp add: do_writemem_def)
  next
    case False
    then show ?thesis using f assms(1) check_values_eq [OF assms(2)] by (auto simp: do_writemem_def)
  qed
next
  fix bs :: "u8 list"
  assume ne: "bs \<noteq> []"
  have n: "\<forall>d \<in> set [0 ..< 16]. fromhex (nstring ! d) = int d" by (simp add: upt_rec nstring_def fromhex_def)
  have two: "hexits 2 v = [nstring ! (v div 16 mod 16), nstring ! (v mod 16)]" for v by (simp add: numeral_2_eq_2)
  have b: "hex_bytes (concat (map (hexits 2 \<circ> unat) bs)) = bs"
  proof (induction bs)
    case (Cons b bs)
    have "16 * (unat b div 16 mod 16) + unat b mod 16 = unat b" using u8_less [of b] by (simp add: div_less_iff_less_mult)
    then have "int (unat b) = 16 * int (unat b div 16 mod 16) + int (unat b mod 16)" by linarith
    then have "(of_int (16 * int (unat b div 16 mod 16) + int (unat b mod 16)) :: u8) = of_int (int (unat b))" by presburger
    then have "(of_int (16 * int (unat b div 16 mod 16) + int (unat b mod 16)) :: u8) = b" by simp
    then show ?case using n Cons by (simp add: two)
  qed simp
  have "even (length (concat (map (hexits 2 \<circ> unat) bs)))" by (induction bs) (simp_all add: two)
  moreover have "\<forall>c \<in> set (concat (map (hexits 2 \<circ> unat) bs)). hexadecimal c" using n by (auto simp: two hexadecimal_def)
  ultimately show "acceptable (concat (map (hexits 2 \<circ> unat) bs))" by (simp add: acceptable_def)
  have "concat (map (hexits 2 \<circ> unat) bs) \<noteq> []" using ne by (cases bs) (simp_all add: two)
  then show "value_bytes (concat (map (hexits 2 \<circ> unat) bs)) = bs" unfolding value_bytes_def by (simp only: if_False b)
qed

theorem writemem_writes_witness:
  "do_writemem [] [[0x30, 0x78, 0x31, 0x30, 0], [0x31, 0x32, 0x46, 0x66, 0], [0x37, 0]] (\<lambda>_. 0) =
     Some (None, store 16 [0x12, 0xFF, 7] (\<lambda>_. 0)) \<and>
   do_writemem [] [[0x30, 0x78, 0x31, 0x30, 0], [0x31, 0], [0x31, 0x32, 0x46, 0]] (\<lambda>_. 0) =
     Some (Some (Ambiguous_value [0x31, 0x32, 0x46]), \<lambda>_. 0)"
  using writemem_writes [OF parse_hex, of "[[0x31, 0x32, 0x46, 0x66, 0], [0x37, 0]]" "\<lambda>_. 0"]
    writemem_writes [OF parse_hex, of "[[0x31, 0], [0x31, 0x32, 0x46, 0]]" "\<lambda>_. 0"]
  by (simp add: terminated_def cstr_def acceptable_def hexadecimal_def fromhex_def value_bytes_def first_error_def value_error_def)

text \<open>The default of \<^verbatim>\<open>memtest\<close> is a range that it accepts, up to the heap or to the end of the RAM.\<close>

lemma free_memory_tested:
  assumes "rom_below_addr l \<le> bounce_below_addr l" "free_memory l = (start, cnt)"
  shows "check_writable_range l start cnt False = None" "start + cnt = min (heap_base l) (ram_size l)"
  using assms by (auto simp: free_memory_def check_writable_range_def Let_def min_def not_less split: if_splits)

end
