(* ===== verification/Report.thy ===== *)
theory Report
  imports Format CliMem Boot Rtc "HOL-Library.Signed_Division"
begin

text \<open>
  What the firmware prints about itself: the sizes and the memory layout of \<^verbatim>\<open>core/boot.c\<close>, the time, the state of the heap
  (\<^verbatim>\<open>meminfo\<close> of \<^verbatim>\<open>cli/cli_info.c\<close>), and the report of a processor exception of \<^verbatim>\<open>core/except.c\<close>. The sections of the
  program, which the linker places, are the record \<open>sections\<close>.
\<close>

section \<open>Memory\<close>

definition unit_char :: "size_unit \<Rightarrow> u32" where "unit_char u = (case u of KB \<Rightarrow> 0x4B | MB \<Rightarrow> 0x4D)"

definition print_segment :: "string \<Rightarrow> u32 \<Rightarrow> u32 \<Rightarrow> u32 \<Rightarrow> u8 list \<Rightarrow> u8 list option" where
  "print_segment name start sz load tx = do {
     let (dec, u) = report_segment (sint sz);
     tx \<leftarrow> put_printf ''%8s  %8x  %8x  %3d.%d %cB''
       [VStr (ascii name), VInt start, VInt sz, VInt (of_int (dec sdiv 10)), VInt (of_int (dec smod 10)), VInt (unit_char u)] tx;
     tx \<leftarrow> (if load \<noteq> 0 \<and> load \<noteq> start then put_printf ''  load from %x'' [VInt load] tx else Some tx);
     put_printf newline [] tx }"

record sections =
  text_section :: "u32 \<times> u32"
  rodata_section :: "u32 \<times> u32"
  data_section :: "u32 \<times> u32"
  data_load_start :: u32
  bss_section :: "u32 \<times> u32"

definition report_memory_layout :: "sections \<Rightarrow> layout \<Rightarrow> u8 list \<Rightarrow> u8 list option" where
  "report_memory_layout se l tx = do {
     let top = free_ram_top l;
     tx \<leftarrow> put_printf ('' segment     start    length'' @ newline) [] tx;
     tx \<leftarrow> print_segment ''text'' (fst (text_section se)) (snd (text_section se)) 0 tx;
     tx \<leftarrow> print_segment ''rodata'' (fst (rodata_section se)) (snd (rodata_section se)) 0 tx;
     tx \<leftarrow> print_segment ''data'' (fst (data_section se)) (snd (data_section se)) (data_load_start se) tx;
     tx \<leftarrow> print_segment ''bss'' (fst (bss_section se)) (snd (bss_section se)) 0 tx;
     tx \<leftarrow> print_segment ''(free)'' (bounce_below_addr l) (top - bounce_below_addr l) 0 tx;
     tx \<leftarrow> print_segment ''heap'' (heap_base l) (heap_size l) 0 tx;
     print_segment ''stack'' (stack_base l) (stack_size l) 0 tx }"

definition print_ram_installed :: "sections \<Rightarrow> layout \<Rightarrow> u8 list \<Rightarrow> u8 list option" where
  "print_ram_installed se l tx = do {
     let (n, u) = report_ram_installed (ram_size l);
     tx \<leftarrow> put_printf (''RAM installed: %ld %cB'' @ newline) [VInt n, VInt (unit_char u)] tx;
     report_memory_layout se l tx }"

definition do_meminfo :: "sections \<Rightarrow> layout \<Rightarrow> heap \<Rightarrow> u8 list \<Rightarrow> u8 list option" where
  "do_meminfo se l h tx = do {
     tx \<leftarrow> report_memory_layout se l tx;
     tx \<leftarrow> put_printf (''internal heap (tinyalloc):'' @ newline @ ''fresh blocks: %ld'' @ newline @ ''free blocks: %ld'' @ newline @
         ''used blocks: %ld'' @ newline @ ''alloc bytes: %ld'' @ newline)
       [VInt (ta_num_fresh h), VInt (ta_num_free h), VInt (ta_num_used h), VInt (ta_bytes_used h)] tx;
     put_printf (''ta_check %s'' @ newline) [VStr (ascii (if ta_check h then ''ok'' else ''FAILED''))] tx }"

section \<open>The time\<close>

definition print_time :: "rtc_time_t \<Rightarrow> u8 list \<Rightarrow> u8 list option" where
  "print_time t tx = put_printf (''%04d-%02d-%02d %02d:%02d:%02d'' @ newline)
     [VInt (ucast (year t)), VInt (ucast (month t)), VInt (ucast (day t)), VInt (ucast (hour t)), VInt (ucast (minute t)), VInt (ucast (second t))] tx"

definition report_current_time :: "ds1302 \<Rightarrow> u8 list \<Rightarrow> (u8 list \<times> ds1302) option" where
  "report_current_time s tx = do {
     (t, s) \<leftarrow> rtc_read_clock s;
     tx \<leftarrow> print_time t tx;
     Some (tx, s) }"

definition do_date :: "ds1302 \<Rightarrow> (u8 list \<times> ds1302) option" where
  "do_date s = report_current_time s []"

section \<open>Exceptions\<close>

definition vector_name :: "string option list" where
  "vector_name =
     [None, None, Some ''Access fault'', Some ''Address error'', Some ''Illegal instruction'', Some ''Divide by zero'',
      Some ''CHK/CHK2'', Some ''FTRAPcc/TRAPcc/TRAPV'', Some ''Privilege violation'', Some ''Trace'',
      Some ''Unimplemented opcode A'', Some ''Unimplemented opcode F'', None, Some ''Coprocessor protocol'',
      Some ''Format error'', Some ''Uninitialised interrupt'']"

definition word_at :: "memory \<Rightarrow> u32 \<Rightarrow> u32" where
  "word_at m a = ucast (be16 (m a) (m (a + 1)))"

definition vecname :: "u32 \<Rightarrow> string" where
  "vecname vector =
     (case (if unat vector < length vector_name then vector_name ! unat vector else None) of
        Some name \<Rightarrow> name | None \<Rightarrow> ''??? RTFM!'')"

definition report_exception :: "memory \<Rightarrow> u32 \<Rightarrow> u8 list option" where
  "report_exception m sp = do {
     let vector = drop_bit 2 (word_at m (sp + 6) AND 0xFFF);
     tx \<leftarrow> put_printf (newline @ ''CPU exception!'' @ newline) [] [];
     tx \<leftarrow> put_printf (''sp=0x%08x sr=0x%04x pc=0x%04x%04x frame type 0x%x vector 0x%x (%s)'' @ newline @ ''Stack contents:'' @ newline)
       [VInt sp, VInt (word_at m sp), VInt (word_at m (sp + 2)), VInt (word_at m (sp + 4)), VInt (drop_bit 12 (word_at m (sp + 6))),
        VInt vector, VStr (ascii (vecname vector))] tx;
     map_option ((@) tx) (pretty_dump_memory m sp 256) }"

text \<open>A number padded with zeros.\<close>

lemma zero_padded:
  assumes "0 < w" "n < 16 ^ w"
  shows "field_text Pad_zeros w 0 (digit_bytes 16 n) = hexits w n"
  using hexits_digits [OF assms] by (simp add: field_text_def digit_bytes_def)

lemma hexits_append: "hexits (a + b) v = hexits a (v div 16 ^ b) @ hexits b v"
  by (induction b arbitrary: v) (simp_all add: div_mult2_eq)

lemma frame_words:
  assumes "\<forall>i<8. m (sp + of_nat i) = (bytes16 sr @ bytes32 pc @ bytes16 fv) ! i"
  shows "word_at m sp = ucast sr" "word_at m (sp + 2) = ucast (ucast (drop_bit 16 pc) :: u16)"
    "word_at m (sp + 4) = ucast (ucast pc :: u16)" "word_at m (sp + 6) = ucast fv"
proof -
  have b: "be16 (ucast (drop_bit 8 w)) (ucast w) = w" for w :: u16
    by (rule bit_word_eqI) (auto simp: be16_def bit_simps)
  have m: "m sp = ucast (drop_bit 8 sr)" "m (sp + 1) = ucast sr" "m (sp + 6) = ucast (drop_bit 8 fv)" "m (sp + 7) = ucast fv"
    using assms [rule_format, of 0] assms [rule_format, of 1] assms [rule_format, of 6] assms [rule_format, of 7]
    by (simp_all add: bytes16_def bytes32_def)
  show "word_at m sp = ucast sr" "word_at m (sp + 6) = ucast fv"
    using m b [of sr] b [of fv] by (simp_all add: word_at_def ac_simps)
  have c: "ucast (drop_bit 24 pc) = (ucast (drop_bit 8 (ucast (drop_bit 16 pc) :: u16)) :: u8)" "ucast (drop_bit 16 pc) = (ucast (ucast (drop_bit 16 pc) :: u16) :: u8)"
    "ucast (drop_bit 8 pc) = (ucast (drop_bit 8 (ucast pc :: u16)) :: u8)" "ucast pc = (ucast (ucast pc :: u16) :: u8)"
    by (rule bit_word_eqI; auto simp: bit_simps)+
  have p: "m (sp + 2) = ucast (drop_bit 24 pc)" "m (sp + 3) = ucast (drop_bit 16 pc)" "m (sp + 4) = ucast (drop_bit 8 pc)" "m (sp + 5) = ucast pc"
    using assms [rule_format, of 2] assms [rule_format, of 3] assms [rule_format, of 4] assms [rule_format, of 5]
    by (simp_all add: bytes16_def bytes32_def)
  have "word_at m (sp + 2) = ucast (be16 (m (sp + 2)) (m (sp + 3)))" "word_at m (sp + 4) = ucast (be16 (m (sp + 4)) (m (sp + 5)))"
    by (simp_all add: word_at_def ac_simps)
  then show "word_at m (sp + 2) = ucast (ucast (drop_bit 16 pc) :: u16)" "word_at m (sp + 4) = ucast (ucast pc :: u16)"
    unfolding p c b by simp_all
qed

lemma vector_decoded:
  assumes "fmt < 16" "vec < 1024"
  shows "drop_bit 12 (ucast (of_nat (4096 * fmt + 4 * vec) :: u16) :: u32) = of_nat fmt"
    "drop_bit 2 (ucast (of_nat (4096 * fmt + 4 * vec) :: u16) AND 0xFFF :: u32) = of_nat vec"
proof -
  define fv where "fv = (of_nat (4096 * fmt + 4 * vec) :: u16)"
  have fv: "unat fv = 4096 * fmt + 4 * vec" unfolding fv_def by (rule u16_unat_of_nat) (use assms in simp)
  have f: "unat (of_nat fmt :: u32) = fmt" "unat (of_nat vec :: u32) = vec" using assms by (simp_all add: u32_unat_of_nat)
  have "unat (drop_bit 12 (ucast fv :: u32)) = fmt"
    using assms(2) by (simp only: unat_drop_bit_eq unat_ucast_u16_u32 fv) (simp add: drop_bit_eq_div)
  then show "drop_bit 12 (ucast (of_nat (4096 * fmt + 4 * vec) :: u16) :: u32) = of_nat fmt"
    unfolding fv_def [symmetric] word_unat_eq_iff f .
  have a: "ucast fv AND (0xFFF :: u32) = take_bit 12 (ucast fv)" by (simp add: take_bit_eq_mask mask_eq_exp_minus_1)
  have t: "take_bit 12 n = n mod 4096" for n :: nat by (simp add: take_bit_eq_mod)
  have "unat (ucast fv AND 0xFFF :: u32) = (4096 * fmt + 4 * vec) mod 4096"
    unfolding a by (simp only: unsigned_take_bit_eq unat_ucast_u16_u32 fv t)
  also have "\<dots> = 4 * vec" unfolding mod_mult_self4 by (rule mod_less) (use assms(2) in simp)
  finally have "unat (drop_bit 2 (ucast fv AND 0xFFF :: u32)) = vec" unfolding unat_drop_bit_eq by (simp add: drop_bit_eq_div)
  then show "drop_bit 2 (ucast (of_nat (4096 * fmt + 4 * vec) :: u16) AND 0xFFF :: u32) = of_nat vec"
    unfolding fv_def [symmetric] word_unat_eq_iff f .
qed

lemma hex_word:
  "field_text Pad_zeros 8 0 (number_text 1 0x78 v) = hexits 8 (unat v)"
  "field_text Pad_zeros 4 0 (number_text 1 0x78 (ucast (u :: u16))) = hexits 4 (unat u)"
proof -
  have "unat v < 16 ^ 8" "unat u < 16 ^ 4" using u32_less [of v] u16_less [of u] by simp_all
  then show "field_text Pad_zeros 8 0 (number_text 1 0x78 v) = hexits 8 (unat v)"
    "field_text Pad_zeros 4 0 (number_text 1 0x78 (ucast (u :: u16))) = hexits 4 (unat u)"
    by (simp_all add: number_text_def zero_padded del: hexits.simps)
qed

lemma hexits_mod: "hexits w (n mod 16 ^ w) = hexits w n"
proof (induction w arbitrary: n)
  case (Suc w)
  have "n mod 16 ^ Suc w div 16 = n div 16 mod 16 ^ w" "n mod 16 ^ Suc w mod 16 = n mod 16"
    by (simp_all add: mod_mult2_eq mod_mod_cancel)
  then show ?case using Suc [of "n div 16"] by simp
qed simp

lemma program_counter: "hexits 4 (unat (ucast (drop_bit 16 pc) :: u16)) @ hexits 4 (unat (ucast pc :: u16)) = hexits 8 (unat (pc :: u32))"
proof -
  have n: "hexits 4 (n mod 65536) = hexits 4 n" for n
    using hexits_mod [of 4 n] by simp
  have "unat (ucast (drop_bit 16 pc) :: u16) = unat pc div 65536 mod 65536" "unat (ucast pc :: u16) = unat pc mod 65536"
    by (simp_all only: unsigned_ucast_eq unat_drop_bit_eq take_bit_eq_mod drop_bit_eq_div) (simp_all add: unat_div)
  then show ?thesis using hexits_append [of 4 4 "unat pc"] by (simp add: n del: hexits.simps)
qed

text \<open>What is printed of a frame, and of its vector.\<close>

definition frame_text :: "u32 \<Rightarrow> u16 \<Rightarrow> u32 \<Rightarrow> nat \<Rightarrow> nat \<Rightarrow> string \<Rightarrow> u8 list" where
  "frame_text sp sr pc fmt vec name =
     0x0A # map of_char ''CPU exception!'' @ 0x0A # map of_char ''sp=0x'' @ hexits 8 (unat sp) @ map of_char '' sr=0x'' @ hexits 4 (unat sr) @
     map of_char '' pc=0x'' @ hexits 8 (unat pc) @ map of_char '' frame type 0x'' @ digit_bytes 16 fmt @ map of_char '' vector 0x'' @
     digit_bytes 16 vec @ map of_char '' ('' @ map of_char name @ map of_char '')'' @ 0x0A # map of_char ''Stack contents:'' @ [0x0A]"

definition exception_name :: "nat \<Rightarrow> string" where
  "exception_name vec =
     (if vec = 2 then ''Access fault'' else if vec = 3 then ''Address error'' else if vec = 4 then ''Illegal instruction''
      else if vec = 5 then ''Divide by zero'' else if vec = 6 then ''CHK/CHK2'' else if vec = 7 then ''FTRAPcc/TRAPcc/TRAPV''
      else if vec = 8 then ''Privilege violation'' else if vec = 9 then ''Trace'' else if vec = 10 then ''Unimplemented opcode A''
      else if vec = 11 then ''Unimplemented opcode F'' else if vec = 13 then ''Coprocessor protocol'' else if vec = 14 then ''Format error''
      else if vec = 15 then ''Uninitialised interrupt'' else ''??? RTFM!'')"

lemma vecname_eq: "vec < 1024 \<Longrightarrow> vecname (of_nat vec) = exception_name vec"
proof -
  have "vecname (of_nat vec) = exception_name vec" if "vec < 16"
  proof -
    have "\<forall>v \<in> set [0 ..< 16]. vecname (of_nat v) = exception_name v"
      by (simp add: upt_rec vecname_def vector_name_def exception_name_def)
    then show ?thesis using that by simp
  qed
  moreover have "vecname (of_nat vec) = exception_name vec" if "16 \<le> vec" "vec < 1024"
    using that by (simp add: vecname_def vector_name_def exception_name_def u32_unat_of_nat)
  ultimately show "vec < 1024 \<Longrightarrow> ?thesis" by (cases "vec < 16") simp_all
qed

lemma exception_name_plain: "\<forall>c \<in> set (exception_name vec). of_char c \<noteq> (0 :: u8)" "length (exception_name vec) < 32"
  by (simp_all add: exception_name_def)

lemma frame_printed:
  assumes "fmt < 16" "vec < 1024"
  shows "put_printf (''sp=0x%08x sr=0x%04x pc=0x%04x%04x frame type 0x%x vector 0x%x (%s)'' @ newline @ ''Stack contents:'' @ newline)
       [VInt sp, VInt (ucast (sr :: u16)), VInt (ucast (ucast (drop_bit 16 pc) :: u16)), VInt (ucast (ucast pc :: u16)), VInt (of_nat fmt),
        VInt (of_nat vec), VStr (ascii (exception_name vec))] (crlf (0x0A # map of_char ''CPU exception!'' @ [0x0A])) =
     Some (crlf (frame_text sp sr pc fmt vec (exception_name vec)))"
proof -
  let ?hex = "\<lambda>w v. Number (if w = 0 then Pad_left else Pad_zeros) w 0 1 0x78 v"
  let ?qs = "literals ''sp=0x'' @ [?hex 8 sp] @ literals '' sr=0x'' @ [?hex 4 (ucast sr)] @ literals '' pc=0x'' @
    [?hex 4 (ucast (ucast (drop_bit 16 pc) :: u16)), ?hex 4 (ucast (ucast pc :: u16))] @ literals '' frame type 0x'' @ [?hex 0 (of_nat fmt)] @
    literals '' vector 0x'' @ [?hex 0 (of_nat vec)] @ literals '' ('' @ [Chars Pad_left 0 0 (ascii (exception_name vec))] @
    literals ('')'' @ newline @ ''Stack contents:'' @ newline)"
  have n: "number_text 1 0x78 (of_nat fmt) = digit_bytes 16 fmt" "number_text 1 0x78 (of_nat vec) = digit_bytes 16 vec"
    using assms by (simp_all add: number_text_def u32_unat_of_nat)
  have c: "cstr (ascii (exception_name vec)) = map of_char (exception_name vec)" "terminated (ascii (exception_name vec))"
    using cstr_ascii [OF exception_name_plain(1) [of vec]] by (simp_all add: ascii_def terminated_def)
  have p: "put_printf (''sp=0x%08x sr=0x%04x pc=0x%04x%04x frame type 0x%x vector 0x%x (%s)'' @ newline @ ''Stack contents:'' @ newline)
       (concat (map piece_args ?qs)) (crlf (0x0A # map of_char ''CPU exception!'' @ [0x0A])) =
     Some (crlf (0x0A # map of_char ''CPU exception!'' @ [0x0A]) @ crlf (concat (map piece_text ?qs)))"
  proof (rule print_pieces)
    show "ascii (''sp=0x%08x sr=0x%04x pc=0x%04x%04x frame type 0x%x vector 0x%x (%s)'' @ newline @ ''Stack contents:'' @ newline) =
        concat (map piece_format ?qs) @ [0]"
      by (simp add: piece_formats newline_def)
    show "\<forall>q \<in> set ?qs. piece_ok q" unfolding set_append ball_Un literals_pieces
      using c exception_name_plain(2) [of vec] by (simp add: newline_def)
  qed simp
  have args: "concat (map piece_args ?qs) = [VInt sp, VInt (ucast sr), VInt (ucast (ucast (drop_bit 16 pc) :: u16)),
      VInt (ucast (ucast pc :: u16)), VInt (of_nat fmt), VInt (of_nat vec), VStr (ascii (exception_name vec))]" by simp
  have t: "(0x0A # map of_char ''CPU exception!'' @ [0x0A]) @ concat (map piece_text ?qs) =
      frame_text sp sr pc fmt vec (exception_name vec)"
  proof -
    have pc: "hexits 4 (unat (ucast (drop_bit 16 pc) :: u16)) @ hexits 4 (unat (ucast pc :: u16)) @ r = hexits 8 (unat pc) @ r" for r
      using program_counter [of pc] by (metis append_assoc)
    have f: "field_text Pad_left 0 0 t = t" for t by (simp add: field_text_def)
    show ?thesis by (simp add: hex_word n c f pc frame_text_def newline_def del: hexits.simps One_nat_def)
  qed
  show ?thesis using p unfolding args crlf_simps(3) [symmetric] t .
qed

text \<open>C31. An exception is reported as it happened. For the frame of eight bytes that the processor pushes, with the status register,
  the program counter, the format and the offset of the vector, the report shows the address of the frame, each of these values, the
  name of the vector, and the 256 bytes from the frame on.\<close>

theorem exception_reported:
  assumes "\<forall>i<8. m (sp + of_nat i) = (bytes16 sr @ bytes32 pc @ bytes16 (of_nat (4096 * fmt + 4 * vec))) ! i" "fmt < 16" "vec < 1024"
  shows "report_exception m sp = Some (crlf (frame_text sp sr pc fmt vec (exception_name vec)) @ dump_rows m (sp AND NOT 15) (unat (sp AND 15)) 256)"
proof -
  note words = frame_words [OF assms(1)] and decoded = vector_decoded [OF assms(2,3)]
  have "put_printf (newline @ ''CPU exception!'' @ newline) [] [] = Some (crlf (0x0A # map of_char ''CPU exception!'' @ [0x0A]))"
    using print_pieces [where qs = "literals (newline @ ''CPU exception!'' @ newline)" and fmt = "newline @ ''CPU exception!'' @ newline" and args = "[]" and tx = "[]"]
    unfolding literals_pieces by (simp add: ascii_def newline_def)
  moreover have "map_option ((@) tx) (pretty_dump_memory m sp 256) = Some (tx @ dump_rows m (sp AND NOT 15) (unat (sp AND 15)) 256)" for tx
    using dump_rows_shown [of m sp 256] by simp
  ultimately show ?thesis
    unfolding report_exception_def words decoded vecname_eq [OF assms(3)] Let_def
    by (simp only: bind.bind_lunit frame_printed [OF assms(2,3)])
qed

theorem exception_reported_witness:
  "report_exception (\<lambda>a. if unat a < 8 then (bytes16 0x2700 @ bytes32 0x00041234 @ bytes16 0x0010) ! unat a else 0x4E) 0 =
     Some (crlf (frame_text 0 0x2700 0x00041234 0 4 (exception_name 4)) @
       dump_rows (\<lambda>a. if unat a < 8 then (bytes16 0x2700 @ bytes32 0x00041234 @ bytes16 0x0010) ! unat a else 0x4E) 0 0 256) \<and>
   exception_name 4 = ''Illegal instruction''"
proof -
  let ?m = "\<lambda>a :: u32. if unat a < 8 then (bytes16 0x2700 @ bytes32 0x00041234 @ bytes16 0x0010) ! unat a else 0x4E"
  have "report_exception ?m 0 = Some (crlf (frame_text 0 0x2700 0x00041234 0 4 (exception_name 4)) @
      dump_rows ?m (0 AND NOT 15) (unat (0 AND 15 :: u32)) 256)"
  proof (rule exception_reported)
    show "\<forall>i<8. ?m (0 + of_nat i) = (bytes16 0x2700 @ bytes32 0x00041234 @ bytes16 (of_nat (4096 * 0 + 4 * 4))) ! i"
      by (auto simp: u32_unat_of_nat)
  qed simp_all
  then show ?thesis by (simp add: exception_name_def)
qed

section \<open>The rows of the memory layout\<close>

definition segment_row :: "string \<Rightarrow> u32 \<Rightarrow> u32 \<Rightarrow> u32 \<Rightarrow> u8 list" where
  "segment_row name start sz load =
     (let (dec, u) = report_segment (sint sz);
          hex = (\<lambda>v. field_text Pad_left 8 0 (digit_bytes 16 (unat v))) in
      field_text Pad_left 8 0 (map of_char name) @ [0x20, 0x20] @ hex start @ [0x20, 0x20] @ hex sz @ [0x20, 0x20] @
      field_text Pad_left 3 0 (signed_digits (dec sdiv 10)) @ 0x2E # signed_digits (dec smod 10) @ [0x20, ucast (unit_char u), 0x42] @
      (if load \<noteq> 0 \<and> load \<noteq> start then map of_char ''  load from '' @ digit_bytes 16 (unat load) else []) @ [0x0A])"

lemma tenths_small:
  fixes x :: int
  assumes "\<bar>x\<bar> < 2 ^ 31"
  shows "sint (of_int (x sdiv 10) :: u32) = x sdiv 10" "sint (of_int (x smod 10) :: u32) = x smod 10"
proof -
  have "\<bar>x sdiv 10\<bar> \<le> \<bar>x\<bar>" "\<bar>x smod 10\<bar> \<le> 10"
    by (auto simp: signed_divide_int_def signed_modulo_int_def sgn_if abs_if)
  then have b: "- (2 ^ 31) \<le> x sdiv 10" "x sdiv 10 < 2 ^ 31" "- (2 ^ 31) \<le> x smod 10" "x smod 10 < 2 ^ 31" using assms by auto
  show "sint (of_int (x sdiv 10) :: u32) = x sdiv 10" "sint (of_int (x smod 10) :: u32) = x smod 10"
    using b by (simp_all add: sint_sbintrunc' signed_take_bit_int_eq_self)
qed

lemma report_segment_small: "\<bar>fst (report_segment (sint (sz :: u32)))\<bar> < 2 ^ 31"
proof -
  define x where "x = sint sz"
  have x: "- (2 ^ 31) \<le> x" "x < 2 ^ 31" using sint_greater_eq [of sz] sint_lt [of sz] by (simp_all add: x_def)
  have d: "fst (report_segment x) = (if x \<ge> 1048576 then (x div 1024 * 10 + 512) div 1024 else (x * 10 + 512) div 1024)"
    by (simp add: report_segment_def drop_bit_eq_div)
  show ?thesis unfolding x_def [symmetric] d using x by (auto simp: abs_if)
qed

lemma print_segment_row:
  assumes "\<forall>c \<in> set name. of_char c \<noteq> (0 :: u8)" "length name < 2147483648"
  shows "print_segment name start sz load tx = Some (tx @ crlf (segment_row name start sz load))"
proof -
  obtain d u where du: "report_segment (sint sz) = (d, u)" by fastforce
  note t = tenths_small [OF report_segment_small [of sz, unfolded du fst_conv]]
  let ?qs = "[Chars Pad_left 8 0 (ascii name)] @ literals ''  '' @ [Number Pad_left 8 0 1 0x78 start] @ literals ''  '' @
    [Number Pad_left 8 0 1 0x78 sz] @ literals ''  '' @ [Number Pad_left 3 0 1 0x64 (of_int (d sdiv 10))] @ literals ''.'' @
    [Number Pad_left 0 0 1 0x64 (of_int (d smod 10))] @ literals '' '' @ [Single (unit_char u)] @ literals ''B''"
  have c: "cstr (ascii name) = map of_char name" "terminated (ascii name)"
    using cstr_ascii [OF assms(1)] by (simp_all add: ascii_def terminated_def)
  have 1: "put_printf ''%8s  %8x  %8x  %3d.%d %cB'' (concat (map piece_args ?qs)) tx = Some (tx @ crlf (concat (map piece_text ?qs)))"
  proof (rule print_pieces)
    show "ascii ''%8s  %8x  %8x  %3d.%d %cB'' = concat (map piece_format ?qs) @ [0]" by (simp add: piece_formats)
    show "\<forall>q \<in> set ?qs. piece_ok q" unfolding set_append ball_Un literals_pieces using c assms(2) by simp
  qed simp
  have 2: "put_printf ''  load from %x'' [VInt load] t = Some (t @ crlf (map of_char ''  load from '' @ digit_bytes 16 (unat load)))" for t
  proof -
    let ?ls = "literals ''  load from '' @ [Number Pad_left 0 0 1 0x78 load]"
    have "put_printf ''  load from %x'' [VInt load] t = Some (t @ crlf (concat (map piece_text ?ls)))"
      by (rule print_pieces) (simp_all add: piece_formats ball_Un)
    then show ?thesis by (simp add: field_text_def number_text_def)
  qed
  have 3: "put_printf newline [] t = Some (t @ crlf [0x0A])" for t by (simp add: newline_def print_spaces)
  have args: "concat (map piece_args ?qs) = [VStr (ascii name), VInt start, VInt sz, VInt (of_int (d sdiv 10)), VInt (of_int (d smod 10)),
      VInt (unit_char u)]" by simp
  have row: "concat (map piece_text ?qs) @ (if load \<noteq> 0 \<and> load \<noteq> start then map of_char ''  load from '' @ digit_bytes 16 (unat load) else []) @ [0x0A] =
      segment_row name start sz load"
    by (simp add: segment_row_def du c number_text_def t field_text_def Let_def)
  have "print_segment name start sz load tx = put_printf newline []
      ((tx @ crlf (concat (map piece_text ?qs))) @ crlf (if load \<noteq> 0 \<and> load \<noteq> start then map of_char ''  load from '' @ digit_bytes 16 (unat load) else []))"
    unfolding print_segment_def du Let_def prod.case 1 [unfolded args] bind.bind_lunit by (simp only: 2 bind.bind_lunit crlf_simps append_Nil2 split: if_split) simp
  then show ?thesis unfolding 3 append_assoc crlf_simps(3) [symmetric] row .
qed

lemma memory_layout_printed:
  "report_memory_layout se l tx = Some (tx @ crlf (map of_char '' segment     start    length'' @ [0x0A] @
     segment_row ''text'' (fst (text_section se)) (snd (text_section se)) 0 @
     segment_row ''rodata'' (fst (rodata_section se)) (snd (rodata_section se)) 0 @
     segment_row ''data'' (fst (data_section se)) (snd (data_section se)) (data_load_start se) @
     segment_row ''bss'' (fst (bss_section se)) (snd (bss_section se)) 0 @
     segment_row ''(free)'' (bounce_below_addr l) (free_ram_top l - bounce_below_addr l) 0 @
     segment_row ''heap'' (heap_base l) (heap_size l) 0 @ segment_row ''stack'' (stack_base l) (stack_size l) 0))"
proof -
  have h: "put_printf ('' segment     start    length'' @ newline) [] tx = Some (tx @ crlf (map of_char '' segment     start    length'' @ [0x0A]))"
    using print_pieces [where qs = "literals ('' segment     start    length'' @ newline)" and args = "[]"]
    unfolding literals_pieces by (simp add: ascii_def newline_def)
  have rows: "print_segment ''text'' a b c t = Some (t @ crlf (segment_row ''text'' a b c))"
    "print_segment ''rodata'' a b c t = Some (t @ crlf (segment_row ''rodata'' a b c))"
    "print_segment ''data'' a b c t = Some (t @ crlf (segment_row ''data'' a b c))"
    "print_segment ''bss'' a b c t = Some (t @ crlf (segment_row ''bss'' a b c))"
    "print_segment ''(free)'' a b c t = Some (t @ crlf (segment_row ''(free)'' a b c))"
    "print_segment ''heap'' a b c t = Some (t @ crlf (segment_row ''heap'' a b c))"
    "print_segment ''stack'' a b c t = Some (t @ crlf (segment_row ''stack'' a b c))" for a b c t
    by (rule print_segment_row; simp)+
  show ?thesis
    unfolding report_memory_layout_def Let_def h rows bind.bind_lunit by (simp only: append_assoc crlf_simps(3) [symmetric])
qed

text \<open>The time, in decimal fields of four and two digits.\<close>

lemma time_printed:
  "print_time t tx = Some (tx @ crlf (field_text Pad_zeros 4 0 (digit_bytes 10 (unat (year t))) @ 0x2D #
     field_text Pad_zeros 2 0 (digit_bytes 10 (unat (month t))) @ 0x2D # field_text Pad_zeros 2 0 (digit_bytes 10 (unat (day t))) @ 0x20 #
     field_text Pad_zeros 2 0 (digit_bytes 10 (unat (hour t))) @ 0x3A # field_text Pad_zeros 2 0 (digit_bytes 10 (unat (minute t))) @ 0x3A #
     field_text Pad_zeros 2 0 (digit_bytes 10 (unat (second t))) @ [0x0A]))"
proof -
  let ?dec = "\<lambda>w v. Number Pad_zeros w 0 1 0x64 v"
  let ?qs = "[?dec 4 (ucast (year t))] @ literals ''-'' @ [?dec 2 (ucast (month t))] @ literals ''-'' @ [?dec 2 (ucast (day t))] @ literals '' '' @
    [?dec 2 (ucast (hour t))] @ literals '':'' @ [?dec 2 (ucast (minute t))] @ literals '':'' @ [?dec 2 (ucast (second t))] @ literals newline"
  have small: "sint (ucast (x :: u8) :: u32) = int (unat x)" "sint (ucast (y :: u16) :: u32) = int (unat y)" for x y
  proof -
    have "uint (ucast x :: u32) = uint x" "uint (ucast y :: u32) = uint y" by (simp_all add: uint_up_ucast is_up)
    moreover have "uint x < 256" "uint y < 65536" using uint_lt2p [of x] uint_lt2p [of y] by simp_all
    ultimately have "sint (ucast x :: u32) = uint x" "sint (ucast y :: u32) = uint y" using sint_u32 [of "ucast x"] sint_u32 [of "ucast y"] by simp_all
    then show "sint (ucast x :: u32) = int (unat x)" "sint (ucast y :: u32) = int (unat y)" unfolding uint_nat .
  qed
  have n: "number_text 1 0x64 (ucast (x :: u8)) = digit_bytes 10 (unat x)" "number_text 1 0x64 (ucast (y :: u16)) = digit_bytes 10 (unat y)" for x y
    by (simp_all add: number_text_def signed_digits_def small)
  have p: "put_printf (''%04d-%02d-%02d %02d:%02d:%02d'' @ newline) (concat (map piece_args ?qs)) tx = Some (tx @ crlf (concat (map piece_text ?qs)))"
    by (rule print_pieces) (simp_all add: piece_formats newline_def ball_Un)
  have args: "concat (map piece_args ?qs) = [VInt (ucast (year t)), VInt (ucast (month t)), VInt (ucast (day t)), VInt (ucast (hour t)),
    VInt (ucast (minute t)), VInt (ucast (second t))]" by simp
  show ?thesis using p unfolding print_time_def args by (simp add: n newline_def del: crlf_simps One_nat_def)
qed

end
