(* ===== verification/Ide.thy ===== *)
theory Ide
  imports Timer CString "HOL-Library.Monad_Syntax"
begin

text \<open>
  The IDE disk driver \<^verbatim>\<open>core/ide.c\<close> and its glue to the vendored FatFs, \<^verbatim>\<open>fatfs/ffglue.c\<close>. The
  registers and the sector transfers of a controller, which the target provides, the tick counter and the
  delays are the record \<open>ide_ops\<close> on the state \<open>'c\<close> of the hardware. Buffers are lists of bytes, 512 to
  a sector. \<open>None\<close> is a wait that never ends.
\<close>

definition IDE_STATUS_BUSY :: u8 where "IDE_STATUS_BUSY = 0x80"
definition IDE_STATUS_READY :: u8 where "IDE_STATUS_READY = 0x40"
definition IDE_STATUS_DATAREQUEST :: u8 where "IDE_STATUS_DATAREQUEST = 0x08"
definition IDE_STATUS_ERROR :: u8 where "IDE_STATUS_ERROR = 0x01"
definition IDE_CMD_READ_SECTOR :: u8 where "IDE_CMD_READ_SECTOR = 0x20"
definition IDE_CMD_WRITE_SECTOR :: u8 where "IDE_CMD_WRITE_SECTOR = 0x30"
definition IDE_CMD_IDENTIFY :: u8 where "IDE_CMD_IDENTIFY = 0xEC"
definition ATA_REG_NSECT :: nat where "ATA_REG_NSECT = 2"
definition ATA_REG_LBAL :: nat where "ATA_REG_LBAL = 3"
definition ATA_REG_LBAM :: nat where "ATA_REG_LBAM = 4"
definition ATA_REG_LBAH :: nat where "ATA_REG_LBAH = 5"
definition ATA_REG_DEVICE :: nat where "ATA_REG_DEVICE = 6"
definition ATA_REG_STATUS :: nat where "ATA_REG_STATUS = 7"
definition ATA_REG_CMD :: nat where "ATA_REG_CMD = 7"
definition ATA_REG_ALTSTATUS :: nat where "ATA_REG_ALTSTATUS = 0x206"
definition ATA_ID_PROD :: nat where "ATA_ID_PROD = 2 * 27"
definition ATA_ID_PROD_LEN :: nat where "ATA_ID_PROD_LEN = 40"
definition ATA_ID_LBA_CAPACITY :: nat where "ATA_ID_LBA_CAPACITY = 2 * 60"

lemmas ide_bits = IDE_STATUS_BUSY_def IDE_STATUS_READY_def IDE_STATUS_DATAREQUEST_def IDE_STATUS_ERROR_def

lemmas ide_regs = ATA_REG_NSECT_def ATA_REG_LBAL_def ATA_REG_LBAM_def ATA_REG_LBAH_def ATA_REG_DEVICE_def
  ATA_REG_STATUS_def ATA_REG_CMD_def ATA_REG_ALTSTATUS_def

record 'c ide_ops =
  ide_get_register :: "nat \<Rightarrow> nat \<Rightarrow> 'c \<Rightarrow> u8 \<times> 'c"
  ide_set_register :: "nat \<Rightarrow> nat \<Rightarrow> u8 \<Rightarrow> 'c \<Rightarrow> 'c"
  ide_transfer_sector_read :: "nat \<Rightarrow> 'c \<Rightarrow> u8 list \<times> 'c"
  ide_transfer_sector_write :: "nat \<Rightarrow> u8 list \<Rightarrow> 'c \<Rightarrow> 'c"
  gogoboot_read_timer :: "'c \<Rightarrow> u32 \<times> 'c"
  delay_ms :: "nat \<Rightarrow> 'c \<Rightarrow> 'c"

record disk_t =
  ctrl :: nat
  disk :: nat
  sectors :: u32
  fat_fs_status :: u8

record 'c ide =
  disk_table :: "disk_t list"
  mounted :: "cbytes list"
  bus :: 'c

section \<open>Waiting\<close>

partial_function (option) ide_poll ::
  "'c ide_ops \<Rightarrow> nat \<Rightarrow> u8 \<Rightarrow> u32 \<Rightarrow> 'c \<Rightarrow> (bool \<times> 'c) option" where
  "ide_poll io k bits timeout c =
     (case ide_get_register io k ATA_REG_STATUS c of (status, c) \<Rightarrow>
        if status AND (IDE_STATUS_BUSY OR IDE_STATUS_ERROR OR bits) = bits then Some (True, c)
        else if status AND (IDE_STATUS_BUSY OR IDE_STATUS_ERROR) = IDE_STATUS_ERROR \<or> status = 0 \<or> status = 0xFF
        then Some (False, c)
        else
          (case (if timeout = 0 then (case gogoboot_read_timer io c of (t, c) \<Rightarrow> (set_timer_sec t 3, c)) else (timeout, c)) of
             (timeout, c) \<Rightarrow>
               (case gogoboot_read_timer io c of (t, c) \<Rightarrow>
                  if timer_expired t timeout then Some (False, c) else ide_poll io k bits timeout c)))"

definition ide_wait_status :: "'c ide_ops \<Rightarrow> nat \<Rightarrow> u8 \<Rightarrow> 'c \<Rightarrow> (bool \<times> 'c) option" where
  "ide_wait_status io k bits c = ide_poll io k bits 0 (snd (ide_get_register io k ATA_REG_ALTSTATUS c))"

section \<open>Sectors\<close>

definition program_lba :: "'c ide_ops \<Rightarrow> disk_t \<Rightarrow> u32 \<Rightarrow> 'c \<Rightarrow> 'c" where
  "program_lba io d sector c =
     (let k = ctrl d;
          c = ide_set_register io k ATA_REG_DEVICE
            ((ucast (drop_bit 24 sector) AND 0x0F) OR (if disk d = 0 then 0xE0 else 0xF0)) c;
          c = ide_set_register io k ATA_REG_LBAH (ucast (drop_bit 16 sector)) c;
          c = ide_set_register io k ATA_REG_LBAM (ucast (drop_bit 8 sector)) c
      in ide_set_register io k ATA_REG_LBAL (ucast sector) c)"

text \<open>The inner loop: the bytes read and the data not yet written.\<close>

fun move_sectors ::
  "'c ide_ops \<Rightarrow> nat \<Rightarrow> bool \<Rightarrow> nat \<Rightarrow> u8 list \<Rightarrow> 'c \<Rightarrow> (bool \<times> u8 list \<times> u8 list \<times> 'c) option" where
  "move_sectors io k is_write 0 data c = Some (True, [], data, c)"
| "move_sectors io k is_write (Suc nsect) data c = do {
     (ok, c) \<leftarrow> ide_wait_status io k IDE_STATUS_DATAREQUEST c;
     if \<not> ok then Some (False, [], data, c)
     else if is_write then move_sectors io k is_write nsect (drop 512 data) (ide_transfer_sector_write io k (take 512 data) c)
     else
       (case ide_transfer_sector_read io k c of (bs, c) \<Rightarrow>
          map_option (\<lambda>(ok, rest, data, c). (ok, bs @ rest, data, c)) (move_sectors io k is_write nsect data c)) }"

function move_chunks ::
  "'c ide_ops \<Rightarrow> disk_t \<Rightarrow> bool \<Rightarrow> u32 \<Rightarrow> nat \<Rightarrow> u8 list \<Rightarrow> 'c \<Rightarrow> (bool \<times> u8 list \<times> 'c) option" where
  "move_chunks io d is_write sector sector_count data c =
     (if sector_count > 0 then
        (let nsect = (if sector_count \<ge> 256 then 256 else sector_count);
             c = ide_set_register io (ctrl d) ATA_REG_NSECT (if nsect = 256 then 0 else of_nat nsect) (program_lba io d sector c)
         in do {
           (ok, c) \<leftarrow> ide_wait_status io (ctrl d) IDE_STATUS_READY c;
           if \<not> ok then Some (False, [], c)
           else do {
             let c = ide_set_register io (ctrl d) ATA_REG_CMD (if is_write then IDE_CMD_WRITE_SECTOR else IDE_CMD_READ_SECTOR) c;
             (ok, got, data, c) \<leftarrow> move_sectors io (ctrl d) is_write nsect data c;
             if \<not> ok then Some (False, got, c)
             else do {
               (ok, c) \<leftarrow> (if is_write then ide_wait_status io (ctrl d) IDE_STATUS_READY c else Some (True, c));
               if \<not> ok then Some (False, got, c)
               else map_option (\<lambda>(ok, rest, c). (ok, got @ rest, c))
                 (move_chunks io d is_write (sector + of_nat nsect) (sector_count - nsect) data c) } } })
      else Some (True, [], c))"
  by pat_completeness auto
termination
  by (relation "measure (\<lambda>(io, d, is_write, sector, sector_count, data, c). sector_count)") auto

declare move_chunks.simps [simp del]

text \<open>The result is the success and the bytes read. A count that is not positive moves nothing.\<close>

definition disk_data_readwrite ::
  "'c ide_ops \<Rightarrow> int \<Rightarrow> u32 \<Rightarrow> int \<Rightarrow> bool \<Rightarrow> u8 list \<Rightarrow> 'c ide \<Rightarrow> (bool \<times> u8 list \<times> 'c ide) option" where
  "disk_data_readwrite io disknr sector sector_count is_write data s =
     (if disknr < 0 \<or> disknr \<ge> int (length (disk_table s)) then Some (False, [], s)
      else map_option (\<lambda>(ok, got, c). (ok, got, s\<lparr>bus := c\<rparr>))
        (move_chunks io (disk_table s ! nat disknr) is_write sector (nat sector_count) data (bus s)))"

definition disk_data_read :: "'c ide_ops \<Rightarrow> int \<Rightarrow> u32 \<Rightarrow> int \<Rightarrow> 'c ide \<Rightarrow> (bool \<times> u8 list \<times> 'c ide) option" where
  "disk_data_read io disknr sector sector_count s = disk_data_readwrite io disknr sector sector_count False [] s"

definition disk_data_write :: "'c ide_ops \<Rightarrow> int \<Rightarrow> u8 list \<Rightarrow> u32 \<Rightarrow> int \<Rightarrow> 'c ide \<Rightarrow> (bool \<times> 'c ide) option" where
  "disk_data_write io disknr data sector sector_count s =
     map_option (\<lambda>(ok, _, s). (ok, s)) (disk_data_readwrite io disknr sector sector_count True data s)"

section \<open>Finding the disks\<close>

text \<open>The characters of the name are swapped in pairs; trailing blanks are removed.\<close>

fun read_name :: "u8 list \<Rightarrow> nat \<Rightarrow> nat \<Rightarrow> cbytes" where
  "read_name ident offset 0 = [0]"
| "read_name ident offset (Suc rem) = ident ! (offset + 1) # ident ! offset # read_name ident (offset + 2) (rem - 1)"

definition disk_data_read_name :: "u8 list \<Rightarrow> nat \<Rightarrow> nat \<Rightarrow> cbytes" where
  "disk_data_read_name ident offset len =
     rev (dropWhile (\<lambda>c. c = 0x20) (rev (takeWhile (\<lambda>c. c \<noteq> 0) (read_name ident offset len)))) @ [0]"

datatype probe = Bad_disk | No_disk | Not_responding | No_lba | Found cbytes u32 bool

definition MAX_IDE_DISKS :: nat where "MAX_IDE_DISKS = 4"

definition STA_NOINIT :: u8 where "STA_NOINIT = 1"
definition STA_NODISK :: u8 where "STA_NODISK = 2"
definition STA_PROTECT :: u8 where "STA_PROTECT = 4"

text \<open>The flag of a found disk says that it got a place in the table and a volume.\<close>

definition add_disk :: "nat \<Rightarrow> nat \<Rightarrow> u32 \<Rightarrow> 'c ide \<Rightarrow> bool \<times> 'c ide" where
  "add_disk k drivenr n s =
     (if length (disk_table s) \<ge> MAX_IDE_DISKS then (False, s)
      else (True, s\<lparr>disk_table := disk_table s @ [\<lparr>ctrl = k, disk = drivenr, sectors = n, fat_fs_status = STA_NOINIT\<rparr>],
        mounted := mounted s @ [[0x30 + of_nat (length (disk_table s)), 0x3A, 0]]\<rparr>))"

definition disk_init_disk :: "'c ide_ops \<Rightarrow> nat \<Rightarrow> nat \<Rightarrow> 'c ide \<Rightarrow> (probe \<times> 'c ide) option" where
  "disk_init_disk io k drivenr s =
     (if drivenr > 1 then Some (Bad_disk, s)
      else do {
        (ok, c) \<leftarrow> ide_wait_status io k IDE_STATUS_READY
          (ide_set_register io k ATA_REG_DEVICE (if drivenr = 0 then 0xE0 else 0xF0) (bus s));
        if \<not> ok then Some (No_disk, s\<lparr>bus := c\<rparr>)
        else do {
          (ok, c) \<leftarrow> ide_wait_status io k IDE_STATUS_DATAREQUEST (ide_set_register io k ATA_REG_CMD IDE_CMD_IDENTIFY c);
          if \<not> ok then Some (Not_responding, s\<lparr>bus := c\<rparr>)
          else
            (case ide_transfer_sector_read io k c of (buffer, c) \<Rightarrow>
               if buffer ! 99 AND 0x02 = 0 then Some (No_lba, s\<lparr>bus := c\<rparr>)
               else
                 (let n = be32 (buffer ! (ATA_ID_LBA_CAPACITY + 3)) (buffer ! (ATA_ID_LBA_CAPACITY + 2))
                        (buffer ! (ATA_ID_LBA_CAPACITY + 1)) (buffer ! ATA_ID_LBA_CAPACITY);
                      prod = disk_data_read_name buffer ATA_ID_PROD ATA_ID_PROD_LEN
                  in case add_disk k drivenr n (s\<lparr>bus := c\<rparr>) of (added, s) \<Rightarrow> Some (Found prod n added, s))) } })"

definition disk_controller_startup :: "'c ide_ops \<Rightarrow> nat \<Rightarrow> 'c ide \<Rightarrow> (probe list \<times> 'c ide) option" where
  "disk_controller_startup io k s = do {
     let c = ide_set_register io k ATA_REG_DEVICE 0xE0 (bus s);
     let c = delay_ms io 50 (ide_set_register io k ATA_REG_ALTSTATUS 0x06 c);
     let c = delay_ms io 200 (ide_set_register io k ATA_REG_ALTSTATUS 0x02 c);
     (p0, s) \<leftarrow> disk_init_disk io k 0 (s\<lparr>bus := c\<rparr>);
     (p1, s) \<leftarrow> disk_init_disk io k 1 s;
     Some ([p0, p1], s) }"

definition disk_get_count :: "'c ide \<Rightarrow> int" where "disk_get_count s = int (length (disk_table s))"

definition disk_get_info :: "int \<Rightarrow> 'c ide \<Rightarrow> disk_t option" where
  "disk_get_info nr s = (if nr < 0 \<or> nr \<ge> disk_get_count s then None else Some (disk_table s ! nat nr))"

section \<open>The glue to FatFs\<close>

datatype dresult = RES_OK | RES_ERROR | RES_WRPRT | RES_NOTRDY | RES_PARERR

definition disk_status :: "u8 \<Rightarrow> 'c ide \<Rightarrow> u8" where
  "disk_status pdrv s = (case disk_get_info (uint pdrv) s of None \<Rightarrow> STA_NOINIT | Some d \<Rightarrow> fat_fs_status d)"

definition disk_initialize :: "u8 \<Rightarrow> 'c ide \<Rightarrow> u8 \<times> 'c ide" where
  "disk_initialize pdrv s =
     (case disk_get_info (uint pdrv) s of
        None \<Rightarrow> (STA_NOINIT, s)
      | Some d \<Rightarrow> (0, s\<lparr>disk_table := (disk_table s)[nat (uint pdrv) := d\<lparr>fat_fs_status := 0\<rparr>]\<rparr>))"

definition disk_read :: "'c ide_ops \<Rightarrow> u8 \<Rightarrow> u32 \<Rightarrow> u32 \<Rightarrow> 'c ide \<Rightarrow> (dresult \<times> u8 list \<times> 'c ide) option" where
  "disk_read io pdrv sector cnt s =
     (case disk_get_info (uint pdrv) s of
        None \<Rightarrow> Some (RES_PARERR, [], s)
      | Some d \<Rightarrow>
          if fat_fs_status d AND (STA_NOINIT OR STA_NODISK) \<noteq> 0 then Some (RES_NOTRDY, [], s)
          else map_option (\<lambda>(ok, bs, s). (if ok then RES_OK else RES_ERROR, bs, s))
            (disk_data_read io (uint pdrv) sector (sint cnt) s))"

definition disk_write :: "'c ide_ops \<Rightarrow> u8 \<Rightarrow> u8 list \<Rightarrow> u32 \<Rightarrow> u32 \<Rightarrow> 'c ide \<Rightarrow> (dresult \<times> 'c ide) option" where
  "disk_write io pdrv data sector cnt s =
     (case disk_get_info (uint pdrv) s of
        None \<Rightarrow> Some (RES_PARERR, s)
      | Some d \<Rightarrow>
          if fat_fs_status d AND (STA_NOINIT OR STA_NODISK) \<noteq> 0 then Some (RES_NOTRDY, s)
          else if fat_fs_status d AND STA_PROTECT \<noteq> 0 then Some (RES_WRPRT, s)
          else map_option (\<lambda>(ok, s). (if ok then RES_OK else RES_ERROR, s))
            (disk_data_write io (uint pdrv) data sector (sint cnt) s))"

text \<open>The commands are \<open>CTRL_SYNC\<close> 0, \<open>GET_SECTOR_COUNT\<close> 1, \<open>GET_SECTOR_SIZE\<close> 2 and \<open>CTRL_TRIM\<close> 4; the second
  component is what is stored in the caller's buffer.\<close>

definition disk_ioctl :: "u8 \<Rightarrow> u8 \<Rightarrow> 'c ide \<Rightarrow> dresult \<times> u32 option" where
  "disk_ioctl pdrv cmd s =
     (case disk_get_info (uint pdrv) s of
        None \<Rightarrow> (RES_PARERR, None)
      | Some d \<Rightarrow>
          if fat_fs_status d AND (STA_NOINIT OR STA_NODISK) \<noteq> 0 then (RES_NOTRDY, None)
          else if cmd = 0 \<or> cmd = 4 then (RES_OK, None)
          else if cmd = 2 then (RES_OK, Some 512)
          else if cmd = 1 then (RES_OK, Some (sectors d))
          else (RES_PARERR, None))"

end
