(* ===== verification/Ide_Drive.thy ===== *)
theory Ide_Drive
  imports Ide
begin

text \<open>
  The driver of theory \<open>Ide\<close> on a drive that behaves as the ATA standard says: reading yields the sectors of
  the medium, writing changes exactly them. The drive is any hardware whose states are related by \<open>R\<close> to the
  record \<open>drive\<close>, with the registers of the task file, the medium of both units, and the transfer under way.
\<close>

datatype transfer = Idle | Reading nat nat nat | Writing nat nat nat

record drive =
  regs :: "nat \<Rightarrow> u8"
  medium :: "nat \<Rightarrow> nat \<Rightarrow> u8 list"
  todo :: transfer

text \<open>What the task file selects: the unit, the sector by its logical block address, and the count.\<close>

definition sel_unit :: "(nat \<Rightarrow> u8) \<Rightarrow> nat" where
  "sel_unit r = (if r ATA_REG_DEVICE AND 0x10 = 0 then 0 else 1)"

definition sel_lba :: "(nat \<Rightarrow> u8) \<Rightarrow> nat" where
  "sel_lba r = unat (r ATA_REG_LBAL) + 256 * unat (r ATA_REG_LBAM) + 65536 * unat (r ATA_REG_LBAH) +
     16777216 * unat (r ATA_REG_DEVICE AND 0x0F)"

definition sel_count :: "(nat \<Rightarrow> u8) \<Rightarrow> nat" where
  "sel_count r = (if r ATA_REG_NSECT = 0 then 256 else unat (r ATA_REG_NSECT))"

definition next_todo :: "(nat \<Rightarrow> nat \<Rightarrow> nat \<Rightarrow> transfer) \<Rightarrow> nat \<Rightarrow> nat \<Rightarrow> nat \<Rightarrow> transfer" where
  "next_todo t u l n = (if n = 0 then Idle else t u (l + 1) n)"

text \<open>The drive and the clock. \<open>ticks\<close> is the unwrapped tick counter, \<open>ready\<close> the tick at which the drive will be
  ready, at most 500 ticks away (the driver waits for 600), and \<open>polls\<close> bounds how often it can be asked until
  then; an access takes less than two ticks.\<close>

definition same_drive ::
  "('c \<Rightarrow> drive \<Rightarrow> bool) \<Rightarrow> ('c \<Rightarrow> nat) \<Rightarrow> ('c \<Rightarrow> nat) \<Rightarrow> drive \<Rightarrow> 'c \<Rightarrow> 'c \<Rightarrow> bool" where
  "same_drive R ticks ready d c c' \<longleftrightarrow> R c' d \<and> ready c' = ready c \<and> ticks c \<le> ticks c' \<and> ticks c' \<le> ticks c + 1"

definition ata_registers :: "'c ide_ops \<Rightarrow> nat \<Rightarrow> ('c \<Rightarrow> drive \<Rightarrow> bool) \<Rightarrow> bool" where
  "ata_registers io k R \<longleftrightarrow> (\<forall>c d. R c d \<and> todo d = Idle \<longrightarrow>
     (\<forall>r v. r \<in> {2 .. 6} \<longrightarrow> R (ide_set_register io k r v c) (d\<lparr>regs := (regs d)(r := v)\<rparr>)) \<and>
     R (ide_set_register io k ATA_REG_CMD IDE_CMD_READ_SECTOR c)
       (d\<lparr>todo := Reading (sel_unit (regs d)) (sel_lba (regs d)) (sel_count (regs d))\<rparr>) \<and>
     R (ide_set_register io k ATA_REG_CMD IDE_CMD_WRITE_SECTOR c)
       (d\<lparr>todo := Writing (sel_unit (regs d)) (sel_lba (regs d)) (sel_count (regs d))\<rparr>))"

definition ata_data :: "'c ide_ops \<Rightarrow> nat \<Rightarrow> ('c \<Rightarrow> drive \<Rightarrow> bool) \<Rightarrow> bool" where
  "ata_data io k R \<longleftrightarrow> (\<forall>c d. R c d \<longrightarrow>
     (\<forall>u l n. todo d = Reading u l (Suc n) \<longrightarrow> (\<exists>c'. ide_transfer_sector_read io k c = (medium d u l, c') \<and>
        R c' (d\<lparr>todo := next_todo Reading u l n\<rparr>))) \<and>
     (\<forall>u l n bs. todo d = Writing u l (Suc n) \<and> length bs = 512 \<longrightarrow>
        R (ide_transfer_sector_write io k bs c)
          (d\<lparr>medium := (medium d)(u := (medium d u)(l := bs)), todo := next_todo Writing u l n\<rparr>)))"

definition ata_status ::
  "'c ide_ops \<Rightarrow> nat \<Rightarrow> ('c \<Rightarrow> drive \<Rightarrow> bool) \<Rightarrow> ('c \<Rightarrow> nat) \<Rightarrow> ('c \<Rightarrow> nat) \<Rightarrow> ('c \<Rightarrow> nat) \<Rightarrow> bool" where
  "ata_status io k R ticks ready polls \<longleftrightarrow> (\<forall>c d. R c d \<longrightarrow>
     ready c \<le> ticks c + 500 \<and>
     R (snd (ide_get_register io k ATA_REG_ALTSTATUS c)) d \<and>
     (\<exists>st c'. ide_get_register io k ATA_REG_STATUS c = (st, c') \<and> same_drive R ticks ready d c c' \<and>
        (if ticks c < ready c then st AND IDE_STATUS_BUSY \<noteq> 0 \<and> st \<noteq> 0xFF \<and> polls c' < polls c
         else st = (if todo d = Idle then 0x50 else 0x58))) \<and>
     (\<exists>c'. gogoboot_read_timer io c = (of_nat (ticks c), c') \<and> same_drive R ticks ready d c c' \<and> polls c' \<le> polls c))"

definition ata ::
  "'c ide_ops \<Rightarrow> nat \<Rightarrow> ('c \<Rightarrow> drive \<Rightarrow> bool) \<Rightarrow> ('c \<Rightarrow> nat) \<Rightarrow> ('c \<Rightarrow> nat) \<Rightarrow> ('c \<Rightarrow> nat) \<Rightarrow> bool" where
  "ata io k R ticks ready polls \<longleftrightarrow> ata_registers io k R \<and> ata_data io k R \<and> ata_status io k R ticks ready polls"

section \<open>Waiting for the drive\<close>

definition wanted :: "drive \<Rightarrow> u8 \<Rightarrow> bool" where
  "wanted d bits \<longleftrightarrow> bits = IDE_STATUS_READY \<or> bits = IDE_STATUS_DATAREQUEST \<and> todo d \<noteq> Idle"

lemma busy_bits: "st AND IDE_STATUS_BUSY \<noteq> 0 \<Longrightarrow> wanted d bits \<Longrightarrow>
    st AND (IDE_STATUS_BUSY OR IDE_STATUS_ERROR OR bits) \<noteq> bits \<and>
    st AND (IDE_STATUS_BUSY OR IDE_STATUS_ERROR) \<noteq> IDE_STATUS_ERROR \<and> st \<noteq> 0"
proof -
  assume b: "st AND IDE_STATUS_BUSY \<noteq> 0" and w: "wanted d bits"
  have seven: "bit st 7"
    using b and_exp_eq_0_iff_not_bit [of st 7] by (simp add: IDE_STATUS_BUSY_def)
  have n: "bit (0x80 :: u8) 7" "\<not> bit (1 :: u8) 7" "\<not> bit (0x40 :: u8) 7" "\<not> bit (8 :: u8) 7" by (simp_all add: bit_numeral_rec)
  have "bit (st AND (IDE_STATUS_BUSY OR IDE_STATUS_ERROR OR bits)) 7" "bit (st AND (IDE_STATUS_BUSY OR IDE_STATUS_ERROR)) 7"
    using seven n by (simp_all add: bit_and_iff bit_or_iff ide_bits)
  moreover have "\<not> bit bits 7" "\<not> bit IDE_STATUS_ERROR 7" "\<not> bit (0 :: u8) 7"
    using w n by (auto simp: wanted_def ide_bits)
  ultimately show ?thesis using seven by metis
qed

lemma ready_bits: "wanted d bits \<Longrightarrow>
    (if todo d = Idle then 0x50 else 0x58) AND (IDE_STATUS_BUSY OR IDE_STATUS_ERROR OR bits) = bits"
  by (auto simp: wanted_def ide_bits)

text \<open>Three seconds are not over within 600 ticks.\<close>

lemma three_seconds: "m \<le> n \<Longrightarrow> n \<le> m + 600 \<Longrightarrow> \<not> timer_expired (of_nat n) (set_timer_sec (of_nat m) 3)"
proof -
  assume n: "m \<le> n" "n \<le> m + 600"
  define e where "e = n - m"
  have e: "n = m + e" "e \<le> 600" using n by (simp_all add: e_def)
  have u: "unat (of_nat e :: u32) = e" using e(2) by (simp add: unat_of_nat)
  have "timer_expired (of_nat m + of_nat e) (set_timer_ticks (of_nat m) 600) \<longleftrightarrow> e > 600"
    using expiry [of "of_nat e" "of_nat m" 600] u e(2) by simp
  then show ?thesis using e by (simp add: set_timer_sec_def set_timer_ms_def TIMER_MS_PER_TICK_def)
qed

lemma poll_succeeds:
  assumes ata: "ata_status io k R ticks ready polls" and w: "wanted d bits"
  shows "R c d \<Longrightarrow> timeout = 0 \<or> (\<exists>m. timeout = set_timer_sec (of_nat m) 3 \<and> m \<le> ticks c \<and> ready c \<le> m + 500) \<Longrightarrow>
    \<exists>c'. ide_poll io k bits timeout c = Some (True, c') \<and> R c' d"
proof (induction "polls c" arbitrary: c timeout rule: less_induct)
  case less
  obtain st c1 where st: "ide_get_register io k ATA_REG_STATUS c = (st, c1)" "same_drive R ticks ready d c c1"
    "if ticks c < ready c then st AND IDE_STATUS_BUSY \<noteq> 0 \<and> st \<noteq> 0xFF \<and> polls c1 < polls c
     else st = (if todo d = Idle then 0x50 else 0x58)"
    using ata less.prems(1) unfolding ata_status_def by blast
  show ?case
  proof (cases "ticks c < ready c")
    case False
    then have "st AND (IDE_STATUS_BUSY OR IDE_STATUS_ERROR OR bits) = bits" using st(3) ready_bits [OF w] by simp
    then show ?thesis using st(1,2) by (subst ide_poll.simps) (simp add: same_drive_def)
  next
    case True
    then have busy: "st AND IDE_STATUS_BUSY \<noteq> 0" "st \<noteq> 0xFF" "polls c1 < polls c" using st(3) by simp_all
    have R1: "R c1 d" "ready c1 = ready c" "ticks c \<le> ticks c1" "ticks c1 \<le> ticks c + 1"
      using st(2) by (simp_all add: same_drive_def)
    have timer: "\<exists>c'. gogoboot_read_timer io c = (of_nat (ticks c), c') \<and> same_drive R ticks ready d c c' \<and> polls c' \<le> polls c"
      if "R c d" for c using ata that unfolding ata_status_def by blast
    obtain c2 where t1: "gogoboot_read_timer io c1 = (of_nat (ticks c1), c2)" "same_drive R ticks ready d c1 c2" "polls c2 \<le> polls c1"
      using timer [OF R1(1)] by blast
    obtain m c3 where c3: "(if timeout = 0 then (case gogoboot_read_timer io c1 of (t, c) \<Rightarrow> (set_timer_sec t 3, c)) else (timeout, c1)) =
        (set_timer_sec (of_nat m) 3, c3)" "R c3 d" "ready c3 = ready c" "polls c3 < polls c" "m \<le> ticks c3"
        "ticks c3 \<le> ticks c + 2" "ready c \<le> m + 500"
    proof (cases "timeout = 0")
      case True
      have "ready c1 \<le> ticks c1 + 500" using ata R1(1) unfolding ata_status_def by blast
      then show ?thesis using that [of "ticks c1" c2] True t1 R1 busy(3) by (simp add: same_drive_def)
    next
      case False
      then show ?thesis using that [of _ c1] less.prems(2) R1 busy(3) by fastforce
    qed
    obtain c4 where c4: "gogoboot_read_timer io c3 = (of_nat (ticks c3), c4)" "same_drive R ticks ready d c3 c4" "polls c4 \<le> polls c3"
      using timer [OF c3(2)] by blast
    have "\<not> timer_expired (of_nat (ticks c3)) (set_timer_sec (of_nat m) 3)"
      by (rule three_seconds) (use c3(5-7) True in simp_all)
    then have "ide_poll io k bits timeout c = ide_poll io k bits (set_timer_sec (of_nat m) 3) c4"
      using busy_bits [OF busy(1) w] busy(2) by (subst ide_poll.simps) (simp add: st(1) c3(1) c4(1))
    moreover have "\<exists>c'. ide_poll io k bits (set_timer_sec (of_nat m) 3) c4 = Some (True, c') \<and> R c' d"
    proof (rule less.hyps)
      show "polls c4 < polls c" using c3(4) c4(3) by simp
      show "R c4 d" using c4(2) by (simp add: same_drive_def)
      show "set_timer_sec (of_nat m) 3 = 0 \<or>
        (\<exists>n. set_timer_sec (of_nat m) 3 = set_timer_sec (of_nat n) 3 \<and> n \<le> ticks c4 \<and> ready c4 \<le> n + 500)"
        using c4(2) c3(3,5,7) by (intro disjI2 exI [of _ m]) (simp add: same_drive_def)
    qed
    ultimately show ?thesis by simp
  qed
qed

lemma wait_succeeds:
  assumes "ata io k R ticks ready polls" "wanted d bits" "R c d"
  shows "\<exists>c'. ide_wait_status io k bits c = Some (True, c') \<and> R c' d"
proof -
  have s: "ata_status io k R ticks ready polls" using assms(1) by (simp add: ata_def)
  have "R (snd (ide_get_register io k ATA_REG_ALTSTATUS c)) d" using s assms(3) unfolding ata_status_def by blast
  from poll_succeeds [OF s assms(2) this, of 0] show ?thesis by (simp add: ide_wait_status_def)
qed

section \<open>Programming the address\<close>

lemma nibble: "((x AND 0x0F) OR h) AND 0x0F = x AND 0x0F" if "h AND 0x0F = 0" for x h :: u8
proof -
  have "((x AND 0x0F) OR h) AND 0x0F = (x AND 0x0F AND 0x0F) OR (h AND 0x0F)"
    by (simp only: bit.conj_disj_distrib2 and.assoc)
  then show ?thesis using that by (simp add: and.assoc)
qed

lemma unit_bit: "((x AND 0x0F) OR h) AND 0x10 = h AND 0x10" for x h :: u8
proof -
  have "((x AND 0x0F) OR h) AND 0x10 = (x AND (0x0F AND 0x10)) OR (h AND 0x10)"
    by (simp only: bit.conj_disj_distrib2 and.assoc)
  then show ?thesis by simp
qed

lemma byte_of: "unat (ucast (drop_bit j x) :: u8) = unat x div 2 ^ j mod 256" for x :: u32
  using drop_bit_eq_div [of j "unat x"] by (simp add: unsigned_ucast_eq take_bit_eq_mod unat_drop_bit_eq)

lemma low_nibble: "unat (x AND 0x0F) = unat x mod 16" for x :: u8
proof -
  have "x AND 0x0F = take_bit 4 x" by (simp add: take_bit_eq_mask mask_eq_exp_minus_1)
  then show ?thesis using take_bit_eq_mod [of 4 "unat x"] by (simp only: unsigned_take_bit_eq) simp
qed

definition unit_of :: "disk_t \<Rightarrow> nat" where "unit_of dk = (if disk dk = 0 then 0 else 1)"

definition lba_regs :: "disk_t \<Rightarrow> u32 \<Rightarrow> (nat \<Rightarrow> u8) \<Rightarrow> nat \<Rightarrow> u8" where
  "lba_regs dk sector r = r(
     ATA_REG_DEVICE := (ucast (drop_bit 24 sector) AND 0x0F) OR (if disk dk = 0 then 0xE0 else 0xF0),
     ATA_REG_LBAH := ucast (drop_bit 16 sector), ATA_REG_LBAM := ucast (drop_bit 8 sector), ATA_REG_LBAL := ucast sector)"

lemma lba_regs_select:
  assumes "unat sector < 2 ^ 28"
  shows "sel_lba (lba_regs dk sector r) = unat sector" "sel_unit (lba_regs dk sector r) = unit_of dk"
proof -
  let ?n = "unat sector"
  have dev: "lba_regs dk sector r ATA_REG_DEVICE AND 0x0F = ucast (drop_bit 24 sector) AND 0x0F"
    by (simp add: lba_regs_def ide_regs nibble)
  have "sel_lba (lba_regs dk sector r) =
      ?n mod 256 + 256 * (?n div 256 mod 256) + 65536 * (?n div 65536 mod 256) + 16777216 * (?n div 16777216 mod 256 mod 16)"
    unfolding sel_lba_def dev low_nibble byte_of
    using byte_of [of 0 sector] byte_of [of 8 sector] byte_of [of 16 sector]
    by (simp add: lba_regs_def ide_regs)
  also have "\<dots> = ?n"
  proof -
    have 1: "?n div 256 div 256 = ?n div 65536" "?n div 65536 div 256 = ?n div 16777216" by (simp_all add: div_mult2_eq [symmetric])
    have 2: "?n = ?n div 256 * 256 + ?n mod 256" "?n div 256 = ?n div 256 div 256 * 256 + ?n div 256 mod 256"
      "?n div 65536 = ?n div 65536 div 256 * 256 + ?n div 65536 mod 256" by (simp_all only: div_mult_mod_eq)
    have 3: "?n div 16777216 mod 256 mod 16 = ?n div 16777216"
    proof -
      have "?n div 16777216 < 16" using assms by (simp add: less_mult_imp_div_less)
      then show ?thesis by simp
    qed
    show ?thesis using 1 2 unfolding 3 by linarith
  qed
  finally show "sel_lba (lba_regs dk sector r) = ?n" .
  show "sel_unit (lba_regs dk sector r) = unit_of dk"
    by (simp add: sel_unit_def lba_regs_def unit_of_def ide_regs unit_bit)
qed

lemma set_reg:
  "ata io k R ticks ready polls \<Longrightarrow> R c d \<Longrightarrow> todo d = Idle \<Longrightarrow> r \<in> {2 .. 6} \<Longrightarrow>
   R (ide_set_register io k r v c) (d\<lparr>regs := (regs d)(r := v)\<rparr>)"
  unfolding ata_def ata_registers_def by blast

lemma program_lba_sets:
  assumes ata: "ata io (ctrl dk) R ticks ready polls" and "R c d" "todo d = Idle"
  shows "R (program_lba io dk sector c) (d\<lparr>regs := lba_regs dk sector (regs d)\<rparr>)"
proof -
  let ?k = "ctrl dk"
  define v6 where "v6 = (ucast (drop_bit 24 sector) AND 0x0F) OR (if disk dk = 0 then 0xE0 else 0xF0 :: u8)"
  define d1 where "d1 = d\<lparr>regs := (regs d)(ATA_REG_DEVICE := v6)\<rparr>"
  define d2 where "d2 = d1\<lparr>regs := (regs d1)(ATA_REG_LBAH := ucast (drop_bit 16 sector))\<rparr>"
  define d3 where "d3 = d2\<lparr>regs := (regs d2)(ATA_REG_LBAM := ucast (drop_bit 8 sector))\<rparr>"
  define c1 where "c1 = ide_set_register io ?k ATA_REG_DEVICE v6 c"
  define c2 where "c2 = ide_set_register io ?k ATA_REG_LBAH (ucast (drop_bit 16 sector)) c1"
  define c3 where "c3 = ide_set_register io ?k ATA_REG_LBAM (ucast (drop_bit 8 sector)) c2"
  have i: "todo d1 = Idle" "todo d2 = Idle" "todo d3 = Idle" using assms(3) by (simp_all add: d1_def d2_def d3_def)
  have r: "ATA_REG_DEVICE \<in> {2 .. 6}" "ATA_REG_LBAH \<in> {2 .. 6}" "ATA_REG_LBAM \<in> {2 .. 6}" "ATA_REG_LBAL \<in> {2 .. 6}"
    by (simp_all add: ide_regs)
  have "R c1 d1" unfolding c1_def d1_def by (rule set_reg [OF ata assms(2,3) r(1)])
  then have "R c2 d2" unfolding c2_def d2_def by (rule set_reg [OF ata _ i(1) r(2)])
  then have "R c3 d3" unfolding c3_def d3_def by (rule set_reg [OF ata _ i(2) r(3)])
  then have "R (ide_set_register io ?k ATA_REG_LBAL (ucast sector) c3) (d3\<lparr>regs := (regs d3)(ATA_REG_LBAL := ucast sector)\<rparr>)"
    by (rule set_reg [OF ata _ i(3) r(4)])
  moreover have "d3\<lparr>regs := (regs d3)(ATA_REG_LBAL := ucast sector)\<rparr> = d\<lparr>regs := lba_regs dk sector (regs d)\<rparr>"
    by (simp add: d1_def d2_def d3_def lba_regs_def v6_def)
  moreover have "ide_set_register io ?k ATA_REG_LBAL (ucast sector) c3 = program_lba io dk sector c"
    by (simp add: c1_def c2_def c3_def program_lba_def v6_def Let_def)
  ultimately show ?thesis by simp
qed

section \<open>Moving sectors\<close>

definition overwrite :: "(nat \<Rightarrow> nat \<Rightarrow> u8 list) \<Rightarrow> nat \<Rightarrow> nat \<Rightarrow> nat \<Rightarrow> u8 list \<Rightarrow> nat \<Rightarrow> nat \<Rightarrow> u8 list" where
  "overwrite m u l n data = m(u := (\<lambda>s. if l \<le> s \<and> s < l + n then take 512 (drop (512 * (s - l)) data) else m u s))"

lemma overwrite_none [simp]: "overwrite m u l 0 data = m"
  by (auto simp: overwrite_def fun_eq_iff)

lemma overwrite_join:
  "overwrite (overwrite m u l n data) u (l + n) j (drop (512 * n) data) = overwrite m u l (n + j) data"
proof -
  have "drop (512 * (s - (l + n))) (drop (512 * n) data) = drop (512 * (s - l)) data" if "l + n \<le> s" for s
    using that by (simp add: algebra_simps)
  then show ?thesis by (auto simp: overwrite_def fun_eq_iff)
qed

lemma overwrite_one: "length bs = 512 \<Longrightarrow> m(u := (m u)(l := bs)) = overwrite m u l 1 bs"
  by (auto simp: overwrite_def fun_eq_iff)

lemma idle_drive:
  "todo d = Idle \<Longrightarrow> d\<lparr>todo := Idle\<rparr> = d" "todo d = Idle \<Longrightarrow> d\<lparr>medium := medium d, todo := Idle\<rparr> = d"
  "todo d = Idle \<Longrightarrow> d\<lparr>regs := r, todo := Idle\<rparr> = d\<lparr>regs := r\<rparr>"
  "todo d = Idle \<Longrightarrow> d\<lparr>regs := r, medium := m, todo := Idle\<rparr> = d\<lparr>regs := r, medium := m\<rparr>"
  by (cases d; simp)+

lemma read_sectors:
  assumes ata: "ata io k R ticks ready polls"
  shows "R c d \<Longrightarrow> todo d = (if n = 0 then Idle else Reading u l n) \<Longrightarrow>
    \<exists>c'. move_sectors io k False n data c = Some (True, concat (map (medium d u) [l ..< l + n]), data, c') \<and>
      R c' (d\<lparr>todo := Idle\<rparr>)"
proof (induction n arbitrary: c d l)
  case 0
  then show ?case by (simp add: idle_drive)
next
  case (Suc n)
  have "wanted d IDE_STATUS_DATAREQUEST" using Suc.prems(2) by (simp add: wanted_def)
  from wait_succeeds [OF ata this Suc.prems(1)] obtain c1 where
    w: "ide_wait_status io k IDE_STATUS_DATAREQUEST c = Some (True, c1)" "R c1 d" by blast
  have "todo d = Reading u l (Suc n)" using Suc.prems(2) by simp
  then obtain c2 where x: "ide_transfer_sector_read io k c1 = (medium d u l, c2)" "R c2 (d\<lparr>todo := next_todo Reading u l n\<rparr>)"
    using ata w(2) unfolding ata_def ata_data_def by blast
  from Suc.IH [OF x(2), of "l + 1"] obtain c3 where
    "move_sectors io k False n data c2 = Some (True, concat (map (medium d u) [l + 1 ..< l + 1 + n]), data, c3)"
    "R c3 (d\<lparr>todo := Idle\<rparr>)" by (auto simp: next_todo_def)
  moreover have "[l ..< l + Suc n] = l # [l + 1 ..< l + 1 + n]" by (simp add: upt_conv_Cons del: upt_Suc)
  ultimately show ?case using w x by (simp del: upt_Suc)
qed

lemma write_sectors:
  assumes ata: "ata io k R ticks ready polls"
  shows "R c d \<Longrightarrow> todo d = (if n = 0 then Idle else Writing u l n) \<Longrightarrow> 512 * n \<le> length data \<Longrightarrow>
    \<exists>c'. move_sectors io k True n data c = Some (True, [], drop (512 * n) data, c') \<and>
      R c' (d\<lparr>medium := overwrite (medium d) u l n data, todo := Idle\<rparr>)"
proof (induction n arbitrary: c d l data)
  case 0
  then show ?case by (simp add: idle_drive)
next
  case (Suc n)
  have "wanted d IDE_STATUS_DATAREQUEST" using Suc.prems(2) by (simp add: wanted_def)
  from wait_succeeds [OF ata this Suc.prems(1)] obtain c1 where
    w: "ide_wait_status io k IDE_STATUS_DATAREQUEST c = Some (True, c1)" "R c1 d" by blast
  have t: "todo d = Writing u l (Suc n)" "length (take 512 data) = 512" using Suc.prems(2,3) by simp_all
  let ?m = "overwrite (medium d) u l 1 data"
  let ?d = "d\<lparr>medium := ?m, todo := next_todo Writing u l n\<rparr>" and ?c = "ide_transfer_sector_write io k (take 512 data) c1"
  have m: "overwrite (medium d) u l 1 (take 512 data) = ?m" by (auto simp: overwrite_def fun_eq_iff)
  have "R ?c (d\<lparr>medium := (medium d)(u := (medium d u)(l := take 512 data)), todo := next_todo Writing u l n\<rparr>)"
    using ata w(2) t unfolding ata_def ata_data_def by blast
  then have "R ?c ?d" unfolding overwrite_one [OF t(2)] m .
  moreover have "todo ?d = (if n = 0 then Idle else Writing u (l + 1) n)" by (simp add: next_todo_def)
  moreover have "512 * n \<le> length (drop 512 data)" using Suc.prems(3) by simp
  ultimately have "\<exists>c'. move_sectors io k True n (drop 512 data) ?c = Some (True, [], drop (512 * n) (drop 512 data), c') \<and>
      R c' (?d\<lparr>medium := overwrite (medium ?d) u (l + 1) n (drop 512 data), todo := Idle\<rparr>)" by (rule Suc.IH)
  with w overwrite_join [of "medium d" u l 1 data n] show ?case by (auto simp: algebra_simps)
qed

section \<open>Any number of sectors\<close>

text \<open>A chunk is set up: the drive is ready to move \<open>n\<close> sectors from \<open>sector\<close> on.\<close>

lemma chunk_starts:
  assumes ata: "ata io (ctrl dk) R ticks ready polls" and c: "R c d" "todo d = Idle"
    and n: "0 < n" "n \<le> 256" "unat sector < 2 ^ 28"
  shows "\<exists>c' r. ide_wait_status io (ctrl dk) IDE_STATUS_READY
      (ide_set_register io (ctrl dk) ATA_REG_NSECT (if n = 256 then 0 else of_nat n) (program_lba io dk sector c)) = Some (True, c') \<and>
    R (ide_set_register io (ctrl dk) ATA_REG_CMD IDE_CMD_READ_SECTOR c')
      (d\<lparr>regs := r, todo := Reading (unit_of dk) (unat sector) n\<rparr>) \<and>
    R (ide_set_register io (ctrl dk) ATA_REG_CMD IDE_CMD_WRITE_SECTOR c')
      (d\<lparr>regs := r, todo := Writing (unit_of dk) (unat sector) n\<rparr>)"
proof -
  let ?v = "if n = 256 then 0 else of_nat n :: u8"
  let ?r = "(lba_regs dk sector (regs d))(ATA_REG_NSECT := ?v)"
  let ?d = "d\<lparr>regs := ?r\<rparr>"
  have "R (ide_set_register io (ctrl dk) ATA_REG_NSECT ?v (program_lba io dk sector c)) ?d"
    using set_reg [OF ata program_lba_sets [OF ata c, of sector], of ATA_REG_NSECT ?v] c(2) by (simp add: ide_regs)
  moreover have "wanted ?d IDE_STATUS_READY" by (simp add: wanted_def)
  ultimately obtain c' where w: "ide_wait_status io (ctrl dk) IDE_STATUS_READY
      (ide_set_register io (ctrl dk) ATA_REG_NSECT ?v (program_lba io dk sector c)) = Some (True, c')" "R c' ?d"
    using wait_succeeds [OF ata] by blast
  have s: "sel_lba ?r = unat sector" "sel_unit ?r = unit_of dk"
    using lba_regs_select [OF n(3), of dk "regs d"] by (simp_all add: sel_lba_def sel_unit_def ide_regs)
  have "sel_count ?r = n"
  proof (cases "n = 256")
    case False
    then have "unat (of_nat n :: u8) = n" using n by (simp add: unat_of_nat)
    then show ?thesis using False n(1) by (auto simp: sel_count_def unat_eq_zero [symmetric])
  qed (simp add: sel_count_def)
  moreover have "todo ?d = Idle" using c(2) by simp
  ultimately have "R (ide_set_register io (ctrl dk) ATA_REG_CMD IDE_CMD_READ_SECTOR c')
      (?d\<lparr>todo := Reading (unit_of dk) (unat sector) n\<rparr>)"
    "R (ide_set_register io (ctrl dk) ATA_REG_CMD IDE_CMD_WRITE_SECTOR c')
      (?d\<lparr>todo := Writing (unit_of dk) (unat sector) n\<rparr>)"
    using ata w(2) s unfolding ata_def ata_registers_def by fastforce+
  with w(1) show ?thesis by auto
qed

lemma sector_advance:
  "unat sector + sector_count \<le> 2 ^ 28 \<Longrightarrow> n \<le> sector_count \<Longrightarrow> unat (sector + of_nat n) = unat sector + n" for sector :: u32
  by (subst u32_unat_add) (simp_all add: unat_of_nat)

lemma read_chunks:
  assumes ata: "ata io (ctrl dk) R ticks ready polls"
  shows "R c d \<Longrightarrow> todo d = Idle \<Longrightarrow> unat sector + n \<le> 2 ^ 28 \<Longrightarrow>
    \<exists>c' r. move_chunks io dk False sector n data c =
        Some (True, concat (map (medium d (unit_of dk)) [unat sector ..< unat sector + n]), c') \<and> R c' (d\<lparr>regs := r\<rparr>)"
proof (induction n arbitrary: c d sector rule: less_induct)
  case (less n)
  show ?case
  proof (cases "n = 0")
    case True
    have "d\<lparr>regs := regs d\<rparr> = d" by simp
    with True less.prems(1) show ?thesis by (subst move_chunks.simps) (auto intro!: exI [of _ "regs d"])
  next
    case False
    define j where "j = (if n \<ge> 256 then 256 else n)"
    have j: "0 < j" "j \<le> 256" "j \<le> n" using False by (auto simp: j_def)
    obtain c1 r where s: "ide_wait_status io (ctrl dk) IDE_STATUS_READY
        (ide_set_register io (ctrl dk) ATA_REG_NSECT (if j = 256 then 0 else of_nat j) (program_lba io dk sector c)) = Some (True, c1)"
      "R (ide_set_register io (ctrl dk) ATA_REG_CMD IDE_CMD_READ_SECTOR c1)
        (d\<lparr>regs := r, todo := Reading (unit_of dk) (unat sector) j\<rparr>)"
      using chunk_starts [OF ata less.prems(1,2) j(1,2), of sector] less.prems(3) j(1,3) by auto
    obtain c2 where m: "move_sectors io (ctrl dk) False j data (ide_set_register io (ctrl dk) ATA_REG_CMD IDE_CMD_READ_SECTOR c1) =
        Some (True, concat (map (medium d (unit_of dk)) [unat sector ..< unat sector + j]), data, c2)"
      "R c2 (d\<lparr>regs := r\<rparr>)"
      using read_sectors [OF ata s(2), of j "unit_of dk" "unat sector" data] j(1) by (auto simp: idle_drive [OF less.prems(2)])
    have adv: "unat (sector + of_nat j) = unat sector + j" using sector_advance less.prems(3) j(3) by blast
    have "\<exists>c' r'. move_chunks io dk False (sector + of_nat j) (n - j) data c2 =
        Some (True, concat (map (medium (d\<lparr>regs := r\<rparr>) (unit_of dk))
          [unat (sector + of_nat j) ..< unat (sector + of_nat j) + (n - j)]), c') \<and> R c' (d\<lparr>regs := r\<rparr>\<lparr>regs := r'\<rparr>)"
      by (rule less.IH) (use m(2) adv j less.prems(2,3) in simp_all)
    then obtain c' r' where h: "move_chunks io dk False (sector + of_nat j) (n - j) data c2 =
        Some (True, concat (map (medium d (unit_of dk)) [unat sector + j ..< unat sector + n]), c')" "R c' (d\<lparr>regs := r'\<rparr>)"
      using adv j(3) by auto
    have "[unat sector ..< unat sector + n] = [unat sector ..< unat sector + j] @ [unat sector + j ..< unat sector + n]"
      using upt_add_eq_append [of "unat sector" "unat sector + j" "n - j"] j(3) by simp
    moreover have "move_chunks io dk False sector n data c = Some (True, concat (map (medium d (unit_of dk)) [unat sector ..< unat sector + j]) @
        concat (map (medium d (unit_of dk)) [unat sector + j ..< unat sector + n]), c')"
      using s(1) m(1) h(1) False by (subst move_chunks.simps) (simp add: j_def [symmetric] Let_def)
    ultimately show ?thesis using h(2) by auto
  qed
qed

lemma write_chunks:
  assumes ata: "ata io (ctrl dk) R ticks ready polls"
  shows "R c d \<Longrightarrow> todo d = Idle \<Longrightarrow> unat sector + n \<le> 2 ^ 28 \<Longrightarrow> length data = 512 * n \<Longrightarrow>
    \<exists>c' r. move_chunks io dk True sector n data c = Some (True, [], c') \<and>
      R c' (d\<lparr>regs := r, medium := overwrite (medium d) (unit_of dk) (unat sector) n data\<rparr>)"
proof (induction n arbitrary: c d sector data rule: less_induct)
  case (less n)
  show ?case
  proof (cases "n = 0")
    case True
    have "d\<lparr>regs := regs d, medium := medium d\<rparr> = d" by simp
    with True less.prems(1) show ?thesis by (subst move_chunks.simps) (auto intro!: exI [of _ "regs d"])
  next
    case False
    define j where "j = (if n \<ge> 256 then 256 else n)"
    have j: "0 < j" "j \<le> 256" "j \<le> n" using False by (auto simp: j_def)
    let ?m = "overwrite (medium d) (unit_of dk) (unat sector) j data"
    obtain c1 r where s: "ide_wait_status io (ctrl dk) IDE_STATUS_READY
        (ide_set_register io (ctrl dk) ATA_REG_NSECT (if j = 256 then 0 else of_nat j) (program_lba io dk sector c)) = Some (True, c1)"
      "R (ide_set_register io (ctrl dk) ATA_REG_CMD IDE_CMD_WRITE_SECTOR c1)
        (d\<lparr>regs := r, todo := Writing (unit_of dk) (unat sector) j\<rparr>)"
      using chunk_starts [OF ata less.prems(1,2) j(1,2), of sector] less.prems(3) j(1,3) by auto
    obtain c2 where m: "move_sectors io (ctrl dk) True j data (ide_set_register io (ctrl dk) ATA_REG_CMD IDE_CMD_WRITE_SECTOR c1) =
        Some (True, [], drop (512 * j) data, c2)" "R c2 (d\<lparr>regs := r, medium := ?m\<rparr>)"
      using write_sectors [OF ata s(2), of j "unit_of dk" "unat sector" data] j(1,3) less.prems(4)
      by (auto simp: idle_drive [OF less.prems(2)])
    let ?d = "d\<lparr>regs := r, medium := ?m\<rparr>"
    have "wanted ?d IDE_STATUS_READY" by (simp add: wanted_def)
    from wait_succeeds [OF ata this m(2)] obtain c3 where
      w: "ide_wait_status io (ctrl dk) IDE_STATUS_READY c2 = Some (True, c3)" "R c3 ?d" by blast
    have adv: "unat (sector + of_nat j) = unat sector + j" using sector_advance less.prems(3) j(3) by blast
    have "\<exists>c' r'. move_chunks io dk True (sector + of_nat j) (n - j) (drop (512 * j) data) c3 = Some (True, [], c') \<and>
        R c' (?d\<lparr>regs := r', medium := overwrite (medium ?d) (unit_of dk) (unat (sector + of_nat j)) (n - j) (drop (512 * j) data)\<rparr>)"
      by (rule less.IH) (use w(2) adv j less.prems(2-4) in \<open>simp_all add: right_diff_distrib'\<close>)
    moreover have "overwrite ?m (unit_of dk) (unat (sector + of_nat j)) (n - j) (drop (512 * j) data) =
        overwrite (medium d) (unit_of dk) (unat sector) n data"
      using overwrite_join [of "medium d" "unit_of dk" "unat sector" j data "n - j"] adv j(3) by simp
    ultimately obtain c' r' where h: "move_chunks io dk True (sector + of_nat j) (n - j) (drop (512 * j) data) c3 = Some (True, [], c')"
      "R c' (d\<lparr>regs := r', medium := overwrite (medium d) (unit_of dk) (unat sector) n data\<rparr>)" by auto
    have "move_chunks io dk True sector n data c = Some (True, [], c')"
      using s(1) m(1) w(1) h(1) False by (subst move_chunks.simps) (simp add: j_def [symmetric] Let_def)
    with h(2) show ?thesis by auto
  qed
qed

section \<open>Properties\<close>

text \<open>The sectors of a piece of data, one after the other, are the data.\<close>

lemma sectors_concat:
  "length data = 512 * n \<Longrightarrow> concat (map (\<lambda>s. take 512 (drop (512 * (s - l)) data)) [l ..< l + n]) = data"
proof (induction n arbitrary: l data)
  case (Suc n)
  have u: "[l ..< l + Suc n] = l # [l + 1 ..< l + 1 + n]" by (simp add: upt_conv_Cons del: upt_Suc)
  have "512 * (s - l) = 512 * (s - (l + 1)) + 512" if "s \<in> set [l + 1 ..< l + 1 + n]" for s
  proof -
    have "l + 1 \<le> s" using that unfolding set_upt by simp
    then obtain e where "s = l + 1 + e" using le_Suc_ex by blast
    then show ?thesis by simp
  qed
  then have "concat (map (\<lambda>s. take 512 (drop (512 * (s - l)) data)) [l + 1 ..< l + 1 + n]) =
      concat (map (\<lambda>s. take 512 (drop (512 * (s - (l + 1))) (drop 512 data))) [l + 1 ..< l + 1 + n])"
    by (intro arg_cong [where f = concat] map_cong) (simp_all add: add.commute)
  also have "\<dots> = drop 512 data" using Suc.prems by (intro Suc.IH) simp
  finally show ?case unfolding u by simp
qed simp

text \<open>C6. What is written to a disk is what is read from it. On hardware that behaves as an ATA drive and is never busy
  for longer than the driver waits, for any number of sectors within the 28 bits of an address: writing through
  the FatFs interface succeeds, changes exactly the sectors given, on the unit of the disk, and reading
  them afterwards succeeds and yields the data.\<close>

theorem disk_write_read:
  assumes "ata io (ctrl dk) R ticks ready polls" "disk_get_info (uint pdrv) s = Some dk" "fat_fs_status dk = 0"
    and "R (bus s) d" "todo d = Idle" "unat sector + unat n \<le> 2 ^ 28" "length data = 512 * unat n"
  shows "\<exists>t r v u. disk_write io pdrv data sector n s = Some (RES_OK, t) \<and>
    R (bus t) (d\<lparr>regs := r, medium := overwrite (medium d) (unit_of dk) (unat sector) (unat n) data\<rparr>) \<and>
    disk_read io pdrv sector n t = Some (RES_OK, data, v) \<and>
    R (bus v) (d\<lparr>regs := u, medium := overwrite (medium d) (unit_of dk) (unat sector) (unat n) data\<rparr>)"
proof -
  have dk: "dk = disk_table s ! nat (uint pdrv)" "uint pdrv < int (length (disk_table s))"
    using assms(2) by (auto simp: disk_get_info_def disk_get_count_def split: if_splits)
  have n: "nat (sint n) = unat n"
  proof -
    define m where "m = unat n"
    have m: "uint n = int m" "m < 2147483648" using assms(6) by (simp_all add: m_def)
    have "sint n = int m" using sint_u32 [of n] m by simp
    then show ?thesis by (simp add: m_def [symmetric])
  qed
  let ?m = "overwrite (medium d) (unit_of dk) (unat sector) (unat n) data"
  obtain c r where w: "move_chunks io dk True sector (unat n) data (bus s) = Some (True, [], c)"
    "R c (d\<lparr>regs := r, medium := ?m\<rparr>)" using write_chunks [OF assms(1,4-7)] by blast
  let ?t = "s\<lparr>bus := c\<rparr>" and ?d = "d\<lparr>regs := r, medium := ?m\<rparr>"
  obtain c' u where rd: "move_chunks io dk False sector (unat n) [] c =
      Some (True, concat (map (medium ?d (unit_of dk)) [unat sector ..< unat sector + unat n]), c')" "R c' (?d\<lparr>regs := u\<rparr>)"
    using read_chunks [OF assms(1) w(2) _ assms(6), of "[]"] assms(5) by auto
  have "concat (map (?m (unit_of dk)) [unat sector ..< unat sector + unat n]) =
      concat (map (\<lambda>s. take 512 (drop (512 * (s - unat sector)) data)) [unat sector ..< unat sector + unat n])"
    by (intro arg_cong [where f = concat] map_cong) (auto simp: overwrite_def)
  then have got: "concat (map (medium ?d (unit_of dk)) [unat sector ..< unat sector + unat n]) = data"
    using sectors_concat [OF assms(7)] by simp
  have "disk_write io pdrv data sector n s = Some (RES_OK, ?t)"
    using w(1) assms(2,3) dk n by (simp add: disk_write_def disk_data_write_def disk_data_readwrite_def)
  moreover have "disk_read io pdrv sector n ?t = Some (RES_OK, data, ?t\<lparr>bus := c'\<rparr>)"
    using rd(1) got assms(2,3) dk n
    by (simp add: disk_read_def disk_data_read_def disk_data_readwrite_def disk_get_info_def disk_get_count_def)
  moreover have "?d\<lparr>regs := u\<rparr> = d\<lparr>regs := u, medium := ?m\<rparr>" by (cases d) simp
  ultimately show ?thesis using w(2) rd(2) 
    by (rule_tac x = ?t in exI, rule_tac x = r in exI, rule_tac x = "?t\<lparr>bus := c'\<rparr>" in exI, rule_tac x = u in exI) (simp del: drive.update_convs)
qed

text \<open>A drive that is always ready is its own hardware.\<close>

definition fast_drive :: "drive ide_ops" where
  "fast_drive = \<lparr>
     ide_get_register = (\<lambda>k r c. (if todo c = Idle then 0x50 else 0x58, c)),
     ide_set_register = (\<lambda>k r v c.
       if r = ATA_REG_CMD then
         c\<lparr>todo := (if v = IDE_CMD_READ_SECTOR then Reading (sel_unit (regs c)) (sel_lba (regs c)) (sel_count (regs c))
           else Writing (sel_unit (regs c)) (sel_lba (regs c)) (sel_count (regs c)))\<rparr>
       else c\<lparr>regs := (regs c)(r := v)\<rparr>),
     ide_transfer_sector_read = (\<lambda>k c. case todo c of Reading u l n \<Rightarrow> (medium c u l, c\<lparr>todo := next_todo Reading u l (n - 1)\<rparr>)
       | _ \<Rightarrow> ([], c)),
     ide_transfer_sector_write = (\<lambda>k bs c. case todo c of
         Writing u l n \<Rightarrow> c\<lparr>medium := (medium c)(u := (medium c u)(l := bs)), todo := next_todo Writing u l (n - 1)\<rparr>
       | _ \<Rightarrow> c),
     gogoboot_read_timer = (\<lambda>c. (0, c)), delay_ms = (\<lambda>n c. c)\<rparr>"

lemma fast_drive_ata: "ata fast_drive k (=) (\<lambda>c. 0) (\<lambda>c. 0) (\<lambda>c. 0)"
  unfolding ata_def
proof (intro conjI)
  show "ata_registers fast_drive k (=)"
    by (auto simp: ata_registers_def fast_drive_def ide_regs IDE_CMD_READ_SECTOR_def IDE_CMD_WRITE_SECTOR_def)
  show "ata_data fast_drive k (=)" by (auto simp: ata_data_def fast_drive_def)
  show "ata_status fast_drive k (=) (\<lambda>c. 0) (\<lambda>c. 0) (\<lambda>c. 0)"
    by (auto simp: ata_status_def same_drive_def fast_drive_def)
qed

definition sample_disk :: "drive ide" where
  "sample_disk = \<lparr>disk_table = [\<lparr>ctrl = 0, disk = 1, sectors = 1000, fat_fs_status = 0\<rparr>], mounted = [],
     bus = \<lparr>regs = (\<lambda>r. 0), medium = (\<lambda>u l. replicate 512 0), todo = Idle\<rparr>\<rparr>"

theorem disk_write_read_witness:
  "\<exists>t v. disk_write fast_drive 0 (replicate (512 * 300) 7) 20 300 sample_disk = Some (RES_OK, t) \<and>
     disk_read fast_drive 0 20 300 t = Some (RES_OK, replicate (512 * 300) 7, v)"
proof -
  let ?dk = "\<lparr>ctrl = 0, disk = 1, sectors = 1000, fat_fs_status = 0\<rparr>"
  have i: "disk_get_info (uint (0 :: u8)) sample_disk = Some ?dk" "todo (bus sample_disk) = Idle"
    by (simp_all add: sample_disk_def disk_get_info_def disk_get_count_def)
  have u: "unat (300 :: u32) = 300" "unat (20 :: u32) = 20" by simp_all
  from disk_write_read [OF fast_drive_ata i(1) _ refl i(2), of 20 300 "replicate (512 * 300) 7"] show ?thesis
    unfolding u by auto
qed

end
