(* ===== verification/Ppide.thy ===== *)
theory Ppide
  imports Ide_Drive
begin

text \<open>
  The two IDE interfaces that carry theory \<open>Ide\<close>: \<^verbatim>\<open>ecb/ppide.c\<close> with the assembler of \<^verbatim>\<open>ecb/ppidexfer.s\<close>, which
  works the signals of the IDE bus by hand through an 8255, and \<^verbatim>\<open>q40/ide.c\<close>, which has the drive on its ISA bus.
  The input and output of the two busses are records of functions on the state \<open>'c\<close> of the hardware. The last
  sections give both the same drives and show that they behave alike.
\<close>

section \<open>The 8255 interface\<close>

record 'c ecb_io =
  ecb_in :: "u16 \<Rightarrow> 'c \<Rightarrow> u8 \<times> 'c"
  ecb_out :: "u16 \<Rightarrow> u8 \<Rightarrow> 'c \<Rightarrow> 'c"
  ecb_timer :: "'c \<Rightarrow> u32 \<times> 'c"
  ecb_delay :: "nat \<Rightarrow> 'c \<Rightarrow> 'c"

definition MFPIC_8255 :: u16 where "MFPIC_8255 = 0x44"
definition PPIDE_LSB :: u16 where "PPIDE_LSB = 0"
definition PPIDE_MSB :: u16 where "PPIDE_MSB = 1"
definition PPIDE_SIGNALS :: u16 where "PPIDE_SIGNALS = 2"
definition PPIDE_CONTROL :: u16 where "PPIDE_CONTROL = 3"
definition PPIDE_PPI_BUS_READ :: u8 where "PPIDE_PPI_BUS_READ = 0x92"
definition PPIDE_PPI_BUS_WRITE :: u8 where "PPIDE_PPI_BUS_WRITE = 0x80"
definition PPIDE_CS0_LINE :: u8 where "PPIDE_CS0_LINE = 0x08"
definition PPIDE_WR_BIT :: nat where "PPIDE_WR_BIT = 5"
definition PPIDE_RD_BIT :: nat where "PPIDE_RD_BIT = 6"
definition PPIDE_RST_BIT :: nat where "PPIDE_RST_BIT = 7"
definition PPIDE_REG_DATA :: u8 where "PPIDE_REG_DATA = PPIDE_CS0_LINE"
definition PPIDE_REG_ALTSTATUS :: u8 where "PPIDE_REG_ALTSTATUS = 0x10 OR 0x04 OR 0x02"

lemmas ppide_consts = MFPIC_8255_def PPIDE_LSB_def PPIDE_MSB_def PPIDE_SIGNALS_def PPIDE_CONTROL_def
  PPIDE_PPI_BUS_READ_def PPIDE_PPI_BUS_WRITE_def PPIDE_CS0_LINE_def PPIDE_WR_BIT_def PPIDE_RD_BIT_def PPIDE_RST_BIT_def
  PPIDE_REG_DATA_def PPIDE_REG_ALTSTATUS_def

definition controller_base_io_addr :: "nat \<Rightarrow> u16" where
  "controller_base_io_addr k = (if k = 0 then MFPIC_8255 else MFPIC_8255 + 0x10)"

text \<open>The controllers remember the direction of their data bus.\<close>

record 'c ppide =
  read_mode :: "nat \<Rightarrow> bool"
  ecb :: 'c

definition ppi_put :: "'c ecb_io \<Rightarrow> nat \<Rightarrow> u16 \<Rightarrow> u8 \<Rightarrow> 'c ppide \<Rightarrow> 'c ppide" where
  "ppi_put io k port v s = s\<lparr>ecb := ecb_out io (controller_base_io_addr k + port) v (ecb s)\<rparr>"

definition ppi_get :: "'c ecb_io \<Rightarrow> nat \<Rightarrow> u16 \<Rightarrow> 'c ppide \<Rightarrow> u8 \<times> 'c ppide" where
  "ppi_get io k port s = (case ecb_in io (controller_base_io_addr k + port) (ecb s) of (v, c) \<Rightarrow> (v, s\<lparr>ecb := c\<rparr>))"

definition ide_set_data_direction :: "'c ecb_io \<Rightarrow> nat \<Rightarrow> bool \<Rightarrow> 'c ppide \<Rightarrow> 'c ppide" where
  "ide_set_data_direction io k mode s =
     (if read_mode s k \<noteq> mode then
        (ppi_put io k PPIDE_CONTROL (if mode then PPIDE_PPI_BUS_READ else PPIDE_PPI_BUS_WRITE) s)
          \<lparr>read_mode := (read_mode s)(k := mode)\<rparr>
      else s)"

text \<open>A register that is neither in the task file nor the alternate status is refused with a message.\<close>

definition ide_select_register :: "'c ecb_io \<Rightarrow> nat \<Rightarrow> nat \<Rightarrow> 'c ppide \<Rightarrow> 'c ppide" where
  "ide_select_register io k reg s =
     (if reg \<le> ATA_REG_STATUS then ppi_put io k PPIDE_SIGNALS (PPIDE_CS0_LINE OR of_nat reg) s
      else if reg = ATA_REG_ALTSTATUS then ppi_put io k PPIDE_SIGNALS PPIDE_REG_ALTSTATUS s
      else s)"

text \<open>The command of the 8255 that sets or clears one bit of port C.\<close>

definition put_line :: "'c ecb_io \<Rightarrow> nat \<Rightarrow> nat \<Rightarrow> bool \<Rightarrow> 'c ppide \<Rightarrow> 'c ppide" where
  "put_line io k line on s = ppi_put io k PPIDE_CONTROL (of_bool on OR push_bit 1 (of_nat line)) s"

definition ppide_get_register :: "'c ecb_io \<Rightarrow> nat \<Rightarrow> nat \<Rightarrow> 'c ppide \<Rightarrow> u8 \<times> 'c ppide" where
  "ppide_get_register io k reg s =
     (let s = ide_select_register io k reg (ide_set_data_direction io k True s);
          s = put_line io k PPIDE_RD_BIT True s
      in case ppi_get io k PPIDE_LSB s of (val, s) \<Rightarrow> (val, put_line io k PPIDE_RD_BIT False s))"

definition ppide_set_register :: "'c ecb_io \<Rightarrow> nat \<Rightarrow> nat \<Rightarrow> u8 \<Rightarrow> 'c ppide \<Rightarrow> 'c ppide" where
  "ppide_set_register io k reg val s =
     (let s = ide_select_register io k reg (ide_set_data_direction io k False s);
          s = ppi_put io k PPIDE_LSB val s;
          s = put_line io k PPIDE_WR_BIT True s;
          s = put_line io k PPIDE_WR_BIT False s
      in if reg = ATA_REG_ALTSTATUS then put_line io k PPIDE_RST_BIT (val AND 0x04 \<noteq> 0) s else s)"

text \<open>The loops of the assembler move a long word, two words of the drive, in a turn. A word access to the ports
  is an access to the low byte and then to the high one.\<close>

definition input_word :: "'c ecb_io \<Rightarrow> nat \<Rightarrow> 'c ppide \<Rightarrow> u8 list \<times> 'c ppide" where
  "input_word io k s =
     (let s = ppi_put io k PPIDE_CONTROL 13 s in
      case ppi_get io k PPIDE_LSB s of (l, s) \<Rightarrow>
      case ppi_get io k PPIDE_MSB s of (h, s) \<Rightarrow> ([l, h], ppi_put io k PPIDE_CONTROL 12 s))"

fun input_turns :: "'c ecb_io \<Rightarrow> nat \<Rightarrow> nat \<Rightarrow> 'c ppide \<Rightarrow> u8 list \<times> 'c ppide" where
  "input_turns io k 0 s = ([], s)"
| "input_turns io k (Suc n) s =
     (case input_word io k s of (v, s) \<Rightarrow>
      case input_word io k s of (w, s) \<Rightarrow>
      case input_turns io k n s of (rest, s) \<Rightarrow> (v @ w @ rest, s))"

definition ide_sector_xfer_input :: "'c ecb_io \<Rightarrow> nat \<Rightarrow> 'c ppide \<Rightarrow> u8 list \<times> 'c ppide" where
  "ide_sector_xfer_input io k s = input_turns io k 128 s"

fun output_turns :: "'c ecb_io \<Rightarrow> nat \<Rightarrow> nat \<Rightarrow> u8 list \<Rightarrow> 'c ppide \<Rightarrow> 'c ppide" where
  "output_turns io k 0 bs s = s"
| "output_turns io k (Suc n) bs s =
     (let s = ppi_put io k PPIDE_CONTROL 10 s;
          s = ppi_put io k PPIDE_MSB (bs ! 1) (ppi_put io k PPIDE_LSB (bs ! 0) s);
          s = ppi_put io k PPIDE_CONTROL 11 s;
          s = ppi_put io k PPIDE_CONTROL 10 s;
          s = ppi_put io k PPIDE_MSB (bs ! 3) (ppi_put io k PPIDE_LSB (bs ! 2) s);
          s = ppi_put io k PPIDE_CONTROL 11 s
      in output_turns io k n (drop 4 bs) s)"

definition ide_sector_xfer_output :: "'c ecb_io \<Rightarrow> nat \<Rightarrow> u8 list \<Rightarrow> 'c ppide \<Rightarrow> 'c ppide" where
  "ide_sector_xfer_output io k bs s = ppi_put io k PPIDE_CONTROL 10 (output_turns io k 128 bs s)"

definition ppide_transfer_sector_read :: "'c ecb_io \<Rightarrow> nat \<Rightarrow> 'c ppide \<Rightarrow> u8 list \<times> 'c ppide" where
  "ppide_transfer_sector_read io k s =
     ide_sector_xfer_input io k (ppi_put io k PPIDE_SIGNALS PPIDE_REG_DATA (ide_set_data_direction io k True s))"

definition ppide_transfer_sector_write :: "'c ecb_io \<Rightarrow> nat \<Rightarrow> u8 list \<Rightarrow> 'c ppide \<Rightarrow> 'c ppide" where
  "ppide_transfer_sector_write io k bs s =
     ide_sector_xfer_output io k bs (ppi_put io k PPIDE_SIGNALS PPIDE_REG_DATA (ide_set_data_direction io k False s))"

definition ppide_ops :: "'c ecb_io \<Rightarrow> 'c ppide ide_ops" where
  "ppide_ops io =
     \<lparr>ide_get_register = ppide_get_register io, ide_set_register = ppide_set_register io,
      ide_transfer_sector_read = ppide_transfer_sector_read io, ide_transfer_sector_write = ppide_transfer_sector_write io,
      gogoboot_read_timer = (\<lambda>s. case ecb_timer io (ecb s) of (t, c) \<Rightarrow> (t, s\<lparr>ecb := c\<rparr>)),
      delay_ms = (\<lambda>ms s. s\<lparr>ecb := ecb_delay io ms (ecb s)\<rparr>)\<rparr>"

text \<open>Pretending to be in write mode forces the 8255 to be configured.\<close>

definition ppide_configure :: "'c ecb_io \<Rightarrow> nat \<Rightarrow> 'c ppide \<Rightarrow> 'c ppide" where
  "ppide_configure io k s = ide_set_data_direction io k True (s\<lparr>read_mode := (read_mode s)(k := False)\<rparr>)"

definition ppide_controller_init :: "'c ecb_io \<Rightarrow> nat \<Rightarrow> 'c ppide ide \<Rightarrow> (probe list \<times> 'c ppide ide) option" where
  "ppide_controller_init io k s = disk_controller_startup (ppide_ops io) k (s\<lparr>bus := ppide_configure io k (bus s)\<rparr>)"

definition ppide_disk_init :: "'c ecb_io \<Rightarrow> 'c ppide ide \<Rightarrow> (probe list \<times> 'c ppide ide) option" where
  "ppide_disk_init io s = do {
     (ps, s) \<leftarrow> ppide_controller_init io 0 s;
     (qs, s) \<leftarrow> ppide_controller_init io 1 s;
     Some (ps @ qs, s) }"

section \<open>The ISA interface\<close>

record 'c isa_io =
  isa_read_byte :: "u16 \<Rightarrow> 'c \<Rightarrow> u8 \<times> 'c"
  isa_write_byte :: "u16 \<Rightarrow> u8 \<Rightarrow> 'c \<Rightarrow> 'c"
  isa_read_word :: "u16 \<Rightarrow> 'c \<Rightarrow> u16 \<times> 'c"
  isa_write_word :: "u16 \<Rightarrow> u16 \<Rightarrow> 'c \<Rightarrow> 'c"
  isa_timer :: "'c \<Rightarrow> u32 \<times> 'c"
  isa_delay :: "nat \<Rightarrow> 'c \<Rightarrow> 'c"

definition q40_controller_base_io_addr :: "nat \<Rightarrow> u16" where
  "q40_controller_base_io_addr k = (if k = 0 then 0x1F0 else 0x170)"

definition q40_get_register :: "'c isa_io \<Rightarrow> nat \<Rightarrow> nat \<Rightarrow> 'c \<Rightarrow> u8 \<times> 'c" where
  "q40_get_register io k reg c = isa_read_byte io (q40_controller_base_io_addr k + of_nat reg) c"

definition q40_set_register :: "'c isa_io \<Rightarrow> nat \<Rightarrow> nat \<Rightarrow> u8 \<Rightarrow> 'c \<Rightarrow> 'c" where
  "q40_set_register io k reg val c = isa_write_byte io (q40_controller_base_io_addr k + of_nat reg) val c"

text \<open>The processor is big-endian: a word is stored with its high byte first.\<close>

fun q40_read_words :: "'c isa_io \<Rightarrow> nat \<Rightarrow> nat \<Rightarrow> 'c \<Rightarrow> u8 list \<times> 'c" where
  "q40_read_words io k 0 c = ([], c)"
| "q40_read_words io k (Suc n) c =
     (case isa_read_word io (q40_controller_base_io_addr k) c of (w, c) \<Rightarrow>
      case q40_read_words io k n c of (rest, c) \<Rightarrow> (bytes16 (bswap16 w) @ rest, c))"

definition q40_transfer_sector_read :: "'c isa_io \<Rightarrow> nat \<Rightarrow> 'c \<Rightarrow> u8 list \<times> 'c" where
  "q40_transfer_sector_read io k c = q40_read_words io k 256 c"

fun q40_write_words :: "'c isa_io \<Rightarrow> nat \<Rightarrow> nat \<Rightarrow> u8 list \<Rightarrow> 'c \<Rightarrow> 'c" where
  "q40_write_words io k 0 bs c = c"
| "q40_write_words io k (Suc n) bs c =
     q40_write_words io k n (drop 2 bs)
       (isa_write_word io (q40_controller_base_io_addr k) (bswap16 (be16 (bs ! 0) (bs ! 1))) c)"

definition q40_transfer_sector_write :: "'c isa_io \<Rightarrow> nat \<Rightarrow> u8 list \<Rightarrow> 'c \<Rightarrow> 'c" where
  "q40_transfer_sector_write io k bs c = q40_write_words io k 256 bs c"

definition q40_ops :: "'c isa_io \<Rightarrow> 'c ide_ops" where
  "q40_ops io =
     \<lparr>ide_get_register = q40_get_register io, ide_set_register = q40_set_register io,
      ide_transfer_sector_read = q40_transfer_sector_read io, ide_transfer_sector_write = q40_transfer_sector_write io,
      gogoboot_read_timer = isa_timer io, delay_ms = isa_delay io\<rparr>"

definition q40_disk_init :: "'c isa_io \<Rightarrow> 'c ide \<Rightarrow> (probe list \<times> 'c ide) option" where
  "q40_disk_init io s = do {
     (ps, s) \<leftarrow> disk_controller_startup (q40_ops io) 0 s;
     (qs, s) \<leftarrow> disk_controller_startup (q40_ops io) 1 s;
     Some (ps @ qs, s) }"

section \<open>The same drives behind both\<close>

text \<open>What is on the two IDE channels \<open>k\<close>: byte registers, the word-wide data register and the reset line. The
  ISA bus decodes them at their addresses.\<close>

record 'd ata_bus =
  reg_read :: "nat \<Rightarrow> nat \<Rightarrow> 'd \<Rightarrow> u8 \<times> 'd"
  reg_write :: "nat \<Rightarrow> nat \<Rightarrow> u8 \<Rightarrow> 'd \<Rightarrow> 'd"
  data_read :: "nat \<Rightarrow> 'd \<Rightarrow> u16 \<times> 'd"
  data_write :: "nat \<Rightarrow> u16 \<Rightarrow> 'd \<Rightarrow> 'd"
  hard_reset :: "nat \<Rightarrow> 'd \<Rightarrow> 'd"
  bus_timer :: "'d \<Rightarrow> u32 \<times> 'd"
  bus_delay :: "nat \<Rightarrow> 'd \<Rightarrow> 'd"

definition isa_decode :: "u16 \<Rightarrow> (nat \<times> nat) option" where
  "isa_decode port =
     (let r = unat (port AND 7); a = port AND NOT 7 in
      if a = 0x1F0 then Some (0, r) else if a = 0x3F0 then Some (0, 0x200 + r)
      else if a = 0x170 then Some (1, r) else if a = 0x370 then Some (1, 0x200 + r) else None)"

definition isa_bus :: "'d ata_bus \<Rightarrow> 'd isa_io" where
  "isa_bus b =
     \<lparr>isa_read_byte = (\<lambda>port d. case isa_decode port of None \<Rightarrow> (0xFF, d) | Some (k, r) \<Rightarrow> reg_read b k r d),
      isa_write_byte = (\<lambda>port v d. case isa_decode port of None \<Rightarrow> d | Some (k, r) \<Rightarrow> reg_write b k r v d),
      isa_read_word = (\<lambda>port d. case isa_decode port of None \<Rightarrow> (0xFFFF, d) | Some (k, r) \<Rightarrow> data_read b k d),
      isa_write_word = (\<lambda>port w d. case isa_decode port of None \<Rightarrow> d | Some (k, r) \<Rightarrow> data_write b k w d),
      isa_timer = bus_timer b, isa_delay = bus_delay b\<rparr>"

text \<open>An 8255: the latches of its ports, the direction of the ports A and B, and the word on the bus of the drive. The
  signals are in port C: a write happens when its line falls, a read when its line rises.\<close>

record ppi =
  port_a :: u8
  port_b :: u8
  port_c :: u8
  inputs :: bool
  sampled :: u16

record 'd ecb_world =
  latches :: "nat \<Rightarrow> ppi"
  drives :: 'd

definition selected :: "u8 \<Rightarrow> nat" where
  "selected c = (if bit c 3 then 0 else 0x200) + unat (c AND 7)"

definition move_lines :: "'d ata_bus \<Rightarrow> nat \<Rightarrow> u8 \<Rightarrow> ppi \<Rightarrow> 'd \<Rightarrow> ppi \<times> 'd" where
  "move_lines b k c p d =
     (let old = port_c p; r = selected old;
          d = (if bit old 5 \<and> \<not> bit c 5 \<and> \<not> inputs p then
                 (if r = 0 then data_write b k (be16 (port_b p) (port_a p)) d else reg_write b k r (port_a p) d)
               else d);
          (w, d) = (if \<not> bit old 6 \<and> bit c 6 then
                      (if selected c = 0 then data_read b k d else case reg_read b k (selected c) d of (v, d) \<Rightarrow> (ucast v, d))
                    else (sampled p, d));
          d = (if \<not> bit old 7 \<and> bit c 7 then hard_reset b k d else d)
      in (p\<lparr>port_c := c, sampled := w\<rparr>, d))"

definition chip_out :: "'d ata_bus \<Rightarrow> nat \<Rightarrow> u16 \<Rightarrow> u8 \<Rightarrow> ppi \<Rightarrow> 'd \<Rightarrow> ppi \<times> 'd" where
  "chip_out b k off v p d =
     (if off = 0 then (p\<lparr>port_a := v\<rparr>, d)
      else if off = 1 then (p\<lparr>port_b := v\<rparr>, d)
      else if off = 2 then move_lines b k v p d
      else if bit v 7 then
        (case move_lines b k 0 p d of (p, d) \<Rightarrow> (p\<lparr>port_a := 0, port_b := 0, inputs := bit v 4\<rparr>, d))
      else
        (let n = unat (drop_bit 1 v AND 7) in
         move_lines b k (if bit v 0 then set_bit n (port_c p) else unset_bit n (port_c p)) p d))"

definition chip_in :: "u16 \<Rightarrow> ppi \<Rightarrow> u8" where
  "chip_in off p =
     (if off = 0 then (if \<not> inputs p then port_a p else if bit (port_c p) 6 then ucast (sampled p) else 0xFF)
      else if off = 1 then (if \<not> inputs p then port_b p else if bit (port_c p) 6 then ucast (drop_bit 8 (sampled p)) else 0xFF)
      else port_c p)"

definition ecb_decode :: "u16 \<Rightarrow> nat option" where
  "ecb_decode port = (if port AND NOT 3 = 0x44 then Some 0 else if port AND NOT 3 = 0x54 then Some 1 else None)"

definition with_chip :: "nat \<Rightarrow> ppi \<times> 'd \<Rightarrow> 'd ecb_world \<Rightarrow> 'd ecb_world" where
  "with_chip k pd w = w\<lparr>latches := (latches w)(k := fst pd), drives := snd pd\<rparr>"

definition ecb_bus :: "'d ata_bus \<Rightarrow> 'd ecb_world ecb_io" where
  "ecb_bus b =
     \<lparr>ecb_in = (\<lambda>port w. case ecb_decode port of None \<Rightarrow> (0xFF, w) | Some k \<Rightarrow> (chip_in (port AND 3) (latches w k), w)),
      ecb_out = (\<lambda>port v w. case ecb_decode port of None \<Rightarrow> w
                   | Some k \<Rightarrow> with_chip k (chip_out b k (port AND 3) v (latches w k) (drives w)) w),
      ecb_timer = (\<lambda>w. case bus_timer b (drives w) of (t, d) \<Rightarrow> (t, w\<lparr>drives := d\<rparr>)),
      ecb_delay = (\<lambda>ms w. w\<lparr>drives := bus_delay b ms (drives w)\<rparr>)\<rparr>"

text \<open>Between the operations no line is active but perhaps the reset, and the driver knows the direction.\<close>

definition quiet_ppi :: "'d ecb_world ppide \<Rightarrow> nat \<Rightarrow> bool" where
  "quiet_ppi s k \<longleftrightarrow> (let p = latches (ecb s) k in \<not> bit (port_c p) 5 \<and> \<not> bit (port_c p) 6 \<and> inputs p = read_mode s k)"

definition quiet_world :: "'d ecb_world ppide \<Rightarrow> bool" where
  "quiet_world s \<longleftrightarrow> quiet_ppi s 0 \<and> quiet_ppi s 1"

section \<open>One access\<close>

definition chip_at :: "nat \<Rightarrow> 'd ecb_world ppide \<Rightarrow> ppi" where "chip_at k s = latches (ecb s) k"
definition disks :: "'d ecb_world ppide \<Rightarrow> 'd" where "disks s = drives (ecb s)"

text \<open>The effect of an operation on one chip leaves the other and the modes alone.\<close>

definition chip_set :: "nat \<Rightarrow> ppi \<Rightarrow> 'd \<Rightarrow> 'd ecb_world ppide \<Rightarrow> 'd ecb_world ppide" where
  "chip_set k p d s = s\<lparr>ecb := with_chip k (p, d) (ecb s)\<rparr>"

lemma chip_set_simps [simp]:
  "chip_at k (chip_set k p d s) = p" "disks (chip_set k p d s) = d" "read_mode (chip_set k p d s) = read_mode s"
  "chip_set k p d (chip_set k p' d' s) = chip_set k p d s"
  "chip_set k p d s\<lparr>read_mode := m\<rparr> = chip_set k p d (s\<lparr>read_mode := m\<rparr>)"
  "chip_at k (s\<lparr>read_mode := m\<rparr>) = chip_at k s" "disks (s\<lparr>read_mode := m\<rparr>) = disks s"
  by (simp_all add: chip_at_def disks_def chip_set_def with_chip_def)

lemma ecb_ports:
  assumes "k < 2" "port < 4"
  shows "ecb_decode (controller_base_io_addr k + port) = Some k" "(controller_base_io_addr k + port) AND 3 = port"
proof -
  have "port \<in> {0, 1, 2, 3}"
  proof -
    have "unat port < 4" using assms(2) by (simp add: word_less_nat_alt)
    then have "unat port = 0 \<or> unat port = 1 \<or> unat port = 2 \<or> unat port = 3" by arith
    then show ?thesis by (auto simp: word_unat_eq_iff)
  qed
  then show "ecb_decode (controller_base_io_addr k + port) = Some k" "(controller_base_io_addr k + port) AND 3 = port"
    using assms(1) by (auto simp: less_2_cases_iff controller_base_io_addr_def ppide_consts ecb_decode_def)
qed

lemma ppi_put_chip:
  assumes "k < 2" "port < 4"
  shows "ppi_put (ecb_bus b) k port v s = (case chip_out b k port v (chip_at k s) (disks s) of (p, d) \<Rightarrow> chip_set k p d s)"
  using ecb_ports [OF assms]
  by (simp add: ppi_put_def ecb_bus_def chip_at_def disks_def chip_set_def split: prod.splits)

lemma ppi_get_chip:
  assumes "k < 2" "port < 4"
  shows "ppi_get (ecb_bus b) k port s = (chip_in port (chip_at k s), s)"
  using ecb_ports [OF assms] by (simp add: ppi_get_def ecb_bus_def chip_at_def)

lemma chip_set_id [simp]: "chip_set k (chip_at k s) (disks s) s = s"
  by (simp add: chip_at_def disks_def chip_set_def with_chip_def)

lemma ppide_ports [simp]: "PPIDE_LSB < 4" "PPIDE_MSB < 4" "PPIDE_SIGNALS < 4" "PPIDE_CONTROL < 4"
  by (simp_all add: ppide_consts)

lemma put_line_chip:
  assumes "k < 2" "line \<in> {5, 6, 7}"
  shows "put_line (ecb_bus b) k line on s =
    (case move_lines b k (if on then set_bit line (port_c (chip_at k s)) else unset_bit line (port_c (chip_at k s))) (chip_at k s) (disks s)
     of (p, d) \<Rightarrow> chip_set k p d s)"
proof -
  let ?v = "of_bool on OR push_bit 1 (of_nat line) :: u8"
  have "\<not> bit ?v 7" "bit ?v 0 = on" "unat (drop_bit 1 ?v AND 7) = line"
    using assms(2) by (cases on; auto simp: bit_numeral_rec)+
  then show ?thesis
    using assms(1) by (simp add: put_line_def ppi_put_chip chip_out_def PPIDE_CONTROL_def)
qed

lemma line_commands:
  "ppi_put io k PPIDE_CONTROL 13 s = put_line io k 6 True s" "ppi_put io k PPIDE_CONTROL 12 s = put_line io k 6 False s"
  "ppi_put io k PPIDE_CONTROL 11 s = put_line io k 5 True s" "ppi_put io k PPIDE_CONTROL 10 s = put_line io k 5 False s"
  by (simp_all add: put_line_def)

lemma selected_lines [simp]:
  "5 \<le> n \<Longrightarrow> selected (set_bit n c) = selected c" "5 \<le> n \<Longrightarrow> selected (unset_bit n c) = selected c"
proof -
  assume n: "5 \<le> n"
  have "bit (7 :: u8) i \<Longrightarrow> i < 3" for i using bit_imp_le_length [of "7 :: u8" i] by (cases "i < 3") (auto simp: bit_numeral_rec numeral_eq_Suc less_Suc_eq)
  then have "set_bit n c AND 7 = c AND 7" "unset_bit n c AND 7 = c AND 7"
    using n by (intro bit_word_eqI; fastforce simp: bit_and_iff bit_set_bit_iff bit_unset_bit_iff)+
  then show "selected (set_bit n c) = selected c" "selected (unset_bit n c) = selected c"
    using n by (simp_all add: selected_def bit_set_bit_iff bit_unset_bit_iff)
qed

text \<open>A chip that has selected a register, with the data bus in one direction.\<close>

definition prepared :: "nat \<Rightarrow> bool \<Rightarrow> ppi \<Rightarrow> bool" where
  "prepared r i p \<longleftrightarrow> \<not> bit (port_c p) 5 \<and> \<not> bit (port_c p) 6 \<and> \<not> bit (port_c p) 7 \<and> selected (port_c p) = r \<and> inputs p = i"

definition lane_read :: "'d ata_bus \<Rightarrow> nat \<Rightarrow> nat \<Rightarrow> 'd \<Rightarrow> u16 \<times> 'd" where
  "lane_read b k r d = (if r = 0 then data_read b k d else case reg_read b k r d of (v, d) \<Rightarrow> (ucast v, d))"

definition lane_write :: "'d ata_bus \<Rightarrow> nat \<Rightarrow> nat \<Rightarrow> u8 \<Rightarrow> u8 \<Rightarrow> 'd \<Rightarrow> 'd" where
  "lane_write b k r h l d = (if r = 0 then data_write b k (be16 h l) d else reg_write b k r l d)"

lemma direction_set:
  assumes "k < 2" "quiet_ppi s k"
  obtains p where "ide_set_data_direction (ecb_bus b) k m s = chip_set k p (disks s) (s\<lparr>read_mode := (read_mode s)(k := m)\<rparr>)"
    "\<not> bit (port_c p) 5" "\<not> bit (port_c p) 6" "inputs p = m"
proof (cases "read_mode s k = m")
  case True
  then have "(read_mode s)(k := m) = read_mode s" by auto
  then have "ide_set_data_direction (ecb_bus b) k m s = chip_set k (chip_at k s) (disks s) (s\<lparr>read_mode := (read_mode s)(k := m)\<rparr>)"
    using True by (simp add: ide_set_data_direction_def)
  then show ?thesis using assms(2) True by (intro that [of "chip_at k s"]) (simp_all add: quiet_ppi_def chip_at_def Let_def)
next
  case False
  have v: "bit (if m then PPIDE_PPI_BUS_READ else PPIDE_PPI_BUS_WRITE) 7" "bit (if m then PPIDE_PPI_BUS_READ else PPIDE_PPI_BUS_WRITE) 4 = m"
    by (simp_all add: ppide_consts bit_numeral_rec)
  have "chip_out b k PPIDE_CONTROL (if m then PPIDE_PPI_BUS_READ else PPIDE_PPI_BUS_WRITE) (chip_at k s) (disks s) =
      ((chip_at k s)\<lparr>port_c := 0, port_a := 0, port_b := 0, inputs := m\<rparr>, disks s)"
    using assms(2) v by (simp add: chip_out_def PPIDE_CONTROL_def move_lines_def quiet_ppi_def chip_at_def Let_def)
  then show ?thesis using False assms(1)
    by (intro that [of "(chip_at k s)\<lparr>port_c := 0, port_a := 0, port_b := 0, inputs := m\<rparr>"])
      (simp_all add: ide_set_data_direction_def ppi_put_chip)
qed

lemma lines_selected:
  assumes "k < 2" "\<not> bit (port_c (chip_at k s)) 5" "\<not> bit (port_c (chip_at k s)) 6" "inputs (chip_at k s) = m"
    and "\<not> bit v 5" "\<not> bit v 6" "\<not> bit v 7"
  obtains p where "ppi_put (ecb_bus b) k PPIDE_SIGNALS v s = chip_set k p (disks s) s" "prepared (selected v) m p"
  using assms
  by (intro that [of "(chip_at k s)\<lparr>port_c := v\<rparr>"])
    (simp_all add: ppi_put_chip chip_out_def PPIDE_SIGNALS_def move_lines_def prepared_def Let_def)

definition task_file :: "nat \<Rightarrow> bool" where "task_file r \<longleftrightarrow> r \<in> {1 .. 7} \<or> r = ATA_REG_ALTSTATUS"

definition select_code :: "nat \<Rightarrow> u8" where
  "select_code r = (if r \<le> ATA_REG_STATUS then PPIDE_CS0_LINE OR of_nat r else PPIDE_REG_ALTSTATUS)"

lemma select_codes:
  assumes "task_file r \<or> r = 0"
  shows "\<not> bit (select_code r) 5" "\<not> bit (select_code r) 6" "\<not> bit (select_code r) 7" "selected (select_code r) = r"
    "ide_select_register io k r s = ppi_put io k PPIDE_SIGNALS (select_code r) s"
proof -
  have "r \<in> {0, 1, 2, 3, 4, 5, 6, 7, 0x206}" using assms by (auto simp: task_file_def ide_regs)
  then show "\<not> bit (select_code r) 5" "\<not> bit (select_code r) 6" "\<not> bit (select_code r) 7" "selected (select_code r) = r"
    "ide_select_register io k r s = ppi_put io k PPIDE_SIGNALS (select_code r) s"
    by (auto simp: select_code_def ide_select_register_def ide_regs ppide_consts selected_def bit_numeral_rec)
qed

lemma register_addressed:
  assumes "k < 2" "quiet_ppi s k" "task_file r \<or> r = 0"
  obtains p where "ide_select_register (ecb_bus b) k r (ide_set_data_direction (ecb_bus b) k m s) =
      chip_set k p (disks s) (s\<lparr>read_mode := (read_mode s)(k := m)\<rparr>)" "prepared r m p"
proof -
  obtain q where q: "ide_set_data_direction (ecb_bus b) k m s = chip_set k q (disks s) (s\<lparr>read_mode := (read_mode s)(k := m)\<rparr>)"
    "\<not> bit (port_c q) 5" "\<not> bit (port_c q) 6" "inputs q = m"
    using direction_set [OF assms(1,2)] by metis
  obtain p where p: "ppi_put (ecb_bus b) k PPIDE_SIGNALS (select_code r) (ide_set_data_direction (ecb_bus b) k m s) =
      chip_set k p (disks (ide_set_data_direction (ecb_bus b) k m s)) (ide_set_data_direction (ecb_bus b) k m s)"
    "prepared (selected (select_code r)) m p"
    by (rule lines_selected [where s = "ide_set_data_direction (ecb_bus b) k m s" and m = m and v = "select_code r" and b = b, OF assms(1)])
      (use q select_codes [OF assms(3)] in simp_all)
  then show ?thesis using q by (intro that [of p]) (simp_all add: select_codes [OF assms(3)])
qed

lemma read_pulse:
  assumes "k < 2" "prepared r True p" "lane_read b k r d = (w, d')"
  obtains p1 p2 where "put_line (ecb_bus b) k 6 True (chip_set k p d s) = chip_set k p1 d' s"
    "chip_in PPIDE_LSB p1 = ucast w" "chip_in PPIDE_MSB p1 = ucast (drop_bit 8 w)"
    "put_line (ecb_bus b) k 6 False (chip_set k p1 d' s) = chip_set k p2 d' s" "prepared r True p2"
proof -
  let ?c = "set_bit 6 (port_c p)"
  let ?p1 = "p\<lparr>port_c := ?c, sampled := w\<rparr>" and ?p2 = "p\<lparr>port_c := unset_bit 6 ?c, sampled := w\<rparr>"
  have "move_lines b k ?c p d = (?p1, d')"
    using assms(2,3) by (auto simp: move_lines_def prepared_def lane_read_def bit_set_bit_iff Let_def split: if_splits prod.splits)
  moreover have "move_lines b k (unset_bit 6 ?c) ?p1 d' = (?p2, d')"
    using assms(2) by (simp add: move_lines_def prepared_def bit_set_bit_iff bit_unset_bit_iff Let_def)
  moreover have "chip_in PPIDE_LSB ?p1 = ucast w" "chip_in PPIDE_MSB ?p1 = ucast (drop_bit 8 w)" "prepared r True ?p2"
    using assms(2) by (simp_all add: chip_in_def prepared_def ppide_consts bit_set_bit_iff bit_unset_bit_iff)
  ultimately show ?thesis using assms(1) by (intro that [of ?p1 ?p2]) (simp_all add: put_line_chip)
qed

lemma write_pulse:
  assumes "k < 2" "prepared r False p" "port_b p = h" "port_a p = l"
  obtains p1 p2 where "put_line (ecb_bus b) k 5 True (chip_set k p d s) = chip_set k p1 d s"
    "put_line (ecb_bus b) k 5 False (chip_set k p1 d s) = chip_set k p2 (lane_write b k r h l d) s" "prepared r False p2"
proof -
  let ?c = "set_bit 5 (port_c p)"
  let ?p1 = "p\<lparr>port_c := ?c\<rparr>" and ?p2 = "p\<lparr>port_c := unset_bit 5 ?c\<rparr>"
  have "move_lines b k ?c p d = (?p1, d)"
    using assms(2) by (simp add: move_lines_def prepared_def bit_set_bit_iff Let_def)
  moreover have "move_lines b k (unset_bit 5 ?c) ?p1 d = (?p2, lane_write b k r h l d)"
    using assms(2-4) by (simp add: move_lines_def prepared_def lane_write_def bit_set_bit_iff bit_unset_bit_iff Let_def)
  moreover have "prepared r False ?p2"
    using assms(2) by (simp add: prepared_def bit_set_bit_iff bit_unset_bit_iff)
  ultimately show ?thesis using assms(1) by (intro that [of ?p1 ?p2]) (simp_all add: put_line_chip)
qed

lemma data_latched:
  assumes "k < 2"
  shows "ppi_put (ecb_bus b) k PPIDE_LSB v (chip_set k p d s) = chip_set k (p\<lparr>port_a := v\<rparr>) d s"
    "ppi_put (ecb_bus b) k PPIDE_MSB v (chip_set k p d s) = chip_set k (p\<lparr>port_b := v\<rparr>) d s"
  using assms by (simp_all add: ppi_put_chip chip_out_def) (simp_all add: ppide_consts)

lemma prepared_latched [simp]:
  "prepared r i (p\<lparr>port_a := v\<rparr>) = prepared r i p" "prepared r i (p\<lparr>port_b := v\<rparr>) = prepared r i p"
  by (simp_all add: prepared_def)

lemma quiet_set:
  assumes "quiet_world s" "k < 2" "\<not> bit (port_c p) 5" "\<not> bit (port_c p) 6" "inputs p = m"
  shows "quiet_world (chip_set k p d (s\<lparr>read_mode := (read_mode s)(k := m)\<rparr>))"
  using assms by (auto simp: quiet_world_def quiet_ppi_def chip_set_def with_chip_def less_2_cases_iff Let_def)

lemma prepared_quiet: "prepared r m p \<Longrightarrow> quiet_world s \<Longrightarrow> k < 2 \<Longrightarrow> quiet_world (chip_set k p d (s\<lparr>read_mode := (read_mode s)(k := m)\<rparr>))"
  by (rule quiet_set) (simp_all add: prepared_def)

lemma quiet_ppi: "quiet_world s \<Longrightarrow> k < 2 \<Longrightarrow> quiet_ppi s k"
  by (auto simp: quiet_world_def less_2_cases_iff)

section \<open>The operations\<close>

lemma get_register_reads:
  assumes "quiet_world s" "k < 2" "task_file r"
  shows "\<exists>s'. ppide_get_register (ecb_bus b) k r s = (fst (reg_read b k r (disks s)), s') \<and>
    disks s' = snd (reg_read b k r (disks s)) \<and> quiet_world s'"
proof -
  let ?s = "s\<lparr>read_mode := (read_mode s)(k := True)\<rparr>"
  obtain v d' where v: "reg_read b k r (disks s) = (v, d')" by (cases "reg_read b k r (disks s)")
  have "r \<noteq> 0" using assms(3) by (auto simp: task_file_def ide_regs)
  then have w: "lane_read b k r (disks s) = (ucast v, d')" using v by (simp add: lane_read_def)
  obtain p where p: "ide_select_register (ecb_bus b) k r (ide_set_data_direction (ecb_bus b) k True s) = chip_set k p (disks s) ?s"
    "prepared r True p"
    using register_addressed [OF assms(2) quiet_ppi [OF assms(1,2)]] assms(3) by metis
  obtain p1 p2 where q: "put_line (ecb_bus b) k 6 True (chip_set k p (disks s) ?s) = chip_set k p1 d' ?s"
    "chip_in PPIDE_LSB p1 = ucast (ucast v :: u16)" "put_line (ecb_bus b) k 6 False (chip_set k p1 d' ?s) = chip_set k p2 d' ?s"
    "prepared r True p2"
    using read_pulse [OF assms(2) p(2) w] by metis
  have "ucast (ucast v :: u16) = v" by (rule bit_word_eqI) (simp add: bit_simps)
  then have "ppide_get_register (ecb_bus b) k r s = (v, chip_set k p2 d' ?s)"
    using assms(2) p(1) q by (simp add: ppide_get_register_def ppi_get_chip PPIDE_RD_BIT_def)
  then show ?thesis using v prepared_quiet [OF q(4) assms(1,2)] by simp
qed

text \<open>Writing the reset bit also pulls the reset line.\<close>

definition resets :: "nat \<Rightarrow> u8 \<Rightarrow> bool" where "resets r v \<longleftrightarrow> r = ATA_REG_ALTSTATUS \<and> v AND 0x04 \<noteq> 0"

lemma set_register_writes:
  assumes "quiet_world s" "k < 2" "task_file r"
  shows "disks (ppide_set_register (ecb_bus b) k r v s) =
      (if resets r v then hard_reset b k (reg_write b k r v (disks s)) else reg_write b k r v (disks s)) \<and>
    quiet_world (ppide_set_register (ecb_bus b) k r v s)"
proof -
  let ?s = "s\<lparr>read_mode := (read_mode s)(k := False)\<rparr>" and ?d = "reg_write b k r v (disks s)"
  obtain p where p: "ide_select_register (ecb_bus b) k r (ide_set_data_direction (ecb_bus b) k False s) = chip_set k p (disks s) ?s"
    "prepared r False p"
    using register_addressed [OF assms(2) quiet_ppi [OF assms(1,2)]] assms(3) by metis
  have "r \<noteq> 0" using assms(3) by (auto simp: task_file_def ide_regs)
  then have d: "lane_write b k r (port_b p) v (disks s) = ?d" by (simp add: lane_write_def)
  obtain p1 p2 where q: "put_line (ecb_bus b) k 5 True (chip_set k (p\<lparr>port_a := v\<rparr>) (disks s) ?s) = chip_set k p1 (disks s) ?s"
    "put_line (ecb_bus b) k 5 False (chip_set k p1 (disks s) ?s) = chip_set k p2 ?d ?s" "prepared r False p2"
    using write_pulse [of k r "p\<lparr>port_a := v\<rparr>" "port_b p" v b "disks s" ?s] assms(2) p(2) d by auto
  let ?on = "v AND 0x04 \<noteq> 0"
  let ?c = "if ?on then set_bit 7 (port_c p2) else unset_bit 7 (port_c p2)"
  have "move_lines b k ?c p2 ?d = (p2\<lparr>port_c := ?c\<rparr>, if ?on then hard_reset b k ?d else ?d)"
    using q(3) by (simp add: move_lines_def prepared_def bit_set_bit_iff bit_unset_bit_iff Let_def)
  then have l: "put_line (ecb_bus b) k 7 ?on (chip_set k p2 ?d ?s) =
      chip_set k (p2\<lparr>port_c := ?c\<rparr>) (if ?on then hard_reset b k ?d else ?d) ?s"
    using assms(2) by (auto simp: put_line_chip)
  have e: "ppide_set_register (ecb_bus b) k r v s =
      (if r = ATA_REG_ALTSTATUS then put_line (ecb_bus b) k 7 ?on (chip_set k p2 ?d ?s) else chip_set k p2 ?d ?s)"
    using assms(2) p(1) q by (simp add: ppide_set_register_def data_latched PPIDE_WR_BIT_def PPIDE_RST_BIT_def)
  have "quiet_world (chip_set k (p2\<lparr>port_c := ?c\<rparr>) d ?s)" for d
    by (rule quiet_set [OF assms(1,2)]) (use q(3) in \<open>simp_all add: prepared_def bit_set_bit_iff bit_unset_bit_iff\<close>)
  then show ?thesis unfolding e l using prepared_quiet [OF q(3) assms(1,2)] by (simp add: resets_def)
qed

lemma isa_ports:
  assumes "k < 2"
  shows "task_file r \<Longrightarrow> isa_decode (q40_controller_base_io_addr k + of_nat r) = Some (k, r)"
    "isa_decode (q40_controller_base_io_addr k) = Some (k, 0)"
proof -
  show "isa_decode (q40_controller_base_io_addr k) = Some (k, 0)"
    using assms by (auto simp: less_2_cases_iff q40_controller_base_io_addr_def isa_decode_def)
  assume "task_file r"
  then have "r \<in> {1, 2, 3, 4, 5, 6, 7, 0x206}" by (auto simp: task_file_def ide_regs)
  then show "isa_decode (q40_controller_base_io_addr k + of_nat r) = Some (k, r)"
    using assms by (auto simp: less_2_cases_iff q40_controller_base_io_addr_def isa_decode_def Let_def)
qed

lemma isa_accesses:
  assumes "k < 2"
  shows "task_file r \<Longrightarrow> q40_get_register (isa_bus b) k r d = reg_read b k r d"
    "task_file r \<Longrightarrow> q40_set_register (isa_bus b) k r v d = reg_write b k r v d"
    "isa_read_word (isa_bus b) (q40_controller_base_io_addr k) d = data_read b k d"
    "isa_write_word (isa_bus b) (q40_controller_base_io_addr k) w d = data_write b k w d"
  using isa_ports [OF assms] by (simp_all add: q40_get_register_def q40_set_register_def isa_bus_def)

lemma be16_parts: "ucast (be16 h l) = l" "ucast (drop_bit 8 (be16 h l)) = h"
  by (rule bit_eqI; auto simp: be16_def bit_simps dest: bit_imp_le_length)+

lemma swapped_words: "bytes16 (bswap16 w) = [ucast w, ucast (drop_bit 8 w)]" "bswap16 (be16 l h) = be16 h l"
proof -
  show "bytes16 (bswap16 w) = [ucast w, ucast (drop_bit 8 w)]"
    by (simp add: bytes16_def bswap16_def be16_parts)
  show "bswap16 (be16 l h) = be16 h l"
    by (simp add: bswap16_def be16_parts)
qed

lemma input_word_reads:
  assumes "k < 2" "prepared 0 True p" "data_read b k d = (w, d')"
  obtains p' where "input_word (ecb_bus b) k (chip_set k p d s) = (bytes16 (bswap16 w), chip_set k p' d' s)" "prepared 0 True p'"
proof -
  have "lane_read b k 0 d = (w, d')" using assms(3) by (simp add: lane_read_def)
  from read_pulse [OF assms(1,2) this, of s] obtain p1 p2 where
    "put_line (ecb_bus b) k 6 True (chip_set k p d s) = chip_set k p1 d' s"
    "chip_in PPIDE_LSB p1 = ucast w" "chip_in PPIDE_MSB p1 = ucast (drop_bit 8 w)"
    "put_line (ecb_bus b) k 6 False (chip_set k p1 d' s) = chip_set k p2 d' s" "prepared 0 True p2" by blast
  then show ?thesis using assms(1)
    by (intro that [of p2]) (simp_all add: input_word_def line_commands ppi_get_chip swapped_words)
qed

lemma input_turns_read:
  assumes "k < 2"
  shows "prepared 0 True p \<Longrightarrow> \<exists>p'. input_turns (ecb_bus b) k n (chip_set k p d s) =
      (fst (q40_read_words (isa_bus b) k (2 * n) d), chip_set k p' (snd (q40_read_words (isa_bus b) k (2 * n) d)) s) \<and>
    prepared 0 True p'"
proof (induction n arbitrary: p d)
  case (Suc n)
  obtain v d1 where v: "data_read b k d = (v, d1)" by (cases "data_read b k d")
  obtain w d2 where w: "data_read b k d1 = (w, d2)" by (cases "data_read b k d1")
  obtain p1 where p1: "input_word (ecb_bus b) k (chip_set k p d s) = (bytes16 (bswap16 v), chip_set k p1 d1 s)" "prepared 0 True p1"
    using input_word_reads [OF assms Suc.prems v] by blast
  obtain p2 where p2: "input_word (ecb_bus b) k (chip_set k p1 d1 s) = (bytes16 (bswap16 w), chip_set k p2 d2 s)" "prepared 0 True p2"
    using input_word_reads [OF assms p1(2) w] by blast
  show ?case using Suc.IH [OF p2(2), of d2] p1(1) p2(1) v w
    by (auto simp: isa_accesses [OF assms] split: prod.splits)
qed auto

lemma output_word_writes:
  assumes "k < 2" "prepared 0 False p"
  obtains p1 where "ppi_put (ecb_bus b) k PPIDE_CONTROL 11 (ppi_put (ecb_bus b) k PPIDE_MSB h (ppi_put (ecb_bus b) k PPIDE_LSB l
      (chip_set k p d s))) = chip_set k p1 d s"
    "\<exists>p2. ppi_put (ecb_bus b) k PPIDE_CONTROL 10 (chip_set k p1 d s) = chip_set k p2 (data_write b k (be16 h l) d) s \<and> prepared 0 False p2"
proof -
  have "prepared 0 False (p\<lparr>port_a := l, port_b := h\<rparr>)" using assms(2) by (simp add: prepared_def)
  from write_pulse [OF assms(1) this, of h l b d s] show ?thesis
    using assms(1) that by (auto simp: line_commands data_latched lane_write_def)
qed

lemma line_low:
  assumes "k < 2" "prepared 0 False p"
  shows "\<exists>p'. ppi_put (ecb_bus b) k PPIDE_CONTROL 10 (chip_set k p d s) = chip_set k p' d s \<and> prepared 0 False p'"
  using assms by (auto simp: line_commands put_line_chip move_lines_def prepared_def bit_unset_bit_iff Let_def)

text \<open>A turn starts with the end of the last write of the turn before: \<open>s\<close> is any state in which ending it leaves the chip prepared.\<close>

lemma output_turns_write:
  assumes "k < 2"
  shows "ppi_put (ecb_bus b) k PPIDE_CONTROL 10 t = chip_set k p d s \<Longrightarrow> prepared 0 False p \<Longrightarrow> 4 * n \<le> length bs \<Longrightarrow>
    \<exists>p'. ppi_put (ecb_bus b) k PPIDE_CONTROL 10 (output_turns (ecb_bus b) k n bs t) =
      chip_set k p' (q40_write_words (isa_bus b) k (2 * n) bs d) s \<and> prepared 0 False p'"
proof (induction n arbitrary: bs t p d)
  case (Suc n)
  obtain p1 p2 where p1: "ppi_put (ecb_bus b) k PPIDE_CONTROL 11 (ppi_put (ecb_bus b) k PPIDE_MSB (bs ! 1) (ppi_put (ecb_bus b) k PPIDE_LSB (bs ! 0)
      (chip_set k p d s))) = chip_set k p1 d s"
    and p2: "ppi_put (ecb_bus b) k PPIDE_CONTROL 10 (chip_set k p1 d s) = chip_set k p2 (data_write b k (be16 (bs ! 1) (bs ! 0)) d) s"
      "prepared 0 False p2"
    using output_word_writes [OF assms Suc.prems(2)] by metis
  let ?d = "data_write b k (be16 (bs ! 1) (bs ! 0)) d"
  obtain p3 p4 where p3: "ppi_put (ecb_bus b) k PPIDE_CONTROL 11 (ppi_put (ecb_bus b) k PPIDE_MSB (bs ! 3) (ppi_put (ecb_bus b) k PPIDE_LSB (bs ! 2)
      (chip_set k p2 ?d s))) = chip_set k p3 ?d s"
    and p4: "ppi_put (ecb_bus b) k PPIDE_CONTROL 10 (chip_set k p3 ?d s) = chip_set k p4 (data_write b k (be16 (bs ! 3) (bs ! 2)) ?d) s"
      "prepared 0 False p4"
    using output_word_writes [OF assms p2(2)] by metis
  have "drop 2 bs ! 0 = bs ! 2" "drop 2 bs ! 1 = bs ! 3" "drop 2 (drop 2 bs) = drop 4 bs"
    using Suc.prems(3) by simp_all
  then show ?case
    using Suc.IH [OF p4, of "drop 4 bs"] p1 p2(1) p3 Suc.prems(1,3) by (simp add: isa_accesses [OF assms] swapped_words)
qed auto

lemma select_data: "ppi_put io k PPIDE_SIGNALS PPIDE_REG_DATA s = ide_select_register io k 0 s"
  by (simp add: ide_select_register_def PPIDE_REG_DATA_def)

lemma sector_reads:
  assumes "quiet_world s" "k < 2"
  shows "\<exists>s'. ppide_transfer_sector_read (ecb_bus b) k s = (fst (q40_transfer_sector_read (isa_bus b) k (disks s)), s') \<and>
    disks s' = snd (q40_transfer_sector_read (isa_bus b) k (disks s)) \<and> quiet_world s'"
proof -
  let ?s = "s\<lparr>read_mode := (read_mode s)(k := True)\<rparr>"
  obtain p where p: "ide_select_register (ecb_bus b) k 0 (ide_set_data_direction (ecb_bus b) k True s) = chip_set k p (disks s) ?s"
    "prepared 0 True p"
    using register_addressed [OF assms(2) quiet_ppi [OF assms]] by metis
  obtain p' where q: "input_turns (ecb_bus b) k 128 (chip_set k p (disks s) ?s) =
      (fst (q40_read_words (isa_bus b) k 256 (disks s)), chip_set k p' (snd (q40_read_words (isa_bus b) k 256 (disks s))) ?s)"
    "prepared 0 True p'"
    using input_turns_read [OF assms(2) p(2), of b 128 "disks s" ?s] by auto
  show ?thesis
    using p(1) q(1) prepared_quiet [OF q(2) assms]
    by (auto simp: ppide_transfer_sector_read_def ide_sector_xfer_input_def q40_transfer_sector_read_def select_data)
qed

lemma sector_writes:
  assumes "quiet_world s" "k < 2" "length bs = 512"
  shows "disks (ppide_transfer_sector_write (ecb_bus b) k bs s) = q40_transfer_sector_write (isa_bus b) k bs (disks s) \<and>
    quiet_world (ppide_transfer_sector_write (ecb_bus b) k bs s)"
proof -
  let ?s = "s\<lparr>read_mode := (read_mode s)(k := False)\<rparr>"
  obtain p where p: "ide_select_register (ecb_bus b) k 0 (ide_set_data_direction (ecb_bus b) k False s) = chip_set k p (disks s) ?s"
    "prepared 0 False p"
    using register_addressed [OF assms(2) quiet_ppi [OF assms(1,2)]] by metis
  obtain p0 where p0: "ppi_put (ecb_bus b) k PPIDE_CONTROL 10 (chip_set k p (disks s) ?s) = chip_set k p0 (disks s) ?s" "prepared 0 False p0"
    using line_low [OF assms(2) p(2)] by metis
  obtain p' where "ppi_put (ecb_bus b) k PPIDE_CONTROL 10 (output_turns (ecb_bus b) k 128 bs (chip_set k p (disks s) ?s)) =
      chip_set k p' (q40_write_words (isa_bus b) k (2 * 128) bs (disks s)) ?s" "prepared 0 False p'"
    using output_turns_write [OF assms(2) p0, of 128 bs] assms(3) by auto
  then show ?thesis
    using p(1) prepared_quiet [of 0 False p' s k] assms(1,2)
    by (simp add: ppide_transfer_sector_write_def ide_sector_xfer_output_def q40_transfer_sector_write_def select_data)
qed

section \<open>The two interfaces agree\<close>

text \<open>Anything the driver can ask of its interface.\<close>

datatype ide_call = Get nat nat | Put nat nat u8 | Fetch nat | Store nat "u8 list" | Clock | Pause nat
datatype ide_answer = Byte u8 | Sector "u8 list" | Time u32 | Done

fun ask :: "'c ide_ops \<Rightarrow> ide_call \<Rightarrow> 'c \<Rightarrow> ide_answer \<times> 'c" where
  "ask io (Get k r) c = (case ide_get_register io k r c of (v, c) \<Rightarrow> (Byte v, c))"
| "ask io (Put k r v) c = (Done, ide_set_register io k r v c)"
| "ask io (Fetch k) c = (case ide_transfer_sector_read io k c of (bs, c) \<Rightarrow> (Sector bs, c))"
| "ask io (Store k bs) c = (Done, ide_transfer_sector_write io k bs c)"
| "ask io Clock c = (case gogoboot_read_timer io c of (t, c) \<Rightarrow> (Time t, c))"
| "ask io (Pause ms) c = (Done, delay_ms io ms c)"

fun conversation :: "'c ide_ops \<Rightarrow> ide_call list \<Rightarrow> 'c \<Rightarrow> ide_answer list \<times> 'c" where
  "conversation io [] c = ([], c)"
| "conversation io (q # qs) c = (case ask io q c of (a, c) \<Rightarrow> case conversation io qs c of (as, c) \<Rightarrow> (a # as, c))"

fun allowed :: "ide_call \<Rightarrow> bool" where
  "allowed (Get k r) \<longleftrightarrow> k < 2 \<and> task_file r"
| "allowed (Put k r v) \<longleftrightarrow> k < 2 \<and> task_file r"
| "allowed (Fetch k) \<longleftrightarrow> k < 2"
| "allowed (Store k bs) \<longleftrightarrow> k < 2 \<and> length bs = 512"
| "allowed _ \<longleftrightarrow> True"

text \<open>The reset line of a drive whose reset bit has just been set changes nothing more.\<close>

definition same_reset :: "'d ata_bus \<Rightarrow> bool" where
  "same_reset b \<longleftrightarrow> (\<forall>k v d. resets ATA_REG_ALTSTATUS v \<longrightarrow>
     hard_reset b k (reg_write b k ATA_REG_ALTSTATUS v d) = reg_write b k ATA_REG_ALTSTATUS v d)"

lemma register_written:
  assumes "same_reset b" "quiet_world s" "k < 2" "task_file r"
  shows "disks (ppide_set_register (ecb_bus b) k r v s) = reg_write b k r v (disks s)"
    "quiet_world (ppide_set_register (ecb_bus b) k r v s)"
  using set_register_writes [OF assms(2-4), of b v] assms(1) by (auto simp: same_reset_def resets_def)

lemma clock_reads:
  "gogoboot_read_timer (ppide_ops (ecb_bus b)) s =
     (fst (bus_timer b (disks s)), s\<lparr>ecb := (ecb s)\<lparr>drives := snd (bus_timer b (disks s))\<rparr>\<rparr>)"
  "delay_ms (ppide_ops (ecb_bus b)) ms s = s\<lparr>ecb := (ecb s)\<lparr>drives := bus_delay b ms (disks s)\<rparr>\<rparr>"
  by (simp_all add: ppide_ops_def ecb_bus_def disks_def split: prod.splits)

lemma drives_changed [simp]:
  "disks (s\<lparr>ecb := (ecb s)\<lparr>drives := d\<rparr>\<rparr>) = d" "quiet_world (s\<lparr>ecb := (ecb s)\<lparr>drives := d\<rparr>\<rparr>) = quiet_world s"
  by (simp_all add: disks_def quiet_world_def quiet_ppi_def Let_def)

lemma ask_agrees:
  assumes "same_reset b" "quiet_world s" "allowed q"
  shows "fst (ask (ppide_ops (ecb_bus b)) q s) = fst (ask (q40_ops (isa_bus b)) q (disks s)) \<and>
    disks (snd (ask (ppide_ops (ecb_bus b)) q s)) = snd (ask (q40_ops (isa_bus b)) q (disks s)) \<and>
    quiet_world (snd (ask (ppide_ops (ecb_bus b)) q s))"
proof (cases q)
  case (Get k r)
  then show ?thesis using get_register_reads [OF assms(2), of k r b] assms(3)
    by (auto simp: ppide_ops_def q40_ops_def isa_accesses split: prod.splits)
next
  case (Put k r v)
  then show ?thesis using register_written [OF assms(1,2), of k r v] assms(3)
    by (auto simp: ppide_ops_def q40_ops_def isa_accesses)
next
  case (Fetch k)
  then show ?thesis using sector_reads [OF assms(2), of k b] assms(3)
    by (auto simp: ppide_ops_def q40_ops_def split: prod.splits)
next
  case (Store k bs)
  then show ?thesis using sector_writes [OF assms(2), of k bs b] assms(3) by (auto simp: ppide_ops_def q40_ops_def)
next
  case Clock
  then show ?thesis using assms(2) by (simp add: clock_reads) (simp add: q40_ops_def isa_bus_def split: prod.splits)
next
  case (Pause ms)
  then show ?thesis using assms(2) by (simp add: clock_reads) (simp add: q40_ops_def isa_bus_def)
qed

text \<open>Configuring a controller makes its chip quiet, whatever the 8255 was doing but writing.\<close>

lemma configured:
  assumes "k < 2" "\<not> bit (port_c (chip_at k s)) 5"
  shows "disks (ppide_configure (ecb_bus b) k s) = disks s" "quiet_ppi (ppide_configure (ecb_bus b) k s) k"
    "j \<noteq> k \<Longrightarrow> quiet_ppi (ppide_configure (ecb_bus b) k s) j = quiet_ppi s j"
proof -
  have v: "bit PPIDE_PPI_BUS_READ 7" "bit PPIDE_PPI_BUS_READ 4" by (simp_all add: ppide_consts bit_numeral_rec)
  have "chip_out b k PPIDE_CONTROL PPIDE_PPI_BUS_READ (chip_at k s) d =
      ((chip_at k s)\<lparr>port_c := 0, port_a := 0, port_b := 0, inputs := True\<rparr>, d)" for d
    using assms(2) v by (simp add: chip_out_def PPIDE_CONTROL_def move_lines_def Let_def)
  then have e: "ppide_configure (ecb_bus b) k s = chip_set k ((chip_at k s)\<lparr>port_c := 0, port_a := 0, port_b := 0, inputs := True\<rparr>)
      (disks s) (s\<lparr>read_mode := (read_mode s)(k := True)\<rparr>)"
    using assms(1) by (simp add: ppide_configure_def ide_set_data_direction_def ppi_put_chip)
  show "disks (ppide_configure (ecb_bus b) k s) = disks s" "quiet_ppi (ppide_configure (ecb_bus b) k s) k"
    "j \<noteq> k \<Longrightarrow> quiet_ppi (ppide_configure (ecb_bus b) k s) j = quiet_ppi s j"
    unfolding e by (simp_all add: quiet_ppi_def chip_set_def with_chip_def disks_def Let_def)
qed

lemma conversations_agree:
  assumes "same_reset b"
  shows "quiet_world s \<Longrightarrow> \<forall>q \<in> set qs. allowed q \<Longrightarrow>
    map_prod id disks (conversation (ppide_ops (ecb_bus b)) qs s) = conversation (q40_ops (isa_bus b)) qs (disks s)"
proof (induction qs arbitrary: s)
  case (Cons q qs)
  from ask_agrees [OF assms Cons.prems(1), of q] Cons.prems(2) have a:
    "fst (ask (ppide_ops (ecb_bus b)) q s) = fst (ask (q40_ops (isa_bus b)) q (disks s))"
    "disks (snd (ask (ppide_ops (ecb_bus b)) q s)) = snd (ask (q40_ops (isa_bus b)) q (disks s))"
    "quiet_world (snd (ask (ppide_ops (ecb_bus b)) q s))" by simp_all
  from Cons.IH [OF a(3)] Cons.prems(2) show ?case unfolding a(2)
    using a(1) by (simp add: map_prod_def split: prod.splits) (metis a(2) fst_conv snd_conv)
qed simp

text \<open>C8. The 8255 interface is the ISA interface. Once its controllers are configured, whatever the 8255s were doing except
  writing, any sequence of register accesses, sector transfers, clock readings and delays has through it the answers and the effect on
  the drives that it has through the ISA bus of the Q40: every byte in order, and no access more or less.\<close>

theorem interfaces_agree:
  assumes "same_reset b" "\<forall>k<2. \<not> bit (port_c (chip_at k s)) 5" "\<forall>q \<in> set qs. allowed q"
    and "s' = ppide_configure (ecb_bus b) 1 (ppide_configure (ecb_bus b) 0 s)"
  shows "map_prod id disks (conversation (ppide_ops (ecb_bus b)) qs s') = conversation (q40_ops (isa_bus b)) qs (disks s)"
proof -
  let ?s = "ppide_configure (ecb_bus b) 0 s"
  have c0: "disks ?s = disks s" "quiet_ppi ?s 0" using configured [where k = 0 and s = s and b = b] assms(2) by simp_all
  have "chip_at 1 ?s = chip_at 1 s"
    by (simp add: ppide_configure_def ide_set_data_direction_def ppi_put_chip chip_set_def with_chip_def chip_at_def split: prod.splits)
  then have c1: "disks s' = disks s" "quiet_ppi s' 0" "quiet_ppi s' 1"
    using configured [where k = 1 and s = ?s and b = b] assms(2,4) c0 by simp_all
  then show ?thesis using conversations_agree [OF assms(1), of s' qs] assms(3) by (simp add: quiet_world_def)
qed

text \<open>A bus with one register file and a data register that counts on either channel.\<close>

definition sample_ata :: "((nat \<Rightarrow> nat \<Rightarrow> u8) \<times> u16) ata_bus" where
  "sample_ata = \<lparr>reg_read = (\<lambda>k r d. (fst d k r, d)), reg_write = (\<lambda>k r v d. (\<lambda>j. if j = k then (fst d j)(r := v) else fst d j, snd d)),
     data_read = (\<lambda>k d. (snd d, (fst d, snd d + 1))), data_write = (\<lambda>k w d. (fst d, w)), hard_reset = (\<lambda>k d. d),
     bus_timer = (\<lambda>d. (7, d)), bus_delay = (\<lambda>ms d. d)\<rparr>"

definition power_up :: "((nat \<Rightarrow> nat \<Rightarrow> u8) \<times> u16) ecb_world ppide" where
  "power_up = \<lparr>read_mode = (\<lambda>k. False), ecb = \<lparr>latches = (\<lambda>k. \<lparr>port_a = 1, port_b = 2, port_c = 0xDB, inputs = True, sampled = 3\<rparr>),
     drives = (\<lambda>k r. 0, 0x1234)\<rparr>\<rparr>"

theorem interfaces_agree_witness:
  "fst (conversation (ppide_ops (ecb_bus sample_ata)) [Put 1 2 5, Put 1 ATA_REG_ALTSTATUS 6, Get 1 2, Get 0 2, Clock]
     (ppide_configure (ecb_bus sample_ata) 1 (ppide_configure (ecb_bus sample_ata) 0 power_up))) =
   [Done, Done, Byte 5, Byte 0, Time 7]"
proof -
  let ?qs = "[Put 1 2 5, Put 1 ATA_REG_ALTSTATUS 6, Get 1 2, Get 0 2, Clock]"
  have "map_prod id disks (conversation (ppide_ops (ecb_bus sample_ata)) ?qs
      (ppide_configure (ecb_bus sample_ata) 1 (ppide_configure (ecb_bus sample_ata) 0 power_up))) =
    conversation (q40_ops (isa_bus sample_ata)) ?qs (disks power_up)"
    by (rule interfaces_agree [OF _ _ _ refl])
      (simp_all add: same_reset_def sample_ata_def power_up_def chip_at_def task_file_def bit_numeral_rec)
  then have "fst (map_prod id disks (conversation (ppide_ops (ecb_bus sample_ata)) ?qs
      (ppide_configure (ecb_bus sample_ata) 1 (ppide_configure (ecb_bus sample_ata) 0 power_up)))) =
    fst (conversation (q40_ops (isa_bus sample_ata)) ?qs (disks power_up))" by simp
  then show ?thesis
    by (simp add: q40_ops_def isa_accesses task_file_def ATA_REG_ALTSTATUS_def) (simp add: isa_bus_def sample_ata_def power_up_def disks_def)
qed

text \<open>So a drive that theory \<open>Ide_Drive\<close> accepts on the ISA bus is accepted behind an 8255 as well.\<close>

lemma ppide_ata:
  assumes "ata (q40_ops (isa_bus b)) k R ticks ready polls" "same_reset b" "k < 2"
  shows "ata (ppide_ops (ecb_bus b)) k (\<lambda>s d. quiet_world s \<and> R (disks s) d) (ticks \<circ> disks) (ready \<circ> disks) (polls \<circ> disks)"
proof -
  have regs: "task_file r" if "r \<in> {2 .. 6} \<or> r = ATA_REG_CMD \<or> r = ATA_REG_STATUS \<or> r = ATA_REG_ALTSTATUS" for r
    using that by (auto simp: task_file_def ide_regs)
  have set: "ide_set_register (ppide_ops (ecb_bus b)) k r v s = ppide_set_register (ecb_bus b) k r v s"
    "task_file r \<Longrightarrow> ide_set_register (q40_ops (isa_bus b)) k r v d = reg_write b k r v d" for r v s d
    using assms(3) by (simp_all add: ppide_ops_def q40_ops_def isa_accesses)
  have "ata_registers (ppide_ops (ecb_bus b)) k (\<lambda>s d. quiet_world s \<and> R (disks s) d)"
    using assms(1) register_written [OF assms(2) _ assms(3)] regs
    by (simp add: ata_def ata_registers_def set)
  moreover have "ata_data (ppide_ops (ecb_bus b)) k (\<lambda>s d. quiet_world s \<and> R (disks s) d)"
    unfolding ata_data_def
  proof (intro allI impI conjI)
    fix s d u l n assume s: "quiet_world s \<and> R (disks s) d" and r: "todo d = Reading u l (Suc n)"
    then obtain c' where "q40_transfer_sector_read (isa_bus b) k (disks s) = (medium d u l, c')" "R c' (d\<lparr>todo := next_todo Reading u l n\<rparr>)"
      using assms(1) by (fastforce simp: ata_def ata_data_def q40_ops_def)
    then show "\<exists>c'. ide_transfer_sector_read (ppide_ops (ecb_bus b)) k s = (medium d u l, c') \<and>
        quiet_world c' \<and> R (disks c') (d\<lparr>todo := next_todo Reading u l n\<rparr>)"
      using sector_reads [of s k b] s assms(3) by (auto simp: ppide_ops_def)
  next
    fix s d u l n bs assume s: "quiet_world s \<and> R (disks s) d" and w: "todo d = Writing u l (Suc n) \<and> length (bs :: u8 list) = 512"
    then have "R (q40_transfer_sector_write (isa_bus b) k bs (disks s)) (d\<lparr>medium := (medium d)(u := (medium d u)(l := bs)), todo := next_todo Writing u l n\<rparr>)"
      using assms(1) by (fastforce simp: ata_def ata_data_def q40_ops_def)
    then show "quiet_world (ide_transfer_sector_write (ppide_ops (ecb_bus b)) k bs s)"
      "R (disks (ide_transfer_sector_write (ppide_ops (ecb_bus b)) k bs s)) (d\<lparr>medium := (medium d)(u := (medium d u)(l := bs)), todo := next_todo Writing u l n\<rparr>)"
      using sector_writes [of s k bs b] s w assms(3) by (simp_all add: ppide_ops_def)
  qed
  moreover have "ata_status (ppide_ops (ecb_bus b)) k (\<lambda>s d. quiet_world s \<and> R (disks s) d) (ticks \<circ> disks) (ready \<circ> disks) (polls \<circ> disks)"
    unfolding ata_status_def
  proof (intro allI impI)
    fix s d assume s: "quiet_world s \<and> R (disks s) d"
    have get: "\<exists>s'. ide_get_register (ppide_ops (ecb_bus b)) k r s = (fst (reg_read b k r (disks s)), s') \<and>
        disks s' = snd (reg_read b k r (disks s)) \<and> quiet_world s'" if "task_file r" for r
      using get_register_reads [of s k r b] s assms(3) that by (simp add: ppide_ops_def)
    have q: "ide_get_register (q40_ops (isa_bus b)) k r c = reg_read b k r c" if "task_file r" for r c
      using assms(3) that by (simp add: q40_ops_def isa_accesses)
    have c: "gogoboot_read_timer (q40_ops (isa_bus b)) c = bus_timer b c" for c by (simp add: q40_ops_def isa_bus_def)
    note old = assms(1) [unfolded ata_def ata_status_def, THEN conjunct2, THEN conjunct2, rule_format, of "disks s" d]
    show "(ready \<circ> disks) s \<le> (ticks \<circ> disks) s + 500 \<and>
       (quiet_world (snd (ide_get_register (ppide_ops (ecb_bus b)) k ATA_REG_ALTSTATUS s)) \<and>
        R (disks (snd (ide_get_register (ppide_ops (ecb_bus b)) k ATA_REG_ALTSTATUS s))) d) \<and>
       (\<exists>st c'. ide_get_register (ppide_ops (ecb_bus b)) k ATA_REG_STATUS s = (st, c') \<and>
          same_drive (\<lambda>s d. quiet_world s \<and> R (disks s) d) (ticks \<circ> disks) (ready \<circ> disks) d s c' \<and>
          (if (ticks \<circ> disks) s < (ready \<circ> disks) s
           then st AND IDE_STATUS_BUSY \<noteq> 0 \<and> st \<noteq> 0xFF \<and> (polls \<circ> disks) c' < (polls \<circ> disks) s
           else st = (if todo d = Idle then 0x50 else 0x58))) \<and>
       (\<exists>c'. gogoboot_read_timer (ppide_ops (ecb_bus b)) s = (of_nat ((ticks \<circ> disks) s), c') \<and>
          same_drive (\<lambda>s d. quiet_world s \<and> R (disks s) d) (ticks \<circ> disks) (ready \<circ> disks) d s c' \<and> (polls \<circ> disks) c' \<le> (polls \<circ> disks) s)"
    proof (intro conjI)
      show "(ready \<circ> disks) s \<le> (ticks \<circ> disks) s + 500" using old s by simp
      have "R (snd (reg_read b k ATA_REG_ALTSTATUS (disks s))) d" using old s by (simp add: q [OF regs])
      then show "quiet_world (snd (ide_get_register (ppide_ops (ecb_bus b)) k ATA_REG_ALTSTATUS s))"
        "R (disks (snd (ide_get_register (ppide_ops (ecb_bus b)) k ATA_REG_ALTSTATUS s))) d"
        using get [OF regs, of ATA_REG_ALTSTATUS] by auto
      obtain st c' where st: "reg_read b k ATA_REG_STATUS (disks s) = (st, c')" "same_drive R ticks ready d (disks s) c'"
        "if ticks (disks s) < ready (disks s) then st AND IDE_STATUS_BUSY \<noteq> 0 \<and> st \<noteq> 0xFF \<and> polls c' < polls (disks s)
         else st = (if todo d = Idle then 0x50 else 0x58)"
        using old s by (auto simp only: q [OF regs] simp_thms)
      obtain s' where s': "ide_get_register (ppide_ops (ecb_bus b)) k ATA_REG_STATUS s = (st, s')" "disks s' = c'" "quiet_world s'"
        using get [OF regs, of ATA_REG_STATUS] st(1) by auto
      show "\<exists>st c'. ide_get_register (ppide_ops (ecb_bus b)) k ATA_REG_STATUS s = (st, c') \<and>
          same_drive (\<lambda>s d. quiet_world s \<and> R (disks s) d) (ticks \<circ> disks) (ready \<circ> disks) d s c' \<and>
          (if (ticks \<circ> disks) s < (ready \<circ> disks) s
           then st AND IDE_STATUS_BUSY \<noteq> 0 \<and> st \<noteq> 0xFF \<and> (polls \<circ> disks) c' < (polls \<circ> disks) s
           else st = (if todo d = Idle then 0x50 else 0x58))"
        by (rule exI [of _ st], rule exI [of _ s']) (use st(2,3) s' in \<open>simp add: same_drive_def\<close>)
      obtain t' where t': "bus_timer b (disks s) = (of_nat (ticks (disks s)), t')" "same_drive R ticks ready d (disks s) t'"
        "polls t' \<le> polls (disks s)" using old s by (auto simp only: c simp_thms)
      show "\<exists>c'. gogoboot_read_timer (ppide_ops (ecb_bus b)) s = (of_nat ((ticks \<circ> disks) s), c') \<and>
          same_drive (\<lambda>s d. quiet_world s \<and> R (disks s) d) (ticks \<circ> disks) (ready \<circ> disks) d s c' \<and> (polls \<circ> disks) c' \<le> (polls \<circ> disks) s"
        unfolding clock_reads using t' s by (simp add: same_drive_def)
    qed
  qed
  ultimately show ?thesis by (simp add: ata_def)
qed

end
