(* ===== verification/Ticks.thy ===== *)
theory Ticks
  imports Ppide MemOps
begin

text \<open>
  What makes the clock of theory \<open>Timer\<close> tick, and the other hardware that is set up at the start: the NS32202 interrupt controller of
  the ECB machines (\<^verbatim>\<open>ecb/timer.c\<close>), and the master chip of the Q40 (\<^verbatim>\<open>q40/hw.c\<close>, \<^verbatim>\<open>q40/timer.c\<close>). The state of the
  hardware is \<open>'c\<close>, with the processor's status register beside it. A halt is \<open>None\<close>. The write to the ROM that slows an access down
  is left out.
\<close>

section \<open>The interrupt controller\<close>

record 'c machine =
  hardware :: 'c
  status_register :: u16

text \<open>All interrupt levels are enabled.\<close>

definition cpu_interrupts_on :: "'c machine \<Rightarrow> 'c machine" where
  "cpu_interrupts_on s = s\<lparr>status_register := status_register s AND 0xF8FF\<rparr>"

definition NS32202_SVCT :: u16 where "NS32202_SVCT = 1"
definition NS32202_ELTG :: u16 where "NS32202_ELTG = 2"
definition NS32202_TPL :: u16 where "NS32202_TPL = 4"
definition NS32202_ISRV :: u16 where "NS32202_ISRV = 8"
definition NS32202_IMSK :: u16 where "NS32202_IMSK = 10"
definition NS32202_CSRC :: u16 where "NS32202_CSRC = 12"
definition NS32202_FPRT :: u16 where "NS32202_FPRT = 14"
definition NS32202_MCTL :: u16 where "NS32202_MCTL = 16"
definition NS32202_OCASN :: u16 where "NS32202_OCASN = 17"
definition NS32202_CIPTR :: u16 where "NS32202_CIPTR = 18"
definition NS32202_IPS :: u16 where "NS32202_IPS = 20"
definition NS32202_PDIR :: u16 where "NS32202_PDIR = 21"
definition NS32202_CCTL :: u16 where "NS32202_CCTL = 22"
definition NS32202_CICTL :: u16 where "NS32202_CICTL = 23"
definition NS32202_LCSV :: u16 where "NS32202_LCSV = 24"
definition NS32202_HCSV :: u16 where "NS32202_HCSV = 26"
definition NS32202_LCCV :: u16 where "NS32202_LCCV = 28"
definition NS32202_HCCV :: u16 where "NS32202_HCCV = 30"

lemmas ns32202_registers =
  NS32202_SVCT_def NS32202_ELTG_def NS32202_TPL_def NS32202_ISRV_def NS32202_IMSK_def NS32202_CSRC_def NS32202_FPRT_def NS32202_MCTL_def NS32202_OCASN_def NS32202_CIPTR_def NS32202_IPS_def NS32202_PDIR_def NS32202_CCTL_def NS32202_CICTL_def NS32202_LCSV_def NS32202_HCSV_def NS32202_LCCV_def NS32202_HCCV_def

definition MFPIC_NS32202 :: u16 where "MFPIC_NS32202 = 0x40"
definition MFPIC_CFGREG :: u16 where "MFPIC_CFGREG = 0x42"
definition MFPIC_UART_CLK :: u32 where "MFPIC_UART_CLK = 1843200"
definition MFPIC_TIMERH_IRQ :: nat where "MFPIC_TIMERH_IRQ = 13"
definition MFPIC_TIMERL_IRQ :: nat where "MFPIC_TIMERL_IRQ = 14"
definition MFPIC_UART_IRQ :: nat where "MFPIC_UART_IRQ = 12"
definition TIMER_HZ :: u32 where "TIMER_HZ = 200"
definition MCTL_NORMAL :: u8 where "MCTL_NORMAL = 0x02"
definition MCTL_NOCOUT :: u8 where "MCTL_NOCOUT = MCTL_NORMAL OR 0x40"
definition COUNT_PER_TICK :: u32 where "COUNT_PER_TICK = MFPIC_UART_CLK div TIMER_HZ"
definition NS32202_USABLE_IRQS :: u16 where "NS32202_USABLE_IRQS = 0x12FF"

text \<open>A register of the chip is at a high byte of the port address.\<close>

definition ns32202_port :: "u16 \<Rightarrow> u16" where "ns32202_port reg = MFPIC_NS32202 + push_bit 8 reg"

definition ns32202_read_reg_byte :: "'c ecb_io \<Rightarrow> u16 \<Rightarrow> 'c \<Rightarrow> u8 \<times> 'c" where
  "ns32202_read_reg_byte io reg c = ecb_in io (ns32202_port reg) c"

definition ns32202_write_reg_byte :: "'c ecb_io \<Rightarrow> u16 \<Rightarrow> u8 \<Rightarrow> 'c \<Rightarrow> 'c" where
  "ns32202_write_reg_byte io reg v c = ecb_out io (ns32202_port reg) v c"

definition ns32202_write_reg_word :: "'c ecb_io \<Rightarrow> u16 \<Rightarrow> u16 \<Rightarrow> 'c \<Rightarrow> 'c" where
  "ns32202_write_reg_word io reg v c =
     ecb_out io (ns32202_port (reg + 1)) (ucast (drop_bit 8 v)) (ecb_out io (ns32202_port reg) (ucast v) c)"

definition ns32202_read_reg_word :: "'c ecb_io \<Rightarrow> u16 \<Rightarrow> 'c \<Rightarrow> u16 \<times> 'c" where
  "ns32202_read_reg_word io reg c =
     (case ns32202_read_reg_byte io (reg + 1) c of (h, c) \<Rightarrow>
      case ns32202_read_reg_byte io reg c of (l, c) \<Rightarrow> (be16 h l, c))"

text \<open>A chip that does not keep the two counts halts the machine.\<close>

definition ns32202_test :: "'c ecb_io \<Rightarrow> u16 \<Rightarrow> u16 \<Rightarrow> 'c \<Rightarrow> 'c option" where
  "ns32202_test io high low c =
     (let c = ns32202_write_reg_word io NS32202_HCSV high c;
          c = ns32202_write_reg_word io NS32202_LCSV low c in
      case ns32202_read_reg_word io NS32202_HCSV c of (h, c) \<Rightarrow>
      case ns32202_read_reg_word io NS32202_LCSV c of (l, c) \<Rightarrow>
      if h = high \<and> l = low then Some c else None)"

definition ns32202_setup :: "'c ecb_io \<Rightarrow> 'c \<Rightarrow> 'c option" where
  "ns32202_setup io c = do {
     let byte = ns32202_write_reg_byte io;
     let wd = ns32202_write_reg_word io;
     let c = byte NS32202_CCTL 0x40 c;
     let c = byte NS32202_MCTL MCTL_NORMAL c;
     c \<leftarrow> ns32202_test io 0x1234 0x55AA c;
     c \<leftarrow> ns32202_test io 0xAA55 0x4321 c;
     let c = byte NS32202_MCTL MCTL_NOCOUT c;
     let c = byte NS32202_CCTL 0x40 c;
     let c = wd NS32202_LCSV 0xFFFF c;
     let c = wd NS32202_HCSV (ucast (COUNT_PER_TICK - 1)) c;
     let c = byte NS32202_CIPTR (of_nat MFPIC_TIMERL_IRQ OR push_bit 4 (of_nat MFPIC_TIMERH_IRQ)) c;
     let c = wd NS32202_HCCV 0 c;
     let c = wd NS32202_LCCV 0 c;
     let c = byte NS32202_CICTL 0x31 c;
     let c = byte NS32202_IPS 0xFF c;
     let c = byte NS32202_PDIR 0xFF c;
     let c = byte NS32202_OCASN 0x00 c;
     let c = wd NS32202_ISRV 0 c;
     let c = wd NS32202_CSRC 0 c;
     let c = byte NS32202_SVCT 0x00 c;
     let c = wd NS32202_IMSK 0xFFFF c;
     let c = byte NS32202_MCTL MCTL_NORMAL c;
     let c = wd NS32202_ISRV 0 c;
     let c = wd NS32202_CSRC 0 c;
     let c = wd NS32202_ISRV 0 c;
     let c = byte NS32202_FPRT (of_nat MFPIC_UART_IRQ) c;
     let c = wd NS32202_TPL NS32202_USABLE_IRQS c;
     let c = wd NS32202_ELTG 0 c;
     let c = byte NS32202_MCTL MCTL_NORMAL c;
     let c = byte NS32202_CCTL 0x48 c;
     let c = ecb_out io MFPIC_CFGREG 0x44 c;
     let (m, c) = ns32202_read_reg_word io NS32202_IMSK c;
     Some (wd NS32202_IMSK (m AND NOT (push_bit MFPIC_TIMERH_IRQ 1)) c) }"

definition setup_interrupts :: "'c ecb_io \<Rightarrow> 'c machine \<Rightarrow> 'c machine option" where
  "setup_interrupts io s = map_option (\<lambda>c. cpu_interrupts_on (s\<lparr>hardware := c\<rparr>)) (ns32202_setup io (hardware s))"

section \<open>The Q40\<close>

record 'c q40_io =
  master_in :: "u32 \<Rightarrow> 'c \<Rightarrow> u8 \<times> 'c"
  master_out :: "u32 \<Rightarrow> u8 \<Rightarrow> 'c \<Rightarrow> 'c"

definition MASTER_ADDRESS :: u32 where "MASTER_ADDRESS = 0xFF000000"

definition q40_set :: "'c q40_io \<Rightarrow> u32 \<Rightarrow> u8 \<Rightarrow> 'c \<Rightarrow> 'c" where
  "q40_set io offset v c = master_out io (MASTER_ADDRESS + offset) v c"

definition q40_interrupt_status :: u32 where "q40_interrupt_status = 0x00"
definition q40_keyboard_interrupt_enable :: u32 where "q40_keyboard_interrupt_enable = 0x08"
definition q40_isa_interrupt_enable :: u32 where "q40_isa_interrupt_enable = 0x10"
definition q40_sample_interrupt_enable :: u32 where "q40_sample_interrupt_enable = 0x14"
definition q40_display_control :: u32 where "q40_display_control = 0x18"
definition q40_keyboard_interrupt_ack :: u32 where "q40_keyboard_interrupt_ack = 0x20"
definition q40_frame_interrupt_ack :: u32 where "q40_frame_interrupt_ack = 0x24"
definition q40_sample_interrupt_ack :: u32 where "q40_sample_interrupt_ack = 0x28"
definition q40_sample_rate :: u32 where "q40_sample_rate = 0x2C"
definition q40_led_control :: u32 where "q40_led_control = 0x30"
definition q40_isa_bus_reset :: u32 where "q40_isa_bus_reset = 0x34"
definition q40_frame_rate :: u32 where "q40_frame_rate = 0x38"

definition q40_setup_interrupts :: "'c q40_io \<Rightarrow> 'c machine \<Rightarrow> 'c machine" where
  "q40_setup_interrupts io s =
     (let c = q40_set io q40_keyboard_interrupt_enable 0 (hardware s);
          c = q40_set io q40_isa_interrupt_enable 0 c;
          c = q40_set io q40_sample_interrupt_enable 0 c;
          c = q40_set io q40_sample_rate 0 c;
          c = q40_set io q40_frame_rate (if TIMER_HZ = 200 then 1 else 0) c;
          c = q40_set io q40_keyboard_interrupt_ack 0xFF c;
          c = q40_set io q40_frame_interrupt_ack 0xFF c;
          c = q40_set io q40_sample_interrupt_ack 0xFF c
      in cpu_interrupts_on (s\<lparr>hardware := c\<rparr>))"

fun q40_delay :: "'c q40_io \<Rightarrow> nat \<Rightarrow> 'c \<Rightarrow> 'c" where
  "q40_delay io 0 c = c"
| "q40_delay io (Suc n) c = q40_delay io n (snd (master_in io (MASTER_ADDRESS + q40_interrupt_status) c))"

definition q40_isa_reset :: "'c q40_io \<Rightarrow> 'c \<Rightarrow> 'c" where
  "q40_isa_reset io c = q40_set io q40_isa_bus_reset 0 (q40_delay io 100000 (q40_set io q40_isa_bus_reset 0xFF c))"

definition q40_led :: "'c q40_io \<Rightarrow> bool \<Rightarrow> 'c \<Rightarrow> 'c" where
  "q40_led io on c = q40_set io q40_led_control (if on then 0xFF else 0) c"

definition early_init :: "'c q40_io \<Rightarrow> 'c \<Rightarrow> 'c" where
  "early_init io c = q40_led io True (q40_isa_reset io c)"

text \<open>The mode is programmed and the video memory filled.\<close>

definition q40_graphics_init :: "'c q40_io \<Rightarrow> u32 \<Rightarrow> 'c \<Rightarrow> memory \<Rightarrow> 'c \<times> memory" where
  "q40_graphics_init io mode c m =
     (q40_set io q40_display_control (ucast (mode AND 3)) c, memset 0xFE800000 0xAA (1024 * 1024) m)"

definition target_hardware_init :: "'c q40_io \<Rightarrow> 'c \<Rightarrow> memory \<Rightarrow> 'c \<times> memory" where
  "target_hardware_init io c m = q40_graphics_init io 3 c m"

section \<open>Two hundred ticks a second\<close>

text \<open>What was last written to every port, on a bus whose accesses do not disturb this; the counts and the mask of the chip can be read back.\<close>

definition keeps_writes :: "'c ecb_io \<Rightarrow> ('c \<Rightarrow> u16 \<Rightarrow> u8) \<Rightarrow> bool" where
  "keeps_writes io latch \<longleftrightarrow>
     (\<forall>a v c. latch (ecb_out io a v c) = (latch c)(a := v)) \<and> (\<forall>a c. latch (snd (ecb_in io a c)) = latch c) \<and>
     (\<forall>c. \<forall>r \<in> {NS32202_LCSV, NS32202_LCSV + 1, NS32202_HCSV, NS32202_HCSV + 1, NS32202_IMSK, NS32202_IMSK + 1}.
        fst (ecb_in io (ns32202_port r) c) = latch c (ns32202_port r))"

definition chip_word :: "(u16 \<Rightarrow> u8) \<Rightarrow> u16 \<Rightarrow> u16" where
  "chip_word f r = be16 (f (ns32202_port (r + 1))) (f (ns32202_port r))"

definition chip_byte :: "(u16 \<Rightarrow> u8) \<Rightarrow> u16 \<Rightarrow> u8" where "chip_byte f r = f (ns32202_port r)"

definition latch_byte :: "u16 \<Rightarrow> u8 \<Rightarrow> (u16 \<Rightarrow> u8) \<Rightarrow> u16 \<Rightarrow> u8" where "latch_byte r v f = f(ns32202_port r := v)"
definition latch_word :: "u16 \<Rightarrow> u16 \<Rightarrow> (u16 \<Rightarrow> u8) \<Rightarrow> u16 \<Rightarrow> u8" where
  "latch_word r v f = f(ns32202_port r := ucast v, ns32202_port (r + 1) := ucast (drop_bit 8 v))"

lemma ports_differ: "r < 32 \<Longrightarrow> q < 32 \<Longrightarrow> ns32202_port r = ns32202_port q \<longleftrightarrow> r = q"
proof -
  assume "r < 32" "q < 32"
  then have "unat (push_bit 8 r) = 256 * unat r" "unat (push_bit 8 q) = 256 * unat q"
    by (simp_all add: push_bit_eq_mult word_less_nat_alt unat_mult_lem [THEN iffD1] mult.commute)
  then have "push_bit 8 r = push_bit 8 q \<longleftrightarrow> r = q" unfolding word_unat_eq_iff by simp
  then show "ns32202_port r = ns32202_port q \<longleftrightarrow> r = q" by (simp add: ns32202_port_def)
qed

lemma word_kept: "be16 (ucast (drop_bit 8 w)) (ucast w) = (w :: u16)"
  by (rule bit_word_eqI) (auto simp: be16_def bit_simps)

lemma written:
  assumes keeps: "keeps_writes io latch"
  shows "latch (ns32202_write_reg_byte io r v c) = latch_byte r v (latch c)"
  "latch (ns32202_write_reg_word io r w c) = latch_word r w (latch c)"
  "latch (ecb_out io a v c) = (latch c)(a := v)"
  using keeps by (simp_all add: keeps_writes_def ns32202_write_reg_byte_def ns32202_write_reg_word_def latch_byte_def latch_word_def)

lemma read_back:
  assumes keeps: "keeps_writes io latch" and r: "r \<in> {NS32202_LCSV, NS32202_HCSV, NS32202_IMSK}"
  shows "\<exists>c'. ns32202_read_reg_word io r c = (chip_word (latch c) r, c') \<and> latch c' = latch c"
proof -
  obtain h c1 where 1: "ecb_in io (ns32202_port (r + 1)) c = (h, c1)" by fastforce
  obtain l c2 where 2: "ecb_in io (ns32202_port r) c1 = (l, c2)" by fastforce
  have k: "latch (snd (ecb_in io a c)) = latch c" for a c using keeps by (simp add: keeps_writes_def)
  have f: "fst (ecb_in io (ns32202_port (r + 1)) c) = latch c (ns32202_port (r + 1))" "fst (ecb_in io (ns32202_port r) c1) = latch c1 (ns32202_port r)"
    using keeps r by (auto simp: keeps_writes_def)
  have "latch c1 = latch c" "latch c2 = latch c1" using k [of "ns32202_port (r + 1)" c] k [of "ns32202_port r" c1] 1 2 by simp_all
  then show ?thesis using f 1 2 by (simp add: ns32202_read_reg_word_def ns32202_read_reg_byte_def chip_word_def)
qed

lemma test_passed:
  assumes keeps: "keeps_writes io latch"
  shows "\<exists>c'. ns32202_test io high low c = Some c' \<and>
    latch c' = latch_word NS32202_LCSV low (latch_word NS32202_HCSV high (latch c))"
proof -
  let ?c = "ns32202_write_reg_word io NS32202_LCSV low (ns32202_write_reg_word io NS32202_HCSV high c)"
  have r: "latch ?c = latch_word NS32202_LCSV low (latch_word NS32202_HCSV high (latch c))" by (simp add: written [OF keeps])
  obtain c1 where 1: "ns32202_read_reg_word io NS32202_HCSV ?c = (chip_word (latch ?c) NS32202_HCSV, c1)" "latch c1 = latch ?c"
    using read_back [OF keeps, of NS32202_HCSV ?c] by auto
  obtain c2 where 2: "ns32202_read_reg_word io NS32202_LCSV c1 = (chip_word (latch c1) NS32202_LCSV, c2)" "latch c2 = latch c1"
    using read_back [OF keeps, of NS32202_LCSV c1] by auto
  have "chip_word (latch ?c) NS32202_HCSV = high" "chip_word (latch c1) NS32202_LCSV = low"
    unfolding 1(2) r by (simp_all add: chip_word_def latch_word_def ports_differ ns32202_registers word_kept)
  then show ?thesis using 1 2 r by (simp add: ns32202_test_def Let_def)
qed

text \<open>The latches behind the set-up; the mask that is read back is the one written before.\<close>

definition setup_latches :: "(u16 \<Rightarrow> u8) \<Rightarrow> u16 \<Rightarrow> u8" where
  "setup_latches =
     latch_word NS32202_IMSK (0xFFFF AND NOT (push_bit MFPIC_TIMERH_IRQ 1)) \<circ>
     (\<lambda>f. f(MFPIC_CFGREG := 0x44)) \<circ>
     latch_byte NS32202_CCTL 0x48 \<circ>
     latch_byte NS32202_MCTL MCTL_NORMAL \<circ>
     latch_word NS32202_ELTG 0 \<circ>
     latch_word NS32202_TPL NS32202_USABLE_IRQS \<circ>
     latch_byte NS32202_FPRT (of_nat MFPIC_UART_IRQ) \<circ>
     latch_word NS32202_ISRV 0 \<circ>
     latch_word NS32202_CSRC 0 \<circ>
     latch_word NS32202_ISRV 0 \<circ>
     latch_byte NS32202_MCTL MCTL_NORMAL \<circ>
     latch_word NS32202_IMSK 0xFFFF \<circ>
     latch_byte NS32202_SVCT 0x00 \<circ>
     latch_word NS32202_CSRC 0 \<circ>
     latch_word NS32202_ISRV 0 \<circ>
     latch_byte NS32202_OCASN 0x00 \<circ>
     latch_byte NS32202_PDIR 0xFF \<circ>
     latch_byte NS32202_IPS 0xFF \<circ>
     latch_byte NS32202_CICTL 0x31 \<circ>
     latch_word NS32202_LCCV 0 \<circ>
     latch_word NS32202_HCCV 0 \<circ>
     latch_byte NS32202_CIPTR (of_nat MFPIC_TIMERL_IRQ OR push_bit 4 (of_nat MFPIC_TIMERH_IRQ)) \<circ>
     latch_word NS32202_HCSV (ucast (COUNT_PER_TICK - 1)) \<circ>
     latch_word NS32202_LCSV 0xFFFF \<circ>
     latch_byte NS32202_CCTL 0x40 \<circ>
     latch_byte NS32202_MCTL MCTL_NOCOUT \<circ>
     latch_word NS32202_LCSV 0x4321 \<circ>
     latch_word NS32202_HCSV 0xAA55 \<circ>
     latch_word NS32202_LCSV 0x55AA \<circ>
     latch_word NS32202_HCSV 0x1234 \<circ>
     latch_byte NS32202_MCTL MCTL_NORMAL \<circ>
     latch_byte NS32202_CCTL 0x40"

lemma next_register: "r < 31 \<Longrightarrow> r + 1 < (32 :: u16)" "r < 31 \<Longrightarrow> r < (32 :: u16)"
proof -
  assume "r < 31"
  then have "unat r < 31" by (simp add: word_less_nat_alt)
  moreover from this have "unat (r + 1) = unat r + 1" by (simp add: unat_word_ariths)
  ultimately show "r + 1 < 32" "r < 32" by (simp_all add: word_less_nat_alt)
qed

lemma latch_simps:
  "r < 31 \<Longrightarrow> chip_word (latch_word r v f) r = v"
  "q < 31 \<Longrightarrow> r < 31 \<Longrightarrow> q \<noteq> r \<Longrightarrow> q \<noteq> r + 1 \<Longrightarrow> q + 1 \<noteq> r \<Longrightarrow> chip_word (latch_word q v f) r = chip_word f r"
  "q < 31 \<Longrightarrow> r < 31 \<Longrightarrow> q \<noteq> r \<Longrightarrow> q \<noteq> r + 1 \<Longrightarrow> chip_word (latch_byte q b f) r = chip_word f r"
  "q < 31 \<Longrightarrow> r < 31 \<Longrightarrow> q \<noteq> r \<Longrightarrow> q + 1 \<noteq> r \<Longrightarrow> chip_byte (latch_word q v f) r = chip_byte f r"
  "r < 31 \<Longrightarrow> chip_byte (latch_byte r b f) r = b"
  "q < 31 \<Longrightarrow> r < 31 \<Longrightarrow> q \<noteq> r \<Longrightarrow> chip_byte (latch_byte q b f) r = chip_byte f r"
  by (auto simp: chip_word_def chip_byte_def latch_word_def latch_byte_def ports_differ next_register word_kept)

lemma config_apart: "q < 32 \<Longrightarrow> ns32202_port q \<noteq> MFPIC_CFGREG"
proof -
  assume "q < 32"
  then have "unat (push_bit 8 q) = 256 * unat q" "unat q < 32"
    by (simp_all add: push_bit_eq_mult word_less_nat_alt unat_mult_lem [THEN iffD1] mult.commute)
  then show "ns32202_port q \<noteq> MFPIC_CFGREG"
    by (auto simp: ns32202_port_def MFPIC_NS32202_def MFPIC_CFGREG_def word_unat_eq_iff unat_word_ariths)
qed

lemma config_latch:
  "r < 31 \<Longrightarrow> chip_byte (f(MFPIC_CFGREG := b)) r = chip_byte f r"
  "r < 31 \<Longrightarrow> chip_word (f(MFPIC_CFGREG := b)) r = chip_word f r"
  by (simp_all add: chip_byte_def chip_word_def config_apart next_register)

lemma config_kept:
  "r < 31 \<Longrightarrow> latch_word r v f MFPIC_CFGREG = f MFPIC_CFGREG" "r < 32 \<Longrightarrow> latch_byte r b f MFPIC_CFGREG = f MFPIC_CFGREG"
  using config_apart [of r] config_apart [of "r + 1"] next_register [of r] by (auto simp: latch_word_def latch_byte_def)

lemma setup_latched:
  assumes "keeps_writes io latch"
  shows "\<exists>c'. ns32202_setup io c = Some c' \<and> latch c' = setup_latches (latch c)"
proof -
  note w = written [OF assms]
  let ?byte = "ns32202_write_reg_byte io"
  let ?c0 = "?byte NS32202_MCTL MCTL_NORMAL (?byte NS32202_CCTL 0x40 c)"
  obtain c1 where 1: "ns32202_test io 0x1234 0x55AA ?c0 = Some c1"
    "latch c1 = latch_word NS32202_LCSV 0x55AA (latch_word NS32202_HCSV 0x1234 (latch ?c0))" using test_passed [OF assms] by blast
  obtain c2 where 2: "ns32202_test io 0xAA55 0x4321 c1 = Some c2"
    "latch c2 = latch_word NS32202_LCSV 0x4321 (latch_word NS32202_HCSV 0xAA55 (latch c1))" using test_passed [OF assms] by blast
  have read: "\<exists>c'. ns32202_read_reg_word io NS32202_IMSK d = (chip_word (latch d) NS32202_IMSK, c') \<and> latch c' = latch d" for d
    by (rule read_back [OF assms]) simp
  let ?wd = "ns32202_write_reg_word io"
  define c3 where "c3 = ecb_out io MFPIC_CFGREG 0x44 (?byte NS32202_CCTL 0x48 (?byte NS32202_MCTL MCTL_NORMAL (?wd NS32202_ELTG 0 (?wd NS32202_TPL NS32202_USABLE_IRQS (?byte NS32202_FPRT (of_nat MFPIC_UART_IRQ) (?wd NS32202_ISRV 0 (?wd NS32202_CSRC 0 (?wd NS32202_ISRV 0 (?byte NS32202_MCTL MCTL_NORMAL (?wd NS32202_IMSK 0xFFFF (?byte NS32202_SVCT 0x00 (?wd NS32202_CSRC 0 (?wd NS32202_ISRV 0 (?byte NS32202_OCASN 0x00 (?byte NS32202_PDIR 0xFF (?byte NS32202_IPS 0xFF (?byte NS32202_CICTL 0x31 (?wd NS32202_LCCV 0 (?wd NS32202_HCCV 0 (?byte NS32202_CIPTR (of_nat MFPIC_TIMERL_IRQ OR push_bit 4 (of_nat MFPIC_TIMERH_IRQ)) (?wd NS32202_HCSV (ucast (COUNT_PER_TICK - 1)) (?wd NS32202_LCSV 0xFFFF (?byte NS32202_CCTL 0x40 (?byte NS32202_MCTL MCTL_NOCOUT c2))))))))))))))))))))))))"
  have e: "ns32202_setup io c = (case ns32202_read_reg_word io NS32202_IMSK c3 of (m, c) \<Rightarrow>
      Some (?wd NS32202_IMSK (m AND NOT (push_bit MFPIC_TIMERH_IRQ 1)) c))"
    by (simp add: ns32202_setup_def Let_def 1 2 c3_def)
  define f where "f = latch c3"
  have m: "chip_word f NS32202_IMSK = 0xFFFF" unfolding f_def c3_def w by (simp add: latch_simps config_latch ns32202_registers)
  obtain c4 where 4: "ns32202_read_reg_word io NS32202_IMSK c3 = (0xFFFF, c4)" "latch c4 = f" using read [of c3] m by (auto simp: f_def)
  have "setup_latches (latch c) = latch_word NS32202_IMSK (0xFFFF AND NOT (push_bit MFPIC_TIMERH_IRQ 1)) f"
    unfolding setup_latches_def f_def c3_def by (simp only: w 1 2 o_apply)
  then show ?thesis unfolding e 4 prod.case using 4(2) by (simp add: w)
qed

lemma setup_words:
  "chip_word (setup_latches f) NS32202_HCSV = 9215" "chip_word (setup_latches f) NS32202_HCCV = 0"
  "chip_byte (setup_latches f) NS32202_CCTL = 0x48" "chip_byte (setup_latches f) NS32202_CICTL = 0x31"
  "chip_byte (setup_latches f) NS32202_MCTL = MCTL_NORMAL" "chip_byte (setup_latches f) NS32202_CIPTR = 0xDE"
  "chip_word (setup_latches f) NS32202_IMSK = 0xDFFF" "chip_word (setup_latches f) NS32202_ISRV = 0"
  "chip_word (setup_latches f) NS32202_CSRC = 0" "chip_word (setup_latches f) NS32202_ELTG = 0"
  "chip_word (setup_latches f) NS32202_TPL = NS32202_USABLE_IRQS" "setup_latches f MFPIC_CFGREG = 0x44"
  by (simp_all add: setup_latches_def latch_simps config_latch ns32202_registers COUNT_PER_TICK_def MFPIC_UART_CLK_def TIMER_HZ_def
      MFPIC_TIMERH_IRQ_def MFPIC_TIMERL_IRQ_def config_kept)

lemma setup_others: "a \<noteq> MFPIC_CFGREG \<and> (\<forall>r < 32. a \<noteq> ns32202_port r) \<Longrightarrow> setup_latches f a = f a"
proof -
  assume a: "a \<noteq> MFPIC_CFGREG \<and> (\<forall>r < 32. a \<noteq> ns32202_port r)"
  then have "latch_word r v g a = g a" if "r < 31" for r v g using that by (simp add: latch_word_def next_register)
  moreover have "latch_byte r b g a = g a" if "r < 32" for r b g using a that by (simp add: latch_byte_def)
  ultimately show "setup_latches f a = f a" using a by (simp add: setup_latches_def ns32202_registers)
qed

text \<open>C21. The interrupt controller ticks two hundred times a second and interrupts for nothing else. On a controller that keeps its counts
  and its mask, the set-up ends with the high counter, the only one that runs, dividing the crystal by exactly the number of counts in a
  two-hundredth of a second, its interrupt on line 13, every other line masked, and all interrupt levels of the processor open; no other port is written.\<close>

theorem ticks_programmed:
  assumes "keeps_writes io latch"
  shows "\<exists>s'. setup_interrupts io s = Some s' \<and>
    (let f = latch (hardware s') in
     200 * (unat (chip_word f NS32202_HCSV) + 1) = unat MFPIC_UART_CLK \<and> chip_word f NS32202_HCCV = 0 \<and>
     chip_byte f NS32202_CCTL = 0x48 \<and> chip_byte f NS32202_CICTL = 0x31 \<and> chip_byte f NS32202_MCTL = MCTL_NORMAL \<and>
     drop_bit 4 (chip_byte f NS32202_CIPTR) = 13 \<and> chip_byte f NS32202_CIPTR AND 0x0F = 14 \<and>
     (\<forall>i<16. bit (chip_word f NS32202_IMSK) i \<longleftrightarrow> i \<noteq> 13) \<and>
     chip_word f NS32202_ISRV = 0 \<and> chip_word f NS32202_CSRC = 0 \<and> chip_word f NS32202_ELTG = 0 \<and>
     chip_word f NS32202_TPL = NS32202_USABLE_IRQS \<and> f MFPIC_CFGREG = 0x44 \<and>
     (\<forall>a. a \<noteq> MFPIC_CFGREG \<and> (\<forall>r < 32. a \<noteq> ns32202_port r) \<longrightarrow> f a = latch (hardware s) a)) \<and>
    status_register s' = status_register s AND 0xF8FF"
proof -
  obtain c' where c: "ns32202_setup io (hardware s) = Some c'" "latch c' = setup_latches (latch (hardware s))"
    using setup_latched [OF assms] by blast
  define f where "f = setup_latches (latch (hardware s))"
  note words = setup_words [of "latch (hardware s)", folded f_def] and other = setup_others [of _ "latch (hardware s)", folded f_def]
  have open_line: "bit (0xDFFF :: u16) i \<longleftrightarrow> i \<noteq> 13" if "i < 16" for i
  proof -
    have "(0xDFFF :: u16) = NOT (push_bit 13 1)" by simp
    moreover have "bit (NOT (push_bit 13 1 :: u16)) i \<longleftrightarrow> i \<noteq> 13"
      using that unfolding bit_not_iff bit_push_bit_iff by (auto simp: bit_1_iff)
    ultimately show ?thesis by (simp only:)
  qed
  then have "\<forall>i<16. bit (chip_word f NS32202_IMSK) i \<longleftrightarrow> i \<noteq> 13" unfolding words(7) by blast
  moreover have "200 * (unat (chip_word f NS32202_HCSV) + 1) = unat MFPIC_UART_CLK" by (simp add: words MFPIC_UART_CLK_def)
  ultimately show ?thesis using c words other
    by (auto simp: setup_interrupts_def cpu_interrupts_on_def Let_def simp flip: f_def)
qed

theorem ticks_programmed_witness:
  "\<exists>s'. setup_interrupts \<lparr>ecb_in = (\<lambda>a c. (c a, c)), ecb_out = (\<lambda>a v c. c(a := v)), ecb_timer = (\<lambda>c. (0, c)), ecb_delay = (\<lambda>n c. c)\<rparr>
      \<lparr>hardware = (\<lambda>a. 0), status_register = 0x2700\<rparr> = Some s' \<and> chip_byte (hardware s') NS32202_CCTL = 0x48 \<and> status_register s' = 0x2000"
proof -
  let ?io = "\<lparr>ecb_in = (\<lambda>a c. (c a, c)), ecb_out = (\<lambda>a v c. c(a := v)), ecb_timer = (\<lambda>c. (0, c)), ecb_delay = (\<lambda>n c. c)\<rparr> :: (u16 \<Rightarrow> u8) ecb_io"
  have "keeps_writes ?io (\<lambda>c. c)" by (simp add: keeps_writes_def)
  from ticks_programmed [OF this, of "\<lparr>hardware = (\<lambda>a. 0), status_register = 0x2700\<rparr>"] show ?thesis
    by (auto simp: Let_def)
qed

text \<open>Without a controller, where every read returns what the bus floats to, the machine halts.\<close>

lemma absent_controller_halts:
  assumes "\<forall>a c. fst (ecb_in io a c) = 0xFF"
  shows "setup_interrupts io s = None"
proof -
  have e: "\<exists>c'. ecb_in io a c = (0xFF, c')" for a c using assms by (cases "ecb_in io a c") (metis fst_conv)
  have read: "\<exists>c'. ns32202_read_reg_word io r c = (0xFFFF, c')" for r c
  proof -
    obtain c1 where 1: "ecb_in io (ns32202_port (r + 1)) c = (0xFF, c1)" using e by blast
    obtain c2 where 2: "ecb_in io (ns32202_port r) c1 = (0xFF, c2)" using e by blast
    show ?thesis using 1 2 by (simp add: ns32202_read_reg_word_def ns32202_read_reg_byte_def be16_def)
  qed
  have "ns32202_test io 0x1234 0x55AA c = None" for c
  proof -
    let ?c = "ns32202_write_reg_word io NS32202_LCSV 0x55AA (ns32202_write_reg_word io NS32202_HCSV 0x1234 c)"
    obtain c1 where 1: "ns32202_read_reg_word io NS32202_HCSV ?c = (0xFFFF, c1)" using read by blast
    obtain c2 where 2: "ns32202_read_reg_word io NS32202_LCSV c1 = (0xFFFF, c2)" using read by blast
    show ?thesis using 1 2 by (simp add: ns32202_test_def Let_def)
  qed
  then show ?thesis by (simp add: setup_interrupts_def ns32202_setup_def Let_def)
qed

end
