(* ===== verification/Startup.thy ===== *)
theory Startup
  imports NetPump
begin

text \<open>
  The start of the network: \<open>net_init\<close> of \<^verbatim>\<open>net/net.c\<close> and the part of \<^verbatim>\<open>gogoboot\<close> of \<^verbatim>\<open>core/boot.c\<close> that calls it, looks
  for the card and starts the DHCP client; then the turns of the stack while the command line waits. The state before is that of the static
  variables. The numbers of the four sinks stand for the addresses \<^verbatim>\<open>packet_sink_alloc\<close> returns.
\<close>

definition net_init :: "nat \<Rightarrow> nat \<Rightarrow> nat \<Rightarrow> 'a net_scheme \<Rightarrow> 'a net_scheme option" where
  "net_init i j k s = do {
     let s = s\<lparr>txq := [], arpq := []\<rparr>;
     s \<leftarrow> net_arp_init i s;
     net_icmp_init j k s }"

definition start_network :: "nat \<Rightarrow> nat \<Rightarrow> nat \<Rightarrow> nat \<Rightarrow> 'a dhcp_net_scheme \<Rightarrow> 'a dhcp_net_scheme option" where
  "start_network i j k l s = do {
     s \<leftarrow> net_init i j k s;
     (case eth_init (if_mac (conf s)) (card s) of (found, mac, c) \<Rightarrow>
        let s = s\<lparr>conf := (conf s)\<lparr>if_mac := mac\<rparr>, card := c\<rparr>
        in if found then dhcp_init l s else Some s) }"

text \<open>The variables before the start; the static ones are zero.\<close>

definition fresh_network :: "'a dhcp_net_scheme \<Rightarrow> bool" where
  "fresh_network s \<longleftrightarrow> sinks s = [] \<and> alive s = 0 \<and> cache s = [] \<and> select_wait_time s = 5 \<and> length (if_mac (conf s)) = 6"

text \<open>Between two turns time passes, and memory that is not cleared takes any value.\<close>

inductive turn :: "'a dhcp_net_scheme \<Rightarrow> 'a dhcp_net_scheme \<Rightarrow> bool" where
  "net_pump (s\<lparr>now := t, junk := bytes\<rparr>) = Some s' \<Longrightarrow> turn s s'"

inductive_cases turnE: "turn s s'"

section \<open>The first state\<close>

definition sinks_ok :: "nat set \<Rightarrow> 'a net_scheme \<Rightarrow> bool" where
  "sinks_ok X s \<longleftrightarrow> sorted_sinks (sinks s) \<and> distinct (map sid (sinks s)) \<and> set (map sid (sinks s)) = X \<and> queued (sinks s) = 0"

lemma add_sink_state:
  assumes "net_add_packet_sink k s = Some s'" "sinks_ok X s" "sid k \<notin> X" "squeue k = []"
  shows "sinks_ok (insert (sid k) X) s'" "\<exists>ks. s' = s\<lparr>sinks := ks\<rparr>"
proof -
  have n: "sid k \<notin> set (map sid (sinks s))" using assms(2,3) by (simp add: sinks_ok_def)
  then have "sid k \<notin> set (map sid (butlast (sinks s)))" by (auto dest: in_set_butlastD)
  then have s': "s' = s\<lparr>sinks := insert_sink k (sinks s)\<rparr>" using assms(1) n by (auto simp: net_add_packet_sink_def add_sink_def)
  have d: "sid k \<notin> set (map sid ks) \<Longrightarrow> distinct (map sid ks) \<Longrightarrow> distinct (map sid (insert_sink k ks))" for ks
    by (induction ks) (auto simp: set_insert_sink)
  have q: "queued (insert_sink k ks) = queued ks" for ks using assms(4) by (induction ks) (auto simp: queued_def)
  show "sinks_ok (insert (sid k) X) s'"
    using assms(2) n d [of "sinks s"] q by (auto simp: sinks_ok_def s' set_insert_sink sorted_insert_sink)
  show "\<exists>ks. s' = s\<lparr>sinks := ks\<rparr>" using s' by blast
qed

lemma mac_found: "probe_ports ports mac0 c = (True, mac, c') \<Longrightarrow> length mac = 6"
proof (induction ports mac0 c rule: probe_ports.induct)
  case (2 port ports mac0 s)
  let ?g = "get_prom (s\<lparr>base := port, data_port := port + 0x10\<rparr>)"
  show ?case
  proof (cases "fst ?g")
    case True
    with 2(2) have "mac = fst (snd ?g)" by (auto simp: Let_def case_prod_unfold)
    then show ?thesis by (simp add: get_prom_def Let_def case_prod_unfold)
  next
    case False
    with 2(2) have "probe_ports ports (fst (snd ?g)) (snd (snd ?g)) = (True, mac, c')" by (simp add: Let_def case_prod_unfold)
    with 2(1) [OF refl refl prod.collapse prod.collapse] False show ?thesis by auto
  qed
qed simp

definition network_ok :: "'a dhcp_net_scheme \<Rightarrow> bool" where
  "network_ok s \<longleftrightarrow> in_hand s = 0 \<and> arp_inv s \<and> dhcp_inv s \<and> sorted_sinks (sinks s) \<and> distinct (map sid (sinks s))"

lemma turn_keeps:
  assumes "turn s s'" "network_ok s"
  shows "network_ok s' \<and> map sid (sinks s') = map sid (sinks s)"
proof -
  obtain t bytes where p: "net_pump (s\<lparr>now := t, junk := bytes\<rparr>) = Some s'" using assms(1) by (rule turnE)
  have k: "dhcp_inv (s\<lparr>now := t, junk := bytes\<rparr>)" "arp_inv (s\<lparr>now := t, junk := bytes\<rparr>)" "in_hand (s\<lparr>now := t, junk := bytes\<rparr>) = 0"
    using assms(2) by (simp_all add: network_ok_def dhcp_inv_def interface_of_def arp_inv_def in_hand_def)
  from net_pump_effect [OF p k(1,2)] k(3) assms(2) show ?thesis by (auto simp: network_ok_def)
qed

lemma net_init_state:
  assumes "net_init i j k s = Some t" "sinks s = []" "distinct [i, j, k]"
  shows "sinks_ok {i, j, k} t \<and> (\<exists>ks. t = s\<lparr>txq := [], arpq := [], cache := [], sinks := ks\<rparr>)"
proof -
  let ?s = "s\<lparr>txq := [], arpq := [], cache := []\<rparr>"
  from assms(1) obtain a b where a: "net_add_packet_sink (arp_sink (now s) i) ?s = Some a"
    and b: "net_add_packet_sink (icmp_sink j) a = Some b" and c: "net_add_packet_sink (unwanted_ipv4_sink k) b = Some t"
    by (auto simp: net_init_def net_arp_init_def net_icmp_init_def bind_eq_Some_conv Let_def)
  have q: "squeue (arp_sink (now s) i) = []" "squeue (icmp_sink j) = []" "squeue (unwanted_ipv4_sink k) = []"
    "sid (arp_sink (now s) i) = i" "sid (icmp_sink j) = j" "sid (unwanted_ipv4_sink k) = k"
    by (simp_all add: arp_sink_def icmp_sink_def unwanted_ipv4_sink_def packet_sink_alloc_def)
  have 0: "sinks_ok {} ?s" using assms(2) by (simp add: sinks_ok_def sorted_sinks_def queued_def)
  note A = add_sink_state [OF a 0, unfolded q, simplified]
  note B = add_sink_state [OF b A(1), unfolded q]
  have "j \<notin> {i}" "k \<notin> {j, i}" using assms(3) by auto
  note B = B [OF this(1) refl] and C = add_sink_state [OF c, of "{j, i}", unfolded q, OF _ this(2) refl]
  from C [OF B(1)] A(2) B(2) show ?thesis by (auto simp: insert_commute)
qed

lemma started_ok:
  assumes "fresh_network s" "start_network i j k l s = Some s0" "distinct [i, j, k, l]" "fst (eth_init (if_mac (conf s)) (card s))"
  shows "network_ok s0 \<and> set (map sid (sinks s0)) = {i, j, k, l}"
proof -
  have f: "sinks s = []" "alive s = 0" "cache s = []" "select_wait_time s = 5" using assms(1) by (simp_all add: fresh_network_def)
  from assms(2) obtain t where t: "net_init i j k s = Some t" by (auto simp: start_network_def bind_eq_Some_conv)
  have "distinct [i, j, k]" using assms(3) by simp
  from net_init_state [OF t f(1) this] obtain ks where n: "sinks_ok {i, j, k} t" "t = s\<lparr>txq := [], arpq := [], cache := [], sinks := ks\<rparr>" by blast
  obtain mac c where e: "eth_init (if_mac (conf s)) (card s) = (True, mac, c)" using assms(4) by (metis prod.collapse)
  have m: "length mac = 6" using mac_found [of _ _ _ mac c] e by (auto simp: eth_init_def)
  let ?t = "t\<lparr>conf := (conf t)\<lparr>if_mac := mac\<rparr>, card := c\<rparr>"
  have "dhcp_init l ?t = Some s0" using assms(2) t e n(2) by (simp add: start_network_def Let_def)
  then obtain u where u: "net_add_packet_sink (dhcp_sink l) (?t\<lparr>dhcp_sid := l\<rparr>) = Some u" and d: "dhcp_enter_state DHCP_DISCOVER u = Some s0"
    by (auto simp: dhcp_init_def bind_eq_Some_conv)
  have q: "squeue (dhcp_sink l) = []" "sid (dhcp_sink l) = l" by (simp_all add: dhcp_sink_def packet_sink_alloc_def)
  have "sinks_ok {i, j, k} (?t\<lparr>dhcp_sid := l\<rparr>)" using n(1) by (simp add: sinks_ok_def)
  moreover have "l \<notin> {i, j, k}" using assms(3) by auto
  ultimately have su: "sinks_ok {i, j, k, l} u" "\<exists>ks. u = ?t\<lparr>dhcp_sid := l, sinks := ks\<rparr>"
    using add_sink_state [OF u, of "{i, j, k}", unfolded q] by (auto simp: insert_commute)
  have "in_hand u = 0" "arp_inv u" "select_wait_time u = 5"
    using su f m n(2) by (auto simp: sinks_ok_def in_hand_def arp_inv_def)
  moreover have w: "dhcp_inv s0" "in_hand s0 = in_hand u"
    using discover_inv [OF d] enter_discover [OF d] \<open>select_wait_time u = 5\<close> by simp_all
  moreover have c: "calm_arp u s0" by (rule enter_state_arp [OF d])
  ultimately have "in_hand s0 = 0" "arp_inv s0" by (simp_all add: calm_arp_def)
  moreover have sids: "map stopped (sinks s0) = map stopped (sinks u)" using c by (simp add: calm_arp_def)
  then have "map sid (sinks s0) = map sid (sinks u)" by (rule stopped_sids)
  moreover have "map score_sink (sinks s0) = map score_sink (sinks u)"
    using arg_cong [OF sids, of "map score_sink"] by (simp add: comp_def)
  then have "sorted_sinks (sinks s0) = sorted_sinks (sinks u)" by (simp add: sorted_scores)
  ultimately show ?thesis using w su(1) by (simp add: network_ok_def sinks_ok_def)
qed

text \<open>The start returns when the card goes on reporting that its remote transfers are complete.\<close>

definition card_answers :: "nic \<Rightarrow> bool" where
  "card_answers c \<longleftrightarrow> (\<forall>n. \<exists>k \<ge> n. port_in c k AND 0x40 \<noteq> 0)"

lemma transmit_returns: "card_answers (card s) \<Longrightarrow> \<exists>s'. transmit_now q s = Some s'"
  using send_returns [of "card s" "fst (wire q)" "snd (wire q)"]
  by (auto simp: card_answers_def transmit_now_def eth_attempt_tx_def eth_tx_def bind_eq_Some_conv)

lemma discover_returns:
  assumes "length (if_mac (conf s)) = 6" "card_answers (card s)"
  shows "\<exists>t. dhcp_enter_state DHCP_DISCOVER s = Some t"
proof -
  let ?r = "reset_interface (s\<lparr>dhcp_state := DHCP_DISCOVER\<rparr>)"
  have l: "length discover_options \<le> 1000" by (simp add: discover_options_def)
  have m: "length (if_mac (conf ?r)) = 6" using assms(1) by (simp add: reset_interface_def)
  obtain p q where p: "packet_create_dhcp ipv4_broadcast dhcp_type_discover discover_options ?r = Some (p, packet_born ?r)"
    "net_tx p (packet_born ?r) = transmit_now q (packet_born ?r)" by (rule dhcp_message_sent [OF m l])
  have "card_answers (card (packet_born ?r))" using assms(2) by (simp add: reset_interface_def packet_born_def)
  then obtain v where "transmit_now q (packet_born ?r) = Some v" using transmit_returns [of "packet_born ?r" q] by blast
  then show ?thesis using p by (simp add: Let_def)
qed

lemma start_returns:
  assumes "fresh_network s" "distinct [i, j, k, l]" "fst (eth_init (if_mac (conf s)) (card s))" "card_answers (card s)"
  shows "\<exists>s0. start_network i j k l s = Some s0"
proof -
  have f: "sinks s = []" using assms(1) by (simp add: fresh_network_def)
  have add: "sid x \<notin> set (map sid (sinks t)) \<Longrightarrow> \<exists>u. net_add_packet_sink x t = Some u" for x and t :: "'a dhcp_net_scheme"
    by (auto simp: net_add_packet_sink_def add_sink_def dest: in_set_butlastD)
  have "\<exists>t. net_init i j k s = Some t"
    using f assms(2) by (auto simp: net_init_def net_arp_init_def net_icmp_init_def net_add_packet_sink_def add_sink_def set_insert_sink
        arp_sink_def icmp_sink_def unwanted_ipv4_sink_def packet_sink_alloc_def Let_def)
  then obtain t where t: "net_init i j k s = Some t" ..
  have "distinct [i, j, k]" using assms(2) by simp
  from net_init_state [OF t f this] obtain ks where n: "sinks_ok {i, j, k} t" "t = s\<lparr>txq := [], arpq := [], cache := [], sinks := ks\<rparr>" by blast
  obtain mac c where e: "eth_init (if_mac (conf s)) (card s) = (True, mac, c)" using assms(3) by (metis prod.collapse)
  then have c: "length mac = 6" "port_in c = port_in (card s)"
    using mac_found probe_ports_found by (auto simp: eth_init_def)
  let ?t = "t\<lparr>conf := (conf t)\<lparr>if_mac := mac\<rparr>, card := c, dhcp_sid := l\<rparr>"
  have "sid (dhcp_sink l) \<notin> set (map sid (sinks ?t))"
    using n(1) assms(2) by (auto simp: sinks_ok_def dhcp_sink_def packet_sink_alloc_def)
  then obtain u where u: "net_add_packet_sink (dhcp_sink l) ?t = Some u" using add by blast
  then have "conf u = (conf t)\<lparr>if_mac := mac\<rparr>" "card u = c" by (auto simp: net_add_packet_sink_def)
  then obtain v where "dhcp_enter_state DHCP_DISCOVER u = Some v"
    using discover_returns [of u] c assms(4) by (auto simp: card_answers_def)
  then show ?thesis using t e u n(2) by (simp add: start_network_def dhcp_init_def)
qed


definition sample_start :: dhcp_net where
  "sample_start = sample_dhcp\<lparr>sinks := [], alive := 0, cache := [], card := idle_card\<lparr>port_in := \<lambda>n. 0xC0\<rparr>\<rparr>"


end
