(* ===== verification/Spec2Isabelle.thy ===== *)
theory Spec2Isabelle
  imports Heap_Safety Qsort Divmod MemOps PacketQueue Loader_Safety Tftp_Transfer Env
    Cli_Lines CliFs Rtc Memtest_Sound CliLoad CliNet Rom Report
    Ticks Startup
begin

text \<open>
  GOGOBOOT is the boot loader of three single-board computers with processors of the 68000 family: the Q40, the KISS-68030
  and the Mini-M68K. It starts from ROM, measures the memory, sets up a heap, the serial console, the disks and an
  Ethernet card, obtains an address by DHCP, and then obeys a command line that loads programs from FAT file systems or by TFTP and
  starts them. This development is a shallow embedding of its C code, and of the assembler that its drivers and libraries contain.

  \<^bold>\<open>Conventions.\<close> A machine integer is a word of its width (\<open>u8\<close>, \<open>u16\<close>, \<open>u32\<close> of theory \<open>Prelude\<close>; the
  target is big-endian with 32-bit \<^verbatim>\<open>int\<close>, \<^verbatim>\<open>long\<close> and pointers, and signed plain \<^verbatim>\<open>char\<close>). State is passed
  explicitly, in records named after the structures and variables of the code. \<open>None\<close> is behaviour that the code has no result for: an access
  outside an object or through a null pointer, a halt, or a loop that does not end; so a theorem that says \<open>Some\<close> says also that the code
  stays inside its objects and returns. A C string is the list of the bytes of its object from the pointer on (\<open>cbytes\<close>), \<open>cstr\<close>
  its characters up to the terminator. Definitions keep the names of the functions; where two files have a function of the same name, or it
  clashes with a name of the library, a prefix tells them apart.

  \<^bold>\<open>Memory and library\<close> (\<^verbatim>\<open>lib\<close>, \<^verbatim>\<open>libgcc\<close>).
  \<^item> \<open>Tinyalloc\<close>, \<open>Heap_Invariant\<close>, \<open>Heap_Safety\<close>: the allocator of \<^verbatim>\<open>lib/tinyalloc.c\<close> and \<^verbatim>\<open>malloc\<close>,
    \<^verbatim>\<open>calloc\<close>, \<^verbatim>\<open>realloc\<close>, \<^verbatim>\<open>free\<close> of \<^verbatim>\<open>lib/stdlib.c\<close>. A node is \<open>Block\<close>, the three linked lists are lists
    of nodes (record \<open>heap\<close>). \<open>heap_wf\<close> is the invariant: the blocks tile the managed area. The locale \<open>allocator\<close> states what
    a client relies on; its interpretation \<open>ta\<close> carries the loader and the commands.
  \<^item> \<open>CString\<close>, \<open>Strtoul\<close>, \<open>Printf\<close>, \<open>Console\<close>: strings and character classes, number parsing, and formatted output as the list of
    bytes sent. \<open>Qsort\<close>: the sorters for 2-byte, 4-byte and other items, with the locale \<open>comparator\<close>. \<open>MemOps\<close>:
    \<^verbatim>\<open>memcpy\<close>, \<^verbatim>\<open>memmove\<close>, \<^verbatim>\<open>memset\<close> on a flat memory, for the early processors and for the others. \<open>Divmod\<close>: the
    division routines that the 68000 needs, against division of integers.

  \<^bold>\<open>Start and loader\<close> (\<^verbatim>\<open>core\<close> and the targets).
  \<^item> \<open>Mem\<close>, \<open>Boot\<close>: sizing the RAM on a bus that may mirror it, the layout of each target (record \<open>layout\<close>) and the heap in it.
  \<^item> \<open>Loader\<close>, \<open>Loader_Safety\<close>: \<^verbatim>\<open>core/loader.c\<close>, the ELF and flat images, the boot information for Linux and NetBSD, and the bounce
    buffer that holds what belongs where gogoboot itself is (record \<open>loader\<close>). Leaving for the program is the outcome \<open>Entered\<close>; \<open>image\<close> is
    the memory the program finds.
  \<^item> \<open>Memtest\<close>, \<open>Memtest_Sound\<close>: \<^verbatim>\<open>core/memtest.c\<close>, with reading as a parameter so that faulty memory can be stated.
  \<^item> \<open>Timer\<close>, \<open>Uart\<close>: the tick counter and the serial port.

  \<^bold>\<open>Network\<close> (\<^verbatim>\<open>net\<close>).
  \<^item> \<open>PacketQueue\<close> shows that the pointer queues implement the locale \<open>fifo\<close>; the theories above use lists for them.
  \<^item> \<open>Packet\<close>, \<open>Checksum\<close>: the structures of a packet on the bytes of its frame. \<open>Ne2000\<close>: the driver of the card, which is
    any sequence of register values (record \<open>nic\<close>).
  \<^item> \<open>Net\<close>, \<open>Arp\<close>, \<open>Icmp\<close>, \<open>UdpTx\<close>, \<open>Dhcp\<close>, \<open>Tftp\<close>, \<open>Tftp_Transfer\<close>: the sinks, the receive and transmit
    pipes, and the protocols. The record \<open>net\<close> is extended by the DHCP client and again by a TFTP transfer, as these add variables to those of
    the core. Every function that takes a packet over interprets the locale \<open>packet_consumer\<close>: the packet is queued or freed, once. The cache of ARP
    interprets the locale \<open>table\<close> of \<open>Prelude\<close>.
  \<^item> \<open>NetPump\<close>: one turn of the stack, which calls all of them.

  \<^bold>\<open>Disks and clocks.\<close>
  \<^item> \<open>Ide\<close>: \<^verbatim>\<open>core/ide.c\<close> and the glue to FatFs, over the register accesses of the record \<open>ide_ops\<close>; \<open>Ide_Drive\<close>: the same on
    a drive as the ATA standard describes it; \<open>Ppide\<close>: the two implementations of these accesses, the 8255 of the ECB machines with its assembler
    loops and the ISA bus of the Q40, which are shown to agree.
  \<^item> \<open>Rtc\<close>: the clocks DS1302 and that of the Q40, and the time stamps of files.

  \<^bold>\<open>Commands\<close> (\<^verbatim>\<open>cli\<close>). \<open>Cmdline\<close>, \<open>Cli\<close>, \<open>Cli_Lines\<close>: quoting, dispatch, scripts and the line editor; what a command does to the
  machine is the parameter \<open>exec\<close> of record \<open>shell\<close> there. The commands themselves: \<open>Env\<close> (variables and numbers), \<open>FileIO\<close> and
  \<open>CliFs\<close> (files), \<open>CliMem\<close> (dump, test, write), \<open>CliLoad\<close> (load, save, execute), \<open>CliNet\<close> (tftp, netinfo), \<open>Rom\<close> (the
  commands of the targets).

  \<^bold>\<open>What is shown.\<close>
  \<^item> Storage: every sequence of requests keeps the heap well-formed and its blocks disjoint, each allocation is characterised in every branch, and
    a heap without blocks has merged into one (C1, C11, C28). A loaded file is, once the bounce buffer is copied, exactly where it belongs and changes nothing else (C2, C3, C20,
    C18); the guard of the layout is exact (C32); sectors written are read back and no other changes (C5), through either interface (C7).
  \<^item> Communication: TFTP delivers the file or reports failure, for any loss, repetition and reordering (C4, C14); frames leave the card in order (C8);
    the DHCP client changes the address only to an acknowledged lease (C9, C27); a turn of the stack loses no packet and frees none twice (C10); ARP, ICMP
    and the checksums answer and verify as their standards say (C22 to C26); the console carries every byte (C17, C21).
  \<^item> Commands: every line is dispatched, or refused, as its quoting says (C12, C35, C36, C37); the commands on files, memory and variables do
    what they announce (C15, C19, C34, C38, C39); the memory test blames no good memory and finds every stuck bit (C6, C16).
  \<^item> Library: sorting, division, moving memory and the queues agree with their mathematical counterparts (C13, C30, C31, C33); addresses
    and dates survive printing (C29, C40).

  \<^bold>\<open>Loops, turns and fuel.\<close> Loops that may not end are \<open>partial_function (option)\<close> (waiting for the serial port, the card and the drive, reading a
  directory or a file to its end, walking a linked list), and the theorems that say they return have as hypothesis what makes them return: a line
  that gets ready, a directory that ends. The events a loop waits for are given as lists: the keys of the line editor and of the memory test, the turns
  of a transfer and of the wait before the boot script; a loop that needs more of them than are given is \<open>None\<close>, and the theorems hold for every list that is
  long enough, which their hypothesis \<open>= Some\<close> or an explicit length says. Two definitions have fuel: \<open>execute_cmd\<close>, where it is the depth to which scripts start
  scripts (a line that starts no script needs none of it, and \<open>script_runs\<close> holds at every depth), and \<open>timer_wait\<close>, for which enough fuel is shown to exist.
  Addresses wrap at 32 bits; hypotheses that a range lies within the address space are written with \<open>unat\<close>.

  \<^bold>\<open>Parameters.\<close> The hardware (ports, cards, drives, RAM on its bus) and the vendored FatFs (opening, reading, writing, directories) are arguments of the
  definitions. Hypotheses about them are predicates with names that state documented behaviour (for instance \<open>ata\<close> for a drive, \<open>same_reset\<close> for a bus), and each
  property that has one comes with a witness on a concrete instance.

  \<^bold>\<open>Not modelled.\<close> FatFs (\<^verbatim>\<open>fatfs/ff.c\<close>, \<^verbatim>\<open>ffunicode.c\<close> and their headers) is third-party code and a parameter; the processor-specific assembler
  (startup, exception vectors, cache control, the jump into a loaded program) is described only by its effect, as none of it computes anything;
  messages are left out where they carry no result, unless the property is about them; the layout of the linker scripts enters as parameters.
\<close>

end
